(* ===== verification/Prelude.thy ===== *)
theory Prelude
  imports Main "HOL-Library.Word"
begin

text \<open>
  Shared vocabulary of the development: C's fixed-width integers as words, the outcome of
  a piece of kernel code (a value, or the reason why it does not return one), the byte
  memory with its 32-bit little-endian accesses, and the lemmas on words, pages and memory
  that the component theories use.
\<close>

unbundle bit_operations_syntax

section \<open>Integers\<close>

type_synonym u8 = "8 word"
type_synonym u16 = "16 word"
type_synonym u32 = "32 word"

text \<open>C's conversion between \<^verbatim>\<open>uint\<close> and \<^verbatim>\<open>int\<close>: the same 32 bits read unsigned or signed.\<close>

abbreviation int_of_u32 :: "u32 \<Rightarrow> int" where
  "int_of_u32 w \<equiv> sint w"

abbreviation u32_of_int :: "int \<Rightarrow> u32" where
  "u32_of_int i \<equiv> word_of_int i"

text \<open>C's truncating integer division (the divisor is always a positive constant here).\<close>

definition cdiv :: "int \<Rightarrow> int \<Rightarrow> int" where
  "cdiv a b = (if a < 0 then - ((- a) div b) else a div b)"

text \<open>The distance to the top of the address space, the measure of loops that count up.\<close>

lemma u32_dist_less: "a < b \<Longrightarrow> 4294967296 - unat b < 4294967296 - unat a" for a b :: u32
proof -
  have "unat b < 2 ^ 32" using unsigned_less [of b] by simp
  then show "a < b \<Longrightarrow> 4294967296 - unat b < 4294967296 - unat a"
    by (simp add: word_less_nat_alt)
qed

lemma sint_small: "- (2 ^ 31) \<le> i \<Longrightarrow> i < 2 ^ 31 \<Longrightarrow> int_of_u32 (u32_of_int i) = i"
  unfolding int_word_sint by simp

lemma sint_of_nat_small: "n < 2 ^ 31 \<Longrightarrow> int_of_u32 (of_nat n) = int n"
  using sint_small [of "int n"] by simp

lemma unat_minus_1_u32: "unat (- 1 :: u32) = 4294967295"
proof -
  have "(- 1 :: u32) = 4294967295" by simp
  then have "unat (- 1 :: u32) = unat (4294967295 :: u32)" by (rule arg_cong)
  also have "\<dots> = 4294967295" by (rule unat_numeral [THEN trans]) simp
  finally show ?thesis .
qed

section \<open>Outcomes\<close>

text \<open>
  Why a call does not return: the kernel panics with a message, the C code does something
  the language leaves undefined (an access outside an array, a null dereference), a spin
  lock is held by another CPU, the process has to sleep on a channel until another
  process runs, the process has exited, or the address a loop counts with wraps around past the end of the 32-bit
  address space, where the model stops (the properties show that the kernel's own calls
  never get there).
\<close>

text \<open>
  The channels processes sleep on. In the code a channel is the address of a kernel object;
  distinct objects are distinct constructors here (\<open>NoChan\<close> is the null pointer).
\<close>

datatype chan =
    NoChan
  | ChanProc nat
  | ChanTicks
  | ChanLog
  | ChanCons
  | ChanBuf nat
  | ChanBufLk nat
  | ChanInodeLk nat
  | ChanPipeRead u32
  | ChanPipeWrite u32

datatype stop =
    Panic string
  | Undef string
  | Spins
  | Sleeps chan
  | Exits
  | Wraps

type_synonym 'a res = "stop + 'a"

definition rbind :: "'a res \<Rightarrow> ('a \<Rightarrow> 'b res) \<Rightarrow> 'b res" where
  "rbind r f = (case r of Inl e \<Rightarrow> Inl e | Inr x \<Rightarrow> f x)"

lemma rbind_simps [simp]:
  "rbind (Inl e) f = Inl e"
  "rbind (Inr x) f = f x"
  by (simp_all add: rbind_def)

lemma rbind_Inr_iff: "rbind r f = Inr y \<longleftrightarrow> (\<exists>x. r = Inr x \<and> f x = Inr y)"
  by (cases r) auto

lemma rbind_Inl_iff: "rbind r f = Inl e \<longleftrightarrow> r = Inl e \<or> (\<exists>x. r = Inr x \<and> f x = Inl e)"
  by (cases r) auto

lemma rbind_InrE:
  assumes "rbind r f = Inr y"
  obtains x where "r = Inr x" and "f x = Inr y"
  using assms by (cases r) auto

lemma rbind_cong [fundef_cong]:
  assumes "r = r'" and "\<And>x. r' = Inr x \<Longrightarrow> f x = g x"
  shows "rbind r f = rbind r' g"
  using assms by (cases r') auto

lemma rbind_assoc: "rbind (rbind r f) g = rbind r (\<lambda>x. rbind (f x) g)"
  by (cases r) auto

lemma rbind_if: "rbind (if b then r else r') f = (if b then rbind r f else rbind r' f)"
  by simp

section \<open>Byte memory\<close>

text \<open>
  The kernel's view of physical memory: bytes by kernel virtual address. A 32-bit access
  takes four consecutive bytes, least significant first.
\<close>

type_synonym memory = "u32 \<Rightarrow> u8"

definition load32 :: "memory \<Rightarrow> u32 \<Rightarrow> u32" where
  "load32 m a = ucast (m a) OR push_bit 8 (ucast (m (a + 1)))
     OR push_bit 16 (ucast (m (a + 2))) OR push_bit 24 (ucast (m (a + 3)))"

definition store32 :: "memory \<Rightarrow> u32 \<Rightarrow> u32 \<Rightarrow> memory" where
  "store32 m a v = m(a := ucast v, a + 1 := ucast (drop_bit 8 v),
     a + 2 := ucast (drop_bit 16 v), a + 3 := ucast (drop_bit 24 v))"

lemma split_bytes:
  "(ucast (ucast v :: u8) :: u32) OR push_bit 8 (ucast (ucast (drop_bit 8 v) :: u8))
     OR push_bit 16 (ucast (ucast (drop_bit 16 v) :: u8))
     OR push_bit 24 (ucast (ucast (drop_bit 24 v) :: u8)) = v" (is "?bytes = v") for v :: u32
proof (rule bit_word_eqI)
  fix n assume "n < LENGTH(32)"
  then consider "n < 8" | "8 \<le> n" "n < 16" | "16 \<le> n" "n < 24" | "24 \<le> n" "n < 32"
    by fastforce
  then show "bit ?bytes n \<longleftrightarrow> bit v n"
    by cases (auto simp: bit_simps)
qed

lemma load32_store32_same [simp]: "load32 (store32 m a v) a = v"
  by (simp add: load32_def store32_def split_bytes)

lemma load32_cong:
  assumes "m a = m' a" "m (a + 1) = m' (a + 1)" "m (a + 2) = m' (a + 2)" "m (a + 3) = m' (a + 3)"
  shows "load32 m a = load32 m' a"
  using assms by (simp add: load32_def)

subsection \<open>Aligned words\<close>

definition aligned4 :: "u32 \<Rightarrow> bool" where
  "aligned4 a \<longleftrightarrow> unat a mod 4 = 0"

lemma unat_add_no_wrap:
  fixes a :: u32
  assumes "unat a + k < 2 ^ 32"
  shows "unat (a + of_nat k) = unat a + k"
proof -
  have "k < 2 ^ 32" using assms by simp
  then have "unat (of_nat k :: u32) = k" unfolding unat_of_nat by (intro mod_less) simp
  then show ?thesis using assms by (simp add: unat_word_ariths)
qed

text \<open>Addresses given as numbers.\<close>

lemma unat_nat: "a < 4294967296 \<Longrightarrow> unat (of_nat a :: u32) = a"
  unfolding unat_of_nat by (intro mod_less) simp

lemma nat_word_eq: "a < 4294967296 \<Longrightarrow> b < 4294967296 \<Longrightarrow> (of_nat a :: u32) = of_nat b \<longleftrightarrow> a = b"
  by (metis unat_nat)

lemma nat_word_less: "a < 4294967296 \<Longrightarrow> b < 4294967296 \<Longrightarrow> (of_nat a :: u32) < of_nat b \<longleftrightarrow> a < b"
  by (simp add: word_less_nat_alt unat_nat)

lemma nat_word_le: "a < 4294967296 \<Longrightarrow> b < 4294967296 \<Longrightarrow> (of_nat a :: u32) \<le> of_nat b \<longleftrightarrow> a \<le> b"
  by (simp add: word_le_nat_alt unat_nat)

lemma unat_add_small:
  fixes a :: u32
  assumes "unat a mod n = 0" "k < n" "n dvd 2 ^ 32"
  shows "unat (a + of_nat k) = unat a + k"
proof -
  have "n > 0" using assms(2) by simp
  obtain q where q: "(2::nat) ^ 32 = n * q" using assms(3) by (auto simp: dvd_def)
  obtain r where r: "unat a = n * r" using assms(1) by (auto simp: mod_eq_0_iff_dvd dvd_def)
  have "unat a < 2 ^ 32" using unsigned_less [of a] by simp
  then have "r < q" using q r \<open>n > 0\<close> by (metis mult_less_cancel1)
  then have "n * r + n \<le> n * q"
    by (metis Suc_leI mult_Suc_right mult_le_mono2 add.commute)
  then have "unat a + k < 2 ^ 32" using q r assms(2) by linarith
  then show ?thesis
    by (simp add: unat_word_ariths unat_of_nat)
qed

lemma unat_add_byte:
  assumes "aligned4 a" "k < 4"
  shows "unat (a + of_nat k) = unat a + k"
  using unat_add_small [of a 4 k] assms by (simp add: aligned4_def)

lemma aligned4_bytes_distinct:
  assumes "aligned4 a" "aligned4 b" "a \<noteq> b" "j < 4" "k < 4"
  shows "a + of_nat j \<noteq> b + of_nat k"
proof
  assume "a + of_nat j = b + of_nat k"
  then have "unat a + j = unat b + k"
    using assms by (metis unat_add_byte)
  then have "unat a = unat b"
    using assms unfolding aligned4_def by presburger
  with assms(3) show False by (simp add: word_unat_eq_iff)
qed

lemma store32_other:
  assumes "aligned4 a" "aligned4 b" "a \<noteq> b" "k < 4"
  shows "store32 m a v (b + of_nat k) = m (b + of_nat k)"
proof -
  have "\<And>j. j < 4 \<Longrightarrow> b + of_nat k \<noteq> a + of_nat j"
    using aligned4_bytes_distinct [OF assms(1,2,3)] assms(4) by metis
  from this [of 0] this [of 1] this [of 2] this [of 3] show ?thesis
    by (simp add: store32_def)
qed

lemma load32_store32_other [simp]:
  assumes "aligned4 a" "aligned4 b" "a \<noteq> b"
  shows "load32 (store32 m a v) b = load32 m b"
  using store32_other [OF assms, of 0 m v] store32_other [OF assms, of 1 m v]
    store32_other [OF assms, of 2 m v] store32_other [OF assms, of 3 m v]
  by (intro load32_cong) simp_all

end
