(* ===== verification/Mmu.thy ===== *)
theory Mmu
  imports Prelude
begin

text \<open>
  The constants and macros of \<^verbatim>\<open>param.h\<close>, \<^verbatim>\<open>memlayout.h\<close>, \<^verbatim>\<open>mmu.h\<close> and \<^verbatim>\<open>types.h\<close> that
  the kernel code uses, with the arithmetic of pages: rounding, the three-part structure of
  a virtual address, page table entries, and what a write to one page leaves alone.
\<close>

section \<open>Constants\<close>

subsection \<open>param.h and memlayout.h\<close>

abbreviation (input) NPROC :: "'a::numeral" where "NPROC \<equiv> 64"
abbreviation (input) KSTACKSIZE :: "'a::numeral" where "KSTACKSIZE \<equiv> 4096"
abbreviation (input) NCPU :: "'a::numeral" where "NCPU \<equiv> 8"
abbreviation (input) NOFILE :: "'a::numeral" where "NOFILE \<equiv> 16"
abbreviation (input) NFILE :: "'a::numeral" where "NFILE \<equiv> 100"
abbreviation (input) NINODE :: "'a::numeral" where "NINODE \<equiv> 50"
abbreviation (input) NDEV :: "'a::numeral" where "NDEV \<equiv> 10"
abbreviation (input) ROOTDEV :: "'a::one" where "ROOTDEV \<equiv> 1"
abbreviation (input) MAXARG :: "'a::numeral" where "MAXARG \<equiv> 32"
abbreviation (input) MAXOPBLOCKS :: "'a::numeral" where "MAXOPBLOCKS \<equiv> 10"
abbreviation (input) LOGSIZE :: "'a::numeral" where "LOGSIZE \<equiv> 30"
abbreviation (input) NBUF :: "'a::numeral" where "NBUF \<equiv> 30"
abbreviation (input) FSSIZE :: "'a::numeral" where "FSSIZE \<equiv> 1000"

abbreviation (input) EXTMEM :: "'a::numeral" where "EXTMEM \<equiv> 0x100000"
abbreviation (input) PHYSTOP :: "'a::numeral" where "PHYSTOP \<equiv> 0xE000000"
abbreviation (input) DEVSPACE :: "'a::numeral" where "DEVSPACE \<equiv> 0xFE000000"
abbreviation (input) KERNBASE :: "'a::numeral" where "KERNBASE \<equiv> 0x80000000"
abbreviation (input) KERNLINK :: "'a::numeral" where "KERNLINK \<equiv> 0x80100000"
abbreviation (input) HEAPLIMIT :: "'a::numeral" where "HEAPLIMIT \<equiv> 0x7F000000"
abbreviation (input) SHMMAXSEG :: "'a::numeral" where "SHMMAXSEG \<equiv> 4096"
abbreviation (input) SHMMIN :: "'a::numeral" where "SHMMIN \<equiv> 1024"
abbreviation (input) MAXSEGSIZE :: "'a::numeral" where "MAXSEGSIZE \<equiv> 16777216"

subsection \<open>types.h: flags, commands and errors of the shared memory calls\<close>

abbreviation (input) SHM_R :: int where "SHM_R \<equiv> 1"
abbreviation (input) SHM_W :: int where "SHM_W \<equiv> 2"
abbreviation (input) IPC_CREAT :: int where "IPC_CREAT \<equiv> 4"
abbreviation (input) IPC_EXCL :: int where "IPC_EXCL \<equiv> 16"
abbreviation (input) IPC_PRIVATE :: int where "IPC_PRIVATE \<equiv> - 99999"
abbreviation (input) EEXIST :: int where "EEXIST \<equiv> - 101"
abbreviation (input) EINVAL :: int where "EINVAL \<equiv> - 102"
abbreviation (input) ENOENT :: int where "ENOENT \<equiv> - 103"
abbreviation (input) ENOMEM :: int where "ENOMEM \<equiv> - 104"
abbreviation (input) ENOSPC :: int where "ENOSPC \<equiv> - 105"
abbreviation (input) EIDRM :: int where "EIDRM \<equiv> - 202"
abbreviation (input) SHM_REMAP :: int where "SHM_REMAP \<equiv> 3"
abbreviation (input) SHM_RND :: int where "SHM_RND \<equiv> 4"
abbreviation (input) SHM_DEST :: "'a::numeral" where "SHM_DEST \<equiv> 32"
abbreviation (input) IPC_STAT :: int where "IPC_STAT \<equiv> 1"
abbreviation (input) IPC_SET :: int where "IPC_SET \<equiv> 2"
abbreviation (input) IPC_RMID :: int where "IPC_RMID \<equiv> 3"
abbreviation (input) IPC_INFO :: int where "IPC_INFO \<equiv> 4"
abbreviation (input) SHM_INFO :: int where "SHM_INFO \<equiv> 5"

subsection \<open>mmu.h\<close>

abbreviation (input) NPDENTRIES :: "'a::numeral" where "NPDENTRIES \<equiv> 1024"
abbreviation (input) NPTENTRIES :: "'a::numeral" where "NPTENTRIES \<equiv> 1024"
abbreviation (input) PGSIZE :: "'a::numeral" where "PGSIZE \<equiv> 4096"
abbreviation (input) PTE_P :: u32 where "PTE_P \<equiv> 1"
abbreviation (input) PTE_W :: u32 where "PTE_W \<equiv> 2"
abbreviation (input) PTE_U :: u32 where "PTE_U \<equiv> 4"

definition PDX :: "u32 \<Rightarrow> u32" where
  "PDX va = drop_bit 22 va AND 0x3FF"

definition PTX :: "u32 \<Rightarrow> u32" where
  "PTX va = drop_bit 12 va AND 0x3FF"

definition PGADDR :: "u32 \<Rightarrow> u32 \<Rightarrow> u32 \<Rightarrow> u32" where
  "PGADDR d t off = push_bit 22 d OR push_bit 12 t OR off"

definition PGROUNDUP :: "u32 \<Rightarrow> u32" where
  "PGROUNDUP sz = (sz + PGSIZE - 1) AND NOT (PGSIZE - 1)"

definition PGROUNDDOWN :: "u32 \<Rightarrow> u32" where
  "PGROUNDDOWN a = a AND NOT (PGSIZE - 1)"

definition PTE_ADDR :: "u32 \<Rightarrow> u32" where
  "PTE_ADDR pte = pte AND NOT 0xFFF"

definition PTE_FLAGS :: "u32 \<Rightarrow> u32" where
  "PTE_FLAGS pte = pte AND 0xFFF"

definition V2P :: "u32 \<Rightarrow> u32" where
  "V2P a = a - KERNBASE"

definition P2V :: "u32 \<Rightarrow> u32" where
  "P2V a = a + KERNBASE"

section \<open>Pages\<close>

definition page_aligned :: "u32 \<Rightarrow> bool" where
  "page_aligned a \<longleftrightarrow> unat a mod PGSIZE = 0"

definition page_no :: "u32 \<Rightarrow> nat" where
  "page_no a = unat a div PGSIZE"

lemma V2P_P2V [simp]: "V2P (P2V a) = a" and P2V_V2P [simp]: "P2V (V2P a) = a"
  by (simp_all add: V2P_def P2V_def)

text \<open>Subtracting \<^verbatim>\<open>KERNBASE\<close> = 2^31 twice is subtracting 2^32: the identity on 32 bits.\<close>

lemma V2P_V2P [simp]: "V2P (V2P a) = a"
  by (simp add: V2P_def)

lemma V2P_eq_P2V: "V2P a = P2V a"
  by (simp add: V2P_def P2V_def)

lemma mask12: "(0xFFF::u32) = mask 12"
  by (simp add: mask_eq_exp_minus_1)

lemma and_not_mask12: "a AND NOT 0xFFF = push_bit 12 (drop_bit 12 a)" for a :: u32
  by (rule bit_word_eqI) (auto simp: bit_simps mask12)

lemma unat_and_not_mask12: "unat (a AND NOT 0xFFF) = unat a div 4096 * 4096" for a :: u32
proof -
  have "unat a < 2 ^ 32" using unsigned_less [of a] by simp
  then have "unat a div 4096 * 4096 < 2 ^ 32" by linarith
  then show ?thesis
    unfolding and_not_mask12 push_bit_eq_mult drop_bit_eq_div
    by (simp add: unat_word_ariths unat_div)
qed

lemma unat_PGROUNDDOWN: "unat (PGROUNDDOWN a) = unat a div 4096 * 4096"
  using unat_and_not_mask12 [of a] by (simp add: PGROUNDDOWN_def)

lemma unat_PTE_ADDR: "unat (PTE_ADDR a) = unat a div 4096 * 4096"
  using unat_and_not_mask12 [of a] by (simp add: PTE_ADDR_def)

lemma unat_PGROUNDUP:
  assumes "unat a + 4095 < 2 ^ 32"
  shows "unat (PGROUNDUP a) = (unat a + 4095) div 4096 * 4096"
proof -
  have "unat (a + 4095) = unat a + 4095"
    using assms by (simp add: unat_word_ariths)
  then show ?thesis
    using unat_and_not_mask12 [of "a + 4095"] by (simp add: PGROUNDUP_def add.commute)
qed

lemma page_aligned_PGROUNDDOWN [simp]: "page_aligned (PGROUNDDOWN a)"
  by (simp add: page_aligned_def unat_PGROUNDDOWN)

lemma page_aligned_PTE_ADDR [simp]: "page_aligned (PTE_ADDR a)"
  by (simp add: page_aligned_def unat_PTE_ADDR)

lemma page_aligned_PGROUNDUP [simp]: "page_aligned (PGROUNDUP a)"
  using unat_and_not_mask12 [of "a + 4095"]
  by (simp add: PGROUNDUP_def page_aligned_def add.commute)

lemma PGROUNDDOWN_aligned: "page_aligned a \<Longrightarrow> PGROUNDDOWN a = a"
  unfolding word_unat_eq_iff unat_PGROUNDDOWN by (simp add: page_aligned_def mod_eq_0_iff_dvd)

lemma PTE_ADDR_aligned: "page_aligned a \<Longrightarrow> PTE_ADDR a = a"
  unfolding word_unat_eq_iff unat_PTE_ADDR by (simp add: page_aligned_def mod_eq_0_iff_dvd)

lemma page_aligned_V2P [simp]: "page_aligned (V2P a) \<longleftrightarrow> page_aligned a"
  and page_aligned_P2V [simp]: "page_aligned (P2V a) \<longleftrightarrow> page_aligned a"
proof -
  have *: "page_aligned (P2V a) \<longleftrightarrow> page_aligned a" for a
  proof -
    have "unat (P2V a) mod 4096 = (unat a + 2147483648) mod 4294967296 mod 4096"
      by (simp add: P2V_def unat_word_ariths)
    also have "\<dots> = (unat a + 2147483648) mod 4096"
      by (rule mod_mod_cancel) simp
    also have "\<dots> = unat a mod 4096"
      by (simp add: mod_add_eq [symmetric])
    finally show ?thesis by (simp add: page_aligned_def)
  qed
  show "page_aligned (P2V a) \<longleftrightarrow> page_aligned a" by (rule *)
  show "page_aligned (V2P a) \<longleftrightarrow> page_aligned a" unfolding V2P_eq_P2V by (rule *)
qed

lemma page_no_inj: "page_aligned a \<Longrightarrow> page_aligned b \<Longrightarrow> page_no a = page_no b \<Longrightarrow> a = b"
  unfolding page_aligned_def page_no_def word_unat_eq_iff
  by (metis dvd_div_mult_self mod_eq_0_iff_dvd)

lemma page_aligned_dvd: "page_aligned a \<longleftrightarrow> 4096 dvd unat a"
  by (simp add: page_aligned_def mod_eq_0_iff_dvd)

lemma aligned4_dvd: "aligned4 a \<longleftrightarrow> 4 dvd unat a"
  by (simp add: aligned4_def mod_eq_0_iff_dvd)

lemma unat_page_offset:
  assumes "page_aligned p" "k < 4096"
  shows "unat (p + of_nat k) = unat p + k"
  using unat_add_small [of p 4096 k] assms by (simp add: page_aligned_def)

lemma page_no_offset:
  assumes "page_aligned p" "k < 4096"
  shows "page_no (p + of_nat k) = page_no p"
  using assms unat_page_offset [OF assms]
  by (simp add: page_no_def page_aligned_dvd div_plus_div_distrib_dvd_left)

lemma in_page_iff:
  assumes "page_aligned p"
  shows "unat (a - p) < 4096 \<longleftrightarrow> page_no a = page_no p"
proof
  assume k: "unat (a - p) < 4096"
  have "a = p + of_nat (unat (a - p))" by simp
  then show "page_no a = page_no p" using page_no_offset [OF assms k] by simp
next
  assume "page_no a = page_no p"
  then have "unat a = unat p + unat a mod 4096"
    using assms unfolding page_no_def page_aligned_dvd
    by (metis div_mult_mod_eq dvd_div_mult_self)
  moreover have "unat a mod 4096 < 4096" by simp
  ultimately have "unat p \<le> unat a \<and> unat a - unat p < 4096" by linarith
  then show "unat (a - p) < 4096"
    by (simp add: unat_sub word_le_nat_alt)
qed

lemma page_offset_less: "unat (a - PGROUNDDOWN a) < 4096"
proof -
  have "page_no (PGROUNDDOWN a) = page_no a"
    by (simp add: page_no_def unat_PGROUNDDOWN)
  then show ?thesis by (simp add: in_page_iff)
qed

subsection \<open>Page table entries\<close>

text \<open>The address of entry \<open>i\<close> of the page table (or directory) at \<open>p\<close>.\<close>

definition entry :: "u32 \<Rightarrow> u32 \<Rightarrow> u32" where
  "entry p i = p + 4 * i"

lemma PDX_less [simp]: "unat (PDX va) < 1024" and PTX_less [simp]: "unat (PTX va) < 1024"
proof -
  have "unat (x AND 0x3FF) < 1024" for x :: u32
    using word_and_le1 [of x "0x3FF"] by (simp add: word_le_nat_alt)
  then show "unat (PDX va) < 1024" "unat (PTX va) < 1024"
    by (simp_all add: PDX_def PTX_def)
qed

lemma unat_entry:
  assumes "page_aligned p" "unat i < 1024"
  shows "unat (entry p i) = unat p + 4 * unat i"
proof -
  have "(4 * i :: u32) = of_nat (4 * unat i)" by simp
  then show ?thesis
    using unat_page_offset [OF assms(1), of "4 * unat i"] assms(2) by (simp add: entry_def)
qed

lemma aligned4_entry [simp]: "page_aligned p \<Longrightarrow> unat i < 1024 \<Longrightarrow> aligned4 (entry p i)"
  by (auto simp: aligned4_dvd unat_entry page_aligned_dvd intro: dvd_add dvd_trans [of 4 4096])

lemma page_no_entry [simp]: "page_aligned p \<Longrightarrow> unat i < 1024 \<Longrightarrow> page_no (entry p i) = page_no p"
  by (simp add: page_no_def unat_entry page_aligned_dvd div_plus_div_distrib_dvd_left)

lemma entry_inj:
  assumes "page_aligned p" "page_aligned q" "unat i < 1024" "unat j < 1024"
  shows "entry p i = entry q j \<longleftrightarrow> p = q \<and> i = j"
proof
  assume eq: "entry p i = entry q j"
  then have "page_no p = page_no q" using assms page_no_entry by metis
  then have "p = q" using assms page_no_inj by blast
  moreover have "unat p + 4 * unat i = unat q + 4 * unat j"
    using eq assms unat_entry by metis
  ultimately show "p = q \<and> i = j" by (simp add: word_unat_eq_iff)
qed simp

lemma aligned4_page [simp]: "page_aligned p \<Longrightarrow> aligned4 p"
  unfolding aligned4_dvd page_aligned_dvd by (erule dvd_trans [rotated]) simp

text \<open>The three parts of a virtual address determine it, and \<^const>\<open>PGADDR\<close> puts them together.\<close>

lemma PGADDR_parts: "PGADDR (PDX va) (PTX va) (va AND 0xFFF) = va"
proof -
  have m10: "(0x3FF::u32) = mask 10" by (simp add: mask_eq_exp_minus_1)
  show ?thesis
    unfolding PGADDR_def PDX_def PTX_def m10 mask12
  proof (rule bit_word_eqI)
    fix n assume "n < LENGTH(32)"
    then consider "n < 12" | "12 \<le> n" "n < 22" | "22 \<le> n" "n < 32" by fastforce
    then show "bit (push_bit 22 (drop_bit 22 va AND mask 10)
        OR push_bit 12 (drop_bit 12 va AND mask 10) OR va AND mask 12) n \<longleftrightarrow> bit va n"
      by cases (auto simp: bit_simps)
  qed
qed

lemma same_page_indices:
  "PDX va = PDX vb \<and> PTX va = PTX vb \<longleftrightarrow> page_no va = page_no vb"
proof -
  have parts: "unat (PDX va) = unat va div 4194304" "unat (PTX va) = unat va div 4096 mod 1024" for va
  proof -
    have m10: "(0x3FF::u32) = mask 10" by (simp add: mask_eq_exp_minus_1)
    have lt: "unat va < 2 ^ 32" using unsigned_less [of va] by simp
    show "unat (PTX va) = unat va div 4096 mod 1024"
      unfolding PTX_def m10 take_bit_eq_mask [symmetric]
      by (simp add: take_bit_eq_mod drop_bit_eq_div unat_div unat_mod)
    have "unat (PDX va) = unat va div 4194304 mod 1024"
      unfolding PDX_def m10 take_bit_eq_mask [symmetric]
      by (simp add: take_bit_eq_mod drop_bit_eq_div unat_div unat_mod)
    then show "unat (PDX va) = unat va div 4194304"
      using lt by simp
  qed
  have "unat va div 4194304 = unat va div 4096 div 1024" for va :: u32
    by (simp add: div_mult2_eq [symmetric])
  then show ?thesis
    unfolding word_unat_eq_iff parts page_no_def
    by (metis div_mult_mod_eq)
qed

lemma PTE_parts:
  assumes "page_aligned a" "f AND NOT 0xFFF = 0"
  shows "PTE_ADDR (a OR f) = a" "PTE_FLAGS (a OR f) = f"
proof -
  have a: "a AND 0xFFF = 0"
  proof (rule bit_word_eqI)
    fix n assume "n < LENGTH(32)"
    have "bit a n = bit (PTE_ADDR a) n" using assms(1) by (simp add: PTE_ADDR_aligned)
    then show "bit (a AND 0xFFF) n \<longleftrightarrow> bit 0 n"
      unfolding PTE_ADDR_def mask12 by (auto simp: bit_simps)
  qed
  have "a AND NOT 0xFFF = a" using PTE_ADDR_aligned [OF assms(1)] by (simp add: PTE_ADDR_def)
  moreover have "f AND 0xFFF = f"
  proof (rule bit_word_eqI)
    fix n assume "n < LENGTH(32)"
    have "\<not> bit (f AND NOT (mask 12)) n" using assms(2) unfolding mask12 by simp
    with \<open>n < LENGTH(32)\<close> show "bit (f AND 0xFFF) n \<longleftrightarrow> bit f n"
      unfolding mask12 by (auto simp: bit_simps)
  qed
  ultimately show "PTE_ADDR (a OR f) = a" "PTE_FLAGS (a OR f) = f"
    using a assms(2) unfolding PTE_ADDR_def PTE_FLAGS_def
    by (simp_all only: bit.conj_disj_distrib2 or.right_neutral or.left_neutral)
qed

subsection \<open>Writes to one page\<close>

definition same_except :: "nat set \<Rightarrow> memory \<Rightarrow> memory \<Rightarrow> bool" where
  "same_except P m m' \<longleftrightarrow> (\<forall>a. page_no a \<notin> P \<longrightarrow> m' a = m a)"

lemma same_except_refl [simp, intro]: "same_except P m m"
  by (simp add: same_except_def)

lemma same_except_trans:
  "same_except P m m' \<Longrightarrow> same_except Q m' m'' \<Longrightarrow> same_except (P \<union> Q) m m''"
  by (simp add: same_except_def)

lemma same_except_mono: "same_except P m m' \<Longrightarrow> P \<subseteq> Q \<Longrightarrow> same_except Q m m'"
  by (auto simp: same_except_def)

lemma page_no_aligned4:
  assumes "aligned4 a" "k < 4"
  shows "page_no (a + of_nat k) = page_no a"
proof -
  have "(unat a + k) div 4 = unat a div 4"
    using assms by (simp add: aligned4_dvd div_plus_div_distrib_dvd_left)
  then have "(unat a + k) div 4 div 1024 = unat a div 4 div 1024" by simp
  then show ?thesis
    using unat_add_byte [OF assms] by (simp add: page_no_def div_mult2_eq [symmetric])
qed

lemma same_except_load32:
  assumes "same_except P m m'" "aligned4 a" "page_no a \<notin> P"
  shows "load32 m' a = load32 m a"
proof -
  have "m' (a + of_nat k) = m (a + of_nat k)" if "k < 4" for k
    using assms page_no_aligned4 [OF assms(2) that] by (simp add: same_except_def)
  from this [of 0] this [of 1] this [of 2] this [of 3] show ?thesis
    by (intro load32_cong) simp_all
qed

lemma same_except_store32:
  assumes "aligned4 a"
  shows "same_except {page_no a} m (store32 m a v)"
proof -
  have "store32 m a v b = m b" if "page_no b \<noteq> page_no a" for b
    using that page_no_aligned4 [OF assms, of 0] page_no_aligned4 [OF assms, of 1]
      page_no_aligned4 [OF assms, of 2] page_no_aligned4 [OF assms, of 3]
    by (auto simp: store32_def)
  then show ?thesis by (simp add: same_except_def)
qed

end
