(* ===== verification/CString.thy ===== *)
theory CString
  imports Mmu
begin

text \<open>
  The kernel's \<^verbatim>\<open>string.c\<close> over the byte memory. The \<^verbatim>\<open>rep stosb\<close> and \<^verbatim>\<open>rep stosl\<close>
  instructions of \<^verbatim>\<open>x86.h\<close> are bulk updates; the C loops are recursive functions that move the
  same pointers. The lemmas give each routine its meaning: \<^verbatim>\<open>memset\<close> fills a range whichever
  instruction it picks, \<^verbatim>\<open>memmove\<close> copies the bytes the source range had before the call even
  when the ranges overlap, and the string routines stop where the first NUL byte is.
\<close>

section \<open>memset\<close>

definition stosb :: "memory \<Rightarrow> u32 \<Rightarrow> u32 \<Rightarrow> nat \<Rightarrow> memory" where
  "stosb m addr data cnt = (\<lambda>a. if unat (a - addr) < cnt then ucast data else m a)"

definition stosl :: "memory \<Rightarrow> u32 \<Rightarrow> u32 \<Rightarrow> nat \<Rightarrow> memory" where
  "stosl m addr data cnt = (\<lambda>a. let k = unat (a - addr) in
     if k < 4 * cnt then ucast (drop_bit (8 * (k mod 4)) data) else m a)"

definition memset :: "memory \<Rightarrow> u32 \<Rightarrow> u32 \<Rightarrow> u32 \<Rightarrow> memory" where
  "memset m dst c n =
     (if dst mod 4 = 0 \<and> n mod 4 = 0 then
        let c = c AND 0xFF in
        stosl m dst (push_bit 24 c OR push_bit 16 c OR push_bit 8 c OR c) (unat (n div 4))
      else stosb m dst c (unat n))"

section \<open>memcmp and memmove\<close>

fun memcmp_loop :: "memory \<Rightarrow> u32 \<Rightarrow> u32 \<Rightarrow> nat \<Rightarrow> int" where
  "memcmp_loop m s1 s2 0 = 0"
| "memcmp_loop m s1 s2 (Suc n) =
     (if m s1 \<noteq> m s2 then uint (m s1) - uint (m s2) else memcmp_loop m (s1 + 1) (s2 + 1) n)"

definition memcmp :: "memory \<Rightarrow> u32 \<Rightarrow> u32 \<Rightarrow> u32 \<Rightarrow> int" where
  "memcmp m v1 v2 n = memcmp_loop m v1 v2 (unat n)"

fun copy_down :: "memory \<Rightarrow> u32 \<Rightarrow> u32 \<Rightarrow> nat \<Rightarrow> memory" where
  "copy_down m d s 0 = m"
| "copy_down m d s (Suc n) = copy_down (m(d - 1 := m (s - 1))) (d - 1) (s - 1) n"

fun copy_up :: "memory \<Rightarrow> u32 \<Rightarrow> u32 \<Rightarrow> nat \<Rightarrow> memory" where
  "copy_up m d s 0 = m"
| "copy_up m d s (Suc n) = copy_up (m(d := m s)) (d + 1) (s + 1) n"

definition memmove :: "memory \<Rightarrow> u32 \<Rightarrow> u32 \<Rightarrow> u32 \<Rightarrow> memory" where
  "memmove m dst src n =
     (if src < dst \<and> src + n > dst then copy_down m (dst + n) (src + n) (unat n)
      else copy_up m dst src (unat n))"

section \<open>Strings\<close>

fun strncmp_loop :: "memory \<Rightarrow> u32 \<Rightarrow> u32 \<Rightarrow> nat \<Rightarrow> int" where
  "strncmp_loop m p q 0 = 0"
| "strncmp_loop m p q (Suc n) =
     (if m p \<noteq> 0 \<and> m p = m q then strncmp_loop m (p + 1) (q + 1) n
      else uint (m p) - uint (m q))"

definition strncmp :: "memory \<Rightarrow> u32 \<Rightarrow> u32 \<Rightarrow> u32 \<Rightarrow> int" where
  "strncmp m p q n = strncmp_loop m p q (unat n)"

fun strncpy_pad :: "memory \<Rightarrow> u32 \<Rightarrow> nat \<Rightarrow> memory" where
  "strncpy_pad m s 0 = m"
| "strncpy_pad m s (Suc n) = strncpy_pad (m(s := 0)) (s + 1) n"

fun strncpy_loop :: "memory \<Rightarrow> u32 \<Rightarrow> u32 \<Rightarrow> nat \<Rightarrow> memory" where
  "strncpy_loop m s t 0 = m"
| "strncpy_loop m s t (Suc n) =
     (let c = m t; m = m(s := c) in
      if c \<noteq> 0 then strncpy_loop m (s + 1) (t + 1) n else strncpy_pad m (s + 1) n)"

definition strncpy :: "memory \<Rightarrow> u32 \<Rightarrow> u32 \<Rightarrow> int \<Rightarrow> memory" where
  "strncpy m s t n = strncpy_loop m s t (nat n)"

fun safestrcpy_loop :: "memory \<Rightarrow> u32 \<Rightarrow> u32 \<Rightarrow> nat \<Rightarrow> memory" where
  "safestrcpy_loop m s t 0 = m(s := 0)"
| "safestrcpy_loop m s t (Suc n) =
     (let c = m t; m = m(s := c) in
      if c \<noteq> 0 then safestrcpy_loop m (s + 1) (t + 1) n else m(s + 1 := 0))"

definition safestrcpy :: "memory \<Rightarrow> u32 \<Rightarrow> u32 \<Rightarrow> int \<Rightarrow> memory" where
  "safestrcpy m s t n = (if n \<le> 0 then m else safestrcpy_loop m s t (nat (n - 1)))"

text \<open>
  The counter of \<^verbatim>\<open>strlen\<close> is an \<^verbatim>\<open>int\<close>: counting past 2^31 - 1 bytes without a NUL
  overflows it, which C leaves undefined.
\<close>

function strlen_loop :: "memory \<Rightarrow> u32 \<Rightarrow> nat \<Rightarrow> nat res" where
  "strlen_loop m s n =
     (if n \<ge> 2 ^ 31 then Inl (Undef ''strlen'')
      else if m (s + of_nat n) = 0 then Inr n
      else strlen_loop m s (Suc n))"
  by pat_completeness auto
termination
  by (relation "measure (\<lambda>(m, s, n). 2 ^ 31 - n)") auto

declare strlen_loop.simps [simp del]

definition strlen :: "memory \<Rightarrow> u32 \<Rightarrow> nat res" where
  "strlen m s = strlen_loop m s 0"

section \<open>Properties\<close>

lemma u32_mod4_0: "dst mod 4 = 0 \<longleftrightarrow> aligned4 dst" for dst :: u32
proof -
  have "dst mod 4 = 0 \<longleftrightarrow> unat (dst mod 4) = 0" by (simp add: unat_eq_0)
  then show ?thesis by (simp add: unat_mod aligned4_def)
qed

lemma replicated_byte:
  fixes c :: u32
  assumes "j < 4"
  shows "(ucast (drop_bit (8 * j) (push_bit 24 (c AND 0xFF) OR push_bit 16 (c AND 0xFF)
     OR push_bit 8 (c AND 0xFF) OR (c AND 0xFF))) :: u8) = ucast c"
proof -
  have m8: "(0xFF::u32) = mask 8" by (simp add: mask_eq_exp_minus_1)
  from assms consider "j = 0" | "j = 1" | "j = 2" | "j = 3" by fastforce
  then show ?thesis
    unfolding m8 by cases (rule bit_word_eqI, auto simp: bit_simps)+
qed

text \<open>Whichever instruction \<^verbatim>\<open>memset\<close> uses, the bytes of the range become \<open>c\<close> and no other changes.\<close>

lemma memset_eq: "memset m dst c n = (\<lambda>a. if unat (a - dst) < unat n then ucast c else m a)"
proof (cases "dst mod 4 = 0 \<and> n mod 4 = 0")
  case False
  then show ?thesis by (auto simp: memset_def stosb_def)
next
  case True
  then have "4 dvd unat n" using u32_mod4_0 [of n] by (simp add: aligned4_dvd)
  then have n4: "4 * unat (n div 4) = unat n" by (simp add: unat_div)
  show ?thesis
    unfolding memset_def stosl_def Let_def if_P [OF True] n4
    by (rule ext) (metis (no_types) replicated_byte mod_less_divisor zero_less_numeral)
qed

lemma memset_page:
  assumes "page_aligned p"
  shows "memset m p c PGSIZE = (\<lambda>a. if page_no a = page_no p then ucast c else m a)"
  using assms by (simp add: memset_eq in_page_iff)

lemma same_except_memset: "page_aligned p \<Longrightarrow> same_except {page_no p} m (memset m p c PGSIZE)"
  by (simp add: same_except_def memset_page)

lemma load32_memset_zero:
  assumes "page_aligned p" "aligned4 a" "page_no a = page_no p"
  shows "load32 (memset m p 0 PGSIZE) a = 0"
proof -
  have "memset m p 0 PGSIZE (a + of_nat k) = 0" if "k < 4" for k
    using page_no_aligned4 [OF assms(2) that] assms by (simp add: memset_page)
  from this [of 0] this [of 1] this [of 2] this [of 3] show ?thesis
    by (simp add: load32_def)
qed

text \<open>The upward loop, when the destination does not start inside the source range.\<close>

lemma copy_up_eq:
  assumes "unat s + n \<le> 2 ^ 32" "unat d + n \<le> 2 ^ 32" "unat d \<le> unat s \<or> unat s + n \<le> unat d"
  shows "copy_up m d s n = (\<lambda>a. if unat d \<le> unat a \<and> unat a < unat d + n then m (s + (a - d)) else m a)"
  using assms
proof (induction n arbitrary: m d s)
  case 0
  then show ?case by (auto simp: fun_eq_iff)
next
  case (Suc n)
  show ?case
  proof (cases "n = 0")
    case True
    have "unat d \<le> unat a \<and> unat a < unat d + Suc 0 \<longleftrightarrow> a = d" for a
      by (auto simp: word_unat_eq_iff)
    with True show ?thesis by (auto simp: fun_eq_iff)
  next
    case False
    with Suc.prems have s1: "unat (s + 1) = unat s + 1" and d1: "unat (d + 1) = unat d + 1"
      by (simp_all add: unat_word_ariths)
    let ?m = "m(d := m s)"
    have shift: "s + 1 + (a - (d + 1)) = s + (a - d)" for a by simp
    have "copy_up ?m (d + 1) (s + 1) n = (\<lambda>a. if unat (d + 1) \<le> unat a \<and> unat a < unat (d + 1) + n
        then ?m (s + 1 + (a - (d + 1))) else ?m a)"
      by (rule Suc.IH) (use Suc.prems s1 d1 in auto)
    then have IH: "copy_up ?m (d + 1) (s + 1) n =
      (\<lambda>a. if unat d + 1 \<le> unat a \<and> unat a < unat d + 1 + n then ?m (s + (a - d)) else ?m a)"
      unfolding s1 d1 shift .
    show ?thesis
    proof
      fix a
      have src: "s + (a - d) \<noteq> d" if "unat d + 1 \<le> unat a" "unat a < unat d + Suc n"
      proof -
        have "unat (a - d) = unat a - unat d"
          using that by (simp add: unat_sub word_le_nat_alt)
        then have "unat (s + (a - d)) = unat s + (unat a - unat d)"
          using that Suc.prems by (simp add: unat_word_ariths)
        then show ?thesis using that Suc.prems by (auto simp: word_unat_eq_iff)
      qed
      have first: "unat d \<le> unat a \<longleftrightarrow> a = d \<or> unat d + 1 \<le> unat a"
        by (auto simp: word_unat_eq_iff)
      show "copy_up m d s (Suc n) a =
        (if unat d \<le> unat a \<and> unat a < unat d + Suc n then m (s + (a - d)) else m a)"
        using IH src first by auto
    qed
  qed
qed

text \<open>The downward loop, when the source starts before the destination.\<close>

lemma copy_down_eq:
  assumes "unat s + n \<le> 2 ^ 32" "unat d + n \<le> 2 ^ 32" "unat s \<le> unat d"
  shows "copy_down m (d + of_nat n) (s + of_nat n) n =
    (\<lambda>a. if unat d \<le> unat a \<and> unat a < unat d + n then m (s + (a - d)) else m a)"
  using assms
proof (induction n arbitrary: m)
  case 0
  then show ?case by (auto simp: fun_eq_iff)
next
  case (Suc n)
  have un: "unat (of_nat n :: u32) = n" using Suc.prems by (simp add: unat_of_nat)
  have sn: "unat (s + of_nat n) = unat s + n" and dn: "unat (d + of_nat n) = unat d + n"
    using Suc.prems un by (simp_all add: unat_word_ariths)
  let ?m = "m(d + of_nat n := m (s + of_nat n))"
  have IH: "copy_down ?m (d + of_nat n) (s + of_nat n) n =
    (\<lambda>a. if unat d \<le> unat a \<and> unat a < unat d + n then ?m (s + (a - d)) else ?m a)"
    by (rule Suc.IH) (use Suc.prems in simp_all)
  show ?case
  proof
    fix a
    have src: "s + (a - d) \<noteq> d + of_nat n" if "unat d \<le> unat a" "unat a < unat d + n"
    proof -
      have "unat (a - d) = unat a - unat d" using that by (simp add: unat_sub word_le_nat_alt)
      then have "unat (s + (a - d)) = unat s + (unat a - unat d)"
        using that Suc.prems by (simp add: unat_word_ariths)
      then show ?thesis using that Suc.prems dn by (auto simp: word_unat_eq_iff)
    qed
    have last: "a = d + of_nat n \<longleftrightarrow> unat a = unat d + n" by (simp add: word_unat_eq_iff dn)
    show "copy_down m (d + of_nat (Suc n)) (s + of_nat (Suc n)) (Suc n) a =
      (if unat d \<le> unat a \<and> unat a < unat d + Suc n then m (s + (a - d)) else m a)"
      using IH src last by (auto simp: add.assoc [symmetric])
  qed
qed

lemma memmove_eq:
  assumes "unat src + unat n < 2 ^ 32" "unat dst + unat n < 2 ^ 32"
  shows "memmove m dst src n =
    (\<lambda>a. if unat dst \<le> unat a \<and> unat a < unat dst + unat n then m (src + (a - dst)) else m a)"
proof (cases "src < dst \<and> src + n > dst")
  case True
  then show ?thesis
    using copy_down_eq [of src "unat n" dst m] assms
    by (simp add: memmove_def word_less_nat_alt)
next
  case False
  moreover have "unat (src + n) = unat src + unat n" using assms by (simp add: unat_word_ariths)
  ultimately have "unat dst \<le> unat src \<or> unat src + unat n \<le> unat dst"
    by (auto simp: word_less_nat_alt)
  then show ?thesis
    using False copy_up_eq [of src "unat n" dst m] assms by (auto simp: memmove_def)
qed

subsection \<open>strlen\<close>

lemma strlen_loop_Inr:
  "strlen_loop m s n = Inr k \<longleftrightarrow>
     n \<le> k \<and> k < 2 ^ 31 \<and> m (s + of_nat k) = 0 \<and> (\<forall>j. n \<le> j \<and> j < k \<longrightarrow> m (s + of_nat j) \<noteq> 0)"
proof (induction m s n rule: strlen_loop.induct)
  case (1 m s n)
  show ?case
  proof (cases "n \<ge> 2 ^ 31 \<or> m (s + of_nat n) = 0")
    case True
    then show ?thesis
      by (subst strlen_loop.simps) (auto simp: not_less le_less dest: le_neq_implies_less)
  next
    case False
    then have "strlen_loop m s n = strlen_loop m s (Suc n)"
      by (subst strlen_loop.simps) simp
    moreover have "(n \<le> k \<and> (\<forall>j. n \<le> j \<and> j < k \<longrightarrow> m (s + of_nat j) \<noteq> 0) \<and> m (s + of_nat k) = 0)
       \<longleftrightarrow> (Suc n \<le> k \<and> (\<forall>j. Suc n \<le> j \<and> j < k \<longrightarrow> m (s + of_nat j) \<noteq> 0) \<and> m (s + of_nat k) = 0)"
      using False by (metis Suc_leD Suc_leI le_neq_implies_less)
    ultimately show ?thesis using "1.IH" False by auto
  qed
qed

section \<open>What the routines promise\<close>

text \<open>
  C37: \<^verbatim>\<open>memset\<close> sets exactly the \<open>n\<close> bytes from \<open>dst\<close> to the low byte of \<open>c\<close>, whichever of its
  two instructions (word or byte stores) it selects; every other byte keeps its value.
\<close>

theorem memset_fills:
  "memset m dst c n a = (if unat (a - dst) < unat n then ucast c else m a)"
  by (simp add: memset_eq)

text \<open>
  C36: \<^verbatim>\<open>memmove\<close> copies: after the call byte \<open>k\<close> of the destination is the byte \<open>k\<close> the source had
  before the call, also when the two ranges overlap in either direction, and no byte outside
  the destination changes.
\<close>

theorem memmove_copies:
  assumes "unat src + unat n < 2 ^ 32" "unat dst + unat n < 2 ^ 32"
  shows "(\<forall>k < unat n. memmove m dst src n (dst + of_nat k) = m (src + of_nat k))
    \<and> (\<forall>a. unat a < unat dst \<or> unat dst + unat n \<le> unat a \<longrightarrow> memmove m dst src n a = m a)"
proof -
  note eq = memmove_eq [OF assms, of m]
  have "memmove m dst src n (dst + of_nat k) = m (src + of_nat k)" if k: "k < unat n" for k
  proof -
    have "unat (dst + of_nat k) = unat dst + k" using k assms(2) by (intro unat_add_no_wrap) simp
    then show ?thesis using k by (simp add: eq)
  qed
  then show ?thesis by (auto simp: eq)
qed

theorem memmove_copies_witness:
  "memmove (\<lambda>a. ucast a) 0x1001 0x1000 3 (0x1001 + of_nat 2) = 2
    \<and> memmove (\<lambda>a. ucast a) 0x1001 0x1000 3 0x1004 = 4"
proof -
  have "unat (0x1000 :: u32) + unat (3 :: u32) < 2 ^ 32" "unat (0x1001 :: u32) + unat (3 :: u32) < 2 ^ 32"
    by simp_all
  note mm = memmove_copies [OF this, of "\<lambda>a. ucast a"]
  have "memmove (\<lambda>a. ucast a) 0x1001 0x1000 3 (0x1001 + of_nat 2) = ucast (0x1000 + of_nat 2 :: u32)"
    using spec [OF conjunct1 [OF mm], of 2] by simp
  moreover have "memmove (\<lambda>a. ucast a) 0x1001 0x1000 3 0x1004 = ucast (0x1004 :: u32)"
    using spec [OF conjunct2 [OF mm], of "0x1004"] by simp
  ultimately show ?thesis by simp
qed

text \<open>
  C38: \<^verbatim>\<open>strlen\<close> returns \<open>k\<close> exactly when byte \<open>k\<close> is the first NUL byte of the string (and the
  counter has not overflowed by then).
\<close>

theorem strlen_first_nul:
  "strlen m s = Inr k \<longleftrightarrow> k < 2 ^ 31 \<and> m (s + of_nat k) = 0 \<and> (\<forall>j < k. m (s + of_nat j) \<noteq> 0)"
  unfolding strlen_def strlen_loop_Inr by auto

theorem strlen_first_nul_witness: "strlen (\<lambda>a. if a = 0x1002 then 0 else 65) 0x1000 = Inr 2"
proof -
  have "(0x1000 :: u32) + of_nat j \<noteq> 0x1002" if "j < 2" for j
    using that by (cases j) (auto simp: less_Suc_eq_0_disj)
  then show ?thesis unfolding strlen_first_nul by simp
qed

lemma safestrcpy_loop_ok:
  assumes "unat s + n < 2 ^ 32"
  shows "(\<exists>k \<le> n. safestrcpy_loop m s t n (s + of_nat k) = 0)
    \<and> (\<forall>a. unat a < unat s \<or> unat s + n < unat a \<longrightarrow> safestrcpy_loop m s t n a = m a)"
  using assms
proof (induction n arbitrary: m s t)
  case 0
  then show ?case by (auto simp: fun_upd_apply)
next
  case (Suc n)
  have s1: "unat (s + 1) = unat s + 1" using unat_add_no_wrap [of s 1] Suc.prems by simp
  let ?m = "m(s := m t)"
  show ?case
  proof (cases "m t = 0")
    case True
    have "s \<noteq> s + 1" by simp
    then have "safestrcpy_loop m s t (Suc n) (s + of_nat 0) = 0" using True by (simp add: Let_def)
    moreover have "safestrcpy_loop m s t (Suc n) a = m a" if "unat a < unat s \<or> unat s + Suc n < unat a" for a
    proof -
      have "a \<noteq> s" "a \<noteq> s + 1" using that s1 by auto
      then show ?thesis using True by (simp add: Let_def)
    qed
    ultimately show ?thesis by (metis zero_le)
  next
    case False
    have IH: "(\<exists>k \<le> n. safestrcpy_loop ?m (s + 1) (t + 1) n (s + 1 + of_nat k) = 0)
      \<and> (\<forall>a. unat a < unat (s + 1) \<or> unat (s + 1) + n < unat a \<longrightarrow> safestrcpy_loop ?m (s + 1) (t + 1) n a = ?m a)"
      by (rule Suc.IH) (use Suc.prems s1 in simp)
    have eq: "safestrcpy_loop m s t (Suc n) = safestrcpy_loop ?m (s + 1) (t + 1) n"
      using False by (simp add: Let_def)
    from IH obtain k where "k \<le> n" "safestrcpy_loop ?m (s + 1) (t + 1) n (s + of_nat (Suc k)) = 0"
      by (auto simp: add.assoc)
    then have "\<exists>k \<le> Suc n. safestrcpy_loop m s t (Suc n) (s + of_nat k) = 0"
      unfolding eq by (intro exI [of _ "Suc k"]) simp
    moreover have "safestrcpy_loop m s t (Suc n) a = m a" if "unat a < unat s \<or> unat s + Suc n < unat a" for a
      unfolding eq using IH that s1 by auto
    ultimately show ?thesis by blast
  qed
qed

text \<open>
  C39: \<^verbatim>\<open>safestrcpy\<close> leaves a NUL-terminated string inside the \<open>n\<close> bytes of the destination and
  changes no byte outside them.
\<close>

theorem safestrcpy_terminated:
  assumes "0 < n" "unat s + nat n \<le> 2 ^ 32"
  shows "(\<exists>k < nat n. safestrcpy m s t n (s + of_nat k) = 0)
    \<and> (\<forall>a. unat a < unat s \<or> unat s + nat n \<le> unat a \<longrightarrow> safestrcpy m s t n a = m a)"
proof -
  obtain k where k: "nat n = Suc k" "nat (n - 1) = k" using assms(1) by (cases "nat n") auto
  show ?thesis
    using safestrcpy_loop_ok [of s k m t] assms k by (auto simp: safestrcpy_def less_Suc_eq_le Suc_le_eq)
qed

theorem safestrcpy_terminated_witness:
  "\<exists>k < 2. safestrcpy (\<lambda>_. 65) 0x1000 0x2000 2 (0x1000 + of_nat k) = 0"
  using safestrcpy_terminated [of 2 "0x1000" "\<lambda>_. 65" "0x2000"] by simp

end
