(* ===== verification/Spinlock.thy ===== *)
theory Spinlock
  imports Mmu
begin

text \<open>
  Spin locks and the interrupt-disable nesting of \<^verbatim>\<open>spinlock.c\<close>, with \<^verbatim>\<open>mycpu\<close> of
  \<^verbatim>\<open>proc.c\<close>. The state is the part of the machine these routines touch: the interrupt
  flag of the executing CPU, the per-CPU \<^verbatim>\<open>ncli\<close> and \<^verbatim>\<open>intena\<close>, and the locks. All other
  kernel state extends this record. The section on contention is an interleaving model of
  several CPUs around one lock word.
\<close>

section \<open>State\<close>

text \<open>One constructor per lock of the kernel (a pipe's lock lives in the pipe's page).\<close>

datatype lockid =
    KmemLock | PtableLock | ShmLock | TicksLock | FtableLock | IcacheLock | BcacheLock
  | LogLock | ConsLock | IdeLock | PipeLock u32 | InodeLk nat | BufLk nat

record spinlock =
  locked :: bool
  lk_cpu :: "nat option"

text \<open>
  \<open>cpu_proc\<close> is the index of the running process; \<open>ts_esp0\<close>, \<open>ts_ss0\<close> and \<open>ts_iomb\<close> are the
  fields of the task state segment that \<^verbatim>\<open>switchuvm\<close> sets.
\<close>

record cpu =
  ncli :: int
  intena :: bool
  cpu_proc :: "nat option"
  ts_esp0 :: u32
  ts_ss0 :: u16
  ts_iomb :: u16

record mach =
  curcpu :: nat
  eflags_IF :: bool
  cpus :: "nat \<Rightarrow> cpu"
  locks :: "lockid \<Rightarrow> spinlock"

section \<open>Operations\<close>

definition readeflags_IF :: "'a mach_scheme \<Rightarrow> bool" where
  "readeflags_IF s = eflags_IF s"

definition cli :: "'a mach_scheme \<Rightarrow> 'a mach_scheme" where
  "cli s = s\<lparr>eflags_IF := False\<rparr>"

definition sti :: "'a mach_scheme \<Rightarrow> 'a mach_scheme" where
  "sti s = s\<lparr>eflags_IF := True\<rparr>"

text \<open>
  \<^verbatim>\<open>mycpu\<close> maps the local APIC id to an index of \<^verbatim>\<open>cpus\<close>; the model keeps that index in
  \<open>curcpu\<close>.
\<close>

definition mycpu :: "'a mach_scheme \<Rightarrow> nat res" where
  "mycpu s = (if readeflags_IF s then Inl (Panic ''mycpu called with interrupts enabled'')
     else Inr (curcpu s))"

definition upd_cpu :: "(cpu \<Rightarrow> cpu) \<Rightarrow> 'a mach_scheme \<Rightarrow> 'a mach_scheme" where
  "upd_cpu f s = s\<lparr>cpus := (cpus s)(curcpu s := f (cpus s (curcpu s)))\<rparr>"

definition pushcli :: "'a mach_scheme \<Rightarrow> 'a mach_scheme res" where
  "pushcli s =
     (let eflags = readeflags_IF s;
          s = cli s
      in rbind (mycpu s) (\<lambda>c.
         let s = (if ncli (cpus s c) = 0 then upd_cpu (\<lambda>c. c\<lparr>intena := eflags\<rparr>) s else s)
         in Inr (upd_cpu (\<lambda>c. c\<lparr>ncli := ncli c + 1\<rparr>) s)))"

definition popcli :: "'a mach_scheme \<Rightarrow> 'a mach_scheme res" where
  "popcli s =
     (if readeflags_IF s then Inl (Panic ''popcli - interruptible'')
      else rbind (mycpu s) (\<lambda>c.
        let s = upd_cpu (\<lambda>c. c\<lparr>ncli := ncli c - 1\<rparr>) s in
        if ncli (cpus s c) < 0 then Inl (Panic ''popcli'')
        else if ncli (cpus s c) = 0 \<and> intena (cpus s c) then Inr (sti s)
        else Inr s))"

definition initlock :: "lockid \<Rightarrow> 'a mach_scheme \<Rightarrow> 'a mach_scheme" where
  "initlock lk s = s\<lparr>locks := (locks s)(lk := \<lparr>locked = False, lk_cpu = None\<rparr>)\<rparr>"

definition holding :: "lockid \<Rightarrow> 'a mach_scheme \<Rightarrow> (bool \<times> 'a mach_scheme) res" where
  "holding lk s =
     rbind (pushcli s) (\<lambda>s.
     rbind (mycpu s) (\<lambda>c.
     let r = (locked (locks s lk) \<and> lk_cpu (locks s lk) = Some c) in
     rbind (popcli s) (\<lambda>s. Inr (r, s))))"

text \<open>
  The \<^verbatim>\<open>while(xchg(&lk->locked, 1) != 0)\<close> loop ends at once when the lock word is 0; while
  another CPU holds the lock it goes on spinning, which is the outcome \<^const>\<open>Spins\<close>.
\<close>

definition acquire :: "lockid \<Rightarrow> 'a mach_scheme \<Rightarrow> 'a mach_scheme res" where
  "acquire lk s =
     rbind (pushcli s) (\<lambda>s.
     rbind (holding lk s) (\<lambda>(h, s).
     if h then Inl (Panic ''acquire'')
     else if locked (locks s lk) then Inl Spins
     else rbind (mycpu s) (\<lambda>c.
       Inr (s\<lparr>locks := (locks s)(lk := \<lparr>locked = True, lk_cpu = Some c\<rparr>)\<rparr>))))"

definition release :: "lockid \<Rightarrow> 'a mach_scheme \<Rightarrow> 'a mach_scheme res" where
  "release lk s =
     rbind (holding lk s) (\<lambda>(h, s).
     if \<not> h then Inl (Panic ''release'')
     else popcli (s\<lparr>locks := (locks s)(lk := \<lparr>locked = False, lk_cpu = None\<rparr>)\<rparr>))"

section \<open>Well-formed machine states\<close>

text \<open>
  The nesting discipline: \<open>ncli\<close> is never negative, interrupts are on only outside all
  \<^verbatim>\<open>pushcli\<close>/\<^verbatim>\<open>popcli\<close> pairs.
\<close>

definition cli_ok :: "'a mach_scheme \<Rightarrow> bool" where
  "cli_ok s \<longleftrightarrow> 0 \<le> ncli (cpus s (curcpu s)) \<and> (eflags_IF s \<longrightarrow> ncli (cpus s (curcpu s)) = 0)"

definition lock_free :: "lockid \<Rightarrow> 'a mach_scheme \<Rightarrow> bool" where
  "lock_free lk s \<longleftrightarrow> locks s lk = \<lparr>locked = False, lk_cpu = None\<rparr>"

definition holds :: "lockid \<Rightarrow> 'a mach_scheme \<Rightarrow> bool" where
  "holds lk s \<longleftrightarrow> locked (locks s lk) \<and> lk_cpu (locks s lk) = Some (curcpu s)"

text \<open>The state inside a critical section, and after the outermost one is left.\<close>

definition enter :: "lockid \<Rightarrow> 'a mach_scheme \<Rightarrow> 'a mach_scheme" where
  "enter lk s =
     (let c = cpus s (curcpu s) in
      s\<lparr>eflags_IF := False,
        cpus := (cpus s)(curcpu s := c\<lparr>ncli := ncli c + 1,
          intena := (if ncli c = 0 then eflags_IF s else intena c)\<rparr>),
        locks := (locks s)(lk := \<lparr>locked = True, lk_cpu = Some (curcpu s)\<rparr>)\<rparr>)"

definition settled :: "'a mach_scheme \<Rightarrow> 'a mach_scheme" where
  "settled s =
     (let c = cpus s (curcpu s) in
      if ncli c = 0 then s\<lparr>cpus := (cpus s)(curcpu s := c\<lparr>intena := eflags_IF s\<rparr>)\<rparr> else s)"

lemmas cpu_simps = readeflags_IF_def cli_def sti_def mycpu_def upd_cpu_def Let_def

lemma pushcli_eq:
  "pushcli s = Inr (s\<lparr>eflags_IF := False,
     cpus := (cpus s)(curcpu s := (cpus s (curcpu s))\<lparr>ncli := ncli (cpus s (curcpu s)) + 1,
       intena := (if ncli (cpus s (curcpu s)) = 0 then eflags_IF s
                  else intena (cpus s (curcpu s)))\<rparr>)\<rparr>)"
  by (auto simp: pushcli_def cpu_simps intro!: mach.equality cpu.equality ext)

lemma holding_eq:
  assumes "\<not> eflags_IF s" "1 \<le> ncli (cpus s (curcpu s))"
  shows "holding lk s = Inr (locked (locks s lk) \<and> lk_cpu (locks s lk) = Some (curcpu s), s)"
  using assms
  by (auto simp: holding_def pushcli_eq popcli_def cpu_simps intro!: mach.equality cpu.equality ext)

lemma acquire_free:
  assumes "cli_ok s" "lock_free lk s"
  shows "acquire lk s = Inr (enter lk s)"
  using assms
  by (simp add: acquire_def pushcli_eq holding_eq cli_ok_def lock_free_def enter_def cpu_simps)

lemma acquire_held:
  assumes "cli_ok s" "holds lk s"
  shows "acquire lk s = Inl (Panic ''acquire'')"
  using assms by (simp add: acquire_def pushcli_eq holding_eq cli_ok_def holds_def cpu_simps)

lemma release_enter:
  assumes "cli_ok s" "lock_free lk s"
    and "curcpu t = curcpu (enter lk s)" "eflags_IF t = eflags_IF (enter lk s)"
    and "cpus t = cpus (enter lk s)" "locks t = locks (enter lk s)"
  shows "release lk t = Inr (t\<lparr>eflags_IF := eflags_IF s, cpus := cpus (settled s), locks := locks s\<rparr>)"
proof -
  have "release lk t = popcli (t\<lparr>locks := (locks t)(lk := \<lparr>locked = False, lk_cpu = None\<rparr>)\<rparr>)"
    using assms by (simp add: release_def holding_eq enter_def Let_def cli_ok_def)
  also have "\<dots> = Inr (t\<lparr>eflags_IF := eflags_IF s, cpus := cpus (settled s), locks := locks s\<rparr>)"
    using assms
    by (auto simp: popcli_def enter_def settled_def cli_ok_def lock_free_def cpu_simps
        fun_upd_idem intro!: mach.equality ext)
  finally show ?thesis .
qed

lemma enter_simps [simp]:
  "curcpu (enter lk s) = curcpu s"
  "mach.more (enter lk s) = mach.more s"
  "holds lk (enter lk s)"
  "eflags_IF (enter lk s) = False"
  by (simp_all add: enter_def Let_def holds_def)

lemma settled_simps [simp]:
  "curcpu (settled s) = curcpu s"
  "eflags_IF (settled s) = eflags_IF s"
  "locks (settled s) = locks s"
  "mach.more (settled s) = mach.more s"
  "settled (settled s) = settled s"
  by (auto simp: settled_def Let_def)

lemma cli_ok_settled [simp]: "cli_ok (settled s) = cli_ok s"
  by (auto simp: settled_def cli_ok_def Let_def)

lemma lock_free_settled [simp]: "lock_free lk (settled s) = lock_free lk s"
  by (simp add: lock_free_def)

text \<open>Leaving a critical section gives back the lock state the section was entered with.\<close>

definition same_locks :: "'a mach_scheme \<Rightarrow> 'b mach_scheme \<Rightarrow> bool" where
  "same_locks s t \<longleftrightarrow> curcpu t = curcpu s \<and> eflags_IF t = eflags_IF s
     \<and> cpus t (curcpu s) = cpus (settled s) (curcpu s) \<and> (\<forall>c. c \<noteq> curcpu s \<longrightarrow> cpus t c = cpus s c)
     \<and> locks t = locks s"

lemma cli_ok_enter: "cli_ok s \<Longrightarrow> cli_ok (enter lk s)"
  by (simp add: cli_ok_def enter_def Let_def)

lemma lock_free_enter [simp]: "lk' \<noteq> lk \<Longrightarrow> lock_free lk' (enter lk s) = lock_free lk' s"
  by (simp add: lock_free_def enter_def Let_def)

section \<open>Contention\<close>

text \<open>
  Several CPUs run \<^verbatim>\<open>acquire\<close> and \<^verbatim>\<open>release\<close> on one lock. Every shared access is a step
  of its own: the \<^verbatim>\<open>holding\<close> test at the start of \<^verbatim>\<open>acquire\<close>, each \<^verbatim>\<open>xchg\<close> of the
  spinning loop, the later store to \<^verbatim>\<open>lk->cpu\<close>, the \<^verbatim>\<open>holding\<close> test of \<^verbatim>\<open>release\<close>, the
  clearing of \<^verbatim>\<open>lk->cpu\<close> and the final store of 0 to the lock word.
\<close>

datatype lock_pc = Outside | Spinning | Won | Inside | Clearing | Leaving

record contention =
  lock_word :: bool
  lock_owner :: "nat option"
  lock_pcs :: "nat \<Rightarrow> lock_pc"
  lock_panic :: bool

definition contention_init :: contention where
  "contention_init = \<lparr>lock_word = False, lock_owner = None, lock_pcs = (\<lambda>_. Outside),
     lock_panic = False\<rparr>"

definition held_by :: "contention \<Rightarrow> nat \<Rightarrow> bool" where
  "held_by s i \<longleftrightarrow> lock_word s \<and> lock_owner s = Some i"

abbreviation goto :: "nat \<Rightarrow> lock_pc \<Rightarrow> contention \<Rightarrow> contention" where
  "goto i p s \<equiv> s\<lparr>lock_pcs := (lock_pcs s)(i := p)\<rparr>"

inductive lock_step :: "contention \<Rightarrow> contention \<Rightarrow> bool" where
  acquire_begin: "lock_pcs s i = Outside \<Longrightarrow>
     lock_step s (if held_by s i then s\<lparr>lock_panic := True\<rparr> else goto i Spinning s)"
| xchg_busy: "lock_pcs s i = Spinning \<Longrightarrow> lock_word s \<Longrightarrow> lock_step s (s\<lparr>lock_word := True\<rparr>)"
| xchg_won: "lock_pcs s i = Spinning \<Longrightarrow> \<not> lock_word s \<Longrightarrow>
     lock_step s (goto i Won (s\<lparr>lock_word := True\<rparr>))"
| record_cpu: "lock_pcs s i = Won \<Longrightarrow> lock_step s (goto i Inside (s\<lparr>lock_owner := Some i\<rparr>))"
| release_begin: "lock_pcs s i = Inside \<Longrightarrow>
     lock_step s (if \<not> held_by s i then s\<lparr>lock_panic := True\<rparr> else goto i Clearing s)"
| clear_cpu: "lock_pcs s i = Clearing \<Longrightarrow> lock_step s (goto i Leaving (s\<lparr>lock_owner := None\<rparr>))"
| unlock: "lock_pcs s i = Leaving \<Longrightarrow> lock_step s (goto i Outside (s\<lparr>lock_word := False\<rparr>))"

inductive lock_reachable :: "contention \<Rightarrow> bool" where
  lock_start: "lock_reachable contention_init"
| lock_next: "lock_reachable s \<Longrightarrow> lock_step s t \<Longrightarrow> lock_reachable t"

text \<open>
  At most one CPU is past its winning \<^verbatim>\<open>xchg\<close>; the word is 1 exactly while there is one, and
  the recorded owner is that CPU between its two stores to \<^verbatim>\<open>lk->cpu\<close>.
\<close>

definition busy :: "lock_pc \<Rightarrow> bool" where
  "busy p \<longleftrightarrow> p \<in> {Won, Inside, Clearing, Leaving}"

definition lock_unheld :: "contention \<Rightarrow> bool" where
  "lock_unheld s \<longleftrightarrow> \<not> lock_word s \<and> lock_owner s = None \<and> (\<forall>j. \<not> busy (lock_pcs s j))"

definition lock_taken :: "contention \<Rightarrow> nat \<Rightarrow> bool" where
  "lock_taken s i \<longleftrightarrow> lock_word s \<and> busy (lock_pcs s i) \<and> (\<forall>j. j \<noteq> i \<longrightarrow> \<not> busy (lock_pcs s j))
     \<and> lock_owner s = (if lock_pcs s i \<in> {Inside, Clearing} then Some i else None)"

definition lock_inv :: "contention \<Rightarrow> bool" where
  "lock_inv s \<longleftrightarrow> \<not> lock_panic s \<and> (lock_unheld s \<or> (\<exists>i. lock_taken s i))"

inductive_simps lock_reachable_simps: "lock_reachable s"

lemma busy_simps [simp]:
  "\<not> busy Outside" "\<not> busy Spinning" "busy Won" "busy Inside" "busy Clearing" "busy Leaving"
  by (simp_all add: busy_def)

lemma lock_inv_init: "lock_inv contention_init"
  by (simp add: lock_inv_def contention_init_def lock_unheld_def)

lemma lock_takenI: "lock_taken s i \<Longrightarrow> \<not> lock_panic s \<Longrightarrow> lock_inv s"
  by (auto simp: lock_inv_def)

lemma lock_inv_busyD:
  assumes "lock_inv s" "busy (lock_pcs s i)"
  shows "lock_taken s i"
proof -
  from assms obtain k where k: "lock_taken s k"
    by (auto simp: lock_inv_def lock_unheld_def)
  with assms(2) have "k = i" by (auto simp: lock_taken_def)
  with k show ?thesis by simp
qed

lemma lock_inv_step:
  assumes "lock_step s t" "lock_inv s"
  shows "lock_inv t"
  using assms
proof (induction rule: lock_step.induct)
  case (acquire_begin s i)
  then have out: "\<not> busy (lock_pcs s i)" by simp
  then have no: "\<not> held_by s i"
    using acquire_begin.prems
    by (auto simp: lock_inv_def held_by_def lock_unheld_def lock_taken_def split: if_splits)
  from acquire_begin.prems consider "lock_unheld s" | k where "lock_taken s k"
    by (auto simp: lock_inv_def)
  then show ?case
  proof cases
    case 1
    with no acquire_begin.prems show ?thesis by (simp add: lock_inv_def lock_unheld_def)
  next
    case 2
    then have "k \<noteq> i" using out by (auto simp: lock_taken_def)
    with 2 have "lock_taken (goto i Spinning s) k" by (simp add: lock_taken_def)
    with no acquire_begin.prems show ?thesis by (auto simp: lock_inv_def)
  qed
next
  case (xchg_busy s i)
  then show ?case by (simp add: lock_inv_def lock_unheld_def lock_taken_def)
next
  case (xchg_won s i)
  then have "lock_taken (goto i Won (s\<lparr>lock_word := True\<rparr>)) i"
    by (auto simp: lock_inv_def lock_unheld_def lock_taken_def)
  with xchg_won.prems show ?case by (auto simp: lock_inv_def)
next
  case (record_cpu s i)
  then have "lock_taken s i" using lock_inv_busyD by fastforce
  then have "lock_taken (goto i Inside (s\<lparr>lock_owner := Some i\<rparr>)) i" by (simp add: lock_taken_def)
  with record_cpu.prems show ?case by (auto simp: lock_inv_def)
next
  case (release_begin s i)
  then have "lock_taken s i" using lock_inv_busyD by fastforce
  then have "held_by s i" "lock_taken (goto i Clearing s) i"
    using release_begin.hyps by (simp_all add: lock_taken_def held_by_def)
  with release_begin.prems show ?case by (auto simp: lock_inv_def)
next
  case (clear_cpu s i)
  then have "lock_taken s i" using lock_inv_busyD by fastforce
  then have "lock_taken (goto i Leaving (s\<lparr>lock_owner := None\<rparr>)) i" by (simp add: lock_taken_def)
  with clear_cpu.prems show ?case by (auto simp: lock_inv_def)
next
  case (unlock s i)
  then have "lock_taken s i" using lock_inv_busyD by fastforce
  then have "lock_unheld (goto i Outside (s\<lparr>lock_word := False\<rparr>))"
    using unlock.hyps by (simp add: lock_taken_def lock_unheld_def)
  with unlock.prems show ?case by (simp add: lock_inv_def)
qed

lemma lock_reachable_inv: "lock_reachable s \<Longrightarrow> lock_inv s"
  by (induction rule: lock_reachable.induct) (auto intro: lock_inv_init lock_inv_step)

section \<open>What the locks promise\<close>

text \<open>
  C10: mutual exclusion. In every interleaving of \<^verbatim>\<open>acquire\<close> and \<^verbatim>\<open>release\<close> on any number of
  CPUs, at most one CPU is between the end of its \<^verbatim>\<open>acquire\<close> and the end of its \<^verbatim>\<open>release\<close>,
  that CPU is the recorded holder while it is in the critical section, and neither of the
  panics "acquire" and "release" is reached.
\<close>

theorem lock_mutual_exclusion:
  assumes "lock_reachable s"
  shows "\<not> lock_panic s \<and> (\<forall>i j. busy (lock_pcs s i) \<and> busy (lock_pcs s j) \<longrightarrow> i = j)
    \<and> (\<forall>i. lock_pcs s i = Inside \<longrightarrow> held_by s i)"
proof -
  have inv: "lock_inv s" using assms by (rule lock_reachable_inv)
  then have "i = j" if "busy (lock_pcs s i)" "busy (lock_pcs s j)" for i j
    using that lock_inv_busyD [of s i] by (auto simp: lock_taken_def)
  moreover have "held_by s i" if "lock_pcs s i = Inside" for i
    using that lock_inv_busyD [OF inv, of i] by (simp add: lock_taken_def held_by_def)
  ultimately show ?thesis using inv by (auto simp: lock_inv_def)
qed

theorem lock_mutual_exclusion_witness:
  "\<exists>s. lock_reachable s \<and> lock_pcs s 1 = Won \<and> (\<forall>j. busy (lock_pcs s j) \<longrightarrow> 1 = j)"
proof -
  let ?s1 = "goto 1 Spinning contention_init"
  let ?s2 = "goto 1 Won (?s1\<lparr>lock_word := True\<rparr>)"
  have "lock_step contention_init ?s1"
    using acquire_begin [of contention_init 1] by (simp add: contention_init_def held_by_def)
  then have "lock_reachable ?s1" using lock_start lock_next by blast
  moreover have "lock_step ?s1 ?s2" by (rule xchg_won) (simp_all add: contention_init_def)
  ultimately have r: "lock_reachable ?s2" using lock_next by blast
  have "lock_pcs ?s2 1 = Won" by simp
  with lock_mutual_exclusion [OF r] r show ?thesis by (metis busy_simps(3))
qed

text \<open>
  C31: \<^verbatim>\<open>acquire\<close> of a free lock succeeds with the lock held by this CPU and interrupts off, a
  second \<^verbatim>\<open>acquire\<close> then panics, and \<^verbatim>\<open>release\<close> gives back the lock and the interrupt state
  the CPU had before.
\<close>

theorem acquire_release:
  assumes "cli_ok s" "lock_free lk s"
  shows "\<exists>t. acquire lk s = Inr t \<and> holds lk t \<and> \<not> eflags_IF t
    \<and> acquire lk t = Inl (Panic ''acquire'') \<and> release lk t = Inr (settled s)"
proof -
  have "release lk (enter lk s) = Inr ((enter lk s)\<lparr>eflags_IF := eflags_IF s, cpus := cpus (settled s), locks := locks s\<rparr>)"
    by (rule release_enter [OF assms]) simp_all
  moreover have "(enter lk s)\<lparr>eflags_IF := eflags_IF s, cpus := cpus (settled s), locks := locks s\<rparr> = settled s"
    by (rule mach.equality) simp_all
  ultimately show ?thesis
    using acquire_free [OF assms] acquire_held [OF cli_ok_enter [OF assms(1)]] by simp
qed

definition demo_cpu :: cpu where
  "demo_cpu = \<lparr>ncli = 0, intena = False, cpu_proc = None, ts_esp0 = 0, ts_ss0 = 0, ts_iomb = 0\<rparr>"

definition demo_mach :: mach where
  "demo_mach = \<lparr>curcpu = 0, eflags_IF = True, cpus = (\<lambda>_. demo_cpu),
     locks = (\<lambda>_. \<lparr>locked = False, lk_cpu = None\<rparr>)\<rparr>"

theorem acquire_release_witness:
  "\<exists>t. acquire KmemLock demo_mach = Inr t \<and> release KmemLock t = Inr (settled demo_mach)
    \<and> eflags_IF (settled demo_mach)"
proof -
  have "cli_ok demo_mach" "lock_free KmemLock demo_mach" "eflags_IF (settled demo_mach)"
    by (simp_all add: cli_ok_def lock_free_def demo_mach_def demo_cpu_def)
  then show ?thesis using acquire_release [of demo_mach KmemLock] by blast
qed

end
