(* ===== verification/Kalloc.thy ===== *)
theory Kalloc
  imports CString Spinlock
begin

text \<open>
  The physical page allocator, \<^verbatim>\<open>kalloc.c\<close>. The free list is kept the way the code keeps it,
  as a chain of pointers stored in the first word of each free page of the byte memory.
  The interface the rest of the kernel relies on is the locale \<open>page_pool\<close>: a stack of
  distinct valid pages. Its interpretation for \<open>kalloc\<close> and \<open>kfree\<close> is the refinement
  proof of the linked list.
\<close>

section \<open>State and operations\<close>

text \<open>
  \<open>kend\<close> and \<open>kdata\<close> are the linker's symbols \<^verbatim>\<open>end\<close> and \<^verbatim>\<open>data\<close>; \<open>cr3\<close> is the page
  table register and \<open>kpgdir\<close> the kernel-only page directory (\<^verbatim>\<open>vm.c\<close>).
\<close>

record phys = mach +
  mem :: memory
  kend :: u32
  kdata :: u32
  kpgdir :: u32
  cr3 :: u32
  freelist :: u32
  use_lock :: bool

definition kmem_acquire :: "'a phys_scheme \<Rightarrow> 'a phys_scheme res" where
  "kmem_acquire s = (if use_lock s then acquire KmemLock s else Inr s)"

definition kmem_release :: "'a phys_scheme \<Rightarrow> 'a phys_scheme res" where
  "kmem_release s = (if use_lock s then release KmemLock s else Inr s)"

definition kfree :: "u32 \<Rightarrow> 'a phys_scheme \<Rightarrow> 'a phys_scheme res" where
  "kfree v s =
     (if v mod PGSIZE \<noteq> 0 \<or> v < kend s \<or> V2P v \<ge> PHYSTOP then Inl (Panic ''kfree'')
      else
        let s = s\<lparr>mem := memset (mem s) v 1 PGSIZE\<rparr> in
        rbind (kmem_acquire s) (\<lambda>s.
        let s = s\<lparr>mem := store32 (mem s) v (freelist s)\<rparr>;
            s = s\<lparr>freelist := v\<rparr>
        in kmem_release s))"

definition kalloc :: "'a phys_scheme \<Rightarrow> (u32 \<times> 'a phys_scheme) res" where
  "kalloc s =
     rbind (kmem_acquire s) (\<lambda>s.
     let r = freelist s;
         s = (if r \<noteq> 0 then s\<lparr>freelist := load32 (mem s) r\<rparr> else s)
     in rbind (kmem_release s) (\<lambda>s. Inr (r, s)))"

lemma u32_mod_PGSIZE: "v mod 4096 = 0 \<longleftrightarrow> page_aligned v" for v :: u32
proof -
  have "v mod 4096 = 0 \<longleftrightarrow> unat (v mod 4096) = 0" by (simp add: unat_eq_0)
  then show ?thesis by (simp add: unat_mod page_aligned_def)
qed

text \<open>A page \<open>kfree\<close> accepts lies below \<open>P2V PHYSTOP\<close>, so the next page address is larger.\<close>

lemma kfree_Inr_range:
  assumes "kfree v s = Inr t"
  shows "unat v < 0x8E000000" "page_aligned v"
proof -
  have ok: "\<not> (v mod PGSIZE \<noteq> 0 \<or> v < kend s \<or> V2P v \<ge> PHYSTOP)"
  proof
    assume "v mod PGSIZE \<noteq> 0 \<or> v < kend s \<or> V2P v \<ge> PHYSTOP"
    then have "kfree v s = Inl (Panic ''kfree'')" unfolding kfree_def by (rule if_P)
    with assms show False by simp
  qed
  then show "page_aligned v" by (simp add: u32_mod_PGSIZE)
  have "unat (V2P v) < 0xE000000" using ok by (simp add: word_less_nat_alt not_le)
  then have "unat (P2V (V2P v)) = unat (V2P v) + 0x80000000"
    unfolding P2V_def by (simp add: unat_word_ariths)
  with \<open>unat (V2P v) < 0xE000000\<close> show "unat v < 0x8E000000" by simp
qed

function freerange_loop :: "u32 \<Rightarrow> u32 \<Rightarrow> 'a phys_scheme \<Rightarrow> 'a phys_scheme res" where
  "freerange_loop p vend s =
     (if p + PGSIZE \<le> vend then
        rbind (kfree p s) (\<lambda>s. freerange_loop (p + PGSIZE) vend s)
      else Inr s)"
  by pat_completeness auto
termination
proof (relation "measure (\<lambda>(p, vend, s). 2 ^ 32 - unat p)")
  fix p vend :: u32 and s s' :: "'a phys_scheme"
  assume "kfree p s = Inr s'"
  then have "unat p < 0x8E000000" by (rule kfree_Inr_range)
  then have "unat (p + 4096) = unat p + 4096" by (simp add: unat_word_ariths)
  then show "((p + 4096, vend, s'), p, vend, s) \<in> measure (\<lambda>(p, vend, s). 2 ^ 32 - unat p)"
    using \<open>unat p < 0x8E000000\<close> by simp
qed simp

declare freerange_loop.simps [simp del]

definition freerange :: "u32 \<Rightarrow> u32 \<Rightarrow> 'a phys_scheme \<Rightarrow> 'a phys_scheme res" where
  "freerange vstart vend s = freerange_loop (PGROUNDUP vstart) vend s"

definition kinit1 :: "u32 \<Rightarrow> u32 \<Rightarrow> 'a phys_scheme \<Rightarrow> 'a phys_scheme res" where
  "kinit1 vstart vend s = freerange vstart vend ((initlock KmemLock s)\<lparr>use_lock := False\<rparr>)"

definition kinit2 :: "u32 \<Rightarrow> u32 \<Rightarrow> 'a phys_scheme \<Rightarrow> 'a phys_scheme res" where
  "kinit2 vstart vend s =
     rbind (freerange vstart vend s) (\<lambda>s. Inr (s\<lparr>use_lock := True\<rparr>))"

section \<open>The free list as a list\<close>

primrec fl_path :: "memory \<Rightarrow> u32 \<Rightarrow> u32 list \<Rightarrow> bool" where
  "fl_path m h [] \<longleftrightarrow> h = 0"
| "fl_path m h (p # ps) \<longleftrightarrow> h = p \<and> p \<noteq> 0 \<and> fl_path m (load32 m p) ps"

text \<open>A page the allocator may hand out: aligned, after the kernel image, below \<^verbatim>\<open>PHYSTOP\<close>.\<close>

definition kpage :: "'a phys_scheme \<Rightarrow> u32 \<Rightarrow> bool" where
  "kpage s p \<longleftrightarrow> page_aligned p \<and> kend s \<le> p \<and> V2P p < PHYSTOP"

definition kmem_ok :: "'a phys_scheme \<Rightarrow> u32 list \<Rightarrow> bool" where
  "kmem_ok s ps \<longleftrightarrow> fl_path (mem s) (freelist s) ps \<and> distinct ps \<and> (\<forall>p \<in> set ps. kpage s p)
     \<and> (use_lock s \<longrightarrow> cli_ok s \<and> lock_free KmemLock s)"

definition ksettle :: "'a phys_scheme \<Rightarrow> 'a phys_scheme" where
  "ksettle s = (if use_lock s then settled s else s)"

lemma fl_path_unique: "fl_path m h ps \<Longrightarrow> fl_path m h qs \<Longrightarrow> ps = qs"
proof (induction ps arbitrary: h qs)
  case Nil
  then show ?case by (cases qs) auto
next
  case (Cons p ps)
  then show ?case by (cases qs) auto
qed

lemma fl_path_cong:
  "(\<And>p. p \<in> set ps \<Longrightarrow> load32 m' p = load32 m p) \<Longrightarrow> fl_path m' h ps = fl_path m h ps"
  by (induction ps arbitrary: h) auto

lemma fl_path_same_except:
  assumes "same_except P m m'" "\<forall>p \<in> set ps. page_aligned p \<and> page_no p \<notin> P"
  shows "fl_path m' h ps = fl_path m h ps"
  by (rule fl_path_cong) (use assms in \<open>auto intro: same_except_load32\<close>)

lemma kpage_nonzero: "kpage s p \<Longrightarrow> p \<noteq> 0"
  by (auto simp: kpage_def V2P_def)

lemma settled_phys [simp]:
  "mem (settled s) = mem s" "kend (settled s) = kend s" "freelist (settled s) = freelist s"
  "use_lock (settled s) = use_lock s" "kdata (settled s) = kdata s" "kpgdir (settled s) = kpgdir s"
  "cr3 (settled s) = cr3 s" "phys.more (settled s) = phys.more s"
  by (simp_all add: settled_def Let_def)

lemma ksettle_simps [simp]:
  "mem (ksettle s) = mem s" "kend (ksettle s) = kend s" "freelist (ksettle s) = freelist s"
  "use_lock (ksettle s) = use_lock s" "kdata (ksettle s) = kdata s" "kpgdir (ksettle s) = kpgdir s"
  "cr3 (ksettle s) = cr3 s" "phys.more (ksettle s) = phys.more s"
  "curcpu (ksettle s) = curcpu s" "eflags_IF (ksettle s) = eflags_IF s"
  "locks (ksettle s) = locks s" "ksettle (ksettle s) = ksettle s"
  by (simp_all add: ksettle_def)

lemma kpage_cong: "kend t = kend s \<Longrightarrow> kpage t p = kpage s p"
  by (simp add: kpage_def)

lemma kmem_acquire_release:
  fixes s :: "'a phys_scheme"
  assumes "use_lock s \<longrightarrow> cli_ok s \<and> lock_free KmemLock s"
  shows "rbind (kmem_acquire s) (\<lambda>s. kmem_release (s\<lparr>mem := m, freelist := f\<rparr>))
    = Inr ((ksettle s)\<lparr>mem := m, freelist := f\<rparr>)"
proof (cases "use_lock s")
  case False
  then show ?thesis by (simp add: kmem_acquire_def kmem_release_def ksettle_def)
next
  case True
  let ?t = "(enter KmemLock s)\<lparr>mem := m, freelist := f\<rparr>"
  have "use_lock ?t" using True by (simp add: enter_def Let_def)
  moreover have "release KmemLock ?t =
      Inr (?t\<lparr>eflags_IF := eflags_IF s, cpus := cpus (settled s), locks := locks s\<rparr>)"
    using assms True by (intro release_enter) simp_all
  moreover have "?t\<lparr>eflags_IF := eflags_IF s, cpus := cpus (settled s), locks := locks s\<rparr>
      = (ksettle s)\<lparr>mem := m, freelist := f\<rparr>"
    using True by (intro phys.equality) (simp_all add: ksettle_def enter_def Let_def)
  ultimately show ?thesis
    using True assms by (simp add: kmem_acquire_def kmem_release_def acquire_free)
qed

lemma kfree_eq:
  assumes "kmem_ok s ps" "kpage s v"
  shows "kfree v s = Inr ((ksettle s)\<lparr>mem := store32 (memset (mem s) v 1 PGSIZE) v (freelist s),
    freelist := v\<rparr>)"
proof -
  let ?s = "s\<lparr>mem := memset (mem s) v 1 PGSIZE\<rparr>"
  have lk: "use_lock ?s \<longrightarrow> cli_ok ?s \<and> lock_free KmemLock ?s"
    using assms(1) by (simp add: kmem_ok_def cli_ok_def lock_free_def)
  have inner: "kmem_acquire ?s = Inr t \<Longrightarrow> mem t = mem ?s \<and> freelist t = freelist s" for t
    using lk by (auto simp: kmem_acquire_def acquire_free enter_def Let_def split: if_splits)
  have c: "\<not> (v mod PGSIZE \<noteq> 0 \<or> v < kend s \<or> V2P v \<ge> PHYSTOP)"
    using assms(2) by (simp add: kpage_def u32_mod_PGSIZE not_le not_less)
  have "kfree v s = rbind (kmem_acquire ?s) (\<lambda>t. kmem_release
      (t\<lparr>mem := store32 (mem t) v (freelist t), freelist := v\<rparr>))"
    unfolding kfree_def if_not_P [OF c] Let_def by simp
  also have "\<dots> = rbind (kmem_acquire ?s) (\<lambda>t. kmem_release
      (t\<lparr>mem := store32 (mem ?s) v (freelist s), freelist := v\<rparr>))"
    by (rule rbind_cong [OF refl]) (simp add: inner)
  also have "\<dots> = Inr ((ksettle ?s)\<lparr>mem := store32 (mem ?s) v (freelist s), freelist := v\<rparr>)"
    by (rule kmem_acquire_release [OF lk])
  also have "\<dots> = Inr ((ksettle s)\<lparr>mem := store32 (memset (mem s) v 1 PGSIZE) v (freelist s),
      freelist := v\<rparr>)"
    by (simp add: ksettle_def settled_def Let_def)
  finally show ?thesis .
qed

lemma kalloc_eq:
  assumes "kmem_ok s ps"
  shows "kalloc s = Inr (freelist s, (ksettle s)\<lparr>freelist :=
    if freelist s \<noteq> 0 then load32 (mem s) (freelist s) else 0\<rparr>)"
proof -
  have lk: "use_lock s \<longrightarrow> cli_ok s \<and> lock_free KmemLock s"
    using assms by (simp add: kmem_ok_def)
  let ?f = "if freelist s \<noteq> 0 then load32 (mem s) (freelist s) else 0"
  have inner: "kmem_acquire s = Inr t \<Longrightarrow> mem t = mem s \<and> freelist t = freelist s" for t
    using lk by (auto simp: kmem_acquire_def acquire_free enter_def Let_def split: if_splits)
  have "kalloc s = rbind (rbind (kmem_acquire s) (\<lambda>t. kmem_release (t\<lparr>mem := mem s, freelist := ?f\<rparr>)))
      (\<lambda>t. Inr (freelist s, t))"
    unfolding kalloc_def rbind_assoc Let_def
  proof (rule rbind_cong [OF refl])
    fix t assume "kmem_acquire s = Inr t"
    with inner have t: "mem t = mem s" "freelist t = freelist s" by blast+
    have eq: "(if freelist t \<noteq> 0 then t\<lparr>freelist := load32 (mem t) (freelist t)\<rparr> else t)
        = t\<lparr>mem := mem s, freelist := ?f\<rparr>"
      using t by (auto intro!: phys.equality)
    show "rbind (kmem_release (if freelist t \<noteq> 0 then t\<lparr>freelist := load32 (mem t) (freelist t)\<rparr>
        else t)) (\<lambda>s. Inr (freelist t, s)) =
      rbind (kmem_release (t\<lparr>mem := mem s, freelist := ?f\<rparr>)) (\<lambda>t. Inr (freelist s, t))"
      unfolding eq unfolding t(2) ..
  qed
  also have "\<dots> = Inr (freelist s, (ksettle s)\<lparr>mem := mem s, freelist := ?f\<rparr>)"
    by (simp only: kmem_acquire_release [OF lk] rbind_simps)
  finally show ?thesis by (auto intro!: phys.equality)
qed

lemma kmem_ok_ksettle [simp]: "kmem_ok (ksettle s) ps = kmem_ok s ps"
proof -
  have "cli_ok (ksettle s) = cli_ok s" "lock_free KmemLock (ksettle s) = lock_free KmemLock s"
    by (simp_all add: ksettle_def)
  then show ?thesis by (simp add: kmem_ok_def kpage_def)
qed

section \<open>The allocator's interface\<close>

text \<open>
  What the kernel relies on: \<open>alloc\<close> pops a page of the pool or returns the null pointer
  when there is none, \<open>free\<close> pushes one; pool pages are distinct and valid.
\<close>

locale page_pool =
  fixes alloc :: "'s \<Rightarrow> (u32 \<times> 's) res"
    and free :: "u32 \<Rightarrow> 's \<Rightarrow> 's res"
    and pool :: "'s \<Rightarrow> u32 list \<Rightarrow> bool"
    and valid :: "'s \<Rightarrow> u32 \<Rightarrow> bool"
  assumes alloc_none: "pool s [] \<Longrightarrow> \<exists>t. alloc s = Inr (0, t) \<and> pool t []"
    and alloc_some: "pool s (p # ps) \<Longrightarrow> \<exists>t. alloc s = Inr (p, t) \<and> pool t ps \<and> valid t = valid s"
    and free_push: "pool s ps \<Longrightarrow> valid s p \<Longrightarrow> p \<notin> set ps \<Longrightarrow>
      \<exists>t. free p s = Inr t \<and> pool t (p # ps) \<and> valid t = valid s"
    and pool_distinct: "pool s ps \<Longrightarrow> distinct ps"
    and pool_valid: "pool s ps \<Longrightarrow> p \<in> set ps \<Longrightarrow> valid s p"
    and valid_nonzero: "valid s p \<Longrightarrow> p \<noteq> 0"
begin

lemma alloc_total: "pool s ps \<Longrightarrow> \<exists>p t. alloc s = Inr (p, t)"
  using alloc_none alloc_some by (cases ps) blast+

lemma alloc_fresh:
  assumes "pool s ps" "alloc s = Inr (p, t)" "p \<noteq> 0"
  obtains qs where "ps = p # qs" "pool t qs" "p \<notin> set qs" "valid s p" "valid t = valid s"
proof (cases ps)
  case Nil
  then show thesis using assms alloc_none by fastforce
next
  case (Cons q qs)
  then obtain t' where t': "alloc s = Inr (q, t')" "pool t' qs" "valid t' = valid s"
    using assms(1) alloc_some by blast
  have "distinct (q # qs)" using pool_distinct [OF assms(1)] unfolding Cons .
  moreover have "valid s q" using assms(1) Cons by (intro pool_valid [of s ps]) auto
  ultimately show thesis using that t' assms(2) Cons by auto
qed

lemma alloc_null:
  assumes "pool s ps" "alloc s = Inr (0, t)"
  shows "ps = []"
proof (cases ps)
  case (Cons q qs)
  then have "valid s q" using assms(1) pool_valid by simp
  then have "q \<noteq> 0" by (rule valid_nonzero)
  moreover obtain t' where "alloc s = Inr (q, t')"
    using assms(1) Cons alloc_some by blast
  ultimately show ?thesis using assms(2) by simp
qed simp

lemma free_then_alloc:
  assumes "pool s ps" "valid s p" "p \<notin> set ps"
  shows "\<exists>t u. free p s = Inr t \<and> alloc t = Inr (p, u) \<and> pool u ps"
  using free_push [OF assms] alloc_some by blast

lemma alloc_then_free:
  assumes "pool s ps" "alloc s = Inr (p, t)" "p \<noteq> 0"
  shows "\<exists>u. free p t = Inr u \<and> pool u ps"
  using assms by (metis alloc_fresh free_push)

end

lemma kfree_ok:
  assumes "kmem_ok s ps" "kpage s v" "v \<notin> set ps"
  shows "\<exists>t. kfree v s = Inr t \<and> kmem_ok t (v # ps) \<and> kpage t = kpage s"
proof -
  let ?m = "memset (mem s) v 1 PGSIZE"
  let ?t = "(ksettle s)\<lparr>mem := store32 ?m v (freelist s), freelist := v\<rparr>"
  have al: "page_aligned v" using assms(2) by (simp add: kpage_def)
  have other: "page_aligned p \<and> page_no p \<notin> {page_no v}" if "p \<in> set ps" for p
    using that assms al page_no_inj [of p v] by (auto simp: kmem_ok_def kpage_def)
  have "same_except ({page_no v} \<union> {page_no v}) (mem s) (store32 ?m v (freelist s))"
    by (rule same_except_trans [OF same_except_memset [OF al] same_except_store32]) (simp add: al)
  then have "fl_path (store32 ?m v (freelist s)) (freelist s) ps"
    using fl_path_same_except [of "{page_no v}"] other assms(1) by (simp add: kmem_ok_def)
  then have "kmem_ok ?t (v # ps)"
    using assms kpage_nonzero [OF assms(2)]
    by (simp add: kmem_ok_def kpage_def ksettle_def cli_ok_def [of "settled _"] lock_free_def)
      (simp add: cli_ok_def settled_def Let_def)
  then show ?thesis
    using kfree_eq [OF assms(1,2)] by (auto simp: kpage_def fun_eq_iff)
qed

lemma kalloc_some:
  assumes "kmem_ok s (p # ps)"
  shows "kalloc s = Inr (p, (ksettle s)\<lparr>freelist := load32 (mem s) p\<rparr>)"
    and "kmem_ok ((ksettle s)\<lparr>freelist := load32 (mem s) p\<rparr>) ps"
proof -
  have p: "freelist s = p" "p \<noteq> 0" "fl_path (mem s) (load32 (mem s) p) ps"
    using assms by (auto simp: kmem_ok_def)
  then show "kalloc s = Inr (p, (ksettle s)\<lparr>freelist := load32 (mem s) p\<rparr>)"
    using kalloc_eq [OF assms] by simp
  have "kmem_ok (ksettle s) (p # ps)" using assms by simp
  then show "kmem_ok ((ksettle s)\<lparr>freelist := load32 (mem s) p\<rparr>) ps"
    using p(3) by (simp add: kmem_ok_def kpage_def cli_ok_def lock_free_def)
qed

lemma kalloc_none:
  assumes "kmem_ok s []"
  shows "kalloc s = Inr (0, ksettle s)"
proof -
  have "freelist s = 0" using assms by (simp add: kmem_ok_def)
  then show ?thesis using kalloc_eq [OF assms] by (auto intro!: phys.equality)
qed

interpretation kp: page_pool kalloc kfree kmem_ok kpage
proof
  fix s :: "'a phys_scheme" and p ps
  show "kmem_ok s [] \<Longrightarrow> \<exists>t. kalloc s = Inr (0, t) \<and> kmem_ok t []"
    using kalloc_none by fastforce
  show "kmem_ok s (p # ps) \<Longrightarrow>
      \<exists>t. kalloc s = Inr (p, t) \<and> kmem_ok t ps \<and> kpage t = kpage s"
    using kalloc_some by (fastforce simp: kpage_def fun_eq_iff)
  show "kmem_ok s ps \<Longrightarrow> kpage s p \<Longrightarrow> p \<notin> set ps \<Longrightarrow>
      \<exists>t. kfree p s = Inr t \<and> kmem_ok t (p # ps) \<and> kpage t = kpage s"
    by (rule kfree_ok)
  show "kmem_ok s ps \<Longrightarrow> distinct ps" by (simp add: kmem_ok_def)
  show "kmem_ok s ps \<Longrightarrow> p \<in> set ps \<Longrightarrow> kpage s p" by (simp add: kmem_ok_def)
  show "kpage s p \<Longrightarrow> p \<noteq> 0" by (rule kpage_nonzero)
qed

section \<open>Initialisation\<close>

definition range_pages :: "u32 \<Rightarrow> nat \<Rightarrow> u32 list" where
  "range_pages p n = map (\<lambda>i. p + of_nat (4096 * i)) [0..<n]"

lemma range_pages_simps [simp]:
  "range_pages p 0 = []"
  "range_pages p (Suc n) = p # range_pages (p + 4096) n"
proof -
  have "[0..<Suc n] = 0 # map Suc [0..<n]" by (simp add: upt_conv_Cons map_Suc_upt del: upt_Suc)
  then show "range_pages p (Suc n) = p # range_pages (p + 4096) n"
    by (simp add: range_pages_def algebra_simps del: upt_Suc)
qed (simp add: range_pages_def)

lemma unat_next_page: "unat p \<le> 0x8E000000 \<Longrightarrow> unat (p + 4096) = unat p + 4096" for p :: u32
  by (simp add: unat_word_ariths)

lemma page_aligned_next:
  assumes "page_aligned p" "unat p \<le> 0x8E000000"
  shows "page_aligned (p + 4096)"
  using assms by (simp add: page_aligned_def unat_next_page)

lemma kpageI:
  assumes "page_aligned p" "kend s \<le> p" "0x80000000 \<le> unat p" "unat p < 0x8E000000"
  shows "kpage s p"
proof -
  have "unat (V2P p) = unat p - 0x80000000"
    using assms(3) by (simp add: V2P_def unat_sub word_le_nat_alt)
  then show ?thesis using assms by (simp add: kpage_def word_less_nat_alt)
qed

lemma set_range_pages_ge:
  assumes "q \<in> set (range_pages p n)" "unat p + 4096 * n \<le> 0x8E000000"
  shows "unat p \<le> unat q"
  using assms
proof (induction n arbitrary: p)
  case (Suc n)
  then have "unat (p + 4096) = unat p + 4096" by (intro unat_next_page) simp
  with Suc show ?case by fastforce
qed simp

text \<open>Freeing a range pushes its pages, first page first.\<close>

lemma freerange_loop_ok:
  assumes "kmem_ok s ps" "page_aligned p" "kend s \<le> p" "0x80000000 \<le> unat p"
    and "unat p + 4096 * n \<le> unat vend" "unat vend < unat p + 4096 * n + 4096"
    and "unat vend \<le> 0x8E000000" "set (range_pages p n) \<inter> set ps = {}"
  shows "\<exists>t. freerange_loop p vend s = Inr t \<and> kmem_ok t (rev (range_pages p n) @ ps)
    \<and> kend t = kend s"
  using assms
proof (induction n arbitrary: p s ps)
  case 0
  then have "unat (p + 4096) = unat p + 4096" by (intro unat_next_page) simp
  with 0 have "\<not> p + 4096 \<le> vend" by (simp add: word_le_nat_alt)
  then have "freerange_loop p vend s = Inr s" by (subst freerange_loop.simps) simp
  with 0 show ?case by simp
next
  case (Suc n)
  then have up: "unat (p + 4096) = unat p + 4096" by (intro unat_next_page) simp
  have le: "p + 4096 \<le> vend" using Suc.prems(5) up by (simp add: word_le_nat_alt)
  have "kpage s p" using Suc.prems by (intro kpageI) simp_all
  moreover have "p \<notin> set ps" using Suc.prems(8) by simp
  ultimately obtain t where t: "kfree p s = Inr t" "kmem_ok t (p # ps)" "kpage t = kpage s"
    using kfree_ok [OF Suc.prems(1)] by blast
  have kt: "kend t = kend s"
    using kfree_eq [OF Suc.prems(1) \<open>kpage s p\<close>] t(1) by auto
  have disj: "set (range_pages (p + 4096) n) \<inter> set (p # ps) = {}"
  proof -
    have "p \<notin> set (range_pages (p + 4096) n)"
      using set_range_pages_ge [of p "p + 4096" n] up Suc.prems(5,7) by auto
    then show ?thesis using Suc.prems(8) by auto
  qed
  have "\<exists>u. freerange_loop (p + 4096) vend t = Inr u
      \<and> kmem_ok u (rev (range_pages (p + 4096) n) @ (p # ps)) \<and> kend u = kend t"
  proof (rule Suc.IH)
    show "page_aligned (p + 4096)" using Suc.prems(2,5,7) by (intro page_aligned_next) auto
    show "kend t \<le> p + 4096" using Suc.prems(3) kt up by (simp add: word_le_nat_alt)
  qed (use t up Suc.prems disj in simp_all)
  then obtain u where u: "freerange_loop (p + 4096) vend t = Inr u"
      "kmem_ok u (rev (range_pages (p + 4096) n) @ (p # ps))" "kend u = kend t" by blast
  have "freerange_loop p vend s = Inr u"
    using le t(1) u(1) by (subst freerange_loop.simps) simp
  with u kt show ?case by simp
qed

lemma freerange_ok:
  assumes "kmem_ok s ps" "kend s \<le> PGROUNDUP vstart"
    and "0x80000000 \<le> unat vstart" "unat vstart + 4095 \<le> unat vend" "unat vend \<le> 0x8E000000"
    and "set (range_pages (PGROUNDUP vstart) n) \<inter> set ps = {}"
    and "n = (unat vend - unat (PGROUNDUP vstart)) div 4096"
  shows "\<exists>t. freerange vstart vend s = Inr t
    \<and> kmem_ok t (rev (range_pages (PGROUNDUP vstart) n) @ ps) \<and> kend t = kend s"
proof -
  let ?p = "PGROUNDUP vstart"
  have up: "unat ?p = (unat vstart + 4095) div 4096 * 4096"
    using assms(4,5) by (intro unat_PGROUNDUP) simp
  have lo: "unat vstart \<le> unat ?p" and hi: "unat ?p \<le> unat vstart + 4095"
    unfolding up using div_mult_mod_eq [of "unat vstart + 4095" 4096]
      mod_less_divisor [of 4096 "unat vstart + 4095"] by linarith+
  have n: "unat ?p + 4096 * n \<le> unat vend" "unat vend < unat ?p + 4096 * n + 4096"
    using assms(4,7) hi div_mult_mod_eq [of "unat vend - unat ?p" 4096]
      mod_less_divisor [of 4096 "unat vend - unat ?p"] by linarith+
  show ?thesis
    unfolding freerange_def
    by (rule freerange_loop_ok) (use assms lo n in simp_all)
qed

section \<open>What the allocator promises\<close>

text \<open>
  C11: \<^verbatim>\<open>kalloc\<close> and \<^verbatim>\<open>kfree\<close> implement a stack of pages. With a pool \<open>p # ps\<close>, \<^verbatim>\<open>kalloc\<close> returns
  the page \<open>p\<close>, which is valid and not in the remaining pool \<open>ps\<close>; freeing it again restores
  the pool; and with an empty pool \<^verbatim>\<open>kalloc\<close> returns the null pointer.
\<close>

theorem kalloc_kfree_pool:
  assumes "kmem_ok s (p # ps)" "kmem_ok r []"
  shows "(\<exists>t u. kalloc s = Inr (p, t) \<and> kpage s p \<and> p \<notin> set ps \<and> kmem_ok t ps
      \<and> kfree p t = Inr u \<and> kmem_ok u (p # ps))
    \<and> (\<exists>t. kalloc r = Inr (0, t) \<and> kmem_ok t [])"
proof -
  obtain t where t: "kalloc s = Inr (p, t)" "kmem_ok t ps" using kp.alloc_some [OF assms(1)] by blast
  have p: "kpage s p" using kp.pool_valid [OF assms(1)] by simp
  then have "p \<noteq> 0" by (rule kpage_nonzero)
  then have "\<exists>u. kfree p t = Inr u \<and> kmem_ok u (p # ps)" by (rule kp.alloc_then_free [OF assms(1) t(1)])
  moreover have "p \<notin> set ps" using kp.pool_distinct [OF assms(1)] by simp
  ultimately show ?thesis using t p kp.alloc_none [OF assms(2)] by blast
qed

definition demo_phys :: "u32 \<Rightarrow> phys" where
  "demo_phys fl = \<lparr>curcpu = 0, eflags_IF = True, cpus = (\<lambda>_. demo_cpu),
     locks = (\<lambda>_. \<lparr>locked = False, lk_cpu = None\<rparr>), mem = (\<lambda>_. 0), kend = 0x80110000, kdata = 0x80108000,
     kpgdir = 0, cr3 = 0, freelist = fl, use_lock = True\<rparr>"

lemma demo_phys_ok:
  "kmem_ok (demo_phys 0x80400000) [0x80400000]" "kmem_ok (demo_phys 0) []"
  by (simp_all add: kmem_ok_def demo_phys_def load32_def kpage_def page_aligned_def V2P_def cli_ok_def
      lock_free_def demo_cpu_def)

theorem kalloc_kfree_pool_witness:
  "\<exists>t u. kalloc (demo_phys 0x80400000) = Inr (0x80400000, t) \<and> kfree 0x80400000 t = Inr u
    \<and> kmem_ok u [0x80400000]"
  using kalloc_kfree_pool [OF demo_phys_ok] by blast

text \<open>
  C32: \<^verbatim>\<open>freerange\<close> (and with it \<^verbatim>\<open>kinit1\<close> and \<^verbatim>\<open>kinit2\<close>) ends and pushes every whole page of the
  range, each once and in order, onto the free list.
\<close>

theorem freerange_pushes_all:
  assumes "kmem_ok s ps" "kend s \<le> PGROUNDUP vstart"
    and "0x80000000 \<le> unat vstart" "unat vstart + 4095 \<le> unat vend" "unat vend \<le> 0x8E000000"
    and "set (range_pages (PGROUNDUP vstart) n) \<inter> set ps = {}"
    and "n = (unat vend - unat (PGROUNDUP vstart)) div 4096"
  shows "\<exists>t. freerange vstart vend s = Inr t \<and> kmem_ok t (rev (range_pages (PGROUNDUP vstart) n) @ ps)"
  using freerange_ok [OF assms] by blast

theorem freerange_pushes_all_witness:
  "\<exists>t. freerange 0x80400000 0x80402000 (demo_phys 0) = Inr t \<and> kmem_ok t [0x80401000, 0x80400000]"
proof -
  have up: "PGROUNDUP 0x80400000 = 0x80400000" by (simp add: PGROUNDUP_def)
  have rp: "range_pages 0x80400000 2 = [0x80400000, 0x80401000]"
    by (simp add: numeral_2_eq_2)
  have "\<exists>t. freerange 0x80400000 0x80402000 (demo_phys 0) = Inr t
      \<and> kmem_ok t (rev (range_pages (PGROUNDUP 0x80400000) 2) @ [])"
  proof (rule freerange_pushes_all [OF demo_phys_ok(2)])
    show "kend (demo_phys 0) \<le> PGROUNDUP 0x80400000" unfolding up by (simp add: demo_phys_def)
  qed (simp_all add: up)
  then show ?thesis unfolding up rp by simp
qed

end
