(* ===== verification/Vm.thy ===== *)
theory Vm
  imports Kalloc
begin

text \<open>
  Page tables and user address spaces, \<^verbatim>\<open>vm.c\<close>. Page directories and page tables are pages
  of the byte memory; entries are read and written with 32-bit accesses exactly where the
  code does it. The abstract view is \<open>pte_of\<close>, the entry a virtual address resolves to; the
  lemmas state what each operation does to that view and that it touches nothing else.
\<close>

section \<open>Operations\<close>

text \<open>A null pointer result stands for "no page table entry".\<close>

definition walkpgdir :: "u32 \<Rightarrow> u32 \<Rightarrow> bool \<Rightarrow> 'a phys_scheme \<Rightarrow> (u32 \<times> 'a phys_scheme) res" where
  "walkpgdir pgdir va alloc s =
     (let pde = entry pgdir (PDX va) in
      if load32 (mem s) pde AND PTE_P \<noteq> 0 then
        Inr (entry (P2V (PTE_ADDR (load32 (mem s) pde))) (PTX va), s)
      else if \<not> alloc then Inr (0, s)
      else rbind (kalloc s) (\<lambda>(pgtab, s).
        if pgtab = 0 then Inr (0, s)
        else
          let s = s\<lparr>mem := memset (mem s) pgtab 0 PGSIZE\<rparr>;
              s = s\<lparr>mem := store32 (mem s) pde (V2P pgtab OR PTE_P OR PTE_W OR PTE_U)\<rparr>
          in Inr (entry pgtab (PTX va), s)))"

text \<open>
  The loop of \<^verbatim>\<open>mappages\<close> runs from \<open>a\<close> to \<open>last\<close>, both page aligned, and leaves when they
  are equal: the counter is the number of pages that remain after the current one.
\<close>

primrec mappages_loop ::
  "nat \<Rightarrow> u32 \<Rightarrow> u32 \<Rightarrow> u32 \<Rightarrow> u32 \<Rightarrow> 'a phys_scheme \<Rightarrow> (int \<times> 'a phys_scheme) res"
where
  "mappages_loop 0 pgdir a pa perm s =
     rbind (walkpgdir pgdir a True s) (\<lambda>(pte, s).
     if pte = 0 then Inr (- 1, s)
     else if load32 (mem s) pte AND PTE_P \<noteq> 0 then Inl (Panic ''remap'')
     else Inr (0, s\<lparr>mem := store32 (mem s) pte (pa OR perm OR PTE_P)\<rparr>))"
| "mappages_loop (Suc n) pgdir a pa perm s =
     rbind (walkpgdir pgdir a True s) (\<lambda>(pte, s).
     if pte = 0 then Inr (- 1, s)
     else if load32 (mem s) pte AND PTE_P \<noteq> 0 then Inl (Panic ''remap'')
     else
       let s = s\<lparr>mem := store32 (mem s) pte (pa OR perm OR PTE_P)\<rparr>
       in mappages_loop n pgdir (a + PGSIZE) (pa + PGSIZE) perm s)"

definition mappages ::
  "u32 \<Rightarrow> u32 \<Rightarrow> u32 \<Rightarrow> u32 \<Rightarrow> u32 \<Rightarrow> 'a phys_scheme \<Rightarrow> (int \<times> 'a phys_scheme) res"
where
  "mappages pgdir va sz pa perm s =
     (let a = PGROUNDDOWN va;
          last = PGROUNDDOWN (va + sz - 1)
      in mappages_loop (unat (last - a) div PGSIZE) pgdir a pa perm s)"

text \<open>
  Deallocation: a virtual address without a page table skips to the next 4 MB region. The
  address must grow in every round; the model stops with \<open>Wraps\<close> where it would wrap around.
\<close>

definition dealloc_next :: "u32 \<Rightarrow> bool \<Rightarrow> u32" where
  "dealloc_next a skip = (if skip then PGADDR (PDX a + 1) 0 0 - PGSIZE else a) + PGSIZE"

definition dealloc_page :: "u32 \<Rightarrow> u32 \<Rightarrow> 'a phys_scheme \<Rightarrow> (bool \<times> 'a phys_scheme) res" where
  "dealloc_page pgdir a s =
     rbind (walkpgdir pgdir a False s) (\<lambda>(pte, s).
     if pte = 0 then Inr (True, s)
     else if load32 (mem s) pte AND PTE_P \<noteq> 0 then
       let pa = PTE_ADDR (load32 (mem s) pte) in
       if pa = 0 then Inl (Panic ''kfree'')
       else rbind (kfree (P2V pa) s) (\<lambda>s. Inr (False, s\<lparr>mem := store32 (mem s) pte 0\<rparr>))
     else Inr (False, s))"

function deallocuvm_loop :: "u32 \<Rightarrow> u32 \<Rightarrow> u32 \<Rightarrow> 'a phys_scheme \<Rightarrow> 'a phys_scheme res" where
  "deallocuvm_loop pgdir a oldsz s =
     (if a < oldsz then
        rbind (dealloc_page pgdir a s) (\<lambda>(skip, s).
        let a' = dealloc_next a skip in
        if a < a' then deallocuvm_loop pgdir a' oldsz s else Inl Wraps)
      else Inr s)"
  by pat_completeness auto
termination
  by (relation "measure (\<lambda>(pgdir, a, oldsz, s). 2 ^ 32 - unat a)")
    (simp_all add: u32_dist_less)

declare deallocuvm_loop.simps [simp del]

definition deallocuvm ::
  "u32 \<Rightarrow> u32 \<Rightarrow> u32 \<Rightarrow> 'a phys_scheme \<Rightarrow> (u32 \<times> 'a phys_scheme) res"
where
  "deallocuvm pgdir oldsz newsz s =
     (if newsz \<ge> oldsz then Inr (oldsz, s)
      else rbind (deallocuvm_loop pgdir (PGROUNDUP newsz) oldsz s) (\<lambda>s. Inr (newsz, s)))"

function allocuvm_loop ::
  "u32 \<Rightarrow> u32 \<Rightarrow> u32 \<Rightarrow> u32 \<Rightarrow> 'a phys_scheme \<Rightarrow> (u32 \<times> 'a phys_scheme) res"
where
  "allocuvm_loop pgdir a oldsz newsz s =
     (if a < newsz then
        rbind (kalloc s) (\<lambda>(mem_p, s).
        if mem_p = 0 then
          rbind (deallocuvm pgdir newsz oldsz s) (\<lambda>(_, s). Inr (0, s))
        else
          let s = s\<lparr>mem := memset (mem s) mem_p 0 PGSIZE\<rparr> in
          rbind (mappages pgdir a PGSIZE (V2P mem_p) (PTE_W OR PTE_U) s) (\<lambda>(r, s).
          if r < 0 then
            rbind (deallocuvm pgdir newsz oldsz s) (\<lambda>(_, s).
            rbind (kfree mem_p s) (\<lambda>s. Inr (0, s)))
          else if a < a + PGSIZE then allocuvm_loop pgdir (a + PGSIZE) oldsz newsz s
          else Inl Wraps))
      else Inr (newsz, s))"
  by pat_completeness auto
termination
  by (relation "measure (\<lambda>(pgdir, a, oldsz, newsz, s). 2 ^ 32 - unat a)")
    (simp_all add: u32_dist_less)

declare allocuvm_loop.simps [simp del]

definition allocuvm ::
  "u32 \<Rightarrow> u32 \<Rightarrow> u32 \<Rightarrow> 'a phys_scheme \<Rightarrow> (u32 \<times> 'a phys_scheme) res"
where
  "allocuvm pgdir oldsz newsz s =
     (if newsz \<ge> HEAPLIMIT then Inr (0, s)
      else if newsz < oldsz then Inr (oldsz, s)
      else allocuvm_loop pgdir (PGROUNDUP oldsz) oldsz newsz s)"

primrec freevm_tables :: "u32 list \<Rightarrow> u32 \<Rightarrow> 'a phys_scheme \<Rightarrow> 'a phys_scheme res" where
  "freevm_tables [] pgdir s = Inr s"
| "freevm_tables (i # is) pgdir s =
     (if load32 (mem s) (entry pgdir i) AND PTE_P \<noteq> 0 then
        rbind (kfree (P2V (PTE_ADDR (load32 (mem s) (entry pgdir i)))) s) (\<lambda>s.
        freevm_tables is pgdir s)
      else freevm_tables is pgdir s)"

definition freevm :: "u32 \<Rightarrow> 'a phys_scheme \<Rightarrow> 'a phys_scheme res" where
  "freevm pgdir s =
     (if pgdir = 0 then Inl (Panic ''freevm: no pgdir'')
      else rbind (deallocuvm pgdir HEAPLIMIT 0 s) (\<lambda>(_, s).
        rbind (freevm_tables (map of_nat [0..<NPDENTRIES]) pgdir s) (\<lambda>s.
        kfree pgdir s)))"

text \<open>The rows of \<^verbatim>\<open>kmap\<close>: virtual start, physical start and end, permissions.\<close>

definition kmap :: "'a phys_scheme \<Rightarrow> (u32 \<times> u32 \<times> u32 \<times> u32) list" where
  "kmap s =
     [(KERNBASE, 0, EXTMEM, PTE_W),
      (KERNLINK, V2P KERNLINK, V2P (kdata s), 0),
      (kdata s, V2P (kdata s), PHYSTOP, PTE_W),
      (DEVSPACE, DEVSPACE, 0, PTE_W)]"

primrec setupkvm_loop ::
  "(u32 \<times> u32 \<times> u32 \<times> u32) list \<Rightarrow> u32 \<Rightarrow> 'a phys_scheme \<Rightarrow> (u32 \<times> 'a phys_scheme) res"
where
  "setupkvm_loop [] pgdir s = Inr (pgdir, s)"
| "setupkvm_loop (k # ks) pgdir s =
     (case k of (virt, phys_start, phys_end, perm) \<Rightarrow>
        rbind (mappages pgdir virt (phys_end - phys_start) phys_start perm s) (\<lambda>(r, s).
        if r < 0 then rbind (freevm pgdir s) (\<lambda>s. Inr (0, s))
        else setupkvm_loop ks pgdir s))"

definition setupkvm :: "'a phys_scheme \<Rightarrow> (u32 \<times> 'a phys_scheme) res" where
  "setupkvm s =
     rbind (kalloc s) (\<lambda>(pgdir, s).
     if pgdir = 0 then Inr (0, s)
     else
       let s = s\<lparr>mem := memset (mem s) pgdir 0 PGSIZE\<rparr> in
       if P2V PHYSTOP > DEVSPACE then Inl (Panic ''PHYSTOP too high'')
       else setupkvm_loop (kmap s) pgdir s)"

definition switchkvm :: "'a phys_scheme \<Rightarrow> 'a phys_scheme" where
  "switchkvm s = s\<lparr>cr3 := V2P (kpgdir s)\<rparr>"

definition kvmalloc :: "'a phys_scheme \<Rightarrow> 'a phys_scheme res" where
  "kvmalloc s = rbind (setupkvm s) (\<lambda>(p, s). Inr (switchkvm (s\<lparr>kpgdir := p\<rparr>)))"

text \<open>The initial program is a list of bytes, copied to the start of the new page. The result of
  \<^verbatim>\<open>kalloc\<close> is used without a test for null.\<close>

definition copy_bytes :: "memory \<Rightarrow> u32 \<Rightarrow> u8 list \<Rightarrow> memory" where
  "copy_bytes m dst bs = (\<lambda>a. let k = unat (a - dst) in if k < length bs then bs ! k else m a)"

definition inituvm :: "u32 \<Rightarrow> u8 list \<Rightarrow> 'a phys_scheme \<Rightarrow> 'a phys_scheme res" where
  "inituvm pgdir init s =
     (if length init \<ge> PGSIZE then Inl (Panic ''inituvm: more than a page'')
      else rbind (kalloc s) (\<lambda>(mem_p, s).
        if mem_p = 0 then Inl (Undef ''inituvm: null page'')
        else
          let s = s\<lparr>mem := memset (mem s) mem_p 0 PGSIZE\<rparr> in
          rbind (mappages pgdir 0 PGSIZE (V2P mem_p) (PTE_W OR PTE_U) s) (\<lambda>(_, s).
          Inr (s\<lparr>mem := copy_bytes (mem s) mem_p init\<rparr>))))"

definition clearpteu :: "u32 \<Rightarrow> u32 \<Rightarrow> 'a phys_scheme \<Rightarrow> 'a phys_scheme res" where
  "clearpteu pgdir uva s =
     rbind (walkpgdir pgdir uva False s) (\<lambda>(pte, s).
     if pte = 0 then Inl (Panic ''clearpteu'')
     else Inr (s\<lparr>mem := store32 (mem s) pte (load32 (mem s) pte AND NOT PTE_U)\<rparr>))"

definition clearmapping :: "u32 \<Rightarrow> u32 \<Rightarrow> 'a phys_scheme \<Rightarrow> 'a phys_scheme res" where
  "clearmapping pgdir uva s =
     rbind (walkpgdir pgdir uva False s) (\<lambda>(pte, s).
     if pte = 0 then Inl (Panic ''clearmapping'')
     else Inr (s\<lparr>mem := store32 (mem s) pte (load32 (mem s) pte AND NOT PTE_P)\<rparr>))"

function copyuvm_loop ::
  "u32 \<Rightarrow> u32 \<Rightarrow> u32 \<Rightarrow> u32 \<Rightarrow> 'a phys_scheme \<Rightarrow> (u32 \<times> 'a phys_scheme) res"
where
  "copyuvm_loop pgdir d i sz s =
     (if i < sz then
        rbind (walkpgdir pgdir i False s) (\<lambda>(pte, s).
        if pte = 0 then Inl (Panic ''copyuvm: pte should exist'')
        else if load32 (mem s) pte AND PTE_P = 0 then Inl (Panic ''copyuvm: page not present'')
        else
          let pa = PTE_ADDR (load32 (mem s) pte);
              flags = PTE_FLAGS (load32 (mem s) pte)
          in
          rbind (kalloc s) (\<lambda>(mem_p, s).
          if mem_p = 0 then rbind (freevm d s) (\<lambda>s. Inr (0, s))
          else
            let s = s\<lparr>mem := memmove (mem s) mem_p (P2V pa) PGSIZE\<rparr> in
            rbind (mappages d i PGSIZE (V2P mem_p) flags s) (\<lambda>(r, s).
            if r < 0 then
              rbind (kfree mem_p s) (\<lambda>s. rbind (freevm d s) (\<lambda>s. Inr (0, s)))
            else if i < i + PGSIZE then copyuvm_loop pgdir d (i + PGSIZE) sz s
            else Inl Wraps)))
      else Inr (d, s))"
  by pat_completeness auto
termination
  by (relation "measure (\<lambda>(pgdir, d, i, sz, s). 2 ^ 32 - unat i)")
    (simp_all add: u32_dist_less)

declare copyuvm_loop.simps [simp del]

definition copyuvm :: "u32 \<Rightarrow> u32 \<Rightarrow> 'a phys_scheme \<Rightarrow> (u32 \<times> 'a phys_scheme) res" where
  "copyuvm pgdir sz s =
     rbind (setupkvm s) (\<lambda>(d, s).
     if d = 0 then Inr (0, s) else copyuvm_loop pgdir d 0 sz s)"

text \<open>\<^verbatim>\<open>uva2ka\<close> does not test the pointer \<^verbatim>\<open>walkpgdir\<close> returns before reading through it.\<close>

definition uva2ka :: "u32 \<Rightarrow> u32 \<Rightarrow> 'a phys_scheme \<Rightarrow> u32 res" where
  "uva2ka pgdir uva s =
     rbind (walkpgdir pgdir uva False s) (\<lambda>(pte, s).
     if pte = 0 then Inl (Undef ''uva2ka: null pte'')
     else if load32 (mem s) pte AND PTE_P = 0 then Inr 0
     else if load32 (mem s) pte AND PTE_U = 0 then Inr 0
     else Inr (P2V (PTE_ADDR (load32 (mem s) pte))))"

text \<open>\<^verbatim>\<open>copyout\<close> copies the bytes \<open>bs\<close> (the kernel buffer) to user address \<open>va\<close>, page by page.\<close>

function copyout :: "u32 \<Rightarrow> u32 \<Rightarrow> u8 list \<Rightarrow> 'a phys_scheme \<Rightarrow> (int \<times> 'a phys_scheme) res" where
  "copyout pgdir va bs s =
     (if bs \<noteq> [] then
        let va0 = PGROUNDDOWN va in
        rbind (uva2ka pgdir va0 s) (\<lambda>pa0.
        if pa0 = 0 then Inr (- 1, s)
        else
          let n = min (PGSIZE - unat (va - va0)) (length bs);
              s = s\<lparr>mem := copy_bytes (mem s) (pa0 + (va - va0)) (take n bs)\<rparr>
          in copyout pgdir (va0 + PGSIZE) (drop n bs) s)
      else Inr (0, s))"
  by pat_completeness auto
termination
proof (relation "measure (\<lambda>(pgdir, va, bs, s). length bs)")
  fix va :: u32 and bs :: "u8 list"
  assume "bs \<noteq> []"
  then show "\<And>pgdir va0 pa0 n s s'. va0 = PGROUNDDOWN va \<Longrightarrow>
      n = min (4096 - unat (va - va0)) (length bs) \<Longrightarrow>
      ((pgdir, va0 + 4096, drop n bs, s'), pgdir, va, bs, s) \<in> measure (\<lambda>(pgdir, va, bs, s). length bs)"
    using page_offset_less [of va] by auto
qed simp

declare copyout.simps [simp del]

end
