(* ===== verification/VmInv.thy ===== *)
theory VmInv
  imports Vm
begin

text \<open>
  What the operations of \<^verbatim>\<open>vm.c\<close> do to the map from virtual addresses to page table
  entries, under the invariant that the page directory and its page tables are distinct
  valid pages that are not on the free list.
\<close>

section \<open>The abstract view of a page directory\<close>

definition pt_present :: "memory \<Rightarrow> u32 \<Rightarrow> u32 \<Rightarrow> bool" where
  "pt_present m pgdir i \<longleftrightarrow> load32 m (entry pgdir i) AND PTE_P \<noteq> 0"

definition pt_table :: "memory \<Rightarrow> u32 \<Rightarrow> u32 \<Rightarrow> u32" where
  "pt_table m pgdir i = P2V (PTE_ADDR (load32 m (entry pgdir i)))"

definition pte_of :: "memory \<Rightarrow> u32 \<Rightarrow> u32 \<Rightarrow> u32" where
  "pte_of m pgdir va =
     (if pt_present m pgdir (PDX va)
      then load32 m (entry (pt_table m pgdir (PDX va)) (PTX va)) else 0)"

text \<open>The pages a page directory consists of.\<close>

definition pt_pages :: "memory \<Rightarrow> u32 \<Rightarrow> u32 set" where
  "pt_pages m pgdir =
     insert pgdir (pt_table m pgdir ` {i. unat i < NPDENTRIES \<and> pt_present m pgdir i})"

definition pgdir_ok :: "memory \<Rightarrow> u32 \<Rightarrow> bool" where
  "pgdir_ok m pgdir \<longleftrightarrow> page_aligned pgdir
     \<and> (\<forall>i. unat i < NPDENTRIES \<longrightarrow> pt_present m pgdir i \<longrightarrow>
          pt_table m pgdir i \<noteq> pgdir \<and> pt_table m pgdir i \<noteq> 0
          \<and> (\<forall>j. unat j < NPDENTRIES \<longrightarrow> pt_present m pgdir j \<longrightarrow>
               pt_table m pgdir i = pt_table m pgdir j \<longrightarrow> i = j))"

definition vm_ok :: "'a phys_scheme \<Rightarrow> u32 \<Rightarrow> u32 list \<Rightarrow> bool" where
  "vm_ok s pgdir ps \<longleftrightarrow> kmem_ok s ps \<and> pgdir_ok (mem s) pgdir
     \<and> pt_pages (mem s) pgdir \<inter> set ps = {}"

lemma page_aligned_pt_table [simp]: "page_aligned (pt_table m pgdir i)"
  by (simp add: pt_table_def)

lemma pgdir_okD:
  assumes "pgdir_ok m pgdir" "unat i < NPDENTRIES" "pt_present m pgdir i"
  shows "pt_table m pgdir i \<noteq> pgdir" "pt_table m pgdir i \<noteq> 0"
    and "\<And>j. unat j < NPDENTRIES \<Longrightarrow> pt_present m pgdir j \<Longrightarrow>
      pt_table m pgdir i = pt_table m pgdir j \<Longrightarrow> i = j"
  using assms unfolding pgdir_ok_def by blast+

lemma pgdir_ok_aligned: "pgdir_ok m pgdir \<Longrightarrow> page_aligned pgdir"
  by (simp add: pgdir_ok_def)

text \<open>A write that leaves the directory page alone leaves the tables where they are.\<close>

lemma pt_same_dir:
  assumes "same_except P m m'" "page_aligned pgdir" "page_no pgdir \<notin> P" "unat i < 1024"
  shows "pt_present m' pgdir i = pt_present m pgdir i" "pt_table m' pgdir i = pt_table m pgdir i"
  using same_except_load32 [OF assms(1), of "entry pgdir i"] assms
  by (simp_all add: pt_present_def pt_table_def)

lemma pt_same_pages:
  assumes "same_except P m m'" "page_aligned pgdir" "page_no pgdir \<notin> P"
  shows "pt_pages m' pgdir = pt_pages m pgdir" "pgdir_ok m' pgdir = pgdir_ok m pgdir"
proof -
  have "{i. unat i < 1024 \<and> pt_present m' pgdir i} = {i. unat i < 1024 \<and> pt_present m pgdir i}"
    by (auto simp: pt_same_dir [OF assms])
  then show "pt_pages m' pgdir = pt_pages m pgdir"
    unfolding pt_pages_def by (auto simp: pt_same_dir [OF assms] intro!: image_cong)
  show "pgdir_ok m' pgdir = pgdir_ok m pgdir"
    unfolding pgdir_ok_def by (auto simp: pt_same_dir [OF assms])
qed

lemma pte_of_same:
  assumes "same_except P m m'" "page_aligned pgdir"
    and "\<forall>p \<in> pt_pages m pgdir. page_no p \<notin> P"
  shows "pte_of m' pgdir va = pte_of m pgdir va"
proof -
  have dir: "page_no pgdir \<notin> P" using assms(3) by (simp add: pt_pages_def)
  note same = pt_same_dir [OF assms(1,2) dir PDX_less]
  show ?thesis
  proof (cases "pt_present m pgdir (PDX va)")
    case True
    then have "pt_table m pgdir (PDX va) \<in> pt_pages m pgdir"
      unfolding pt_pages_def by auto
    then have "page_no (pt_table m pgdir (PDX va)) \<notin> P" using assms(3) by blast
    then show ?thesis
      using same_except_load32 [OF assms(1), of "entry (pt_table m pgdir (PDX va)) (PTX va)"]
      by (simp add: pte_of_def same)
  qed (simp add: pte_of_def same)
qed

section \<open>walkpgdir\<close>

lemma walkpgdir_present:
  assumes "pt_present (mem s) pgdir (PDX va)"
  shows "walkpgdir pgdir va alloc s = Inr (entry (pt_table (mem s) pgdir (PDX va)) (PTX va), s)"
  using assms by (simp add: walkpgdir_def pt_present_def pt_table_def Let_def)

lemma walkpgdir_absent:
  assumes "\<not> pt_present (mem s) pgdir (PDX va)"
  shows "walkpgdir pgdir va False s = Inr (0, s)"
  using assms by (simp add: walkpgdir_def pt_present_def Let_def)

text \<open>An entry is never at address 0, so a null result means there is no table.\<close>

lemma entry_nonzero:
  assumes "page_aligned p" "p \<noteq> 0" "unat i < 1024"
  shows "entry p i \<noteq> 0"
proof -
  have "unat p \<noteq> 0" using assms(2) by (simp add: unat_eq_0)
  then have "unat (entry p i) \<noteq> 0" using unat_entry [OF assms(1,3)] by simp
  then show ?thesis by auto
qed

text \<open>Writing one entry of one of the tables changes that entry of the view only.\<close>

lemma pte_store:
  fixes v :: u32
  assumes ok: "pgdir_ok m pgdir" and pres: "pt_present m pgdir (PDX va)"
  defines "m' \<equiv> store32 m (entry (pt_table m pgdir (PDX va)) (PTX va)) v"
  shows "pte_of m' pgdir vb = (if page_no vb = page_no va then v else pte_of m pgdir vb)"
    and "pgdir_ok m' pgdir" "pt_pages m' pgdir = pt_pages m pgdir"
    and "same_except {page_no (pt_table m pgdir (PDX va))} m m'"
proof -
  let ?t = "pt_table m pgdir (PDX va)"
  have al: "page_aligned pgdir" using ok by (rule pgdir_ok_aligned)
  have same: "same_except {page_no ?t} m m'"
    unfolding m'_def using same_except_store32 [of "entry ?t (PTX va)"] by simp
  then show "same_except {page_no ?t} m m'" .
  have "?t \<noteq> pgdir" using pgdir_okD(1) [OF ok _ pres] by simp
  then have dir: "page_no pgdir \<notin> {page_no ?t}"
    using al page_no_inj [of ?t pgdir] by auto
  note dirs = pt_same_dir [OF same al dir PDX_less]
  show "pgdir_ok m' pgdir" "pt_pages m' pgdir = pt_pages m pgdir"
    using pt_same_pages [OF same al dir] ok by simp_all
  show "pte_of m' pgdir vb = (if page_no vb = page_no va then v else pte_of m pgdir vb)"
  proof (cases "page_no vb = page_no va")
    case True
    then have "PDX vb = PDX va" "PTX vb = PTX va"
      using same_page_indices [of vb va] by simp_all
    then show ?thesis using pres True dirs by (simp add: pte_of_def m'_def)
  next
    case False
    then have ne: "\<not> (PDX vb = PDX va \<and> PTX vb = PTX va)"
      using same_page_indices [of vb va] by simp
    have "entry ?t (PTX va) \<noteq> entry (pt_table m pgdir (PDX vb)) (PTX vb)"
      if "pt_present m pgdir (PDX vb)"
      using ne pgdir_okD(3) [OF ok _ pres _ that] entry_inj by fastforce
    then show ?thesis
      using False dirs by (simp add: pte_of_def m'_def)
  qed
qed

text \<open>Adding a zeroed page as a table for an absent directory slot does not change the view.\<close>

lemma or_flags_present: "(x OR f OR PTE_P) AND PTE_P \<noteq> 0" for x f :: u32
  by (simp add: bit.conj_disj_distrib2 or_eq_0_iff)

lemma pde_value:
  assumes "page_aligned q"
  shows "PTE_ADDR (V2P q OR PTE_P OR PTE_W OR PTE_U) = V2P q"
    and "(V2P q OR PTE_P OR PTE_W OR PTE_U) AND PTE_P \<noteq> 0"
proof -
  have 7: "V2P q OR PTE_P OR PTE_W OR PTE_U = V2P q OR 7" by (simp add: or.assoc)
  show "PTE_ADDR (V2P q OR PTE_P OR PTE_W OR PTE_U) = V2P q"
    unfolding 7 using PTE_parts(1) [of "V2P q" 7] assms by simp
  show "(V2P q OR PTE_P OR PTE_W OR PTE_U) AND PTE_P \<noteq> 0"
    unfolding 7 by (simp add: bit.conj_disj_distrib2 or_eq_0_iff)
qed

lemma new_table:
  assumes ok: "pgdir_ok m pgdir" and absent: "\<not> pt_present m pgdir (PDX va)"
    and q: "page_aligned q" "q \<noteq> 0" "q \<notin> pt_pages m pgdir"
  defines "m' \<equiv> store32 (memset m q 0 PGSIZE) (entry pgdir (PDX va)) (V2P q OR PTE_P OR PTE_W OR PTE_U)"
  shows "same_except {page_no q, page_no pgdir} m m'"
    and "pt_present m' pgdir (PDX va)" "pt_table m' pgdir (PDX va) = q"
    and "pgdir_ok m' pgdir" "pt_pages m' pgdir = insert q (pt_pages m pgdir)"
    and "pte_of m' pgdir vb = pte_of m pgdir vb"
proof -
  let ?m = "memset m q 0 PGSIZE"
  have al: "page_aligned pgdir" using ok by (rule pgdir_ok_aligned)
  have qdir: "page_no pgdir \<noteq> page_no q"
    using q al page_no_inj [of pgdir q] by (auto simp: pt_pages_def)
  have same1: "same_except {page_no q} m ?m" by (rule same_except_memset [OF q(1)])
  have same2: "same_except {page_no pgdir} ?m m'"
    unfolding m'_def using same_except_store32 [of "entry pgdir (PDX va)"] al by simp
  show same: "same_except {page_no q, page_no pgdir} m m'"
    using same_except_trans [OF same1 same2] by (simp add: insert_commute)
  have dir1: "pt_present ?m pgdir i = pt_present m pgdir i" "pt_table ?m pgdir i = pt_table m pgdir i"
    if "unat i < 1024" for i
    using pt_same_dir [OF same1 al] qdir that by simp_all
  have dir2: "load32 m' (entry pgdir i) = load32 ?m (entry pgdir i)"
    if "unat i < 1024" "i \<noteq> PDX va" for i
    unfolding m'_def using that al by (intro load32_store32_other) (simp_all add: entry_inj)
  have here: "load32 m' (entry pgdir (PDX va)) = V2P q OR PTE_P OR PTE_W OR PTE_U"
    by (simp add: m'_def)
  show pres: "pt_present m' pgdir (PDX va)"
    unfolding pt_present_def here by (rule pde_value(2) [OF q(1)])
  show tab: "pt_table m' pgdir (PDX va) = q"
    unfolding pt_table_def here pde_value(1) [OF q(1)] by simp
  have dir: "pt_present m' pgdir i = pt_present m pgdir i" "pt_table m' pgdir i = pt_table m pgdir i"
    if "unat i < 1024" "i \<noteq> PDX va" for i
    using dir1 [OF that(1)] dir2 [OF that] unfolding pt_present_def pt_table_def by simp_all
  have idx: "{i. unat i < 1024 \<and> pt_present m' pgdir i}
      = insert (PDX va) {i. unat i < 1024 \<and> pt_present m pgdir i}"
    using dir(1) pres absent by auto
  have "pt_table m' pgdir ` {i. unat i < 1024 \<and> pt_present m pgdir i}
      = pt_table m pgdir ` {i. unat i < 1024 \<and> pt_present m pgdir i}"
    using dir(2) absent by (intro image_cong) auto
  then show pages: "pt_pages m' pgdir = insert q (pt_pages m pgdir)"
    unfolding pt_pages_def idx by (simp add: tab insert_commute)
  have old: "pt_table m pgdir i \<noteq> q" if "unat i < 1024" "pt_present m pgdir i" for i
    using that q(3) by (auto simp: pt_pages_def)
  have q_dir: "q \<noteq> pgdir" using qdir by auto
  show "pgdir_ok m' pgdir"
    unfolding pgdir_ok_def
  proof (intro conjI allI impI)
    fix i j assume i: "unat i < NPDENTRIES" "pt_present m' pgdir i"
      and j: "unat j < NPDENTRIES" "pt_present m' pgdir j"
      and eq: "pt_table m' pgdir i = pt_table m' pgdir j"
    show "i = j"
    proof (cases "i = PDX va \<or> j = PDX va")
      case True
      then show ?thesis using i j eq tab dir old by metis
    next
      case False
      then show ?thesis using i j eq dir pgdir_okD(3) [OF ok] by metis
    qed
  next
    fix i assume i: "unat i < NPDENTRIES" "pt_present m' pgdir i"
    show "pt_table m' pgdir i \<noteq> pgdir" "pt_table m' pgdir i \<noteq> 0"
      using i dir tab q_dir q(2) pgdir_okD(1,2) [OF ok] by (cases "i = PDX va"; simp)+
  qed (rule al)
  show "pte_of m' pgdir vb = pte_of m pgdir vb"
  proof (cases "PDX vb = PDX va")
    case True
    have "load32 ?m (entry q (PTX vb)) = 0"
      using q(1) by (intro load32_memset_zero) simp_all
    moreover have "load32 m' (entry q (PTX vb)) = load32 ?m (entry q (PTX vb))"
      using same2 qdir q(1) by (intro same_except_load32) auto
    ultimately show ?thesis using True pres tab absent by (simp add: pte_of_def)
  next
    case False
    show ?thesis
    proof (cases "pt_present m pgdir (PDX vb)")
      case True
      let ?t = "pt_table m pgdir (PDX vb)"
      have "?t \<noteq> q" "?t \<noteq> pgdir" using True old pgdir_okD(1) [OF ok] by simp_all
      then have "page_no ?t \<notin> {page_no q, page_no pgdir}"
        using page_no_inj [of ?t q] page_no_inj [of ?t pgdir] q(1) al by auto
      then have "load32 m' (entry ?t (PTX vb)) = load32 m (entry ?t (PTX vb))"
        using same by (intro same_except_load32) auto
      then show ?thesis using True False dir by (simp add: pte_of_def)
    qed (use False dir in \<open>simp add: pte_of_def\<close>)
  qed
qed

text \<open>
  The operations change the byte memory and the free list head; apart from that a critical
  section of the allocator may have settled the saved interrupt flag.
\<close>

definition phys_frame :: "'a phys_scheme \<Rightarrow> 'a phys_scheme \<Rightarrow> bool" where
  "phys_frame s t \<longleftrightarrow> (\<exists>m f. t = s\<lparr>mem := m, freelist := f\<rparr> \<or> t = (ksettle s)\<lparr>mem := m, freelist := f\<rparr>)"

lemma ksettle_upd [simp]:
  "ksettle (s\<lparr>mem := m\<rparr>) = (ksettle s)\<lparr>mem := m\<rparr>"
  "ksettle (s\<lparr>freelist := f\<rparr>) = (ksettle s)\<lparr>freelist := f\<rparr>"
  by (simp_all add: ksettle_def settled_def Let_def)

lemma phys_frameI:
  "phys_frame s s" "phys_frame s (s\<lparr>mem := m\<rparr>)" "phys_frame s (ksettle s)"
  "phys_frame s ((ksettle s)\<lparr>mem := m, freelist := f\<rparr>)"
  "phys_frame s ((ksettle s)\<lparr>freelist := f\<rparr>)"
  "phys_frame s ((ksettle s)\<lparr>freelist := f, mem := m\<rparr>)"
proof -
  have "s = s\<lparr>mem := mem s, freelist := freelist s\<rparr>"
    "s\<lparr>mem := m\<rparr> = s\<lparr>mem := m, freelist := freelist s\<rparr>"
    "ksettle s = (ksettle s)\<lparr>mem := mem s, freelist := freelist s\<rparr>"
    "(ksettle s)\<lparr>freelist := f\<rparr> = (ksettle s)\<lparr>mem := mem s, freelist := f\<rparr>"
    "(ksettle s)\<lparr>freelist := f, mem := m\<rparr> = (ksettle s)\<lparr>mem := m, freelist := f\<rparr>"
    by (auto intro!: phys.equality)
  then show "phys_frame s s" "phys_frame s (s\<lparr>mem := m\<rparr>)" "phys_frame s (ksettle s)"
    "phys_frame s ((ksettle s)\<lparr>mem := m, freelist := f\<rparr>)"
    "phys_frame s ((ksettle s)\<lparr>freelist := f\<rparr>)"
    "phys_frame s ((ksettle s)\<lparr>freelist := f, mem := m\<rparr>)"
    unfolding phys_frame_def by blast+
qed

lemma phys_frame_trans: "phys_frame s t \<Longrightarrow> phys_frame t u \<Longrightarrow> phys_frame s u"
  unfolding phys_frame_def by fastforce

lemma phys_frameD:
  assumes "phys_frame s t"
  shows "phys.more t = phys.more s" "kend t = kend s" "kdata t = kdata s" "kpgdir t = kpgdir s"
    "cr3 t = cr3 s" "use_lock t = use_lock s" "locks t = locks s" "curcpu t = curcpu s"
    "eflags_IF t = eflags_IF s"
  using assms unfolding phys_frame_def by auto

section \<open>walkpgdir with allocation\<close>

lemma kmem_ok_write:
  assumes "kmem_ok s ps" "same_except P (mem s) m" "\<forall>p \<in> set ps. page_no p \<notin> P"
  shows "kmem_ok (s\<lparr>mem := m\<rparr>) ps"
proof -
  have "fl_path m (freelist s) ps = fl_path (mem s) (freelist s) ps"
    using assms by (intro fl_path_same_except) (auto simp: kmem_ok_def kpage_def)
  with assms(1) show ?thesis by (simp add: kmem_ok_def kpage_def cli_ok_def lock_free_def)
qed

lemma pt_pages_aligned: "pgdir_ok m pgdir \<Longrightarrow> p \<in> pt_pages m pgdir \<Longrightarrow> page_aligned p"
  by (auto simp: pt_pages_def pgdir_ok_def)

lemma kmem_ok_aligned: "kmem_ok s ps \<Longrightarrow> p \<in> set ps \<Longrightarrow> page_aligned p"
  by (simp add: kmem_ok_def kpage_def)

lemma vm_ok_pool_page:
  assumes "vm_ok s pgdir ps" "p \<in> set ps" "q \<in> pt_pages (mem s) pgdir"
  shows "page_no p \<noteq> page_no q"
proof
  assume "page_no p = page_no q"
  moreover have "page_aligned p" "page_aligned q"
    using assms kmem_ok_aligned pt_pages_aligned unfolding vm_ok_def by blast+
  ultimately have "p = q" by (simp add: page_no_inj)
  with assms show False unfolding vm_ok_def by blast
qed

lemma walkpgdir_alloc:
  assumes "vm_ok s pgdir ps"
  obtains (full) "walkpgdir pgdir va True s = Inr (0, ksettle s)" "ps = []"
  | (found) t qs where
    "walkpgdir pgdir va True s = Inr (entry (pt_table (mem t) pgdir (PDX va)) (PTX va), t)"
    "pt_present (mem t) pgdir (PDX va)" "vm_ok t pgdir qs"
    "\<And>vb. pte_of (mem t) pgdir vb = pte_of (mem s) pgdir vb"
    "phys_frame s t" "same_except (page_no ` pt_pages (mem t) pgdir) (mem s) (mem t)"
    "pt_pages (mem t) pgdir \<union> set qs = pt_pages (mem s) pgdir \<union> set ps"
    "pt_pages (mem s) pgdir \<subseteq> pt_pages (mem t) pgdir" "length ps \<le> Suc (length qs)"
proof (cases "pt_present (mem s) pgdir (PDX va)")
  case True
  show thesis
    by (rule found [of s ps]) (use True assms in \<open>simp_all add: walkpgdir_present phys_frameI\<close>)
next
  case absent: False
  show thesis
  proof (cases ps)
    case Nil
    then have "kalloc s = Inr (0, ksettle s)"
      using assms by (intro kalloc_none) (simp add: vm_ok_def)
    then have "walkpgdir pgdir va True s = Inr (0, ksettle s)"
      using absent by (simp add: walkpgdir_def pt_present_def Let_def)
    then show thesis using full Nil by simp
  next
    case (Cons q qs)
    have km: "kmem_ok s (q # qs)" and ok: "pgdir_ok (mem s) pgdir"
      using assms Cons by (simp_all add: vm_ok_def)
    have q: "page_aligned q" "q \<noteq> 0" "q \<notin> pt_pages (mem s) pgdir" "q \<notin> set qs"
      using assms Cons km kpage_nonzero by (auto simp: vm_ok_def kmem_ok_def kpage_def)
    note new = new_table [OF ok absent q(1-3)]
    define m where "m = store32 (memset (mem s) q 0 PGSIZE) (entry pgdir (PDX va))
      (V2P q OR PTE_P OR PTE_W OR PTE_U)"
    define u where "u = (ksettle s)\<lparr>freelist := load32 (mem s) q\<rparr>"
    note new = new [folded m_def]
    have kal: "kalloc s = Inr (q, u)" "kmem_ok u qs"
      using kalloc_some [OF km] by (simp_all add: u_def)
    have mu: "mem u = mem s" by (simp add: u_def)
    have walk: "walkpgdir pgdir va True s = Inr (entry q (PTX va), u\<lparr>mem := m\<rparr>)"
      using absent kal(1) q(2) mu by (simp add: walkpgdir_def pt_present_def Let_def m_def)
    have notin: "page_no p \<notin> {page_no q, page_no pgdir}" if "p \<in> set qs" for p
    proof -
      have "page_no p \<noteq> page_no pgdir"
        using vm_ok_pool_page [OF assms, of p pgdir] that Cons by (simp add: pt_pages_def)
      moreover have "page_no p \<noteq> page_no q"
        using that q kmem_ok_aligned [OF kal(2) that] page_no_inj [of p q] by auto
      ultimately show ?thesis by simp
    qed
    have vm: "vm_ok (u\<lparr>mem := m\<rparr>) pgdir qs"
    proof -
      have "kmem_ok (u\<lparr>mem := m\<rparr>) qs"
        using kmem_ok_write [OF kal(2), of "{page_no q, page_no pgdir}" m] new(1) notin mu by auto
      moreover have "pt_pages m pgdir \<inter> set qs = {}"
        using new(5) assms Cons q(4) by (auto simp: vm_ok_def)
      ultimately show ?thesis using new(4) by (simp add: vm_ok_def)
    qed
    show thesis
    proof (rule found [of "u\<lparr>mem := m\<rparr>" qs])
      show "walkpgdir pgdir va True s =
          Inr (entry (pt_table (mem (u\<lparr>mem := m\<rparr>)) pgdir (PDX va)) (PTX va), u\<lparr>mem := m\<rparr>)"
        using walk new(3) by simp
      show "phys_frame s (u\<lparr>mem := m\<rparr>)" unfolding u_def by (rule phys_frameI)
      have "{page_no q, page_no pgdir} \<subseteq> page_no ` pt_pages m pgdir"
        using new(5) by (auto simp: pt_pages_def)
      then show "same_except (page_no ` pt_pages (mem (u\<lparr>mem := m\<rparr>)) pgdir) (mem s) (mem (u\<lparr>mem := m\<rparr>))"
        using same_except_mono [OF new(1)] by simp
    qed (use new vm Cons in auto)
  qed
qed

section \<open>mappages\<close>

text \<open>What a call leaves behind in every case.\<close>

definition vm_step :: "'a phys_scheme \<Rightarrow> u32 list \<Rightarrow> 'a phys_scheme \<Rightarrow> u32 list \<Rightarrow> u32 \<Rightarrow> bool" where
  "vm_step s ps t qs pgdir \<longleftrightarrow> vm_ok t pgdir qs \<and> phys_frame s t
     \<and> same_except (page_no ` pt_pages (mem t) pgdir) (mem s) (mem t)
     \<and> pt_pages (mem t) pgdir \<union> set qs = pt_pages (mem s) pgdir \<union> set ps
     \<and> pt_pages (mem s) pgdir \<subseteq> pt_pages (mem t) pgdir"

lemma vm_step_trans:
  assumes "vm_step s ps t qs pgdir" "vm_step t qs u rs pgdir"
  shows "vm_step s ps u rs pgdir"
proof -
  have st: "same_except (page_no ` pt_pages (mem t) pgdir) (mem s) (mem t)"
    and tu: "same_except (page_no ` pt_pages (mem u) pgdir) (mem t) (mem u)"
    and sub: "pt_pages (mem s) pgdir \<subseteq> pt_pages (mem t) pgdir" "pt_pages (mem t) pgdir \<subseteq> pt_pages (mem u) pgdir"
    and frame: "phys_frame s t" "phys_frame t u"
    and pool: "pt_pages (mem t) pgdir \<union> set qs = pt_pages (mem s) pgdir \<union> set ps"
      "pt_pages (mem u) pgdir \<union> set rs = pt_pages (mem t) pgdir \<union> set qs"
    and ok: "vm_ok u pgdir rs"
    using assms unfolding vm_step_def by simp_all
  have "same_except (page_no ` pt_pages (mem u) pgdir) (mem s) (mem u)"
    by (rule same_except_mono [OF same_except_trans [OF st tu]]) (use sub(2) in \<open>simp add: image_mono\<close>)
  then show ?thesis
    unfolding vm_step_def using ok phys_frame_trans [OF frame] order_trans [OF sub] pool by simp
qed

lemma vm_step_full:
  assumes "vm_ok s pgdir ps"
  shows "vm_step s ps (ksettle s) ps pgdir" "vm_step s ps s ps pgdir"
  using assms unfolding vm_step_def by (auto simp: vm_ok_def phys_frameI)

text \<open>Filling in an absent entry.\<close>

lemma set_pte:
  fixes v :: u32
  assumes ok: "vm_ok s pgdir ps" and pres: "pt_present (mem s) pgdir (PDX va)"
  defines "t \<equiv> s\<lparr>mem := store32 (mem s) (entry (pt_table (mem s) pgdir (PDX va)) (PTX va)) v\<rparr>"
  shows "vm_step s ps t ps pgdir"
    and "pte_of (mem t) pgdir vb = (if page_no vb = page_no va then v else pte_of (mem s) pgdir vb)"
proof -
  have dir: "pgdir_ok (mem s) pgdir" using ok by (simp add: vm_ok_def)
  note st = pte_store [OF dir pres, of v]
  have tab: "pt_table (mem s) pgdir (PDX va) \<in> pt_pages (mem s) pgdir"
    using pres by (auto simp: pt_pages_def)
  have "kmem_ok t ps"
    unfolding t_def using ok vm_ok_pool_page [OF ok _ tab]
    by (intro kmem_ok_write [OF _ st(4)]) (auto simp: vm_ok_def)
  moreover have "same_except (page_no ` pt_pages (mem s) pgdir) (mem s) (mem t)"
    unfolding t_def using same_except_mono [OF st(4)] tab by simp
  ultimately show "vm_step s ps t ps pgdir"
    using st(2,3) ok unfolding vm_step_def vm_ok_def t_def by (simp add: phys_frameI)
  show "pte_of (mem t) pgdir vb = (if page_no vb = page_no va then v else pte_of (mem s) pgdir vb)"
    unfolding t_def using st(1) by simp
qed

lemma map_page:
  assumes ok: "vm_ok s pgdir ps" and absent: "pte_of (mem s) pgdir a AND PTE_P = 0"
  obtains (full) "walkpgdir pgdir a True s = Inr (0, ksettle s)" "ps = []"
  | (mapped) pte t qs u where "walkpgdir pgdir a True s = Inr (pte, t)" "pte \<noteq> 0"
    "load32 (mem t) pte AND PTE_P = 0" "u = t\<lparr>mem := store32 (mem t) pte v\<rparr>"
    "vm_step s ps u qs pgdir"
    "\<And>vb. pte_of (mem u) pgdir vb = (if page_no vb = page_no a then v else pte_of (mem s) pgdir vb)"
    "length ps \<le> Suc (length qs)"
  using ok
proof (cases rule: walkpgdir_alloc [of s pgdir ps a, consumes 1, case_names full found])
  case full
  then show thesis by (rule that(1))
next
  case (found t qs)
  let ?pte = "entry (pt_table (mem t) pgdir (PDX a)) (PTX a)"
  have "pt_table (mem t) pgdir (PDX a) \<noteq> 0"
    using found(2,3) pgdir_okD(2) by (auto simp: vm_ok_def)
  then have nz: "?pte \<noteq> 0" by (intro entry_nonzero) simp_all
  have "load32 (mem t) ?pte = pte_of (mem t) pgdir a" using found(2) by (simp add: pte_of_def)
  then have free: "load32 (mem t) ?pte AND PTE_P = 0" using found(4) absent by simp
  have st: "vm_step s ps t qs pgdir" using found unfolding vm_step_def by simp
  note sp = set_pte [OF found(3,2), of v]
  show thesis
    by (rule that(2) [OF found(1) nz free refl vm_step_trans [OF st sp(1)]])
      (simp only: sp(2) found(4), rule found(9))
qed

lemma page_no_next:
  assumes "page_aligned a" "unat a + 4096 < 2 ^ 32"
  shows "page_aligned (a + 4096)" "page_no (a + 4096) = Suc (page_no a)"
proof -
  have "unat (a + 4096) = unat a + 4096" using assms(2) by (simp add: unat_word_ariths)
  then show "page_aligned (a + 4096)" "page_no (a + 4096) = Suc (page_no a)"
    using assms(1) by (simp_all add: page_aligned_def page_no_def)
qed

lemma mappages_loop_ok:
  assumes "vm_ok s pgdir ps" "page_aligned a" "unat a + 4096 * n < 2 ^ 32"
    and "\<And>vb. page_no a \<le> page_no vb \<Longrightarrow> page_no vb \<le> page_no a + n \<Longrightarrow>
      pte_of (mem s) pgdir vb AND PTE_P = 0"
  shows "\<exists>r t qs. mappages_loop n pgdir a pa perm s = Inr (r, t) \<and> vm_step s ps t qs pgdir
    \<and> (\<forall>vb. page_no vb < page_no a \<or> page_no a + n < page_no vb \<longrightarrow>
         pte_of (mem t) pgdir vb = pte_of (mem s) pgdir vb)
    \<and> (r = - 1 \<and> qs = [] \<or> r = 0 \<and> (\<forall>vb. page_no a \<le> page_no vb \<and> page_no vb \<le> page_no a + n \<longrightarrow>
         pte_of (mem t) pgdir vb = (pa + of_nat (4096 * (page_no vb - page_no a))) OR perm OR PTE_P))"
  using assms
proof (induction n arbitrary: a pa s ps)
  case 0
  have abs: "pte_of (mem s) pgdir a AND PTE_P = 0" using "0.prems"(4) by simp
  show ?case
  proof (cases rule: map_page [OF "0.prems"(1) abs, where v = "pa OR perm OR PTE_P", case_names full mapped])
    case full
    then show ?thesis using vm_step_full(1) [OF "0.prems"(1)] by fastforce
  next
    case (mapped pte t qs u)
    then have "mappages_loop 0 pgdir a pa perm s = Inr (0, u)" by simp
    with mapped(5,6) show ?thesis by fastforce
  qed
next
  case (Suc n)
  have abs: "pte_of (mem s) pgdir a AND PTE_P = 0" using Suc.prems(4) by simp
  show ?case
  proof (cases rule: map_page [OF Suc.prems(1) abs, where v = "pa OR perm OR PTE_P", case_names full mapped])
    case full
    then show ?thesis using vm_step_full(1) [OF Suc.prems(1)] by fastforce
  next
    case (mapped pte t qs u)
    then have run: "mappages_loop (Suc n) pgdir a pa perm s
        = mappages_loop n pgdir (a + 4096) (pa + 4096) perm u"
      by simp
    have nx: "page_aligned (a + 4096)" "page_no (a + 4096) = Suc (page_no a)"
      using page_no_next [OF Suc.prems(2)] Suc.prems(3) by simp_all
    have ua: "unat (a + 4096) = unat a + 4096" using Suc.prems(3) by (simp add: unat_word_ariths)
    have vmu: "vm_ok u pgdir qs" using mapped(5) by (simp add: vm_step_def)
    have "\<exists>r t' qs'. mappages_loop n pgdir (a + 4096) (pa + 4096) perm u = Inr (r, t')
      \<and> vm_step u qs t' qs' pgdir
      \<and> (\<forall>vb. page_no vb < page_no (a + 4096) \<or> page_no (a + 4096) + n < page_no vb \<longrightarrow>
           pte_of (mem t') pgdir vb = pte_of (mem u) pgdir vb)
      \<and> (r = - 1 \<and> qs' = [] \<or> r = 0 \<and> (\<forall>vb. page_no (a + 4096) \<le> page_no vb
           \<and> page_no vb \<le> page_no (a + 4096) + n \<longrightarrow> pte_of (mem t') pgdir vb =
           (pa + 4096 + of_nat (4096 * (page_no vb - page_no (a + 4096)))) OR perm OR PTE_P))"
    proof (rule Suc.IH [OF vmu nx(1)])
      show "unat (a + 4096) + 4096 * n < 2 ^ 32" using ua Suc.prems(3) by simp
      fix vb assume "page_no (a + 4096) \<le> page_no vb" "page_no vb \<le> page_no (a + 4096) + n"
      then show "pte_of (mem u) pgdir vb AND PTE_P = 0"
        using nx mapped(6) Suc.prems(4) by simp
    qed
    then obtain r t' qs' where IH: "mappages_loop n pgdir (a + 4096) (pa + 4096) perm u = Inr (r, t')"
      "vm_step u qs t' qs' pgdir"
      "\<forall>vb. page_no vb < Suc (page_no a) \<or> Suc (page_no a) + n < page_no vb \<longrightarrow>
           pte_of (mem t') pgdir vb = pte_of (mem u) pgdir vb"
      "r = - 1 \<and> qs' = [] \<or> r = 0 \<and> (\<forall>vb. Suc (page_no a) \<le> page_no vb
           \<and> page_no vb \<le> Suc (page_no a) + n \<longrightarrow> pte_of (mem t') pgdir vb =
           (pa + 4096 + of_nat (4096 * (page_no vb - Suc (page_no a)))) OR perm OR PTE_P)"
      unfolding nx(2) by blast
    have shift: "pa + 4096 + of_nat (4096 * (k - Suc (page_no a))) = pa + of_nat (4096 * (k - page_no a))"
      if "Suc (page_no a) \<le> k" for k
    proof -
      from that obtain j where "k = Suc (page_no a) + j" using le_Suc_ex by blast
      then show ?thesis by (simp add: algebra_simps)
    qed
    have first: "pte_of (mem t') pgdir vb = pa OR perm OR PTE_P" if "page_no vb = page_no a" for vb
      using IH(3) mapped(6) that by simp
    have outside: "pte_of (mem t') pgdir vb = pte_of (mem s) pgdir vb"
      if "page_no vb < page_no a \<or> page_no a + Suc n < page_no vb" for vb
      using IH(3) mapped(6) that by auto
    have inside: "pte_of (mem t') pgdir vb = (pa + of_nat (4096 * (page_no vb - page_no a))) OR perm OR PTE_P"
      if "r = 0" "page_no a \<le> page_no vb" "page_no vb \<le> page_no a + Suc n" for vb
    proof (cases "page_no vb = page_no a")
      case True
      then show ?thesis using first by simp
    next
      case False
      then have "Suc (page_no a) \<le> page_no vb" using that by simp
      then show ?thesis using IH(4) that shift by simp
    qed
    show ?thesis
    proof (intro exI conjI allI impI)
      show "mappages_loop (Suc n) pgdir a pa perm s = Inr (r, t')" using run IH(1) by simp
      show "vm_step s ps t' qs' pgdir" by (rule vm_step_trans [OF mapped(5) IH(2)])
      show "r = - 1 \<and> qs' = [] \<or> r = 0 \<and> (\<forall>vb. page_no a \<le> page_no vb \<and> page_no vb \<le> page_no a + Suc n \<longrightarrow>
          pte_of (mem t') pgdir vb = (pa + of_nat (4096 * (page_no vb - page_no a))) OR perm OR PTE_P)"
        using IH(4) inside by blast
    qed (rule outside)
  qed
qed

definition unmapped :: "memory \<Rightarrow> u32 \<Rightarrow> nat \<Rightarrow> nat \<Rightarrow> bool" where
  "unmapped m pgdir i j \<longleftrightarrow>
     (\<forall>vb. i \<le> page_no vb \<and> page_no vb \<le> j \<longrightarrow> pte_of m pgdir vb AND PTE_P = 0)"

lemma unat_diff_pages:
  assumes "page_aligned a" "page_aligned b" "unat a \<le> unat b"
  shows "unat (b - a) div 4096 = page_no b - page_no a"
    and "unat a + 4096 * (page_no b - page_no a) = unat b"
proof -
  have ab: "unat (b - a) = unat b - unat a" using assms(3) by (simp add: unat_sub word_le_nat_alt)
  have a: "unat a = 4096 * page_no a" and b: "unat b = 4096 * page_no b"
    using assms(1,2) by (auto simp: page_aligned_dvd page_no_def)
  show "unat (b - a) div 4096 = page_no b - page_no a" by (simp add: ab a b flip: diff_mult_distrib2)
  have "page_no a \<le> page_no b" using assms(3) a b by simp
  then show "unat a + 4096 * (page_no b - page_no a) = unat b" by (simp add: a b diff_mult_distrib2)
qed

lemma page_no_PGROUNDDOWN: "page_no (PGROUNDDOWN a) = page_no a"
  by (simp add: page_no_def unat_PGROUNDDOWN)

lemma mappages_spec:
  assumes ok: "vm_ok s pgdir ps" and sz: "0 < sz" "unat va + unat sz \<le> 2 ^ 32"
    and free: "unmapped (mem s) pgdir (page_no va) (page_no (va + sz - 1))"
  shows "\<exists>r t qs. mappages pgdir va sz pa perm s = Inr (r, t) \<and> vm_step s ps t qs pgdir
    \<and> (\<forall>vb. page_no vb < page_no va \<or> page_no (va + sz - 1) < page_no vb \<longrightarrow>
         pte_of (mem t) pgdir vb = pte_of (mem s) pgdir vb)
    \<and> (r = - 1 \<and> qs = [] \<or>
       r = 0 \<and> (\<forall>vb. page_no va \<le> page_no vb \<and> page_no vb \<le> page_no (va + sz - 1) \<longrightarrow>
         pte_of (mem t) pgdir vb = (pa + of_nat (4096 * (page_no vb - page_no va))) OR perm OR PTE_P))"
proof -
  let ?a = "PGROUNDDOWN va" and ?l = "PGROUNDDOWN (va + sz - 1)"
  have szn: "1 \<le> unat sz" using sz(1) by (simp add: word_less_nat_alt)
  then have "unat (sz - 1) = unat sz - 1" using sz(1) by (simp add: unat_sub word_le_nat_alt)
  then have "unat (va + (sz - 1)) = unat va + (unat sz - 1)"
    using sz(2) szn by (simp add: unat_word_ariths)
  then have le: "unat va \<le> unat (va + sz - 1)" by (simp add: add_diff_eq)
  then have pg: "page_no va \<le> page_no (va + sz - 1)" by (simp add: page_no_def div_le_mono)
  have ule: "unat ?a \<le> unat ?l"
  proof -
    have "unat va div 4096 * 4096 \<le> unat (va + sz - 1) div 4096 * 4096" using le by (simp add: div_le_mono)
    then show ?thesis by (simp add: unat_PGROUNDDOWN)
  qed
  note d = unat_diff_pages [OF page_aligned_PGROUNDDOWN page_aligned_PGROUNDDOWN ule, unfolded page_no_PGROUNDDOWN]
  have bound: "unat ?a + 4096 * (page_no (va + sz - 1) - page_no va) < 2 ^ 32"
    using d(2) unsigned_less [of ?l] by simp
  have abs: "pte_of (mem s) pgdir vb AND PTE_P = 0"
    if "page_no ?a \<le> page_no vb" "page_no vb \<le> page_no ?a + (page_no (va + sz - 1) - page_no va)" for vb
    using that free pg by (simp add: unmapped_def page_no_PGROUNDDOWN)
  show ?thesis
    using mappages_loop_ok [OF ok page_aligned_PGROUNDDOWN bound abs, of pa perm] pg
    unfolding mappages_def Let_def d(1) page_no_PGROUNDDOWN by simp
qed

text \<open>Mapping a single page takes at most one page of the pool, for a page table.\<close>

lemma mappages_page:
  assumes ok: "vm_ok s pgdir ps" and va: "page_aligned va" and absent: "pte_of (mem s) pgdir va AND PTE_P = 0"
    and pool: "ps \<noteq> []"
  shows "\<exists>t qs. mappages pgdir va PGSIZE pa perm s = Inr (0, t) \<and> vm_step s ps t qs pgdir
    \<and> length ps \<le> Suc (length qs)
    \<and> (\<forall>vb. pte_of (mem t) pgdir vb = (if page_no vb = page_no va then pa OR perm OR PTE_P else pte_of (mem s) pgdir vb))"
proof (cases rule: map_page [OF ok absent, where v = "pa OR perm OR PTE_P", case_names full mapped])
  case full
  then show ?thesis using pool by simp
next
  case (mapped pte t qs u)
  have last: "PGROUNDDOWN (va + 4096 - 1) = PGROUNDDOWN va"
  proof -
    have "va + 4096 - 1 = va + 4095" by simp
    then have "page_no (va + 4096 - 1) = page_no va"
      using page_no_offset [OF va, of 4095] by (simp add: add.commute)
    then show ?thesis by (simp add: word_unat_eq_iff unat_PGROUNDDOWN page_no_def)
  qed
  have "mappages pgdir va 4096 pa perm s = Inr (0, u)"
    unfolding mappages_def Let_def last using mapped PGROUNDDOWN_aligned [OF va] by simp
  then show ?thesis using mapped by blast
qed

section \<open>Clearing one entry\<close>

lemma walkpgdir_lookup:
  "walkpgdir pgdir va False s = Inr (if pt_present (mem s) pgdir (PDX va)
     then entry (pt_table (mem s) pgdir (PDX va)) (PTX va) else 0, s)"
  using walkpgdir_present [of s pgdir va False] walkpgdir_absent [of s pgdir va] by simp

lemma pte_pointer:
  assumes "vm_ok s pgdir ps" "pt_present (mem s) pgdir (PDX va)"
  shows "entry (pt_table (mem s) pgdir (PDX va)) (PTX va) \<noteq> 0"
    "load32 (mem s) (entry (pt_table (mem s) pgdir (PDX va)) (PTX va)) = pte_of (mem s) pgdir va"
proof -
  have "pt_table (mem s) pgdir (PDX va) \<noteq> 0"
    using assms pgdir_okD(2) by (auto simp: vm_ok_def)
  then show "entry (pt_table (mem s) pgdir (PDX va)) (PTX va) \<noteq> 0"
    by (intro entry_nonzero) simp_all
  show "load32 (mem s) (entry (pt_table (mem s) pgdir (PDX va)) (PTX va)) = pte_of (mem s) pgdir va"
    using assms(2) by (simp add: pte_of_def)
qed

lemma clearmapping_spec:
  assumes ok: "vm_ok s pgdir ps" and pres: "pt_present (mem s) pgdir (PDX va)"
  shows "\<exists>t. clearmapping pgdir va s = Inr t \<and> vm_step s ps t ps pgdir
    \<and> (\<forall>vb. pte_of (mem t) pgdir vb = (if page_no vb = page_no va
          then pte_of (mem s) pgdir va AND NOT PTE_P else pte_of (mem s) pgdir vb))"
  unfolding clearmapping_def walkpgdir_lookup
  using pte_pointer [OF ok pres] set_pte [OF ok pres, of "pte_of (mem s) pgdir va AND NOT PTE_P"] pres
  by simp

lemma clearmapping_absent:
  "\<not> pt_present (mem s) pgdir (PDX va) \<Longrightarrow> clearmapping pgdir va s = Inl (Panic ''clearmapping'')"
  by (simp add: clearmapping_def walkpgdir_lookup)

lemma clearpteu_spec:
  assumes ok: "vm_ok s pgdir ps" and pres: "pt_present (mem s) pgdir (PDX va)"
  shows "\<exists>t. clearpteu pgdir va s = Inr t \<and> vm_step s ps t ps pgdir
    \<and> (\<forall>vb. pte_of (mem t) pgdir vb = (if page_no vb = page_no va
          then pte_of (mem s) pgdir va AND NOT PTE_U else pte_of (mem s) pgdir vb))"
  unfolding clearpteu_def walkpgdir_lookup
  using pte_pointer [OF ok pres] set_pte [OF ok pres, of "pte_of (mem s) pgdir va AND NOT PTE_U"] pres
  by simp

lemma uva2ka_spec:
  assumes ok: "vm_ok s pgdir ps" and pres: "pt_present (mem s) pgdir (PDX va)"
  shows "uva2ka pgdir va s = Inr (if pte_of (mem s) pgdir va AND PTE_P = 0
       \<or> pte_of (mem s) pgdir va AND PTE_U = 0 then 0 else P2V (PTE_ADDR (pte_of (mem s) pgdir va)))"
  using pres by (simp add: uva2ka_def walkpgdir_lookup pte_pointer [OF ok pres])

section \<open>What the page table operations promise\<close>

text \<open>
  C12: \<^verbatim>\<open>mappages\<close> on a range that is not mapped yet returns; it returns 0 with every page of the
  range mapped to consecutive physical pages with the given permissions and the present bit,
  or -1 with the page pool used up. No other virtual address changes its entry, only page
  table pages are written, and the page directory stays well formed.
\<close>

theorem mappages_maps:
  assumes "vm_ok s pgdir ps" "0 < sz" "unat va + unat sz \<le> 2 ^ 32"
    and "unmapped (mem s) pgdir (page_no va) (page_no (va + sz - 1))"
  shows "\<exists>r t qs. mappages pgdir va sz pa perm s = Inr (r, t) \<and> vm_ok t pgdir qs
    \<and> same_except (page_no ` pt_pages (mem t) pgdir) (mem s) (mem t)
    \<and> (\<forall>vb. page_no vb < page_no va \<or> page_no (va + sz - 1) < page_no vb \<longrightarrow>
         pte_of (mem t) pgdir vb = pte_of (mem s) pgdir vb)
    \<and> (r = - 1 \<and> qs = [] \<or>
       r = 0 \<and> (\<forall>vb. page_no va \<le> page_no vb \<and> page_no vb \<le> page_no (va + sz - 1) \<longrightarrow>
         pte_of (mem t) pgdir vb = (pa + of_nat (4096 * (page_no vb - page_no va))) OR perm OR PTE_P))"
  using mappages_spec [OF assms, of pa perm] unfolding vm_step_def by blast

lemma zero_pgdir:
  assumes "page_aligned pgdir"
  shows "pgdir_ok (\<lambda>_. 0) pgdir" "pt_pages (\<lambda>_. 0) pgdir = {pgdir}" "pte_of (\<lambda>_. 0) pgdir va = 0"
    "unmapped (\<lambda>_. 0) pgdir i j"
  using assms by (simp_all add: pgdir_ok_def pt_pages_def pt_present_def load32_def pte_of_def unmapped_def)

lemma demo_phys_vm: "vm_ok (demo_phys 0x80400000) 0x80300000 [0x80400000]"
proof -
  have "page_aligned 0x80300000" by (simp add: page_aligned_def)
  from zero_pgdir [OF this] show ?thesis
    using demo_phys_ok(1) unfolding vm_ok_def by (simp add: demo_phys_def)
qed

theorem mappages_maps_witness:
  "\<exists>r t qs. mappages 0x80300000 0x1000 0x2000 0x500000 (PTE_W OR PTE_U) (demo_phys 0x80400000) = Inr (r, t)
    \<and> vm_ok t 0x80300000 qs"
proof -
  have "unmapped (mem (demo_phys 0x80400000)) 0x80300000 (page_no 0x1000) (page_no (0x1000 + 0x2000 - 1))"
    unfolding demo_phys_def phys.simps by (rule zero_pgdir) (simp add: page_aligned_def)
  from mappages_maps [OF demo_phys_vm _ _ this, of "0x500000" "PTE_W OR PTE_U"] show ?thesis by auto
qed

end
