(* ===== verification/Proc.thy ===== *)
theory Proc
  imports VmInv
begin

text \<open>
  The process table of \<^verbatim>\<open>proc.c\<close> and \<^verbatim>\<open>proc.h\<close>: looking up the running process, finding a
  free slot, growing a process, switching to and from the scheduler, sleeping, waking up
  and killing. A context switch ends the code of the process that calls \<^verbatim>\<open>sched\<close> for the time
  being, so each routine that switches is split there: the \<open>_out\<close> part runs up to
  \<^verbatim>\<open>swtch\<close>, the \<open>_in\<close> part runs when the scheduler switches back.
\<close>

section \<open>State\<close>

datatype procstate = UNUSED | EMBRYO | SLEEPING | RUNNABLE | RUNNING | ZOMBIE

record attached_shmsegs =
  isAttached :: int
  at_shmid :: int

text \<open>
  Pointers to processes, open files and inodes are indices of \<^verbatim>\<open>ptable.proc\<close>,
  \<^verbatim>\<open>ftable.file\<close> and \<^verbatim>\<open>icache.inode\<close>, with \<^const>\<open>None\<close> for null. The trap frame and the
  context lie in the process's kernel stack page; \<open>tf\<close> and \<open>context\<close> are their addresses.
\<close>

record proc =
  sz :: u32
  pgdir :: u32
  kstack :: u32
  pstate :: procstate
  pid :: int
  parent :: "nat option"
  tf :: u32
  context_p :: u32
  chan :: chan
  killed :: bool
  ofile :: "nat \<Rightarrow> nat option"
  cwd :: "nat option"
  pname :: string
  shmsegs :: "nat \<Rightarrow> attached_shmsegs"

text \<open>\<open>forkret_eip\<close> and \<open>trapret_eip\<close> are the addresses of \<^verbatim>\<open>forkret\<close> and \<^verbatim>\<open>trapret\<close>.\<close>

record procs = phys +
  ptable :: "nat \<Rightarrow> proc"
  nextpid :: int
  initproc :: "nat option"
  ticks :: u32
  forkret_eip :: u32
  trapret_eip :: u32

text \<open>Offsets in \<^verbatim>\<open>struct trapframe\<close> and \<^verbatim>\<open>struct context\<close>, and their sizes.\<close>

abbreviation (input) TF_SIZE :: u32 where "TF_SIZE \<equiv> 76"
abbreviation (input) TF_EAX :: u32 where "TF_EAX \<equiv> 28"
abbreviation (input) TF_ES :: u32 where "TF_ES \<equiv> 40"
abbreviation (input) TF_DS :: u32 where "TF_DS \<equiv> 44"
abbreviation (input) TF_TRAPNO :: u32 where "TF_TRAPNO \<equiv> 48"
abbreviation (input) TF_ERR :: u32 where "TF_ERR \<equiv> 52"
abbreviation (input) TF_EIP :: u32 where "TF_EIP \<equiv> 56"
abbreviation (input) TF_CS :: u32 where "TF_CS \<equiv> 60"
abbreviation (input) TF_EFLAGS :: u32 where "TF_EFLAGS \<equiv> 64"
abbreviation (input) TF_ESP :: u32 where "TF_ESP \<equiv> 68"
abbreviation (input) TF_SS :: u32 where "TF_SS \<equiv> 72"
abbreviation (input) CONTEXT_SIZE :: u32 where "CONTEXT_SIZE \<equiv> 20"
abbreviation (input) CONTEXT_EIP :: u32 where "CONTEXT_EIP \<equiv> 16"

definition upd_proc :: "nat \<Rightarrow> (proc \<Rightarrow> proc) \<Rightarrow> 'a procs_scheme \<Rightarrow> 'a procs_scheme" where
  "upd_proc p f s = s\<lparr>ptable := (ptable s)(p := f (ptable s p))\<rparr>"

section \<open>Operations\<close>

definition pinit :: "'a procs_scheme \<Rightarrow> 'a procs_scheme" where
  "pinit s = initlock PtableLock s"

definition cpuid :: "'a mach_scheme \<Rightarrow> nat res" where
  "cpuid s = mycpu s"

definition myproc :: "'a mach_scheme \<Rightarrow> (nat option \<times> 'a mach_scheme) res" where
  "myproc s =
     rbind (pushcli s) (\<lambda>s.
     rbind (mycpu s) (\<lambda>c.
     let p = cpu_proc (cpus s c) in
     rbind (popcli s) (\<lambda>s. Inr (p, s))))"

text \<open>\<^verbatim>\<open>myproc()\<close> dereferenced at once, as most callers do.\<close>

definition curproc :: "'a mach_scheme \<Rightarrow> (nat \<times> 'a mach_scheme) res" where
  "curproc s =
     rbind (myproc s) (\<lambda>(p, s).
     case p of None \<Rightarrow> Inl (Undef ''no current process'') | Some p \<Rightarrow> Inr (p, s))"

text \<open>
  \<^verbatim>\<open>nextpid\<close> is an \<^verbatim>\<open>int\<close>; counting it past 2^31 - 1 is a signed overflow. The page for the
  kernel stack is allocated after the lock has been released.
\<close>

definition allocproc :: "'a procs_scheme \<Rightarrow> (nat option \<times> 'a procs_scheme) res" where
  "allocproc s =
     rbind (acquire PtableLock s) (\<lambda>s.
     case find (\<lambda>i. pstate (ptable s i) = UNUSED) [0..<NPROC] of
       None \<Rightarrow> rbind (release PtableLock s) (\<lambda>s. Inr (None, s))
     | Some p \<Rightarrow>
         if nextpid s \<ge> 2 ^ 31 - 1 then Inl (Undef ''nextpid overflow'')
         else
         let s = upd_proc p (\<lambda>q. q\<lparr>pstate := EMBRYO, pid := nextpid s\<rparr>) s;
             s = s\<lparr>nextpid := nextpid s + 1\<rparr>
         in
         rbind (release PtableLock s) (\<lambda>s.
         rbind (kalloc s) (\<lambda>(k, s).
         let s = upd_proc p (\<lambda>q. q\<lparr>kstack := k\<rparr>) s in
         if k = 0 then Inr (None, upd_proc p (\<lambda>q. q\<lparr>pstate := UNUSED\<rparr>) s)
         else
           let sp = k + KSTACKSIZE;
               sp = sp - TF_SIZE;
               s = upd_proc p (\<lambda>q. q\<lparr>tf := sp\<rparr>) s;
               sp = sp - 4;
               s = s\<lparr>mem := store32 (mem s) sp (trapret_eip s)\<rparr>;
               sp = sp - CONTEXT_SIZE;
               s = upd_proc p (\<lambda>q. q\<lparr>context_p := sp\<rparr>) s;
               s = s\<lparr>mem := memset (mem s) sp 0 CONTEXT_SIZE\<rparr>;
               s = s\<lparr>mem := store32 (mem s) (sp + CONTEXT_EIP) (forkret_eip s)\<rparr>
           in Inr (Some p, s))))"

text \<open>The end of \<^verbatim>\<open>userinit\<close>, which lets the scheduler run a process that has been set up.\<close>

definition make_runnable :: "nat \<Rightarrow> 'a procs_scheme \<Rightarrow> 'a procs_scheme res" where
  "make_runnable p s =
     rbind (acquire PtableLock s) (\<lambda>s. release PtableLock (upd_proc p (\<lambda>q. q\<lparr>pstate := RUNNABLE\<rparr>) s))"

text \<open>\<^verbatim>\<open>vm.c\<close>'s \<^verbatim>\<open>switchuvm\<close>. The segment descriptor it installs is the same for every process.\<close>

definition switchuvm :: "nat option \<Rightarrow> 'a procs_scheme \<Rightarrow> 'a procs_scheme res" where
  "switchuvm p s =
     (case p of None \<Rightarrow> Inl (Panic ''switchuvm: no process'')
      | Some p \<Rightarrow>
        if kstack (ptable s p) = 0 then Inl (Panic ''switchuvm: no kstack'')
        else if pgdir (ptable s p) = 0 then Inl (Panic ''switchuvm: no pgdir'')
        else
          rbind (pushcli s) (\<lambda>s.
          rbind (mycpu s) (\<lambda>c.
          let s = upd_cpu (\<lambda>c. c\<lparr>ts_ss0 := 16, ts_esp0 := kstack (ptable s p) + KSTACKSIZE,
                ts_iomb := 0xFFFF\<rparr>) s;
              s = s\<lparr>cr3 := V2P (pgdir (ptable s p))\<rparr>
          in popcli s)))"

definition growproc :: "int \<Rightarrow> 'a procs_scheme \<Rightarrow> (int \<times> 'a procs_scheme) res" where
  "growproc n s =
     rbind (curproc s) (\<lambda>(p, s).
     let z = sz (ptable s p); pd = pgdir (ptable s p) in
     if n > 0 then
       rbind (allocuvm pd z (z + u32_of_int n) s) (\<lambda>(z, s).
       if z = 0 then Inr (- 1, s)
       else rbind (switchuvm (Some p) (upd_proc p (\<lambda>q. q\<lparr>sz := z\<rparr>) s)) (\<lambda>s. Inr (0, s)))
     else if n < 0 then
       rbind (deallocuvm pd z (z + u32_of_int n) s) (\<lambda>(z, s).
       if z = 0 then Inr (- 1, s)
       else rbind (switchuvm (Some p) (upd_proc p (\<lambda>q. q\<lparr>sz := z\<rparr>) s)) (\<lambda>s. Inr (0, s)))
     else rbind (switchuvm (Some p) (upd_proc p (\<lambda>q. q\<lparr>sz := z\<rparr>) s)) (\<lambda>s. Inr (0, s)))"

subsection \<open>Switching\<close>

text \<open>
  \<^verbatim>\<open>sched\<close> up to \<^verbatim>\<open>swtch\<close> gives the saved \<^verbatim>\<open>intena\<close> and the state the scheduler takes
  over; after the switch back only \<^verbatim>\<open>intena\<close> is restored.
\<close>

definition sched_out :: "'a procs_scheme \<Rightarrow> (bool \<times> 'a procs_scheme) res" where
  "sched_out s =
     rbind (myproc s) (\<lambda>(p, s).
     rbind (holding PtableLock s) (\<lambda>(h, s).
     if \<not> h then Inl (Panic ''sched ptable.lock'')
     else rbind (mycpu s) (\<lambda>c.
       if ncli (cpus s c) \<noteq> 1 then Inl (Panic ''sched locks'')
       else case p of None \<Rightarrow> Inl (Undef ''no current process'')
       | Some p \<Rightarrow>
         if pstate (ptable s p) = RUNNING then Inl (Panic ''sched running'')
         else if readeflags_IF s then Inl (Panic ''sched interruptible'')
         else Inr (intena (cpus s c), s))))"

definition sched_in :: "bool \<Rightarrow> 'a procs_scheme \<Rightarrow> 'a procs_scheme res" where
  "sched_in i s = rbind (mycpu s) (\<lambda>_. Inr (upd_cpu (\<lambda>c. c\<lparr>intena := i\<rparr>) s))"

definition yield_out :: "'a procs_scheme \<Rightarrow> (bool \<times> 'a procs_scheme) res" where
  "yield_out s =
     rbind (acquire PtableLock s) (\<lambda>s.
     rbind (curproc s) (\<lambda>(p, s).
     sched_out (upd_proc p (\<lambda>q. q\<lparr>pstate := RUNNABLE\<rparr>) s)))"

definition yield_in :: "bool \<Rightarrow> 'a procs_scheme \<Rightarrow> 'a procs_scheme res" where
  "yield_in i s = rbind (sched_in i s) (\<lambda>s. release PtableLock s)"

text \<open>
  One round of the scheduler's inner loop at table entry \<open>p\<close>: up to the switch to the process,
  and after the process has switched back.
\<close>

definition scheduler_out :: "nat \<Rightarrow> 'a procs_scheme \<Rightarrow> 'a procs_scheme option res" where
  "scheduler_out p s =
     (if pstate (ptable s p) \<noteq> RUNNABLE then Inr None
      else
        let s = upd_cpu (\<lambda>c. c\<lparr>cpu_proc := Some p\<rparr>) s in
        rbind (switchuvm (Some p) s) (\<lambda>s.
        Inr (Some (upd_proc p (\<lambda>q. q\<lparr>pstate := RUNNING\<rparr>) s))))"

definition scheduler_in :: "'a procs_scheme \<Rightarrow> 'a procs_scheme" where
  "scheduler_in s = upd_cpu (\<lambda>c. c\<lparr>cpu_proc := None\<rparr>) (switchkvm s)"

definition forkret_release :: "'a procs_scheme \<Rightarrow> 'a procs_scheme res" where
  "forkret_release s = release PtableLock s"

subsection \<open>Sleep and wakeup\<close>

definition sleep_out ::
  "chan \<Rightarrow> lockid option \<Rightarrow> 'a procs_scheme \<Rightarrow> (bool \<times> 'a procs_scheme) res"
where
  "sleep_out ch lk s =
     rbind (myproc s) (\<lambda>(p, s).
     case p of None \<Rightarrow> Inl (Panic ''sleep'')
     | Some p \<Rightarrow>
       case lk of None \<Rightarrow> Inl (Panic ''sleep without lk'')
       | Some lk \<Rightarrow>
         rbind (if lk \<noteq> PtableLock
                then rbind (acquire PtableLock s) (\<lambda>s. release lk s)
                else Inr s) (\<lambda>s.
         sched_out (upd_proc p (\<lambda>q. q\<lparr>chan := ch, pstate := SLEEPING\<rparr>) s)))"

definition sleep_in ::
  "nat \<Rightarrow> lockid \<Rightarrow> bool \<Rightarrow> 'a procs_scheme \<Rightarrow> 'a procs_scheme res"
where
  "sleep_in p lk i s =
     rbind (sched_in i s) (\<lambda>s.
     let s = upd_proc p (\<lambda>q. q\<lparr>chan := NoChan\<rparr>) s in
     if lk \<noteq> PtableLock then rbind (release PtableLock s) (\<lambda>s. acquire lk s) else Inr s)"

text \<open>For the code that calls it, going to sleep ends the call for now.\<close>

definition sleep :: "chan \<Rightarrow> lockid \<Rightarrow> 'a procs_scheme \<Rightarrow> 'b res" where
  "sleep ch lk s = rbind (sleep_out ch (Some lk) s) (\<lambda>_. Inl (Sleeps ch))"

primrec wakeup1_loop :: "nat list \<Rightarrow> chan \<Rightarrow> 'a procs_scheme \<Rightarrow> 'a procs_scheme" where
  "wakeup1_loop [] ch s = s"
| "wakeup1_loop (p # ps) ch s =
     wakeup1_loop ps ch
       (if pstate (ptable s p) = SLEEPING \<and> chan (ptable s p) = ch
        then upd_proc p (\<lambda>q. q\<lparr>pstate := RUNNABLE\<rparr>) s else s)"

definition wakeup1 :: "chan \<Rightarrow> 'a procs_scheme \<Rightarrow> 'a procs_scheme" where
  "wakeup1 ch s = wakeup1_loop [0..<NPROC] ch s"

definition wakeup :: "chan \<Rightarrow> 'a procs_scheme \<Rightarrow> 'a procs_scheme res" where
  "wakeup ch s = rbind (acquire PtableLock s) (\<lambda>s. release PtableLock (wakeup1 ch s))"

definition kill :: "int \<Rightarrow> 'a procs_scheme \<Rightarrow> (int \<times> 'a procs_scheme) res" where
  "kill i s =
     rbind (acquire PtableLock s) (\<lambda>s.
     case find (\<lambda>p. pid (ptable s p) = i) [0..<NPROC] of
       Some p \<Rightarrow>
         let s = upd_proc p (\<lambda>q. q\<lparr>killed := True\<rparr>) s;
             s = (if pstate (ptable s p) = SLEEPING
                  then upd_proc p (\<lambda>q. q\<lparr>pstate := RUNNABLE\<rparr>) s else s)
         in rbind (release PtableLock s) (\<lambda>s. Inr (0, s))
     | None \<Rightarrow> rbind (release PtableLock s) (\<lambda>s. Inr (- 1, s)))"

subsection \<open>Exit and wait\<close>

text \<open>A pointer to a process used as a sleep channel.\<close>

definition proc_chan :: "nat option \<Rightarrow> chan" where
  "proc_chan p = (case p of None \<Rightarrow> NoChan | Some p \<Rightarrow> ChanProc p)"

primrec reparent_loop :: "nat list \<Rightarrow> nat \<Rightarrow> 'a procs_scheme \<Rightarrow> 'a procs_scheme" where
  "reparent_loop [] p s = s"
| "reparent_loop (q # qs) p s =
     reparent_loop qs p
       (if parent (ptable s q) = Some p then
          let s = upd_proc q (\<lambda>r. r\<lparr>parent := initproc s\<rparr>) s in
          if pstate (ptable s q) = ZOMBIE then wakeup1 (proc_chan (initproc s)) s else s
        else s)"

text \<open>The last part of \<^verbatim>\<open>exit\<close>, from taking the table lock to the switch away.\<close>

definition exit_sched :: "nat \<Rightarrow> 'a procs_scheme \<Rightarrow> (bool \<times> 'a procs_scheme) res" where
  "exit_sched p s =
     rbind (acquire PtableLock s) (\<lambda>s.
     let s = wakeup1 (proc_chan (parent (ptable s p))) s;
         s = reparent_loop [0..<NPROC] p s
     in sched_out (upd_proc p (\<lambda>q. q\<lparr>pstate := ZOMBIE\<rparr>) s))"

definition reap :: "nat \<Rightarrow> 'a procs_scheme \<Rightarrow> (int \<times> 'a procs_scheme) res" where
  "reap p s =
     (let i = pid (ptable s p) in
      rbind (kfree (kstack (ptable s p)) s) (\<lambda>s.
      let s = upd_proc p (\<lambda>q. q\<lparr>kstack := 0\<rparr>) s in
      rbind (freevm (pgdir (ptable s p)) s) (\<lambda>s.
      Inr (i, upd_proc p (\<lambda>q. q\<lparr>pid := 0, parent := None, pname := [], killed := False,
        pstate := UNUSED\<rparr>) s))))"

primrec wait_scan ::
  "nat list \<Rightarrow> nat \<Rightarrow> bool \<Rightarrow> 'a procs_scheme \<Rightarrow> (int option \<times> bool \<times> 'a procs_scheme) res"
where
  "wait_scan [] cur havekids s = Inr (None, havekids, s)"
| "wait_scan (p # ps) cur havekids s =
     (if parent (ptable s p) \<noteq> Some cur then wait_scan ps cur havekids s
      else if pstate (ptable s p) = ZOMBIE then
        rbind (reap p s) (\<lambda>(i, s). Inr (Some i, True, s))
      else wait_scan ps cur True s)"

definition wait :: "'a procs_scheme \<Rightarrow> (int \<times> 'a procs_scheme) res" where
  "wait s =
     rbind (curproc s) (\<lambda>(cur, s).
     rbind (acquire PtableLock s) (\<lambda>s.
     rbind (wait_scan [0..<NPROC] cur False s) (\<lambda>(r, havekids, s).
     case r of
       Some i \<Rightarrow> rbind (release PtableLock s) (\<lambda>s. Inr (i, s))
     | None \<Rightarrow>
         if \<not> havekids \<or> killed (ptable s cur)
         then rbind (release PtableLock s) (\<lambda>s. Inr (- 1, s))
         else sleep (ChanProc cur) PtableLock s)))"

end
