(* ===== verification/UserMem.thy ===== *)
theory UserMem
  imports VmInv
begin

text \<open>
  Kernel accesses through user virtual addresses. The kernel dereferences user pointers
  directly, so the hardware translates them with the page directory in \<^verbatim>\<open>cr3\<close>. A page that
  is not present, or not writable when written to (the kernel runs with \<^verbatim>\<open>CR0_WP\<close> set),
  raises a page fault in kernel mode, which \<^verbatim>\<open>trap\<close> answers with a panic.
\<close>

section \<open>Translation and accesses\<close>

definition user_pte :: "u32 \<Rightarrow> 'a phys_scheme \<Rightarrow> u32" where
  "user_pte va s =
     (let pd = P2V (cr3 s); pde = load32 (mem s) (entry pd (PDX va)) in
      if pde AND PTE_P = 0 then 0 else load32 (mem s) (entry (P2V (PTE_ADDR pde)) (PTX va)))"

definition user_loc :: "u32 \<Rightarrow> 'a phys_scheme \<Rightarrow> u32" where
  "user_loc va s = P2V (PTE_ADDR (user_pte va s)) + (va AND 0xFFF)"

definition uload8 :: "u32 \<Rightarrow> 'a phys_scheme \<Rightarrow> u8 res" where
  "uload8 va s =
     (if user_pte va s AND PTE_P = 0 then Inl (Panic ''trap'') else Inr (mem s (user_loc va s)))"

definition ustore8 :: "u32 \<Rightarrow> u8 \<Rightarrow> 'a phys_scheme \<Rightarrow> 'a phys_scheme res" where
  "ustore8 va b s =
     (if user_pte va s AND PTE_P = 0 \<or> user_pte va s AND PTE_W = 0 then Inl (Panic ''trap'')
      else Inr (s\<lparr>mem := (mem s)(user_loc va s := b)\<rparr>))"

primrec uload_bytes :: "nat \<Rightarrow> u32 \<Rightarrow> 'a phys_scheme \<Rightarrow> u8 list res" where
  "uload_bytes 0 va s = Inr []"
| "uload_bytes (Suc n) va s =
     rbind (uload8 va s) (\<lambda>b. rbind (uload_bytes n (va + 1) s) (\<lambda>bs. Inr (b # bs)))"

primrec ustore_bytes :: "u8 list \<Rightarrow> u32 \<Rightarrow> 'a phys_scheme \<Rightarrow> 'a phys_scheme res" where
  "ustore_bytes [] va s = Inr s"
| "ustore_bytes (b # bs) va s = rbind (ustore8 va b s) (\<lambda>s. ustore_bytes bs (va + 1) s)"

definition bytes_of_u32 :: "u32 \<Rightarrow> u8 list" where
  "bytes_of_u32 w = [ucast w, ucast (drop_bit 8 w), ucast (drop_bit 16 w), ucast (drop_bit 24 w)]"

fun u32_of_bytes :: "u8 list \<Rightarrow> u32" where
  "u32_of_bytes [a, b, c, d] =
     ucast a OR push_bit 8 (ucast b) OR push_bit 16 (ucast c) OR push_bit 24 (ucast d)"
| "u32_of_bytes _ = 0"

definition uload32 :: "u32 \<Rightarrow> 'a phys_scheme \<Rightarrow> u32 res" where
  "uload32 va s = rbind (uload_bytes 4 va s) (\<lambda>bs. Inr (u32_of_bytes bs))"

definition ustore32 :: "u32 \<Rightarrow> u32 \<Rightarrow> 'a phys_scheme \<Rightarrow> 'a phys_scheme res" where
  "ustore32 va v s = ustore_bytes (bytes_of_u32 v) va s"

end
