(* ===== verification/Shm.thy ===== *)
theory Shm
  imports Proc UserMem
begin

text \<open>
  The shared memory segments of \<^verbatim>\<open>shm.c\<close> and \<^verbatim>\<open>shm.h\<close>. One entry of \<^verbatim>\<open>shm_segs\<close> describes
  one page; the pages of a segment have consecutive entries and the first index is the
  segment's id. Every access to a C array is guarded by its bounds, an access outside is the
  outcome \<^const>\<open>Undef\<close>. Messages printed with \<^verbatim>\<open>cprintf\<close> are left out.
\<close>

section \<open>State\<close>

record ipc_perm =
  ip_key :: int
  ip_mode :: u32

record shmid_ds =
  shm_perm :: ipc_perm
  shm_segsz :: u32
  shm_atime :: int
  shm_dtime :: int
  shm_ctime :: int
  shm_cpid :: int
  shm_lpid :: int
  shm_nattch :: u32
  shm_pa :: u32

record rtcdate =
  second :: u32
  minute :: u32
  hour :: u32
  day :: u32
  month :: u32
  year :: u32

text \<open>\<open>rtc\<close> is the clock chip; \<open>shm_r\<close> is the global variable \<^verbatim>\<open>r\<close> that the code reads it into.\<close>

record shm = procs +
  shm_segs :: "nat \<Rightarrow> shmid_ds"
  lastShmSegIndex :: int
  used_ids :: int
  shm_tot :: u32
  rtc :: rtcdate
  shm_r :: rtcdate

definition shminit :: "'a shm_scheme \<Rightarrow> 'a shm_scheme" where
  "shminit s = initlock ShmLock s"

definition cmostime_r :: "'a shm_scheme \<Rightarrow> 'a shm_scheme" where
  "cmostime_r s = s\<lparr>shm_r := rtc s\<rparr>"

definition generate_random_key :: "'a shm_scheme \<Rightarrow> u32 \<times> 'a shm_scheme" where
  "generate_random_key s =
     (let s = cmostime_r s; r = shm_r s in
      (second r * 10000 + minute r * 100 + hour r * 10 + day r + ticks s, s))"

text \<open>The time stamp \<^verbatim>\<open>r.hour*10000+r.minute*100+r.second\<close>, stored in an \<^verbatim>\<open>int\<close>.\<close>

definition shm_now :: "'a shm_scheme \<Rightarrow> int" where
  "shm_now s = int_of_u32 (hour (shm_r s) * 10000 + minute (shm_r s) * 100 + second (shm_r s))"

section \<open>Access to the arrays\<close>

definition get_seg :: "int \<Rightarrow> 'a shm_scheme \<Rightarrow> shmid_ds res" where
  "get_seg i s = (if 0 \<le> i \<and> i < SHMMAXSEG then Inr (shm_segs s (nat i)) else Inl (Undef ''shm_segs''))"

definition upd_seg :: "int \<Rightarrow> (shmid_ds \<Rightarrow> shmid_ds) \<Rightarrow> 'a shm_scheme \<Rightarrow> 'a shm_scheme res" where
  "upd_seg i f s =
     (if 0 \<le> i \<and> i < SHMMAXSEG
      then Inr (s\<lparr>shm_segs := (shm_segs s)(nat i := f (shm_segs s (nat i)))\<rparr>)
      else Inl (Undef ''shm_segs''))"

primrec upd_segs :: "nat list \<Rightarrow> int \<Rightarrow> (shmid_ds \<Rightarrow> shmid_ds) \<Rightarrow> 'a shm_scheme \<Rightarrow> 'a shm_scheme res" where
  "upd_segs [] shmid f s = Inr s"
| "upd_segs (i # is) shmid f s =
     rbind (upd_seg (shmid + int i) f s) (\<lambda>s. upd_segs is shmid f s)"

definition get_slot :: "nat \<Rightarrow> int \<Rightarrow> 'a shm_scheme \<Rightarrow> attached_shmsegs res" where
  "get_slot p i s =
     (if 0 \<le> i \<and> i < 4096 then Inr (shmsegs (ptable s p) (nat i)) else Inl (Undef ''shmsegs''))"

definition upd_slot ::
  "nat \<Rightarrow> int \<Rightarrow> (attached_shmsegs \<Rightarrow> attached_shmsegs) \<Rightarrow> 'a shm_scheme \<Rightarrow> 'a shm_scheme res"
where
  "upd_slot p i f s =
     (if 0 \<le> i \<and> i < 4096
      then Inr (upd_proc p (\<lambda>q. q\<lparr>shmsegs := (shmsegs q)(nat i := f (shmsegs q (nat i)))\<rparr>) s)
      else Inl (Undef ''shmsegs''))"

abbreviation seg_key :: "shmid_ds \<Rightarrow> int" where
  "seg_key d \<equiv> ip_key (shm_perm d)"

abbreviation set_mode :: "(u32 \<Rightarrow> u32) \<Rightarrow> shmid_ds \<Rightarrow> shmid_ds" where
  "set_mode f d \<equiv> d\<lparr>shm_perm := (shm_perm d)\<lparr>ip_mode := f (ip_mode (shm_perm d))\<rparr>\<rparr>"

text \<open>The number of pages of a segment, computed from its size as unsigned or as signed.\<close>

definition seg_pages :: "u32 \<Rightarrow> nat" where
  "seg_pages z = unat (z div PGSIZE)"

definition seg_pages_int :: "u32 \<Rightarrow> int" where
  "seg_pages_int z = cdiv (int_of_u32 z) PGSIZE"

section \<open>Creating segments\<close>

definition updateShmSeg :: "int \<Rightarrow> int \<Rightarrow> int \<Rightarrow> 'a shm_scheme \<Rightarrow> 'a shm_scheme res" where
  "updateShmSeg shmid npid flag s =
     (let s = cmostime_r s in
      rbind (get_seg shmid s) (\<lambda>d.
      let reqPages = seg_pages (shm_segsz d) in
      rbind (acquire ShmLock s) (\<lambda>s.
      rbind (if flag = 0
             then upd_segs [0..<reqPages] shmid
               (\<lambda>d. d\<lparr>shm_nattch := shm_nattch d + 1, shm_lpid := npid, shm_atime := shm_now s\<rparr>) s
             else upd_segs [0..<reqPages] shmid
               (\<lambda>d. d\<lparr>shm_nattch := shm_nattch d - 1, shm_dtime := shm_now s\<rparr>) s) (\<lambda>s.
      release ShmLock s))))"

definition mapShmSegPage ::
  "u32 \<Rightarrow> int \<Rightarrow> u32 \<Rightarrow> int \<Rightarrow> int \<Rightarrow> int \<Rightarrow> 'a shm_scheme \<Rightarrow> (int \<times> 'a shm_scheme) res"
where
  "mapShmSegPage pa key segSize index npid perm s =
     rbind (acquire ShmLock s) (\<lambda>s.
     rbind (upd_seg index (\<lambda>d. d\<lparr>shm_pa := pa,
       shm_perm := \<lparr>ip_key = key, ip_mode = u32_of_int perm\<rparr>, shm_segsz := segSize, shm_lpid := npid,
       shm_atime := - 1, shm_dtime := - 1, shm_ctime := - 1, shm_cpid := - 1, shm_nattch := 0\<rparr>) s) (\<lambda>s.
     rbind (release ShmLock s) (\<lambda>s. Inr (index, s))))"

text \<open>
  \<^verbatim>\<open>endIndex\<close> is unsigned and counts down to \<^verbatim>\<open>lastShmSegIndex\<close> (converted to unsigned).
  Below 0 it wraps to 2^32 - 1, which ends the loop only if \<^verbatim>\<open>lastShmSegIndex\<close> is -1.
\<close>

function unmap_loop :: "u32 \<Rightarrow> 'a shm_scheme \<Rightarrow> 'a shm_scheme res" where
  "unmap_loop endIndex s =
     (if endIndex = u32_of_int (lastShmSegIndex s) then Inr s
      else rbind (upd_seg (uint endIndex) (\<lambda>d. d\<lparr>shm_pa := 0,
          shm_perm := \<lparr>ip_key = - 1, ip_mode = 0\<rparr>, shm_segsz := 0\<rparr>) s) (\<lambda>s.
        unmap_loop (endIndex - 1) s))"
  by pat_completeness auto
termination
proof (relation "measure (\<lambda>(e, s). if unat e < 4096 then Suc (unat e) else 0)")
  fix e :: u32 and f :: "shmid_ds \<Rightarrow> shmid_ds" and s s' :: "'a shm_scheme"
  assume "upd_seg (uint e) f s = Inr s'"
  then have "uint e < 4096" by (simp add: upd_seg_def split: if_splits)
  then have e: "unat e < 4096" unfolding uint_nat by linarith
  show "((e - 1, s'), e, s) \<in> measure (\<lambda>(e, s). if unat e < 4096 then Suc (unat e) else 0)"
  proof (cases "e = 0")
    case True
    then show ?thesis by (simp add: unat_minus_1_u32)
  next
    case False
    then have pos: "unat e \<noteq> 0" by (simp add: unat_eq_0)
    then have "unat (e - 1) = unat e - 1" by (simp add: unat_sub word_le_nat_alt)
    then show ?thesis using e pos by simp
  qed
qed simp

declare unmap_loop.simps [simp del]

definition unmapShmSegPage :: "u32 \<Rightarrow> 'a shm_scheme \<Rightarrow> 'a shm_scheme res" where
  "unmapShmSegPage endIndex s =
     rbind (acquire ShmLock s) (\<lambda>s. rbind (unmap_loop endIndex s) (\<lambda>s. release ShmLock s))"

text \<open>
  The search for \<open>req\<close> consecutive free entries among \<open>is\<close>: \<open>si\<close> is the start of the run
  of free entries seen last (-1 for none) and \<open>zc\<close> its length. -1 when there is no such run.
\<close>

primrec first_fit :: "(nat \<Rightarrow> bool) \<Rightarrow> nat \<Rightarrow> nat list \<Rightarrow> int \<Rightarrow> nat \<Rightarrow> int" where
  "first_fit free req [] si zc = - 1"
| "first_fit free req (i # is) si zc =
     (if free i then
        let si = (if si = - 1 then int i else si); zc = zc + 1 in
        if zc = req then si else first_fit free req is si zc
      else first_fit free req is (- 1) 0)"

text \<open>
  The allocation loop: \<open>n\<close> pages are still to come, \<open>j\<close> have been allocated. The result
  says whether all pages could be allocated.
\<close>

primrec alloc_seg_loop ::
  "nat \<Rightarrow> nat \<Rightarrow> int \<Rightarrow> bool \<Rightarrow> int \<Rightarrow> u32 \<Rightarrow> int \<Rightarrow> nat option \<Rightarrow> 'a shm_scheme \<Rightarrow> (bool \<times> 'a shm_scheme) res"
where
  "alloc_seg_loop 0 j index inc key rounded shmflag process s = Inr (True, s)"
| "alloc_seg_loop (Suc n) j index inc key rounded shmflag process s =
     rbind (kalloc s) (\<lambda>(m, s).
     if m = 0 then rbind (unmapShmSegPage (of_nat j) s) (\<lambda>s. Inr (False, s))
     else
       let s = s\<lparr>mem := memset (mem s) m 0 PGSIZE\<rparr> in
       case process of None \<Rightarrow> Inl (Undef ''no current process'')
       | Some p \<Rightarrow>
         rbind (mapShmSegPage (V2P m) key rounded index (pid (ptable s p)) (shmflag AND 3) s) (\<lambda>(_, s).
         let s = (if inc then s\<lparr>lastShmSegIndex := lastShmSegIndex s + 1\<rparr> else s) in
         alloc_seg_loop n (j + 1) (index + 1) inc key rounded shmflag process s))"

definition allocShmSeg :: "u32 \<Rightarrow> int \<Rightarrow> int \<Rightarrow> 'a shm_scheme \<Rightarrow> (int \<times> 'a shm_scheme) res" where
  "allocShmSeg segmentSize key shmflag s =
     (if segmentSize < SHMMIN \<or> segmentSize > MAXSEGSIZE then Inr (EINVAL, s)
      else rbind (myproc s) (\<lambda>(process, s).
        let rounded = PGROUNDUP segmentSize;
            reqPages = seg_pages rounded
        in
        if lastShmSegIndex s \<ge> SHMMAXSEG then Inl (Undef ''shm_segs'')
        else
          let i = first_fit (\<lambda>i. seg_key (shm_segs s i) = - 1) reqPages
                [0..<nat (lastShmSegIndex s + 1)] (- 1) 0;
              inc = (i = - 1);
              index = (if i = - 1 then lastShmSegIndex s + 1 else i)
          in
          if index + int reqPages > SHMMAXSEG then Inr (ENOSPC, s)
          else
            rbind (alloc_seg_loop reqPages 0 index inc key rounded shmflag process s) (\<lambda>(ok, s).
            if \<not> ok then Inr (- 1, s)
            else Inr (index, s\<lparr>used_ids := used_ids s + 1,
              shm_tot := u32_of_int (lastShmSegIndex s + 1)\<rparr>))))"

text \<open>The search by key, 0 to \<^verbatim>\<open>lastShmSegIndex\<close>.\<close>

definition find_key :: "int \<Rightarrow> 'a shm_scheme \<Rightarrow> nat option res" where
  "find_key key s =
     (if lastShmSegIndex s \<ge> SHMMAXSEG then Inl (Undef ''shm_segs'')
      else Inr (find (\<lambda>i. seg_key (shm_segs s i) = key) [0..<nat (lastShmSegIndex s + 1)]))"

definition shmgetHelper :: "int \<Rightarrow> u32 \<Rightarrow> int \<Rightarrow> 'a shm_scheme \<Rightarrow> (int \<times> 'a shm_scheme) res" where
  "shmgetHelper key reqsz shmflag s =
     (let (key, s) = (if key = IPC_PRIVATE
            then (let (k, s) = generate_random_key s in (int_of_u32 k, s)) else (key, s))
      in
      rbind (find_key key s) (\<lambda>found.
      if shmflag = IPC_CREAT OR IPC_EXCL then
        (case found of Some i \<Rightarrow> Inr (EEXIST, s) | None \<Rightarrow> allocShmSeg reqsz key shmflag s)
      else if shmflag = IPC_CREAT then
        (case found of
           Some i \<Rightarrow>
             if shm_segsz (shm_segs s i) \<le> reqsz then Inr (int i, s)
             else if \<not> (shm_segsz (shm_segs s i) > reqsz) then Inr (EINVAL, s)
             else allocShmSeg reqsz key shmflag s
         | None \<Rightarrow> allocShmSeg reqsz key shmflag s)
      else
        (case found of Some i \<Rightarrow> Inr (int i, s) | None \<Rightarrow> Inr (ENOENT, s))))"

section \<open>Attaching and detaching\<close>

primrec attach_loop ::
  "nat list \<Rightarrow> int \<Rightarrow> u32 \<Rightarrow> u32 \<Rightarrow> int \<Rightarrow> int \<Rightarrow> nat \<Rightarrow> 'a shm_scheme \<Rightarrow> (bool \<times> 'a shm_scheme) res"
where
  "attach_loop [] shmid shmaddr va si shmflag p s = Inr (True, s)"
| "attach_loop (i # is) shmid shmaddr va si shmflag p s =
     rbind (upd_slot p (si + int i) (\<lambda>a. a\<lparr>isAttached := 1, at_shmid := shmid\<rparr>) s) (\<lambda>s.
     rbind (get_seg (shmid + int i) s) (\<lambda>d.
     rbind (mappages (pgdir (ptable s p)) va PGSIZE (V2P (shm_pa d))
         (if shmflag AND 2 \<noteq> 0 then PTE_W OR PTE_U else PTE_U) s) (\<lambda>(r, s).
     if r < 0 then
       rbind (deallocuvm (pgdir (ptable s p)) va shmaddr s) (\<lambda>(_, s). Inr (False, s))
     else
       rbind (upd_seg (shmid + int i) (\<lambda>d. d\<lparr>shm_nattch := shm_nattch d + 1, shm_atime := shm_now s,
           shm_ctime := shm_now s, shm_lpid := pid (ptable s p)\<rparr>) s) (\<lambda>s.
       attach_loop is shmid shmaddr (va + PGSIZE) si shmflag p s))))"

text \<open>The failure path returns without releasing the lock.\<close>

definition allocshmuvm ::
  "int \<Rightarrow> u32 \<Rightarrow> int \<Rightarrow> int \<Rightarrow> int \<Rightarrow> 'a shm_scheme \<Rightarrow> (u32 \<times> 'a shm_scheme) res"
where
  "allocshmuvm shmid shmaddr reqPages si shmflag s =
     (let s = cmostime_r s in
      rbind (curproc s) (\<lambda>(p, s).
      rbind (acquire ShmLock s) (\<lambda>s.
      rbind (attach_loop [0..<nat reqPages] shmid shmaddr shmaddr si shmflag p s) (\<lambda>(ok, s).
      if \<not> ok then Inr (u32_of_int ENOMEM, s)
      else rbind (release ShmLock s) (\<lambda>s. Inr (shmaddr, s))))))"

primrec any_attached :: "int list \<Rightarrow> nat \<Rightarrow> 'a shm_scheme \<Rightarrow> bool res" where
  "any_attached [] p s = Inr False"
| "any_attached (i # is) p s =
     rbind (get_slot p i s) (\<lambda>a. if isAttached a = 1 then Inr True else any_attached is p s)"

text \<open>
  \<^verbatim>\<open>KERNBASE\<close> does not fit an \<^verbatim>\<open>int\<close>, so \<^verbatim>\<open>shmaddr > KERNBASE\<close> compares as unsigned while
  \<^verbatim>\<open>shmaddr < HEAPLIMIT\<close> compares as signed.
\<close>

definition bad_shmaddr :: "int \<Rightarrow> bool" where
  "bad_shmaddr shmaddr \<longleftrightarrow> u32_of_int shmaddr > KERNBASE \<or> shmaddr < HEAPLIMIT"

definition shmatHelper :: "int \<Rightarrow> int \<Rightarrow> int \<Rightarrow> 'a shm_scheme \<Rightarrow> (u32 \<times> 'a shm_scheme) res" where
  "shmatHelper shmid shmaddr shmflag s =
     (if shmid < 0 \<or> shmid > lastShmSegIndex s then Inr (u32_of_int EINVAL, s)
      else rbind (get_seg shmid s) (\<lambda>d.
        if int_of_u32 (shm_segsz d) = 0 then Inr (u32_of_int EIDRM, s)
        else
          let reqPages = seg_pages_int (shm_segsz d) in
          rbind (curproc s) (\<lambda>(p, s).
          if shmaddr = 0 then
            let index = first_fit (\<lambda>i. isAttached (shmsegs (ptable s p) i) = 0) (nat reqPages)
                  [0..<SHMMAXSEG] (- 1) 0
            in
            if index = - 1 then Inr (u32_of_int ENOMEM, s)
            else
              rbind (allocshmuvm shmid (u32_of_int (index * PGSIZE + HEAPLIMIT)) reqPages index shmflag s)
                (\<lambda>(va, s). if va = 0 then Inr (u32_of_int ENOMEM, s) else Inr (va, s))
          else if bad_shmaddr shmaddr then Inr (u32_of_int EINVAL, s)
          else if shmflag \<noteq> SHM_RND \<and> shmaddr mod PGSIZE \<noteq> 0 then Inr (u32_of_int EINVAL, s)
          else
            let va = (if shmflag = SHM_RND then PGROUNDDOWN (u32_of_int shmaddr) else 0);
                given_si = cdiv (int_of_u32 va - HEAPLIMIT) PGSIZE
            in
            rbind (any_attached [given_si..reqPages - 1] p s) (\<lambda>b.
            if b then Inr (u32_of_int EINVAL, s)
            else
              rbind (allocshmuvm shmid va reqPages given_si shmflag s)
                (\<lambda>(va, s). if va = 0 then Inr (u32_of_int ENOMEM, s) else Inr (va, s))))))"

primrec detach_loop :: "nat list \<Rightarrow> int \<Rightarrow> int \<Rightarrow> nat \<Rightarrow> 'a shm_scheme \<Rightarrow> 'a shm_scheme res" where
  "detach_loop [] shmid si p s = Inr s"
| "detach_loop (i # is) shmid si p s =
     rbind (upd_slot p (si + int i) (\<lambda>a. a\<lparr>isAttached := 0\<rparr>) s) (\<lambda>s.
     rbind (upd_seg (shmid + int i) (\<lambda>d. d\<lparr>shm_nattch := shm_nattch d - 1, shm_dtime := shm_now s,
         shm_lpid := pid (ptable s p)\<rparr>) s) (\<lambda>s.
     rbind (clearmapping (pgdir (ptable s p)) (u32_of_int ((si + int i) * PGSIZE + HEAPLIMIT)) s) (\<lambda>s.
     detach_loop is shmid si p s)))"

definition shmdtHelper :: "int \<Rightarrow> 'a shm_scheme \<Rightarrow> (int \<times> 'a shm_scheme) res" where
  "shmdtHelper shmaddr s =
     (if bad_shmaddr shmaddr then Inr (EINVAL, s)
      else
        let s = cmostime_r s in
        rbind (curproc s) (\<lambda>(p, s).
        let si = uint ((u32_of_int shmaddr - HEAPLIMIT) div PGSIZE) in
        rbind (get_slot p si s) (\<lambda>a.
        if isAttached a = 0 then Inr (EINVAL, s)
        else
          let shmid = at_shmid a in
          rbind (upd_slot p si (\<lambda>a. a\<lparr>isAttached := 0, at_shmid := - 1\<rparr>) s) (\<lambda>s.
          rbind (get_seg shmid s) (\<lambda>d.
          let reqPages = seg_pages_int (shm_segsz d) in
          rbind (acquire ShmLock s) (\<lambda>s.
          rbind (detach_loop [0..<nat reqPages] shmid si p s) (\<lambda>s.
          rbind (upd_seg shmid (set_mode (\<lambda>m. m OR SHM_DEST)) s) (\<lambda>s.
          rbind (release ShmLock s) (\<lambda>s. Inr (0, s))))))))))"

section \<open>Control and removal\<close>

text \<open>The layout of \<^verbatim>\<open>struct shmid_ds\<close> in user memory: ten words, the last one (\<^verbatim>\<open>pa\<close>) not copied.\<close>

primrec store_words :: "u32 list \<Rightarrow> u32 \<Rightarrow> 'a phys_scheme \<Rightarrow> 'a phys_scheme res" where
  "store_words [] va s = Inr s"
| "store_words (w # ws) va s = rbind (ustore32 va w s) (\<lambda>s. store_words ws (va + 4) s)"

definition shmid_words :: "shmid_ds \<Rightarrow> u32 list" where
  "shmid_words d = [u32_of_int (seg_key d), ip_mode (shm_perm d), shm_segsz d, u32_of_int (shm_atime d),
     u32_of_int (shm_dtime d), u32_of_int (shm_ctime d), u32_of_int (shm_cpid d),
     u32_of_int (shm_lpid d), shm_nattch d]"

definition load_shmid_ds :: "u32 \<Rightarrow> shmid_ds \<Rightarrow> 'a phys_scheme \<Rightarrow> shmid_ds res" where
  "load_shmid_ds buf d s =
     rbind (uload32 buf s) (\<lambda>key.
     rbind (uload32 (buf + 4) s) (\<lambda>mode.
     rbind (uload32 (buf + 8) s) (\<lambda>segsz.
     rbind (uload32 (buf + 12) s) (\<lambda>atime.
     rbind (uload32 (buf + 16) s) (\<lambda>dtime.
     rbind (uload32 (buf + 20) s) (\<lambda>ctime.
     rbind (uload32 (buf + 24) s) (\<lambda>cpid.
     rbind (uload32 (buf + 28) s) (\<lambda>lpid.
     rbind (uload32 (buf + 32) s) (\<lambda>nattch.
     Inr (d\<lparr>shm_perm := \<lparr>ip_key = int_of_u32 key, ip_mode = mode\<rparr>, shm_segsz := segsz,
       shm_atime := int_of_u32 atime, shm_dtime := int_of_u32 dtime, shm_ctime := int_of_u32 ctime,
       shm_cpid := int_of_u32 cpid, shm_lpid := int_of_u32 lpid, shm_nattch := nattch\<rparr>))))))))))"

primrec ipc_set_loop :: "nat list \<Rightarrow> int \<Rightarrow> u32 \<Rightarrow> 'a shm_scheme \<Rightarrow> 'a shm_scheme res" where
  "ipc_set_loop [] shmid buf s = Inr s"
| "ipc_set_loop (i # is) shmid buf s =
     rbind (get_seg (shmid + int i) s) (\<lambda>d.
     rbind (load_shmid_ds buf d s) (\<lambda>d.
     rbind (upd_seg (shmid + int i) (\<lambda>_. d) s) (\<lambda>s.
     ipc_set_loop is shmid buf s)))"

definition shmctlHelper :: "int \<Rightarrow> int \<Rightarrow> u32 \<Rightarrow> 'a shm_scheme \<Rightarrow> (int \<times> 'a shm_scheme) res" where
  "shmctlHelper shmid cmd buf s =
     (if shmid < 0 \<or> shmid > lastShmSegIndex s then Inr (EINVAL, s)
      else rbind (get_seg shmid s) (\<lambda>d.
        if seg_key d = - 1 then Inr (EIDRM, s)
        else if cmd = IPC_STAT then rbind (store_words (shmid_words d) buf s) (\<lambda>s. Inr (0, s))
        else if cmd = IPC_SET then
          (if ip_mode (shm_perm d) AND 1 \<noteq> 0 then Inr (- 1, s)
           else
             rbind (uload32 (buf + 8) s) (\<lambda>segsz.
             rbind (acquire ShmLock s) (\<lambda>s.
             rbind (ipc_set_loop [0..<seg_pages segsz] shmid buf s) (\<lambda>s.
             rbind (release ShmLock s) (\<lambda>s. Inr (0, s))))))
        else if cmd = IPC_RMID then
          rbind (upd_segs [0..<seg_pages (shm_segsz d)] shmid (set_mode (\<lambda>m. m OR SHM_DEST)) s) (\<lambda>s.
          Inr (0, s))
        else if cmd = IPC_INFO \<or> cmd = SHM_INFO then Inr (lastShmSegIndex s, s)
        else Inr (0, s)))"

primrec free_loop :: "nat list \<Rightarrow> int \<Rightarrow> 'a shm_scheme \<Rightarrow> 'a shm_scheme res" where
  "free_loop [] shmid s = Inr s"
| "free_loop (i # is) shmid s =
     rbind (upd_seg (shmid + int i) (\<lambda>d. d\<lparr>shm_perm := \<lparr>ip_key = - 1, ip_mode = 0\<rparr>, shm_segsz := 0,
         shm_atime := - 1, shm_dtime := - 1, shm_ctime := - 1, shm_cpid := - 1, shm_lpid := - 1,
         shm_nattch := 0\<rparr>) s) (\<lambda>s.
     rbind (get_seg (shmid + int i) s) (\<lambda>d.
     rbind (kfree (V2P (shm_pa d)) s) (\<lambda>s.
     rbind (upd_seg (shmid + int i) (\<lambda>d. d\<lparr>shm_pa := 0\<rparr>) s) (\<lambda>s.
     free_loop is shmid s))))"

definition freeshmPages :: "int \<Rightarrow> 'a shm_scheme \<Rightarrow> 'a shm_scheme res" where
  "freeshmPages shmid s =
     rbind (get_seg shmid s) (\<lambda>d. free_loop [0..<seg_pages (shm_segsz d)] shmid s)"

definition removeshmHelper :: "int \<Rightarrow> int \<Rightarrow> 'a shm_scheme \<Rightarrow> (int \<times> 'a shm_scheme) res" where
  "removeshmHelper shm_identifier flag s =
     rbind (if flag = 1
            then rbind (find_key shm_identifier s) (\<lambda>r. Inr (case r of
              Some i \<Rightarrow> (int i, int i)
            | None \<Rightarrow> (shm_identifier, max 0 (lastShmSegIndex s + 1))))
            else Inr (shm_identifier, 0)) (\<lambda>(shmid, i).
     if i = lastShmSegIndex s + 1 \<or> shmid = lastShmSegIndex s + 1 then Inr (- 1, s)
     else
       rbind (get_seg shmid s) (\<lambda>d.
       rbind (upd_segs [0..<seg_pages (shm_segsz d)] shmid (set_mode (\<lambda>_. SHM_DEST)) s) (\<lambda>s.
       rbind (get_seg shmid s) (\<lambda>d.
       if shm_nattch d = 0 \<and> ip_mode (shm_perm d) AND SHM_DEST \<noteq> 0
       then rbind (freeshmPages shmid s) (\<lambda>s. Inr (0, s))
       else Inr (- 1, s)))))"

end
