(* ===== verification/ProcInv.thy ===== *)
theory ProcInv
  imports Proc
begin

text \<open>
  Properties of the process table operations: what \<^verbatim>\<open>sleep\<close>, \<^verbatim>\<open>wakeup\<close>, \<^verbatim>\<open>kill\<close>,
  \<^verbatim>\<open>yield\<close> and the scheduler do to the table, and the invariant of the transition system
  they make: a process is in state \<open>RUNNING\<close> exactly when it is the current process of one
  CPU, and process ids are unique.
\<close>

section \<open>Frames\<close>

text \<open>Lock and interrupt bookkeeping leaves everything else of the state alone.\<close>

definition mach_frame :: "'a mach_scheme \<Rightarrow> 'a mach_scheme \<Rightarrow> bool" where
  "mach_frame s t \<longleftrightarrow> curcpu t = curcpu s \<and> mach.more t = mach.more s
     \<and> (\<forall>c. cpu_proc (cpus t c) = cpu_proc (cpus s c))"

lemma mach_frame_refl [simp, intro]: "mach_frame s s"
  by (simp add: mach_frame_def)

lemma mach_frame_trans: "mach_frame s t \<Longrightarrow> mach_frame t u \<Longrightarrow> mach_frame s u"
  by (simp add: mach_frame_def)

lemma mach_frame_pushcli: "pushcli s = Inr t \<Longrightarrow> mach_frame s t"
  by (auto simp: pushcli_eq mach_frame_def)

lemma mach_frame_popcli: "popcli s = Inr t \<Longrightarrow> mach_frame s t"
  by (auto simp: popcli_def cpu_simps mach_frame_def split: if_splits)

lemma mach_frame_holding:
  assumes "holding lk s = Inr (b, t)"
  shows "mach_frame s t"
proof -
  from assms obtain u c where "pushcli s = Inr u" "popcli u = Inr t"
    by (auto simp: holding_def rbind_Inr_iff Let_def)
  then show ?thesis
    by (blast intro: mach_frame_trans mach_frame_pushcli mach_frame_popcli)
qed

lemma mach_frame_locks: "mach_frame s (s\<lparr>locks := ls\<rparr>)"
  by (simp add: mach_frame_def)

lemma mach_frame_acquire:
  assumes "acquire lk s = Inr t"
  shows "mach_frame s t"
proof -
  from assms obtain u v ls where "pushcli s = Inr u" "holding lk u = Inr (False, v)" "t = v\<lparr>locks := ls\<rparr>"
    by (auto simp: acquire_def rbind_Inr_iff split: if_splits)
  then show ?thesis
    by (blast intro: mach_frame_trans mach_frame_pushcli mach_frame_holding mach_frame_locks)
qed

lemma mach_frame_release:
  assumes "release lk s = Inr t"
  shows "mach_frame s t"
proof -
  from assms obtain u ls where "holding lk s = Inr (True, u)" "popcli (u\<lparr>locks := ls\<rparr>) = Inr t"
    by (auto simp: release_def rbind_Inr_iff split: if_splits)
  then show ?thesis
    by (blast intro: mach_frame_trans mach_frame_popcli mach_frame_holding mach_frame_locks)
qed

lemma mach_frame_myproc:
  assumes "myproc s = Inr (p, t)"
  shows "mach_frame s t" "p = cpu_proc (cpus s (curcpu s))"
proof -
  from assms obtain u c where u: "pushcli s = Inr u" "mycpu u = Inr c" "p = cpu_proc (cpus u c)" "popcli u = Inr t"
    by (auto simp: myproc_def rbind_Inr_iff Let_def)
  then show "mach_frame s t"
    by (blast intro: mach_frame_trans mach_frame_pushcli mach_frame_popcli)
  show "p = cpu_proc (cpus s (curcpu s))"
    using u mach_frame_pushcli [OF u(1)] by (auto simp: mycpu_def mach_frame_def split: if_splits)
qed

lemma mach_frame_curproc:
  assumes "curproc s = Inr (p, t)"
  shows "mach_frame s t" "cpu_proc (cpus s (curcpu s)) = Some p"
proof -
  from assms have my: "myproc s = Inr (Some p, t)"
    unfolding curproc_def rbind_Inr_iff by (auto split: option.splits)
  show "mach_frame s t" by (rule mach_frame_myproc(1) [OF my])
  show "cpu_proc (cpus s (curcpu s)) = Some p" by (rule mach_frame_myproc(2) [OF my, symmetric])
qed

lemma mach_frame_procs:
  fixes s t :: "'a procs_scheme"
  assumes "mach_frame s t"
  shows "ptable t = ptable s" "nextpid t = nextpid s" "initproc t = initproc s"
    "mem t = mem s" "kend t = kend s" "cr3 t = cr3 s" "freelist t = freelist s" "use_lock t = use_lock s"
proof -
  have "t = s\<lparr>eflags_IF := eflags_IF t, cpus := cpus t, locks := locks t\<rparr>"
    by (rule mach.equality) (use assms in \<open>simp_all add: mach_frame_def\<close>)
  then obtain e cs ls where t: "t = s\<lparr>eflags_IF := e, cpus := cs, locks := ls\<rparr>" ..
  show "ptable t = ptable s" "nextpid t = nextpid s" "initproc t = initproc s"
    "mem t = mem s" "kend t = kend s" "cr3 t = cr3 s" "freelist t = freelist s" "use_lock t = use_lock s"
    unfolding t by simp_all
qed

lemma myproc_eq:
  assumes "cli_ok s"
  shows "myproc s = Inr (cpu_proc (cpus s (curcpu s)), settled s)"
  using assms
  by (auto simp: myproc_def pushcli_eq popcli_def cpu_simps settled_def cli_ok_def
      intro!: mach.equality cpu.equality ext)

section \<open>Closed forms\<close>

lemma wakeup1_loop_eq:
  "distinct ps \<Longrightarrow> wakeup1_loop ps ch s = s\<lparr>ptable := (\<lambda>p.
     if p \<in> set ps \<and> pstate (ptable s p) = SLEEPING \<and> chan (ptable s p) = ch
     then (ptable s p)\<lparr>pstate := RUNNABLE\<rparr> else ptable s p)\<rparr>"
proof (induction ps arbitrary: s)
  case Nil
  show ?case by simp
next
  case (Cons p ps)
  then have "p \<notin> set ps" "distinct ps" by auto
  then show ?case
    using Cons.IH by (auto simp: upd_proc_def fun_eq_iff intro!: procs.equality)
qed

definition woken :: "chan \<Rightarrow> (nat \<Rightarrow> proc) \<Rightarrow> nat \<Rightarrow> proc" where
  "woken ch pt p = (if p < NPROC \<and> pstate (pt p) = SLEEPING \<and> chan (pt p) = ch
     then (pt p)\<lparr>pstate := RUNNABLE\<rparr> else pt p)"

lemma wakeup1_eq: "wakeup1 ch s = s\<lparr>ptable := woken ch (ptable s)\<rparr>"
  by (simp add: wakeup1_def wakeup1_loop_eq woken_def [abs_def])

lemma settled_as_upd: "settled s = s\<lparr>eflags_IF := eflags_IF s, cpus := cpus (settled s), locks := locks s\<rparr>"
  by (rule mach.equality) simp_all

text \<open>A critical section that changes only fields beyond the machine's own.\<close>

lemma release_section:
  fixes s t :: "'a procs_scheme"
  assumes "cli_ok s" "lock_free lk s" "t = (enter lk s)\<lparr>ptable := pt\<rparr>"
  shows "release lk t = Inr ((settled s)\<lparr>ptable := pt\<rparr>)"
proof -
  have "release lk t = Inr (t\<lparr>eflags_IF := eflags_IF s, cpus := cpus (settled s), locks := locks s\<rparr>)"
    by (rule release_enter [OF assms(1,2)]) (simp_all add: assms(3))
  also have "t\<lparr>eflags_IF := eflags_IF s, cpus := cpus (settled s), locks := locks s\<rparr>
      = (settled s)\<lparr>ptable := pt\<rparr>"
    unfolding assms(3) enter_def Let_def by (subst settled_as_upd) simp
  finally show ?thesis .
qed

lemma enter_ptable [simp]: "ptable (enter lk s) = ptable s"
  for s :: "'a procs_scheme"
  by (simp add: enter_def Let_def)

lemma wakeup_eq:
  assumes "cli_ok s" "lock_free PtableLock s"
  shows "wakeup ch s = Inr ((settled s)\<lparr>ptable := woken ch (ptable s)\<rparr>)"
  using assms by (simp add: wakeup_def acquire_free wakeup1_eq release_section)

section \<open>What each operation does to the table and to the current processes\<close>

abbreviation running :: "'a mach_scheme \<Rightarrow> nat \<Rightarrow> nat option" where
  "running s c \<equiv> cpu_proc (cpus s c)"

definition sched_frame :: "'a procs_scheme \<Rightarrow> 'a procs_scheme \<Rightarrow> (nat \<Rightarrow> proc) \<Rightarrow> bool" where
  "sched_frame s t pt \<longleftrightarrow> curcpu t = curcpu s \<and> (\<forall>c. running t c = running s c)
     \<and> ptable t = pt \<and> nextpid t = nextpid s"

lemma sched_frame_mach: "mach_frame s t \<Longrightarrow> sched_frame s t (ptable s)"
  using mach_frame_procs(1,2) [of s t] by (simp add: sched_frame_def mach_frame_def)

lemma sched_frame_upd: "sched_frame s (upd_proc p f s) ((ptable s)(p := f (ptable s p)))"
  by (simp add: sched_frame_def upd_proc_def)

lemma sched_frame_trans: "sched_frame s t pt \<Longrightarrow> sched_frame t u pu \<Longrightarrow> sched_frame s u pu"
  by (simp add: sched_frame_def)

lemma sched_frameD:
  assumes "sched_frame s t pt"
  shows "ptable t = pt" "curcpu t = curcpu s" "running t c = running s c" "nextpid t = nextpid s"
  using assms by (simp_all add: sched_frame_def)

lemma sched_frame_phys: "sched_frame s (s\<lparr>mem := m\<rparr>) (ptable s)" "sched_frame s (s\<lparr>freelist := f\<rparr>) (ptable s)"
  by (simp_all add: sched_frame_def)

lemma sched_out_frame: "sched_out s = Inr (j, t) \<Longrightarrow> sched_frame s t (ptable s)"
proof -
  assume "sched_out s = Inr (j, t)"
  then obtain p u h where "myproc s = Inr (p, u)" "holding PtableLock u = Inr (h, t)"
    unfolding sched_out_def rbind_Inr_iff by (auto split: if_splits option.splits simp: rbind_Inr_iff)
  then show ?thesis
    by (blast intro: sched_frame_mach mach_frame_trans mach_frame_myproc(1) mach_frame_holding)
qed

lemma yield_out_frame:
  assumes "yield_out s = Inr (j, t)"
  obtains p where "running s (curcpu s) = Some p"
    "sched_frame s t ((ptable s)(p := (ptable s p)\<lparr>pstate := RUNNABLE\<rparr>))"
proof -
  from assms obtain s1 p s2 where st: "acquire PtableLock s = Inr s1" "curproc s1 = Inr (p, s2)"
    "sched_out (upd_proc p (\<lambda>q. q\<lparr>pstate := RUNNABLE\<rparr>) s2) = Inr (j, t)"
    unfolding yield_out_def rbind_Inr_iff by auto
  have m1: "mach_frame s s1" using st(1) by (rule mach_frame_acquire)
  have m2: "mach_frame s s2" using m1 mach_frame_curproc(1) [OF st(2)] by (rule mach_frame_trans)
  have pt: "ptable s2 = ptable s" using mach_frame_procs(1) [OF m2] .
  have "running s (curcpu s) = Some p"
    using mach_frame_curproc(2) [OF st(2)] m1 by (simp add: mach_frame_def)
  moreover have "sched_frame s t ((ptable s)(p := (ptable s p)\<lparr>pstate := RUNNABLE\<rparr>))"
    using sched_frame_trans [OF sched_frame_trans [OF sched_frame_mach [OF m2] sched_frame_upd] sched_out_frame [OF st(3)]]
    by (simp add: upd_proc_def pt)
  ultimately show thesis by (rule that)
qed

lemma sleep_out_frame:
  assumes "sleep_out ch lk s = Inr (j, t)"
  obtains p where "running s (curcpu s) = Some p"
    "sched_frame s t ((ptable s)(p := (ptable s p)\<lparr>chan := ch, pstate := SLEEPING\<rparr>))"
proof -
  obtain p l where some: "fst (projr (myproc s)) = Some p" "lk = Some l"
    using assms unfolding sleep_out_def rbind_Inr_iff by (cases lk) (auto split: option.splits)
  obtain s1 where my: "myproc s = Inr (Some p, s1)"
    using assms some(1) unfolding sleep_out_def by (auto elim!: rbind_InrE)
  obtain s2 where st: "myproc s = Inr (Some p, s1)"
    "(if l \<noteq> PtableLock then rbind (acquire PtableLock s1) (\<lambda>s. release l s) else Inr s1) = Inr s2"
    "sched_out (upd_proc p (\<lambda>q. q\<lparr>chan := ch, pstate := SLEEPING\<rparr>) s2) = Inr (j, t)"
    using assms my unfolding sleep_out_def some(2) by (auto elim!: rbind_InrE split: if_splits)
  have m1: "mach_frame s s1" using st(1) by (rule mach_frame_myproc(1))
  have "mach_frame s1 s2"
    using st(2)
    by (auto elim!: rbind_InrE split: if_splits
        intro: mach_frame_trans [OF mach_frame_acquire mach_frame_release])
  with m1 have m2: "mach_frame s s2" by (rule mach_frame_trans)
  have pt: "ptable s2 = ptable s" using mach_frame_procs(1) [OF m2] .
  have "running s (curcpu s) = Some p" using mach_frame_myproc(2) [OF st(1)] by simp
  moreover have "sched_frame s t ((ptable s)(p := (ptable s p)\<lparr>chan := ch, pstate := SLEEPING\<rparr>))"
    using sched_frame_trans [OF sched_frame_trans [OF sched_frame_mach [OF m2] sched_frame_upd] sched_out_frame [OF st(3)]]
    by (simp add: upd_proc_def pt)
  ultimately show thesis by (rule that)
qed

text \<open>Changes to the table that neither start nor stop a process nor touch ids.\<close>

definition quiet :: "(nat \<Rightarrow> proc) \<Rightarrow> (nat \<Rightarrow> proc) \<Rightarrow> bool" where
  "quiet pt pt' \<longleftrightarrow> (\<forall>q. pid (pt' q) = pid (pt q)
     \<and> (pstate (pt' q) = RUNNING \<longleftrightarrow> pstate (pt q) = RUNNING)
     \<and> (pstate (pt' q) = UNUSED \<longleftrightarrow> pstate (pt q) = UNUSED))"

lemma quiet_refl [simp, intro]: "quiet pt pt"
  by (simp add: quiet_def)

lemma quiet_trans: "quiet pt pu \<Longrightarrow> quiet pu pv \<Longrightarrow> quiet pt pv"
  by (simp add: quiet_def)

lemma quiet_woken: "quiet pt (woken ch pt)"
  by (simp add: quiet_def woken_def)

lemma quiet_reparent: "\<exists>pt. reparent_loop qs p s = s\<lparr>ptable := pt\<rparr> \<and> quiet (ptable s) pt"
proof (induction qs arbitrary: s)
  case Nil
  show ?case by (intro exI [of _ "ptable s"]) simp
next
  case (Cons q qs)
  let ?s = "if parent (ptable s q) = Some p then
          let s = upd_proc q (\<lambda>r. r\<lparr>parent := initproc s\<rparr>) s in
          if pstate (ptable s q) = ZOMBIE then wakeup1 (proc_chan (initproc s)) s else s
        else s"
  have upd: "quiet (ptable s) ((ptable s)(q := (ptable s q)\<lparr>parent := initproc s\<rparr>))"
    by (simp add: quiet_def)
  have one: "\<exists>pt. ?s = s\<lparr>ptable := pt\<rparr> \<and> quiet (ptable s) pt"
  proof (cases "parent (ptable s q) = Some p")
    case True
    then show ?thesis
      using quiet_trans [OF upd quiet_woken] upd
      by (cases "pstate (ptable s q) = ZOMBIE") (auto simp: upd_proc_def wakeup1_eq Let_def)
  next
    case False
    then show ?thesis by (intro exI [of _ "ptable s"]) simp
  qed
  then obtain pt where pt: "?s = s\<lparr>ptable := pt\<rparr>" "quiet (ptable s) pt" by blast
  obtain pu where pu: "reparent_loop qs p ?s = ?s\<lparr>ptable := pu\<rparr>" "quiet (ptable ?s) pu"
    using Cons.IH by blast
  have "reparent_loop (q # qs) p s = s\<lparr>ptable := pu\<rparr>" using pu(1) unfolding reparent_loop.simps pt(1) by simp
  moreover have "quiet (ptable s) pu" using quiet_trans [OF pt(2)] pu(2) unfolding pt(1) by simp
  ultimately show ?case by blast
qed

text \<open>Memory management does not touch the process table.\<close>

abbreviation off_table :: "'a procs_scheme \<Rightarrow> 'a procs_scheme \<Rightarrow> bool" where
  "off_table s t \<equiv> sched_frame s t (ptable s)"

lemma off_table_trans: "off_table s t \<Longrightarrow> off_table t u \<Longrightarrow> off_table s u"
  by (simp add: sched_frame_def)

lemma off_table_then: "off_table s t \<Longrightarrow> sched_frame t u (f (ptable t)) \<Longrightarrow> sched_frame s u (f (ptable s))"
  by (simp add: sched_frame_def)

lemma off_table_refl [simp, intro]: "off_table s s"
  by (simp add: sched_frame_def)

lemma off_table_kmem:
  "kmem_acquire s = Inr t \<Longrightarrow> off_table s t" "kmem_release s = Inr t \<Longrightarrow> off_table s t"
  by (auto simp: kmem_acquire_def kmem_release_def split: if_splits
      intro: sched_frame_mach mach_frame_acquire mach_frame_release)

lemma off_table_kfree:
  assumes "kfree v s = Inr t"
  shows "off_table s t"
proof -
  obtain u where u: "kmem_acquire (s\<lparr>mem := memset (mem s) v 1 PGSIZE\<rparr>) = Inr u"
    "kmem_release (u\<lparr>mem := store32 (mem u) v (freelist u), freelist := v\<rparr>) = Inr t"
    using assms unfolding kfree_def by (auto simp: Let_def elim!: rbind_InrE split: if_splits)
  have "off_table s u"
    using off_table_trans [OF sched_frame_phys(1) off_table_kmem(1) [OF u(1)]] .
  moreover have "off_table u (u\<lparr>mem := store32 (mem u) v (freelist u), freelist := v\<rparr>)"
    by (simp add: sched_frame_def)
  ultimately show ?thesis using off_table_kmem(2) [OF u(2)] off_table_trans by blast
qed

lemma off_table_kalloc:
  assumes "kalloc s = Inr (k, t)"
  shows "off_table s t"
proof -
  obtain u where u: "kmem_acquire s = Inr u"
    "kmem_release (if freelist u \<noteq> 0 then u\<lparr>freelist := load32 (mem u) (freelist u)\<rparr> else u) = Inr t"
    using assms unfolding kalloc_def by (auto simp: Let_def elim!: rbind_InrE split: if_splits)
  have "off_table u (if freelist u \<noteq> 0 then u\<lparr>freelist := load32 (mem u) (freelist u)\<rparr> else u)"
    by (simp add: sched_frame_def)
  then show ?thesis
    using off_table_kmem(1) [OF u(1)] off_table_kmem(2) [OF u(2)] off_table_trans by blast
qed

lemma off_table_dealloc_page:
  assumes "dealloc_page pd a s = Inr (skip, t)"
  shows "off_table s t"
  using assms unfolding dealloc_page_def walkpgdir_lookup
  by (auto simp: Let_def elim!: rbind_InrE split: if_splits
      intro: off_table_trans [OF off_table_kfree sched_frame_phys(1)])

lemma off_table_deallocuvm_loop: "deallocuvm_loop pd a oldsz s = Inr t \<Longrightarrow> off_table s t"
proof (induction pd a oldsz s arbitrary: t rule: deallocuvm_loop.induct)
  case (1 pd a oldsz s)
  show ?case
  proof (cases "a < oldsz")
    case True
    with "1.prems" obtain skip u where u: "dealloc_page pd a s = Inr (skip, u)"
      "a < dealloc_next a skip" "deallocuvm_loop pd (dealloc_next a skip) oldsz u = Inr t"
      by (subst (asm) deallocuvm_loop.simps) (auto simp: Let_def elim!: rbind_InrE split: if_splits)
    have "off_table u t" by (rule "1.IH" [OF True u(1) refl refl u(2,3)])
    then show ?thesis using off_table_dealloc_page [OF u(1)] off_table_trans by blast
  next
    case False
    with "1.prems" show ?thesis by (subst (asm) deallocuvm_loop.simps) auto
  qed
qed

lemma off_table_deallocuvm: "deallocuvm pd oldsz newsz s = Inr (r, t) \<Longrightarrow> off_table s t"
  by (auto simp: deallocuvm_def elim!: rbind_InrE split: if_splits dest: off_table_deallocuvm_loop)

lemma off_table_freevm_tables: "freevm_tables is pd s = Inr t \<Longrightarrow> off_table s t"
proof (induction "is" arbitrary: s)
  case (Cons i "is")
  then show ?case
    by (auto elim!: rbind_InrE split: if_splits intro: off_table_trans [OF off_table_kfree])
qed simp

lemma off_table_freevm:
  assumes "freevm pd s = Inr t"
  shows "off_table s t"
proof -
  obtain r u v where "deallocuvm pd HEAPLIMIT 0 s = Inr (r, u)"
    "freevm_tables (map of_nat [0..<NPDENTRIES]) pd u = Inr v" "kfree pd v = Inr t"
    using assms unfolding freevm_def by (auto elim!: rbind_InrE split: if_splits simp del: upt_rec_numeral)
  then show ?thesis
    by (blast intro: off_table_trans off_table_deallocuvm off_table_freevm_tables off_table_kfree)
qed

lemma reap_frame:
  assumes "reap p s = Inr (i, t)"
  obtains q where "sched_frame s t ((ptable s)(p := q))" "pstate q = UNUSED" "i = pid (ptable s p)"
proof -
  obtain u v where u: "kfree (kstack (ptable s p)) s = Inr u"
    "freevm (pgdir (ptable u p)) (upd_proc p (\<lambda>q. q\<lparr>kstack := 0\<rparr>) u) = Inr v"
    "t = upd_proc p (\<lambda>q. q\<lparr>pid := 0, parent := None, pname := [], killed := False, pstate := UNUSED\<rparr>) v"
    "i = pid (ptable s p)"
    using assms unfolding reap_def by (auto simp: Let_def upd_proc_def elim!: rbind_InrE)
  let ?r = "(ptable s p)\<lparr>kstack := 0\<rparr>"
  let ?q = "?r\<lparr>pid := 0, parent := None, pname := [], killed := False, pstate := UNUSED\<rparr>"
  have "sched_frame s v ((ptable s)(p := ?r))"
    using off_table_kfree [OF u(1)] off_table_freevm [OF u(2)]
    by (simp add: sched_frame_def upd_proc_def)
  then have "sched_frame s t ((ptable s)(p := ?q))"
    using sched_frame_trans [OF _ sched_frame_upd]
    unfolding u(3) by (fastforce simp: sched_frame_def upd_proc_def)
  then show thesis using that u(4) by simp
qed

lemma wait_scan_frame:
  assumes "wait_scan ps cur hk s = Inr (r, hk', t)"
  shows "r = None \<and> t = s \<or> (\<exists>p \<in> set ps. \<exists>q. pstate (ptable s p) = ZOMBIE \<and> parent (ptable s p) = Some cur
    \<and> sched_frame s t ((ptable s)(p := q)) \<and> pstate q = UNUSED \<and> r = Some (pid (ptable s p)))"
  using assms
proof (induction ps arbitrary: hk)
  case (Cons p ps)
  show ?case
  proof (cases "parent (ptable s p) = Some cur \<and> pstate (ptable s p) = ZOMBIE")
    case True
    with Cons.prems obtain i where i: "reap p s = Inr (i, t)" "r = Some i" by (auto elim!: rbind_InrE)
    from reap_frame [OF i(1)] show ?thesis using True i(2) by (metis list.set_intros(1))
  next
    case False
    then obtain hk'' where "wait_scan ps cur hk'' s = Inr (r, hk', t)"
      using Cons.prems by (auto split: if_splits)
    from Cons.IH [OF this] show ?thesis by auto
  qed
qed simp

lemma switchuvm_frame:
  assumes "switchuvm p s = Inr t"
  shows "off_table s t"
proof -
  obtain q where p: "p = Some q" using assms by (cases p) (auto simp: switchuvm_def)
  obtain u c f v where u: "pushcli s = Inr u"
    "popcli ((upd_cpu (\<lambda>c. c\<lparr>ts_ss0 := 16, ts_esp0 := f, ts_iomb := 0xFFFF\<rparr>) u)\<lparr>cr3 := v\<rparr>) = Inr t"
    using assms unfolding p switchuvm_def by (auto simp: Let_def elim!: rbind_InrE split: if_splits)
  have "off_table s u" using u(1) by (intro sched_frame_mach mach_frame_pushcli)
  moreover have "off_table u ((upd_cpu (\<lambda>c. c\<lparr>ts_ss0 := 16, ts_esp0 := f, ts_iomb := 0xFFFF\<rparr>) u)\<lparr>cr3 := v\<rparr>)"
    by (simp add: sched_frame_def upd_cpu_def)
  ultimately show ?thesis
    using sched_frame_mach [OF mach_frame_popcli [OF u(2)]] off_table_trans by blast
qed

lemma scheduler_out_frame:
  assumes "scheduler_out p s = Inr (Some t)"
  shows "curcpu t = curcpu s" "running t = (running s)(curcpu s := Some p)" "nextpid t = nextpid s"
    "ptable t = (ptable s)(p := (ptable s p)\<lparr>pstate := RUNNING\<rparr>)" "pstate (ptable s p) = RUNNABLE"
proof -
  obtain u where u: "switchuvm (Some p) (upd_cpu (\<lambda>c. c\<lparr>cpu_proc := Some p\<rparr>) s) = Inr u"
    "t = upd_proc p (\<lambda>q. q\<lparr>pstate := RUNNING\<rparr>) u" "pstate (ptable s p) = RUNNABLE"
    using assms unfolding scheduler_out_def by (auto simp: Let_def elim!: rbind_InrE split: if_splits)
  note f = switchuvm_frame [OF u(1)]
  show "curcpu t = curcpu s" "running t = (running s)(curcpu s := Some p)" "nextpid t = nextpid s"
    "ptable t = (ptable s)(p := (ptable s p)\<lparr>pstate := RUNNING\<rparr>)" "pstate (ptable s p) = RUNNABLE"
    using f u(3) unfolding u(2) by (auto simp: sched_frame_def upd_proc_def upd_cpu_def)
qed

lemma scheduler_in_frame:
  "curcpu (scheduler_in s) = curcpu s" "running (scheduler_in s) = (running s)(curcpu s := None)"
  "nextpid (scheduler_in s) = nextpid s" "ptable (scheduler_in s) = ptable s"
  by (auto simp: scheduler_in_def switchkvm_def upd_cpu_def)

lemma sched_in_frame: "sched_in i s = Inr t \<Longrightarrow> off_table s t"
  by (auto simp: sched_in_def sched_frame_def upd_cpu_def elim!: rbind_InrE)

lemma exit_sched_frame:
  assumes "exit_sched p s = Inr (j, t)"
  obtains pt where "quiet (ptable s) pt" "sched_frame s t (pt(p := (pt p)\<lparr>pstate := ZOMBIE\<rparr>))"
proof -
  obtain u where u: "acquire PtableLock s = Inr u"
    "sched_out (upd_proc p (\<lambda>q. q\<lparr>pstate := ZOMBIE\<rparr>)
       (reparent_loop [0..<NPROC] p (wakeup1 (proc_chan (parent (ptable u p))) u))) = Inr (j, t)"
    using assms unfolding exit_sched_def by (auto simp: Let_def elim!: rbind_InrE simp del: upt_rec_numeral)
  note fu = sched_frame_mach [OF mach_frame_acquire [OF u(1)]]
  let ?w = "wakeup1 (proc_chan (parent (ptable u p))) u"
  obtain pt where pt: "reparent_loop [0..<NPROC] p ?w = ?w\<lparr>ptable := pt\<rparr>" "quiet (ptable ?w) pt"
    using quiet_reparent by blast
  have "quiet (ptable s) pt"
    using pt(2) quiet_trans [OF quiet_woken] sched_frameD(1) [OF fu] by (simp add: wakeup1_eq)
  moreover have "sched_frame s t (pt(p := (pt p)\<lparr>pstate := ZOMBIE\<rparr>))"
    using fu sched_out_frame [OF u(2)[unfolded pt(1)]] by (simp add: sched_frame_def upd_proc_def wakeup1_eq)
  ultimately show thesis by (rule that)
qed

lemma wakeup_frame: "wakeup ch s = Inr t \<Longrightarrow> sched_frame s t (woken ch (ptable s))"
proof -
  assume "wakeup ch s = Inr t"
  then obtain u where u: "acquire PtableLock s = Inr u" "release PtableLock (wakeup1 ch u) = Inr t"
    by (auto simp: wakeup_def elim!: rbind_InrE)
  show ?thesis
    using sched_frame_mach [OF mach_frame_acquire [OF u(1)]] sched_frame_mach [OF mach_frame_release [OF u(2)]]
    by (simp add: sched_frame_def wakeup1_eq)
qed

lemma kill_frame:
  assumes "kill i s = Inr (r, t)"
  obtains pt where "quiet (ptable s) pt" "sched_frame s t pt"
proof -
  obtain u where u: "acquire PtableLock s = Inr u" using assms by (auto simp: kill_def elim!: rbind_InrE)
  note fu = sched_frame_mach [OF mach_frame_acquire [OF u(1)]]
  have "\<exists>pt. quiet (ptable u) pt \<and> release PtableLock (u\<lparr>ptable := pt\<rparr>) = Inr t"
  proof (cases "find (\<lambda>p. pid (ptable u p) = i) [0..<NPROC]")
    case None
    then have "release PtableLock u = Inr t" using assms u by (auto simp: kill_def elim!: rbind_InrE simp del: upt_rec_numeral)
    then show ?thesis by (intro exI [of _ "ptable u"]) simp
  next
    case (Some p)
    let ?pt = "(ptable u)(p := (ptable u p)\<lparr>killed := True,
      pstate := (if pstate (ptable u p) = SLEEPING then RUNNABLE else pstate (ptable u p))\<rparr>)"
    have "release PtableLock (u\<lparr>ptable := ?pt\<rparr>) = Inr t"
      using assms u Some unfolding kill_def
      by (auto simp: Let_def upd_proc_def elim!: rbind_InrE split: if_splits simp del: upt_rec_numeral)
    moreover have "quiet (ptable u) ?pt" by (simp add: quiet_def)
    ultimately show ?thesis by blast
  qed
  then obtain pt where v: "quiet (ptable u) pt" "release PtableLock (u\<lparr>ptable := pt\<rparr>) = Inr t" by blast
  have "sched_frame s t pt"
    using fu sched_frame_mach [OF mach_frame_release [OF v(2)]] by (simp add: sched_frame_def)
  then show thesis using that v(1) sched_frameD(1) [OF fu] by simp
qed

lemma find_index_Some:
  assumes "find P [0..<n] = Some p"
  shows "p < n" "P p" "\<And>q. q < p \<Longrightarrow> \<not> P q"
  using assms by (auto simp: find_Some_iff simp del: upt_rec_numeral)

lemma find_index_None: "find P [0..<n] = None \<longleftrightarrow> (\<forall>p < n. \<not> P p)"
  by (auto simp: find_None_iff)

definition same_running :: "'a mach_scheme \<Rightarrow> 'a mach_scheme \<Rightarrow> bool" where
  "same_running s t \<longleftrightarrow> curcpu t = curcpu s \<and> (\<forall>c. running t c = running s c)"

text \<open>A new kernel stack: the trap frame on top, below it the return address and the context.\<close>

definition new_stack :: "'a procs_scheme \<Rightarrow> u32 \<Rightarrow> memory" where
  "new_stack s k = store32 (memset (store32 (mem s) (4016 + k) (trapret_eip s)) (3996 + k) 0 20)
     (4012 + k) (forkret_eip s)"

lemma allocproc_frame:
  assumes "allocproc s = Inr (r, t)"
  obtains (none) "r = None" "off_table s t"
  | (slot) p q where "p < NPROC" "pstate (ptable s p) = UNUSED" "same_running s t"
    "ptable t = (ptable s)(p := q)" "nextpid t = nextpid s + 1" "pid q = nextpid s"
    "r = Some p \<and> pstate q = EMBRYO \<or> r = None \<and> pstate q = UNUSED"
proof -
  obtain u where u: "acquire PtableLock s = Inr u" using assms by (auto simp: allocproc_def elim!: rbind_InrE)
  note fu = sched_frame_mach [OF mach_frame_acquire [OF u]]
  show thesis
  proof (cases "find (\<lambda>i. pstate (ptable u i) = UNUSED) [0..<NPROC]")
    case None
    then have "release PtableLock u = Inr t" "r = None"
      using assms u by (auto simp: allocproc_def elim!: rbind_InrE simp del: upt_rec_numeral)
    then show thesis
      using none off_table_trans [OF fu] sched_frame_mach [OF mach_frame_release] by blast
  next
    case (Some p)
    let ?v = "(upd_proc p (\<lambda>q. q\<lparr>pstate := EMBRYO, pid := nextpid u\<rparr>) u)\<lparr>nextpid := nextpid u + 1\<rparr>"
    obtain v k w where v: "release PtableLock ?v = Inr v" "kalloc v = Inr (k, w)"
      "k = 0 \<Longrightarrow> r = None \<and> t = upd_proc p (\<lambda>q. q\<lparr>kstack := k, pstate := UNUSED\<rparr>) w"
      "k \<noteq> 0 \<Longrightarrow> r = Some p \<and> t = (upd_proc p (\<lambda>q. q\<lparr>kstack := k, tf := 4020 + k, context_p := 3996 + k\<rparr>) w)
          \<lparr>mem := new_stack w k\<rparr>"
      using assms u Some unfolding allocproc_def
      by (auto simp: Let_def upd_proc_def new_stack_def elim!: rbind_InrE split: if_splits
          simp del: upt_rec_numeral)
    have w: "sched_frame ?v w (ptable ?v)"
      using off_table_trans [OF sched_frame_mach [OF mach_frame_release [OF v(1)]] off_table_kalloc [OF v(2)]] .
    have p: "p < NPROC" "pstate (ptable s p) = UNUSED"
      using find_index_Some [OF Some] sched_frameD(1) [OF fu] by auto
    have run: "curcpu w = curcpu s" "\<And>c. running w c = running s c" "nextpid w = nextpid s + 1"
      "ptable w = (ptable s)(p := (ptable s p)\<lparr>pstate := EMBRYO, pid := nextpid s\<rparr>)"
      using w fu by (simp_all add: sched_frame_def upd_proc_def)
    show thesis
    proof (cases "k = 0")
      case True
      then show thesis
        using v(3) run p by (intro slot [of p "(ptable w p)\<lparr>kstack := k, pstate := UNUSED\<rparr>"])
          (auto simp: same_running_def upd_proc_def)
    next
      case False
      then show thesis
        using v(4) run p
        by (intro slot [of p "(ptable w p)\<lparr>kstack := k, tf := 4020 + k, context_p := 3996 + k\<rparr>"])
          (auto simp: same_running_def upd_proc_def)
    qed
  qed
qed

end
