(* ===== verification/ShmInv.thy ===== *)
theory ShmInv
  imports Shm ProcInv
begin

text \<open>
  The invariant of the segment table and what the operations of \<^verbatim>\<open>shm.c\<close> do under it:
  \<^verbatim>\<open>shmget\<close> takes the first run of free entries that is large enough, never touches the
  entries of another segment, and gives the new segment zeroed pages of its own; removing a
  segment gives all of its pages back.
\<close>

section \<open>First fit\<close>

definition free_run :: "(nat \<Rightarrow> bool) \<Rightarrow> nat \<Rightarrow> nat \<Rightarrow> bool" where
  "free_run free req b \<longleftrightarrow> (\<forall>k < req. free (b + k))"

lemma first_fit_loop:
  assumes "i \<le> n" "zc \<le> i" "zc < req" "\<And>j. i - zc \<le> j \<Longrightarrow> j < i \<Longrightarrow> free j"
    "i - zc = 0 \<or> \<not> free (i - zc - 1)" "\<And>b. b + req \<le> i \<Longrightarrow> \<not> free_run free req b"
  shows "first_fit free req [i..<n] (if zc = 0 then - 1 else int (i - zc)) zc =
    (if \<exists>b. b + req \<le> n \<and> free_run free req b
     then int (LEAST b. b + req \<le> n \<and> free_run free req b) else - 1)"
  using assms
proof (induction "n - i" arbitrary: i zc)
  case 0
  then have "i = n" by simp
  then show ?case using "0.prems" by auto
next
  case (Suc d)
  then have lt: "i < n" by simp
  then have upt: "[i..<n] = i # [Suc i..<n]" by (rule upt_conv_Cons)
  have d: "d = n - Suc i" using Suc.hyps(2) by simp
  show ?case
  proof (cases "free i")
    case False
    have none: "\<not> free_run free req b" if "b + req \<le> Suc i" for b
    proof (cases "b + req = Suc i")
      case True
      then have "b + (req - 1) = i" "req - 1 < req" using Suc.prems(3) by simp_all
      then show ?thesis using False by (auto simp: free_run_def)
    next
      case False
      then show ?thesis using Suc.prems(6) that by simp
    qed
    have "first_fit free req [Suc i..<n] (if (0::nat) = 0 then - 1 else int (Suc i - 0)) 0 =
      (if \<exists>b. b + req \<le> n \<and> free_run free req b
       then int (LEAST b. b + req \<le> n \<and> free_run free req b) else - 1)"
      by (rule Suc.hyps(1) [OF d]) (use False lt none Suc.prems(3) in auto)
    then show ?thesis using False by (simp add: upt)
  next
    case True
    let ?b = "i - zc"
    have start: "(if (if zc = 0 then - 1 else int ?b) = - 1 then int i else (if zc = 0 then - 1 else int ?b)) = int ?b"
      by simp
    show ?thesis
    proof (cases "Suc zc = req")
      case full: True
      have "free j" if "?b \<le> j" "j < Suc i" for j using that Suc.prems(4) True by (cases "j = i") auto
      then have run: "free_run free req ?b" using full Suc.prems(2) by (auto simp: free_run_def)
      have le: "?b + req \<le> n" using full Suc.prems(2) lt by simp
      have "(LEAST b. b + req \<le> n \<and> free_run free req b) = ?b"
      proof (rule Least_equality)
        fix y assume y: "y + req \<le> n \<and> free_run free req y"
        show "?b \<le> y"
        proof (rule ccontr)
          assume "\<not> ?b \<le> y"
          then have "y + req \<le> i" using full Suc.prems(2) by simp
          then show False using Suc.prems(6) y by blast
        qed
      qed (use run le in simp)
      then show ?thesis using True full run le start by (auto simp: upt Let_def)
    next
      case more: False
      have none: "\<not> free_run free req b" if b: "b + req \<le> Suc i" for b
      proof
        assume run: "free_run free req b"
        then have eq: "b + req = Suc i" using Suc.prems(6) [of b] b by fastforce
        then have "b < ?b" using more Suc.prems(2,3) by simp
        then have "?b - 1 = b + (?b - 1 - b)" "?b - 1 - b < req" using eq Suc.prems(2) by simp_all
        then have "free (?b - 1)" using run unfolding free_run_def by metis
        with Suc.prems(5) \<open>b < ?b\<close> show False by simp
      qed
      have "first_fit free req [Suc i..<n] (if Suc zc = 0 then - 1 else int (Suc i - Suc zc)) (Suc zc) =
        (if \<exists>b. b + req \<le> n \<and> free_run free req b
         then int (LEAST b. b + req \<le> n \<and> free_run free req b) else - 1)"
      proof (rule Suc.hyps(1) [OF d])
        fix j assume "Suc i - Suc zc \<le> j" "j < Suc i"
        then show "free j" using True Suc.prems(4) by (cases "j = i") auto
      qed (use lt none more Suc.prems(2,3,5) in auto)
      then show ?thesis using True more start by (auto simp: upt Let_def)
    qed
  qed
qed

lemma first_fit_eq:
  assumes "0 < req"
  shows "first_fit free req [0..<n] (- 1) 0 =
    (if \<exists>b. b + req \<le> n \<and> free_run free req b
     then int (LEAST b. b + req \<le> n \<and> free_run free req b) else - 1)"
  using first_fit_loop [of 0 n 0 req free] assms by simp

lemma first_fit_cases:
  assumes "0 < req"
  obtains (none) "first_fit free req [0..<n] (- 1) 0 = - 1" "\<And>b. b + req \<le> n \<Longrightarrow> \<not> free_run free req b"
  | (some) b where "first_fit free req [0..<n] (- 1) 0 = int b" "b + req \<le> n" "free_run free req b"
    "\<And>c. c < b \<Longrightarrow> \<not> free_run free req c"
proof (cases "\<exists>b. b + req \<le> n \<and> free_run free req b")
  case False
  then show thesis using none first_fit_eq [OF assms, of free n] by auto
next
  case True
  let ?b = "LEAST b. b + req \<le> n \<and> free_run free req b"
  have b: "?b + req \<le> n \<and> free_run free req ?b" using True by (rule LeastI_ex)
  have least: "\<not> free_run free req c" if "c < ?b" for c
    using not_less_Least [OF that] that b by auto
  have eq: "first_fit free req [0..<n] (- 1) 0 = int ?b"
    unfolding first_fit_eq [OF assms] using True by (rule if_P)
  show thesis by (rule some [OF eq conjunct1 [OF b] conjunct2 [OF b] least])
qed

section \<open>Critical sections\<close>

lemma settled_shm [simp]:
  "settled (s\<lparr>shm_segs := g\<rparr>) = (settled s)\<lparr>shm_segs := g\<rparr>"
  "settled (s\<lparr>lastShmSegIndex := l\<rparr>) = (settled s)\<lparr>lastShmSegIndex := l\<rparr>"
  "settled (s\<lparr>shm_r := d\<rparr>) = (settled s)\<lparr>shm_r := d\<rparr>"
  "settled (s\<lparr>mem := m\<rparr>) = (settled s)\<lparr>mem := m\<rparr>"
  "settled (s\<lparr>freelist := f\<rparr>) = (settled s)\<lparr>freelist := f\<rparr>"
  "settled (s\<lparr>ptable := pt\<rparr>) = (settled s)\<lparr>ptable := pt\<rparr>"
  for s :: "'a shm_scheme"
  by (simp_all add: settled_def Let_def)

lemma settled_shm_sel [simp]:
  "shm_segs (settled s) = shm_segs s" "lastShmSegIndex (settled s) = lastShmSegIndex s"
  "ptable (settled s) = ptable s" "shm_r (settled s) = shm_r s" "rtc (settled s) = rtc s"
  "used_ids (settled s) = used_ids s" "shm_tot (settled s) = shm_tot s"
  for s :: "'a shm_scheme"
  by (simp_all add: settled_def Let_def)

lemma cli_ok_shm [simp]:
  "cli_ok (s\<lparr>shm_segs := g\<rparr>) = cli_ok s" "cli_ok (s\<lparr>lastShmSegIndex := l\<rparr>) = cli_ok s"
  "cli_ok (s\<lparr>shm_r := d\<rparr>) = cli_ok s" "cli_ok (s\<lparr>mem := m\<rparr>) = cli_ok s"
  "cli_ok (s\<lparr>freelist := f\<rparr>) = cli_ok s" "cli_ok (s\<lparr>ptable := pt\<rparr>) = cli_ok s"
  for s :: "'a shm_scheme"
  by (simp_all add: cli_ok_def)

lemma lock_free_shm [simp]:
  "lock_free lk (s\<lparr>shm_segs := g\<rparr>) = lock_free lk s" "lock_free lk (s\<lparr>lastShmSegIndex := l\<rparr>) = lock_free lk s"
  "lock_free lk (s\<lparr>shm_r := d\<rparr>) = lock_free lk s" "lock_free lk (s\<lparr>mem := m\<rparr>) = lock_free lk s"
  "lock_free lk (s\<lparr>freelist := f\<rparr>) = lock_free lk s" "lock_free lk (s\<lparr>ptable := pt\<rparr>) = lock_free lk s"
  for s :: "'a shm_scheme"
  by (simp_all add: lock_free_def)

lemma enter_shm [simp]:
  "shm_segs (enter lk s) = shm_segs s" "lastShmSegIndex (enter lk s) = lastShmSegIndex s"
  "shm_r (enter lk s) = shm_r s" "mem (enter lk s) = mem s" "use_lock (enter lk s) = use_lock s"
  "kend (enter lk s) = kend s" "freelist (enter lk s) = freelist s"
  for s :: "'a shm_scheme"
  by (simp_all add: enter_def Let_def)

lemma leave_shm:
  fixes s :: "'a shm_scheme"
  assumes "cli_ok s" "lock_free lk s"
  shows "release lk ((enter lk s)\<lparr>shm_segs := g\<rparr>) = Inr ((settled s)\<lparr>shm_segs := g\<rparr>)"
proof -
  let ?t = "(enter lk s)\<lparr>shm_segs := g\<rparr>"
  have "release lk ?t = Inr (?t\<lparr>eflags_IF := eflags_IF s, cpus := cpus (settled s), locks := locks s\<rparr>)"
    by (rule release_enter [OF assms]) simp_all
  also have "?t\<lparr>eflags_IF := eflags_IF s, cpus := cpus (settled s), locks := locks s\<rparr>
      = (settled s)\<lparr>shm_segs := g\<rparr>"
    unfolding enter_def Let_def by (subst (2) settled_as_upd) simp
  finally show ?thesis .
qed

section \<open>Allocating the pages of a segment\<close>

text \<open>The entry \<^verbatim>\<open>mapShmSegPage\<close> writes; it sets every field.\<close>

definition new_seg :: "int \<Rightarrow> u32 \<Rightarrow> int \<Rightarrow> int \<Rightarrow> u32 \<Rightarrow> shmid_ds" where
  "new_seg key rounded shmflag creator pa = \<lparr>shm_perm = \<lparr>ip_key = key, ip_mode = u32_of_int (shmflag AND 3)\<rparr>,
     shm_segsz = rounded, shm_atime = - 1, shm_dtime = - 1, shm_ctime = - 1, shm_cpid = - 1,
     shm_lpid = creator, shm_nattch = 0, shm_pa = pa\<rparr>"

lemma new_seg_sel [simp]:
  "seg_key (new_seg key r fl c pa) = key" "shm_segsz (new_seg key r fl c pa) = r"
  "shm_pa (new_seg key r fl c pa) = pa" "shm_nattch (new_seg key r fl c pa) = 0"
  by (simp_all add: new_seg_def)

lemma mapShmSegPage_eq:
  assumes "cli_ok s" "lock_free ShmLock s" "b < SHMMAXSEG"
  shows "mapShmSegPage pa key rounded (int b) npid (shmflag AND 3) s
    = Inr (int b, (settled s)\<lparr>shm_segs := (shm_segs s)(b := new_seg key rounded shmflag npid pa)\<rparr>)"
  using assms
  by (cases "shm_segs s b") (simp add: mapShmSegPage_def acquire_free upd_seg_def leave_shm new_seg_def)

definition fresh_segs :: "(nat \<Rightarrow> shmid_ds) \<Rightarrow> nat \<Rightarrow> u32 list \<Rightarrow> (u32 \<Rightarrow> shmid_ds) \<Rightarrow> nat \<Rightarrow> shmid_ds" where
  "fresh_segs g b qs f = (\<lambda>i. if b \<le> i \<and> i < b + length qs then f (V2P (qs ! (i - b))) else g i)"

lemma fresh_segs_Nil [simp]: "fresh_segs g b [] f = g"
  by (auto simp: fresh_segs_def fun_eq_iff)

lemma fresh_segs_Cons: "fresh_segs g b (q # qs) f = fresh_segs (g(b := f (V2P q))) (Suc b) qs f"
proof
  fix i
  consider "i < b" | "i = b" | d where "i = Suc b + d"
    by (metis add_Suc less_imp_Suc_add linorder_neqE_nat)
  then show "fresh_segs g b (q # qs) f i = fresh_segs (g(b := f (V2P q))) (Suc b) qs f i"
    by cases (auto simp: fresh_segs_def)
qed

lemma kmem_ok_shm:
  assumes "kmem_ok (s\<lparr>mem := m, freelist := f\<rparr>) ps"
  shows "kmem_ok (s\<lparr>mem := m, freelist := f, shm_segs := g, lastShmSegIndex := l\<rparr>) ps"
  using assms by (simp add: kmem_ok_def kpage_def)

lemma kalloc_calm:
  assumes "kmem_ok s (q # qs)" "settled s = s" "use_lock s"
  shows "\<exists>f. kalloc s = Inr (q, s\<lparr>freelist := f\<rparr>) \<and> kmem_ok (s\<lparr>freelist := f\<rparr>) qs"
proof -
  have fl: "freelist s = q" "q \<noteq> 0" using assms(1) by (auto simp: kmem_ok_def)
  let ?t = "s\<lparr>freelist := load32 (mem s) q\<rparr>"
  have "kalloc s = Inr (q, ?t)"
    using kalloc_eq [OF assms(1)] fl assms(2,3) by (simp add: ksettle_def)
  moreover obtain t where "kalloc s = Inr (q, t)" "kmem_ok t qs" using kalloc_some [OF assms(1)] by blast
  ultimately show ?thesis by (intro exI [of _ "load32 (mem s) q"]) simp
qed

lemma zero_page:
  assumes "page_aligned q" "page_no a = page_no q"
  shows "memset m q 0 4096 a = 0"
  using memset_page [OF assms(1)] assms(2) by simp

lemma alloc_seg_loop_eq:
  assumes "settled s = s" "cli_ok s" "use_lock s" "kmem_ok s ps" "lock_free ShmLock s"
    "n \<le> length ps" "b + n \<le> SHMMAXSEG"
  shows "\<exists>m f. alloc_seg_loop n j (int b) inc key rounded shmflag (Some p) s
      = Inr (True, s\<lparr>mem := m, freelist := f,
          shm_segs := fresh_segs (shm_segs s) b (take n ps) (new_seg key rounded shmflag (pid (ptable s p))),
          lastShmSegIndex := lastShmSegIndex s + (if inc then int n else 0)\<rparr>)
    \<and> kmem_ok (s\<lparr>mem := m, freelist := f\<rparr>) (drop n ps)
    \<and> same_except (page_no ` set (take n ps)) (mem s) m
    \<and> (\<forall>q \<in> set (take n ps). \<forall>a. page_no a = page_no q \<longrightarrow> m a = 0)"
  using assms
proof (induction n arbitrary: j b s ps)
  case 0
  show ?case by (intro exI [of _ "mem s"] exI [of _ "freelist s"]) (use "0.prems" in simp)
next
  case (Suc n)
  then obtain q qs where ps: "ps = q # qs" by (cases ps) auto
  obtain f where f: "kalloc s = Inr (q, s\<lparr>freelist := f\<rparr>)" "kmem_ok (s\<lparr>freelist := f\<rparr>) qs"
    using kalloc_calm Suc.prems(1,3,4) unfolding ps by blast
  have q: "q \<noteq> 0" "page_aligned q" "q \<notin> set qs"
    using Suc.prems(4) kpage_nonzero unfolding ps by (auto simp: kmem_ok_def kpage_def)
  let ?m = "memset (mem s) q 0 4096"
  let ?c = "pid (ptable s p)"
  let ?s1 = "s\<lparr>freelist := f, mem := ?m, shm_segs := (shm_segs s)(b := new_seg key rounded shmflag ?c (V2P q)),
      lastShmSegIndex := lastShmSegIndex s + (if inc then 1 else 0)\<rparr>"
  have al: "\<forall>x \<in> set qs. page_aligned x \<and> page_no x \<noteq> page_no q"
    using Suc.prems(4) q(2,3) page_no_inj unfolding ps by (auto simp: kmem_ok_def kpage_def)
  have pool: "kmem_ok ((s\<lparr>freelist := f\<rparr>)\<lparr>mem := ?m\<rparr>) qs"
    by (rule kmem_ok_write [OF f(2), of "{page_no q}"]) (use al same_except_memset [OF q(2)] in auto)
  have run: "alloc_seg_loop (Suc n) j (int b) inc key rounded shmflag (Some p) s
      = alloc_seg_loop n (j + 1) (int (Suc b)) inc key rounded shmflag (Some p) ?s1"
    using f(1) q(1) Suc.prems
    by (simp add: mapShmSegPage_eq Let_def add.commute)
  have "kmem_ok ?s1 qs" using pool by (simp add: kmem_ok_def kpage_def)
  moreover have "settled ?s1 = ?s1" using Suc.prems(1) by simp
  moreover have "cli_ok ?s1" "use_lock ?s1" "lock_free ShmLock ?s1" "n \<le> length qs" "Suc b + n \<le> SHMMAXSEG"
    using Suc.prems ps by simp_all
  ultimately obtain m f' where IH: "alloc_seg_loop n (j + 1) (int (Suc b)) inc key rounded shmflag (Some p) ?s1
      = Inr (True, ?s1\<lparr>mem := m, freelist := f',
          shm_segs := fresh_segs (shm_segs ?s1) (Suc b) (take n qs) (new_seg key rounded shmflag (pid (ptable ?s1 p))),
          lastShmSegIndex := lastShmSegIndex ?s1 + (if inc then int n else 0)\<rparr>)"
    "kmem_ok (?s1\<lparr>mem := m, freelist := f'\<rparr>) (drop n qs)"
    "same_except (page_no ` set (take n qs)) (mem ?s1) m"
    "\<forall>q \<in> set (take n qs). \<forall>a. page_no a = page_no q \<longrightarrow> m a = 0"
    using Suc.IH [of ?s1 qs "Suc b" "j + 1"] by blast
  have out: "alloc_seg_loop (Suc n) j (int b) inc key rounded shmflag (Some p) s
      = Inr (True, s\<lparr>mem := m, freelist := f',
          shm_segs := fresh_segs (shm_segs s) b (take (Suc n) ps) (new_seg key rounded shmflag ?c),
          lastShmSegIndex := lastShmSegIndex s + (if inc then int (Suc n) else 0)\<rparr>)"
    unfolding run IH(1) ps by (simp add: fresh_segs_Cons)
  have k: "kmem_ok (s\<lparr>mem := m, freelist := f'\<rparr>) (drop (Suc n) ps)"
    using IH(2) unfolding ps by (simp add: kmem_ok_def kpage_def)
  have IH3: "same_except (page_no ` set (take n qs)) ?m m" using IH(3) by simp
  have same: "same_except (page_no ` set (take (Suc n) ps)) (mem s) m"
    by (rule same_except_mono [OF same_except_trans [OF same_except_memset [OF q(2)] IH3]])
      (simp add: ps)
  have zq: "m a = 0" if "page_no a = page_no q" for a
  proof -
    have "page_no a \<notin> page_no ` set (take n qs)" using that al by (force dest: in_set_takeD)
    then have "m a = mem ?s1 a" using IH(3) by (simp add: same_except_def)
    then show ?thesis using zero_page [OF q(2) that] by simp
  qed
  have zeros: "\<forall>q \<in> set (take (Suc n) ps). \<forall>a. page_no a = page_no q \<longrightarrow> m a = 0"
    using zq IH(4) by (simp add: ps)
  show ?case using out k same zeros by blast
qed

section \<open>The segment table\<close>

text \<open>
  \<open>seg_table g m G\<close>: of the first \<open>m\<close> entries of \<open>g\<close>, those in use are exactly the entries of
  the segments \<open>G\<close>, a set of pairs of first index and number of pages; segments do not
  overlap and all entries of a segment agree on key and size.
\<close>

definition seg_live :: "(nat \<Rightarrow> shmid_ds) \<Rightarrow> nat \<Rightarrow> nat \<Rightarrow> bool" where
  "seg_live g m i \<longleftrightarrow> i < m \<and> seg_key (g i) \<noteq> - 1"

definition seg_at :: "(nat \<Rightarrow> shmid_ds) \<Rightarrow> nat \<Rightarrow> nat \<times> nat \<Rightarrow> bool" where
  "seg_at g m = (\<lambda>(b, n). 0 < n \<and> b + n \<le> m \<and> seg_key (g b) \<noteq> - 1
     \<and> (\<forall>k < n. seg_key (g (b + k)) = seg_key (g b) \<and> shm_segsz (g (b + k)) = of_nat (4096 * n)))"

definition apart :: "nat \<times> nat \<Rightarrow> nat \<times> nat \<Rightarrow> bool" where
  "apart = (\<lambda>(b, n) (c, k). b + n \<le> c \<or> c + k \<le> b)"

definition seg_table :: "(nat \<Rightarrow> shmid_ds) \<Rightarrow> nat \<Rightarrow> (nat \<times> nat) set \<Rightarrow> bool" where
  "seg_table g m G \<longleftrightarrow> m \<le> SHMMAXSEG \<and> (\<forall>x \<in> G. seg_at g m x)
     \<and> (\<forall>x \<in> G. \<forall>y \<in> G. x \<noteq> y \<longrightarrow> apart x y)
     \<and> (\<forall>i. seg_live g m i \<longrightarrow> (\<exists>(b, n) \<in> G. b \<le> i \<and> i < b + n))"

definition shm_pages_ok :: "'a shm_scheme \<Rightarrow> u32 list \<Rightarrow> nat \<Rightarrow> bool" where
  "shm_pages_ok s ps m \<longleftrightarrow>
     (\<forall>i. seg_live (shm_segs s) m i \<longrightarrow> kpage s (P2V (shm_pa (shm_segs s i))) \<and> P2V (shm_pa (shm_segs s i)) \<notin> set ps)
     \<and> (\<forall>i j. seg_live (shm_segs s) m i \<and> seg_live (shm_segs s) m j
          \<and> shm_pa (shm_segs s i) = shm_pa (shm_segs s j) \<longrightarrow> i = j)"

abbreviation seg_count :: "'a shm_scheme \<Rightarrow> nat" where
  "seg_count s \<equiv> nat (lastShmSegIndex s + 1)"

definition shm_ok :: "'a shm_scheme \<Rightarrow> u32 list \<Rightarrow> (nat \<times> nat) set \<Rightarrow> bool" where
  "shm_ok s ps G \<longleftrightarrow> cli_ok s \<and> use_lock s \<and> lock_free ShmLock s \<and> kmem_ok s ps \<and> - 1 \<le> lastShmSegIndex s
     \<and> seg_table (shm_segs s) (seg_count s) G \<and> shm_pages_ok s ps (seg_count s)"

lemma overlap_common:
  assumes "\<not> apart (b, n) (c, k)" "0 < n" "0 < k"
  obtains i j where "i < n" "j < k" "b + i = c + j"
proof (cases "b \<le> c")
  case True
  then show thesis using assms that [of "c - b" 0] by (simp add: apart_def)
next
  case False
  then show thesis using assms that [of 0 "b - c"] by (simp add: apart_def)
qed

lemma seg_at_live:
  assumes "seg_at g m (b, n)" "k < n"
  shows "seg_live g m (b + k)"
  using assms by (auto simp: seg_at_def seg_live_def)

lemma seg_at_cong:
  assumes "\<And>k. k < n \<Longrightarrow> g' (b + k) = g (b + k)" "m \<le> m'" "seg_at g m (b, n)"
  shows "seg_at g' m' (b, n)"
  using assms(1) [of 0] assms by (auto simp: seg_at_def)

lemma seg_table_insert:
  assumes tab: "seg_table g m G" and b: "0 < n" "\<And>k. k < n \<Longrightarrow> \<not> seg_live g m (b + k)"
    and m': "b + n \<le> m \<and> m' = m \<or> b = m \<and> m' = m + n" "m' \<le> SHMMAXSEG"
    and g': "\<And>i. \<not> (b \<le> i \<and> i < b + n) \<Longrightarrow> g' i = g i" "seg_at g' m' (b, n)"
  shows "seg_table g' m' (insert (b, n) G)" "(b, n) \<notin> G" "\<And>x. x \<in> G \<Longrightarrow> apart (b, n) x"
proof -
  have sep: "apart (b, n) (c, k)" if "(c, k) \<in> G" for c k
  proof (rule ccontr)
    assume "\<not> apart (b, n) (c, k)"
    moreover have at: "seg_at g m (c, k)" using tab that by (auto simp: seg_table_def)
    then have "0 < k" by (simp add: seg_at_def)
    ultimately obtain i j where "i < n" "j < k" "b + i = c + j" using overlap_common b(1) by blast
    then show False using b(2) [of i] seg_at_live [OF at, of j] by simp
  qed
  then show sepx: "\<And>x. x \<in> G \<Longrightarrow> apart (b, n) x" by (case_tac x) simp
  show "(b, n) \<notin> G" using sep [of b n] b(1) by (auto simp: apart_def)
  have keep: "seg_at g' m' (c, k)" if "(c, k) \<in> G" for c k
  proof (rule seg_at_cong [of k g' c g m])
    show "seg_at g m (c, k)" using tab that by (auto simp: seg_table_def)
    show "m \<le> m'" using m' by auto
    show "g' (c + j) = g (c + j)" if "j < k" for j
      using sep [OF \<open>(c, k) \<in> G\<close>] that by (intro g'(1)) (auto simp: apart_def)
  qed
  have cover: "\<exists>(c, k) \<in> insert (b, n) G. c \<le> i \<and> i < c + k" if i: "seg_live g' m' i" for i
  proof (cases "b \<le> i \<and> i < b + n")
    case True
    then show ?thesis by auto
  next
    case False
    then have "seg_live g m i" using i g'(1) m' by (auto simp: seg_live_def)
    then show ?thesis using tab by (fastforce simp: seg_table_def)
  qed
  have "apart x y" if "x \<in> insert (b, n) G" "y \<in> insert (b, n) G" "x \<noteq> y" for x y
    using that tab sepx by (auto simp: seg_table_def apart_def)
  then show "seg_table g' m' (insert (b, n) G)"
    using g'(2) m'(2) keep cover by (auto simp: seg_table_def)
qed

text \<open>Where \<^verbatim>\<open>allocShmSeg\<close> puts a segment of \<open>n\<close> pages: the first hole that fits, or the end.\<close>

definition hole :: "'a shm_scheme \<Rightarrow> nat \<Rightarrow> nat \<Rightarrow> bool" where
  "hole s n b \<longleftrightarrow> b + n \<le> seg_count s \<and> free_run (\<lambda>i. seg_key (shm_segs s i) = - 1) n b"

definition seg_base :: "'a shm_scheme \<Rightarrow> nat \<Rightarrow> nat" where
  "seg_base s n = (if \<exists>b. hole s n b then (LEAST b. hole s n b) else seg_count s)"

lemma seg_pages_rounded:
  assumes "SHMMIN \<le> z" "z \<le> MAXSEGSIZE"
  shows "0 < seg_pages (PGROUNDUP z)" "seg_pages (PGROUNDUP z) \<le> 4096"
    "PGROUNDUP z = of_nat (4096 * seg_pages (PGROUNDUP z))"
proof -
  have z: "1024 \<le> unat z" "unat z \<le> 16777216" using assms by (simp_all add: word_le_nat_alt)
  have u: "unat (PGROUNDUP z) = (unat z + 4095) div 4096 * 4096" by (rule unat_PGROUNDUP) (use z in simp)
  have n: "seg_pages (PGROUNDUP z) = (unat z + 4095) div 4096" by (simp add: seg_pages_def unat_div u)
  have "(1024 + 4095) div 4096 \<le> (unat z + 4095) div 4096" "(unat z + 4095) div 4096 \<le> (16777216 + 4095) div 4096"
    by (rule div_le_mono; use z in simp)+
  then show "0 < seg_pages (PGROUNDUP z)" "seg_pages (PGROUNDUP z) \<le> 4096" unfolding n by simp_all
  have "PGROUNDUP z = of_nat (unat (PGROUNDUP z))" by simp
  then show "PGROUNDUP z = of_nat (4096 * seg_pages (PGROUNDUP z))" unfolding u n by (simp add: mult.commute)
qed

lemma allocShmSeg_search:
  assumes z: "SHMMIN \<le> z" "z \<le> MAXSEGSIZE" and ok: "shm_ok s ps G"
    and p: "running s (curcpu s) = Some p"
  defines "n \<equiv> seg_pages (PGROUNDUP z)"
  shows "allocShmSeg z key shmflag s =
    (if seg_base s n + n > SHMMAXSEG then Inr (ENOSPC, settled s)
     else rbind (alloc_seg_loop n 0 (int (seg_base s n)) (\<nexists>b. hole s n b) key (of_nat (4096 * n)) shmflag (Some p) (settled s))
       (\<lambda>(ok, t). if \<not> ok then Inr (- 1, t) else Inr (int (seg_base s n),
          t\<lparr>used_ids := used_ids t + 1, shm_tot := u32_of_int (lastShmSegIndex t + 1)\<rparr>)))"
proof -
  have n: "0 < n" unfolding n_def by (rule seg_pages_rounded(1) [OF z])
  have cl: "cli_ok s" and last: "- 1 \<le> lastShmSegIndex s" "lastShmSegIndex s < 4096"
    using ok by (auto simp: shm_ok_def seg_table_def)
  have size: "\<not> (z < SHMMIN \<or> z > MAXSEGSIZE)" using z by (simp add: not_less)
  let ?free = "\<lambda>i. seg_key (shm_segs s i) = - 1"
  let ?i = "first_fit ?free n [0..<seg_count s] (- 1) 0"
  have hole: "(\<exists>b. b + n \<le> seg_count s \<and> free_run ?free n b) = (\<exists>b. hole s n b)"
    "(LEAST b. b + n \<le> seg_count s \<and> free_run ?free n b) = (LEAST b. hole s n b)"
    by (simp_all add: hole_def)
  have i: "?i = (if \<exists>b. hole s n b then int (LEAST b. hole s n b) else - 1)"
    using first_fit_eq [OF n, of ?free "seg_count s"] unfolding hole .
  have inc: "(?i = - 1) = (\<nexists>b. hole s n b)" unfolding i by simp
  have idx: "(if \<nexists>b. hole s n b then lastShmSegIndex s + 1 else ?i) = int (seg_base s n)"
    unfolding i seg_base_def using last(1) by auto
  have room: "(int (seg_base s n) + int n > SHMMAXSEG) = (seg_base s n + n > SHMMAXSEG)" by linarith
  show ?thesis
    unfolding allocShmSeg_def if_not_P [OF size] myproc_eq [OF cl] p rbind_simps prod.case Let_def
      settled_shm_sel n_def [symmetric] inc idx room
    using last(2) seg_pages_rounded(3) [OF z, folded n_def] by simp
qed

lemma seg_base_free:
  assumes "0 < n" "k < n"
  shows "\<not> seg_live (shm_segs s) (seg_count s) (seg_base s n + k)"
proof (cases "\<exists>b. hole s n b")
  case True
  then have "hole s n (seg_base s n)" unfolding seg_base_def by (simp add: LeastI_ex)
  then show ?thesis using assms by (simp add: hole_def free_run_def seg_live_def)
next
  case False
  then show ?thesis by (simp add: seg_base_def seg_live_def)
qed

lemma seg_base_count:
  defines "m' s n \<equiv> seg_count s + (if \<exists>b. hole s n b then 0 else n)"
  shows "seg_base s n + n \<le> seg_count s \<and> m' s n = seg_count s \<or> seg_base s n = seg_count s \<and> m' s n = seg_count s + n"
proof (cases "\<exists>b. hole s n b")
  case True
  then have "hole s n (seg_base s n)" unfolding seg_base_def by (simp add: LeastI_ex)
  then show ?thesis using True by (simp add: m'_def hole_def)
next
  case False
  then show ?thesis by (simp add: seg_base_def m'_def)
qed

lemma fresh_segs_in: "k < length qs \<Longrightarrow> fresh_segs g b qs f (b + k) = f (V2P (qs ! k))"
  by (simp add: fresh_segs_def)

lemma fresh_segs_out: "\<not> (b \<le> i \<and> i < b + length qs) \<Longrightarrow> fresh_segs g b qs f i = g i"
  by (auto simp: fresh_segs_def)

lemma shm_pages_fresh:
  assumes old: "shm_pages_ok s ps m" and ps: "distinct ps" "\<forall>q \<in> set ps. kpage s q" "n \<le> length ps"
    and m': "b + n \<le> m \<and> m' = m \<or> b = m \<and> m' = m + n"
    and t: "shm_segs t = fresh_segs (shm_segs s) b (take n ps) f" "kend t = kend s" "\<And>pa. shm_pa (f pa) = pa"
  shows "shm_pages_ok t (drop n ps) m'"
proof -
  let ?g = "shm_segs t"
  have new: "\<exists>k < n. i = b + k \<and> P2V (shm_pa (?g i)) = ps ! k" if "b \<le> i" "i < b + n" for i
    using that ps(3) fresh_segs_in [of "i - b" "take n ps" "shm_segs s" b f]
    by (intro exI [of _ "i - b"]) (simp add: t(1,3))
  have keep: "?g i = shm_segs s i \<and> seg_live (shm_segs s) m i"
    if "seg_live ?g m' i" "\<not> (b \<le> i \<and> i < b + n)" for i
    using that fresh_segs_out [of b i "take n ps" "shm_segs s" f] ps(3) m' by (auto simp: t(1) seg_live_def)
  have mem: "ps ! k \<in> set ps" "kpage s (ps ! k)" if "k < n" for k using that ps by auto
  have sub: "set (drop n ps) \<subseteq> set ps" by (rule set_drop_subset)
  have page: "kpage t (P2V (shm_pa (?g i))) \<and> P2V (shm_pa (?g i)) \<notin> set (drop n ps)" if i: "seg_live ?g m' i" for i
  proof (cases "b \<le> i \<and> i < b + n")
    case True
    then obtain k where k: "k < n" "P2V (shm_pa (?g i)) = ps ! k" using new by blast
    then have "ps ! k \<notin> set (drop n ps)"
      using ps(1,3) by (auto simp: in_set_conv_nth nth_eq_iff_index_eq)
    then show ?thesis using k mem(2) kpage_cong [OF t(2)] by simp
  next
    case False
    then show ?thesis
      using keep [OF i] old sub kpage_cong [OF t(2)] by (auto simp: shm_pages_ok_def)
  qed
  have old_page: "P2V (shm_pa (shm_segs s i)) \<notin> set ps" if "seg_live (shm_segs s) m i" for i
    using old that by (simp add: shm_pages_ok_def)
  have inj: "i = j" if ij: "seg_live ?g m' i" "seg_live ?g m' j" "shm_pa (?g i) = shm_pa (?g j)" for i j
  proof (cases "b \<le> i \<and> i < b + n"; cases "b \<le> j \<and> j < b + n")
    assume "b \<le> i \<and> i < b + n" "b \<le> j \<and> j < b + n"
    then obtain k l where kl: "k < n" "i = b + k" "P2V (shm_pa (?g i)) = ps ! k"
      "l < n" "j = b + l" "P2V (shm_pa (?g j)) = ps ! l" using new by meson
    have "ps ! k = ps ! l" unfolding kl(3,6) [symmetric] ij(3) ..
    moreover have "k < length ps" "l < length ps" using kl(1,4) ps(3) by simp_all
    ultimately have "k = l" using ps(1) nth_eq_iff_index_eq by blast
    then show "i = j" unfolding kl(2,5) by simp
  next
    assume "b \<le> i \<and> i < b + n" and j: "\<not> (b \<le> j \<and> j < b + n)"
    then obtain k where k: "k < n" "P2V (shm_pa (?g i)) = ps ! k" using new by meson
    have "P2V (shm_pa (shm_segs s j)) \<in> set ps"
      using mem(1) [OF k(1)] keep [OF ij(2) j] k(2) unfolding ij(3) by simp
    then show "i = j" using old_page [of j] keep [OF ij(2) j] by simp
  next
    assume i: "\<not> (b \<le> i \<and> i < b + n)" and "b \<le> j \<and> j < b + n"
    then obtain k where k: "k < n" "P2V (shm_pa (?g j)) = ps ! k" using new by meson
    have "P2V (shm_pa (shm_segs s i)) \<in> set ps"
      using mem(1) [OF k(1)] keep [OF ij(1) i] k(2) unfolding ij(3) [symmetric] by simp
    then show "i = j" using old_page [of i] keep [OF ij(1) i] by simp
  next
    assume "\<not> (b \<le> i \<and> i < b + n)" "\<not> (b \<le> j \<and> j < b + n)"
    then show "i = j" using keep ij old unfolding shm_pages_ok_def by metis
  qed
  show ?thesis using page inj by (simp add: shm_pages_ok_def)
qed

lemma allocShmSeg_ok:
  assumes z: "SHMMIN \<le> z" "z \<le> MAXSEGSIZE" and ok: "shm_ok s ps G" and key: "key \<noteq> - 1"
    and p: "running s (curcpu s) = Some p"
  defines "n \<equiv> seg_pages (PGROUNDUP z)"
  defines "b \<equiv> seg_base s n"
  assumes room: "b + n \<le> SHMMAXSEG" and mem: "n \<le> length ps"
  shows "\<exists>t. allocShmSeg z key shmflag s = Inr (int b, t) \<and> shm_ok t (drop n ps) (insert (b, n) G)
    \<and> (\<forall>x \<in> G. apart (b, n) x)
    \<and> shm_segs t = fresh_segs (shm_segs s) b (take n ps)
        (new_seg key (of_nat (4096 * n)) shmflag (pid (ptable s p)))
    \<and> (\<forall>q \<in> set (take n ps). \<forall>a. page_no a = page_no q \<longrightarrow> mem t a = 0)
    \<and> same_except (page_no ` set (take n ps)) (mem s) (mem t) \<and> ptable t = ptable s \<and> settled t = t"
proof -
  let ?inc = "\<nexists>b. hole s n b"
  let ?f = "new_seg key (of_nat (4096 * n)) shmflag (pid (ptable s p))"
  have n: "0 < n" unfolding n_def by (rule seg_pages_rounded(1) [OF z])
  have s: "cli_ok s" "use_lock s" "lock_free ShmLock s" "kmem_ok s ps" "- 1 \<le> lastShmSegIndex s"
    "seg_table (shm_segs s) (seg_count s) G" "shm_pages_ok s ps (seg_count s)"
    using ok by (simp_all add: shm_ok_def)
  have ks: "kmem_ok (settled s) ps" using kmem_ok_ksettle [of s ps] s(2,4) by (simp add: ksettle_def)
  obtain m f where loop: "alloc_seg_loop n 0 (int b) ?inc key (of_nat (4096 * n)) shmflag (Some p) (settled s)
      = Inr (True, (settled s)\<lparr>mem := m, freelist := f,
          shm_segs := fresh_segs (shm_segs s) b (take n ps) ?f,
          lastShmSegIndex := lastShmSegIndex s + (if ?inc then int n else 0)\<rparr>)"
    "kmem_ok ((settled s)\<lparr>mem := m, freelist := f\<rparr>) (drop n ps)"
    "same_except (page_no ` set (take n ps)) (mem s) m"
    "\<forall>q \<in> set (take n ps). \<forall>a. page_no a = page_no q \<longrightarrow> m a = 0"
    using alloc_seg_loop_eq [of "settled s" ps n b 0 ?inc key "of_nat (4096 * n)" shmflag p] s ks mem room
    by auto
  let ?t = "(settled s)\<lparr>mem := m, freelist := f, shm_segs := fresh_segs (shm_segs s) b (take n ps) ?f,
      lastShmSegIndex := lastShmSegIndex s + (if ?inc then int n else 0),
      used_ids := used_ids s + 1, shm_tot := u32_of_int (lastShmSegIndex s + (if ?inc then int n else 0) + 1)\<rparr>"
  have run: "allocShmSeg z key shmflag s = Inr (int b, ?t)"
    unfolding allocShmSeg_search [OF z ok p, of key shmflag, folded n_def b_def] loop(1)
    using room by simp
  let ?m' = "seg_count s + (if \<exists>b. hole s n b then 0 else n)"
  have m': "b + n \<le> seg_count s \<and> ?m' = seg_count s \<or> b = seg_count s \<and> ?m' = seg_count s + n"
    unfolding b_def by (rule seg_base_count)
  have cnt: "seg_count ?t = ?m'" using s(5) by auto
  have le: "?m' \<le> SHMMAXSEG"
    using m' room conjunct1 [OF s(6) [unfolded seg_table_def]] by (elim disjE conjE) linarith+
  have len: "length (take n ps) = n" using mem by simp
  have in_seg: "shm_segs ?t (b + k) = ?f (V2P (ps ! k))" if "k < n" for k
    using that mem by (simp add: fresh_segs_in)
  have "b + n \<le> ?m'" using m' by (elim disjE conjE) linarith+
  then have at: "seg_at (shm_segs ?t) ?m' (b, n)"
    unfolding seg_at_def prod.case using n key in_seg [of 0] in_seg by simp
  have out: "shm_segs ?t i = shm_segs s i" if "\<not> (b \<le> i \<and> i < b + n)" for i
    using fresh_segs_out [of b i "take n ps" "shm_segs s" ?f] that unfolding len by simp
  note tab = seg_table_insert [OF s(6) n seg_base_free [OF n, of _ s, folded b_def] m' le out at]
  have pages: "shm_pages_ok ?t (drop n ps) ?m'"
  proof (rule shm_pages_fresh [OF s(7) _ _ mem m'])
    show "distinct ps" "\<forall>q \<in> set ps. kpage s q" using s(4) by (simp_all add: kmem_ok_def)
    show "shm_pa (?f pa) = pa" for pa by (rule new_seg_sel(3))
  qed simp_all
  have "shm_ok ?t (drop n ps) (insert (b, n) G)"
    unfolding shm_ok_def cnt using s loop(2) tab(1) pages
    by (auto simp: kmem_ok_def kpage_def cli_ok_def lock_free_def settled_def Let_def)
  moreover have "settled ?t = ?t" by (simp add: settled_def Let_def)
  ultimately show ?thesis using run loop(3,4) tab(3) by (intro exI [of _ ?t]) simp
qed

section \<open>Giving the pages back\<close>

definition freed_seg :: shmid_ds where
  "freed_seg = \<lparr>shm_perm = \<lparr>ip_key = - 1, ip_mode = 0\<rparr>, shm_segsz = 0, shm_atime = - 1, shm_dtime = - 1,
     shm_ctime = - 1, shm_cpid = - 1, shm_lpid = - 1, shm_nattch = 0, shm_pa = 0\<rparr>"

lemma kfree_calm:
  assumes "kmem_ok s ps" "kpage s v" "v \<notin> set ps" "settled s = s" "use_lock s"
  shows "\<exists>m. kfree v s = Inr (s\<lparr>mem := m, freelist := v\<rparr>) \<and> kmem_ok (s\<lparr>mem := m, freelist := v\<rparr>) (v # ps)"
proof -
  let ?m = "store32 (memset (mem s) v 1 PGSIZE) v (freelist s)"
  have "kfree v s = Inr (s\<lparr>mem := ?m, freelist := v\<rparr>)"
    using kfree_eq [OF assms(1,2)] assms(4,5) by (simp add: ksettle_def)
  moreover obtain t where "kfree v s = Inr t" "kmem_ok t (v # ps)" using kfree_ok [OF assms(1-3)] by blast
  ultimately show ?thesis by (intro exI [of _ ?m]) simp
qed

definition cleared :: "(nat \<Rightarrow> shmid_ds) \<Rightarrow> nat \<Rightarrow> nat \<Rightarrow> nat \<Rightarrow> shmid_ds" where
  "cleared g a b = (\<lambda>i. if a \<le> i \<and> i < b then freed_seg else g i)"

lemma cleared_first: "a < b \<Longrightarrow> cleared (g(a := freed_seg)) (Suc a) b = cleared g a b"
  by (auto simp: cleared_def fun_eq_iff)

lemma free_loop_step:
  assumes "kmem_ok s ps" "kpage s (P2V (shm_pa (shm_segs s c)))" "P2V (shm_pa (shm_segs s c)) \<notin> set ps"
    "settled s = s" "use_lock s" "int b + int i = int c" "c < SHMMAXSEG"
  shows "\<exists>m f. free_loop (i # is) (int b) s
      = free_loop is (int b) (s\<lparr>mem := m, freelist := f, shm_segs := (shm_segs s)(c := freed_seg)\<rparr>)
    \<and> kmem_ok (s\<lparr>mem := m, freelist := f\<rparr>) (P2V (shm_pa (shm_segs s c)) # ps)"
proof -
  let ?v = "P2V (shm_pa (shm_segs s c))"
  define d where "d = (shm_segs s c)\<lparr>shm_perm := \<lparr>ip_key = - 1, ip_mode = 0\<rparr>, shm_segsz := 0,
         shm_atime := - 1, shm_dtime := - 1, shm_ctime := - 1, shm_cpid := - 1, shm_lpid := - 1,
         shm_nattch := 0\<rparr>"
  let ?s = "s\<lparr>shm_segs := (shm_segs s)(c := d)\<rparr>"
  have d: "V2P (shm_pa d) = ?v" "d\<lparr>shm_pa := 0\<rparr> = freed_seg"
    by (simp_all add: d_def V2P_eq_P2V freed_seg_def shmid_ds.equality)
  have "kmem_ok ?s ps" "kpage ?s ?v" "settled ?s = ?s" "use_lock ?s"
    using assms(1,2,4,5) by (simp_all add: kmem_ok_def kpage_def)
  then obtain m where m: "kfree ?v ?s = Inr (?s\<lparr>mem := m, freelist := ?v\<rparr>)"
    "kmem_ok (?s\<lparr>mem := m, freelist := ?v\<rparr>) (?v # ps)"
    using kfree_calm assms(3) by blast
  have "free_loop (i # is) (int b) s
      = free_loop is (int b) (s\<lparr>mem := m, freelist := ?v, shm_segs := (shm_segs s)(c := freed_seg)\<rparr>)"
    using assms(6,7) m(1)
    by (simp add: upd_seg_def get_seg_def d d_def [symmetric])
  moreover have "kmem_ok (s\<lparr>mem := m, freelist := ?v\<rparr>) (?v # ps)"
    using m(2) by (simp add: kmem_ok_def kpage_def)
  ultimately show ?thesis by blast
qed

abbreviation seg_page :: "(nat \<Rightarrow> shmid_ds) \<Rightarrow> nat \<Rightarrow> u32" where
  "seg_page g i \<equiv> P2V (shm_pa (g i))"

lemma free_loop_eq:
  assumes "settled s = s" "use_lock s" "kmem_ok s ps" "b + n \<le> SHMMAXSEG" "i \<le> n"
    "\<And>k. i \<le> k \<Longrightarrow> k < n \<Longrightarrow> kpage s (seg_page (shm_segs s) (b + k)) \<and> seg_page (shm_segs s) (b + k) \<notin> set ps"
    "\<And>k l. i \<le> k \<Longrightarrow> k < n \<Longrightarrow> i \<le> l \<Longrightarrow> l < n \<Longrightarrow>
       seg_page (shm_segs s) (b + k) = seg_page (shm_segs s) (b + l) \<Longrightarrow> k = l"
  shows "\<exists>m f. free_loop [i..<n] (int b) s
      = Inr (s\<lparr>mem := m, freelist := f, shm_segs := cleared (shm_segs s) (b + i) (b + n)\<rparr>)
    \<and> kmem_ok (s\<lparr>mem := m, freelist := f\<rparr>) (rev (map (\<lambda>k. seg_page (shm_segs s) (b + k)) [i..<n]) @ ps)"
  using assms
proof (induction "n - i" arbitrary: i s ps)
  case 0
  then have "i = n" by simp
  moreover have "cleared (shm_segs s) (b + n) (b + n) = shm_segs s" by (auto simp: cleared_def fun_eq_iff)
  ultimately show ?case using "0.prems" by (intro exI [of _ "mem s"] exI [of _ "freelist s"]) simp
next
  case (Suc d)
  then have lt: "i < n" by simp
  then have upt: "[i..<n] = i # [Suc i..<n]" by (rule upt_conv_Cons)
  let ?v = "seg_page (shm_segs s) (b + i)"
  have v: "kpage s ?v" "?v \<notin> set ps" using Suc.prems(6) [of i] lt by auto
  obtain m f where st: "free_loop (i # [Suc i..<n]) (int b) s
      = free_loop [Suc i..<n] (int b) (s\<lparr>mem := m, freelist := f, shm_segs := (shm_segs s)(b + i := freed_seg)\<rparr>)"
    "kmem_ok (s\<lparr>mem := m, freelist := f\<rparr>) (?v # ps)"
    using free_loop_step [OF Suc.prems(3) v Suc.prems(1,2), of b i "[Suc i..<n]"] Suc.prems(4) lt by auto
  let ?s = "s\<lparr>mem := m, freelist := f, shm_segs := (shm_segs s)(b + i := freed_seg)\<rparr>"
  have same: "shm_segs ?s (b + k) = shm_segs s (b + k)" if "Suc i \<le> k" for k using that by simp
  have "\<exists>m' f'. free_loop [Suc i..<n] (int b) ?s
      = Inr (?s\<lparr>mem := m', freelist := f', shm_segs := cleared (shm_segs ?s) (b + Suc i) (b + n)\<rparr>)
    \<and> kmem_ok (?s\<lparr>mem := m', freelist := f'\<rparr>) (rev (map (\<lambda>k. seg_page (shm_segs ?s) (b + k)) [Suc i..<n]) @ ?v # ps)"
  proof (rule Suc.hyps(1))
    show "d = n - Suc i" "b + n \<le> SHMMAXSEG" "Suc i \<le> n" using Suc.hyps(2) Suc.prems(4) lt by auto
    show "settled ?s = ?s" "use_lock ?s" using Suc.prems(1,2) by simp_all
    show "kmem_ok ?s (?v # ps)" using st(2) by (simp add: kmem_ok_def kpage_def)
    show "kpage ?s (seg_page (shm_segs ?s) (b + k)) \<and> seg_page (shm_segs ?s) (b + k) \<notin> set (?v # ps)"
      if k: "Suc i \<le> k" "k < n" for k
      unfolding same [OF k(1)] using Suc.prems(6) [of k] Suc.prems(7) [of k i] k lt by (auto simp: kpage_def)
    show "k = l" if k: "Suc i \<le> k" "k < n" and l: "Suc i \<le> l" "l < n"
      and eq: "seg_page (shm_segs ?s) (b + k) = seg_page (shm_segs ?s) (b + l)" for k l
      by (rule Suc.prems(7)) (use k l eq [unfolded same [OF k(1)] same [OF l(1)]] in simp_all)
  qed
  then obtain m' f' where IH: "free_loop [Suc i..<n] (int b) ?s
      = Inr (?s\<lparr>mem := m', freelist := f', shm_segs := cleared (shm_segs ?s) (b + Suc i) (b + n)\<rparr>)"
    "kmem_ok (?s\<lparr>mem := m', freelist := f'\<rparr>) (rev (map (\<lambda>k. seg_page (shm_segs ?s) (b + k)) [Suc i..<n]) @ ?v # ps)"
    by blast
  have clr: "cleared (shm_segs ?s) (b + Suc i) (b + n) = cleared (shm_segs s) (b + i) (b + n)"
    using cleared_first [of "b + i" "b + n" "shm_segs s"] lt by simp
  have pages: "map (\<lambda>k. seg_page (shm_segs ?s) (b + k)) [Suc i..<n] = map (\<lambda>k. seg_page (shm_segs s) (b + k)) [Suc i..<n]"
    by (rule map_cong [OF refl]) (use same in simp)
  have "free_loop [i..<n] (int b) s = Inr (s\<lparr>mem := m', freelist := f', shm_segs := cleared (shm_segs s) (b + i) (b + n)\<rparr>)"
    unfolding upt st(1) IH(1) clr by simp
  moreover have "kmem_ok (s\<lparr>mem := m', freelist := f'\<rparr>) (rev (map (\<lambda>k. seg_page (shm_segs s) (b + k)) [i..<n]) @ ps)"
    using IH(2) unfolding pages upt by (simp add: kmem_ok_def kpage_def)
  ultimately show ?case by blast
qed

lemma seg_table_remove:
  assumes tab: "seg_table g m G" and x: "(b, n) \<in> G"
  shows "seg_table (cleared g b (b + n)) m (G - {(b, n)})"
proof -
  let ?g = "cleared g b (b + n)"
  have sep: "apart (b, n) (c, k)" if "(c, k) \<in> G - {(b, n)}" for c k
    using tab x that unfolding seg_table_def by fastforce
  have keep: "seg_at ?g m (c, k)" if ck: "(c, k) \<in> G - {(b, n)}" for c k
  proof (rule seg_at_cong [of k ?g c g m])
    show "seg_at g m (c, k)" using tab ck by (auto simp: seg_table_def)
    show "?g (c + j) = g (c + j)" if "j < k" for j
      using sep [OF ck] that by (auto simp: apart_def cleared_def)
  qed simp
  have cover: "\<exists>(c, k) \<in> G - {(b, n)}. c \<le> i \<and> i < c + k" if i: "seg_live ?g m i" for i
  proof -
    have out: "\<not> (b \<le> i \<and> i < b + n)" using i by (auto simp: seg_live_def cleared_def freed_seg_def)
    then have "seg_live g m i" using i by (auto simp: seg_live_def cleared_def)
    then obtain c k where "(c, k) \<in> G" "c \<le> i" "i < c + k" using tab by (auto simp: seg_table_def)
    then show ?thesis using out by auto
  qed
  show ?thesis using tab keep cover by (auto simp: seg_table_def)
qed

definition mapped_segs :: "(shmid_ds \<Rightarrow> shmid_ds) \<Rightarrow> nat \<Rightarrow> nat \<Rightarrow> (nat \<Rightarrow> shmid_ds) \<Rightarrow> nat \<Rightarrow> shmid_ds" where
  "mapped_segs f a b g = (\<lambda>i. if a \<le> i \<and> i < b then f (g i) else g i)"

lemma upd_segs_eq:
  fixes s :: "'a shm_scheme"
  assumes "b + n \<le> SHMMAXSEG" "i \<le> n"
  shows "upd_segs [i..<n] (int b) f s = Inr (s\<lparr>shm_segs := mapped_segs f (b + i) (b + n) (shm_segs s)\<rparr>)"
  using assms
proof (induction "n - i" arbitrary: i s)
  case 0
  then have i: "i = n" by simp
  have "mapped_segs f (b + n) (b + n) (shm_segs s) = shm_segs s"
    by (rule ext) (auto simp: mapped_segs_def)
  then show ?case unfolding i by simp
next
  case (Suc d)
  then have lt: "i < n" by simp
  then have upt: "[i..<n] = i # [Suc i..<n]" by (rule upt_conv_Cons)
  have up: "upd_seg (int b + int i) f s = Inr (s\<lparr>shm_segs := (shm_segs s)(b + i := f (shm_segs s (b + i)))\<rparr>)"
    using Suc.prems(1) lt by (simp add: upd_seg_def flip: of_nat_add)
  have "mapped_segs f (b + Suc i) (b + n) ((shm_segs s)(b + i := f (shm_segs s (b + i))))
      = mapped_segs f (b + i) (b + n) (shm_segs s)"
    using lt by (auto simp: mapped_segs_def fun_eq_iff)
  moreover have "upd_segs [Suc i..<n] (int b) f t = Inr (t\<lparr>shm_segs := mapped_segs f (b + Suc i) (b + n) (shm_segs t)\<rparr>)"
    for t :: "'a shm_scheme"
    by (rule Suc.hyps(1)) (use Suc lt in auto)
  ultimately show ?case unfolding upt by (simp add: up)
qed

lemma seg_pages_of_nat: "n \<le> 4096 \<Longrightarrow> seg_pages (of_nat (4096 * n)) = n"
proof -
  assume "n \<le> 4096"
  then have "unat (of_nat (4096 * n) :: u32) = 4096 * n"
    unfolding unat_of_nat by (intro mod_less) simp
  then show ?thesis unfolding seg_pages_def unat_div by simp
qed

lemma seg_pages_mult [simp]: "n \<le> 4096 \<Longrightarrow> seg_pages (4096 * of_nat n) = n"
  using seg_pages_of_nat [of n] by simp

lemma seg_table_cong:
  assumes "seg_table g m G" "\<And>i. seg_key (g' i) = seg_key (g i)" "\<And>i. shm_segsz (g' i) = shm_segsz (g i)"
  shows "seg_table g' m G"
  using assms by (simp add: seg_table_def seg_at_def seg_live_def)

lemma shm_pages_cong:
  assumes "shm_pages_ok s ps m" "\<And>i. seg_key (shm_segs t i) = seg_key (shm_segs s i)"
    "\<And>i. shm_pa (shm_segs t i) = shm_pa (shm_segs s i)" "kend t = kend s"
  shows "shm_pages_ok t ps m"
  using assms by (simp add: shm_pages_ok_def seg_live_def kpage_def)

lemma set_mode_sel [simp]:
  "seg_key (set_mode f d) = seg_key d" "shm_segsz (set_mode f d) = shm_segsz d" "shm_pa (set_mode f d) = shm_pa d"
  "shm_nattch (set_mode f d) = shm_nattch d" "ip_mode (shm_perm (set_mode f d)) = f (ip_mode (shm_perm d))"
  by simp_all

lemma shm_ok_set_mode:
  assumes "shm_ok s ps G"
  shows "shm_ok (s\<lparr>shm_segs := mapped_segs (set_mode f) a b (shm_segs s)\<rparr>) ps G"
proof -
  let ?t = "s\<lparr>shm_segs := mapped_segs (set_mode f) a b (shm_segs s)\<rparr>"
  have sel: "seg_key (shm_segs ?t i) = seg_key (shm_segs s i)" "shm_segsz (shm_segs ?t i) = shm_segsz (shm_segs s i)"
    "shm_pa (shm_segs ?t i) = shm_pa (shm_segs s i)" for i
    by (simp_all add: mapped_segs_def)
  have "seg_table (shm_segs ?t) (seg_count ?t) G"
    using assms seg_table_cong [OF _ sel(1,2)] by (simp add: shm_ok_def)
  moreover have "shm_pages_ok ?t ps (seg_count ?t)"
    using assms shm_pages_cong [OF _ sel(1,3)] by (simp add: shm_ok_def)
  ultimately show ?thesis
    using assms by (simp add: shm_ok_def kmem_ok_def kpage_def)
qed

lemma freeshmPages_ok:
  assumes ok: "shm_ok s ps G" and calm: "settled s = s" and x: "(b, n) \<in> G"
  defines "qs \<equiv> map (\<lambda>k. seg_page (shm_segs s) (b + k)) [0..<n]"
  shows "\<exists>m f t. freeshmPages (int b) s = Inr t \<and> t = s\<lparr>mem := m, freelist := f, shm_segs := cleared (shm_segs s) b (b + n)\<rparr>
    \<and> shm_ok t (rev qs @ ps) (G - {(b, n)})"
proof -
  have s: "cli_ok s" "use_lock s" "lock_free ShmLock s" "kmem_ok s ps" "- 1 \<le> lastShmSegIndex s"
    and tab: "seg_table (shm_segs s) (seg_count s) G" and pg: "shm_pages_ok s ps (seg_count s)"
    using ok by (simp_all add: shm_ok_def)
  let ?g = "shm_segs s"
  have at: "seg_at ?g (seg_count s) (b, n)" using tab x by (auto simp: seg_table_def)
  then have n: "0 < n" "b + n \<le> seg_count s" "b + n \<le> 4096" "shm_segsz (?g b) = of_nat (4096 * n)"
    using tab by (auto simp: seg_at_def seg_table_def dest: spec [of _ 0])
  have live: "seg_live ?g (seg_count s) (b + k)" if "k < n" for k by (rule seg_at_live [OF at that])
  have sp: "kpage s (seg_page ?g (b + k)) \<and> seg_page ?g (b + k) \<notin> set ps" if "k < n" for k
    using pg live [OF that] by (simp add: shm_pages_ok_def)
  have inj: "i = j" if "seg_live ?g (seg_count s) i" "seg_live ?g (seg_count s) j" "seg_page ?g i = seg_page ?g j" for i j
  proof -
    have "shm_pa (?g i) = shm_pa (?g j)" using arg_cong [OF that(3), of V2P] by simp
    then show ?thesis using pg that(1,2) by (simp add: shm_pages_ok_def)
  qed
  have "\<exists>m f. free_loop [0..<n] (int b) s
      = Inr (s\<lparr>mem := m, freelist := f, shm_segs := cleared ?g (b + 0) (b + n)\<rparr>)
    \<and> kmem_ok (s\<lparr>mem := m, freelist := f\<rparr>) (rev qs @ ps)"
    unfolding qs_def
  proof (rule free_loop_eq [OF calm s(2,4) n(3)])
    show "kpage s (seg_page ?g (b + k)) \<and> seg_page ?g (b + k) \<notin> set ps" if "k < n" for k by (rule sp [OF that])
    show "k = l" if "k < n" "l < n" "seg_page ?g (b + k) = seg_page ?g (b + l)" for k l
      using inj [OF live [OF that(1)] live [OF that(2)] that(3)] by simp
  qed simp
  then obtain m f where loop: "free_loop [0..<n] (int b) s
      = Inr (s\<lparr>mem := m, freelist := f, shm_segs := cleared ?g (b + 0) (b + n)\<rparr>)"
    "kmem_ok (s\<lparr>mem := m, freelist := f\<rparr>) (rev qs @ ps)"
    by blast
  let ?t = "s\<lparr>mem := m, freelist := f, shm_segs := cleared ?g b (b + n)\<rparr>"
  have run: "freeshmPages (int b) s = Inr ?t"
    using loop(1) n by (simp add: freeshmPages_def get_seg_def)
  have tab': "seg_table (shm_segs ?t) (seg_count ?t) (G - {(b, n)})" using seg_table_remove [OF tab x] by simp
  have out: "seg_live ?g (seg_count s) i \<and> shm_segs ?t i = ?g i \<and> seg_page ?g i \<notin> set qs"
    if i: "seg_live (shm_segs ?t) (seg_count ?t) i" for i
  proof -
    have no: "\<not> (b \<le> i \<and> i < b + n)" using i by (auto simp: seg_live_def cleared_def freed_seg_def)
    then have l: "seg_live ?g (seg_count s) i" using i by (auto simp: seg_live_def cleared_def)
    have "seg_page ?g i \<noteq> seg_page ?g (b + k)" if "k < n" for k
      using inj [OF l live [OF that]] no that by auto
    then have "seg_page ?g i \<notin> set qs" by (simp add: qs_def image_iff)
    then show ?thesis using l no by (auto simp: cleared_def)
  qed
  have "shm_pages_ok ?t (rev qs @ ps) (seg_count ?t)"
    unfolding shm_pages_ok_def
  proof (intro conjI allI impI; (elim conjE)?)
    fix i assume i: "seg_live (shm_segs ?t) (seg_count ?t) i"
    show "kpage ?t (seg_page (shm_segs ?t) i)" "seg_page (shm_segs ?t) i \<notin> set (rev qs @ ps)"
      using out [OF i] pg by (auto simp: shm_pages_ok_def kpage_def)
  next
    fix i j assume i: "seg_live (shm_segs ?t) (seg_count ?t) i" and j: "seg_live (shm_segs ?t) (seg_count ?t) j"
      and eq: "shm_pa (shm_segs ?t i) = shm_pa (shm_segs ?t j)"
    then have "seg_page ?g i = seg_page ?g j" using out [OF i] out [OF j] by simp
    then show "i = j" using inj out [OF i] out [OF j] by blast
  qed
  then have "shm_ok ?t (rev qs @ ps) (G - {(b, n)})"
    using s tab' loop(2) by (simp add: shm_ok_def kmem_ok_def kpage_def)
  with run show ?thesis by blast
qed

lemma seg_facts:
  assumes "shm_ok s ps G" "(b, n) \<in> G"
  shows "0 < n" "b + n \<le> seg_count s" "b + n \<le> 4096" "shm_segsz (shm_segs s b) = of_nat (4096 * n)"
    "seg_key (shm_segs s b) \<noteq> - 1" "int b \<le> lastShmSegIndex s"
    "\<And>k. k < n \<Longrightarrow> seg_key (shm_segs s (b + k)) = seg_key (shm_segs s b)"
proof -
  have tab: "seg_table (shm_segs s) (seg_count s) G" using assms(1) by (simp add: shm_ok_def)
  then have at: "seg_at (shm_segs s) (seg_count s) (b, n)" using assms(2) by (auto simp: seg_table_def)
  show "0 < n" "b + n \<le> seg_count s" "b + n \<le> 4096" "shm_segsz (shm_segs s b) = of_nat (4096 * n)"
    "seg_key (shm_segs s b) \<noteq> - 1" "\<And>k. k < n \<Longrightarrow> seg_key (shm_segs s (b + k)) = seg_key (shm_segs s b)"
    using at tab by (auto simp: seg_at_def seg_table_def dest: spec [of _ 0])
  then show "int b \<le> lastShmSegIndex s" by linarith
qed

text \<open>Removal by id: an attached segment is only marked, an unattached one gives its pages back.\<close>

lemma removeshm_id:
  assumes ok: "shm_ok s ps G" and calm: "settled s = s" and x: "(b, n) \<in> G"
  defines "qs \<equiv> map (\<lambda>k. seg_page (shm_segs s) (b + k)) [0..<n]"
  defines "u \<equiv> s\<lparr>shm_segs := mapped_segs (set_mode (\<lambda>_. SHM_DEST)) b (b + n) (shm_segs s)\<rparr>"
  shows "shm_nattch (shm_segs s b) \<noteq> 0 \<Longrightarrow> removeshmHelper (int b) 0 s = Inr (- 1, u) \<and> shm_ok u ps G"
    and "shm_nattch (shm_segs s b) = 0 \<Longrightarrow> \<exists>m f t. removeshmHelper (int b) 0 s = Inr (0, t)
      \<and> t = u\<lparr>mem := m, freelist := f, shm_segs := cleared (shm_segs u) b (b + n)\<rparr>
      \<and> shm_ok t (rev qs @ ps) (G - {(b, n)})"
proof -
  note sf = seg_facts [OF ok x]
  have oku: "shm_ok u ps G" unfolding u_def by (rule shm_ok_set_mode [OF ok])
  have calmu: "settled u = u" using calm by (simp add: u_def)
  have qsu: "map (\<lambda>k. seg_page (shm_segs u) (b + k)) [0..<n] = qs"
    by (simp add: qs_def u_def mapped_segs_def)
  have test: "\<not> ((0::int) = lastShmSegIndex s + 1 \<or> int b = lastShmSegIndex s + 1)" using sf(6) by auto
  have mode: "ip_mode (shm_perm (shm_segs u b)) AND SHM_DEST \<noteq> 0"
    "shm_nattch (shm_segs u b) = shm_nattch (shm_segs s b)"
    using sf(1) by (simp_all add: u_def mapped_segs_def)
  have run: "removeshmHelper (int b) 0 s = (if shm_nattch (shm_segs s b) = 0
      then rbind (freeshmPages (int b) u) (\<lambda>s. Inr (0, s)) else Inr (- 1, u))"
    unfolding removeshmHelper_def
    using test sf(1,3,4) upd_segs_eq [of b n 0 "set_mode (\<lambda>_. SHM_DEST)" s] mode
    by (auto simp: get_seg_def u_def [symmetric])
  show "shm_nattch (shm_segs s b) \<noteq> 0 \<Longrightarrow> removeshmHelper (int b) 0 s = Inr (- 1, u) \<and> shm_ok u ps G"
    using run oku by simp
  assume zero: "shm_nattch (shm_segs s b) = 0"
  obtain m f t where t: "freeshmPages (int b) u = Inr t"
    "t = u\<lparr>mem := m, freelist := f, shm_segs := cleared (shm_segs u) b (b + n)\<rparr>"
    "shm_ok t (rev qs @ ps) (G - {(b, n)})"
    using freeshmPages_ok [OF oku calmu x, unfolded qsu] by blast
  show "\<exists>m f t. removeshmHelper (int b) 0 s = Inr (0, t)
      \<and> t = u\<lparr>mem := m, freelist := f, shm_segs := cleared (shm_segs u) b (b + n)\<rparr>
      \<and> shm_ok t (rev qs @ ps) (G - {(b, n)})"
    by (rule exI [of _ m], rule exI [of _ f], rule exI [of _ t])
      (intro conjI; (rule t(2,3))?; simp add: run zero t(1))
qed

text \<open>The search by key finds the first entry of the lowest segment with that key.\<close>

lemma find_key_cases:
  assumes ok: "shm_ok s ps G" and key: "key \<noteq> - 1"
  obtains (none) "find_key key s = Inr None" "\<And>b n. (b, n) \<in> G \<Longrightarrow> seg_key (shm_segs s b) \<noteq> key"
  | (some) b n where "find_key key s = Inr (Some b)" "(b, n) \<in> G" "seg_key (shm_segs s b) = key"
    "\<And>c k. (c, k) \<in> G \<Longrightarrow> seg_key (shm_segs s c) = key \<Longrightarrow> b \<le> c"
proof -
  have tab: "seg_table (shm_segs s) (seg_count s) G" and last: "lastShmSegIndex s < 4096"
    using ok by (auto simp: shm_ok_def seg_table_def)
  have fk: "find_key key s = Inr (find (\<lambda>i. seg_key (shm_segs s i) = key) [0..<seg_count s])"
    using last by (simp add: find_key_def)
  show thesis
  proof (cases "find (\<lambda>i. seg_key (shm_segs s i) = key) [0..<seg_count s]")
    case None
    have "seg_key (shm_segs s b) \<noteq> key" if "(b, n) \<in> G" for b n
      using None seg_facts(1,2) [OF ok that] by (auto simp: find_index_None)
    then show thesis using none fk None by simp
  next
    case (Some i)
    note i = find_index_Some [OF Some]
    have "seg_live (shm_segs s) (seg_count s) i" using i(1,2) key by (simp add: seg_live_def)
    then obtain b n where bn: "(b, n) \<in> G" "b \<le> i" "i < b + n" using tab by (auto simp: seg_table_def)
    have "seg_key (shm_segs s b) = key"
      using seg_facts(7) [OF ok bn(1), of "i - b"] bn i(2) by simp
    then have "b = i" using i(3) [of b] bn(2) by (cases "b < i") auto
    have "i \<le> c" if "(c, k) \<in> G" "seg_key (shm_segs s c) = key" for c k
      using i(3) [of c] that(2) by (cases "c < i") auto
    then show thesis using some [of i n] fk Some bn(1) i(2) \<open>b = i\<close> by simp
  qed
qed

lemma removeshm_key:
  assumes "find_key key s = Inr (Some b)" "int b \<le> lastShmSegIndex s"
  shows "removeshmHelper key 1 s = removeshmHelper (int b) 0 s"
  using assms by (simp add: removeshmHelper_def)

end
