(* ===== verification/ShmAttach.thy ===== *)
theory ShmAttach
  imports ShmInv
begin

text \<open>
  Attaching a segment to the running process and detaching it: the page table entries the
  region above \<^verbatim>\<open>HEAPLIMIT\<close> gets, the slots of \<^verbatim>\<open>shmsegs\<close>, and the attach counts.
\<close>

section \<open>The shared memory region\<close>

definition shm_va :: "nat \<Rightarrow> u32" where
  "shm_va k = of_nat (0x7F000000 + 4096 * k)"

lemma unat_shm_va: "k \<le> 4096 \<Longrightarrow> unat (shm_va k) = 0x7F000000 + 4096 * k"
  unfolding shm_va_def unat_of_nat by (intro mod_less) simp

lemma shm_va_page:
  assumes "k \<le> 4096"
  shows "page_aligned (shm_va k)" "page_no (shm_va k) = 0x7F000 + k"
proof -
  have "0x7F000000 + 4096 * k = 4096 * (0x7F000 + k)" by simp
  then have u: "unat (shm_va k) = 4096 * (0x7F000 + k)" using unat_shm_va [OF assms] by simp
  show "page_aligned (shm_va k)" unfolding page_aligned_dvd u by simp
  show "page_no (shm_va k) = 0x7F000 + k" unfolding page_no_def u by simp
qed

lemma shm_va_Suc: "shm_va k + 4096 = shm_va (Suc k)"
  by (simp add: shm_va_def algebra_simps)

lemma shm_va_int: "u32_of_int (int k * 4096 + 0x7F000000) = shm_va k"
  by (simp add: shm_va_def algebra_simps)

section \<open>Attaching\<close>

lemma vm_step_ext:
  fixes s :: "'a shm_scheme"
  shows "vm_step (s\<lparr>ptable := pt, shm_segs := g\<rparr>) ps (s\<lparr>ptable := pt, shm_segs := g, mem := m, freelist := f\<rparr>) qs pd
    = vm_step s ps (s\<lparr>mem := m, freelist := f\<rparr>) qs pd"
proof -
  have "phys_frame s (s\<lparr>mem := m, freelist := f\<rparr>)"
    "phys_frame (s\<lparr>ptable := pt, shm_segs := g\<rparr>) (s\<lparr>ptable := pt, shm_segs := g, mem := m, freelist := f\<rparr>)"
    unfolding phys_frame_def by blast+
  then show ?thesis
    by (simp add: vm_step_def vm_ok_def kmem_ok_def kpage_def)
qed

lemma vm_ok_ext:
  fixes s :: "'a shm_scheme"
  shows "vm_ok (s\<lparr>ptable := pt, shm_segs := g\<rparr>) pd ps = vm_ok s pd ps"
  by (simp add: vm_ok_def kmem_ok_def kpage_def)

definition attached :: "int \<Rightarrow> attached_shmsegs" where
  "attached shmid = \<lparr>isAttached = 1, at_shmid = shmid\<rparr>"

definition fill_slots :: "attached_shmsegs \<Rightarrow> nat \<Rightarrow> nat \<Rightarrow> (nat \<Rightarrow> attached_shmsegs) \<Rightarrow> nat \<Rightarrow> attached_shmsegs" where
  "fill_slots v a b sl = (\<lambda>i. if a \<le> i \<and> i < b then v else sl i)"

definition attach_count :: "int \<Rightarrow> int \<Rightarrow> shmid_ds \<Rightarrow> shmid_ds" where
  "attach_count now who d = d\<lparr>shm_nattch := shm_nattch d + 1, shm_atime := now, shm_ctime := now, shm_lpid := who\<rparr>"

abbreviation shm_perm_bits :: "int \<Rightarrow> u32" where
  "shm_perm_bits shmflag \<equiv> (if shmflag AND 2 \<noteq> 0 then PTE_W OR PTE_U else PTE_U)"

definition attach_pte :: "(nat \<Rightarrow> shmid_ds) \<Rightarrow> nat \<Rightarrow> nat \<Rightarrow> int \<Rightarrow> nat \<Rightarrow> u32" where
  "attach_pte g b si shmflag pn = V2P (shm_pa (g (b + (pn - 0x7F000 - si)))) OR shm_perm_bits shmflag OR PTE_P"

lemma fill_slots_first: "a < b \<Longrightarrow> fill_slots v (Suc a) b (sl(a := v)) = fill_slots v a b sl"
  by (auto simp: fill_slots_def fun_eq_iff)

lemma mapped_segs_first: "a < b \<Longrightarrow> mapped_segs f (Suc a) b (g(a := f (g a))) = mapped_segs f a b g"
  by (auto simp: mapped_segs_def fun_eq_iff)

lemma attach_loop_step:
  fixes s :: "'a shm_scheme"
  assumes calm: "settled s = s" and vm: "vm_ok s (pgdir (ptable s p)) ps" and pool: "ps \<noteq> []"
    and idx: "b + i < SHMMAXSEG" "si + i < 4096"
    and free: "pte_of (mem s) (pgdir (ptable s p)) (shm_va (si + i)) AND PTE_P = 0"
  defines "pd \<equiv> pgdir (ptable s p)"
  defines "pt \<equiv> (ptable s)(p := (ptable s p)\<lparr>shmsegs := (shmsegs (ptable s p))(si + i := attached (int b))\<rparr>)"
  defines "g \<equiv> (shm_segs s)(b + i := attach_count (shm_now s) (pid (ptable s p)) (shm_segs s (b + i)))"
  shows "\<exists>m f qs. attach_loop (i # is) (int b) A (shm_va (si + i)) (int si) fl p s
      = attach_loop is (int b) A (shm_va (si + Suc i)) (int si) fl p
          (s\<lparr>ptable := pt, shm_segs := g, mem := m, freelist := f\<rparr>)
    \<and> vm_step s ps (s\<lparr>mem := m, freelist := f\<rparr>) qs pd \<and> length ps \<le> Suc (length qs)
    \<and> (\<forall>vb. pte_of m pd vb = (if page_no vb = 0x7F000 + (si + i) then
         V2P (shm_pa (shm_segs s (b + i))) OR shm_perm_bits fl OR PTE_P else pte_of (mem s) pd vb))"
proof -
  let ?s = "s\<lparr>ptable := pt, shm_segs := shm_segs s\<rparr>"
  have pd: "pgdir (pt p) = pd" by (simp add: pt_def pd_def)
  have slot: "upd_slot p (int si + int i) (\<lambda>a. a\<lparr>isAttached := 1, at_shmid := int b\<rparr>) s = Inr ?s"
  proof -
    have "nat (int si + int i) = si + i" by simp
    then show ?thesis
      using idx(2) by (cases "shmsegs (ptable s p) (si + i)")
        (simp add: upd_slot_def upd_proc_def pt_def attached_def)
  qed
  have "\<exists>t qs. mappages pd (shm_va (si + i)) PGSIZE (V2P (shm_pa (shm_segs s (b + i)))) (shm_perm_bits fl) ?s = Inr (0, t)
    \<and> vm_step ?s ps t qs pd \<and> length ps \<le> Suc (length qs)
    \<and> (\<forall>vb. pte_of (mem t) pd vb = (if page_no vb = page_no (shm_va (si + i)) then
         V2P (shm_pa (shm_segs s (b + i))) OR shm_perm_bits fl OR PTE_P else pte_of (mem ?s) pd vb))"
    by (rule mappages_page [OF _ shm_va_page(1) _ pool])
      (use vm free idx(2) vm_ok_ext [where s = s and pt = pt and g = "shm_segs s"] in \<open>simp_all add: pd_def\<close>)
  then obtain t qs where t: "mappages pd (shm_va (si + i)) PGSIZE (V2P (shm_pa (shm_segs s (b + i)))) (shm_perm_bits fl) ?s = Inr (0, t)"
    "vm_step ?s ps t qs pd" "length ps \<le> Suc (length qs)"
    "\<forall>vb. pte_of (mem t) pd vb = (if page_no vb = page_no (shm_va (si + i)) then
         V2P (shm_pa (shm_segs s (b + i))) OR shm_perm_bits fl OR PTE_P else pte_of (mem s) pd vb)"
    by auto
  have "phys_frame ?s t" using t(2) by (simp add: vm_step_def)
  moreover have "ksettle ?s = ?s" using calm by (simp add: ksettle_def)
  ultimately obtain m f where tm: "t = ?s\<lparr>mem := m, freelist := f\<rparr>"
    unfolding phys_frame_def by auto
  have seg: "get_seg (int b + int i) ?s = Inr (shm_segs s (b + i))"
    using idx(1) by (simp add: get_seg_def flip: of_nat_add)
  have upd: "upd_seg (int b + int i) (\<lambda>d. d\<lparr>shm_nattch := shm_nattch d + 1, shm_atime := shm_now t,
           shm_ctime := shm_now t, shm_lpid := pid (ptable t p)\<rparr>) t
      = Inr (s\<lparr>ptable := pt, shm_segs := g, mem := m, freelist := f\<rparr>)"
    using idx(1) by (simp add: upd_seg_def tm g_def attach_count_def shm_now_def pt_def flip: of_nat_add)
  have "attach_loop (i # is) (int b) A (shm_va (si + i)) (int si) fl p s
      = attach_loop is (int b) A (shm_va (si + Suc i)) (int si) fl p
          (s\<lparr>ptable := pt, shm_segs := g, mem := m, freelist := f\<rparr>)"
    using slot seg t(1) pd upd shm_va_Suc [of "si + i"] by simp
  moreover have "vm_step s ps (s\<lparr>mem := m, freelist := f\<rparr>) qs pd"
    using t(2) vm_step_ext [where s = s and pt = pt and g = "shm_segs s"] by (simp add: tm)
  moreover have "\<forall>vb. pte_of m pd vb = (if page_no vb = 0x7F000 + (si + i) then
         V2P (shm_pa (shm_segs s (b + i))) OR shm_perm_bits fl OR PTE_P else pte_of (mem s) pd vb)"
    using t(4) shm_va_page(2) [of "si + i"] idx(2) by (simp add: tm)
  ultimately show ?thesis using t(3) by blast
qed

lemma attach_loop_eq:
  fixes s :: "'a shm_scheme"
  assumes "settled s = s" "vm_ok s (pgdir (ptable s p)) ps" "n - i \<le> length ps" "i \<le> n"
    "b + n \<le> SHMMAXSEG" "si + n \<le> 4096"
    "\<And>k. i \<le> k \<Longrightarrow> k < n \<Longrightarrow> pte_of (mem s) (pgdir (ptable s p)) (shm_va (si + k)) AND PTE_P = 0"
  shows "\<exists>m f qs. attach_loop [i..<n] (int b) A (shm_va (si + i)) (int si) fl p s
      = Inr (True, s\<lparr>ptable := (ptable s)(p := (ptable s p)\<lparr>shmsegs :=
              fill_slots (attached (int b)) (si + i) (si + n) (shmsegs (ptable s p))\<rparr>),
            shm_segs := mapped_segs (attach_count (shm_now s) (pid (ptable s p))) (b + i) (b + n) (shm_segs s),
            mem := m, freelist := f\<rparr>)
    \<and> vm_step s ps (s\<lparr>mem := m, freelist := f\<rparr>) qs (pgdir (ptable s p))
    \<and> (\<forall>vb. pte_of m (pgdir (ptable s p)) vb =
         (if 0x7F000 + (si + i) \<le> page_no vb \<and> page_no vb < 0x7F000 + (si + n)
          then attach_pte (shm_segs s) b si fl (page_no vb) else pte_of (mem s) (pgdir (ptable s p)) vb))"
  using assms
proof (induction "n - i" arbitrary: i s ps)
  case 0
  then have i: "i = n" by simp
  have "fill_slots (attached (int b)) (si + n) (si + n) (shmsegs (ptable s p)) = shmsegs (ptable s p)"
    "mapped_segs (attach_count (shm_now s) (pid (ptable s p))) (b + n) (b + n) (shm_segs s) = shm_segs s"
    by (auto simp: fill_slots_def mapped_segs_def fun_eq_iff)
  then show ?case
    using vm_step_full(2) [OF "0.prems"(2)]
    by (intro exI [of _ "mem s"] exI [of _ "freelist s"] exI [of _ ps]) (auto simp: i fun_upd_idem)
next
  case (Suc d)
  then have lt: "i < n" by simp
  then have upt: "[i..<n] = i # [Suc i..<n]" by (rule upt_conv_Cons)
  let ?pd = "pgdir (ptable s p)"
  let ?pt = "(ptable s)(p := (ptable s p)\<lparr>shmsegs := (shmsegs (ptable s p))(si + i := attached (int b))\<rparr>)"
  let ?c = "attach_count (shm_now s) (pid (ptable s p))"
  let ?g = "(shm_segs s)(b + i := ?c (shm_segs s (b + i)))"
  have "ps \<noteq> []" using Suc.prems(3) lt by auto
  then obtain m f qs where st: "attach_loop (i # [Suc i..<n]) (int b) A (shm_va (si + i)) (int si) fl p s
      = attach_loop [Suc i..<n] (int b) A (shm_va (si + Suc i)) (int si) fl p
          (s\<lparr>ptable := ?pt, shm_segs := ?g, mem := m, freelist := f\<rparr>)"
    "vm_step s ps (s\<lparr>mem := m, freelist := f\<rparr>) qs ?pd" "length ps \<le> Suc (length qs)"
    "\<forall>vb. pte_of m ?pd vb = (if page_no vb = 0x7F000 + (si + i) then
         V2P (shm_pa (shm_segs s (b + i))) OR shm_perm_bits fl OR PTE_P else pte_of (mem s) ?pd vb)"
    using attach_loop_step [OF Suc.prems(1,2), of b i si "[Suc i..<n]" A fl] Suc.prems(5-7) lt by auto
  let ?t = "s\<lparr>ptable := ?pt, shm_segs := ?g, mem := m, freelist := f\<rparr>"
  have pdt: "pgdir (ptable ?t p) = ?pd" by simp
  have "\<exists>m' f' qs'. attach_loop [Suc i..<n] (int b) A (shm_va (si + Suc i)) (int si) fl p ?t
      = Inr (True, ?t\<lparr>ptable := (ptable ?t)(p := (ptable ?t p)\<lparr>shmsegs :=
              fill_slots (attached (int b)) (si + Suc i) (si + n) (shmsegs (ptable ?t p))\<rparr>),
            shm_segs := mapped_segs (attach_count (shm_now ?t) (pid (ptable ?t p))) (b + Suc i) (b + n) (shm_segs ?t),
            mem := m', freelist := f'\<rparr>)
    \<and> vm_step ?t qs (?t\<lparr>mem := m', freelist := f'\<rparr>) qs' (pgdir (ptable ?t p))
    \<and> (\<forall>vb. pte_of m' (pgdir (ptable ?t p)) vb =
         (if 0x7F000 + (si + Suc i) \<le> page_no vb \<and> page_no vb < 0x7F000 + (si + n)
          then attach_pte (shm_segs ?t) b si fl (page_no vb) else pte_of (mem ?t) (pgdir (ptable ?t p)) vb))"
  proof (rule Suc.hyps(1))
    show "d = n - Suc i" "Suc i \<le> n" "b + n \<le> SHMMAXSEG" "si + n \<le> 4096" "n - Suc i \<le> length qs"
      using Suc.hyps(2) Suc.prems(3,5,6) lt st(3) by auto
    show "settled ?t = ?t" using Suc.prems(1) by simp
    have "vm_ok (s\<lparr>mem := m, freelist := f\<rparr>) ?pd qs" using st(2) by (simp add: vm_step_def)
    then show "vm_ok ?t (pgdir (ptable ?t p)) qs" by (simp add: vm_ok_def kmem_ok_def kpage_def)
    show "pte_of (mem ?t) (pgdir (ptable ?t p)) (shm_va (si + k)) AND PTE_P = 0" if "Suc i \<le> k" "k < n" for k
      using that st(4) Suc.prems(7) [of k] Suc.prems(6) shm_va_page(2) [of "si + k"] by simp
  qed
  then obtain m' f' qs' where IH: "attach_loop [Suc i..<n] (int b) A (shm_va (si + Suc i)) (int si) fl p ?t
      = Inr (True, ?t\<lparr>ptable := (ptable ?t)(p := (ptable ?t p)\<lparr>shmsegs :=
              fill_slots (attached (int b)) (si + Suc i) (si + n) (shmsegs (ptable ?t p))\<rparr>),
            shm_segs := mapped_segs (attach_count (shm_now ?t) (pid (ptable ?t p))) (b + Suc i) (b + n) (shm_segs ?t),
            mem := m', freelist := f'\<rparr>)"
    "vm_step ?t qs (?t\<lparr>mem := m', freelist := f'\<rparr>) qs' ?pd"
    "\<forall>vb. pte_of m' ?pd vb = (if 0x7F000 + (si + Suc i) \<le> page_no vb \<and> page_no vb < 0x7F000 + (si + n)
          then attach_pte (shm_segs ?t) b si fl (page_no vb) else pte_of m ?pd vb)"
    unfolding pdt by auto
  have now: "shm_now ?t = shm_now s" by (simp add: shm_now_def)
  have slots: "fill_slots (attached (int b)) (si + Suc i) (si + n) (shmsegs (ptable ?t p))
      = fill_slots (attached (int b)) (si + i) (si + n) (shmsegs (ptable s p))"
    using fill_slots_first [of "si + i" "si + n"] lt by simp
  have segs: "mapped_segs ?c (b + Suc i) (b + n) ?g = mapped_segs ?c (b + i) (b + n) (shm_segs s)"
    using mapped_segs_first [of "b + i" "b + n"] lt by simp
  have run: "attach_loop [i..<n] (int b) A (shm_va (si + i)) (int si) fl p s
      = Inr (True, s\<lparr>ptable := (ptable s)(p := (ptable s p)\<lparr>shmsegs :=
              fill_slots (attached (int b)) (si + i) (si + n) (shmsegs (ptable s p))\<rparr>),
            shm_segs := mapped_segs ?c (b + i) (b + n) (shm_segs s), mem := m', freelist := f'\<rparr>)"
    unfolding upt st(1) IH(1) slots now using segs by simp
  have "vm_step (s\<lparr>mem := m, freelist := f\<rparr>) qs (s\<lparr>mem := m', freelist := f'\<rparr>) qs' ?pd"
  proof -
    have "?t = (s\<lparr>mem := m, freelist := f\<rparr>)\<lparr>ptable := ?pt, shm_segs := ?g\<rparr>"
      by (rule shm.equality) simp_all
    moreover have "?t\<lparr>mem := m', freelist := f'\<rparr>
        = (s\<lparr>mem := m, freelist := f\<rparr>)\<lparr>ptable := ?pt, shm_segs := ?g, mem := m', freelist := f'\<rparr>"
      by (rule shm.equality) simp_all
    moreover have "(s\<lparr>mem := m, freelist := f\<rparr>)\<lparr>mem := m', freelist := f'\<rparr> = s\<lparr>mem := m', freelist := f'\<rparr>"
      by simp
    ultimately show ?thesis
      using IH(2) vm_step_ext [where s = "s\<lparr>mem := m, freelist := f\<rparr>" and pt = ?pt and g = ?g] by metis
  qed
  with st(2) have step: "vm_step s ps (s\<lparr>mem := m', freelist := f'\<rparr>) qs' ?pd" by (rule vm_step_trans)
  have same: "attach_pte ?g b si fl pn = attach_pte (shm_segs s) b si fl pn" for pn
    by (simp add: attach_pte_def attach_count_def)
  have "pte_of m' ?pd vb = (if 0x7F000 + (si + i) \<le> page_no vb \<and> page_no vb < 0x7F000 + (si + n)
          then attach_pte (shm_segs s) b si fl (page_no vb) else pte_of (mem s) ?pd vb)" for vb
  proof (cases "page_no vb = 0x7F000 + (si + i)")
    case True
    then show ?thesis using IH(3) st(4) lt by (simp add: attach_pte_def)
  next
    case False
    then have "(0x7F000 + (si + i) \<le> page_no vb) = (0x7F000 + (si + Suc i) \<le> page_no vb)" by auto
    then show ?thesis using IH(3) st(4) False same by simp
  qed
  with run step show ?case by blast
qed

lemma leave_attach:
  fixes s :: "'a shm_scheme"
  assumes "cli_ok s" "lock_free lk s"
  shows "release lk ((enter lk s)\<lparr>ptable := pt, shm_segs := g, mem := m, freelist := f\<rparr>)
    = Inr ((settled s)\<lparr>ptable := pt, shm_segs := g, mem := m, freelist := f\<rparr>)"
proof -
  let ?t = "(enter lk s)\<lparr>ptable := pt, shm_segs := g, mem := m, freelist := f\<rparr>"
  have "release lk ?t = Inr (?t\<lparr>eflags_IF := eflags_IF s, cpus := cpus (settled s), locks := locks s\<rparr>)"
    by (rule release_enter [OF assms]) simp_all
  also have "?t\<lparr>eflags_IF := eflags_IF s, cpus := cpus (settled s), locks := locks s\<rparr>
      = (settled s)\<lparr>ptable := pt, shm_segs := g, mem := m, freelist := f\<rparr>"
    unfolding enter_def Let_def by (subst (2) settled_as_upd) (rule shm.equality; simp)
  finally show ?thesis .
qed

lemma swap_shm_segs:
  "x\<lparr>mem := m, freelist := f, shm_segs := g\<rparr> = x\<lparr>shm_segs := g, mem := m, freelist := f\<rparr>"
  for x :: "'a shm_scheme"
  by (rule shm.equality) simp_all

lemma settled_enter: "cli_ok s \<Longrightarrow> settled (enter lk s) = enter lk s"
  by (simp add: settled_def enter_def cli_ok_def Let_def)

lemma vm_ok_enter:
  assumes "vm_ok s pd ps" "cli_ok s" "lk \<noteq> KmemLock"
  shows "vm_ok (enter lk s) pd ps"
proof -
  have "mem (enter lk s) = mem s" "use_lock (enter lk s) = use_lock s" "kend (enter lk s) = kend s"
    "freelist (enter lk s) = freelist s"
    by (simp_all add: enter_def Let_def)
  then show ?thesis
    using assms cli_ok_enter [OF assms(2)] by (simp add: vm_ok_def kmem_ok_def kpage_def)
qed

lemma seg_pages_int_mult: "n \<le> 4096 \<Longrightarrow> seg_pages_int (of_nat (4096 * n)) = int n"
proof -
  assume n: "n \<le> 4096"
  have "sint (of_nat (4096 * n) :: u32) = int (4096 * n)"
    by (rule sint_of_nat_small) (use n in simp)
  then show ?thesis by (simp add: seg_pages_int_def cdiv_def)
qed

text \<open>Attaching at an address the kernel chooses: the lowest run of free slots that is long enough.\<close>

lemma shmat_any:
  fixes s :: "'a shm_scheme"
  assumes ok: "shm_ok s ps G" and x: "(b, n) \<in> G"
    and p: "running s (curcpu s) = Some p" and vm: "vm_ok s (pgdir (ptable s p)) ps"
    and pool: "n \<le> length ps"
    and clean: "\<And>k. k < 4096 \<Longrightarrow> isAttached (shmsegs (ptable s p) k) = 0 \<Longrightarrow>
      pte_of (mem s) (pgdir (ptable s p)) (shm_va k) AND PTE_P = 0"
    and run: "si + n \<le> 4096" "free_run (\<lambda>k. isAttached (shmsegs (ptable s p) k) = 0) n si"
      "\<And>c. c < si \<Longrightarrow> \<not> free_run (\<lambda>k. isAttached (shmsegs (ptable s p) k) = 0) n c"
  defines "now \<equiv> shm_now (s\<lparr>shm_r := rtc s\<rparr>)"
  shows "\<exists>m f qs. shmatHelper (int b) 0 fl s = Inr (shm_va si, (settled s)\<lparr>shm_r := rtc s,
      ptable := (ptable s)(p := (ptable s p)\<lparr>shmsegs := fill_slots (attached (int b)) si (si + n) (shmsegs (ptable s p))\<rparr>),
      shm_segs := mapped_segs (attach_count now (pid (ptable s p))) b (b + n) (shm_segs s),
      mem := m, freelist := f\<rparr>)
    \<and> vm_step s ps (s\<lparr>mem := m, freelist := f\<rparr>) qs (pgdir (ptable s p))
    \<and> (\<forall>vb. pte_of m (pgdir (ptable s p)) vb =
         (if 0x7F000 + si \<le> page_no vb \<and> page_no vb < 0x7F000 + (si + n)
          then attach_pte (shm_segs s) b si fl (page_no vb) else pte_of (mem s) (pgdir (ptable s p)) vb))"
proof -
  note sf = seg_facts [OF ok x]
  have s: "cli_ok s" "use_lock s" "lock_free ShmLock s" using ok by (simp_all add: shm_ok_def)
  let ?free = "\<lambda>k. isAttached (shmsegs (ptable s p) k) = 0"
  have ff: "first_fit ?free n [0..<4096] (- 1) 0 = int si"
  proof (cases rule: first_fit_cases [OF sf(1), of ?free 4096, case_names none some])
    case none
    then show ?thesis using run(1,2) by blast
  next
    case (some c)
    have "c = si" using some run by (metis linorder_neqE_nat)
    then show ?thesis using some(1) by simp
  qed
  have req: "seg_pages_int (shm_segsz (shm_segs s b)) = int n"
    using seg_pages_int_mult [of n] sf(3,4) by simp
  have nz: "int_of_u32 (shm_segsz (shm_segs s b)) \<noteq> 0"
    using sint_of_nat_small [of "4096 * n"] sf(1,3,4) by simp
  let ?s1 = "(settled s)\<lparr>shm_r := rtc s\<rparr>"
  let ?e = "enter ShmLock ?s1"
  have s1: "cli_ok ?s1" "lock_free ShmLock ?s1" "settled ?s1 = ?s1" "running ?s1 (curcpu ?s1) = Some p"
    using s p by (simp_all add: cli_ok_def settled_def Let_def lock_free_def)
  have vm1: "vm_ok ?s1 (pgdir (ptable s p)) ps"
    using vm by (simp add: vm_ok_def kmem_ok_def kpage_def cli_ok_def lock_free_def) (simp add: settled_def Let_def)
  have vme: "vm_ok ?e (pgdir (ptable s p)) ps" by (rule vm_ok_enter [OF vm1 s1(1)]) simp
  have free: "pte_of (mem ?e) (pgdir (ptable ?e p)) (shm_va (si + k)) AND PTE_P = 0" if "0 \<le> k" "k < n" for k
    using clean [of "si + k"] that run(1,2) by (simp add: free_run_def)
  have "\<exists>m f qs. attach_loop [0..<n] (int b) (shm_va si) (shm_va (si + 0)) (int si) fl p ?e
      = Inr (True, ?e\<lparr>ptable := (ptable ?e)(p := (ptable ?e p)\<lparr>shmsegs :=
              fill_slots (attached (int b)) (si + 0) (si + n) (shmsegs (ptable ?e p))\<rparr>),
            shm_segs := mapped_segs (attach_count (shm_now ?e) (pid (ptable ?e p))) (b + 0) (b + n) (shm_segs ?e),
            mem := m, freelist := f\<rparr>)
    \<and> vm_step ?e ps (?e\<lparr>mem := m, freelist := f\<rparr>) qs (pgdir (ptable ?e p))
    \<and> (\<forall>vb. pte_of m (pgdir (ptable ?e p)) vb =
         (if 0x7F000 + (si + 0) \<le> page_no vb \<and> page_no vb < 0x7F000 + (si + n)
          then attach_pte (shm_segs ?e) b si fl (page_no vb) else pte_of (mem ?e) (pgdir (ptable ?e p)) vb))"
    by (rule attach_loop_eq [OF settled_enter [OF s1(1)] _ _ _ sf(3) run(1) free])
      (use vme pool in simp_all)
  moreover have "shm_now ?e = now" by (simp add: shm_now_def now_def)
  ultimately obtain m f qs where loop: "attach_loop [0..<n] (int b) (shm_va si) (shm_va si) (int si) fl p ?e
      = Inr (True, ?e\<lparr>ptable := (ptable s)(p := (ptable s p)\<lparr>shmsegs :=
              fill_slots (attached (int b)) si (si + n) (shmsegs (ptable s p))\<rparr>),
            shm_segs := mapped_segs (attach_count now (pid (ptable s p))) b (b + n) (shm_segs s),
            mem := m, freelist := f\<rparr>)"
    "vm_step ?e ps (?e\<lparr>mem := m, freelist := f\<rparr>) qs (pgdir (ptable s p))"
    "\<forall>vb. pte_of m (pgdir (ptable s p)) vb =
         (if 0x7F000 + si \<le> page_no vb \<and> page_no vb < 0x7F000 + (si + n)
          then attach_pte (shm_segs s) b si fl (page_no vb) else pte_of (mem s) (pgdir (ptable s p)) vb)"
    by auto
  have va: "u32_of_int (int si * 4096 + 0x7F000000) = shm_va si" "shm_va si \<noteq> 0"
    using shm_va_int unat_shm_va [of si] run(1) by (auto simp: unat_eq_0 [symmetric])
  have cur: "curproc s = Inr (p, settled s)" "curproc ?s1 = Inr (p, ?s1)"
    using myproc_eq [OF s(1)] myproc_eq [OF s1(1)] p s1(3,4) by (simp_all add: curproc_def)
  have alloc: "allocshmuvm (int b) (shm_va si) (int n) (int si) fl (settled s) = Inr (shm_va si, ?s1
      \<lparr>ptable := (ptable s)(p := (ptable s p)\<lparr>shmsegs := fill_slots (attached (int b)) si (si + n) (shmsegs (ptable s p))\<rparr>),
      shm_segs := mapped_segs (attach_count now (pid (ptable s p))) b (b + n) (shm_segs s), mem := m, freelist := f\<rparr>)"
    unfolding allocshmuvm_def Let_def cmostime_r_def
    using cur(2) acquire_free [OF s1(1,2)] loop(1) leave_attach [OF s1(1,2)] s1(3) by simp
  have range: "\<not> (int b < 0 \<or> lastShmSegIndex s < int b)" using sf(6) by simp
  have "shmatHelper (int b) 0 fl s = Inr (shm_va si, ?s1
      \<lparr>ptable := (ptable s)(p := (ptable s p)\<lparr>shmsegs := fill_slots (attached (int b)) si (si + n) (shmsegs (ptable s p))\<rparr>),
      shm_segs := mapped_segs (attach_count now (pid (ptable s p))) b (b + n) (shm_segs s), mem := m, freelist := f\<rparr>)"
    unfolding shmatHelper_def if_not_P [OF range]
    using sf(1,3) nz req cur(1) ff va alloc by (simp add: get_seg_def Let_def)
  moreover have "vm_step s ps (s\<lparr>mem := m, freelist := f\<rparr>) qs (pgdir (ptable s p))"
  proof -
    have pf: "phys_frame s (s\<lparr>mem := m, freelist := f\<rparr>)" unfolding phys_frame_def by blast
    have "kmem_ok (s\<lparr>mem := m, freelist := f\<rparr>) qs = kmem_ok (?e\<lparr>mem := m, freelist := f\<rparr>) qs"
      using s(1,2) vm cli_ok_enter [OF s1(1)] by (simp add: kmem_ok_def kpage_def vm_ok_def)
    then show ?thesis using loop(2) pf by (simp add: vm_step_def vm_ok_def)
  qed
  ultimately show ?thesis using loop(3) by blast
qed

section \<open>Detaching\<close>

definition detach_count :: "int \<Rightarrow> int \<Rightarrow> shmid_ds \<Rightarrow> shmid_ds" where
  "detach_count now who d = d\<lparr>shm_nattch := shm_nattch d - 1, shm_dtime := now, shm_lpid := who\<rparr>"

definition unmark :: "nat \<Rightarrow> nat \<Rightarrow> (nat \<Rightarrow> attached_shmsegs) \<Rightarrow> nat \<Rightarrow> attached_shmsegs" where
  "unmark a b sl = (\<lambda>i. if a \<le> i \<and> i < b then (sl i)\<lparr>isAttached := 0\<rparr> else sl i)"

lemma unmark_first: "a < b \<Longrightarrow> unmark (Suc a) b (sl(a := (sl a)\<lparr>isAttached := 0\<rparr>)) = unmark a b sl"
  by (auto simp: unmark_def fun_eq_iff)

lemma detach_loop_step:
  fixes s :: "'a shm_scheme"
  assumes vm: "vm_ok s (pgdir (ptable s p)) ps" and calm: "settled s = s"
    and idx: "b + i < SHMMAXSEG" "si + i < 4096"
    and pres: "pt_present (mem s) (pgdir (ptable s p)) (PDX (shm_va (si + i)))"
  defines "pd \<equiv> pgdir (ptable s p)"
  defines "pt \<equiv> (ptable s)(p := (ptable s p)\<lparr>shmsegs := (shmsegs (ptable s p))
      (si + i := (shmsegs (ptable s p) (si + i))\<lparr>isAttached := 0\<rparr>)\<rparr>)"
  defines "g \<equiv> (shm_segs s)(b + i := detach_count (shm_now s) (pid (ptable s p)) (shm_segs s (b + i)))"
  shows "\<exists>m f. detach_loop (i # is) (int b) (int si) p s
      = detach_loop is (int b) (int si) p (s\<lparr>ptable := pt, shm_segs := g, mem := m, freelist := f\<rparr>)
    \<and> vm_step s ps (s\<lparr>mem := m, freelist := f\<rparr>) ps pd
    \<and> (\<forall>vb. pte_of m pd vb = (if page_no vb = 0x7F000 + (si + i) then pte_of (mem s) pd (shm_va (si + i)) AND NOT PTE_P
         else pte_of (mem s) pd vb))"
proof -
  let ?s = "s\<lparr>ptable := pt, shm_segs := g\<rparr>"
  have slot: "upd_slot p (int si + int i) (\<lambda>a. a\<lparr>isAttached := 0\<rparr>) s = Inr (s\<lparr>ptable := pt\<rparr>)"
  proof -
    have "nat (int si + int i) = si + i" by simp
    then show ?thesis using idx(2) by (simp add: upd_slot_def upd_proc_def pt_def)
  qed
  have upd: "upd_seg (int b + int i) (\<lambda>d. d\<lparr>shm_nattch := shm_nattch d - 1, shm_dtime := shm_now (s\<lparr>ptable := pt\<rparr>),
         shm_lpid := pid (ptable (s\<lparr>ptable := pt\<rparr>) p)\<rparr>) (s\<lparr>ptable := pt\<rparr>) = Inr ?s"
    using idx(1) by (simp add: upd_seg_def g_def detach_count_def shm_now_def pt_def flip: of_nat_add)
  have pd: "pgdir (ptable ?s p) = pd" by (simp add: pt_def pd_def)
  have "\<exists>t. clearmapping pd (shm_va (si + i)) ?s = Inr t \<and> vm_step ?s ps t ps pd
    \<and> (\<forall>vb. pte_of (mem t) pd vb = (if page_no vb = page_no (shm_va (si + i))
          then pte_of (mem ?s) pd (shm_va (si + i)) AND NOT PTE_P else pte_of (mem ?s) pd vb))"
    by (rule clearmapping_spec) (use vm pres vm_ok_ext [where s = s and pt = pt and g = g] in \<open>simp_all add: pd_def\<close>)
  then obtain t where t: "clearmapping pd (shm_va (si + i)) ?s = Inr t" "vm_step ?s ps t ps pd"
    "\<forall>vb. pte_of (mem t) pd vb = (if page_no vb = page_no (shm_va (si + i))
          then pte_of (mem s) pd (shm_va (si + i)) AND NOT PTE_P else pte_of (mem s) pd vb)"
    by auto
  have "phys_frame ?s t" using t(2) by (simp add: vm_step_def)
  moreover have "ksettle ?s = ?s" using calm by (simp add: ksettle_def)
  ultimately obtain m f where tm: "t = ?s\<lparr>mem := m, freelist := f\<rparr>"
    unfolding phys_frame_def by auto
  have va: "u32_of_int ((int si + int i) * 4096 + 0x7F000000) = shm_va (si + i)"
    using shm_va_int [of "si + i"] by simp
  have "detach_loop (i # is) (int b) (int si) p s
      = detach_loop is (int b) (int si) p (s\<lparr>ptable := pt, shm_segs := g, mem := m, freelist := f\<rparr>)"
    using slot upd t(1) pd va by (simp add: tm)
  moreover have "vm_step s ps (s\<lparr>mem := m, freelist := f\<rparr>) ps pd"
    using t(2) vm_step_ext [where s = s and pt = pt and g = g] by (simp add: tm)
  moreover have "\<forall>vb. pte_of m pd vb = (if page_no vb = 0x7F000 + (si + i) then pte_of (mem s) pd (shm_va (si + i)) AND NOT PTE_P
         else pte_of (mem s) pd vb)"
    using t(3) shm_va_page(2) [of "si + i"] idx(2) by (simp add: tm)
  ultimately show ?thesis by blast
qed

lemma pte_present: "pte_of m pd va AND PTE_P \<noteq> 0 \<Longrightarrow> pt_present m pd (PDX va)"
  by (auto simp: pte_of_def split: if_splits)

lemma detach_loop_eq:
  fixes s :: "'a shm_scheme"
  assumes "vm_ok s (pgdir (ptable s p)) ps" "settled s = s" "i \<le> n" "b + n \<le> SHMMAXSEG" "si + n \<le> 4096"
    "\<And>k. i \<le> k \<Longrightarrow> k < n \<Longrightarrow> pte_of (mem s) (pgdir (ptable s p)) (shm_va (si + k)) AND PTE_P \<noteq> 0"
  shows "\<exists>m f. detach_loop [i..<n] (int b) (int si) p s
      = Inr (s\<lparr>ptable := (ptable s)(p := (ptable s p)\<lparr>shmsegs := unmark (si + i) (si + n) (shmsegs (ptable s p))\<rparr>),
            shm_segs := mapped_segs (detach_count (shm_now s) (pid (ptable s p))) (b + i) (b + n) (shm_segs s),
            mem := m, freelist := f\<rparr>)
    \<and> vm_step s ps (s\<lparr>mem := m, freelist := f\<rparr>) ps (pgdir (ptable s p))
    \<and> (\<forall>vb. pte_of m (pgdir (ptable s p)) vb =
         (if 0x7F000 + (si + i) \<le> page_no vb \<and> page_no vb < 0x7F000 + (si + n)
          then pte_of (mem s) (pgdir (ptable s p)) (shm_va (page_no vb - 0x7F000)) AND NOT PTE_P
          else pte_of (mem s) (pgdir (ptable s p)) vb))"
  using assms
proof (induction "n - i" arbitrary: i s)
  case 0
  then have i: "i = n" by simp
  have "unmark (si + n) (si + n) (shmsegs (ptable s p)) = shmsegs (ptable s p)"
    "mapped_segs (detach_count (shm_now s) (pid (ptable s p))) (b + n) (b + n) (shm_segs s) = shm_segs s"
    by (auto simp: unmark_def mapped_segs_def fun_eq_iff)
  then show ?case
    using vm_step_full(2) [OF "0.prems"(1)]
    by (intro exI [of _ "mem s"] exI [of _ "freelist s"]) (auto simp: i fun_upd_idem)
next
  case (Suc d)
  then have lt: "i < n" by simp
  then have upt: "[i..<n] = i # [Suc i..<n]" by (rule upt_conv_Cons)
  let ?pd = "pgdir (ptable s p)"
  let ?pt = "(ptable s)(p := (ptable s p)\<lparr>shmsegs := (shmsegs (ptable s p))
      (si + i := (shmsegs (ptable s p) (si + i))\<lparr>isAttached := 0\<rparr>)\<rparr>)"
  let ?c = "detach_count (shm_now s) (pid (ptable s p))"
  let ?g = "(shm_segs s)(b + i := ?c (shm_segs s (b + i)))"
  obtain m f where st: "detach_loop (i # [Suc i..<n]) (int b) (int si) p s
      = detach_loop [Suc i..<n] (int b) (int si) p (s\<lparr>ptable := ?pt, shm_segs := ?g, mem := m, freelist := f\<rparr>)"
    "vm_step s ps (s\<lparr>mem := m, freelist := f\<rparr>) ps ?pd"
    "\<forall>vb. pte_of m ?pd vb = (if page_no vb = 0x7F000 + (si + i) then pte_of (mem s) ?pd (shm_va (si + i)) AND NOT PTE_P
         else pte_of (mem s) ?pd vb)"
    using detach_loop_step [OF Suc.prems(1,2), of b i si "[Suc i..<n]"] pte_present [OF Suc.prems(6) [of i]]
      Suc.prems(4,5) lt by auto
  let ?t = "s\<lparr>ptable := ?pt, shm_segs := ?g, mem := m, freelist := f\<rparr>"
  have pdt: "pgdir (ptable ?t p) = ?pd" by simp
  have kept: "pte_of m ?pd (shm_va (si + k)) = pte_of (mem s) ?pd (shm_va (si + k))" if "Suc i \<le> k" "k < n" for k
    using that st(3) Suc.prems(5) shm_va_page(2) [of "si + k"] by simp
  have "\<exists>m' f'. detach_loop [Suc i..<n] (int b) (int si) p ?t
      = Inr (?t\<lparr>ptable := (ptable ?t)(p := (ptable ?t p)\<lparr>shmsegs := unmark (si + Suc i) (si + n) (shmsegs (ptable ?t p))\<rparr>),
            shm_segs := mapped_segs (detach_count (shm_now ?t) (pid (ptable ?t p))) (b + Suc i) (b + n) (shm_segs ?t),
            mem := m', freelist := f'\<rparr>)
    \<and> vm_step ?t ps (?t\<lparr>mem := m', freelist := f'\<rparr>) ps (pgdir (ptable ?t p))
    \<and> (\<forall>vb. pte_of m' (pgdir (ptable ?t p)) vb =
         (if 0x7F000 + (si + Suc i) \<le> page_no vb \<and> page_no vb < 0x7F000 + (si + n)
          then pte_of (mem ?t) (pgdir (ptable ?t p)) (shm_va (page_no vb - 0x7F000)) AND NOT PTE_P
          else pte_of (mem ?t) (pgdir (ptable ?t p)) vb))"
  proof (rule Suc.hyps(1))
    show "d = n - Suc i" "Suc i \<le> n" "b + n \<le> SHMMAXSEG" "si + n \<le> 4096"
      using Suc.hyps(2) Suc.prems(4,5) lt by auto
    show "settled ?t = ?t" using Suc.prems(2) by simp
    have "vm_ok (s\<lparr>mem := m, freelist := f\<rparr>) ?pd ps" using st(2) by (simp add: vm_step_def)
    then show "vm_ok ?t (pgdir (ptable ?t p)) ps" by (simp add: vm_ok_def kmem_ok_def kpage_def)
    show "pte_of (mem ?t) (pgdir (ptable ?t p)) (shm_va (si + k)) AND PTE_P \<noteq> 0" if "Suc i \<le> k" "k < n" for k
      using kept [OF that] Suc.prems(6) [of k] that by simp
  qed
  then obtain m' f' where IH: "detach_loop [Suc i..<n] (int b) (int si) p ?t
      = Inr (?t\<lparr>ptable := (ptable ?t)(p := (ptable ?t p)\<lparr>shmsegs := unmark (si + Suc i) (si + n) (shmsegs (ptable ?t p))\<rparr>),
            shm_segs := mapped_segs (detach_count (shm_now ?t) (pid (ptable ?t p))) (b + Suc i) (b + n) (shm_segs ?t),
            mem := m', freelist := f'\<rparr>)"
    "vm_step ?t ps (?t\<lparr>mem := m', freelist := f'\<rparr>) ps ?pd"
    "\<forall>vb. pte_of m' ?pd vb = (if 0x7F000 + (si + Suc i) \<le> page_no vb \<and> page_no vb < 0x7F000 + (si + n)
          then pte_of m ?pd (shm_va (page_no vb - 0x7F000)) AND NOT PTE_P else pte_of m ?pd vb)"
    unfolding pdt by auto
  have now: "shm_now ?t = shm_now s" by (simp add: shm_now_def)
  have slots: "unmark (si + Suc i) (si + n) (shmsegs (ptable ?t p)) = unmark (si + i) (si + n) (shmsegs (ptable s p))"
    using unmark_first [of "si + i" "si + n"] lt by simp
  have segs: "mapped_segs ?c (b + Suc i) (b + n) ?g = mapped_segs ?c (b + i) (b + n) (shm_segs s)"
    using mapped_segs_first [of "b + i" "b + n"] lt by simp
  have run: "detach_loop [i..<n] (int b) (int si) p s
      = Inr (s\<lparr>ptable := (ptable s)(p := (ptable s p)\<lparr>shmsegs := unmark (si + i) (si + n) (shmsegs (ptable s p))\<rparr>),
            shm_segs := mapped_segs ?c (b + i) (b + n) (shm_segs s), mem := m', freelist := f'\<rparr>)"
    unfolding upt st(1) IH(1) slots now using segs by simp
  have "vm_step (s\<lparr>mem := m, freelist := f\<rparr>) ps (s\<lparr>mem := m', freelist := f'\<rparr>) ps ?pd"
  proof -
    have "?t = (s\<lparr>mem := m, freelist := f\<rparr>)\<lparr>ptable := ?pt, shm_segs := ?g\<rparr>"
      by (rule shm.equality) simp_all
    moreover have "?t\<lparr>mem := m', freelist := f'\<rparr>
        = (s\<lparr>mem := m, freelist := f\<rparr>)\<lparr>ptable := ?pt, shm_segs := ?g, mem := m', freelist := f'\<rparr>"
      by (rule shm.equality) simp_all
    moreover have "(s\<lparr>mem := m, freelist := f\<rparr>)\<lparr>mem := m', freelist := f'\<rparr> = s\<lparr>mem := m', freelist := f'\<rparr>"
      by simp
    ultimately show ?thesis
      using IH(2) vm_step_ext [where s = "s\<lparr>mem := m, freelist := f\<rparr>" and pt = ?pt and g = ?g] by metis
  qed
  with st(2) have step: "vm_step s ps (s\<lparr>mem := m', freelist := f'\<rparr>) ps ?pd" by (rule vm_step_trans)
  have "pte_of m' ?pd vb = (if 0x7F000 + (si + i) \<le> page_no vb \<and> page_no vb < 0x7F000 + (si + n)
          then pte_of (mem s) ?pd (shm_va (page_no vb - 0x7F000)) AND NOT PTE_P else pte_of (mem s) ?pd vb)" for vb
  proof (cases "page_no vb = 0x7F000 + (si + i)")
    case True
    then show ?thesis using IH(3) st(3) lt by simp
  next
    case False
    then have eq: "(0x7F000 + (si + i) \<le> page_no vb) = (0x7F000 + (si + Suc i) \<le> page_no vb)" by auto
    show ?thesis
    proof (cases "0x7F000 + (si + Suc i) \<le> page_no vb \<and> page_no vb < 0x7F000 + (si + n)")
      case True
      then have "page_no vb - 0x7F000 = si + (page_no vb - 0x7F000 - si)" "Suc i \<le> page_no vb - 0x7F000 - si"
        "page_no vb - 0x7F000 - si < n" by auto
      then have "pte_of m ?pd (shm_va (page_no vb - 0x7F000)) = pte_of (mem s) ?pd (shm_va (page_no vb - 0x7F000))"
        using kept by metis
      then show ?thesis using IH(3) True eq by simp
    next
      case no: False
      have "pte_of m' ?pd vb = pte_of m ?pd vb" using spec [OF IH(3), of vb] unfolding if_not_P [OF no] .
      also have "\<dots> = pte_of (mem s) ?pd vb" using st(3) False by simp
      finally show ?thesis unfolding eq if_not_P [OF no] .
    qed
  qed
  with run step show ?case by blast
qed

lemma shm_va_args:
  assumes "si < 4096"
  shows "\<not> bad_shmaddr (0x7F000000 + 4096 * int si)"
    "uint ((u32_of_int (0x7F000000 + 4096 * int si) - 0x7F000000) div 4096) = int si"
proof -
  have va: "u32_of_int (0x7F000000 + 4096 * int si) = shm_va si" using shm_va_int [of si] by (simp add: algebra_simps)
  have u: "unat (shm_va si) = 0x7F000000 + 4096 * si" using unat_shm_va [of si] assms by simp
  then have "\<not> (0x80000000 < shm_va si)" using assms by (simp add: word_less_nat_alt)
  then show "\<not> bad_shmaddr (0x7F000000 + 4096 * int si)" unfolding bad_shmaddr_def va by simp
  have "unat (shm_va si - 0x7F000000) = 4096 * si" using u by (simp add: unat_sub word_le_nat_alt)
  then have "unat ((shm_va si - 0x7F000000) div 4096) = si" unfolding unat_div by simp
  then show "uint ((u32_of_int (0x7F000000 + 4096 * int si) - 0x7F000000) div 4096) = int si"
    unfolding va uint_nat by simp
qed

lemma shmdt_any:
  fixes s :: "'a shm_scheme"
  assumes ok: "shm_ok s ps G" and x: "(b, n) \<in> G"
    and p: "running s (curcpu s) = Some p" and vm: "vm_ok s (pgdir (ptable s p)) ps"
    and slot: "isAttached (shmsegs (ptable s p) si) \<noteq> 0" "at_shmid (shmsegs (ptable s p) si) = int b" "si + n \<le> 4096"
    and mapped: "\<And>k. k < n \<Longrightarrow> pte_of (mem s) (pgdir (ptable s p)) (shm_va (si + k)) AND PTE_P \<noteq> 0"
  defines "now \<equiv> shm_now (s\<lparr>shm_r := rtc s\<rparr>)"
  defines "sl \<equiv> (shmsegs (ptable s p))(si := \<lparr>isAttached = 0, at_shmid = - 1\<rparr>)"
  defines "g \<equiv> mapped_segs (detach_count now (pid (ptable s p))) b (b + n) (shm_segs s)"
  shows "\<exists>m f. shmdtHelper (0x7F000000 + 4096 * int si) s = Inr (0, (settled s)\<lparr>shm_r := rtc s,
      ptable := (ptable s)(p := (ptable s p)\<lparr>shmsegs := unmark si (si + n) sl\<rparr>),
      shm_segs := g(b := set_mode (\<lambda>md. md OR SHM_DEST) (g b)), mem := m, freelist := f\<rparr>)
    \<and> vm_step s ps (s\<lparr>mem := m, freelist := f\<rparr>) ps (pgdir (ptable s p))
    \<and> (\<forall>vb. pte_of m (pgdir (ptable s p)) vb =
         (if 0x7F000 + si \<le> page_no vb \<and> page_no vb < 0x7F000 + (si + n)
          then pte_of (mem s) (pgdir (ptable s p)) (shm_va (page_no vb - 0x7F000)) AND NOT PTE_P
          else pte_of (mem s) (pgdir (ptable s p)) vb))"
proof -
  note sf = seg_facts [OF ok x]
  have si: "si < 4096" using sf(1) slot(3) by simp
  have s: "cli_ok s" "use_lock s" "lock_free ShmLock s" using ok by (simp_all add: shm_ok_def)
  have req: "seg_pages_int (shm_segsz (shm_segs s b)) = int n"
    using seg_pages_int_mult [of n] sf(3,4) by simp
  let ?s0 = "s\<lparr>shm_r := rtc s\<rparr>"
  let ?pt = "(ptable s)(p := (ptable s p)\<lparr>shmsegs := sl\<rparr>)"
  let ?s1 = "(settled s)\<lparr>shm_r := rtc s, ptable := ?pt\<rparr>"
  let ?e = "enter ShmLock ?s1"
  have s1: "cli_ok ?s1" "lock_free ShmLock ?s1" "settled ?s1 = ?s1"
    using s by (simp_all add: cli_ok_def settled_def Let_def lock_free_def)
  have cur: "curproc ?s0 = Inr (p, (settled s)\<lparr>shm_r := rtc s\<rparr>)"
    using myproc_eq [of ?s0] s(1) p by (simp add: curproc_def)
  have vm1: "vm_ok ?s1 (pgdir (ptable s p)) ps"
    using vm by (simp add: vm_ok_def kmem_ok_def kpage_def cli_ok_def lock_free_def) (simp add: settled_def Let_def)
  have vme: "vm_ok ?e (pgdir (ptable s p)) ps" by (rule vm_ok_enter [OF vm1 s1(1)]) simp
  have ptab: "ptable ?e = ?pt" "mem ?e = mem s" "shm_segs ?e = shm_segs s" "shm_now ?e = now"
    by (simp_all add: shm_now_def now_def)
  have "\<exists>m f. detach_loop [0..<n] (int b) (int si) p ?e
      = Inr (?e\<lparr>ptable := (ptable ?e)(p := (ptable ?e p)\<lparr>shmsegs := unmark (si + 0) (si + n) (shmsegs (ptable ?e p))\<rparr>),
            shm_segs := mapped_segs (detach_count (shm_now ?e) (pid (ptable ?e p))) (b + 0) (b + n) (shm_segs ?e),
            mem := m, freelist := f\<rparr>)
    \<and> vm_step ?e ps (?e\<lparr>mem := m, freelist := f\<rparr>) ps (pgdir (ptable ?e p))
    \<and> (\<forall>vb. pte_of m (pgdir (ptable ?e p)) vb =
         (if 0x7F000 + (si + 0) \<le> page_no vb \<and> page_no vb < 0x7F000 + (si + n)
          then pte_of (mem ?e) (pgdir (ptable ?e p)) (shm_va (page_no vb - 0x7F000)) AND NOT PTE_P
          else pte_of (mem ?e) (pgdir (ptable ?e p)) vb))"
    by (rule detach_loop_eq [OF _ settled_enter [OF s1(1)] _ sf(3) slot(3)])
      (use vme mapped in \<open>simp_all add: ptab\<close>)
  then obtain m f where loop: "detach_loop [0..<n] (int b) (int si) p ?e
      = Inr (?e\<lparr>ptable := (ptable s)(p := (ptable s p)\<lparr>shmsegs := unmark si (si + n) sl\<rparr>),
            shm_segs := g, mem := m, freelist := f\<rparr>)"
    "vm_step ?e ps (?e\<lparr>mem := m, freelist := f\<rparr>) ps (pgdir (ptable s p))"
    "\<forall>vb. pte_of m (pgdir (ptable s p)) vb =
         (if 0x7F000 + si \<le> page_no vb \<and> page_no vb < 0x7F000 + (si + n)
          then pte_of (mem s) (pgdir (ptable s p)) (shm_va (page_no vb - 0x7F000)) AND NOT PTE_P
          else pte_of (mem s) (pgdir (ptable s p)) vb)"
    unfolding ptab g_def by auto
  have up: "upd_slot p (int si) (\<lambda>a. a\<lparr>isAttached := 0, at_shmid := - 1\<rparr>) ((settled s)\<lparr>shm_r := rtc s\<rparr>) = Inr ?s1"
    using si by (cases "shmsegs (ptable s p) si") (simp add: upd_slot_def upd_proc_def sl_def)
  have bn: "b < 4096" using sf(1,3) by simp
  have "shmdtHelper (0x7F000000 + 4096 * int si) s = Inr (0, (settled s)\<lparr>shm_r := rtc s,
      ptable := (ptable s)(p := (ptable s p)\<lparr>shmsegs := unmark si (si + n) sl\<rparr>),
      shm_segs := g(b := set_mode (\<lambda>md. md OR SHM_DEST) (g b)), mem := m, freelist := f\<rparr>)"
    unfolding shmdtHelper_def if_not_P [OF shm_va_args(1) [OF si]] Let_def cmostime_r_def
      shm_va_args(2) [OF si] cur rbind_simps prod.case
    using si slot(1,2) up bn req acquire_free [OF s1(1,2)] loop(1) s1(3)
      leave_attach [OF s1(1,2), where g = "g(b := set_mode (\<lambda>md. md OR SHM_DEST) (g b))"]
    by (simp add: get_slot_def get_seg_def upd_seg_def swap_shm_segs)
  moreover have "vm_step s ps (s\<lparr>mem := m, freelist := f\<rparr>) ps (pgdir (ptable s p))"
  proof -
    have pf: "phys_frame s (s\<lparr>mem := m, freelist := f\<rparr>)" unfolding phys_frame_def by blast
    have "kmem_ok (s\<lparr>mem := m, freelist := f\<rparr>) ps = kmem_ok (?e\<lparr>mem := m, freelist := f\<rparr>) ps"
      using s(1,2) vm cli_ok_enter [OF s1(1)] by (simp add: kmem_ok_def kpage_def vm_ok_def)
    then show ?thesis using loop(2) pf by (simp add: vm_step_def vm_ok_def)
  qed
  ultimately show ?thesis using loop(3) by blast
qed

end
