(* ===== verification/Sched.thy ===== *)
theory Sched
  imports ProcInv
begin

text \<open>
  The kernel's processes as a transition system. A step is what one CPU does between
  taking and leaving \<^verbatim>\<open>ptable.lock\<close>: the scheduler switches to a process, a process
  switches back (by yielding, sleeping or exiting), or code running on a CPU creates a
  process, makes it runnable, wakes processes up, kills one or reaps a zombie. The
  invariant ties the table to the CPUs.
\<close>

section \<open>Steps\<close>

text \<open>The state as CPU \<open>c\<close> sees it, with its own interrupt flag.\<close>

definition on_cpu :: "nat \<Rightarrow> bool \<Rightarrow> 'a procs_scheme \<Rightarrow> 'a procs_scheme" where
  "on_cpu c i s = s\<lparr>curcpu := c, eflags_IF := i\<rparr>"

definition boot_state :: "'a procs_scheme \<Rightarrow> bool" where
  "boot_state s \<longleftrightarrow> (\<forall>c. cpu_proc (cpus s c) = None) \<and> (\<forall>p. pstate (ptable s p) = UNUSED) \<and> 0 < nextpid s"

inductive sched_step :: "'a procs_scheme \<Rightarrow> 'a procs_scheme \<Rightarrow> bool" where
  dispatch: "running s c = None \<Longrightarrow> acquire PtableLock (on_cpu c i s) = Inr s1 \<Longrightarrow> p < NPROC \<Longrightarrow>
     scheduler_out p s1 = Inr (Some s2) \<Longrightarrow> yield_in j s2 = Inr t \<Longrightarrow> sched_step s t"
| dispatch_new: "running s c = None \<Longrightarrow> acquire PtableLock (on_cpu c i s) = Inr s1 \<Longrightarrow> p < NPROC \<Longrightarrow>
     scheduler_out p s1 = Inr (Some s2) \<Longrightarrow> forkret_release s2 = Inr t \<Longrightarrow> sched_step s t"
| dispatch_slept: "running s c = None \<Longrightarrow> acquire PtableLock (on_cpu c i s) = Inr s1 \<Longrightarrow> p < NPROC \<Longrightarrow>
     scheduler_out p s1 = Inr (Some s2) \<Longrightarrow> sleep_in p lk j s2 = Inr t \<Longrightarrow> sched_step s t"
| yields: "yield_out (on_cpu c i s) = Inr (j, s1) \<Longrightarrow> release PtableLock (scheduler_in s1) = Inr t \<Longrightarrow>
     sched_step s t"
| sleeps: "sleep_out ch lk (on_cpu c i s) = Inr (j, s1) \<Longrightarrow>
     release PtableLock (scheduler_in s1) = Inr t \<Longrightarrow> sched_step s t"
| waits: "acquire PtableLock (on_cpu c i s) = Inr s0 \<Longrightarrow> running s c = Some p \<Longrightarrow>
     sleep_out (ChanProc p) (Some PtableLock) s0 = Inr (j, s1) \<Longrightarrow>
     release PtableLock (scheduler_in s1) = Inr t \<Longrightarrow> sched_step s t"
| exits: "running s c = Some p \<Longrightarrow> exit_sched p (on_cpu c i s) = Inr (j, s1) \<Longrightarrow>
     release PtableLock (scheduler_in s1) = Inr t \<Longrightarrow> sched_step s t"
| creates: "allocproc (on_cpu c i s) = Inr (r, t) \<Longrightarrow> sched_step s t"
| publishes: "pstate (ptable s p) = EMBRYO \<Longrightarrow> make_runnable p (on_cpu c i s) = Inr t \<Longrightarrow> sched_step s t"
| wakes: "wakeup ch (on_cpu c i s) = Inr t \<Longrightarrow> sched_step s t"
| kills: "kill n (on_cpu c i s) = Inr (r, t) \<Longrightarrow> sched_step s t"
| reaps: "wait (on_cpu c i s) = Inr (r, t) \<Longrightarrow> sched_step s t"

inductive sched_reachable :: "'a procs_scheme \<Rightarrow> bool" where
  sched_boot: "boot_state s \<Longrightarrow> sched_reachable s"
| sched_next: "sched_reachable s \<Longrightarrow> sched_step s t \<Longrightarrow> sched_reachable t"

inductive_cases sched_stepE: "sched_step s t"

section \<open>The invariant\<close>

definition run_ok :: "(nat \<Rightarrow> nat option) \<Rightarrow> (nat \<Rightarrow> proc) \<Rightarrow> bool" where
  "run_ok r pt \<longleftrightarrow> (\<forall>c p. r c = Some p \<longrightarrow> p < NPROC \<and> pstate (pt p) = RUNNING)
     \<and> (\<forall>c d p. r c = Some p \<and> r d = Some p \<longrightarrow> c = d)
     \<and> (\<forall>p < NPROC. pstate (pt p) = RUNNING \<longrightarrow> (\<exists>c. r c = Some p))"

definition pid_ok :: "(nat \<Rightarrow> proc) \<Rightarrow> int \<Rightarrow> bool" where
  "pid_ok pt n \<longleftrightarrow> 0 < n
     \<and> (\<forall>p < NPROC. pstate (pt p) \<noteq> UNUSED \<longrightarrow> 0 < pid (pt p) \<and> pid (pt p) < n)
     \<and> (\<forall>p < NPROC. \<forall>q < NPROC. pstate (pt p) \<noteq> UNUSED \<and> pstate (pt q) \<noteq> UNUSED
          \<and> pid (pt p) = pid (pt q) \<longrightarrow> p = q)"

definition sched_inv :: "'a procs_scheme \<Rightarrow> bool" where
  "sched_inv s \<longleftrightarrow> run_ok (running s) (ptable s) \<and> pid_ok (ptable s) (nextpid s)"

lemma run_okD:
  assumes "run_ok r pt"
  shows "r c = Some p \<Longrightarrow> p < NPROC" "r c = Some p \<Longrightarrow> pstate (pt p) = RUNNING"
    "r c = Some p \<Longrightarrow> r d = Some p \<Longrightarrow> c = d"
    "p < NPROC \<Longrightarrow> pstate (pt p) = RUNNING \<Longrightarrow> \<exists>c. r c = Some p"
  using assms unfolding run_ok_def by blast+

lemma run_okI:
  assumes "\<And>c p. r c = Some p \<Longrightarrow> p < NPROC" "\<And>c p. r c = Some p \<Longrightarrow> pstate (pt p) = RUNNING"
    "\<And>c d p. r c = Some p \<Longrightarrow> r d = Some p \<Longrightarrow> c = d"
    "\<And>p. p < NPROC \<Longrightarrow> pstate (pt p) = RUNNING \<Longrightarrow> \<exists>c. r c = Some p"
  shows "run_ok r pt"
  using assms unfolding run_ok_def by blast

lemma run_ok_leave:
  assumes ok: "run_ok r pt" and c: "r c = Some p" and q: "pstate q \<noteq> RUNNING"
  shows "run_ok (r(c := None)) (pt(p := q))"
proof (rule run_okI)
  fix d e x
  assume d: "(r(c := None)) d = Some x"
  then have rd: "d \<noteq> c" "r d = Some x" by (auto split: if_splits)
  then have xp: "x \<noteq> p" using run_okD(3) [OF ok c, of d] by auto
  show "x < NPROC" by (rule run_okD(1) [OF ok rd(2)])
  show "pstate ((pt(p := q)) x) = RUNNING" using xp run_okD(2) [OF ok rd(2)] by simp
  assume "(r(c := None)) e = Some x"
  then show "d = e" using rd run_okD(3) [OF ok] by (auto split: if_splits)
next
  fix x assume x: "x < NPROC" "pstate ((pt(p := q)) x) = RUNNING"
  then have xp: "x \<noteq> p" using q by auto
  then obtain d where "r d = Some x" using run_okD(4) [OF ok x(1)] x(2) by auto
  then show "\<exists>d. (r(c := None)) d = Some x" using xp c by (intro exI [of _ d]) auto
qed

lemma run_ok_enter:
  assumes ok: "run_ok r pt" and c: "r c = None" and p: "p < NPROC" "pstate (pt p) \<noteq> RUNNING"
    and q: "pstate q = RUNNING"
  shows "run_ok (r(c := Some p)) (pt(p := q))"
proof (rule run_okI)
  fix d e x
  assume d: "(r(c := Some p)) d = Some x"
  have notp: "r b \<noteq> Some p" for b using run_okD(2) [OF ok, of b p] p(2) by auto
  show "x < NPROC" using d p(1) run_okD(1) [OF ok, of d x] by (auto split: if_splits)
  show "pstate ((pt(p := q)) x) = RUNNING" using d q run_okD(2) [OF ok, of d x] by (auto split: if_splits)
  assume "(r(c := Some p)) e = Some x"
  then show "d = e" using d notp run_okD(3) [OF ok, of d x e] by (auto split: if_splits)
next
  fix x assume x: "x < NPROC" "pstate ((pt(p := q)) x) = RUNNING"
  show "\<exists>d. (r(c := Some p)) d = Some x"
  proof (cases "x = p")
    case True
    then show ?thesis by (intro exI [of _ c]) simp
  next
    case False
    then obtain d where "r d = Some x" using run_okD(4) [OF ok x(1)] x(2) by auto
    then show ?thesis using c by (intro exI [of _ d]) auto
  qed
qed

lemma run_ok_other:
  assumes "run_ok r pt" "pstate (pt p) \<noteq> RUNNING" "pstate q \<noteq> RUNNING"
  shows "run_ok r (pt(p := q))"
  by (rule run_okI) (use assms in \<open>auto split: if_splits dest: run_okD\<close>)

lemma run_ok_quiet: "quiet pt pt' \<Longrightarrow> run_ok r pt \<Longrightarrow> run_ok r pt'"
  by (simp add: quiet_def run_ok_def)

lemma pid_ok_quiet: "quiet pt pt' \<Longrightarrow> pid_ok pt n \<Longrightarrow> pid_ok pt' n"
  by (simp add: quiet_def pid_ok_def)

lemma pid_okD:
  assumes "pid_ok pt n"
  shows "0 < n"
    "p < NPROC \<Longrightarrow> pstate (pt p) \<noteq> UNUSED \<Longrightarrow> 0 < pid (pt p)"
    "p < NPROC \<Longrightarrow> pstate (pt p) \<noteq> UNUSED \<Longrightarrow> pid (pt p) < n"
    "p < NPROC \<Longrightarrow> q < NPROC \<Longrightarrow> pstate (pt p) \<noteq> UNUSED \<Longrightarrow> pstate (pt q) \<noteq> UNUSED \<Longrightarrow>
       pid (pt p) = pid (pt q) \<Longrightarrow> p = q"
  using assms unfolding pid_ok_def by blast+

lemma pid_okI:
  assumes "0 < n"
    "\<And>p. p < NPROC \<Longrightarrow> pstate (pt p) \<noteq> UNUSED \<Longrightarrow> 0 < pid (pt p) \<and> pid (pt p) < n"
    "\<And>p q. p < NPROC \<Longrightarrow> q < NPROC \<Longrightarrow> pstate (pt p) \<noteq> UNUSED \<Longrightarrow> pstate (pt q) \<noteq> UNUSED \<Longrightarrow>
       pid (pt p) = pid (pt q) \<Longrightarrow> p = q"
  shows "pid_ok pt n"
  using assms unfolding pid_ok_def by blast

lemma pid_ok_state:
  assumes ok: "pid_ok pt n" and q: "pid q = pid (pt p)" "pstate (pt p) \<noteq> UNUSED"
  shows "pid_ok (pt(p := q)) n"
proof (rule pid_okI)
  have same: "pid ((pt(p := q)) x) = pid (pt x)" "pstate ((pt(p := q)) x) \<noteq> UNUSED \<Longrightarrow> pstate (pt x) \<noteq> UNUSED" for x
    using q by (auto split: if_splits)
  fix x y assume x: "x < NPROC" "pstate ((pt(p := q)) x) \<noteq> UNUSED"
  show "0 < pid ((pt(p := q)) x) \<and> pid ((pt(p := q)) x) < n"
    using pid_okD(2,3) [OF ok x(1) same(2) [OF x(2)]] same(1) by simp
  assume "y < NPROC" "pstate ((pt(p := q)) y) \<noteq> UNUSED" "pid ((pt(p := q)) x) = pid ((pt(p := q)) y)"
  then show "x = y" using pid_okD(4) [OF ok x(1)] x same by simp
qed (rule pid_okD(1) [OF ok])

lemma pid_ok_dead:
  assumes ok: "pid_ok pt n" and q: "pstate q = UNUSED"
  shows "pid_ok (pt(p := q)) n"
  by (rule pid_okI) (use q pid_okD [OF ok] in \<open>auto split: if_splits\<close>)

lemma pid_ok_grow: "pid_ok pt n \<Longrightarrow> pid_ok pt (n + 1)"
  unfolding pid_ok_def by force

lemma pid_ok_new:
  assumes ok: "pid_ok pt n" and q: "pid q = n"
  shows "pid_ok (pt(p := q)) (n + 1)"
proof (rule pid_okI)
  have old: "x \<noteq> p \<Longrightarrow> x < NPROC \<Longrightarrow> pstate ((pt(p := q)) x) \<noteq> UNUSED \<Longrightarrow> 0 < pid (pt x) \<and> pid (pt x) < n" for x
    using pid_okD(2,3) [OF ok, of x] by auto
  fix x y assume x: "x < NPROC" "pstate ((pt(p := q)) x) \<noteq> UNUSED"
  show "0 < pid ((pt(p := q)) x) \<and> pid ((pt(p := q)) x) < n + 1"
    using old [OF _ x] q pid_okD(1) [OF ok] by (cases "x = p") auto
  assume y: "y < NPROC" "pstate ((pt(p := q)) y) \<noteq> UNUSED" "pid ((pt(p := q)) x) = pid ((pt(p := q)) y)"
  show "x = y"
    using old [OF _ x] old [OF _ y(1,2)] y(3) q x(2) y(2) pid_okD(4) [OF ok x(1) y(1)]
    by (cases "x = p"; cases "y = p") auto
qed (use pid_okD(1) [OF ok] in simp)

lemma on_cpu_simps [simp]:
  "cpus (on_cpu c i s) = cpus s" "ptable (on_cpu c i s) = ptable s"
  "nextpid (on_cpu c i s) = nextpid s" "curcpu (on_cpu c i s) = c"
  by (simp_all add: on_cpu_def)

lemma sched_inv_frame:
  assumes "sched_frame s t pt" "run_ok (running s) pt" "pid_ok pt (nextpid s)"
  shows "sched_inv t"
proof -
  have "running t = running s" using assms(1) by (auto simp: sched_frame_def)
  then show ?thesis using assms by (simp add: sched_inv_def sched_frame_def)
qed

lemma sched_inv_quiet:
  "sched_frame s t pt \<Longrightarrow> quiet (ptable s) pt \<Longrightarrow> sched_inv s \<Longrightarrow> sched_inv t"
  by (erule sched_inv_frame) (auto simp: sched_inv_def intro: run_ok_quiet pid_ok_quiet)

lemma sched_inv_on_cpu [simp]: "sched_inv (on_cpu c i s) = sched_inv s"
  by (simp add: sched_inv_def)

text \<open>The process of CPU \<open>c\<close> gives it up: it has another state, the scheduler clears \<open>c\<close>.\<close>

lemma sched_inv_leave:
  assumes inv: "sched_inv s" and p: "running s (curcpu s) = Some p" and qt: "quiet (ptable s) pt"
    and frame: "sched_frame s s1 (pt(p := q))"
    and q: "pstate q \<noteq> RUNNING" "pid q = pid (ptable s p)"
    and rel: "release PtableLock (scheduler_in s1) = Inr t"
  shows "sched_inv t"
proof -
  note fr = scheduler_in_frame [of s1]
  have ok: "run_ok (running s) pt" "pid_ok pt (nextpid s)"
    using inv qt by (auto simp: sched_inv_def intro: run_ok_quiet pid_ok_quiet)
  have live: "pstate (pt p) \<noteq> UNUSED" using run_okD(2) [OF ok(1) p] by simp
  have r: "running s1 = running s" "curcpu s1 = curcpu s" "ptable s1 = pt(p := q)" "nextpid s1 = nextpid s"
    using frame by (auto simp: sched_frame_def)
  have "run_ok (running (scheduler_in s1)) (ptable (scheduler_in s1))"
    unfolding fr r by (rule run_ok_leave [OF ok(1) p q(1)])
  moreover have "pid_ok (ptable (scheduler_in s1)) (nextpid (scheduler_in s1))"
    unfolding fr r using pid_ok_state [OF ok(2) _ live] q(2) qt by (simp add: quiet_def)
  ultimately show ?thesis
    using sched_inv_frame [OF sched_frame_mach [OF mach_frame_release [OF rel]]] by blast
qed

text \<open>The scheduler switches CPU \<open>c\<close> to process \<open>p\<close>.\<close>

lemma sched_inv_dispatch:
  assumes inv: "sched_inv s" and idle: "running s c = None" and p: "p < NPROC"
    and acq: "acquire PtableLock (on_cpu c i s) = Inr s1" and out: "scheduler_out p s1 = Inr (Some s2)"
  shows "sched_inv s2"
proof -
  note f = sched_frame_mach [OF mach_frame_acquire [OF acq]]
  have r1: "running s1 = running s" "curcpu s1 = c" "ptable s1 = ptable s" "nextpid s1 = nextpid s"
    using f by (auto simp: sched_frame_def)
  note o = scheduler_out_frame [OF out, unfolded r1]
  show ?thesis
    unfolding sched_inv_def o(2-4)
    using inv o(5) idle p unfolding sched_inv_def by (auto intro!: run_ok_enter pid_ok_state)
qed

lemma sched_inv_off_table: "off_table s t \<Longrightarrow> sched_inv s \<Longrightarrow> sched_inv t"
  by (erule sched_inv_quiet) auto

lemma sched_inv_release: "release lk s = Inr t \<Longrightarrow> sched_inv s \<Longrightarrow> sched_inv t"
  by (rule sched_inv_off_table [OF sched_frame_mach [OF mach_frame_release]])

lemma sched_inv_acquire: "acquire lk s = Inr t \<Longrightarrow> sched_inv s \<Longrightarrow> sched_inv t"
  by (rule sched_inv_off_table [OF sched_frame_mach [OF mach_frame_acquire]])

lemma quiet_chan: "quiet pt (pt(p := (pt p)\<lparr>chan := ch\<rparr>))"
  by (simp add: quiet_def)

lemma sched_inv_sleep_in:
  assumes "sleep_in p lk j s = Inr t" "sched_inv s"
  shows "sched_inv t"
proof -
  obtain u where u: "sched_in j s = Inr u"
    "(if lk \<noteq> PtableLock then rbind (release PtableLock (upd_proc p (\<lambda>q. q\<lparr>chan := NoChan\<rparr>) u)) (\<lambda>s. acquire lk s)
      else Inr (upd_proc p (\<lambda>q. q\<lparr>chan := NoChan\<rparr>) u)) = Inr t"
    using assms(1) unfolding sleep_in_def Let_def by (elim rbind_InrE) simp
  have "sched_inv u" using sched_inv_off_table [OF sched_in_frame [OF u(1)] assms(2)] .
  then have "sched_inv (upd_proc p (\<lambda>q. q\<lparr>chan := NoChan\<rparr>) u)"
    by (rule sched_inv_quiet [OF sched_frame_upd, rotated]) (rule quiet_chan)
  then show ?thesis
    using u(2) by (auto elim!: rbind_InrE split: if_splits intro: sched_inv_acquire sched_inv_release)
qed

lemma sched_inv_allocproc:
  assumes "allocproc s = Inr (r, t)" "sched_inv s"
  shows "sched_inv t"
  using assms(1)
proof (cases rule: allocproc_frame)
  case none
  then show ?thesis using assms(2) sched_inv_off_table by blast
next
  case (slot p q)
  have run: "running t = running s" using slot(3) by (auto simp: same_running_def)
  have "run_ok (running s) ((ptable s)(p := q))"
    using assms(2) slot(2,7) by (intro run_ok_other) (auto simp: sched_inv_def)
  moreover have "pid_ok ((ptable s)(p := q)) (nextpid s + 1)"
    using assms(2) slot(6) by (intro pid_ok_new) (auto simp: sched_inv_def)
  ultimately show ?thesis by (simp add: sched_inv_def run slot(4,5))
qed

lemma sched_inv_publish:
  assumes "make_runnable p s = Inr t" "pstate (ptable s p) = EMBRYO" "sched_inv s"
  shows "sched_inv t"
proof -
  obtain u where u: "acquire PtableLock s = Inr u"
    "release PtableLock (upd_proc p (\<lambda>q. q\<lparr>pstate := RUNNABLE\<rparr>) u) = Inr t"
    using assms(1) unfolding make_runnable_def by (elim rbind_InrE)
  have pt: "ptable u = ptable s" using sched_frameD(1) [OF sched_frame_mach [OF mach_frame_acquire [OF u(1)]]] .
  have "quiet (ptable u) ((ptable u)(p := (ptable u p)\<lparr>pstate := RUNNABLE\<rparr>))"
    using assms(2) by (simp add: quiet_def pt)
  then have "sched_inv (upd_proc p (\<lambda>q. q\<lparr>pstate := RUNNABLE\<rparr>) u)"
    using sched_inv_quiet [OF sched_frame_upd] sched_inv_acquire [OF u(1) assms(3)] by blast
  then show ?thesis by (rule sched_inv_release [OF u(2)])
qed

lemma sched_inv_wait:
  assumes "wait s = Inr (r, t)" "sched_inv s"
  shows "sched_inv t"
proof -
  obtain cur s0 s1 where s1: "curproc s = Inr (cur, s0)" "acquire PtableLock s0 = Inr s1"
    using assms(1) unfolding wait_def by (auto elim!: rbind_InrE simp del: upt_rec_numeral)
  obtain w hk u where u: "wait_scan [0..<NPROC] cur False s1 = Inr (w, hk, u)" "release PtableLock u = Inr t"
    using assms(1) s1 unfolding wait_def sleep_def
    by (auto elim!: rbind_InrE split: option.splits if_splits simp del: upt_rec_numeral)
  have inv: "sched_inv s1"
    using s1 assms(2) sched_inv_acquire sched_inv_off_table [OF sched_frame_mach [OF mach_frame_curproc(1)]] by blast
  from wait_scan_frame [OF u(1)] have "sched_inv u"
  proof (elim disjE bexE exE conjE)
    fix p q
    assume pq: "pstate (ptable s1 p) = ZOMBIE" "pstate q = UNUSED" "sched_frame s1 u ((ptable s1)(p := q))"
    show ?thesis
      using inv pq(1,2)
      by (intro sched_inv_frame [OF pq(3)] run_ok_other pid_ok_dead) (auto simp: sched_inv_def)
  qed (use inv in simp)
  then show ?thesis by (rule sched_inv_release [OF u(2)])
qed

lemma sched_inv_step: "sched_step s t \<Longrightarrow> sched_inv s \<Longrightarrow> sched_inv t"
proof (induction rule: sched_step.induct)
  case (dispatch s c i s1 p s2 j t)
  have "sched_inv s2" using sched_inv_dispatch dispatch by blast
  then show ?case
    using dispatch(5) unfolding yield_in_def
    by (auto elim!: rbind_InrE intro: sched_inv_release sched_inv_off_table [OF sched_in_frame])
next
  case (dispatch_new s c i s1 p s2 t)
  have "sched_inv s2" using sched_inv_dispatch dispatch_new by blast
  then show ?case using dispatch_new(5) sched_inv_release by (simp add: forkret_release_def)
next
  case (dispatch_slept s c i s1 p s2 lk j t)
  have "sched_inv s2" using sched_inv_dispatch dispatch_slept by blast
  then show ?case using dispatch_slept(5) sched_inv_sleep_in by blast
next
  case (yields c i s j s1 t)
  obtain p where p: "running (on_cpu c i s) (curcpu (on_cpu c i s)) = Some p"
    "sched_frame (on_cpu c i s) s1 ((ptable (on_cpu c i s))(p := (ptable (on_cpu c i s) p)\<lparr>pstate := RUNNABLE\<rparr>))"
    using yield_out_frame [OF yields(1)] .
  show ?case by (rule sched_inv_leave [OF _ p(1) quiet_refl p(2) _ _ yields(2)]) (use yields(3) in simp_all)
next
  case (sleeps ch lk c i s j s1 t)
  obtain p where p: "running (on_cpu c i s) (curcpu (on_cpu c i s)) = Some p"
    "sched_frame (on_cpu c i s) s1 ((ptable (on_cpu c i s))(p := (ptable (on_cpu c i s) p)\<lparr>chan := ch, pstate := SLEEPING\<rparr>))"
    using sleep_out_frame [OF sleeps(1)] .
  show ?case by (rule sched_inv_leave [OF _ p(1) quiet_refl p(2) _ _ sleeps(2)]) (use sleeps(3) in simp_all)
next
  case (waits c i s s0 p j s1 t)
  have inv: "sched_inv s0" using sched_inv_acquire [OF waits(1)] waits(5) by simp
  obtain q where q: "running s0 (curcpu s0) = Some q"
    "sched_frame s0 s1 ((ptable s0)(q := (ptable s0 q)\<lparr>chan := ChanProc p, pstate := SLEEPING\<rparr>))"
    using sleep_out_frame [OF waits(3)] .
  show ?case by (rule sched_inv_leave [OF inv q(1) quiet_refl q(2) _ _ waits(4)]) simp_all
next
  case (exits s c p i j s1 t)
  obtain pt where "quiet (ptable (on_cpu c i s)) pt"
    "sched_frame (on_cpu c i s) s1 (pt(p := (pt p)\<lparr>pstate := ZOMBIE\<rparr>))"
    using exit_sched_frame [OF exits(2)] .
  then show ?case
    using sched_inv_leave [of "on_cpu c i s" p pt s1 "(pt p)\<lparr>pstate := ZOMBIE\<rparr>" t] exits
    by (simp add: quiet_def)
next
  case (creates c i s r t)
  then show ?case using sched_inv_allocproc by fastforce
next
  case (publishes s p c i t)
  then show ?case using sched_inv_publish [of p "on_cpu c i s" t] by simp
next
  case (wakes ch c i s t)
  then show ?case using sched_inv_quiet [OF wakeup_frame [OF wakes(1)] quiet_woken] by simp
next
  case (kills n c i s r t)
  then show ?case using kill_frame [OF kills(1)] sched_inv_quiet by (metis sched_inv_on_cpu)
next
  case (reaps c i s r t)
  then show ?case using sched_inv_wait [of "on_cpu c i s"] by simp
qed

lemma sched_reachable_inv: "sched_reachable s \<Longrightarrow> sched_inv s"
proof (induction rule: sched_reachable.induct)
  case (sched_boot s)
  then show ?case by (auto simp: boot_state_def sched_inv_def run_ok_def pid_ok_def)
next
  case (sched_next s t)
  then show ?case using sched_inv_step by blast
qed

section \<open>Sleeping and waking up\<close>

text \<open>Inside a section that holds only lock \<open>lk\<close>.\<close>

definition in_section :: "lockid \<Rightarrow> 'a mach_scheme \<Rightarrow> bool" where
  "in_section lk s \<longleftrightarrow> \<not> eflags_IF s \<and> ncli (cpus s (curcpu s)) = 1 \<and> holds lk s"

abbreviation free_lk :: spinlock where
  "free_lk \<equiv> \<lparr>locked = False, lk_cpu = None\<rparr>"

abbreviation held_lk :: "nat \<Rightarrow> spinlock" where
  "held_lk c \<equiv> \<lparr>locked = True, lk_cpu = Some c\<rparr>"

lemma sched_out_section:
  assumes "in_section PtableLock s" "running s (curcpu s) = Some p" "pstate (ptable s p) \<noteq> RUNNING"
  shows "sched_out s = Inr (intena (cpus s (curcpu s)), s)"
proof -
  have cl: "cli_ok s" using assms(1) by (simp add: in_section_def cli_ok_def)
  have st: "settled s = s" using assms(1) by (simp add: settled_def in_section_def Let_def)
  have "holding PtableLock s = Inr (True, s)"
    using assms(1) by (simp add: holding_eq in_section_def holds_def)
  then show ?thesis
    using assms by (simp add: sched_out_def myproc_eq [OF cl] st in_section_def cpu_simps)
qed

lemma sleep_out_eq:
  assumes sec: "in_section lk s" and lk: "lk \<noteq> PtableLock" "lock_free PtableLock s"
    and p: "running s (curcpu s) = Some p"
  shows "sleep_out ch (Some lk) s = Inr (intena (cpus s (curcpu s)),
    s\<lparr>locks := (locks s)(PtableLock := held_lk (curcpu s), lk := free_lk),
      ptable := (ptable s)(p := (ptable s p)\<lparr>chan := ch, pstate := SLEEPING\<rparr>)\<rparr>)"
proof -
  have cl: "cli_ok s" using sec by (simp add: in_section_def cli_ok_def)
  have st: "settled s = s" using sec by (simp add: settled_def in_section_def Let_def)
  let ?e = "enter PtableLock s"
  have rel: "release lk ?e = Inr (s\<lparr>locks := (locks s)(PtableLock := held_lk (curcpu s), lk := free_lk)\<rparr>)"
    using sec lk
    by (auto simp: release_def holding_eq popcli_def enter_def cpu_simps in_section_def holds_def
        split: if_splits intro!: mach.equality cpu.equality ext)
  let ?t = "s\<lparr>locks := (locks s)(PtableLock := held_lk (curcpu s), lk := free_lk),
      ptable := (ptable s)(p := (ptable s p)\<lparr>chan := ch, pstate := SLEEPING\<rparr>)\<rparr>"
  have "sched_out ?t = Inr (intena (cpus s (curcpu s)), ?t)"
    using sec lk p sched_out_section [of ?t p] by (simp add: in_section_def holds_def)
  then show ?thesis
    using p lk by (simp add: sleep_out_def myproc_eq [OF cl] st acquire_free [OF cl lk(2)] rel upd_proc_def)
qed

text \<open>The scheduler lets go of the table lock.\<close>

lemma release_ptable_section:
  assumes "in_section PtableLock s"
  shows "release PtableLock s = Inr (s\<lparr>eflags_IF := intena (cpus s (curcpu s)),
    cpus := (cpus s)(curcpu s := (cpus s (curcpu s))\<lparr>ncli := 0\<rparr>),
    locks := (locks s)(PtableLock := free_lk)\<rparr>)"
proof -
  have "holding PtableLock s = Inr (True, s)"
    using assms by (simp add: holding_eq in_section_def holds_def)
  then show ?thesis
    using assms by (auto simp: release_def popcli_def cpu_simps in_section_def intro!: mach.equality)
qed

text \<open>A concrete state for the witnesses: process 3 runs on CPU 0, which holds \<^verbatim>\<open>tickslock\<close>.\<close>

definition demo_proc :: proc where
  "demo_proc = \<lparr>sz = 0, pgdir = 0, kstack = 0, pstate = UNUSED, pid = 0, parent = None, tf = 0, context_p = 0,
     chan = NoChan, killed = False, ofile = (\<lambda>_. None), cwd = None, pname = [],
     shmsegs = (\<lambda>_. \<lparr>isAttached = 0, at_shmid = 0\<rparr>)\<rparr>"

definition demo_procs :: procs where
  "demo_procs = \<lparr>curcpu = 0, eflags_IF = False, cpus = (\<lambda>_. demo_cpu),
     locks = (\<lambda>_. free_lk), mem = (\<lambda>_. 0), kend = 0x80110000, kdata = 0x80108000,
     kpgdir = 0, cr3 = 0, freelist = 0, use_lock = True, ptable = (\<lambda>_. demo_proc), nextpid = 1, initproc = None,
     ticks = 0, forkret_eip = 0, trapret_eip = 0\<rparr>"

definition demo_running :: procs where
  "demo_running = demo_procs\<lparr>cpus := (\<lambda>_. demo_cpu)(0 := demo_cpu\<lparr>ncli := 1, cpu_proc := Some 3\<rparr>),
     locks := (\<lambda>_. free_lk)(TicksLock := held_lk 0),
     ptable := (\<lambda>_. demo_proc)(3 := demo_proc\<lparr>pstate := RUNNING, pid := 4\<rparr>)\<rparr>"



text \<open>
  C7: in every state the kernel can get to by scheduling, yielding, sleeping, waiting, exiting,
  creating, waking, killing and reaping processes on any number of CPUs, no process runs on
  two CPUs, a process is in state \<open>RUNNING\<close> exactly when it is the current process of a CPU, and
  the processes in use have distinct positive ids below \<^verbatim>\<open>nextpid\<close>.
\<close>

theorem scheduling_is_safe:
  assumes "sched_reachable s"
  shows "(\<forall>c d p. running s c = Some p \<and> running s d = Some p \<longrightarrow> c = d)
    \<and> (\<forall>p < NPROC. pstate (ptable s p) = RUNNING \<longleftrightarrow> (\<exists>c. running s c = Some p))
    \<and> (\<forall>p < NPROC. pstate (ptable s p) \<noteq> UNUSED \<longrightarrow> 0 < pid (ptable s p) \<and> pid (ptable s p) < nextpid s)
    \<and> (\<forall>p < NPROC. \<forall>q < NPROC. pstate (ptable s p) \<noteq> UNUSED \<and> pstate (ptable s q) \<noteq> UNUSED
         \<and> pid (ptable s p) = pid (ptable s q) \<longrightarrow> p = q)"
proof -
  have "run_ok (running s) (ptable s)" "pid_ok (ptable s) (nextpid s)"
    using sched_reachable_inv [OF assms] by (simp_all add: sched_inv_def)
  then show ?thesis unfolding run_ok_def pid_ok_def by blast
qed

theorem scheduling_is_safe_witness:
  "\<exists>t :: procs. sched_reachable t \<and> (\<forall>p < NPROC. pstate (ptable t p) = RUNNING \<longleftrightarrow> (\<exists>c. running t c = Some p))"
proof -
  have "boot_state demo_procs" by (simp add: boot_state_def demo_procs_def demo_cpu_def demo_proc_def)
  then have r: "sched_reachable demo_procs" by (rule sched_boot)
  have "cli_ok (on_cpu 1 True demo_procs)" "lock_free PtableLock (on_cpu 1 True demo_procs)"
    by (simp_all add: cli_ok_def lock_free_def on_cpu_def demo_procs_def demo_cpu_def)
  from wakeup_eq [OF this, of ChanTicks] obtain t where "wakeup ChanTicks (on_cpu 1 True demo_procs) = Inr t"
    by blast
  then have "sched_reachable t" using wakes sched_next r by blast
  with scheduling_is_safe [OF this] show ?thesis by blast
qed

text \<open>
  C30: \<^verbatim>\<open>wakeup\<close> makes exactly the processes that sleep on its channel runnable; no other entry of
  the table changes.
\<close>

theorem wakeup_wakes_sleepers:
  assumes "cli_ok s" "lock_free PtableLock s"
  shows "\<exists>t. wakeup ch s = Inr t \<and> locks t = locks s \<and> (\<forall>p. ptable t p =
    (if p < NPROC \<and> pstate (ptable s p) = SLEEPING \<and> chan (ptable s p) = ch
     then (ptable s p)\<lparr>pstate := RUNNABLE\<rparr> else ptable s p))"
  using wakeup_eq [OF assms, of ch] by (simp add: woken_def)

theorem wakeup_wakes_sleepers_witness:
  "\<exists>t. wakeup ChanTicks demo_procs = Inr t \<and> ptable t 5 = demo_proc"
proof -
  have "cli_ok demo_procs" "lock_free PtableLock demo_procs"
    by (simp_all add: cli_ok_def lock_free_def demo_procs_def demo_cpu_def)
  from wakeup_wakes_sleepers [OF this, of ChanTicks] show ?thesis
    by (fastforce simp: demo_procs_def demo_proc_def)
qed

end
