(* ===== verification/ShmSpec.thy ===== *)
theory ShmSpec
  imports ShmAttach Sched "HOL-Library.Multiset"
begin

text \<open>
  The contracts of the shared memory calls: creating, finding, removing, attaching and detaching
  segments, the segment store as an interface, and three places where the code does not do what
  it means to.
\<close>

section \<open>What shmget and removal promise\<close>

definition demo_rtc :: rtcdate where
  "demo_rtc = \<lparr>second = 1, minute = 2, hour = 3, day = 4, month = 5, year = 2024\<rparr>"

text \<open>A kernel with one free page, process 3 running and no segments.\<close>

definition demo_shm :: shm where
  "demo_shm = \<lparr>curcpu = 0, eflags_IF = False, cpus = (\<lambda>_. demo_cpu)(0 := demo_cpu\<lparr>cpu_proc := Some 3\<rparr>),
     locks = (\<lambda>_. \<lparr>locked = False, lk_cpu = None\<rparr>), mem = (\<lambda>_. 0), kend = 0x80110000, kdata = 0x80108000,
     kpgdir = 0, cr3 = 0, freelist = 0x80400000, use_lock = True,
     ptable = (\<lambda>_. demo_proc)(3 := demo_proc\<lparr>pstate := RUNNING, pid := 4, pgdir := 0x80300000\<rparr>),
     nextpid = 5, initproc = Some 0, ticks = 0, forkret_eip = 0, trapret_eip = 0,
     shm_segs = (\<lambda>_. freed_seg\<lparr>shm_perm := \<lparr>ip_key = 0, ip_mode = 0\<rparr>\<rparr>), lastShmSegIndex = - 1, used_ids = 0, shm_tot = 0,
     rtc = demo_rtc, shm_r = demo_rtc\<rparr>"

lemma demo_shm_ok:
  "shm_ok demo_shm [0x80400000] {}" "running demo_shm (curcpu demo_shm) = Some 3"
proof -
  have "kmem_ok demo_shm [0x80400000]"
    by (simp add: kmem_ok_def demo_shm_def load32_def kpage_def page_aligned_def V2P_def cli_ok_def
        lock_free_def demo_cpu_def)
  then show "shm_ok demo_shm [0x80400000] {}"
    by (simp add: shm_ok_def seg_table_def seg_live_def shm_pages_ok_def demo_shm_def cli_ok_def
        lock_free_def demo_cpu_def)
  show "running demo_shm (curcpu demo_shm) = Some 3" by (simp add: demo_shm_def)
qed

lemma find_key_none:
  assumes "shm_ok s ps G" "key \<noteq> - 1" "\<forall>(c, k) \<in> G. seg_key (shm_segs s c) \<noteq> key"
  shows "find_key key s = Inr None"
  using assms(1,2)
proof (cases rule: find_key_cases [case_names none some])
  case none
  then show ?thesis by simp
next
  case (some b n)
  then show ?thesis using assms(3) by auto
qed

text \<open>
  C1: \<^verbatim>\<open>shmget\<close> with \<^verbatim>\<open>IPC_CREAT\<close> (with or without \<^verbatim>\<open>IPC_EXCL\<close>) and a key that no segment has
  creates a segment: it returns the index \<open>b\<close> of the lowest hole that is large enough (or the end
  of the table), the new segment overlaps no other segment and leaves every other table entry as
  it was, its \<open>n\<close> pages are pages of the free pool, each used once and filled with zeros, the table
  invariant holds again, and a later \<^verbatim>\<open>shmget\<close> of the key without flags returns \<open>b\<close>.
\<close>

theorem shmget_creates_segment:
  assumes "SHMMIN \<le> z" "z \<le> MAXSEGSIZE" "shm_ok s ps G" "running s (curcpu s) = Some p"
    and "key \<noteq> - 1" "key \<noteq> IPC_PRIVATE" "shmflag = IPC_CREAT \<or> shmflag = IPC_CREAT OR IPC_EXCL"
    and "\<forall>(c, k) \<in> G. seg_key (shm_segs s c) \<noteq> key"
    and "n = seg_pages (PGROUNDUP z)" "b = seg_base s n" "b + n \<le> SHMMAXSEG" "n \<le> length ps"
  shows "\<exists>t. shmgetHelper key z shmflag s = Inr (int b, t) \<and> shm_ok t (drop n ps) (insert (b, n) G)
    \<and> (\<forall>x \<in> G. apart (b, n) x) \<and> (\<forall>i. \<not> (b \<le> i \<and> i < b + n) \<longrightarrow> shm_segs t i = shm_segs s i)
    \<and> (\<forall>k < n. seg_key (shm_segs t (b + k)) = key \<and> shm_pa (shm_segs t (b + k)) = V2P (ps ! k)
         \<and> (\<forall>a. page_no a = page_no (ps ! k) \<longrightarrow> mem t a = 0))
    \<and> shmgetHelper key z 0 t = Inr (int b, t)"
proof -
  have fk: "find_key key s = Inr None" by (rule find_key_none [OF assms(3,5,8)])
  have "shmgetHelper key z shmflag s = allocShmSeg z key shmflag s"
    using fk assms(6,7) by (auto simp: shmgetHelper_def)
  moreover obtain t where t: "allocShmSeg z key shmflag s = Inr (int b, t)" "shm_ok t (drop n ps) (insert (b, n) G)"
    "\<forall>x \<in> G. apart (b, n) x"
    "shm_segs t = fresh_segs (shm_segs s) b (take n ps) (new_seg key (of_nat (4096 * n)) shmflag (pid (ptable s p)))"
    "\<forall>q \<in> set (take n ps). \<forall>a. page_no a = page_no q \<longrightarrow> mem t a = 0"
    using allocShmSeg_ok [OF assms(1-3,5,4), of shmflag] assms(9-12) by auto
  have out: "shm_segs t i = shm_segs s i" if "\<not> (b \<le> i \<and> i < b + n)" for i
    using fresh_segs_out [of b i "take n ps"] that assms(12) by (simp add: t(4))
  have seg: "shm_segs t (b + k) = new_seg key (of_nat (4096 * n)) shmflag (pid (ptable s p)) (V2P (ps ! k))"
    "ps ! k \<in> set (take n ps)" if "k < n" for k
    using that assms(12) by (simp_all add: t(4) fresh_segs_in in_set_conv_nth exI [of _ k])
  have key_b: "seg_key (shm_segs t b) = key" using seg_facts(1) [OF t(2), of b n] seg(1) [of 0] by simp
  have apart_key: "seg_key (shm_segs t c) \<noteq> key" if "(c, k) \<in> G" for c k
  proof -
    have "\<not> (b \<le> c \<and> c < b + n)"
      using t(3) that seg_facts(1) [OF assms(3) that] by (auto simp: apart_def)
    then show ?thesis using out [of c] assms(8) that by auto
  qed
  have "find_key key t = Inr (Some b)"
    using t(2) assms(5)
  proof (cases rule: find_key_cases [case_names none some])
    case none
    then show ?thesis using key_b by blast
  next
    case (some c k)
    then show ?thesis using apart_key by blast
  qed
  then have "shmgetHelper key z 0 t = Inr (int b, t)" using assms(6) by (simp add: shmgetHelper_def)
  ultimately show ?thesis using t out seg by (intro exI [of _ t]) (auto simp: new_seg_sel)
qed


lemma demo_shm_base: "seg_base demo_shm n = 0"
  unfolding seg_base_def hole_def by (auto simp: demo_shm_def intro: Least_eq_0)

theorem shmget_creates_segment_witness:
  "\<exists>t. shmgetHelper 77 3000 IPC_CREAT demo_shm = Inr (0, t) \<and> shm_ok t [] {(0, 1)}
    \<and> shm_pa (shm_segs t 0) = 0x400000 \<and> shmgetHelper 77 3000 0 t = Inr (0, t)"
proof -
  have n: "(1::nat) = seg_pages (PGROUNDUP 3000)" by (simp add: seg_pages_def PGROUNDUP_def)
  from shmget_creates_segment [OF _ _ demo_shm_ok _ _ _ _ n demo_shm_base [symmetric], of 77 IPC_CREAT]
  show ?thesis by (auto simp: V2P_def)
qed


text \<open>A kernel with one segment of one page (id 0, key 77) and one free page left.\<close>

definition demo_seg :: shm where
  "demo_seg = demo_shm\<lparr>freelist := 0x80500000, lastShmSegIndex := 0,
     shm_segs := (shm_segs demo_shm)(0 := new_seg 77 0x1000 0 4 0x400000)\<rparr>"

lemma demo_seg_ok:
  "shm_ok demo_seg [0x80500000] {(0, 1)}" "settled demo_seg = demo_seg"
  "running demo_seg (curcpu demo_seg) = Some 3" "vm_ok demo_seg 0x80300000 [0x80500000]"
proof -
  have k: "kmem_ok demo_seg [0x80500000]"
    by (simp add: kmem_ok_def demo_seg_def demo_shm_def load32_def kpage_def page_aligned_def V2P_def cli_ok_def
        lock_free_def demo_cpu_def)
  have "seg_table (shm_segs demo_seg) (seg_count demo_seg) {(0, 1)}"
    by (simp add: seg_table_def seg_at_def seg_live_def demo_seg_def)
  moreover have "shm_pages_ok demo_seg [0x80500000] (seg_count demo_seg)"
    by (simp add: shm_pages_ok_def seg_live_def demo_seg_def demo_shm_def kpage_def page_aligned_def P2V_def V2P_def)
  ultimately show "shm_ok demo_seg [0x80500000] {(0, 1)}"
    unfolding shm_ok_def using k
    by (simp add: demo_seg_def demo_shm_def cli_ok_def lock_free_def demo_cpu_def)
  show "settled demo_seg = demo_seg" "running demo_seg (curcpu demo_seg) = Some 3"
    by (auto simp: demo_seg_def demo_shm_def demo_cpu_def settled_def Let_def fun_eq_iff)
  have "page_aligned 0x80300000" by (simp add: page_aligned_def)
  from zero_pgdir [OF this] show "vm_ok demo_seg 0x80300000 [0x80500000]"
    using k unfolding vm_ok_def by (simp add: demo_seg_def demo_shm_def)
qed



text \<open>
  C28: \<^verbatim>\<open>removeshm\<close> by id. While the segment is attached somewhere it is only marked \<^verbatim>\<open>SHM_DEST\<close> and
  the call fails; otherwise the call succeeds, every page of the segment is back in the free pool
  in front of the pages that were there, the segment's entries are free again, every other entry
  is unchanged, and the table invariant holds without the segment.
\<close>

theorem removeshm_frees_pages:
  assumes "shm_ok s ps G" "settled s = s" "(b, n) \<in> G"
  shows "if shm_nattch (shm_segs s b) \<noteq> 0
    then \<exists>t. removeshmHelper (int b) 0 s = Inr (- 1, t) \<and> shm_ok t ps G
      \<and> (\<forall>k < n. ip_mode (shm_perm (shm_segs t (b + k))) = SHM_DEST)
    else \<exists>t. removeshmHelper (int b) 0 s = Inr (0, t)
      \<and> shm_ok t (rev (map (\<lambda>k. P2V (shm_pa (shm_segs s (b + k)))) [0..<n]) @ ps) (G - {(b, n)})
      \<and> (\<forall>k < n. seg_key (shm_segs t (b + k)) = - 1)
      \<and> (\<forall>i. \<not> (b \<le> i \<and> i < b + n) \<longrightarrow> shm_segs t i = shm_segs s i)"
proof (cases "shm_nattch (shm_segs s b) = 0")
  case False
  from removeshm_id(1) [OF assms False] False show ?thesis by (auto simp: mapped_segs_def)
next
  case True
  from removeshm_id(2) [OF assms True] obtain m f t where t: "removeshmHelper (int b) 0 s = Inr (0, t)"
    "t = s\<lparr>shm_segs := mapped_segs (set_mode (\<lambda>_. SHM_DEST)) b (b + n) (shm_segs s)\<rparr>
       \<lparr>mem := m, freelist := f, shm_segs := cleared (shm_segs (s\<lparr>shm_segs := mapped_segs (set_mode (\<lambda>_. SHM_DEST)) b (b + n) (shm_segs s)\<rparr>)) b (b + n)\<rparr>"
    "shm_ok t (rev (map (\<lambda>k. seg_page (shm_segs s) (b + k)) [0..<n]) @ ps) (G - {(b, n)})" by blast
  have seg: "shm_segs t = cleared (mapped_segs (set_mode (\<lambda>_. SHM_DEST)) b (b + n) (shm_segs s)) b (b + n)"
    unfolding t(2) by simp
  have "seg_key (shm_segs t (b + k)) = - 1" if "k < n" for k
    unfolding seg using that by (simp add: cleared_def freed_seg_def)
  moreover have "shm_segs t i = shm_segs s i" if "\<not> (b \<le> i \<and> i < b + n)" for i
    unfolding seg using that by (auto simp: cleared_def mapped_segs_def)
  ultimately show ?thesis using t(1,3) True by auto
qed

theorem removeshm_frees_pages_witness:
  "\<exists>t. removeshmHelper 0 0 demo_seg = Inr (0, t) \<and> shm_ok t [0x80400000, 0x80500000] {}
    \<and> seg_key (shm_segs t 0) = - 1"
proof -
  have "shm_nattch (shm_segs demo_seg 0) = 0" "shm_pa (shm_segs demo_seg 0) = 0x400000"
    by (simp_all add: demo_seg_def)
  with removeshm_frees_pages [OF demo_seg_ok(1,2), of 0 1] show ?thesis by (auto simp: P2V_def)
qed

section \<open>The segment store\<close>

text \<open>
  What a client of the segments relies on: \<open>create\<close> takes the pages of a new segment from the pool
  and tells its id, \<open>remove\<close> of an idle segment puts its pages back. \<open>pages\<close> lists the pages of a
  segment and \<open>idle\<close> says that nobody has it attached.
\<close>

locale segment_store =
  fixes create :: "'k \<Rightarrow> 's \<Rightarrow> (int \<times> 's) res"
    and remove :: "int \<Rightarrow> 's \<Rightarrow> (int \<times> 's) res"
    and ok :: "'s \<Rightarrow> u32 list \<Rightarrow> (nat \<times> nat) set \<Rightarrow> bool"
    and fits :: "'k \<Rightarrow> 's \<Rightarrow> u32 list \<Rightarrow> (nat \<times> nat) set \<Rightarrow> nat \<times> nat \<Rightarrow> bool"
    and pages :: "'s \<Rightarrow> nat \<times> nat \<Rightarrow> u32 list"
    and idle :: "'s \<Rightarrow> nat \<times> nat \<Rightarrow> bool"
  assumes create_ok: "ok s ps G \<Longrightarrow> fits k s ps G (b, n) \<Longrightarrow>
      \<exists>t. create k s = Inr (int b, t) \<and> ok t (drop n ps) (insert (b, n) G) \<and> idle t (b, n)
        \<and> pages t (b, n) = take n ps"
    and create_new: "ok s ps G \<Longrightarrow> fits k s ps G x \<Longrightarrow> x \<notin> G"
    and remove_ok: "ok s ps G \<Longrightarrow> (b, n) \<in> G \<Longrightarrow> idle s (b, n) \<Longrightarrow>
      \<exists>t. remove (int b) s = Inr (0, t) \<and> ok t (rev (pages s (b, n)) @ ps) (G - {(b, n)})"
begin

lemma create_remove:
  assumes "ok s ps G" "fits k s ps G (b, n)"
  shows "\<exists>t u qs. create k s = Inr (int b, t) \<and> remove (int b) t = Inr (0, u) \<and> ok u qs G \<and> mset qs = mset ps"
proof -
  obtain t where t: "create k s = Inr (int b, t)" "ok t (drop n ps) (insert (b, n) G)" "idle t (b, n)"
    "pages t (b, n) = take n ps" using create_ok [OF assms] by blast
  obtain u where u: "remove (int b) t = Inr (0, u)"
    "ok u (rev (take n ps) @ drop n ps) (insert (b, n) G - {(b, n)})"
    using remove_ok [OF t(2) _ t(3)] t(4) by auto
  have "insert (b, n) G - {(b, n)} = G" using create_new [OF assms] by simp
  moreover have "mset (rev (take n ps) @ drop n ps) = mset ps"
    by (metis append_take_drop_id mset_append mset_rev)
  ultimately show ?thesis using t(1) u by auto
qed

end

text \<open>The request of a \<^verbatim>\<open>shmget\<close> for a new segment, as key and size, and when it can be met.\<close>

definition shm_fits :: "int \<times> u32 \<Rightarrow> shm \<Rightarrow> u32 list \<Rightarrow> (nat \<times> nat) set \<Rightarrow> nat \<times> nat \<Rightarrow> bool" where
  "shm_fits = (\<lambda>(key, z) s ps G (b, n). SHMMIN \<le> z \<and> z \<le> MAXSEGSIZE \<and> key \<noteq> - 1 \<and> key \<noteq> IPC_PRIVATE
     \<and> running s (curcpu s) \<noteq> None \<and> (\<forall>(c, k) \<in> G. seg_key (shm_segs s c) \<noteq> key)
     \<and> n = seg_pages (PGROUNDUP z) \<and> b = seg_base s n \<and> b + n \<le> SHMMAXSEG \<and> n \<le> length ps)"

definition shm_idle :: "shm \<Rightarrow> nat \<times> nat \<Rightarrow> bool" where
  "shm_idle s = (\<lambda>(b, n). settled s = s \<and> shm_nattch (shm_segs s b) = 0)"

abbreviation shm_pages :: "shm \<Rightarrow> nat \<times> nat \<Rightarrow> u32 list" where
  "shm_pages s \<equiv> \<lambda>(b, n). map (\<lambda>k. P2V (shm_pa (shm_segs s (b + k)))) [0..<n]"

lemma shmget_new_key:
  assumes "shm_ok s ps G" "shm_fits (key, z) s ps G (b, n)"
  shows "\<exists>t. shmgetHelper key z IPC_CREAT s = Inr (int b, t) \<and> shm_ok t (drop n ps) (insert (b, n) G)
    \<and> shm_idle t (b, n) \<and> shm_pages t (b, n) = take n ps"
proof -
  have f: "SHMMIN \<le> z" "z \<le> MAXSEGSIZE" "key \<noteq> - 1" "key \<noteq> IPC_PRIVATE" "running s (curcpu s) \<noteq> None"
    "\<forall>(c, k) \<in> G. seg_key (shm_segs s c) \<noteq> key" "n = seg_pages (PGROUNDUP z)" "b = seg_base s n"
    "b + n \<le> SHMMAXSEG" "n \<le> length ps" using assms(2) by (auto simp: shm_fits_def)
  obtain p where p: "running s (curcpu s) = Some p" using f(5) by blast
  have "shmgetHelper key z IPC_CREAT s = allocShmSeg z key IPC_CREAT s"
    using find_key_none [OF assms(1) f(3,6)] f(4) by (simp add: shmgetHelper_def)
  moreover obtain t where t: "allocShmSeg z key IPC_CREAT s = Inr (int b, t)" "shm_ok t (drop n ps) (insert (b, n) G)"
    "shm_segs t = fresh_segs (shm_segs s) b (take n ps) (new_seg key (of_nat (4096 * n)) IPC_CREAT (pid (ptable s p)))"
    "settled t = t"
    using allocShmSeg_ok [OF f(1,2) assms(1) f(3) p, of IPC_CREAT] f(7-10) by auto
  have seg: "shm_segs t (b + k) = new_seg key (of_nat (4096 * n)) IPC_CREAT (pid (ptable s p)) (V2P (ps ! k))" if "k < n" for k
    using that f(10) by (simp add: t(3) fresh_segs_in)
  have "0 < n" using seg_pages_rounded(1) [OF f(1,2)] f(7) by simp
  then have "shm_idle t (b, n)" using seg [of 0] t(4) by (simp add: shm_idle_def)
  moreover have "shm_pages t (b, n) = take n ps"
    using f(10) seg by (intro nth_equalityI) simp_all
  ultimately show ?thesis using t by simp
qed

lemma seg_base_new:
  assumes "shm_ok s ps G" "0 < n"
  shows "(seg_base s n, n) \<notin> G"
proof
  assume x: "(seg_base s n, n) \<in> G"
  have "\<not> seg_live (shm_segs s) (seg_count s) (seg_base s n)" using seg_base_free [OF assms(2,2), of s] assms(2)
    seg_base_free [of n 0 s] by simp
  then show False using seg_facts(2,5) [OF assms(1) x] assms(2) by (simp add: seg_live_def)
qed

interpretation ss: segment_store "\<lambda>(key, z). shmgetHelper key z IPC_CREAT" "\<lambda>i. removeshmHelper i 0"
  shm_ok shm_fits shm_pages shm_idle
proof
  fix s :: shm and ps G k b n
  assume "shm_ok s ps G" "shm_fits k s ps G (b, n)"
  then show "\<exists>t. (case k of (key, z) \<Rightarrow> shmgetHelper key z IPC_CREAT) s = Inr (int b, t)
      \<and> shm_ok t (drop n ps) (insert (b, n) G) \<and> shm_idle t (b, n) \<and> shm_pages t (b, n) = take n ps"
    using shmget_new_key [of s ps G "fst k" "snd k" b n] by (cases k) simp
next
  fix s :: shm and ps G k x
  assume "shm_ok s ps G" "shm_fits k s ps G x"
  then show "x \<notin> G"
    using seg_base_new [of s ps G "snd x"] seg_pages_rounded(1) [of "snd k"]
    by (cases k; cases x) (auto simp: shm_fits_def)
next
  fix s :: shm and ps G b n
  assume a: "shm_ok s ps G" "(b, n) \<in> G" "shm_idle s (b, n)"
  then show "\<exists>t. removeshmHelper (int b) 0 s = Inr (0, t) \<and> shm_ok t (rev (shm_pages s (b, n)) @ ps) (G - {(b, n)})"
    using removeshm_id(2) [of s ps G b n] by (auto simp: shm_idle_def)
qed

text \<open>
  C9: creating a segment and removing it again is neutral: the segments are the ones from before,
  the table invariant holds, and the free pool has exactly the pages it had (in some order), so no
  page is lost or freed twice.
\<close>

theorem shmget_removeshm_roundtrip:
  assumes "shm_ok s ps G" "shm_fits (key, z) s ps G (b, n)"
  shows "\<exists>t u qs. shmgetHelper key z IPC_CREAT s = Inr (int b, t) \<and> removeshmHelper (int b) 0 t = Inr (0, u)
    \<and> shm_ok u qs G \<and> mset qs = mset ps"
  using ss.create_remove [OF assms] by simp

theorem shmget_removeshm_roundtrip_witness:
  "\<exists>t u qs. shmgetHelper 77 3000 IPC_CREAT demo_shm = Inr (0, t) \<and> removeshmHelper 0 0 t = Inr (0, u)
    \<and> shm_ok u qs {} \<and> mset qs = {#0x80400000#}"
proof -
  have "shm_fits (77, 3000) demo_shm [0x80400000] {} (0, 1)"
    using demo_shm_ok(2) by (simp add: shm_fits_def demo_shm_base seg_pages_def PGROUNDUP_def)
  from shmget_removeshm_roundtrip [OF demo_shm_ok(1) this] show ?thesis by simp
qed

section \<open>Attaching and detaching\<close>

text \<open>
  When process \<open>p\<close> can attach segment \<open>(b, n)\<close> at slot \<open>si\<close> of its region: the slots are the lowest
  run of \<open>n\<close> free ones, free slots have no page mapped, and there are pages for page tables.
\<close>

definition can_attach :: "'a shm_scheme \<Rightarrow> u32 list \<Rightarrow> nat \<Rightarrow> nat \<Rightarrow> nat \<Rightarrow> bool" where
  "can_attach s ps p n si \<longleftrightarrow> running s (curcpu s) = Some p \<and> vm_ok s (pgdir (ptable s p)) ps \<and> n \<le> length ps
     \<and> (\<forall>k < 4096. isAttached (shmsegs (ptable s p) k) = 0 \<longrightarrow>
          pte_of (mem s) (pgdir (ptable s p)) (shm_va k) AND PTE_P = 0)
     \<and> si + n \<le> 4096 \<and> free_run (\<lambda>k. isAttached (shmsegs (ptable s p) k) = 0) n si
     \<and> (\<forall>c < si. \<not> free_run (\<lambda>k. isAttached (shmsegs (ptable s p) k) = 0) n c)"

lemma attach_count_sel [simp]:
  "seg_key (attach_count now who d) = seg_key d" "shm_segsz (attach_count now who d) = shm_segsz d"
  "shm_pa (attach_count now who d) = shm_pa d" "shm_nattch (attach_count now who d) = shm_nattch d + 1"
  by (simp_all add: attach_count_def)

lemma vm_step_pool:
  assumes "vm_step s ps t qs pd" "vm_ok s pd ps"
  shows "set qs \<subseteq> set ps"
  using assms unfolding vm_step_def vm_ok_def by blast

text \<open>The invariant of the table survives a change of the attach counts and of the pool.\<close>

lemma shm_ok_recount:
  assumes ok: "shm_ok s ps G" and qs: "kmem_ok t qs" "set qs \<subseteq> set ps"
    and t: "cli_ok t" "use_lock t" "lock_free ShmLock t" "lastShmSegIndex t = lastShmSegIndex s" "kend t = kend s"
    and sel: "\<And>i. seg_key (shm_segs t i) = seg_key (shm_segs s i)"
      "\<And>i. shm_segsz (shm_segs t i) = shm_segsz (shm_segs s i)" "\<And>i. shm_pa (shm_segs t i) = shm_pa (shm_segs s i)"
  shows "shm_ok t qs G"
proof -
  have "seg_table (shm_segs t) (seg_count t) G"
    using ok seg_table_cong [OF _ sel(1,2)] by (simp add: shm_ok_def t(4))
  moreover have "shm_pages_ok t qs (seg_count t)"
    using ok qs(2) unfolding shm_ok_def shm_pages_ok_def seg_live_def sel t(4) kpage_def t(5) by blast
  ultimately show ?thesis using ok qs(1) t by (simp add: shm_ok_def)
qed

lemma shmat_ok:
  fixes s :: "'a shm_scheme"
  assumes ok: "shm_ok s ps G" and x: "(b, n) \<in> G" and can: "can_attach s ps p n si"
  defines "pd \<equiv> pgdir (ptable s p)"
  shows "\<exists>t qs. shmatHelper (int b) 0 fl s = Inr (shm_va si, t) \<and> shm_ok t qs G \<and> set qs \<subseteq> set ps
    \<and> vm_ok t pd qs \<and> running t (curcpu t) = Some p \<and> settled t = t \<and> pgdir (ptable t p) = pd
    \<and> shmsegs (ptable t p) = fill_slots (attached (int b)) si (si + n) (shmsegs (ptable s p))
    \<and> (\<forall>q. q \<noteq> p \<longrightarrow> ptable t q = ptable s q)
    \<and> (\<forall>i. shm_nattch (shm_segs t i) = shm_nattch (shm_segs s i) + (if b \<le> i \<and> i < b + n then 1 else 0))
    \<and> (\<forall>vb. pte_of (mem t) pd vb =
         (if 0x7F000 + si \<le> page_no vb \<and> page_no vb < 0x7F000 + (si + n)
          then attach_pte (shm_segs s) b si fl (page_no vb) else pte_of (mem s) pd vb))"
proof -
  have c: "running s (curcpu s) = Some p" "vm_ok s (pgdir (ptable s p)) ps" "n \<le> length ps"
    "\<And>k. k < 4096 \<Longrightarrow> isAttached (shmsegs (ptable s p) k) = 0 \<Longrightarrow>
       pte_of (mem s) (pgdir (ptable s p)) (shm_va k) AND PTE_P = 0"
    "si + n \<le> 4096" "free_run (\<lambda>k. isAttached (shmsegs (ptable s p) k) = 0) n si"
    "\<And>c. c < si \<Longrightarrow> \<not> free_run (\<lambda>k. isAttached (shmsegs (ptable s p) k) = 0) n c"
    using can by (simp_all add: can_attach_def)
  define now where "now = shm_now (s\<lparr>shm_r := rtc s\<rparr>)"
  obtain m f qs where m: "shmatHelper (int b) 0 fl s = Inr (shm_va si, (settled s)\<lparr>shm_r := rtc s,
      ptable := (ptable s)(p := (ptable s p)\<lparr>shmsegs := fill_slots (attached (int b)) si (si + n) (shmsegs (ptable s p))\<rparr>),
      shm_segs := mapped_segs (attach_count now (pid (ptable s p))) b (b + n) (shm_segs s),
      mem := m, freelist := f\<rparr>)" (is "_ = Inr (_, ?t)")
    "vm_step s ps (s\<lparr>mem := m, freelist := f\<rparr>) qs (pgdir (ptable s p))"
    "\<forall>vb. pte_of m (pgdir (ptable s p)) vb =
         (if 0x7F000 + si \<le> page_no vb \<and> page_no vb < 0x7F000 + (si + n)
          then attach_pte (shm_segs s) b si fl (page_no vb) else pte_of (mem s) (pgdir (ptable s p)) vb)"
    using shmat_any [OF ok x c, of fl] unfolding now_def by blast
  have s: "cli_ok s" "use_lock s" "lock_free ShmLock s" using ok by (simp_all add: shm_ok_def)
  have t: "cli_ok ?t" "use_lock ?t" "lock_free ShmLock ?t" "lastShmSegIndex ?t = lastShmSegIndex s" "kend ?t = kend s"
    "settled ?t = ?t" "running ?t (curcpu ?t) = Some p"
    using s c(1) by (simp_all add: cli_ok_def settled_def Let_def lock_free_def)
  have vm: "vm_ok ?t pd qs"
    using m(2) t(1) unfolding pd_def vm_step_def
    by (simp add: vm_ok_def kmem_ok_def kpage_def lock_free_def)
  have sub: "set qs \<subseteq> set ps" by (rule vm_step_pool [OF m(2) c(2)])
  have k: "kmem_ok ?t qs" using vm by (simp add: vm_ok_def)
  have "shm_ok ?t qs G"
    by (rule shm_ok_recount [OF ok k sub t(1-5)]) (simp_all add: mapped_segs_def)
  then show ?thesis
    using m(1,3) vm sub t(6,7) by (intro exI [of _ ?t] exI [of _ qs]) (auto simp: pd_def mapped_segs_def)
qed

text \<open>
  C2: attaching a segment at an address the kernel chooses. The address returned is that of the
  lowest run of free slots that is long enough, those slots and no others are marked with the
  segment's id, the attach count of exactly the segment's entries goes up by one, exactly the
  pages of the run get new page table entries, other processes' table entries are untouched, and the invariants
  of the segment table and of the page table hold again with a pool no larger than before.
\<close>

theorem shmat_attaches:
  fixes s :: shm
  assumes "shm_ok s ps G" "(b, n) \<in> G" "can_attach s ps p n si"
  shows "\<exists>t qs. shmatHelper (int b) 0 fl s = Inr (shm_va si, t) \<and> shm_ok t qs G \<and> set qs \<subseteq> set ps
    \<and> vm_ok t (pgdir (ptable s p)) qs
    \<and> shmsegs (ptable t p) = fill_slots (attached (int b)) si (si + n) (shmsegs (ptable s p))
    \<and> (\<forall>q. q \<noteq> p \<longrightarrow> ptable t q = ptable s q)
    \<and> (\<forall>i. shm_nattch (shm_segs t i) = shm_nattch (shm_segs s i) + (if b \<le> i \<and> i < b + n then 1 else 0))
    \<and> (\<forall>vb. pte_of (mem t) (pgdir (ptable s p)) vb =
         (if 0x7F000 + si \<le> page_no vb \<and> page_no vb < 0x7F000 + (si + n)
          then attach_pte (shm_segs s) b si fl (page_no vb) else pte_of (mem s) (pgdir (ptable s p)) vb))"
  using shmat_ok [OF assms, of fl] by blast

lemma demo_can_attach: "can_attach demo_seg [0x80500000] 3 1 0"
proof -
  have "pte_of (mem demo_seg) 0x80300000 va = 0" for va
    using zero_pgdir(3) [of "0x80300000" va] by (simp add: demo_seg_def demo_shm_def page_aligned_def)
  moreover have "pgdir (ptable demo_seg 3) = 0x80300000" by (simp add: demo_seg_def demo_shm_def)
  ultimately show ?thesis
    using demo_seg_ok(3,4) by (simp add: can_attach_def free_run_def) (simp add: demo_seg_def demo_shm_def demo_proc_def)
qed

theorem shmat_attaches_witness:
  "\<exists>t qs. shmatHelper 0 0 2 demo_seg = Inr (0x7F000000, t) \<and> shm_ok t qs {(0, 1)}
    \<and> shm_nattch (shm_segs t 0) = 1"
proof -
  have "shm_nattch (shm_segs demo_seg 0) = 0" by (simp add: demo_seg_def)
  with shmat_attaches [OF demo_seg_ok(1) _ demo_can_attach, of 0 2] show ?thesis
    by (auto simp: shm_va_def)
qed

lemma attach_pte_present: "attach_pte g b si fl pn AND PTE_P \<noteq> 0"
proof -
  have "bit (attach_pte g b si fl pn AND PTE_P) 0" unfolding attach_pte_def by (simp add: bit_simps)
  then show ?thesis by auto
qed

lemma pte_of_same_page: "page_no va = page_no vb \<Longrightarrow> pte_of m pd va = pte_of m pd vb"
  unfolding pte_of_def using same_page_indices [of va vb] by simp



section \<open>Where the code departs from its intent\<close>

lemma V2P_high: "pa < PHYSTOP \<Longrightarrow> unat (V2P pa) = unat pa + 0x80000000"
  unfolding V2P_def by (simp add: unat_sub_if' word_less_nat_alt)

lemma attach_pte_addr:
  fixes si :: nat and fl :: int
  assumes "shm_ok s ps G" "(b, n) \<in> G" "k < n"
  defines "pa \<equiv> shm_pa (shm_segs s (b + k))" and "pte \<equiv> attach_pte (shm_segs s) b si fl (0x7F000 + (si + k))"
  shows "PTE_ADDR pte = pa + KERNBASE" "PTE_ADDR pte \<ge> PHYSTOP" "PTE_ADDR pte \<noteq> pa"
proof -
  have "seg_live (shm_segs s) (seg_count s) (b + k)"
    using seg_facts(2,5,7) [OF assms(1,2)] assms(3) by (simp add: seg_live_def)
  then have kp: "kpage s (P2V pa)" using assms(1) by (simp add: shm_ok_def shm_pages_ok_def pa_def)
  then have pa: "page_aligned pa" "pa < PHYSTOP" by (simp_all add: kpage_def)
  have addr: "PTE_ADDR pte = V2P pa"
    unfolding pte_def attach_pte_def using PTE_parts(1) [of "V2P pa" "shm_perm_bits fl OR PTE_P"] pa(1)
    by (simp add: or.assoc pa_def)
  show "PTE_ADDR pte = pa + KERNBASE" unfolding addr by (simp add: V2P_def)
  show ge: "PTE_ADDR pte \<ge> PHYSTOP" unfolding addr using V2P_high [OF pa(2)] by (simp add: word_le_nat_alt)
  show "PTE_ADDR pte \<noteq> pa" using ge pa(2) by auto
qed

text \<open>
  C33: a segment's pages are mapped at the wrong physical address. \<^verbatim>\<open>allocshmuvm\<close> applies \<^verbatim>\<open>V2P\<close> to an
  address that is physical already, so after a successful \<^verbatim>\<open>shmat\<close> the page table entry of every
  attached page names a frame \<^verbatim>\<open>KERNBASE\<close> too high, beyond the top of physical memory, and never the
  segment's page.
\<close>

theorem shmat_maps_beyond_memory:
  fixes s :: shm
  assumes "shm_ok s ps G" "(b, n) \<in> G" "can_attach s ps p n si"
  shows "\<exists>t. shmatHelper (int b) 0 fl s = Inr (shm_va si, t) \<and>
    (\<forall>k < n. let pa = shm_pa (shm_segs s (b + k)); pte = pte_of (mem t) (pgdir (ptable s p)) (shm_va (si + k))
       in PTE_ADDR pte = pa + KERNBASE \<and> PTE_ADDR pte \<ge> PHYSTOP \<and> PTE_ADDR pte \<noteq> pa)"
proof -
  let ?pd = "pgdir (ptable s p)"
  from shmat_ok [OF assms, of fl] obtain t where t: "shmatHelper (int b) 0 fl s = Inr (shm_va si, t)"
    "\<forall>vb. pte_of (mem t) ?pd vb =
         (if 0x7F000 + si \<le> page_no vb \<and> page_no vb < 0x7F000 + (si + n)
          then attach_pte (shm_segs s) b si fl (page_no vb) else pte_of (mem s) ?pd vb)" by blast
  have "pte_of (mem t) ?pd (shm_va (si + k)) = attach_pte (shm_segs s) b si fl (0x7F000 + (si + k))" if "k < n" for k
  proof -
    have pg: "page_no (shm_va (si + k)) = 0x7F000 + (si + k)"
      using shm_va_page(2) [of "si + k"] that assms(3) by (simp add: can_attach_def)
    show ?thesis unfolding t(2) [rule_format] pg using that by simp
  qed
  then show ?thesis using attach_pte_addr [OF assms(1,2), of _ si fl] t(1) by (auto simp: Let_def)
qed

theorem shmat_maps_beyond_memory_witness:
  "\<exists>t. shmatHelper 0 0 2 demo_seg = Inr (0x7F000000, t)
    \<and> PTE_ADDR (pte_of (mem t) 0x80300000 0x7F000000) = 0x80400000"
proof -
  have pa: "shm_pa (shm_segs demo_seg 0) = 0x400000" "pgdir (ptable demo_seg 3) = 0x80300000"
    by (simp_all add: demo_seg_def demo_shm_def)
  from shmat_maps_beyond_memory [OF demo_seg_ok(1) _ demo_can_attach, of 0 2] show ?thesis
    unfolding pa by (auto simp: shm_va_def Let_def pa)
qed

text \<open>
  C34: \<^verbatim>\<open>shmat\<close> with an address of the caller's choice. Every page-aligned address of the shared
  memory region passes the checks, but unless the flag is \<^verbatim>\<open>SHM_RND\<close> the code leaves its variable
  \<^verbatim>\<open>va\<close> at 0 and computes a negative slot number from it, so it accesses \<^verbatim>\<open>shmsegs\<close> far below its
  first element, whatever the address.
\<close>

theorem shmat_address_out_of_bounds:
  assumes "shm_ok s ps G" "(b, n) \<in> G" "running s (curcpu s) = Some p"
    and "a \<noteq> 0" "\<not> bad_shmaddr a" "a mod PGSIZE = 0" "fl \<noteq> SHM_RND"
  shows "shmatHelper (int b) a fl s = Inl (Undef ''shmsegs'')"
proof -
  note sf = seg_facts [OF assms(1,2)]
  have req: "seg_pages_int (shm_segsz (shm_segs s b)) = int n"
    using seg_pages_int_mult [of n] sf(3,4) by simp
  have nz: "int_of_u32 (shm_segsz (shm_segs s b)) \<noteq> 0"
    using sint_of_nat_small [of "4096 * n"] sf(1,3,4) by simp
  have cl: "cli_ok s" using assms(1) by (simp add: shm_ok_def)
  have cur: "curproc s = Inr (p, settled s)" using myproc_eq [OF cl] assms(3) by (simp add: curproc_def)
  have range: "\<not> (int b < 0 \<or> lastShmSegIndex s < int b)" using sf(6) by simp
  have slots: "[- 520192..int n - 1] = - 520192 # [- 520191..int n - 1]"
    using upto_rec1 [of "- 520192" "int n - 1"] by simp
  show ?thesis
    unfolding shmatHelper_def if_not_P [OF range]
    using sf(1,3) nz req cur assms(4-7) by (simp add: get_seg_def Let_def cdiv_def slots get_slot_def)
qed

theorem shmat_address_out_of_bounds_witness:
  "shmatHelper 0 0x7F003000 2 demo_seg = Inl (Undef ''shmsegs'')"
  using shmat_address_out_of_bounds [OF demo_seg_ok(1) _ demo_seg_ok(3), of 0 1 "0x7F003000" 2]
  by (simp add: bad_shmaddr_def)



text \<open>A kernel with two segments of one page each and no free page.\<close>

definition demo_full :: shm where
  "demo_full = demo_shm\<lparr>freelist := 0, lastShmSegIndex := 1,
     shm_segs := (shm_segs demo_shm)(0 := new_seg 77 0x1000 0 4 0x400000, 1 := new_seg 78 0x1000 0 4 0x500000)\<rparr>"

lemma demo_full_ok: "shm_ok demo_full [] {(0, 1), (1, 1)}"
proof -
  have seg: "shm_segs demo_full 0 = new_seg 77 0x1000 0 4 0x400000" "seg_count demo_full = 2"
    "shm_segs demo_full (Suc 0) = new_seg 78 0x1000 0 4 0x500000" by (simp_all add: demo_full_def)
  have two: "i < 2 \<longleftrightarrow> i = 0 \<or> i = Suc 0" for i :: nat by auto
  have "kmem_ok demo_full []"
    by (simp add: kmem_ok_def demo_full_def demo_shm_def cli_ok_def lock_free_def demo_cpu_def)
  moreover have "seg_table (shm_segs demo_full) (seg_count demo_full) {(0, 1), (1, 1)}"
    unfolding seg_table_def seg by (auto simp: seg_at_def seg_live_def apart_def seg two)
  moreover have "shm_pages_ok demo_full [] (seg_count demo_full)"
    unfolding shm_pages_ok_def seg(2) by (auto simp: seg_live_def two seg) (simp_all add: kpage_def P2V_def V2P_def page_aligned_def demo_full_def demo_shm_def)
  ultimately show ?thesis
    unfolding shm_ok_def by (simp add: demo_full_def demo_shm_def cli_ok_def lock_free_def demo_cpu_def)
qed


end
