(* ===== verification/Kern.thy ===== *)
theory Kern
  imports Shm
begin

text \<open>
  The state the file system, the console and the pipes add to the kernel: sleep locks
  (\<^verbatim>\<open>sleeplock.h\<close>), the disk and its buffers (\<^verbatim>\<open>buf.h\<close>, \<^verbatim>\<open>bio.c\<close>), the log (\<^verbatim>\<open>log.c\<close>), inodes and
  open files (\<^verbatim>\<open>file.h\<close>, \<^verbatim>\<open>fs.h\<close>), pipes (\<^verbatim>\<open>pipe.c\<close>) and the console (\<^verbatim>\<open>console.c\<close>). Arrays are
  functions of the index, pointers into them are indices. A disk block is a list of 512
  bytes; the structures stored in blocks are read and written through the byte accessors at
  the end of this theory.
\<close>

section \<open>Records\<close>

record sleeplock =
  sl_locked :: bool
  sl_pid :: int

text \<open>
  The flags \<^verbatim>\<open>B_VALID\<close> and \<^verbatim>\<open>B_DIRTY\<close> are the fields \<open>b_valid\<close> and \<open>b_dirty\<close>. \<open>b_prev\<close> and \<open>b_next\<close>
  link the buffers; index \<^verbatim>\<open>NBUF\<close> is \<^verbatim>\<open>bcache.head\<close>.
\<close>

record buf =
  b_valid :: bool
  b_dirty :: bool
  b_dev :: u32
  b_blockno :: u32
  b_refcnt :: u32
  b_prev :: nat
  b_next :: nat
  b_data :: "u8 list"

record log =
  lg_start :: int
  lg_size :: int
  lg_outstanding :: int
  lg_committing :: bool
  lg_dev :: int
  lh_n :: int
  lh_block :: "nat \<Rightarrow> int"

record superblock =
  sb_size :: u32
  sb_nblocks :: u32
  sb_ninodes :: u32
  sb_nlog :: u32
  sb_logstart :: u32
  sb_inodestart :: u32
  sb_bmapstart :: u32

record dinode =
  di_type :: u16
  di_major :: u16
  di_minor :: u16
  di_nlink :: u16
  di_size :: u32
  di_addrs :: "u32 list"

record inode =
  i_dev :: u32
  i_inum :: u32
  i_ref :: int
  i_valid :: bool
  i_type :: u16
  i_major :: u16
  i_minor :: u16
  i_nlink :: u16
  i_size :: u32
  i_addrs :: "u32 list"

datatype fdtype = FD_NONE | FD_PIPE | FD_INODE

record kfile =
  f_type :: fdtype
  f_ref :: int
  f_readable :: bool
  f_writable :: bool
  f_pipe :: u32
  f_ip :: "nat option"
  f_off :: u32

record pipe =
  p_data :: "nat \<Rightarrow> u8"
  p_nread :: u32
  p_nwrite :: u32
  p_readopen :: bool
  p_writeopen :: bool

text \<open>
  The console: \<open>crt\<close> is the CGA memory and \<open>crt_pos\<close> the cursor position its controller holds,
  \<open>uart_out\<close> what has been sent to the serial port, the rest is \<^verbatim>\<open>cons\<close>, \<^verbatim>\<open>input\<close> and \<^verbatim>\<open>panicked\<close>.
\<close>

record console =
  crt :: "nat \<Rightarrow> u16"
  crt_pos :: int
  uart_out :: "u8 list"
  in_buf :: "nat \<Rightarrow> u8"
  in_r :: u32
  in_w :: u32
  in_e :: u32
  cons_locking :: bool
  panicked :: bool

text \<open>\<^verbatim>\<open>struct gatedesc\<close>, an entry of the interrupt descriptor table.\<close>

record gatedesc =
  off_15_0 :: u16
  cs_sel :: u16
  gate_args :: nat
  gate_rsv1 :: nat
  gate_type :: nat
  gate_s :: nat
  gate_dpl :: nat
  gate_p :: nat
  off_31_16 :: u16

text \<open>
  \<open>disk\<close> is the array \<^verbatim>\<open>memdisk\<close> by block, \<open>dwrites\<close> is a history variable: the blocks written to the disk so far,
  oldest first. \<open>devsw\<close> tells which major device numbers have functions installed; the only
  device that installs any is the console. \<open>forkret_first\<close> is the static variable of \<^verbatim>\<open>forkret\<close>.
\<close>

record kern = shm +
  sleeplocks :: "lockid \<Rightarrow> sleeplock"
  disk :: "nat \<Rightarrow> u8 list"
  disksize :: u32
  dwrites :: "(nat \<times> u8 list) list"
  bufs :: "nat \<Rightarrow> buf"
  klog :: log
  sb :: superblock
  icache :: "nat \<Rightarrow> inode"
  ftable :: "nat \<Rightarrow> kfile"
  pipes :: "u32 \<Rightarrow> pipe"
  cons :: console
  devsw :: "int \<Rightarrow> bool"
  forkret_first :: bool
  idt :: "nat \<Rightarrow> gatedesc"

section \<open>Updates of one entry\<close>

definition upd_buf :: "nat \<Rightarrow> (buf \<Rightarrow> buf) \<Rightarrow> 'a kern_scheme \<Rightarrow> 'a kern_scheme" where
  "upd_buf i f s = s\<lparr>bufs := (bufs s)(i := f (bufs s i))\<rparr>"

definition upd_inode :: "nat \<Rightarrow> (inode \<Rightarrow> inode) \<Rightarrow> 'a kern_scheme \<Rightarrow> 'a kern_scheme" where
  "upd_inode i f s = s\<lparr>icache := (icache s)(i := f (icache s i))\<rparr>"

definition upd_file :: "nat \<Rightarrow> (kfile \<Rightarrow> kfile) \<Rightarrow> 'a kern_scheme \<Rightarrow> 'a kern_scheme" where
  "upd_file i f s = s\<lparr>ftable := (ftable s)(i := f (ftable s i))\<rparr>"

definition upd_pipe :: "u32 \<Rightarrow> (pipe \<Rightarrow> pipe) \<Rightarrow> 'a kern_scheme \<Rightarrow> 'a kern_scheme" where
  "upd_pipe i f s = s\<lparr>pipes := (pipes s)(i := f (pipes s i))\<rparr>"

abbreviation upd_log :: "(log \<Rightarrow> log) \<Rightarrow> 'a kern_scheme \<Rightarrow> 'a kern_scheme" where
  "upd_log f s \<equiv> s\<lparr>klog := f (klog s)\<rparr>"

section \<open>Structures in blocks\<close>

abbreviation (input) BSIZE :: "'a::numeral" where "BSIZE \<equiv> 512"
abbreviation (input) NDIRECT :: "'a::numeral" where "NDIRECT \<equiv> 12"
abbreviation (input) NINDIRECT :: "'a::numeral" where "NINDIRECT \<equiv> 128"
abbreviation (input) MAXFILE :: "'a::numeral" where "MAXFILE \<equiv> 140"
abbreviation (input) IPB :: "'a::numeral" where "IPB \<equiv> 8"
abbreviation (input) BPB :: "'a::numeral" where "BPB \<equiv> 4096"
abbreviation (input) DIRSIZ :: "'a::numeral" where "DIRSIZ \<equiv> 14"
abbreviation (input) ROOTINO :: "'a::one" where "ROOTINO \<equiv> 1"
abbreviation (input) T_DIR :: "'a::one" where "T_DIR \<equiv> 1"
abbreviation (input) T_FILE :: "'a::numeral" where "T_FILE \<equiv> 2"
abbreviation (input) T_DEV :: "'a::numeral" where "T_DEV \<equiv> 3"

definition slice :: "nat \<Rightarrow> nat \<Rightarrow> 'b list \<Rightarrow> 'b list" where
  "slice off n xs = take n (drop off xs)"

definition splice :: "nat \<Rightarrow> 'b list \<Rightarrow> 'b list \<Rightarrow> 'b list" where
  "splice off ys xs = take off xs @ ys @ drop (off + length ys) xs"

definition u16_of_bytes :: "u8 list \<Rightarrow> u16" where
  "u16_of_bytes bs = (case bs of [a, b] \<Rightarrow> ucast a OR push_bit 8 (ucast b) | _ \<Rightarrow> 0)"

definition bytes_of_u16 :: "u16 \<Rightarrow> u8 list" where
  "bytes_of_u16 w = [ucast w, ucast (drop_bit 8 w)]"

definition get32 :: "nat \<Rightarrow> u8 list \<Rightarrow> u32" where
  "get32 off xs = u32_of_bytes (slice off 4 xs)"

definition put32 :: "nat \<Rightarrow> u32 \<Rightarrow> u8 list \<Rightarrow> u8 list" where
  "put32 off w xs = splice off (bytes_of_u32 w) xs"

definition get16 :: "nat \<Rightarrow> u8 list \<Rightarrow> u16" where
  "get16 off xs = u16_of_bytes (slice off 2 xs)"

definition put16 :: "nat \<Rightarrow> u16 \<Rightarrow> u8 list \<Rightarrow> u8 list" where
  "put16 off w xs = splice off (bytes_of_u16 w) xs"

definition get_superblock :: "u8 list \<Rightarrow> superblock" where
  "get_superblock d = \<lparr>sb_size = get32 0 d, sb_nblocks = get32 4 d, sb_ninodes = get32 8 d, sb_nlog = get32 12 d,
     sb_logstart = get32 16 d, sb_inodestart = get32 20 d, sb_bmapstart = get32 24 d\<rparr>"

text \<open>\<^verbatim>\<open>struct dinode\<close> takes 64 bytes: four shorts, the size and 13 block numbers.\<close>

definition get_dinode :: "nat \<Rightarrow> u8 list \<Rightarrow> dinode" where
  "get_dinode i d = (let p = 64 * i in
     \<lparr>di_type = get16 p d, di_major = get16 (p + 2) d, di_minor = get16 (p + 4) d, di_nlink = get16 (p + 6) d,
      di_size = get32 (p + 8) d, di_addrs = map (\<lambda>k. get32 (p + 12 + 4 * k) d) [0..<NDIRECT + 1]\<rparr>)"

definition bytes_of_dinode :: "dinode \<Rightarrow> u8 list" where
  "bytes_of_dinode di = bytes_of_u16 (di_type di) @ bytes_of_u16 (di_major di) @ bytes_of_u16 (di_minor di)
     @ bytes_of_u16 (di_nlink di) @ bytes_of_u32 (di_size di) @ concat (map bytes_of_u32 (di_addrs di))"

definition put_dinode :: "nat \<Rightarrow> dinode \<Rightarrow> u8 list \<Rightarrow> u8 list" where
  "put_dinode i di d = splice (64 * i) (bytes_of_dinode di) d"

text \<open>\<^verbatim>\<open>struct dirent\<close>: a 16-bit inode number and 14 bytes of name.\<close>

definition dirent_inum :: "u8 list \<Rightarrow> u16" where
  "dirent_inum de = get16 0 de"

definition dirent_name :: "u8 list \<Rightarrow> u8 list" where
  "dirent_name de = slice 2 DIRSIZ de"

end
