(* ===== verification/Sleeplock.thy ===== *)
theory Sleeplock
  imports Kern ProcInv
begin

text \<open>
  Sleep locks (\<^verbatim>\<open>sleeplock.c\<close>). A sleep lock is named by the spin lock that protects it; a
  process that finds it taken goes to sleep on the lock's own address.
\<close>

section \<open>Operations\<close>

fun sleep_chan :: "lockid \<Rightarrow> chan" where
  "sleep_chan (BufLk i) = ChanBufLk i"
| "sleep_chan (InodeLk i) = ChanInodeLk i"
| "sleep_chan _ = NoChan"

definition set_sleeplock :: "lockid \<Rightarrow> bool \<Rightarrow> int \<Rightarrow> 'a kern_scheme \<Rightarrow> 'a kern_scheme" where
  "set_sleeplock lk l i s = s\<lparr>sleeplocks := (sleeplocks s)(lk := \<lparr>sl_locked = l, sl_pid = i\<rparr>)\<rparr>"

definition initsleeplock :: "lockid \<Rightarrow> 'a kern_scheme \<Rightarrow> 'a kern_scheme" where
  "initsleeplock lk s = set_sleeplock lk False 0 (initlock lk s)"

definition acquiresleep :: "lockid \<Rightarrow> 'a kern_scheme \<Rightarrow> 'a kern_scheme res" where
  "acquiresleep lk s =
     rbind (acquire lk s) (\<lambda>s.
     if sl_locked (sleeplocks s lk) then sleep (sleep_chan lk) lk s
     else rbind (curproc s) (\<lambda>(p, s).
       release lk (set_sleeplock lk True (pid (ptable s p)) s)))"

definition releasesleep :: "lockid \<Rightarrow> 'a kern_scheme \<Rightarrow> 'a kern_scheme res" where
  "releasesleep lk s =
     rbind (acquire lk s) (\<lambda>s.
     rbind (wakeup (sleep_chan lk) (set_sleeplock lk False 0 s)) (\<lambda>s.
     release lk s))"

text \<open>\<^verbatim>\<open>myproc\<close> is called only when the lock is taken, as \<^verbatim>\<open>&&\<close> demands.\<close>

definition holdingsleep :: "lockid \<Rightarrow> 'a kern_scheme \<Rightarrow> (bool \<times> 'a kern_scheme) res" where
  "holdingsleep lk s =
     rbind (acquire lk s) (\<lambda>s.
     rbind (if sl_locked (sleeplocks s lk)
            then rbind (curproc s) (\<lambda>(p, s). Inr (sl_pid (sleeplocks s lk) = pid (ptable s p), s))
            else Inr (False, s)) (\<lambda>(r, s).
     rbind (release lk s) (\<lambda>s. Inr (r, s))))"

end
