(* ===== verification/Bio.thy ===== *)
theory Bio
  imports Sleeplock
begin

text \<open>
  The buffer cache (\<^verbatim>\<open>bio.c\<close>) above the disk driver. The driver is the one of \<^verbatim>\<open>memide.c\<close>, which
  keeps the disk in memory; \<^verbatim>\<open>ide.c\<close> has the same contract but waits for the hardware.
\<close>

section \<open>The disk\<close>

text \<open>The image \<^verbatim>\<open>fs.img\<close> and its size come from the linker.\<close>

definition ideinit :: "(nat \<Rightarrow> u8 list) \<Rightarrow> u32 \<Rightarrow> 'a kern_scheme \<Rightarrow> 'a kern_scheme" where
  "ideinit img imgsize s = s\<lparr>disk := img, disksize := imgsize div BSIZE\<rparr>"

definition iderw :: "nat \<Rightarrow> 'a kern_scheme \<Rightarrow> 'a kern_scheme res" where
  "iderw b s =
     rbind (holdingsleep (BufLk b) s) (\<lambda>(h, s).
     if \<not> h then Inl (Panic ''iderw: buf not locked'')
     else if b_valid (bufs s b) \<and> \<not> b_dirty (bufs s b) then Inl (Panic ''iderw: nothing to do'')
     else if b_dev (bufs s b) \<noteq> 1 then Inl (Panic ''iderw: request not for disk 1'')
     else if b_blockno (bufs s b) \<ge> disksize s then Inl (Panic ''iderw: block out of range'')
     else
       let p = unat (b_blockno (bufs s b));
           s = (if b_dirty (bufs s b)
                then (upd_buf b (\<lambda>x. x\<lparr>b_dirty := False\<rparr>) s)
                  \<lparr>disk := (disk s)(p := b_data (bufs s b)), dwrites := dwrites s @ [(p, b_data (bufs s b))]\<rparr>
                else upd_buf b (\<lambda>x. x\<lparr>b_data := disk s p\<rparr>) s)
       in Inr (upd_buf b (\<lambda>x. x\<lparr>b_valid := True\<rparr>) s))"

section \<open>The cache\<close>

abbreviation (input) BHEAD :: nat where "BHEAD \<equiv> NBUF"

definition set_next :: "nat \<Rightarrow> nat \<Rightarrow> 'a kern_scheme \<Rightarrow> 'a kern_scheme" where
  "set_next b c s = upd_buf b (\<lambda>x. x\<lparr>b_next := c\<rparr>) s"

definition set_prev :: "nat \<Rightarrow> nat \<Rightarrow> 'a kern_scheme \<Rightarrow> 'a kern_scheme" where
  "set_prev b c s = upd_buf b (\<lambda>x. x\<lparr>b_prev := c\<rparr>) s"

text \<open>Insert \<open>b\<close> behind the head, the last four assignments in \<^verbatim>\<open>binit\<close> and \<^verbatim>\<open>brelse\<close>.\<close>

definition push_front :: "nat \<Rightarrow> 'a kern_scheme \<Rightarrow> 'a kern_scheme" where
  "push_front b s =
     (let s = set_next b (b_next (bufs s BHEAD)) s;
          s = set_prev b BHEAD s;
          s = set_prev (b_next (bufs s BHEAD)) b s
      in set_next BHEAD b s)"

primrec binit_loop :: "nat list \<Rightarrow> 'a kern_scheme \<Rightarrow> 'a kern_scheme" where
  "binit_loop [] s = s"
| "binit_loop (b # bs) s = binit_loop bs (push_front b (initsleeplock (BufLk b) s))"

definition binit :: "'a kern_scheme \<Rightarrow> 'a kern_scheme" where
  "binit s = binit_loop [0..<NBUF] (set_next BHEAD BHEAD (set_prev BHEAD BHEAD (initlock BcacheLock s)))"

text \<open>
  The loops along the list. There are only \<^verbatim>\<open>NBUF\<close> buffers, so a walk of more than \<^verbatim>\<open>NBUF\<close> steps
  that has not met the head never meets it.
\<close>

primrec scan_list :: "nat \<Rightarrow> (buf \<Rightarrow> nat) \<Rightarrow> (buf \<Rightarrow> bool) \<Rightarrow> (nat \<Rightarrow> buf) \<Rightarrow> nat \<Rightarrow> nat option res" where
  "scan_list 0 nxt P bs b = (if b = BHEAD then Inr None else Inl Spins)"
| "scan_list (Suc k) nxt P bs b =
     (if b = BHEAD then Inr None
      else if P (bs b) then Inr (Some b)
      else scan_list k nxt P bs (nxt (bs b)))"

definition bget :: "u32 \<Rightarrow> u32 \<Rightarrow> 'a kern_scheme \<Rightarrow> (nat \<times> 'a kern_scheme) res" where
  "bget dev blockno s =
     rbind (acquire BcacheLock s) (\<lambda>s.
     rbind (scan_list NBUF b_next (\<lambda>b. b_dev b = dev \<and> b_blockno b = blockno) (bufs s) (b_next (bufs s BHEAD))) (\<lambda>r.
     case r of
       Some b \<Rightarrow>
         let s = upd_buf b (\<lambda>x. x\<lparr>b_refcnt := b_refcnt x + 1\<rparr>) s in
         rbind (release BcacheLock s) (\<lambda>s.
         rbind (acquiresleep (BufLk b) s) (\<lambda>s. Inr (b, s)))
     | None \<Rightarrow>
         rbind (scan_list NBUF b_prev (\<lambda>b. b_refcnt b = 0 \<and> \<not> b_dirty b) (bufs s) (b_prev (bufs s BHEAD))) (\<lambda>r.
         case r of
           Some b \<Rightarrow>
             let s = upd_buf b (\<lambda>x. x\<lparr>b_dev := dev, b_blockno := blockno, b_valid := False, b_dirty := False,
                   b_refcnt := 1\<rparr>) s in
             rbind (release BcacheLock s) (\<lambda>s.
             rbind (acquiresleep (BufLk b) s) (\<lambda>s. Inr (b, s)))
         | None \<Rightarrow> Inl (Panic ''bget: no buffers''))))"

definition bread :: "u32 \<Rightarrow> u32 \<Rightarrow> 'a kern_scheme \<Rightarrow> (nat \<times> 'a kern_scheme) res" where
  "bread dev blockno s =
     rbind (bget dev blockno s) (\<lambda>(b, s).
     if \<not> b_valid (bufs s b) then rbind (iderw b s) (\<lambda>s. Inr (b, s))
     else Inr (b, s))"

definition bwrite :: "nat \<Rightarrow> 'a kern_scheme \<Rightarrow> 'a kern_scheme res" where
  "bwrite b s =
     rbind (holdingsleep (BufLk b) s) (\<lambda>(h, s).
     if \<not> h then Inl (Panic ''bwrite'')
     else iderw b (upd_buf b (\<lambda>x. x\<lparr>b_dirty := True\<rparr>) s))"

definition brelse :: "nat \<Rightarrow> 'a kern_scheme \<Rightarrow> 'a kern_scheme res" where
  "brelse b s =
     rbind (holdingsleep (BufLk b) s) (\<lambda>(h, s).
     if \<not> h then Inl (Panic ''brelse'')
     else
       rbind (releasesleep (BufLk b) s) (\<lambda>s.
       rbind (acquire BcacheLock s) (\<lambda>s.
       let s = upd_buf b (\<lambda>x. x\<lparr>b_refcnt := b_refcnt x - 1\<rparr>) s;
           s = (if b_refcnt (bufs s b) = 0
                then let s = set_prev (b_next (bufs s b)) (b_prev (bufs s b)) s;
                         s = set_next (b_prev (bufs s b)) (b_next (bufs s b)) s
                     in push_front b s
                else s)
       in release BcacheLock s)))"

end
