(* ===== verification/Log.thy ===== *)
theory Log
  imports Bio
begin

text \<open>
  The redo log (\<^verbatim>\<open>log.c\<close>), with the super block reader of \<^verbatim>\<open>fs.c\<close> that its initialisation calls.
  The header block holds the number of logged blocks and their block numbers.
\<close>

section \<open>Header block\<close>

definition readsb :: "u32 \<Rightarrow> 'a kern_scheme \<Rightarrow> (superblock \<times> 'a kern_scheme) res" where
  "readsb dev s =
     rbind (bread dev 1 s) (\<lambda>(b, s).
     let r = get_superblock (b_data (bufs s b)) in
     rbind (brelse b s) (\<lambda>s. Inr (r, s)))"

abbreviation buf_data :: "nat \<Rightarrow> (u8 list \<Rightarrow> u8 list) \<Rightarrow> 'a kern_scheme \<Rightarrow> 'a kern_scheme" where
  "buf_data b f s \<equiv> upd_buf b (\<lambda>x. x\<lparr>b_data := f (b_data x)\<rparr>) s"

abbreviation log_dev :: "'a kern_scheme \<Rightarrow> u32" where
  "log_dev s \<equiv> u32_of_int (lg_dev (klog s))"

text \<open>
  Reading a header with a count outside 0 to \<^verbatim>\<open>LOGSIZE\<close> runs past the end of \<^verbatim>\<open>block\<close> (a negative
  count copies nothing).
\<close>

definition read_head :: "'a kern_scheme \<Rightarrow> 'a kern_scheme res" where
  "read_head s =
     rbind (bread (log_dev s) (u32_of_int (lg_start (klog s))) s) (\<lambda>(b, s).
     let d = b_data (bufs s b); n = int_of_u32 (get32 0 d) in
     if n > LOGSIZE then Inl (Undef ''log header'')
     else
       let s = upd_log (\<lambda>l. l\<lparr>lh_n := n,
             lh_block := (\<lambda>i. if int i < n then int_of_u32 (get32 (4 + 4 * i) d) else lh_block l i)\<rparr>) s
       in brelse b s)"

primrec put_blocks :: "nat list \<Rightarrow> (nat \<Rightarrow> int) \<Rightarrow> u8 list \<Rightarrow> u8 list" where
  "put_blocks [] bl d = d"
| "put_blocks (i # is) bl d = put_blocks is bl (put32 (4 + 4 * i) (u32_of_int (bl i)) d)"

definition write_head :: "'a kern_scheme \<Rightarrow> 'a kern_scheme res" where
  "write_head s =
     rbind (bread (log_dev s) (u32_of_int (lg_start (klog s))) s) (\<lambda>(b, s).
     let n = lh_n (klog s); bl = lh_block (klog s) in
     if n > LOGSIZE then Inl (Undef ''log header'')
     else
       let s = buf_data b (\<lambda>d. put_blocks [0..<nat n] bl (put32 0 (u32_of_int n) d)) s in
       rbind (bwrite b s) (\<lambda>s. brelse b s))"

section \<open>Copying between log and home locations\<close>

primrec install_loop :: "nat list \<Rightarrow> 'a kern_scheme \<Rightarrow> 'a kern_scheme res" where
  "install_loop [] s = Inr s"
| "install_loop (tail # ts) s =
     rbind (bread (log_dev s) (u32_of_int (lg_start (klog s) + int tail + 1)) s) (\<lambda>(lbuf, s).
     rbind (bread (log_dev s) (u32_of_int (lh_block (klog s) tail)) s) (\<lambda>(dbuf, s).
     let s = buf_data dbuf (\<lambda>_. b_data (bufs s lbuf)) s in
     rbind (bwrite dbuf s) (\<lambda>s.
     rbind (brelse lbuf s) (\<lambda>s.
     rbind (brelse dbuf s) (\<lambda>s.
     install_loop ts s)))))"

definition install_trans :: "'a kern_scheme \<Rightarrow> 'a kern_scheme res" where
  "install_trans s = install_loop [0..<nat (lh_n (klog s))] s"

primrec write_log_loop :: "nat list \<Rightarrow> 'a kern_scheme \<Rightarrow> 'a kern_scheme res" where
  "write_log_loop [] s = Inr s"
| "write_log_loop (tail # ts) s =
     rbind (bread (log_dev s) (u32_of_int (lg_start (klog s) + int tail + 1)) s) (\<lambda>(to, s).
     rbind (bread (log_dev s) (u32_of_int (lh_block (klog s) tail)) s) (\<lambda>(from_b, s).
     let s = buf_data to (\<lambda>_. b_data (bufs s from_b)) s in
     rbind (bwrite to s) (\<lambda>s.
     rbind (brelse from_b s) (\<lambda>s.
     rbind (brelse to s) (\<lambda>s.
     write_log_loop ts s)))))"

definition write_log :: "'a kern_scheme \<Rightarrow> 'a kern_scheme res" where
  "write_log s = write_log_loop [0..<nat (lh_n (klog s))] s"

section \<open>Transactions\<close>

definition commit :: "'a kern_scheme \<Rightarrow> 'a kern_scheme res" where
  "commit s =
     (if lh_n (klog s) > 0 then
        rbind (write_log s) (\<lambda>s.
        rbind (write_head s) (\<lambda>s.
        rbind (install_trans s) (\<lambda>s.
        write_head (upd_log (\<lambda>l. l\<lparr>lh_n := 0\<rparr>) s))))
      else Inr s)"

definition recover_from_log :: "'a kern_scheme \<Rightarrow> 'a kern_scheme res" where
  "recover_from_log s =
     rbind (read_head s) (\<lambda>s.
     rbind (install_trans s) (\<lambda>s.
     write_head (upd_log (\<lambda>l. l\<lparr>lh_n := 0\<rparr>) s)))"

text \<open>The log header takes 4 + 4 * 30 bytes, so the check for its size never fires.\<close>

definition initlog :: "int \<Rightarrow> 'a kern_scheme \<Rightarrow> 'a kern_scheme res" where
  "initlog dev s =
     (if 4 + 4 * LOGSIZE \<ge> (BSIZE :: nat) then Inl (Panic ''initlog: too big logheader'')
      else
        rbind (readsb (u32_of_int dev) (initlock LogLock s)) (\<lambda>(r, s).
        recover_from_log (upd_log (\<lambda>l. l\<lparr>lg_start := int_of_u32 (sb_logstart r),
          lg_size := int_of_u32 (sb_nlog r), lg_dev := dev\<rparr>) s)))"

definition begin_op :: "'a kern_scheme \<Rightarrow> 'a kern_scheme res" where
  "begin_op s =
     rbind (acquire LogLock s) (\<lambda>s.
     if lg_committing (klog s) then sleep ChanLog LogLock s
     else if lh_n (klog s) + (lg_outstanding (klog s) + 1) * MAXOPBLOCKS > LOGSIZE then sleep ChanLog LogLock s
     else release LogLock (upd_log (\<lambda>l. l\<lparr>lg_outstanding := lg_outstanding l + 1\<rparr>) s))"

definition end_op :: "'a kern_scheme \<Rightarrow> 'a kern_scheme res" where
  "end_op s =
     rbind (acquire LogLock s) (\<lambda>s.
     let s = upd_log (\<lambda>l. l\<lparr>lg_outstanding := lg_outstanding l - 1\<rparr>) s in
     if lg_committing (klog s) then Inl (Panic ''log.committing'')
     else
       let do_commit = (lg_outstanding (klog s) = 0) in
       rbind (if do_commit then Inr (upd_log (\<lambda>l. l\<lparr>lg_committing := True\<rparr>) s) else wakeup ChanLog s) (\<lambda>s.
       rbind (release LogLock s) (\<lambda>s.
       if do_commit then
         rbind (commit s) (\<lambda>s.
         rbind (acquire LogLock s) (\<lambda>s.
         rbind (wakeup ChanLog (upd_log (\<lambda>l. l\<lparr>lg_committing := False\<rparr>) s)) (\<lambda>s.
         release LogLock s)))
       else Inr s)))"

text \<open>
  \<^verbatim>\<open>log.lh.block[i] == b->blockno\<close> compares an \<^verbatim>\<open>int\<close> with a \<^verbatim>\<open>uint\<close>, as 32-bit words.
\<close>

definition log_write :: "nat \<Rightarrow> 'a kern_scheme \<Rightarrow> 'a kern_scheme res" where
  "log_write b s =
     (if lh_n (klog s) \<ge> LOGSIZE \<or> lh_n (klog s) \<ge> lg_size (klog s) - 1 then Inl (Panic ''too big a transaction'')
      else if lg_outstanding (klog s) < 1 then Inl (Panic ''log_write outside of trans'')
      else
        rbind (acquire LogLock s) (\<lambda>s.
        let bno = b_blockno (bufs s b);
            n = nat (lh_n (klog s));
            i = (case find (\<lambda>i. u32_of_int (lh_block (klog s) i) = bno) [0..<n] of Some i \<Rightarrow> i | None \<Rightarrow> n);
            s = upd_log (\<lambda>l. l\<lparr>lh_block := (lh_block l)(i := int_of_u32 bno)\<rparr>) s;
            s = (if int i = lh_n (klog s) then upd_log (\<lambda>l. l\<lparr>lh_n := lh_n l + 1\<rparr>) s else s);
            s = upd_buf b (\<lambda>x. x\<lparr>b_dirty := True\<rparr>) s
        in release LogLock s))"

end
