(* ===== verification/Printk.thy ===== *)
theory Printk
  imports Sleeplock
begin

text \<open>
  Console output (the first half of \<^verbatim>\<open>console.c\<close>): the screen, the serial port and \<^verbatim>\<open>cprintf\<close>, and the
  process listing of \<^verbatim>\<open>proc.c\<close> that uses it. What \<^verbatim>\<open>uartputc\<close> sends is appended to \<open>uart_out\<close>; the
  CGA controller's cursor register is \<open>crt_pos\<close>.
\<close>

section \<open>Output\<close>

abbreviation upd_cons :: "(console \<Rightarrow> console) \<Rightarrow> 'a kern_scheme \<Rightarrow> 'a kern_scheme" where
  "upd_cons f s \<equiv> s\<lparr>cons := f (cons s)\<rparr>"

abbreviation (input) BACKSPACE :: int where "BACKSPACE \<equiv> 0x100"
abbreviation (input) INPUT_BUF :: "'a::numeral" where "INPUT_BUF \<equiv> 128"

definition cgaputc :: "int \<Rightarrow> console \<Rightarrow> console res" where
  "cgaputc c k =
     (let pos = crt_pos k;
          (pos, k) =
            (if c = 10 then (pos + (80 - pos mod 80), k)
             else if c = BACKSPACE then (if pos > 0 then pos - 1 else pos, k)
             else (pos + 1, k\<lparr>crt := (crt k)(nat pos := word_of_int (c AND 0xff) OR 0x0700)\<rparr>))
      in
      if pos < 0 \<or> pos > 25 * 80 then Inl (Panic ''pos under/overflow'')
      else
        let (pos, k) =
          (if pos div 80 \<ge> 24 then
             let m = (\<lambda>i. if i < 23 * 80 then crt k (i + 80) else crt k i);
                 pos = pos - 80
             in (pos, k\<lparr>crt := (\<lambda>i. if nat pos \<le> i \<and> i < 24 * 80 then 0 else m i)\<rparr>)
           else (pos, k))
        in Inr (k\<lparr>crt_pos := pos, crt := (crt k)(nat pos := 0x0720)\<rparr>))"

text \<open>After a panic the CPU that prints next hangs in an endless loop.\<close>

definition consputc :: "int \<Rightarrow> console \<Rightarrow> console res" where
  "consputc c k =
     (if panicked k then Inl Spins
      else
        let out = (if c = BACKSPACE then [8, 32, 8] else [word_of_int c]) in
        cgaputc c (k\<lparr>uart_out := uart_out k @ out\<rparr>))"

primrec consputs :: "int list \<Rightarrow> console \<Rightarrow> console res" where
  "consputs [] k = Inr k"
| "consputs (c # cs) k = rbind (consputc c k) (\<lambda>k. consputs cs k)"

text \<open>\<^verbatim>\<open>"0123456789abcdef"\<close>\<close>

definition digit :: "u32 \<Rightarrow> int" where
  "digit d = (if d < 10 then 48 + uint d else 87 + uint d)"

text \<open>The digits of \<open>x\<close>, least significant first, as the \<^verbatim>\<open>do\<close> loop stores them.\<close>

function digits_loop :: "u32 \<Rightarrow> u32 \<Rightarrow> int list" where
  "digits_loop x base =
     (if base < 2 then [] else digit (x mod base) # (if x div base \<noteq> 0 then digits_loop (x div base) base else []))"
  by pat_completeness auto
termination
proof (relation "measure (\<lambda>(x, base). unat x)")
  fix x base :: u32
  assume b: "\<not> base < 2" and d: "x div base \<noteq> 0"
  have "2 \<le> unat base" using b by (simp add: word_less_nat_alt)
  moreover have "unat x \<noteq> 0" using d by (auto simp: unat_eq_0)
  ultimately have "unat x div unat base < unat x" by (intro div_less_dividend) auto
  then show "((x div base, base), x, base) \<in> measure (\<lambda>(x, base). unat x)" by (simp add: unat_div)
qed simp

declare digits_loop.simps [simp del]

text \<open>The characters \<^verbatim>\<open>printint\<close> prints; \<^verbatim>\<open>x = -xx\<close> is a conversion to \<^verbatim>\<open>uint\<close>.\<close>

definition printint_chars :: "int \<Rightarrow> u32 \<Rightarrow> bool \<Rightarrow> int list" where
  "printint_chars xx base sign =
     (let neg = (sign \<and> xx < 0);
          x = (if neg then u32_of_int (- xx) else u32_of_int xx);
          ds = digits_loop x base @ (if neg then [45] else [])
      in rev ds)"

definition printint :: "int \<Rightarrow> u32 \<Rightarrow> bool \<Rightarrow> console \<Rightarrow> console res" where
  "printint xx base sign k = consputs (printint_chars xx base sign) k"

text \<open>
  The variable arguments of \<^verbatim>\<open>cprintf\<close>: words, or strings for \<^verbatim>\<open>%s\<close> (\<open>None\<close> is the null pointer).
  A directive without an argument reads past the caller's arguments.
\<close>

datatype printarg = PInt u32 | PStr "int list option"

definition chars :: "string \<Rightarrow> int list" where
  "chars cs = map (\<lambda>c. int (of_char c)) cs"

fun format :: "int list \<Rightarrow> printarg list \<Rightarrow> int list res" where
  "format [] args = Inr []"
| "format [c] args = (if c \<noteq> 37 then Inr [c] else Inr [])"
| "format (c # d # fmt) args =
     (if c \<noteq> 37 then rbind (format (d # fmt) args) (\<lambda>r. Inr (c # r))
      else if d = 100 then
        (case args of PInt w # as \<Rightarrow> rbind (format fmt as) (\<lambda>r. Inr (printint_chars (int_of_u32 w) 10 True @ r))
         | _ \<Rightarrow> Inl (Undef ''cprintf''))
      else if d = 120 \<or> d = 112 then
        (case args of PInt w # as \<Rightarrow> rbind (format fmt as) (\<lambda>r. Inr (printint_chars (int_of_u32 w) 16 False @ r))
         | _ \<Rightarrow> Inl (Undef ''cprintf''))
      else if d = 115 then
        (case args of PStr cs # as \<Rightarrow>
           rbind (format fmt as) (\<lambda>r. Inr ((case cs of None \<Rightarrow> chars ''(null)'' | Some cs \<Rightarrow> cs) @ r))
         | _ \<Rightarrow> Inl (Undef ''cprintf''))
      else if d = 37 then rbind (format fmt args) (\<lambda>r. Inr (37 # r))
      else rbind (format fmt args) (\<lambda>r. Inr (37 # d # r)))"

definition cprintf :: "int list \<Rightarrow> printarg list \<Rightarrow> 'a kern_scheme \<Rightarrow> 'a kern_scheme res" where
  "cprintf fmt args s =
     (let locking = cons_locking (cons s) in
      rbind (if locking then acquire ConsLock s else Inr s) (\<lambda>s.
      rbind (format fmt args) (\<lambda>cs.
      rbind (consputs cs (cons s)) (\<lambda>k.
      let s = s\<lparr>cons := k\<rparr> in
      if locking then release ConsLock s else Inr s))))"

section \<open>Process listing\<close>

abbreviation (input) NL :: int where "NL \<equiv> 10"
abbreviation (input) TAB :: int where "TAB \<equiv> 9"

text \<open>The return addresses found on the chain of frame pointers, at most \<open>k\<close>, then zeros.\<close>

primrec caller_chain :: "nat \<Rightarrow> u32 \<Rightarrow> memory \<Rightarrow> u32 list" where
  "caller_chain 0 ebp m = []"
| "caller_chain (Suc k) ebp m =
     (if ebp = 0 \<or> ebp < KERNBASE \<or> ebp = 0xffffffff then replicate (Suc k) 0
      else load32 m (ebp + 4) # caller_chain k (load32 m ebp) m)"

definition getcallerpcs :: "u32 \<Rightarrow> memory \<Rightarrow> u32 list" where
  "getcallerpcs v m = caller_chain 10 (v - 8) m"

fun state_name :: "procstate \<Rightarrow> string" where
  "state_name UNUSED = ''unused''"
| "state_name EMBRYO = ''embryo''"
| "state_name SLEEPING = ''sleep ''"
| "state_name RUNNABLE = ''runble''"
| "state_name RUNNING = ''run   ''"
| "state_name ZOMBIE = ''zombie''"

primrec print_pcs :: "u32 list \<Rightarrow> 'a kern_scheme \<Rightarrow> 'a kern_scheme res" where
  "print_pcs [] s = Inr s"
| "print_pcs (pc # pcs) s =
     (if pc = 0 then Inr s else rbind (cprintf (chars '' %p'') [PInt pc] s) (\<lambda>s. print_pcs pcs s))"

primrec procdump_loop :: "nat list \<Rightarrow> 'a kern_scheme \<Rightarrow> 'a kern_scheme res" where
  "procdump_loop [] s = Inr s"
| "procdump_loop (p # ps) s =
     (let q = ptable s p in
      if pstate q = UNUSED then procdump_loop ps s
      else
        rbind (cprintf (chars ''%d %s %s'') [PInt (u32_of_int (pid q)), PStr (Some (chars (state_name (pstate q)))),
          PStr (Some (chars (pname q)))] s) (\<lambda>s.
        rbind (if pstate q = SLEEPING
               then print_pcs (getcallerpcs (load32 (mem s) (context_p q + 12) + 8) (mem s)) s
               else Inr s) (\<lambda>s.
        rbind (cprintf [NL] [] s) (\<lambda>s.
        procdump_loop ps s))))"

definition procdump :: "'a kern_scheme \<Rightarrow> 'a kern_scheme res" where
  "procdump s = procdump_loop [0..<NPROC] s"

end
