(* ===== verification/Fs.thy ===== *)
theory Fs
  imports Log Printk
begin

text \<open>
  The block allocator, the inode table and the block map of \<^verbatim>\<open>fs.c\<close>. The global \<^verbatim>\<open>sb\<close> is the
  copy of the super block that \<^verbatim>\<open>iinit\<close> reads. An inode pointer is an index of \<^verbatim>\<open>icache.inode\<close>.
\<close>

section \<open>Blocks\<close>

definition bzero :: "u32 \<Rightarrow> u32 \<Rightarrow> 'a kern_scheme \<Rightarrow> 'a kern_scheme res" where
  "bzero dev bno s =
     rbind (bread dev bno s) (\<lambda>(b, s).
     rbind (log_write b (buf_data b (\<lambda>_. replicate BSIZE 0) s)) (\<lambda>s.
     brelse b s))"

definition BBLOCK :: "u32 \<Rightarrow> superblock \<Rightarrow> u32" where
  "BBLOCK b sp = b div BPB + sb_bmapstart sp"

definition IBLOCK :: "u32 \<Rightarrow> superblock \<Rightarrow> u32" where
  "IBLOCK i sp = i div IPB + sb_inodestart sp"

text \<open>Bit \<open>bi\<close> of a bitmap block.\<close>

definition bit_set :: "u8 list \<Rightarrow> nat \<Rightarrow> bool" where
  "bit_set d bi \<longleftrightarrow> (d ! (bi div 8)) AND push_bit (bi mod 8) 1 \<noteq> 0"

definition mark_bit :: "nat \<Rightarrow> u8 list \<Rightarrow> u8 list" where
  "mark_bit bi d = d[bi div 8 := (d ! (bi div 8)) OR push_bit (bi mod 8) 1]"

definition clear_bit :: "nat \<Rightarrow> u8 list \<Rightarrow> u8 list" where
  "clear_bit bi d = d[bi div 8 := (d ! (bi div 8)) AND NOT (push_bit (bi mod 8) 1)]"

text \<open>
  \<^verbatim>\<open>balloc\<close> goes through the bitmap blocks, \<open>k\<close> is \<^verbatim>\<open>b/BPB\<close>. The \<^verbatim>\<open>int\<close> variable \<^verbatim>\<open>b\<close> overflows on
  a disk of 2^31 blocks or more.
\<close>

primrec balloc_loop :: "nat list \<Rightarrow> u32 \<Rightarrow> 'a kern_scheme \<Rightarrow> (u32 \<times> 'a kern_scheme) res" where
  "balloc_loop [] dev s = Inl (Panic ''balloc: out of blocks'')"
| "balloc_loop (k # ks) dev s =
     (let b = BPB * k in
      if b \<ge> 2 ^ 31 then Inl (Undef ''signed overflow'')
      else
        rbind (bread dev (BBLOCK (of_nat b) (sb s)) s) (\<lambda>(bp, s).
        case find (\<lambda>bi. \<not> bit_set (b_data (bufs s bp)) bi) [0..<min BPB (unat (sb_size (sb s)) - b)] of
          Some bi \<Rightarrow>
            rbind (log_write bp (buf_data bp (mark_bit bi) s)) (\<lambda>s.
            rbind (brelse bp s) (\<lambda>s.
            rbind (bzero dev (of_nat (b + bi)) s) (\<lambda>s.
            Inr (of_nat (b + bi), s))))
        | None \<Rightarrow> rbind (brelse bp s) (\<lambda>s. balloc_loop ks dev s)))"

definition balloc :: "u32 \<Rightarrow> 'a kern_scheme \<Rightarrow> (u32 \<times> 'a kern_scheme) res" where
  "balloc dev s = balloc_loop [0..<(unat (sb_size (sb s)) + (BPB - 1)) div BPB] dev s"

definition bfree :: "u32 \<Rightarrow> u32 \<Rightarrow> 'a kern_scheme \<Rightarrow> 'a kern_scheme res" where
  "bfree dev b s =
     rbind (bread dev (BBLOCK b (sb s)) s) (\<lambda>(bp, s).
     let bi = unat (b mod BPB) in
     if \<not> bit_set (b_data (bufs s bp)) bi then Inl (Panic ''freeing free block'')
     else
       rbind (log_write bp (buf_data bp (clear_bit bi) s)) (\<lambda>s.
       brelse bp s))"

section \<open>Inodes\<close>

primrec iinit_locks :: "nat list \<Rightarrow> 'a kern_scheme \<Rightarrow> 'a kern_scheme" where
  "iinit_locks [] s = s"
| "iinit_locks (i # is) s = iinit_locks is (initsleeplock (InodeLk i) s)"

definition iinit :: "int \<Rightarrow> 'a kern_scheme \<Rightarrow> 'a kern_scheme res" where
  "iinit dev s =
     rbind (readsb (u32_of_int dev) (iinit_locks [0..<NINODE] (initlock IcacheLock s))) (\<lambda>(r, s).
     cprintf (chars ''sb: size %d nblocks %d ninodes %d nlog %d logstart %d inodestart %d bmap start %d'' @ [NL])
       [PInt (sb_size r), PInt (sb_nblocks r), PInt (sb_ninodes r), PInt (sb_nlog r), PInt (sb_logstart r),
        PInt (sb_inodestart r), PInt (sb_bmapstart r)] (s\<lparr>sb := r\<rparr>))"

definition iget :: "u32 \<Rightarrow> u32 \<Rightarrow> 'a kern_scheme \<Rightarrow> (nat \<times> 'a kern_scheme) res" where
  "iget dev inum s =
     rbind (acquire IcacheLock s) (\<lambda>s.
     case find (\<lambda>i. i_ref (icache s i) > 0 \<and> i_dev (icache s i) = dev \<and> i_inum (icache s i) = inum) [0..<NINODE] of
       Some ip \<Rightarrow>
         rbind (release IcacheLock (upd_inode ip (\<lambda>x. x\<lparr>i_ref := i_ref x + 1\<rparr>) s)) (\<lambda>s. Inr (ip, s))
     | None \<Rightarrow>
         case find (\<lambda>i. i_ref (icache s i) = 0) [0..<NINODE] of
           None \<Rightarrow> Inl (Panic ''iget: no inodes'')
         | Some ip \<Rightarrow>
             let s = upd_inode ip (\<lambda>x. x\<lparr>i_dev := dev, i_inum := inum, i_ref := 1, i_valid := False\<rparr>) s in
             rbind (release IcacheLock s) (\<lambda>s. Inr (ip, s)))"

definition zero_dinode :: dinode where
  "zero_dinode = \<lparr>di_type = 0, di_major = 0, di_minor = 0, di_nlink = 0, di_size = 0, di_addrs = replicate (NDIRECT + 1) 0\<rparr>"

primrec ialloc_loop :: "nat list \<Rightarrow> u32 \<Rightarrow> u16 \<Rightarrow> 'a kern_scheme \<Rightarrow> (nat \<times> 'a kern_scheme) res" where
  "ialloc_loop [] dev ty s = Inl (Panic ''ialloc: no inodes'')"
| "ialloc_loop (inum # is) dev ty s =
     rbind (bread dev (IBLOCK (of_nat inum) (sb s)) s) (\<lambda>(bp, s).
     if di_type (get_dinode (inum mod IPB) (b_data (bufs s bp))) = 0 then
       rbind (log_write bp (buf_data bp (put_dinode (inum mod IPB) (zero_dinode\<lparr>di_type := ty\<rparr>)) s)) (\<lambda>s.
       rbind (brelse bp s) (\<lambda>s.
       iget dev (of_nat inum) s))
     else rbind (brelse bp s) (\<lambda>s. ialloc_loop is dev ty s))"

definition ialloc :: "u32 \<Rightarrow> u16 \<Rightarrow> 'a kern_scheme \<Rightarrow> (nat \<times> 'a kern_scheme) res" where
  "ialloc dev ty s = ialloc_loop [1..<unat (sb_ninodes (sb s))] dev ty s"

definition dinode_of :: "inode \<Rightarrow> dinode" where
  "dinode_of x = \<lparr>di_type = i_type x, di_major = i_major x, di_minor = i_minor x, di_nlink = i_nlink x,
     di_size = i_size x, di_addrs = i_addrs x\<rparr>"

definition iupdate :: "nat \<Rightarrow> 'a kern_scheme \<Rightarrow> 'a kern_scheme res" where
  "iupdate ip s =
     rbind (bread (i_dev (icache s ip)) (IBLOCK (i_inum (icache s ip)) (sb s)) s) (\<lambda>(bp, s).
     let x = icache s ip in
     rbind (log_write bp (buf_data bp (put_dinode (unat (i_inum x mod IPB)) (dinode_of x)) s)) (\<lambda>s.
     brelse bp s))"

definition idup :: "nat \<Rightarrow> 'a kern_scheme \<Rightarrow> (nat \<times> 'a kern_scheme) res" where
  "idup ip s =
     rbind (acquire IcacheLock s) (\<lambda>s.
     rbind (release IcacheLock (upd_inode ip (\<lambda>x. x\<lparr>i_ref := i_ref x + 1\<rparr>) s)) (\<lambda>s.
     Inr (ip, s)))"

text \<open>The fields of the cached inode that come from the disk.\<close>

definition fill_inode :: "dinode \<Rightarrow> inode \<Rightarrow> inode" where
  "fill_inode di x = x\<lparr>i_type := di_type di, i_major := di_major di, i_minor := di_minor di, i_nlink := di_nlink di,
     i_size := di_size di, i_addrs := di_addrs di\<rparr>"

definition ilock :: "nat option \<Rightarrow> 'a kern_scheme \<Rightarrow> 'a kern_scheme res" where
  "ilock ip s =
     (case ip of None \<Rightarrow> Inl (Panic ''ilock'')
      | Some ip \<Rightarrow>
        if i_ref (icache s ip) < 1 then Inl (Panic ''ilock'')
        else
          rbind (acquiresleep (InodeLk ip) s) (\<lambda>s.
          if \<not> i_valid (icache s ip) then
            rbind (bread (i_dev (icache s ip)) (IBLOCK (i_inum (icache s ip)) (sb s)) s) (\<lambda>(bp, s).
            let di = get_dinode (unat (i_inum (icache s ip) mod IPB)) (b_data (bufs s bp));
                s = upd_inode ip (fill_inode di) s
            in
            rbind (brelse bp s) (\<lambda>s.
            let s = upd_inode ip (\<lambda>x. x\<lparr>i_valid := True\<rparr>) s in
            if i_type (icache s ip) = 0 then Inl (Panic ''ilock: no type'') else Inr s))
          else Inr s))"

definition iunlock :: "nat option \<Rightarrow> 'a kern_scheme \<Rightarrow> 'a kern_scheme res" where
  "iunlock ip s =
     (case ip of None \<Rightarrow> Inl (Panic ''iunlock'')
      | Some ip \<Rightarrow>
        rbind (holdingsleep (InodeLk ip) s) (\<lambda>(h, s).
        if \<not> h \<or> i_ref (icache s ip) < 1 then Inl (Panic ''iunlock'')
        else releasesleep (InodeLk ip) s))"

section \<open>Block map\<close>

definition set_addr :: "nat \<Rightarrow> nat \<Rightarrow> u32 \<Rightarrow> 'a kern_scheme \<Rightarrow> 'a kern_scheme" where
  "set_addr ip k a s = upd_inode ip (\<lambda>x. x\<lparr>i_addrs := (i_addrs x)[k := a]\<rparr>) s"

text \<open>\<open>ip->addrs[k]\<close>, allocated first if it is 0.\<close>

definition addr_or_alloc :: "nat \<Rightarrow> nat \<Rightarrow> 'a kern_scheme \<Rightarrow> (u32 \<times> 'a kern_scheme) res" where
  "addr_or_alloc ip k s =
     (let addr = i_addrs (icache s ip) ! k in
      if addr = 0 then
        rbind (balloc (i_dev (icache s ip)) s) (\<lambda>(addr, s). Inr (addr, set_addr ip k addr s))
      else Inr (addr, s))"

definition bmap :: "nat \<Rightarrow> u32 \<Rightarrow> 'a kern_scheme \<Rightarrow> (u32 \<times> 'a kern_scheme) res" where
  "bmap ip bn s =
     (if bn < NDIRECT then addr_or_alloc ip (unat bn) s
      else
        let bn = bn - NDIRECT in
        if bn < NINDIRECT then
          rbind (addr_or_alloc ip NDIRECT s) (\<lambda>(addr, s).
          rbind (bread (i_dev (icache s ip)) addr s) (\<lambda>(bp, s).
          let addr = get32 (4 * unat bn) (b_data (bufs s bp)) in
          rbind (if addr = 0 then
              rbind (balloc (i_dev (icache s ip)) s) (\<lambda>(addr, s).
              rbind (log_write bp (buf_data bp (put32 (4 * unat bn) addr) s)) (\<lambda>s.
              Inr (addr, s)))
            else Inr (addr, s)) (\<lambda>(addr, s).
          rbind (brelse bp s) (\<lambda>s.
          Inr (addr, s)))))
        else Inl (Panic ''bmap: out of range''))"

primrec itrunc_direct :: "nat list \<Rightarrow> nat \<Rightarrow> 'a kern_scheme \<Rightarrow> 'a kern_scheme res" where
  "itrunc_direct [] ip s = Inr s"
| "itrunc_direct (i # is) ip s =
     (if i_addrs (icache s ip) ! i \<noteq> 0 then
        rbind (bfree (i_dev (icache s ip)) (i_addrs (icache s ip) ! i) s) (\<lambda>s.
        itrunc_direct is ip (set_addr ip i 0 s))
      else itrunc_direct is ip s)"

primrec itrunc_indirect :: "nat list \<Rightarrow> nat \<Rightarrow> nat \<Rightarrow> 'a kern_scheme \<Rightarrow> 'a kern_scheme res" where
  "itrunc_indirect [] bp ip s = Inr s"
| "itrunc_indirect (j # js) bp ip s =
     (let a = get32 (4 * j) (b_data (bufs s bp)) in
      rbind (if a \<noteq> 0 then bfree (i_dev (icache s ip)) a s else Inr s) (\<lambda>s.
      itrunc_indirect js bp ip s))"

definition itrunc :: "nat \<Rightarrow> 'a kern_scheme \<Rightarrow> 'a kern_scheme res" where
  "itrunc ip s =
     rbind (itrunc_direct [0..<NDIRECT] ip s) (\<lambda>s.
     rbind (let a = i_addrs (icache s ip) ! NDIRECT in
       if a \<noteq> 0 then
         rbind (bread (i_dev (icache s ip)) a s) (\<lambda>(bp, s).
         rbind (itrunc_indirect [0..<NINDIRECT] bp ip s) (\<lambda>s.
         rbind (brelse bp s) (\<lambda>s.
         rbind (bfree (i_dev (icache s ip)) (i_addrs (icache s ip) ! NDIRECT) s) (\<lambda>s.
         Inr (set_addr ip NDIRECT 0 s)))))
       else Inr s) (\<lambda>s.
     iupdate ip (upd_inode ip (\<lambda>x. x\<lparr>i_size := 0\<rparr>) s)))"

section \<open>Dropping references\<close>

definition iput :: "nat \<Rightarrow> 'a kern_scheme \<Rightarrow> 'a kern_scheme res" where
  "iput ip s =
     rbind (acquiresleep (InodeLk ip) s) (\<lambda>s.
     rbind (if i_valid (icache s ip) \<and> i_nlink (icache s ip) = 0 then
         rbind (acquire IcacheLock s) (\<lambda>s.
         let r = i_ref (icache s ip) in
         rbind (release IcacheLock s) (\<lambda>s.
         if r = 1 then
           rbind (itrunc ip s) (\<lambda>s.
           rbind (iupdate ip (upd_inode ip (\<lambda>x. x\<lparr>i_type := 0\<rparr>) s)) (\<lambda>s.
           Inr (upd_inode ip (\<lambda>x. x\<lparr>i_valid := False\<rparr>) s)))
         else Inr s))
       else Inr s) (\<lambda>s.
     rbind (releasesleep (InodeLk ip) s) (\<lambda>s.
     rbind (acquire IcacheLock s) (\<lambda>s.
     release IcacheLock (upd_inode ip (\<lambda>x. x\<lparr>i_ref := i_ref x - 1\<rparr>) s)))))"

definition iunlockput :: "nat \<Rightarrow> 'a kern_scheme \<Rightarrow> 'a kern_scheme res" where
  "iunlockput ip s = rbind (iunlock (Some ip) s) (\<lambda>s. iput ip s)"

end
