(* ===== verification/Console.thy ===== *)
theory Console
  imports Fs
begin

text \<open>
  Console input and the console as a device (the second half of \<^verbatim>\<open>console.c\<close>): the line buffer that
  the keyboard interrupt fills, and the functions installed in \<^verbatim>\<open>devsw\<close>.
\<close>

section \<open>Input\<close>

lemma cgaputc_input:
  assumes "cgaputc c k = Inr k'"
  shows "in_e k' = in_e k" "in_w k' = in_w k" "in_r k' = in_r k" "in_buf k' = in_buf k"
  using assms by (auto simp: cgaputc_def Let_def split: if_splits)

lemma consputc_input:
  assumes "consputc c k = Inr k'"
  shows "in_e k' = in_e k" "in_w k' = in_w k" "in_r k' = in_r k" "in_buf k' = in_buf k"
  using assms cgaputc_input by (fastforce simp: consputc_def Let_def split: if_splits)+

text \<open>Kill line: back to the last newline or to the start of the line being edited.\<close>

function kill_line :: "console \<Rightarrow> console res" where
  "kill_line k =
     (if in_e k \<noteq> in_w k \<and> in_buf k (unat ((in_e k - 1) mod INPUT_BUF)) \<noteq> 10
      then rbind (consputc BACKSPACE (k\<lparr>in_e := in_e k - 1\<rparr>)) (\<lambda>k. kill_line k)
      else Inr k)"
  by pat_completeness auto
termination
proof (relation "measure (\<lambda>k. unat (in_e k - in_w k))")
  fix k k' :: console
  assume a: "in_e k \<noteq> in_w k \<and> in_buf k (unat ((in_e k - 1) mod INPUT_BUF)) \<noteq> 10"
    and c: "consputc BACKSPACE (k\<lparr>in_e := in_e k - 1\<rparr>) = Inr k'"
  have "in_e k - in_w k \<noteq> 0" using a by simp
  then have pos: "unat (in_e k - in_w k) \<noteq> 0" by (simp add: unat_eq_0)
  have "in_e k' - in_w k' = (in_e k - in_w k) - 1" using consputc_input(1,2) [OF c] by simp
  moreover have "unat ((in_e k - in_w k) - 1) = unat (in_e k - in_w k) - 1"
    using pos by (simp add: unat_sub word_le_nat_alt)
  ultimately show "(k', k) \<in> measure (\<lambda>k. unat (in_e k - in_w k))" using pos by simp
qed simp

declare kill_line.simps [simp del]

text \<open>One character of input. The second result tells whether a line has become available to readers.\<close>

definition console_char :: "int \<Rightarrow> console \<Rightarrow> (bool \<times> console) res" where
  "console_char c k =
     (if c = 16 then Inr (False, k)
      else if c = 21 then rbind (kill_line k) (\<lambda>k. Inr (False, k))
      else if c = 8 \<or> c = 127 then
        (if in_e k \<noteq> in_w k then rbind (consputc BACKSPACE (k\<lparr>in_e := in_e k - 1\<rparr>)) (\<lambda>k. Inr (False, k))
         else Inr (False, k))
      else if c \<noteq> 0 \<and> in_e k - in_r k < INPUT_BUF then
        let c = (if c = 13 then 10 else c);
            k = k\<lparr>in_buf := (in_buf k)(unat (in_e k mod INPUT_BUF) := word_of_int c), in_e := in_e k + 1\<rparr>
        in
        rbind (consputc c k) (\<lambda>k.
        if c = 10 \<or> c = 4 \<or> in_e k = in_r k + INPUT_BUF then Inr (True, k\<lparr>in_w := in_e k\<rparr>)
        else Inr (False, k))
      else Inr (False, k))"

text \<open>
  \<^verbatim>\<open>getc\<close> delivers the characters of \<open>cs\<close> and then -1. The process listing that ^P asks for is
  printed when the lock has been released.
\<close>

primrec consoleintr_loop :: "int list \<Rightarrow> 'a kern_scheme \<Rightarrow> 'a kern_scheme res" where
  "consoleintr_loop [] s = Inr s"
| "consoleintr_loop (c # cs) s =
     rbind (console_char c (cons s)) (\<lambda>(wake, k).
     let s = s\<lparr>cons := k\<rparr> in
     rbind (if wake then wakeup ChanCons s else Inr s) (\<lambda>s. consoleintr_loop cs s))"

definition consoleintr :: "int list \<Rightarrow> 'a kern_scheme \<Rightarrow> 'a kern_scheme res" where
  "consoleintr cs s =
     (let cs = takeWhile (\<lambda>c. c \<ge> 0) cs in
      rbind (acquire ConsLock s) (\<lambda>s.
      rbind (consoleintr_loop cs s) (\<lambda>s.
      rbind (release ConsLock s) (\<lambda>s.
      if 16 \<in> set cs then procdump s else Inr s))))"

section \<open>The console as a device\<close>

text \<open>
  Where a read puts its bytes and where a write takes them from: user memory, kernel memory, or
  a local variable of the caller, whose bytes are returned or passed as a list.
\<close>

datatype dest = ToUser u32 | ToKernel u32 | ToLocal

datatype source = FromUser u32 | FromLocal "u8 list"

definition deliver :: "dest \<Rightarrow> u32 \<Rightarrow> u8 list \<Rightarrow> 'a kern_scheme \<Rightarrow> 'a kern_scheme res" where
  "deliver dst off bs s =
     (case dst of ToUser a \<Rightarrow> ustore_bytes bs (a + off) s
      | ToKernel a \<Rightarrow> Inr (s\<lparr>mem := copy_bytes (mem s) (a + off) bs\<rparr>)
      | ToLocal \<Rightarrow> Inr s)"

definition fetch :: "source \<Rightarrow> u32 \<Rightarrow> nat \<Rightarrow> 'a kern_scheme \<Rightarrow> u8 list res" where
  "fetch src off m s =
     (case src of FromUser a \<Rightarrow> uload_bytes m (a + off) s
      | FromLocal bs \<Rightarrow> Inr (slice (unat off) m bs))"

text \<open>
  The reading loop: the number of bytes still wanted and \<open>got\<close>, the bytes stored so far. The
  result \<open>None\<close> is the return with -1 of a killed process.
\<close>

primrec consoleread_loop ::
  "nat \<Rightarrow> u8 list \<Rightarrow> dest \<Rightarrow> 'a kern_scheme \<Rightarrow> (u8 list option \<times> 'a kern_scheme) res"
where
  "consoleread_loop 0 got dst s = Inr (Some got, s)"
| "consoleread_loop (Suc left) got dst s =
     (if in_r (cons s) = in_w (cons s) then
        rbind (curproc s) (\<lambda>(p, s).
        if killed (ptable s p) then Inr (None, s) else sleep ChanCons ConsLock s)
      else
        let c = in_buf (cons s) (unat (in_r (cons s) mod INPUT_BUF));
            s = upd_cons (\<lambda>k. k\<lparr>in_r := in_r k + 1\<rparr>) s
        in
        if c = 4 then
          Inr (Some got, if got \<noteq> [] then upd_cons (\<lambda>k. k\<lparr>in_r := in_r k - 1\<rparr>) s else s)
        else
          rbind (deliver dst (of_nat (length got)) [c] s) (\<lambda>s.
          if c = 10 then Inr (Some (got @ [c]), s)
          else consoleread_loop left (got @ [c]) dst s))"

definition consoleread :: "nat \<Rightarrow> dest \<Rightarrow> int \<Rightarrow> 'a kern_scheme \<Rightarrow> (int \<times> u8 list \<times> 'a kern_scheme) res" where
  "consoleread ip dst n s =
     rbind (iunlock (Some ip) s) (\<lambda>s.
     rbind (acquire ConsLock s) (\<lambda>s.
     rbind (consoleread_loop (nat n) [] dst s) (\<lambda>(r, s).
     rbind (release ConsLock s) (\<lambda>s.
     rbind (ilock (Some ip) s) (\<lambda>s.
     case r of None \<Rightarrow> Inr (- 1, [], s)
     | Some got \<Rightarrow> Inr (int (length got), got, s))))))"

primrec consolewrite_loop :: "nat list \<Rightarrow> source \<Rightarrow> 'a kern_scheme \<Rightarrow> 'a kern_scheme res" where
  "consolewrite_loop [] src s = Inr s"
| "consolewrite_loop (i # is) src s =
     rbind (fetch src (of_nat i) 1 s) (\<lambda>bs.
     rbind (consputc (uint (hd bs)) (cons s)) (\<lambda>k.
     consolewrite_loop is src (s\<lparr>cons := k\<rparr>)))"

definition consolewrite :: "nat \<Rightarrow> source \<Rightarrow> int \<Rightarrow> 'a kern_scheme \<Rightarrow> (int \<times> 'a kern_scheme) res" where
  "consolewrite ip src n s =
     rbind (iunlock (Some ip) s) (\<lambda>s.
     rbind (acquire ConsLock s) (\<lambda>s.
     rbind (consolewrite_loop [0..<nat n] src s) (\<lambda>s.
     rbind (release ConsLock s) (\<lambda>s.
     rbind (ilock (Some ip) s) (\<lambda>s.
     Inr (n, s))))))"

text \<open>Routing the keyboard interrupt to CPU 0 is left to the interrupt controller.\<close>

definition consoleinit :: "'a kern_scheme \<Rightarrow> 'a kern_scheme" where
  "consoleinit s = (upd_cons (\<lambda>k. k\<lparr>cons_locking := True\<rparr>) (initlock ConsLock s))\<lparr>devsw := (devsw s)(1 := True)\<rparr>"

end
