(* ===== verification/FsData.thy ===== *)
theory FsData
  imports Console
begin

text \<open>
  Reading and writing the contents of inodes, directories and path names (the second half of
  \<^verbatim>\<open>fs.c\<close>). Path names are lists of bytes without the terminating NUL, which is what
  \<^verbatim>\<open>argstr\<close> has found before they get here.
\<close>

section \<open>Contents\<close>

record stat =
  st_type :: u16
  st_dev :: int
  st_ino :: u32
  st_nlink :: u16
  st_size :: u32

definition stati :: "nat \<Rightarrow> 'a kern_scheme \<Rightarrow> stat" where
  "stati ip s = (let x = icache s ip in
     \<lparr>st_type = i_type x, st_dev = int_of_u32 (i_dev x), st_ino = i_inum x, st_nlink = i_nlink x, st_size = i_size x\<rparr>)"

text \<open>The number of bytes up to the end of the block or of the transfer.\<close>

definition chunk :: "u32 \<Rightarrow> u32 \<Rightarrow> u32 \<Rightarrow> u32" where
  "chunk off n tot = min (n - tot) (BSIZE - off mod BSIZE)"

lemma chunk_progress:
  assumes "tot < n"
  shows "unat (n - (tot + chunk off n tot)) < unat (n - tot)"
proof -
  have lt: "off mod BSIZE < BSIZE" by (rule word_mod_less_divisor) simp
  have pos: "0 < chunk off n tot" using assms lt by (auto simp: chunk_def min_def word_gt_0)
  have le: "chunk off n tot \<le> n - tot" by (simp add: chunk_def)
  have "n - (tot + chunk off n tot) = (n - tot) - chunk off n tot" by (simp add: diff_diff_eq)
  then have eq: "unat (n - (tot + chunk off n tot)) = unat ((n - tot) - chunk off n tot)" by (rule arg_cong)
  have "unat ((n - tot) - chunk off n tot) = unat (n - tot) - unat (chunk off n tot)"
    by (rule unat_sub [OF le])
  moreover have "0 < unat (chunk off n tot)" using pos by (simp add: word_less_nat_alt)
  moreover have "unat (chunk off n tot) \<le> unat (n - tot)" using le by (simp add: word_le_nat_alt)
  ultimately show ?thesis unfolding eq by simp
qed

function readi_loop ::
  "nat \<Rightarrow> dest \<Rightarrow> u32 \<Rightarrow> u32 \<Rightarrow> u32 \<Rightarrow> u8 list \<Rightarrow> 'a kern_scheme \<Rightarrow> (u8 list \<times> 'a kern_scheme) res"
where
  "readi_loop ip dst off n tot got s =
     (if tot < n then
        rbind (bmap ip (off div BSIZE) s) (\<lambda>(a, s).
        rbind (bread (i_dev (icache s ip)) a s) (\<lambda>(bp, s).
        let m = chunk off n tot;
            bs = slice (unat (off mod BSIZE)) (unat m) (b_data (bufs s bp))
        in
        rbind (deliver dst tot bs s) (\<lambda>s.
        rbind (brelse bp s) (\<lambda>s.
        readi_loop ip dst (off + m) n (tot + m) (got @ bs) s))))
      else Inr (got, s))"
  by pat_completeness auto
termination
  by (relation "measure (\<lambda>(ip, dst, off, n, tot, got, s). unat (n - tot))") (simp_all add: chunk_progress)

declare readi_loop.simps [simp del]

text \<open>The result is the return value and the bytes that were stored at \<open>dst\<close>.\<close>

definition readi :: "nat \<Rightarrow> dest \<Rightarrow> u32 \<Rightarrow> u32 \<Rightarrow> 'a kern_scheme \<Rightarrow> (int \<times> u8 list \<times> 'a kern_scheme) res" where
  "readi ip dst off n s =
     (let x = icache s ip in
      if i_type x = T_DEV then
        (if sint (i_major x) < 0 \<or> sint (i_major x) \<ge> NDEV \<or> \<not> devsw s (sint (i_major x)) then Inr (- 1, [], s)
         else consoleread ip dst (int_of_u32 n) s)
      else if off > i_size x \<or> off + n < off then Inr (- 1, [], s)
      else
        let n = (if off + n > i_size x then i_size x - off else n) in
        rbind (readi_loop ip dst off n 0 [] s) (\<lambda>(got, s).
        Inr (int_of_u32 n, got, s)))"

function writei_loop ::
  "nat \<Rightarrow> source \<Rightarrow> u32 \<Rightarrow> u32 \<Rightarrow> u32 \<Rightarrow> 'a kern_scheme \<Rightarrow> 'a kern_scheme res"
where
  "writei_loop ip src off n tot s =
     (if tot < n then
        rbind (bmap ip (off div BSIZE) s) (\<lambda>(a, s).
        rbind (bread (i_dev (icache s ip)) a s) (\<lambda>(bp, s).
        let m = chunk off n tot in
        rbind (fetch src tot (unat m) s) (\<lambda>bs.
        rbind (log_write bp (buf_data bp (splice (unat (off mod BSIZE)) bs) s)) (\<lambda>s.
        rbind (brelse bp s) (\<lambda>s.
        writei_loop ip src (off + m) n (tot + m) s)))))
      else Inr s)"
  by pat_completeness auto
termination
  by (relation "measure (\<lambda>(ip, src, off, n, tot, s). unat (n - tot))") (simp_all add: chunk_progress)

declare writei_loop.simps [simp del]

definition writei :: "nat \<Rightarrow> source \<Rightarrow> u32 \<Rightarrow> u32 \<Rightarrow> 'a kern_scheme \<Rightarrow> (int \<times> 'a kern_scheme) res" where
  "writei ip src off n s =
     (let x = icache s ip in
      if i_type x = T_DEV then
        (if sint (i_major x) < 0 \<or> sint (i_major x) \<ge> NDEV \<or> \<not> devsw s (sint (i_major x)) then Inr (- 1, s)
         else consolewrite ip src (int_of_u32 n) s)
      else if off > i_size x \<or> off + n < off then Inr (- 1, s)
      else if off + n > MAXFILE * BSIZE then Inr (- 1, s)
      else
        rbind (writei_loop ip src off n 0 s) (\<lambda>s.
        rbind (if n > 0 \<and> off + n > i_size (icache s ip)
               then iupdate ip (upd_inode ip (\<lambda>x. x\<lparr>i_size := off + n\<rparr>) s)
               else Inr s) (\<lambda>s.
        Inr (int_of_u32 n, s))))"

section \<open>Directories\<close>

text \<open>
  \<^verbatim>\<open>strncmp\<close> on the first \<^verbatim>\<open>DIRSIZ\<close> bytes; a name that ends earlier is followed by NUL bytes, a
  name in a directory entry always has \<^verbatim>\<open>DIRSIZ\<close> bytes.
\<close>

fun name_strncmp :: "nat \<Rightarrow> u8 list \<Rightarrow> u8 list \<Rightarrow> int" where
  "name_strncmp 0 p q = 0"
| "name_strncmp (Suc n) p q =
     (let a = (case p of [] \<Rightarrow> 0 | x # _ \<Rightarrow> x); b = (case q of [] \<Rightarrow> 0 | x # _ \<Rightarrow> x) in
      if a \<noteq> 0 \<and> a = b then name_strncmp n (tl p) (tl q) else uint a - uint b)"

definition namecmp :: "u8 list \<Rightarrow> u8 list \<Rightarrow> int" where
  "namecmp p q = name_strncmp DIRSIZ p q"

text \<open>\<^verbatim>\<open>strncpy(de.name, name, DIRSIZ)\<close>: cut or padded with NUL bytes.\<close>

definition pad_name :: "u8 list \<Rightarrow> u8 list" where
  "pad_name nm = take DIRSIZ (takeWhile (\<lambda>b. b \<noteq> 0) nm @ replicate DIRSIZ 0)"

definition mk_dirent :: "u16 \<Rightarrow> u8 list \<Rightarrow> u8 list" where
  "mk_dirent inum nm = bytes_of_u16 inum @ pad_name nm"

text \<open>The loop over the entries; \<open>is\<close> are the numbers of the entries still to be read.\<close>

primrec dirlookup_loop ::
  "nat list \<Rightarrow> nat \<Rightarrow> u8 list \<Rightarrow> 'a kern_scheme \<Rightarrow> ((nat \<times> u32) option \<times> 'a kern_scheme) res"
where
  "dirlookup_loop [] dp nm s = Inr (None, s)"
| "dirlookup_loop (i # is) dp nm s =
     (let off = of_nat (16 * i) in
      rbind (readi dp ToLocal off 16 s) (\<lambda>(r, de, s).
      if r \<noteq> 16 then Inl (Panic ''dirlookup read'')
      else if dirent_inum de = 0 then dirlookup_loop is dp nm s
      else if namecmp nm (dirent_name de) = 0 then
        rbind (iget (i_dev (icache s dp)) (ucast (dirent_inum de)) s) (\<lambda>(ip, s). Inr (Some (ip, off), s))
      else dirlookup_loop is dp nm s))"

text \<open>The number of entries the loops visit: offsets 0, 16, ... below the size.\<close>

definition n_dirents :: "u32 \<Rightarrow> nat" where
  "n_dirents z = (unat z + 15) div 16"

definition dirlookup ::
  "nat \<Rightarrow> u8 list \<Rightarrow> 'a kern_scheme \<Rightarrow> ((nat \<times> u32) option \<times> 'a kern_scheme) res"
where
  "dirlookup dp nm s =
     (if i_type (icache s dp) \<noteq> T_DIR then Inl (Panic ''dirlookup not DIR'')
      else dirlookup_loop [0..<n_dirents (i_size (icache s dp))] dp nm s)"

text \<open>The offset of the first free entry, or of the end of the directory.\<close>

primrec free_dirent :: "nat list \<Rightarrow> nat \<Rightarrow> nat \<Rightarrow> 'a kern_scheme \<Rightarrow> (nat \<times> 'a kern_scheme) res" where
  "free_dirent [] dp k s = Inr (k, s)"
| "free_dirent (i # is) dp k s =
     rbind (readi dp ToLocal (of_nat (16 * i)) 16 s) (\<lambda>(r, de, s).
     if r \<noteq> 16 then Inl (Panic ''dirlink read'')
     else if dirent_inum de = 0 then Inr (i, s)
     else free_dirent is dp k s)"

definition dirlink :: "nat \<Rightarrow> u8 list \<Rightarrow> u32 \<Rightarrow> 'a kern_scheme \<Rightarrow> (int \<times> 'a kern_scheme) res" where
  "dirlink dp nm inum s =
     rbind (dirlookup dp nm s) (\<lambda>(r, s).
     case r of
       Some (ip, _) \<Rightarrow> rbind (iput ip s) (\<lambda>s. Inr (- 1, s))
     | None \<Rightarrow>
         let k = n_dirents (i_size (icache s dp)) in
         rbind (free_dirent [0..<k] dp k s) (\<lambda>(i, s).
         rbind (writei dp (FromLocal (mk_dirent (ucast inum) nm)) (of_nat (16 * i)) 16 s) (\<lambda>(r, s).
         if r \<noteq> 16 then Inl (Panic ''dirlink'') else Inr (0, s))))"

section \<open>Paths\<close>

abbreviation (input) SLASH :: u8 where "SLASH \<equiv> 47"

text \<open>
  The rest of the path and the element, cut to \<^verbatim>\<open>DIRSIZ\<close> bytes; \<open>None\<close> when there is no element.
\<close>

definition skipelem :: "u8 list \<Rightarrow> (u8 list \<times> u8 list) option" where
  "skipelem path =
     (let path = dropWhile (\<lambda>c. c = SLASH) path in
      if path = [] then None
      else
        let elem = takeWhile (\<lambda>c. c \<noteq> SLASH) path;
            path = dropWhile (\<lambda>c. c \<noteq> SLASH) path
        in Some (dropWhile (\<lambda>c. c = SLASH) path, take DIRSIZ elem))"

lemma skipelem_shorter:
  assumes "skipelem path = Some (rest, nm)"
  shows "length rest < length path"
proof -
  define p where "p = dropWhile (\<lambda>c. c = SLASH) path"
  have ne: "p \<noteq> []" and rest: "rest = dropWhile (\<lambda>c. c = SLASH) (dropWhile (\<lambda>c. c \<noteq> SLASH) p)"
    using assms by (auto simp: skipelem_def Let_def p_def [symmetric] split: if_splits)
  have "hd p \<noteq> SLASH" using ne hd_dropWhile [of "\<lambda>c. c = SLASH" path] by (simp add: p_def)
  then obtain c q where cq: "p = c # q" "c \<noteq> SLASH" using ne by (cases p) auto
  have "length rest \<le> length (dropWhile (\<lambda>c. c \<noteq> SLASH) q)"
    unfolding rest cq(1) using cq(2) length_dropWhile_le [of "\<lambda>c. c = SLASH"] by simp
  also have "\<dots> \<le> length q" by (rule length_dropWhile_le)
  also have "\<dots> < length p" by (simp add: cq(1))
  also have "\<dots> \<le> length path" unfolding p_def by (rule length_dropWhile_le)
  finally show ?thesis .
qed

function namex_loop ::
  "nat \<Rightarrow> u8 list \<Rightarrow> bool \<Rightarrow> u8 list \<Rightarrow> 'a kern_scheme \<Rightarrow> ((nat \<times> u8 list) option \<times> 'a kern_scheme) res"
where
  "namex_loop ip path par nm s =
     (case skipelem path of
        None \<Rightarrow> if par then rbind (iput ip s) (\<lambda>s. Inr (None, s)) else Inr (Some (ip, nm), s)
      | Some (rest, nm) \<Rightarrow>
          rbind (ilock (Some ip) s) (\<lambda>s.
          if i_type (icache s ip) \<noteq> T_DIR then rbind (iunlockput ip s) (\<lambda>s. Inr (None, s))
          else if par \<and> rest = [] then rbind (iunlock (Some ip) s) (\<lambda>s. Inr (Some (ip, nm), s))
          else
            rbind (dirlookup ip nm s) (\<lambda>(r, s).
            case r of
              None \<Rightarrow> rbind (iunlockput ip s) (\<lambda>s. Inr (None, s))
            | Some (nxt, _) \<Rightarrow>
                rbind (iunlockput ip s) (\<lambda>s. namex_loop nxt rest par nm s))))"
  by pat_completeness auto
termination
  by (relation "measure (\<lambda>(ip, path, par, nm, s). length path)") (auto simp: skipelem_shorter)

declare namex_loop.simps [simp del]

definition namex ::
  "u8 list \<Rightarrow> bool \<Rightarrow> 'a kern_scheme \<Rightarrow> ((nat \<times> u8 list) option \<times> 'a kern_scheme) res"
where
  "namex path par s =
     rbind (if path \<noteq> [] \<and> hd path = SLASH then iget ROOTDEV ROOTINO s
            else rbind (curproc s) (\<lambda>(p, s).
              case cwd (ptable s p) of None \<Rightarrow> Inl (Undef ''null inode'') | Some d \<Rightarrow> idup d s)) (\<lambda>(ip, s).
     namex_loop ip path par [] s)"

definition namei :: "u8 list \<Rightarrow> 'a kern_scheme \<Rightarrow> (nat option \<times> 'a kern_scheme) res" where
  "namei path s = rbind (namex path False s) (\<lambda>(r, s). Inr (map_option fst r, s))"

definition nameiparent ::
  "u8 list \<Rightarrow> 'a kern_scheme \<Rightarrow> ((nat \<times> u8 list) option \<times> 'a kern_scheme) res"
where
  "nameiparent path s = namex path True s"

end
