(* ===== verification/Pipe.thy ===== *)
theory Pipe
  imports FsData
begin

text \<open>
  Pipes (\<^verbatim>\<open>pipe.c\<close>): a ring buffer of 512 bytes with free running 32-bit counters of the bytes read
  and written. A pipe is named by the address of the page it lives in. A call that has to wait
  gives up the CPU in the middle of its work, so reading and writing are described as turns: a
  turn ends when the call returns or when it goes to sleep, and a later turn goes on from there.
\<close>

section \<open>The ring buffer\<close>

abbreviation (input) PIPESIZE :: "'a::numeral" where "PIPESIZE \<equiv> 512"

definition pipe_full :: "pipe \<Rightarrow> bool" where
  "pipe_full P \<longleftrightarrow> p_nwrite P = p_nread P + PIPESIZE"

definition pipe_empty :: "pipe \<Rightarrow> bool" where
  "pipe_empty P \<longleftrightarrow> p_nread P = p_nwrite P"

definition pipe_put :: "u8 \<Rightarrow> pipe \<Rightarrow> pipe" where
  "pipe_put c P = P\<lparr>p_data := (p_data P)(unat (p_nwrite P mod PIPESIZE) := c), p_nwrite := p_nwrite P + 1\<rparr>"

definition pipe_head :: "pipe \<Rightarrow> u8" where
  "pipe_head P = p_data P (unat (p_nread P mod PIPESIZE))"

definition pipe_tail :: "pipe \<Rightarrow> pipe" where
  "pipe_tail P = P\<lparr>p_nread := p_nread P + 1\<rparr>"

section \<open>Operations\<close>

datatype turn = Returns int | Blocks nat

text \<open>\<open>k\<close> bytes are still to be written and \<open>i\<close> have been written.\<close>

primrec pipewrite_loop ::
  "nat \<Rightarrow> nat \<Rightarrow> u32 \<Rightarrow> u32 \<Rightarrow> int \<Rightarrow> 'a kern_scheme \<Rightarrow> (turn \<times> 'a kern_scheme) res"
where
  "pipewrite_loop 0 i p addr n s =
     rbind (wakeup (ChanPipeRead p) s) (\<lambda>s.
     rbind (release (PipeLock p) s) (\<lambda>s. Inr (Returns n, s)))"
| "pipewrite_loop (Suc k) i p addr n s =
     (if pipe_full (pipes s p) then
        rbind (if \<not> p_readopen (pipes s p) then Inr (True, s)
               else rbind (curproc s) (\<lambda>(q, s). Inr (killed (ptable s q), s))) (\<lambda>(stop, s).
        if stop then rbind (release (PipeLock p) s) (\<lambda>s. Inr (Returns (- 1), s))
        else
          rbind (wakeup (ChanPipeRead p) s) (\<lambda>s.
          rbind (sleep_out (ChanPipeWrite p) (Some (PipeLock p)) s) (\<lambda>(_, s).
          Inr (Blocks i, s))))
      else
        rbind (uload8 (addr + of_nat i) s) (\<lambda>c.
        pipewrite_loop k (i + 1) p addr n (upd_pipe p (pipe_put c) s)))"

definition pipewrite_turn :: "u32 \<Rightarrow> u32 \<Rightarrow> int \<Rightarrow> 'a kern_scheme \<Rightarrow> (turn \<times> 'a kern_scheme) res" where
  "pipewrite_turn p addr n s =
     rbind (acquire (PipeLock p) s) (\<lambda>s. pipewrite_loop (nat n) 0 p addr n s)"

text \<open>The turn after a wakeup: process \<open>q\<close> returns from \<^verbatim>\<open>sleep\<close> having written \<open>i\<close> bytes.\<close>

definition pipewrite_resume ::
  "nat \<Rightarrow> bool \<Rightarrow> nat \<Rightarrow> u32 \<Rightarrow> u32 \<Rightarrow> int \<Rightarrow> 'a kern_scheme \<Rightarrow> (turn \<times> 'a kern_scheme) res"
where
  "pipewrite_resume q ena i p addr n s =
     rbind (sleep_in q (PipeLock p) ena s) (\<lambda>s. pipewrite_loop (nat n - i) i p addr n s)"

definition pipewrite :: "u32 \<Rightarrow> u32 \<Rightarrow> int \<Rightarrow> 'a kern_scheme \<Rightarrow> (int \<times> 'a kern_scheme) res" where
  "pipewrite p addr n s =
     rbind (pipewrite_turn p addr n s) (\<lambda>(t, s).
     case t of Returns r \<Rightarrow> Inr (r, s) | Blocks _ \<Rightarrow> Inl (Sleeps (ChanPipeWrite p)))"

primrec piperead_loop :: "nat \<Rightarrow> nat \<Rightarrow> u32 \<Rightarrow> u32 \<Rightarrow> 'a kern_scheme \<Rightarrow> (nat \<times> 'a kern_scheme) res" where
  "piperead_loop 0 i p addr s = Inr (i, s)"
| "piperead_loop (Suc k) i p addr s =
     (if pipe_empty (pipes s p) then Inr (i, s)
      else
        rbind (ustore8 (addr + of_nat i) (pipe_head (pipes s p)) s) (\<lambda>s.
        piperead_loop k (i + 1) p addr (upd_pipe p pipe_tail s)))"

definition piperead_body :: "u32 \<Rightarrow> u32 \<Rightarrow> int \<Rightarrow> 'a kern_scheme \<Rightarrow> (turn \<times> 'a kern_scheme) res" where
  "piperead_body p addr n s =
     (if pipe_empty (pipes s p) \<and> p_writeopen (pipes s p) then
        rbind (curproc s) (\<lambda>(q, s).
        if killed (ptable s q) then rbind (release (PipeLock p) s) (\<lambda>s. Inr (Returns (- 1), s))
        else
          rbind (sleep_out (ChanPipeRead p) (Some (PipeLock p)) s) (\<lambda>(_, s).
          Inr (Blocks 0, s)))
      else
        rbind (piperead_loop (nat n) 0 p addr s) (\<lambda>(i, s).
        rbind (wakeup (ChanPipeWrite p) s) (\<lambda>s.
        rbind (release (PipeLock p) s) (\<lambda>s.
        Inr (Returns (int i), s)))))"

definition piperead_turn :: "u32 \<Rightarrow> u32 \<Rightarrow> int \<Rightarrow> 'a kern_scheme \<Rightarrow> (turn \<times> 'a kern_scheme) res" where
  "piperead_turn p addr n s =
     rbind (acquire (PipeLock p) s) (\<lambda>s. piperead_body p addr n s)"

definition piperead_resume ::
  "nat \<Rightarrow> bool \<Rightarrow> u32 \<Rightarrow> u32 \<Rightarrow> int \<Rightarrow> 'a kern_scheme \<Rightarrow> (turn \<times> 'a kern_scheme) res"
where
  "piperead_resume q ena p addr n s =
     rbind (sleep_in q (PipeLock p) ena s) (\<lambda>s. piperead_body p addr n s)"

definition piperead :: "u32 \<Rightarrow> u32 \<Rightarrow> int \<Rightarrow> 'a kern_scheme \<Rightarrow> (int \<times> 'a kern_scheme) res" where
  "piperead p addr n s =
     rbind (piperead_turn p addr n s) (\<lambda>(t, s).
     case t of Returns r \<Rightarrow> Inr (r, s) | Blocks _ \<Rightarrow> Inl (Sleeps (ChanPipeRead p)))"

definition pipeclose :: "u32 \<Rightarrow> bool \<Rightarrow> 'a kern_scheme \<Rightarrow> 'a kern_scheme res" where
  "pipeclose p writable s =
     rbind (acquire (PipeLock p) s) (\<lambda>s.
     rbind (if writable
            then wakeup (ChanPipeRead p) (upd_pipe p (\<lambda>P. P\<lparr>p_writeopen := False\<rparr>) s)
            else wakeup (ChanPipeWrite p) (upd_pipe p (\<lambda>P. P\<lparr>p_readopen := False\<rparr>) s)) (\<lambda>s.
     if \<not> p_readopen (pipes s p) \<and> \<not> p_writeopen (pipes s p)
     then rbind (release (PipeLock p) s) (\<lambda>s. kfree p s)
     else release (PipeLock p) s))"

end
