(* ===== verification/Calm.thy ===== *)
theory Calm
  imports Sleeplock Sched
begin

text \<open>
  Critical sections and sleep locks without contention. A steady state is one in which a process
  runs and the interrupt bookkeeping of its CPU is consistent; in such a state a critical section
  on a free lock changes exactly what its body changes, a free sleep lock is taken at once, and
  waking up on a channel nobody sleeps on changes nothing.
\<close>

section \<open>Steady states\<close>

definition steady :: "nat \<Rightarrow> 'a mach_scheme \<Rightarrow> bool" where
  "steady p s \<longleftrightarrow> cli_ok s \<and> running s (curcpu s) = Some p
     \<and> (ncli (cpus s (curcpu s)) = 0 \<longrightarrow> intena (cpus s (curcpu s)) = eflags_IF s)"

lemma steadyD [dest]:
  assumes "steady p s"
  shows "cli_ok s" "running s (curcpu s) = Some p" "settled s = s"
proof -
  show "cli_ok s" "running s (curcpu s) = Some p" using assms by (simp_all add: steady_def)
  show "settled s = s" using assms by (auto simp: steady_def settled_def Let_def intro!: mach.equality)
qed

lemma steady_enter [simp]: "steady p s \<Longrightarrow> steady p (enter lk s)"
  by (auto simp: steady_def enter_def Let_def cli_ok_def)

lemma curproc_steady: "steady p s \<Longrightarrow> curproc s = Inr (p, s)"
  using steadyD [of p s] by (simp add: curproc_def myproc_eq)

lemma acquire_steady: "steady p s \<Longrightarrow> lock_free lk s \<Longrightarrow> acquire lk s = Inr (enter lk s)"
  using steadyD [of p s] by (simp add: acquire_free)

lemma release_steady:
  assumes "steady p s" "lock_free lk s"
    and "curcpu t = curcpu s" "eflags_IF t = False" "cpus t = cpus (enter lk s)" "locks t = locks (enter lk s)"
  shows "release lk t = Inr (t\<lparr>eflags_IF := eflags_IF s, cpus := cpus s, locks := locks s\<rparr>)"
  using release_enter [of s lk t] assms steadyD [OF assms(1)] by simp

text \<open>What lies outside the machine record is untouched by entering a critical section.\<close>

lemma enter_phys [simp]:
  "mem (enter lk s) = mem s" "kend (enter lk s) = kend s" "freelist (enter lk s) = freelist s"
  "use_lock (enter lk s) = use_lock s"
  by (simp_all add: enter_def Let_def)

lemma enter_kern [simp]:
  "sleeplocks (enter lk s) = sleeplocks s" "disk (enter lk s) = disk s" "disksize (enter lk s) = disksize s"
  "dwrites (enter lk s) = dwrites s" "bufs (enter lk s) = bufs s" "klog (enter lk s) = klog s" "sb (enter lk s) = sb s"
  "icache (enter lk s) = icache s" "ftable (enter lk s) = ftable s" "pipes (enter lk s) = pipes s"
  "cons (enter lk s) = cons s" "devsw (enter lk s) = devsw s"
  by (simp_all add: enter_def Let_def)

text \<open>Changes of kernel data keep a state steady and its locks as they are.\<close>

lemma steady_upd [simp]:
  fixes s :: "'a kern_scheme"
  shows "steady p (s\<lparr>bufs := x1\<rparr>) = steady p s" "steady p (s\<lparr>sleeplocks := x2\<rparr>) = steady p s"
  "steady p (s\<lparr>disk := x3\<rparr>) = steady p s" "steady p (s\<lparr>dwrites := x4\<rparr>) = steady p s"
  "steady p (s\<lparr>klog := x5\<rparr>) = steady p s" "steady p (s\<lparr>icache := x6\<rparr>) = steady p s"
  "steady p (s\<lparr>ftable := x7\<rparr>) = steady p s" "steady p (s\<lparr>pipes := x8\<rparr>) = steady p s"
  "steady p (s\<lparr>cons := x9\<rparr>) = steady p s" "steady p (s\<lparr>ptable := x10\<rparr>) = steady p s"
  "steady p (s\<lparr>mem := x11\<rparr>) = steady p s"
  by (simp_all add: steady_def cli_ok_def)

lemma lock_free_upd [simp]:
  fixes s :: "'a kern_scheme"
  shows "lock_free lk (s\<lparr>bufs := x1\<rparr>) = lock_free lk s" "lock_free lk (s\<lparr>sleeplocks := x2\<rparr>) = lock_free lk s"
  "lock_free lk (s\<lparr>disk := x3\<rparr>) = lock_free lk s" "lock_free lk (s\<lparr>dwrites := x4\<rparr>) = lock_free lk s"
  "lock_free lk (s\<lparr>klog := x5\<rparr>) = lock_free lk s" "lock_free lk (s\<lparr>icache := x6\<rparr>) = lock_free lk s"
  "lock_free lk (s\<lparr>ftable := x7\<rparr>) = lock_free lk s" "lock_free lk (s\<lparr>pipes := x8\<rparr>) = lock_free lk s"
  "lock_free lk (s\<lparr>cons := x9\<rparr>) = lock_free lk s" "lock_free lk (s\<lparr>ptable := x10\<rparr>) = lock_free lk s"
  "lock_free lk (s\<lparr>mem := x11\<rparr>) = lock_free lk s"
  by (simp_all add: lock_free_def)

section \<open>Leaving a critical section\<close>

lemma release_enter_same: "steady p s \<Longrightarrow> lock_free lk s \<Longrightarrow> release lk (enter lk s) = Inr s"
  by (subst release_steady) (auto simp: enter_def Let_def)

lemma release_upd:
  fixes s :: "'a kern_scheme"
  assumes "steady p s" "lock_free lk s"
  shows "release lk ((enter lk s)\<lparr>bufs := x1\<rparr>) = Inr (s\<lparr>bufs := x1\<rparr>)"
    "release lk ((enter lk s)\<lparr>sleeplocks := x2\<rparr>) = Inr (s\<lparr>sleeplocks := x2\<rparr>)"
    "release lk ((enter lk s)\<lparr>klog := x5\<rparr>) = Inr (s\<lparr>klog := x5\<rparr>)"
    "release lk ((enter lk s)\<lparr>klog := x5, bufs := x1\<rparr>) = Inr (s\<lparr>klog := x5, bufs := x1\<rparr>)"
    "release lk ((enter lk s)\<lparr>icache := x6\<rparr>) = Inr (s\<lparr>icache := x6\<rparr>)"
    "release lk ((enter lk s)\<lparr>ftable := x7\<rparr>) = Inr (s\<lparr>ftable := x7\<rparr>)"
    "release lk ((enter lk s)\<lparr>cons := x9\<rparr>) = Inr (s\<lparr>cons := x9\<rparr>)"
    "release lk ((enter lk s)\<lparr>ptable := x10\<rparr>) = Inr (s\<lparr>ptable := x10\<rparr>)"
    "release lk ((enter lk s)\<lparr>sleeplocks := x2, ptable := x10\<rparr>) = Inr (s\<lparr>sleeplocks := x2, ptable := x10\<rparr>)"
    "release lk ((enter lk s)\<lparr>pipes := x8, ptable := x10\<rparr>) = Inr (s\<lparr>pipes := x8, ptable := x10\<rparr>)"
    "release lk ((enter lk s)\<lparr>mem := x11, pipes := x8, ptable := x10\<rparr>) = Inr (s\<lparr>mem := x11, pipes := x8, ptable := x10\<rparr>)"
  using assms by (subst release_steady [OF assms]; simp add: enter_def Let_def)+

lemma wakeup_steady:
  assumes "steady p s" "lock_free PtableLock s"
  shows "wakeup ch s = Inr (s\<lparr>ptable := woken ch (ptable s)\<rparr>)"
  using wakeup_eq [of s ch] assms steadyD [OF assms(1)] by simp

text \<open>Nobody sleeps on the channel.\<close>

definition unawaited :: "chan \<Rightarrow> 'a procs_scheme \<Rightarrow> bool" where
  "unawaited ch s \<longleftrightarrow> (\<forall>q < NPROC. pstate (ptable s q) = SLEEPING \<longrightarrow> chan (ptable s q) \<noteq> ch)"

lemma wakeup_nobody:
  assumes "steady p s" "lock_free PtableLock s" "unawaited ch s"
  shows "wakeup ch s = Inr s"
proof -
  have "woken ch (ptable s) = ptable s" using assms(3) by (auto simp: unawaited_def woken_def)
  then show ?thesis using wakeup_steady [OF assms(1,2), of ch] by simp
qed

section \<open>Sleep locks\<close>

text \<open>The lock's spin lock is free and nobody waits for the sleep lock.\<close>

definition sl_idle :: "lockid \<Rightarrow> 'a kern_scheme \<Rightarrow> bool" where
  "sl_idle lk s \<longleftrightarrow> lock_free lk s \<and> lock_free PtableLock s \<and> lk \<noteq> PtableLock \<and> unawaited (sleep_chan lk) s"

lemma acquiresleep_free:
  assumes "steady p s" "lock_free lk s" "\<not> sl_locked (sleeplocks s lk)"
  shows "acquiresleep lk s = Inr (set_sleeplock lk True (pid (ptable s p)) s)"
  using assms
  by (simp add: acquiresleep_def acquire_steady [OF assms(1,2)] curproc_steady [OF steady_enter [OF assms(1)]]
      release_upd [OF assms(1,2)] set_sleeplock_def)

lemma releasesleep_idle:
  assumes "steady p s" "sl_idle lk s"
  shows "releasesleep lk s = Inr (set_sleeplock lk False 0 s)"
proof -
  have "wakeup (sleep_chan lk) (set_sleeplock lk False 0 (enter lk s)) = Inr (set_sleeplock lk False 0 (enter lk s))"
    using assms by (intro wakeup_nobody [of p]) (auto simp: sl_idle_def set_sleeplock_def unawaited_def)
  then show ?thesis
    using assms by (simp add: releasesleep_def acquire_steady [OF assms(1)] sl_idle_def set_sleeplock_def
        release_upd [OF assms(1)])
qed

lemma holdingsleep_eq:
  assumes "steady p s" "lock_free lk s"
  shows "holdingsleep lk s = Inr (sl_locked (sleeplocks s lk) \<and> sl_pid (sleeplocks s lk) = pid (ptable s p), s)"
  by (cases "sl_locked (sleeplocks s lk)")
    (simp_all add: holdingsleep_def acquire_steady [OF assms] curproc_steady [OF steady_enter [OF assms(1)]]
      release_enter_same [OF assms])


lemma releasesleep_eq:
  assumes "steady p s" "lock_free lk s" "lock_free PtableLock s" "lk \<noteq> PtableLock"
  shows "releasesleep lk s = Inr ((set_sleeplock lk False 0 s)\<lparr>ptable := woken (sleep_chan lk) (ptable s)\<rparr>)"
proof -
  have "wakeup (sleep_chan lk) (set_sleeplock lk False 0 (enter lk s))
      = Inr ((set_sleeplock lk False 0 (enter lk s))\<lparr>ptable := woken (sleep_chan lk) (ptable s)\<rparr>)"
    using assms wakeup_steady [of p "set_sleeplock lk False 0 (enter lk s)"] by (simp add: set_sleeplock_def)
  then show ?thesis
    using assms by (simp add: releasesleep_def acquire_steady [OF assms(1,2)] set_sleeplock_def release_upd [OF assms(1,2)])
qed

lemma acquiresleep_taken:
  assumes "steady p s" "lock_free lk s" "lock_free PtableLock s" "lk \<noteq> PtableLock"
    and "ncli (cpus s (curcpu s)) = 0" "sl_locked (sleeplocks s lk)"
  shows "acquiresleep lk s = Inl (Sleeps (sleep_chan lk))"
proof -
  have "in_section lk (enter lk s)"
    using assms(5) by (simp add: in_section_def) (simp add: enter_def Let_def)
  then have "sleep (sleep_chan lk) lk (enter lk s) = Inl (Sleeps (sleep_chan lk))"
    using assms sleep_out_eq [of lk "enter lk s" p "sleep_chan lk"] steadyD(2) [OF steady_enter [OF assms(1)]]
    by (simp add: sleep_def)
  then show ?thesis using assms(6) by (simp add: acquiresleep_def acquire_steady [OF assms(1,2)])
qed

section \<open>Calm states\<close>

text \<open>
  All spin locks are free and nobody sleeps on a lock of the file system: what a process does in
  such a state is not interleaved with other processes.
\<close>

definition calm :: "nat \<Rightarrow> 'a kern_scheme \<Rightarrow> bool" where
  "calm p s \<longleftrightarrow> steady p s \<and> (\<forall>lk. lock_free lk s) \<and> (\<forall>i. unawaited (ChanBufLk i) s)
     \<and> (\<forall>i. unawaited (ChanInodeLk i) s) \<and> unawaited ChanLog s"

lemma calmD:
  assumes "calm p s"
  shows "steady p s" "lock_free lk s" "sl_idle (BufLk i) s" "sl_idle (InodeLk i) s" "unawaited ChanLog s"
  using assms by (simp_all add: calm_def sl_idle_def)

lemma unawaited_upd [simp]:
  fixes s :: "'a kern_scheme"
  shows "unawaited ch (s\<lparr>bufs := x1\<rparr>) = unawaited ch s" "unawaited ch (s\<lparr>sleeplocks := x2\<rparr>) = unawaited ch s"
  "unawaited ch (s\<lparr>disk := x3\<rparr>) = unawaited ch s" "unawaited ch (s\<lparr>dwrites := x4\<rparr>) = unawaited ch s"
  "unawaited ch (s\<lparr>klog := x5\<rparr>) = unawaited ch s" "unawaited ch (s\<lparr>icache := x6\<rparr>) = unawaited ch s"
  "unawaited ch (s\<lparr>ftable := x7\<rparr>) = unawaited ch s" "unawaited ch (s\<lparr>pipes := x8\<rparr>) = unawaited ch s"
  "unawaited ch (s\<lparr>cons := x9\<rparr>) = unawaited ch s" "unawaited ch (s\<lparr>mem := x11\<rparr>) = unawaited ch s"
  "unawaited ch (enter lk s) = unawaited ch s"
  by (simp_all add: unawaited_def)

lemma calm_upd [simp]:
  fixes s :: "'a kern_scheme"
  shows "calm p (s\<lparr>bufs := x1\<rparr>) = calm p s" "calm p (s\<lparr>sleeplocks := x2\<rparr>) = calm p s"
  "calm p (s\<lparr>disk := x3\<rparr>) = calm p s" "calm p (s\<lparr>dwrites := x4\<rparr>) = calm p s"
  "calm p (s\<lparr>klog := x5\<rparr>) = calm p s" "calm p (s\<lparr>icache := x6\<rparr>) = calm p s"
  "calm p (s\<lparr>ftable := x7\<rparr>) = calm p s" "calm p (s\<lparr>pipes := x8\<rparr>) = calm p s"
  "calm p (s\<lparr>cons := x9\<rparr>) = calm p s" "calm p (s\<lparr>mem := x11\<rparr>) = calm p s"
  by (simp_all add: calm_def)

section \<open>A kernel state for examples\<close>

definition demo_kern :: kern where
  "demo_kern = \<lparr>curcpu = 0, eflags_IF = True, cpus = (\<lambda>_. demo_cpu)(0 := demo_cpu\<lparr>cpu_proc := Some 3, intena := True\<rparr>),
     locks = (\<lambda>_. \<lparr>locked = False, lk_cpu = None\<rparr>), mem = (\<lambda>_. 0), kend = 0x80110000, kdata = 0x80108000,
     kpgdir = 0, cr3 = 0, freelist = 0, use_lock = True,
     ptable = (\<lambda>_. demo_proc)(3 := demo_proc\<lparr>pstate := RUNNING, pid := 4, pgdir := 0x80300000\<rparr>),
     nextpid = 5, initproc = Some 0, ticks = 0, forkret_eip = 0, trapret_eip = 0,
     shm_segs = (\<lambda>_. \<lparr>shm_perm = \<lparr>ip_key = - 1, ip_mode = 0\<rparr>, shm_segsz = 0, shm_atime = 0, shm_dtime = 0,
       shm_ctime = 0, shm_cpid = 0, shm_lpid = 0, shm_nattch = 0, shm_pa = 0\<rparr>),
     lastShmSegIndex = - 1, used_ids = 0, shm_tot = 0,
     rtc = \<lparr>second = 0, minute = 0, hour = 0, day = 1, month = 1, year = 2024\<rparr>,
     shm_r = \<lparr>second = 0, minute = 0, hour = 0, day = 1, month = 1, year = 2024\<rparr>,
     sleeplocks = (\<lambda>_. \<lparr>sl_locked = False, sl_pid = 0\<rparr>), disk = (\<lambda>_. replicate 512 0), disksize = 1000, dwrites = [],
     bufs = (\<lambda>_. \<lparr>b_valid = False, b_dirty = False, b_dev = 0, b_blockno = 0, b_refcnt = 0, b_prev = 0, b_next = 0,
       b_data = replicate 512 0\<rparr>),
     klog = \<lparr>lg_start = 2, lg_size = 30, lg_outstanding = 0, lg_committing = False, lg_dev = 1, lh_n = 0,
       lh_block = (\<lambda>_. 0)\<rparr>,
     sb = \<lparr>sb_size = 1000, sb_nblocks = 941, sb_ninodes = 200, sb_nlog = 30, sb_logstart = 2, sb_inodestart = 32,
       sb_bmapstart = 58\<rparr>,
     icache = (\<lambda>_. \<lparr>i_dev = 0, i_inum = 0, i_ref = 0, i_valid = False, i_type = 0, i_major = 0, i_minor = 0,
       i_nlink = 0, i_size = 0, i_addrs = replicate 13 0\<rparr>),
     ftable = (\<lambda>_. \<lparr>f_type = FD_NONE, f_ref = 0, f_readable = False, f_writable = False, f_pipe = 0, f_ip = None,
       f_off = 0\<rparr>),
     pipes = (\<lambda>_. \<lparr>p_data = (\<lambda>_. 0), p_nread = 0, p_nwrite = 0, p_readopen = True, p_writeopen = True\<rparr>),
     cons = \<lparr>crt = (\<lambda>_. 0), crt_pos = 0, uart_out = [], in_buf = (\<lambda>_. 0), in_r = 0, in_w = 0, in_e = 0,
       cons_locking = True, panicked = False\<rparr>,
     devsw = (\<lambda>_. False), forkret_first = True,
     idt = (\<lambda>_. \<lparr>off_15_0 = 0, cs_sel = 0, gate_args = 0, gate_rsv1 = 0, gate_type = 0, gate_s = 0, gate_dpl = 0,
       gate_p = 0, off_31_16 = 0\<rparr>)\<rparr>"

lemma demo_kern_steady: "steady 3 demo_kern" "lock_free lk demo_kern" "ncli (cpus demo_kern (curcpu demo_kern)) = 0"
  "unawaited ch demo_kern"
  by (simp_all add: steady_def cli_ok_def lock_free_def demo_kern_def demo_cpu_def unawaited_def demo_proc_def)

lemma demo_kern_calm: "calm 3 demo_kern"
  using demo_kern_steady by (simp add: calm_def)

section \<open>What sleep locks promise\<close>

text \<open>The same memory with another process running on this CPU.\<close>

definition switched :: "nat \<Rightarrow> 'a mach_scheme \<Rightarrow> 'a mach_scheme" where
  "switched q s = upd_cpu (\<lambda>c. c\<lparr>cpu_proc := Some q\<rparr>) s"

lemma switched_simps [simp]:
  "lock_free lk (switched q s) = lock_free lk s" "curcpu (switched q s) = curcpu s"
  "ncli (cpus (switched q s) (curcpu s)) = ncli (cpus s (curcpu s))"
  by (simp_all add: switched_def upd_cpu_def lock_free_def)

lemma switched_kern [simp]:
  "sleeplocks (switched q s) = sleeplocks s" "ptable (switched q s) = ptable s"
  by (simp_all add: switched_def upd_cpu_def)

lemma steady_switched: "steady p s \<Longrightarrow> steady q (switched q s)"
  by (simp add: steady_def switched_def upd_cpu_def cli_ok_def)

text \<open>
  C26: a sleep lock is held by one process. \<^verbatim>\<open>acquiresleep\<close> of a free lock returns with the lock
  held by the calling process, as \<^verbatim>\<open>holdingsleep\<close> confirms; while it is held every process with
  another id is told that it does not hold it and goes to sleep on the lock when it tries to take it;
  \<^verbatim>\<open>releasesleep\<close> frees the lock and makes every process sleeping on it runnable.
\<close>

theorem sleeplock_exclusive:
  assumes st: "steady p s" and fr: "lock_free lk s" "lock_free PtableLock s" "lk \<noteq> PtableLock"
    and n: "ncli (cpus s (curcpu s)) = 0" and un: "\<not> sl_locked (sleeplocks s lk)"
  shows "\<exists>t u. acquiresleep lk s = Inr t \<and> holdingsleep lk t = Inr (True, t)
    \<and> (\<forall>q. pid (ptable s q) \<noteq> pid (ptable s p) \<longrightarrow>
         holdingsleep lk (switched q t) = Inr (False, switched q t)
         \<and> acquiresleep lk (switched q t) = Inl (Sleeps (sleep_chan lk)))
    \<and> releasesleep lk t = Inr u \<and> \<not> sl_locked (sleeplocks u lk)
    \<and> (\<forall>q < NPROC. pstate (ptable s q) = SLEEPING \<and> chan (ptable s q) = sleep_chan lk
         \<longrightarrow> pstate (ptable u q) = RUNNABLE)"
proof -
  let ?t = "set_sleeplock lk True (pid (ptable s p)) s"
  have t: "steady p ?t" "lock_free lk ?t" "lock_free PtableLock ?t"
    "ncli (cpus (switched q ?t) (curcpu (switched q ?t))) = 0" for q
    using st fr n by (simp_all add: set_sleeplock_def) (simp add: switched_def upd_cpu_def)
  have acq: "acquiresleep lk s = Inr ?t" by (rule acquiresleep_free [OF st fr(1) un])
  have hold: "holdingsleep lk ?t = Inr (True, ?t)"
    using holdingsleep_eq [OF t(1,2)] by (simp add: set_sleeplock_def)
  have other: "holdingsleep lk (switched q ?t) = Inr (False, switched q ?t)"
    "acquiresleep lk (switched q ?t) = Inl (Sleeps (sleep_chan lk))"
    if "pid (ptable s q) \<noteq> pid (ptable s p)" for q
  proof -
    have q: "steady q (switched q ?t)" "lock_free lk (switched q ?t)" "lock_free PtableLock (switched q ?t)"
      using steady_switched [OF t(1)] t(2,3) by simp_all
    show "holdingsleep lk (switched q ?t) = Inr (False, switched q ?t)"
      using holdingsleep_eq [OF q(1,2)] that by (simp add: set_sleeplock_def)
    show "acquiresleep lk (switched q ?t) = Inl (Sleeps (sleep_chan lk))"
      using acquiresleep_taken [OF q fr(3) t(4)] by (simp add: set_sleeplock_def)
  qed
  have rel: "releasesleep lk ?t = Inr ((set_sleeplock lk False 0 ?t)\<lparr>ptable := woken (sleep_chan lk) (ptable ?t)\<rparr>)"
    by (rule releasesleep_eq [OF t(1-3) fr(3)])
  show ?thesis
    by (intro exI conjI, rule acq, rule hold, use other in blast, rule rel)
      (auto simp: set_sleeplock_def woken_def)
qed

theorem sleeplock_exclusive_witness:
  "\<exists>t. acquiresleep (BufLk 5) demo_kern = Inr t \<and> acquiresleep (BufLk 5) (switched 0 t) = Inl (Sleeps (ChanBufLk 5))"
proof -
  have "\<not> sl_locked (sleeplocks demo_kern (BufLk 5))" "pid (ptable demo_kern 0) \<noteq> pid (ptable demo_kern 3)"
    by (simp_all add: demo_kern_def demo_proc_def)
  then show ?thesis
    using sleeplock_exclusive [OF demo_kern_steady(1,2,2) _ demo_kern_steady(3), of "BufLk 5"] by auto
qed

end
