(* ===== verification/PipeSpec.thy ===== *)
theory PipeSpec
  imports Pipe Calm
begin

text \<open>
  A pipe is a first-in first-out queue of at most 512 bytes. The counters run freely and wrap
  around at 2^32, which the ring buffer survives because 512 divides 2^32.
\<close>

section \<open>Bounded queues\<close>

locale bounded_queue =
  fixes inv :: "'q \<Rightarrow> bool" and abs :: "'q \<Rightarrow> 'e list" and cap :: nat
    and is_full is_empty :: "'q \<Rightarrow> bool" and put :: "'e \<Rightarrow> 'q \<Rightarrow> 'q" and front :: "'q \<Rightarrow> 'e" and pop :: "'q \<Rightarrow> 'q"
  assumes bounded: "inv q \<Longrightarrow> length (abs q) \<le> cap"
    and full_iff: "inv q \<Longrightarrow> is_full q \<longleftrightarrow> length (abs q) = cap"
    and empty_iff: "inv q \<Longrightarrow> is_empty q \<longleftrightarrow> abs q = []"
    and put_ok: "inv q \<Longrightarrow> length (abs q) < cap \<Longrightarrow> inv (put c q) \<and> abs (put c q) = abs q @ [c]"
    and pop_ok: "inv q \<Longrightarrow> abs q \<noteq> [] \<Longrightarrow> front q = hd (abs q) \<and> inv (pop q) \<and> abs (pop q) = tl (abs q)"
begin

lemma put_all:
  "inv q \<Longrightarrow> length (abs q) + length cs \<le> cap \<Longrightarrow> inv (fold put cs q) \<and> abs (fold put cs q) = abs q @ cs"
proof (induction cs arbitrary: q)
  case (Cons c cs)
  have "length (abs q) < cap" using Cons.prems(2) by simp
  note p = put_ok [OF Cons.prems(1) this, of c]
  show ?case using Cons.IH [of "put c q"] Cons.prems p by simp
qed simp

lemma pop_some: "inv q \<Longrightarrow> k \<le> length (abs q) \<Longrightarrow> inv ((pop ^^ k) q) \<and> abs ((pop ^^ k) q) = drop k (abs q)"
proof (induction k arbitrary: q)
  case (Suc k)
  have ne: "abs q \<noteq> []" using Suc.prems(2) by auto
  note p = pop_ok [OF Suc.prems(1) ne]
  have "k \<le> length (abs (pop q))" using p Suc.prems(2) by simp
  from Suc.IH [OF _ this] p show ?case by (simp add: funpow_swap1 drop_Suc)
qed simp

text \<open>What goes in comes out, in order.\<close>

lemma put_then_pop:
  assumes "inv q" "length (abs q) + length cs \<le> cap"
  shows "abs ((pop ^^ length (abs q)) (fold put cs q)) = cs"
  using put_all [OF assms] pop_some [of "fold put cs q" "length (abs q)"] by simp

end

section \<open>Ring buffers with free running counters\<close>

definition ring_slot :: "nat \<Rightarrow> u32 \<Rightarrow> nat \<Rightarrow> nat" where
  "ring_slot M r k = (unat r + k) mod M"

definition ring_list :: "nat \<Rightarrow> (nat \<Rightarrow> 'e) \<Rightarrow> u32 \<Rightarrow> u32 \<Rightarrow> 'e list" where
  "ring_list M d r w = map (\<lambda>k. d (ring_slot M r k)) [0..<unat (w - r)]"

lemma ring_index:
  assumes "M dvd 2 ^ 32" "M < 2 ^ 32"
  shows "unat ((r + of_nat k) mod of_nat M :: u32) = ring_slot M r k"
proof -
  have M: "unat (of_nat M :: u32) = M" unfolding unat_of_nat using assms(2) by (intro mod_less) simp
  have "unat (r + of_nat k) = (unat r + k) mod 2 ^ 32"
    by (simp add: unat_word_ariths unat_of_nat mod_add_right_eq)
  then have "unat ((r + of_nat k) mod of_nat M :: u32) = (unat r + k) mod 2 ^ 32 mod M"
    by (simp add: unat_mod M)
  then show ?thesis using assms(1) by (simp add: ring_slot_def mod_mod_cancel)
qed

lemma ring_slot_inj:
  assumes "ring_slot M r j = ring_slot M r k" "j \<le> k" "k < j + M"
  shows "j = k"
proof -
  have "(unat r + j) mod M = (unat r + j + (k - j)) mod M" using assms(1,2) by (simp add: ring_slot_def)
  then have "M dvd (k - j)" by (metis mod_eq_dvd_iff_nat add_diff_cancel_left' le_add1)
  moreover have "k - j < M" using assms(2,3) by simp
  ultimately have "k - j = 0" by (metis nat_dvd_not_less neq0_conv)
  then show ?thesis using assms(2) by simp
qed

lemma ring_slot_suc: "ring_slot M (r + 1) k = ring_slot M r (Suc k)" if "M dvd 2 ^ 32" for M r k
proof -
  have "(unat (r + 1) + k) mod M = ((unat r + 1) mod 2 ^ 32 + k) mod M" by (simp add: unat_word_ariths)
  also have "\<dots> = (unat r + 1 + k) mod M"
    using that by (metis mod_add_left_eq mod_mod_cancel)
  finally show ?thesis by (simp add: ring_slot_def)
qed

lemma unat_diff_suc: "unat (w + 1 - r) = Suc (unat (w - r))" if "unat (w - r) < 2 ^ 32 - 1" for w r :: u32
proof -
  have e: "w + 1 - r = (w - r) + of_nat 1" by simp
  have "unat (w - r) + 1 < 2 ^ 32" using that by simp
  from unat_add_no_wrap [OF this] show ?thesis unfolding e by simp
qed

lemma unat_diff_pred: "unat (w - (r + 1)) = unat (w - r) - 1" if "w \<noteq> r" for w r :: u32
proof -
  have "unat (w - r) \<noteq> 0" using that by (simp add: unat_eq_0)
  then have "1 \<le> w - r" by (simp add: word_le_nat_alt)
  from unat_sub [OF this] show ?thesis by (simp add: diff_diff_eq)
qed

lemma ring_put:
  assumes "M dvd 2 ^ 32" "M < 2 ^ 32" "unat (w - r) < M"
  shows "ring_list M (d(unat (w mod of_nat M) := c)) r (w + 1) = ring_list M d r w @ [c]"
proof -
  let ?n = "unat (w - r)"
  have slot: "unat (w mod of_nat M) = ring_slot M r ?n" using ring_index [OF assms(1,2), of r ?n] by simp
  have ne: "ring_slot M r k \<noteq> ring_slot M r ?n" if "k < ?n" for k
    using ring_slot_inj [of M r k ?n] that assms(3) by auto
  have "unat (w + 1 - r) = Suc ?n" using assms(2,3) by (intro unat_diff_suc) simp
  then show ?thesis using ne by (simp add: ring_list_def slot)
qed

lemma ring_pop:
  assumes "M dvd 2 ^ 32" "M < 2 ^ 32" "w \<noteq> r"
  shows "d (unat (r mod of_nat M)) = hd (ring_list M d r w)" "ring_list M d (r + 1) w = tl (ring_list M d r w)"
proof -
  have n: "unat (w - r) \<noteq> 0" using assms(3) by (simp add: unat_eq_0)
  then obtain m where m: "unat (w - r) = Suc m" using not0_implies_Suc by blast
  have up: "[0..<Suc m] = 0 # map Suc [0..<m]" by (simp add: upt_conv_Cons map_Suc_upt del: upt_Suc)
  show "d (unat (r mod of_nat M)) = hd (ring_list M d r w)"
    using ring_index [OF assms(1,2), of r 0] unfolding ring_list_def m up by simp
  have "unat (w - (r + 1)) = m" using unat_diff_pred [OF assms(3)] m by simp
  then show "ring_list M d (r + 1) w = tl (ring_list M d r w)"
    unfolding ring_list_def m up using ring_slot_suc [OF assms(1)] by simp
qed

section \<open>Pipes\<close>

definition pipe_list :: "pipe \<Rightarrow> u8 list" where
  "pipe_list P = ring_list PIPESIZE (p_data P) (p_nread P) (p_nwrite P)"

definition pipe_ok :: "pipe \<Rightarrow> bool" where
  "pipe_ok P \<longleftrightarrow> unat (p_nwrite P - p_nread P) \<le> PIPESIZE"

lemma length_pipe_list: "length (pipe_list P) = unat (p_nwrite P - p_nread P)"
  by (simp add: pipe_list_def ring_list_def)

lemma pipe_full_iff: "pipe_full P \<longleftrightarrow> length (pipe_list P) = PIPESIZE"
proof -
  have "pipe_full P \<longleftrightarrow> p_nwrite P - p_nread P = 512" by (auto simp: pipe_full_def diff_eq_eq add.commute)
  also have "\<dots> \<longleftrightarrow> unat (p_nwrite P - p_nread P) = 512" by (simp add: word_unat_eq_iff)
  finally show ?thesis by (simp add: length_pipe_list)
qed

lemma pipe_empty_iff: "pipe_empty P \<longleftrightarrow> pipe_list P = []"
proof -
  have "pipe_empty P \<longleftrightarrow> unat (p_nwrite P - p_nread P) = 0" by (auto simp: pipe_empty_def unat_eq_0)
  then show ?thesis by (simp add: length_pipe_list [symmetric])
qed

interpretation pq: bounded_queue pipe_ok pipe_list 512 pipe_full pipe_empty pipe_put pipe_head pipe_tail
proof
  fix P :: pipe and c
  assume P: "pipe_ok P"
  show "length (pipe_list P) \<le> 512" using P by (simp add: length_pipe_list pipe_ok_def)
  show "pipe_full P \<longleftrightarrow> length (pipe_list P) = 512" by (rule pipe_full_iff)
  show "pipe_empty P \<longleftrightarrow> pipe_list P = []" by (rule pipe_empty_iff)
  show "pipe_ok (pipe_put c P) \<and> pipe_list (pipe_put c P) = pipe_list P @ [c]" if "length (pipe_list P) < 512"
  proof -
    have n: "unat (p_nwrite P - p_nread P) < 512" using that by (simp add: length_pipe_list)
    have "unat (p_nwrite P + 1 - p_nread P) = Suc (unat (p_nwrite P - p_nread P))"
      using n by (intro unat_diff_suc) simp
    then have "pipe_ok (pipe_put c P)" using n by (simp add: pipe_ok_def pipe_put_def)
    then show ?thesis
      using ring_put [of 512 "p_nwrite P" "p_nread P" "p_data P" c] n by (simp add: pipe_list_def pipe_put_def)
  qed
  show "pipe_head P = hd (pipe_list P) \<and> pipe_ok (pipe_tail P) \<and> pipe_list (pipe_tail P) = tl (pipe_list P)"
    if "pipe_list P \<noteq> []"
  proof -
    have ne: "p_nwrite P \<noteq> p_nread P" using that pipe_empty_iff [of P] by (auto simp: pipe_empty_def)
    have "pipe_ok (pipe_tail P)" using P unat_diff_pred [OF ne] by (simp add: pipe_ok_def pipe_tail_def)
    then show ?thesis
      using ring_pop [of 512, OF _ _ ne, of "p_data P"] by (simp add: pipe_list_def pipe_head_def pipe_tail_def)
  qed
qed


section \<open>Writing and reading\<close>

lemma uload8_upd [simp]:
  fixes s :: "'a kern_scheme"
  shows "uload8 va (s\<lparr>pipes := x\<rparr>) = uload8 va s" "uload8 va (enter lk s) = uload8 va s"
  by (simp_all add: uload8_def user_pte_def user_loc_def enter_def Let_def)

lemma uload_bytes_upd [simp]:
  fixes s :: "'a kern_scheme"
  shows "uload_bytes n va (s\<lparr>pipes := x\<rparr>) = uload_bytes n va s" "uload_bytes n va (enter lk s) = uload_bytes n va s"
  by (induction n arbitrary: va) simp_all

lemma uload_bytes_length: "uload_bytes n va s = Inr bs \<Longrightarrow> length bs = n"
  by (induction n arbitrary: va bs) (auto elim!: rbind_InrE)

lemma uload_bytes_take: "uload_bytes n va s = Inr bs \<Longrightarrow> m \<le> n \<Longrightarrow> uload_bytes m va s = Inr (take m bs)"
proof (induction n arbitrary: m va bs)
  case (Suc n)
  then show ?case by (cases m) (auto elim!: rbind_InrE)
qed simp

lemma upd_pipe_pipes: "upd_pipe a f s = s\<lparr>pipes := (pipes s)(a := f (pipes s a))\<rparr>"
  by (simp add: upd_pipe_def)

text \<open>The loop appends the bytes that fit.\<close>

lemma pipewrite_loop_puts:
  "pipe_ok (pipes s a) \<Longrightarrow> length (pipe_list (pipes s a)) + length bs \<le> 512 \<Longrightarrow>
   uload_bytes (length bs) (addr + of_nat i) s = Inr bs \<Longrightarrow>
   pipewrite_loop (length bs + k) i a addr n s
     = pipewrite_loop k (i + length bs) a addr n (s\<lparr>pipes := (pipes s)(a := fold pipe_put bs (pipes s a))\<rparr>)"
proof (induction bs arbitrary: i s)
  case (Cons b bs)
  let ?s = "upd_pipe a (pipe_put b) s"
  have len: "length (pipe_list (pipes s a)) < 512" using Cons.prems(2) by simp
  have nf: "\<not> pipe_full (pipes s a)" using len by (simp add: pipe_full_iff)
  have put: "pipe_ok (pipe_put b (pipes s a))" "pipe_list (pipe_put b (pipes s a)) = pipe_list (pipes s a) @ [b]"
    using pq.put_ok [OF Cons.prems(1) len] by simp_all
  have ld: "uload8 (addr + of_nat i) s = Inr b" "uload_bytes (length bs) (addr + of_nat (i + 1)) s = Inr bs"
    using Cons.prems(3) by (auto elim!: rbind_InrE simp: ac_simps)
  have "pipewrite_loop (length bs + k) (i + 1) a addr n ?s
      = pipewrite_loop k (i + 1 + length bs) a addr n (?s\<lparr>pipes := (pipes ?s)(a := fold pipe_put bs (pipes ?s a))\<rparr>)"
    using put Cons.prems(2) ld(2) by (intro Cons.IH) (simp_all add: upd_pipe_pipes)
  moreover have "?s\<lparr>pipes := (pipes ?s)(a := fold pipe_put bs (pipes ?s a))\<rparr>
      = s\<lparr>pipes := (pipes s)(a := fold pipe_put (b # bs) (pipes s a))\<rparr>"
    by (simp add: upd_pipe_pipes)
  moreover have "pipewrite_loop (length (b # bs) + k) i a addr n s = pipewrite_loop (length bs + k) (i + 1) a addr n ?s"
    using nf ld(1) by simp
  moreover have "i + 1 + length bs = i + length (b # bs)" by simp
  ultimately show ?case by (simp only:)
qed simp

lemma pipewrite_loop_done:
  assumes "steady p s" "lock_free (PipeLock a) s" "lock_free PtableLock s"
  shows "pipewrite_loop 0 i a addr n ((enter (PipeLock a) s)\<lparr>pipes := x\<rparr>)
    = Inr (Returns n, s\<lparr>pipes := x, ptable := woken (ChanPipeRead a) (ptable s)\<rparr>)"
  using assms wakeup_steady [of p "(enter (PipeLock a) s)\<lparr>pipes := x\<rparr>"] by (simp add: release_upd [OF assms(1,2)])

lemma in_section_enter: "ncli (cpus s (curcpu s)) = 0 \<Longrightarrow> in_section lk (enter lk s)"
  by (simp add: in_section_def) (simp add: enter_def Let_def)

lemma pipewrite_loop_full:
  assumes st: "steady p s" "lock_free (PipeLock a) s" "lock_free PtableLock s" "ncli (cpus s (curcpu s)) = 0"
    and full: "pipe_full (x a)"
  shows "p_readopen (x a) \<Longrightarrow> \<not> killed (ptable s p) \<Longrightarrow> \<exists>t.
      pipewrite_loop (Suc k) i a addr n ((enter (PipeLock a) s)\<lparr>pipes := x\<rparr>) = Inr (Blocks i, t)
      \<and> pipes t = x \<and> lock_free (PipeLock a) t \<and> pstate (ptable t p) = SLEEPING \<and> chan (ptable t p) = ChanPipeWrite a
      \<and> (\<forall>q. q \<noteq> p \<longrightarrow> ptable t q = woken (ChanPipeRead a) (ptable s) q)"
    and "\<not> p_readopen (x a) \<or> killed (ptable s p) \<Longrightarrow>
      pipewrite_loop (Suc k) i a addr n ((enter (PipeLock a) s)\<lparr>pipes := x\<rparr>) = Inr (Returns (- 1), s\<lparr>pipes := x\<rparr>)"
proof -
  let ?e = "(enter (PipeLock a) s)\<lparr>pipes := x\<rparr>"
  let ?w = "?e\<lparr>ptable := woken (ChanPipeRead a) (ptable s)\<rparr>"
  have e: "steady p ?e" "lock_free PtableLock ?e" using st by simp_all
  have cur: "curproc ?e = Inr (p, ?e)" by (rule curproc_steady [OF e(1)])
  show "\<exists>t. pipewrite_loop (Suc k) i a addr n ?e = Inr (Blocks i, t)
      \<and> pipes t = x \<and> lock_free (PipeLock a) t \<and> pstate (ptable t p) = SLEEPING \<and> chan (ptable t p) = ChanPipeWrite a
      \<and> (\<forall>q. q \<noteq> p \<longrightarrow> ptable t q = woken (ChanPipeRead a) (ptable s) q)"
    if "p_readopen (x a)" "\<not> killed (ptable s p)"
  proof -
    have wk: "wakeup (ChanPipeRead a) ?e = Inr ?w" using wakeup_steady [OF e] by simp
    have "in_section (PipeLock a) ?w" "lock_free PtableLock ?w" "running ?w (curcpu ?w) = Some p"
      using in_section_enter [OF st(4), of "PipeLock a"] e steadyD(2) [OF e(1)] by (simp_all add: in_section_def holds_def)
    note so = sleep_out_eq [OF this(1) _ this(2,3), of "ChanPipeWrite a"]
    show ?thesis
      using full that by (simp add: cur wk so) (simp add: lock_free_def)
  qed
  show "pipewrite_loop (Suc k) i a addr n ?e = Inr (Returns (- 1), s\<lparr>pipes := x\<rparr>)"
    if "\<not> p_readopen (x a) \<or> killed (ptable s p)"
  proof -
    have rel: "release (PipeLock a) ?e = Inr (s\<lparr>pipes := x\<rparr>)"
      by (subst release_steady [OF st(1,2)]) (auto simp: enter_def Let_def)
    show ?thesis using full that by (auto simp: cur rel)
  qed
qed

text \<open>
  An example: the running process has one page at address 0 holding the bytes \<open>1, 2, 3\<close>, and an empty pipe
  whose counters are about to wrap around.
\<close>

definition demo_user :: kern where
  "demo_user = demo_kern\<lparr>mem := store32 (store32 ((\<lambda>_. 0)(0x80002000 := 1, 0x80002001 := 2, 0x80002002 := 3))
       0x80000000 0x1007) 0x80001000 0x2007,
     pipes := (\<lambda>_. \<lparr>p_data = (\<lambda>_. 0), p_nread = 0xFFFFFFFE, p_nwrite = 0xFFFFFFFE, p_readopen = True,
       p_writeopen = True\<rparr>)\<rparr>"

lemma demo_user_steady: "steady 3 demo_user" "lock_free lk demo_user" "ncli (cpus demo_user (curcpu demo_user)) = 0"
  using demo_kern_steady by (simp_all add: demo_user_def)

lemma demo_user_pte:
  "user_pte 0 demo_user = 0x2007" "user_pte 1 demo_user = 0x2007" "user_pte 2 demo_user = 0x2007"
  by (simp_all add: user_pte_def demo_user_def demo_kern_def Let_def PDX_def PTX_def P2V_def PTE_ADDR_def entry_def
      load32_def store32_def)

lemma demo_user_bytes: "uload_bytes 3 0 demo_user = Inr [1, 2, 3]"
proof -
  have "mem demo_user 0x80002000 = 1" "mem demo_user 0x80002001 = 2" "mem demo_user 0x80002002 = 3"
    by (simp_all add: demo_user_def demo_kern_def store32_def)
  then show ?thesis
    by (simp add: numeral_3_eq_3 uload8_def user_loc_def demo_user_pte P2V_def PTE_ADDR_def)
qed

text \<open>
  C13: writing \<open>n\<close> bytes to a pipe. When they fit, the call returns \<open>n\<close>, the bytes are appended to the
  queue in order and sleeping readers become runnable. When they do not fit, the queue is
  filled up to 512 bytes with the first of them; then the writer goes to sleep on the pipe with the
  lock released and the readers woken, or returns -1 if nobody reads any more or it was killed. All of this
  holds whatever the counters are, also when they wrap around.
\<close>

theorem pipewrite_fifo:
  fixes s :: "'a kern_scheme" and a :: u32
  defines "P \<equiv> pipes s a"
  defines "room \<equiv> 512 - length (pipe_list P)"
  assumes st: "steady p s" "lock_free (PipeLock a) s" "lock_free PtableLock s" "ncli (cpus s (curcpu s)) = 0"
    and ok: "pipe_ok P" and n: "0 \<le> n" "uload_bytes (nat n) addr s = Inr bs"
  shows "(nat n \<le> room \<longrightarrow> (\<exists>Q. pipewrite a addr n s = Inr (n, s\<lparr>pipes := (pipes s)(a := Q),
        ptable := woken (ChanPipeRead a) (ptable s)\<rparr>) \<and> pipe_ok Q \<and> pipe_list Q = pipe_list P @ bs))
    \<and> (room < nat n \<longrightarrow> (\<exists>Q. pipe_ok Q \<and> pipe_list Q = pipe_list P @ take room bs
         \<and> (if p_readopen P \<and> \<not> killed (ptable s p)
            then \<exists>t. pipewrite_turn a addr n s = Inr (Blocks room, t) \<and> pipes t = (pipes s)(a := Q)
              \<and> lock_free (PipeLock a) t \<and> pstate (ptable t p) = SLEEPING \<and> chan (ptable t p) = ChanPipeWrite a
              \<and> (\<forall>q. q \<noteq> p \<longrightarrow> ptable t q = woken (ChanPipeRead a) (ptable s) q)
            else pipewrite a addr n s = Inr (- 1, s\<lparr>pipes := (pipes s)(a := Q)\<rparr>))))"
proof (intro conjI impI)
  let ?e = "enter (PipeLock a) s"
  have le: "length (pipe_list P) \<le> 512" by (rule pq.bounded [OF ok])
  have len: "length bs = nat n" by (rule uload_bytes_length [OF n(2)])
  have turn: "pipewrite_turn a addr n s = pipewrite_loop (nat n) 0 a addr n ?e"
    by (simp add: pipewrite_turn_def acquire_steady [OF st(1,2)])
  have run: "pipewrite_loop (length cs + k) 0 a addr n ?e
      = pipewrite_loop k (length cs) a addr n (?e\<lparr>pipes := (pipes s)(a := fold pipe_put cs P)\<rparr>)"
    if "length cs \<le> room" "cs = take (length cs) bs" "length cs \<le> nat n" for cs k
  proof -
    have "uload_bytes (length cs) (addr + of_nat 0) ?e = Inr cs"
      using uload_bytes_take [OF n(2) that(3)] that(2) by simp
    then show ?thesis using pipewrite_loop_puts [of ?e a cs addr 0 k n] ok that(1) le by (simp add: P_def room_def)
  qed
  have puts: "pipe_ok (fold pipe_put cs P)" "pipe_list (fold pipe_put cs P) = pipe_list P @ cs"
    if "length cs \<le> room" for cs
    using pq.put_all [OF ok, of cs] that le by (simp_all add: room_def)
  { assume "nat n \<le> room"
    then show "\<exists>Q. pipewrite a addr n s = Inr (n, s\<lparr>pipes := (pipes s)(a := Q),
        ptable := woken (ChanPipeRead a) (ptable s)\<rparr>) \<and> pipe_ok Q \<and> pipe_list Q = pipe_list P @ bs"
      using run [of bs 0] puts [of bs] len pipewrite_loop_done [OF st(1-3)] by (auto simp: pipewrite_def turn) }
  assume big: "room < nat n"
  let ?cs = "take room bs" let ?x = "(pipes s)(a := fold pipe_put ?cs P)"
  have cs: "length ?cs = room" using big len by simp
  obtain k where k: "nat n = room + Suc k" using big less_imp_Suc_add by fastforce
  have loop: "pipewrite_turn a addr n s = pipewrite_loop (Suc k) room a addr n (?e\<lparr>pipes := ?x\<rparr>)"
  proof -
    have "pipewrite_loop (length ?cs + Suc k) 0 a addr n ?e
        = pipewrite_loop (Suc k) (length ?cs) a addr n (?e\<lparr>pipes := ?x\<rparr>)"
      by (rule run) (use cs big in auto)
    then show ?thesis unfolding turn k cs .
  qed
  have full: "pipe_full (?x a)" using puts [of ?cs] cs le by (simp add: pipe_full_iff room_def)
  have ro: "p_readopen (fold pipe_put ds P) = p_readopen P" for ds
    by (induction ds arbitrary: P) (simp_all add: pipe_put_def)
  show "\<exists>Q. pipe_ok Q \<and> pipe_list Q = pipe_list P @ take room bs
         \<and> (if p_readopen P \<and> \<not> killed (ptable s p)
            then \<exists>t. pipewrite_turn a addr n s = Inr (Blocks room, t) \<and> pipes t = (pipes s)(a := Q)
              \<and> lock_free (PipeLock a) t \<and> pstate (ptable t p) = SLEEPING \<and> chan (ptable t p) = ChanPipeWrite a
              \<and> (\<forall>q. q \<noteq> p \<longrightarrow> ptable t q = woken (ChanPipeRead a) (ptable s) q)
            else pipewrite a addr n s = Inr (- 1, s\<lparr>pipes := (pipes s)(a := Q)\<rparr>))"
  proof (intro exI [of _ "fold pipe_put ?cs P"] conjI)
    show "pipe_ok (fold pipe_put ?cs P)" "pipe_list (fold pipe_put ?cs P) = pipe_list P @ ?cs"
      using puts [of ?cs] cs by simp_all
    show "if p_readopen P \<and> \<not> killed (ptable s p)
          then \<exists>t. pipewrite_turn a addr n s = Inr (Blocks room, t) \<and> pipes t = ?x
              \<and> lock_free (PipeLock a) t \<and> pstate (ptable t p) = SLEEPING \<and> chan (ptable t p) = ChanPipeWrite a
              \<and> (\<forall>q. q \<noteq> p \<longrightarrow> ptable t q = woken (ChanPipeRead a) (ptable s) q)
          else pipewrite a addr n s = Inr (- 1, s\<lparr>pipes := ?x\<rparr>)"
      using pipewrite_loop_full [where x = ?x, OF st full, of k room addr n] ro [of ?cs]
      unfolding loop pipewrite_def by (auto simp del: pipewrite_loop.simps)
  qed
qed


theorem pipewrite_fifo_witness:
  "\<exists>Q. pipewrite 0x80500000 0 3 demo_user = Inr (3, demo_user\<lparr>pipes := (pipes demo_user)(0x80500000 := Q),
     ptable := woken (ChanPipeRead 0x80500000) (ptable demo_user)\<rparr>) \<and> pipe_list Q = [1, 2, 3]"
proof -
  have P: "pipe_ok (pipes demo_user 0x80500000)" "pipe_list (pipes demo_user 0x80500000) = []"
    by (simp_all add: demo_user_def pipe_ok_def pipe_list_def ring_list_def)
  from pipewrite_fifo [where s = demo_user and a = "0x80500000" and p = 3 and n = 3 and addr = 0 and bs = "[1, 2, 3]", OF demo_user_steady(1,2,2,3) P(1)]
  show ?thesis using demo_user_bytes P(2) by auto
qed

lemma ustore_bytes_frame:
  fixes s :: "'a phys_scheme" and s' :: "'b phys_scheme"
  shows "ustore_bytes bs va s = Inr t \<Longrightarrow> mem s' = mem s \<Longrightarrow> cr3 s' = cr3 s \<Longrightarrow>
    ustore_bytes bs va s' = Inr (s'\<lparr>mem := mem t\<rparr>)"
proof (induction bs arbitrary: va s s')
  case (Cons b bs)
  then obtain u where u: "ustore8 va b s = Inr u" "ustore_bytes bs (va + 1) u = Inr t" by (auto elim!: rbind_InrE)
  have "ustore8 va b s' = Inr (s'\<lparr>mem := mem u\<rparr>)" "cr3 u = cr3 s"
    using u(1) Cons.prems(2,3) by (auto simp: ustore8_def user_pte_def user_loc_def Let_def split: if_splits)
  then show ?case using Cons.IH [OF u(2), of "s'\<lparr>mem := mem u\<rparr>"] Cons.prems(3) by simp
qed simp

text \<open>The loop takes bytes until the queue is empty or enough have been read.\<close>

lemma piperead_loop_pops:
  "pipe_ok (pipes s a) \<Longrightarrow> ustore_bytes (take k (pipe_list (pipes s a))) (addr + of_nat i) s = Inr t \<Longrightarrow>
   m = min k (length (pipe_list (pipes s a))) \<Longrightarrow>
   piperead_loop k i a addr s
     = Inr (i + m, s\<lparr>mem := mem t, pipes := (pipes s)(a := (pipe_tail ^^ m) (pipes s a))\<rparr>)"
proof (induction k arbitrary: i s m t)
  case (Suc k)
  show ?case
  proof (cases "pipe_list (pipes s a)")
    case Nil
    then show ?thesis using Suc.prems by (simp add: pipe_empty_iff)
  next
    case (Cons c cs)
    then have pop: "pipe_head (pipes s a) = c" "pipe_ok (pipe_tail (pipes s a))" "pipe_list (pipe_tail (pipes s a)) = cs"
      using pq.pop_ok [OF Suc.prems(1)] by simp_all
    obtain u where u: "ustore8 (addr + of_nat i) c s = Inr u" "ustore_bytes (take k cs) (addr + of_nat (i + 1)) u = Inr t"
      using Suc.prems(2) Cons by (auto elim!: rbind_InrE simp: ac_simps)
    have u1: "u = s\<lparr>mem := mem u\<rparr>" using u(1) by (auto simp: ustore8_def split: if_splits)
    let ?s = "upd_pipe a pipe_tail u"
    have P: "pipes ?s a = pipe_tail (pipes s a)" "pipes ?s = (pipes s)(a := pipe_tail (pipes s a))"
      by (subst u1, simp add: upd_pipe_pipes)+
    obtain j where m: "m = Suc j" "j = min k (length cs)" using Suc.prems(3) Cons by simp
    have st: "ustore_bytes (take k cs) (addr + of_nat (i + 1)) ?s = Inr (?s\<lparr>mem := mem t\<rparr>)"
      by (rule ustore_bytes_frame [OF u(2)]) (simp_all add: upd_pipe_pipes)
    have "piperead_loop k (i + 1) a addr ?s
        = Inr (i + 1 + j, ?s\<lparr>mem := mem t, pipes := (pipes ?s)(a := (pipe_tail ^^ j) (pipes ?s a))\<rparr>)"
      using Suc.IH [of ?s "i + 1" "?s\<lparr>mem := mem t\<rparr>" j] st pop(2,3) m(2) P(1)
      by (simp add: fun_upd_def)
    moreover have "?s\<lparr>mem := mem t, pipes := (pipes ?s)(a := (pipe_tail ^^ j) (pipes ?s a))\<rparr>
        = s\<lparr>mem := mem t, pipes := (pipes s)(a := (pipe_tail ^^ m) (pipes s a))\<rparr>"
      unfolding P m(1) by (subst u1) (simp add: upd_pipe_pipes funpow_swap1)
    moreover have "piperead_loop (Suc k) i a addr s = piperead_loop k (i + 1) a addr ?s"
      using Cons pop(1) u(1) by (simp add: pipe_empty_iff)
    moreover have "i + 1 + j = i + m" using m(1) by simp
    ultimately show ?thesis by (simp only:)
  qed
qed simp

text \<open>
  C14: reading at most \<open>n\<close> bytes from a pipe. If the queue is not empty or nobody writes any more, the
  call takes the first \<open>n\<close> bytes (or all there are) off the queue, stores them in order at the user
  address, returns their number and wakes the sleeping writers; with an empty queue this is the end of file
  result 0. If the queue is empty and writers remain, the reader goes to sleep on the pipe with the lock
  released, or returns -1 if it has been killed.
\<close>

theorem piperead_fifo:
  fixes s :: "'a kern_scheme" and a :: u32
  defines "P \<equiv> pipes s a"
  assumes st: "steady p s" "lock_free (PipeLock a) s" "lock_free PtableLock s" "ncli (cpus s (curcpu s)) = 0"
    and ok: "pipe_ok P" and n: "0 \<le> n"
  shows "((pipe_list P \<noteq> [] \<or> \<not> p_writeopen P) \<and> ustore_bytes (take (nat n) (pipe_list P)) addr s = Inr t \<longrightarrow>
      (\<exists>Q. piperead a addr n s = Inr (min n (int (length (pipe_list P))),
          s\<lparr>mem := mem t, pipes := (pipes s)(a := Q), ptable := woken (ChanPipeWrite a) (ptable s)\<rparr>)
        \<and> pipe_ok Q \<and> pipe_list Q = drop (nat n) (pipe_list P)))
    \<and> (pipe_list P = [] \<and> p_writeopen P \<longrightarrow>
        (if killed (ptable s p) then piperead a addr n s = Inr (- 1, s)
         else \<exists>u. piperead_turn a addr n s = Inr (Blocks 0, u) \<and> lock_free (PipeLock a) u \<and> pipes u = pipes s
           \<and> pstate (ptable u p) = SLEEPING \<and> chan (ptable u p) = ChanPipeRead a))"
proof (intro conjI impI)
  let ?e = "enter (PipeLock a) s"
  have turn: "piperead_turn a addr n s = piperead_body a addr n ?e"
    by (simp add: piperead_turn_def acquire_steady [OF st(1,2)])
  { assume "(pipe_list P \<noteq> [] \<or> \<not> p_writeopen P) \<and> ustore_bytes (take (nat n) (pipe_list P)) addr s = Inr t"
    then have some: "\<not> (pipe_empty P \<and> p_writeopen P)" and t: "ustore_bytes (take (nat n) (pipe_list P)) addr s = Inr t"
      by (simp_all add: pipe_empty_iff)
    let ?m = "min (nat n) (length (pipe_list P))" let ?Q = "(pipe_tail ^^ ?m) P"
    let ?f = "?e\<lparr>mem := mem t, pipes := (pipes s)(a := ?Q)\<rparr>"
    have "ustore_bytes (take (nat n) (pipe_list P)) addr ?e = Inr (?e\<lparr>mem := mem t\<rparr>)"
      by (rule ustore_bytes_frame [OF t]) (simp_all add: enter_def Let_def)
    then have loop: "piperead_loop (nat n) 0 a addr ?e = Inr (?m, ?f)"
      using piperead_loop_pops [of ?e a "nat n" addr 0 _ ?m] ok by (simp add: P_def)
    have "wakeup (ChanPipeWrite a) ?f = Inr (?f\<lparr>ptable := woken (ChanPipeWrite a) (ptable s)\<rparr>)"
      using wakeup_steady [of p ?f] st by simp
    then have "piperead a addr n s = Inr (int ?m,
        s\<lparr>mem := mem t, pipes := (pipes s)(a := ?Q), ptable := woken (ChanPipeWrite a) (ptable s)\<rparr>)"
      using some by (auto simp: piperead_def turn piperead_body_def P_def [symmetric] loop release_upd [OF st(1,2)])
    moreover have "pipe_ok ?Q" "pipe_list ?Q = drop (nat n) (pipe_list P)"
      using pq.pop_some [OF ok, of ?m] by (auto simp: min_def)
    moreover have "int ?m = min n (int (length (pipe_list P)))" using n by linarith
    ultimately show "\<exists>Q. piperead a addr n s = Inr (min n (int (length (pipe_list P))),
          s\<lparr>mem := mem t, pipes := (pipes s)(a := Q), ptable := woken (ChanPipeWrite a) (ptable s)\<rparr>)
        \<and> pipe_ok Q \<and> pipe_list Q = drop (nat n) (pipe_list P)" by metis }
  assume none: "pipe_list P = [] \<and> p_writeopen P"
  have cur: "curproc ?e = Inr (p, ?e)" by (rule curproc_steady) (simp add: st)
  have "in_section (PipeLock a) ?e" "lock_free PtableLock ?e" "running ?e (curcpu ?e) = Some p"
    using in_section_enter [OF st(4)] st steadyD(2) [OF steady_enter [OF st(1)]] by simp_all
  note so = sleep_out_eq [OF this(1) _ this(2,3), of "ChanPipeRead a"]
  have body: "piperead_body a addr n ?e =
      (if killed (ptable s p) then Inr (Returns (- 1), s)
       else rbind (sleep_out (ChanPipeRead a) (Some (PipeLock a)) ?e) (\<lambda>(_, s). Inr (Blocks 0, s)))"
    using none by (simp add: piperead_body_def pipe_empty_iff P_def cur release_enter_same [OF st(1,2)])
  show "if killed (ptable s p) then piperead a addr n s = Inr (- 1, s)
         else \<exists>u. piperead_turn a addr n s = Inr (Blocks 0, u) \<and> lock_free (PipeLock a) u \<and> pipes u = pipes s
           \<and> pstate (ptable u p) = SLEEPING \<and> chan (ptable u p) = ChanPipeRead a"
    by (auto simp: piperead_def turn body so lock_free_def)
qed


theorem piperead_fifo_witness:
  "\<exists>u. piperead_turn 0x80500000 0 3 demo_user = Inr (Blocks 0, u) \<and> pstate (ptable u 3) = SLEEPING"
proof -
  have P: "pipe_ok (pipes demo_user 0x80500000)" "pipe_list (pipes demo_user 0x80500000) = []"
    "p_writeopen (pipes demo_user 0x80500000)" "\<not> killed (ptable demo_user 3)"
    by (simp_all add: demo_user_def demo_kern_def demo_proc_def pipe_ok_def pipe_list_def ring_list_def)
  from piperead_fifo [where s = demo_user and a = "0x80500000" and p = 3 and n = 3 and addr = 0, OF demo_user_steady(1,2,2,3) P(1)]
  show ?thesis using P by auto
qed

end
