(* ===== verification/BioInv.thy ===== *)
theory BioInv
  imports Bio Calm
begin

text \<open>
  The buffer cache keeps its promises: the list of buffers stays a doubly linked ring through all
  buffers, a block has at most one buffer, and reading, writing and releasing buffers implement an
  array of blocks.
\<close>

section \<open>The list of buffers\<close>

text \<open>
  \<open>xs\<close> is the order of the buffers. Following a pointer function \<open>f\<close> from the head visits the
  buffers in that order and comes back to the head.
\<close>

definition ring :: "(nat \<Rightarrow> nat) \<Rightarrow> nat \<Rightarrow> nat list \<Rightarrow> bool" where
  "ring f h xs \<longleftrightarrow> map f (h # xs) = xs @ [h]"

lemma ring_unlink:
  assumes r: "ring f h (ys @ x # zs)" and d: "distinct (h # ys @ x # zs)"
  shows "f x = hd (zs @ [h])" "ring (f(last (h # ys) := f x)) h (ys @ zs)"
proof -
  obtain us p where us: "h # ys = us @ [p]" by (metis rev_exhaust list.distinct(1))
  then have p: "last (h # ys) = p" by (metis last_snoc)
  have e: "map f (h # ys) @ map f (x # zs) = (ys @ [x]) @ zs @ [h]" using r by (simp add: ring_def)
  moreover have "length (map f (h # ys)) = length (ys @ [x])" by simp
  ultimately have 1: "map f (h # ys) = ys @ [x]" and 2: "map f (x # zs) = zs @ [h]"
    using append_eq_append_conv by blast+
  have 3: "map f us = ys" using 1 unfolding us by simp
  have 4: "f x # map f zs = zs @ [h]" using 2 by simp
  then show "f x = hd (zs @ [h])" by (cases zs) auto
  have "distinct ((us @ [p]) @ x # zs)" using d us by (metis append_Cons)
  then have "p \<notin> set us" "p \<notin> set zs" by auto
  then have "map (f(p := f x)) ((us @ [p]) @ zs) = ys @ f x # map f zs" using 3 by simp
  then show "ring (f(last (h # ys) := f x)) h (ys @ zs)"
    unfolding p ring_def us [symmetric] using 4 by simp
qed

lemma ring_push:
  assumes "ring f h ws" "x \<notin> set ws" "x \<noteq> h" "h \<notin> set ws"
  shows "ring (f(x := f h, h := x)) h (x # ws)"
  using assms by (simp add: ring_def map_eq_Cons_conv)

lemma ring_push_back:
  assumes "ring g h (rev ws)" "x \<notin> set ws" "x \<noteq> h" "distinct (h # ws)"
  shows "ring (g(x := h, hd (ws @ [h]) := x)) h (rev (x # ws))"
proof (cases ws)
  case Nil
  then show ?thesis using assms by (simp add: ring_def)
next
  case (Cons y vs)
  have e: "map g (h # rev vs) @ [g y] = (rev vs @ [y]) @ [h]" using assms(1) Cons by (simp add: ring_def)
  then have 1: "map g (h # rev vs) = rev vs @ [y]" "g y = h" by (simp_all only: append1_eq_conv)
  have "map (g(x := h, y := x)) (h # rev vs) = map g (h # rev vs)" using assms Cons by auto
  then show ?thesis using 1 assms Cons by (simp add: ring_def)
qed

lemma scan_ring:
  "map (\<lambda>b. nxt (B b)) (a # xs) = xs @ [NBUF] \<Longrightarrow> NBUF \<notin> set xs \<Longrightarrow> length xs \<le> k \<Longrightarrow>
   scan_list k nxt P B (nxt (B a)) = Inr (find (\<lambda>b. P (B b)) xs)"
proof (induction xs arbitrary: a k)
  case Nil
  then show ?case by (cases k) simp_all
next
  case (Cons x xs)
  then obtain j where k: "k = Suc j" by (cases k) simp_all
  have "nxt (B a) = x" "x \<noteq> NBUF" "map (\<lambda>b. nxt (B b)) (x # xs) = xs @ [NBUF]" using Cons.prems(1,2) by auto
  then show ?case using Cons.IH [of x j] Cons.prems(2,3) k by auto
qed

definition dll :: "(nat \<Rightarrow> buf) \<Rightarrow> nat list \<Rightarrow> bool" where
  "dll B xs \<longleftrightarrow> ring (\<lambda>i. b_next (B i)) NBUF xs \<and> ring (\<lambda>i. b_prev (B i)) NBUF (rev xs)
     \<and> distinct xs \<and> set xs = {0..<NBUF}"


lemma dll_scan:
  assumes "dll B xs"
  shows "scan_list NBUF b_next P B (b_next (B NBUF)) = Inr (find (\<lambda>b. P (B b)) xs)"
    "scan_list NBUF b_prev P B (b_prev (B NBUF)) = Inr (find (\<lambda>b. P (B b)) (rev xs))"
proof -
  have x: "distinct xs" "set xs = {0..<NBUF}" using assms by (simp_all add: dll_def)
  have len: "length xs \<le> NBUF" "NBUF \<notin> set xs" using x distinct_card [of xs] by simp_all
  show "scan_list NBUF b_next P B (b_next (B NBUF)) = Inr (find (\<lambda>b. P (B b)) xs)"
    using assms len by (intro scan_ring) (simp_all add: dll_def ring_def)
  show "scan_list NBUF b_prev P B (b_prev (B NBUF)) = Inr (find (\<lambda>b. P (B b)) (rev xs))"
    using assms len by (intro scan_ring) (simp_all add: dll_def ring_def)
qed

lemma dll_cong:
  assumes "\<And>i. b_next (C i) = b_next (B i)" "\<And>i. b_prev (C i) = b_prev (B i)"
  shows "dll C xs = dll B xs"
  by (simp add: dll_def assms)

text \<open>The two pointer assignments, on the array of buffers.\<close>

definition link_next :: "nat \<Rightarrow> nat \<Rightarrow> (nat \<Rightarrow> buf) \<Rightarrow> nat \<Rightarrow> buf" where
  "link_next b c B = B(b := (B b)\<lparr>b_next := c\<rparr>)"

definition link_prev :: "nat \<Rightarrow> nat \<Rightarrow> (nat \<Rightarrow> buf) \<Rightarrow> nat \<Rightarrow> buf" where
  "link_prev b c B = B(b := (B b)\<lparr>b_prev := c\<rparr>)"

lemma set_next_bufs: "set_next b c s = s\<lparr>bufs := link_next b c (bufs s)\<rparr>"
  "set_prev b c s = s\<lparr>bufs := link_prev b c (bufs s)\<rparr>"
  by (simp_all add: set_next_def set_prev_def upd_buf_def link_next_def link_prev_def)

lemma link_fun:
  "(\<lambda>i. b_next (link_next j v B i)) = (\<lambda>i. b_next (B i))(j := v)" "(\<lambda>i. b_next (link_prev j v B i)) = (\<lambda>i. b_next (B i))"
  "(\<lambda>i. b_prev (link_prev j v B i)) = (\<lambda>i. b_prev (B i))(j := v)" "(\<lambda>i. b_prev (link_next j v B i)) = (\<lambda>i. b_prev (B i))"
  by (auto simp: link_next_def link_prev_def)

lemma link_app:
  "b_next (link_next j v B i) = (if i = j then v else b_next (B i))" "b_next (link_prev j v B i) = b_next (B i)"
  "b_prev (link_prev j v B i) = (if i = j then v else b_prev (B i))" "b_prev (link_next j v B i) = b_prev (B i)"
  by (auto simp: link_next_def link_prev_def)

text \<open>Inserting a buffer behind the head, and moving it there as \<^verbatim>\<open>brelse\<close> does.\<close>

definition front_in :: "nat \<Rightarrow> (nat \<Rightarrow> buf) \<Rightarrow> nat \<Rightarrow> buf" where
  "front_in b B =
     (let B = link_next b (b_next (B NBUF)) B;
          B = link_prev b NBUF B;
          B = link_prev (b_next (B NBUF)) b B
      in link_next NBUF b B)"

definition to_front :: "nat \<Rightarrow> (nat \<Rightarrow> buf) \<Rightarrow> nat \<Rightarrow> buf" where
  "to_front b B =
     (let B = link_prev (b_next (B b)) (b_prev (B b)) B;
          B = link_next (b_prev (B b)) (b_next (B b)) B
      in front_in b B)"

lemma push_front_bufs: "push_front b s = s\<lparr>bufs := front_in b (bufs s)\<rparr>"
  by (simp add: push_front_def front_in_def set_next_bufs Let_def)

lemma front_in_links:
  assumes "b \<noteq> NBUF"
  shows "(\<lambda>i. b_next (front_in b B i)) = (\<lambda>i. b_next (B i))(b := b_next (B NBUF), NBUF := b)"
    "(\<lambda>i. b_prev (front_in b B i)) = (\<lambda>i. b_prev (B i))(b := NBUF, b_next (B NBUF) := b)"
  unfolding front_in_def Let_def link_fun using assms by (simp_all add: link_app)

lemma to_front_links:
  fixes B b
  defines "f1 \<equiv> (\<lambda>i. b_next (B i))(b_prev (B b) := b_next (B b))"
  assumes "b \<noteq> NBUF" "b \<noteq> b_next (B b)"
  shows "(\<lambda>i. b_next (to_front b B i)) = f1(b := f1 NBUF, NBUF := b)"
    "(\<lambda>i. b_prev (to_front b B i)) = (\<lambda>i. b_prev (B i))(b_next (B b) := b_prev (B b), b := NBUF, f1 NBUF := b)"
proof -
  define C where "C = link_next (b_prev (B b)) (b_next (B b)) (link_prev (b_next (B b)) (b_prev (B b)) B)"
  have tf: "to_front b B = front_in b C"
    using assms(3) by (simp add: to_front_def Let_def C_def link_app)
  have f: "(\<lambda>i. b_next (C i)) = f1" unfolding C_def link_fun f1_def ..
  have g: "(\<lambda>i. b_prev (C i)) = (\<lambda>i. b_prev (B i))(b_next (B b) := b_prev (B b))" unfolding C_def link_fun ..
  have h: "b_next (C NBUF) = f1 NBUF" unfolding f [symmetric] ..
  show "(\<lambda>i. b_next (to_front b B i)) = f1(b := f1 NBUF, NBUF := b)"
    unfolding tf front_in_links [OF assms(2)] f h ..
  show "(\<lambda>i. b_prev (to_front b B i)) = (\<lambda>i. b_prev (B i))(b_next (B b) := b_prev (B b), b := NBUF, f1 NBUF := b)"
    unfolding tf front_in_links [OF assms(2)] g h ..
qed

lemma dll_to_front:
  assumes "dll B xs" "b \<in> set xs"
  shows "\<exists>ys. dll (to_front b B) ys"
proof -
  let ?f = "\<lambda>i. b_next (B i)" let ?g = "\<lambda>i. b_prev (B i)"
  obtain ys zs where xs: "xs = ys @ b # zs" using assms(2) by (meson split_list)
  have r: "ring ?f NBUF (ys @ b # zs)" "ring ?g NBUF (rev zs @ b # rev ys)" "distinct (ys @ b # zs)"
    "set (ys @ b # zs) = {0..<NBUF}"
    using assms(1) xs by (simp_all add: dll_def)
  then have h: "NBUF \<notin> set (ys @ b # zs)" by simp
  have d: "distinct (NBUF # ys @ b # zs)" "distinct (NBUF # rev zs @ b # rev ys)" using r(3) h by auto
  let ?n = "?f b" let ?p = "?g b"
  have n: "?n = hd (zs @ [NBUF])" and p: "?p = hd (rev ys @ [NBUF])"
    using ring_unlink(1) [OF r(1) d(1)] ring_unlink(1) [OF r(2) d(2)] by simp_all
  have lp: "last (NBUF # ys) = ?p" "last (NBUF # rev zs) = ?n"
    unfolding n p by (cases ys rule: rev_cases, simp_all) (cases zs, simp_all)
  let ?f1 = "?f(?p := ?n)" let ?g1 = "?g(?n := ?p)"
  have u: "ring ?f1 NBUF (ys @ zs)" "ring ?g1 NBUF (rev (ys @ zs))"
    using ring_unlink(2) [OF r(1) d(1)] ring_unlink(2) [OF r(2) d(2)] unfolding lp by simp_all
  let ?h = "?f1 NBUF"
  have hh: "?h = hd ((ys @ zs) @ [NBUF])" using u(1) by (cases "ys @ zs") (auto simp: ring_def)
  have np: "b \<noteq> ?n" "b \<noteq> ?p" "b \<noteq> NBUF" "b \<notin> set (ys @ zs)" "b \<noteq> ?h"
  proof -
    show "b \<noteq> NBUF" "b \<notin> set (ys @ zs)" using r(3) h by auto
    show "b \<noteq> ?n" unfolding n using r(3) h by (cases zs) auto
    show "b \<noteq> ?p" unfolding p using r(3) h by (cases ys rule: rev_cases) auto
    show "b \<noteq> ?h" unfolding hh using r(3) h by (cases ys; cases zs) auto
  qed
  have F: "(\<lambda>i. b_next (to_front b B i)) = ?f1(b := ?h, NBUF := b)"
    by (rule to_front_links) (use np(1,3) in auto)
  have G: "(\<lambda>i. b_prev (to_front b B i)) = ?g1(b := NBUF, ?h := b)"
    by (rule to_front_links) (use np(1,3) in auto)
  have dz: "distinct (NBUF # ys @ zs)" using d(1) by auto
  have "ring (?f1(b := ?h, NBUF := b)) NBUF (b # ys @ zs)"
    using u(1) np(3,4) dz by (intro ring_push) auto
  moreover have "ring (?g1(b := NBUF, ?h := b)) NBUF (rev (b # ys @ zs))"
    unfolding hh using u(2) np(3,4) dz by (intro ring_push_back) auto
  moreover have "distinct (b # ys @ zs)" "set (b # ys @ zs) = {0..<NBUF}" using r(3,4) by auto
  ultimately show ?thesis unfolding dll_def F G by blast
qed


text \<open>What a buffer holds, links apart.\<close>

definition bview :: "buf \<Rightarrow> (u32 \<times> u32) \<times> (bool \<times> bool) \<times> u32 \<times> u8 list" where
  "bview x = ((b_dev x, b_blockno x), (b_valid x, b_dirty x), b_refcnt x, b_data x)"

lemma bview_links: "bview (link_next j v B i) = bview (B i)" "bview (link_prev j v B i) = bview (B i)"
  by (simp_all add: bview_def link_next_def link_prev_def)

lemma bview_front_in: "bview (front_in b B i) = bview (B i)"
  by (simp only: front_in_def Let_def bview_links)

lemma bview_to_front: "bview (to_front b B i) = bview (B i)"
  by (simp only: to_front_def Let_def bview_links bview_front_in)

lemma bviewD:
  assumes "bview x = bview y"
  shows "b_dev x = b_dev y" "b_blockno x = b_blockno y" "b_valid x = b_valid y" "b_dirty x = b_dirty y"
    "b_refcnt x = b_refcnt y" "b_data x = b_data y"
  using assms by (simp_all add: bview_def)

lemmas to_front_fields [simp] = bviewD [OF bview_to_front]

section \<open>The invariant\<close>

text \<open>
  \<open>H\<close> are the buffers the running process \<open>p\<close> holds. Every other buffer is unlocked and
  unreferenced, and if it is valid and not dirty it agrees with the disk.
\<close>

definition bio_locks :: "nat \<Rightarrow> nat set \<Rightarrow> 'a kern_scheme \<Rightarrow> bool" where
  "bio_locks p H s \<longleftrightarrow> H \<subseteq> {0..<NBUF} \<and> (\<forall>i < NBUF. b_refcnt (bufs s i) = (if i \<in> H then 1 else 0)
     \<and> sleeplocks s (BufLk i) = \<lparr>sl_locked = i \<in> H, sl_pid = if i \<in> H then pid (ptable s p) else 0\<rparr>)"

definition bio_blocks :: "nat set \<Rightarrow> 'a kern_scheme \<Rightarrow> bool" where
  "bio_blocks H s \<longleftrightarrow>
     (\<forall>i < NBUF. b_valid (bufs s i) = (b_dev (bufs s i) = 1) \<and> (b_dirty (bufs s i) \<longrightarrow> b_valid (bufs s i)))
     \<and> (\<forall>i < NBUF. b_valid (bufs s i) \<longrightarrow> b_blockno (bufs s i) < disksize s \<and> length (b_data (bufs s i)) = BSIZE)
     \<and> (\<forall>i \<in> H. b_valid (bufs s i))
     \<and> (\<forall>i < NBUF. \<forall>j < NBUF. b_valid (bufs s i) \<and> b_valid (bufs s j) \<and> b_blockno (bufs s i) = b_blockno (bufs s j)
         \<longrightarrow> i = j)
     \<and> (\<forall>i < NBUF. i \<notin> H \<and> b_valid (bufs s i) \<and> \<not> b_dirty (bufs s i)
         \<longrightarrow> b_data (bufs s i) = disk s (unat (b_blockno (bufs s i))))
     \<and> (\<forall>b < unat (disksize s). length (disk s b) = BSIZE)"

definition bio_ok :: "nat \<Rightarrow> nat set \<Rightarrow> 'a kern_scheme \<Rightarrow> bool" where
  "bio_ok p H s \<longleftrightarrow> (\<exists>xs. dll (bufs s) xs) \<and> bio_locks p H s \<and> bio_blocks H s"

text \<open>The array of blocks that the cache and the disk stand for, and the blocks not yet on disk.\<close>

definition buf_of :: "'a kern_scheme \<Rightarrow> nat \<Rightarrow> nat option" where
  "buf_of s b = find (\<lambda>i. b_valid (bufs s i) \<and> unat (b_blockno (bufs s i)) = b) [0..<NBUF]"

definition blk :: "'a kern_scheme \<Rightarrow> nat \<Rightarrow> u8 list" where
  "blk s b = (case buf_of s b of Some i \<Rightarrow> b_data (bufs s i) | None \<Rightarrow> disk s b)"

definition dirty :: "'a kern_scheme \<Rightarrow> nat \<Rightarrow> bool" where
  "dirty s b \<longleftrightarrow> (\<exists>i < NBUF. b_dirty (bufs s i) \<and> unat (b_blockno (bufs s i)) = b)"

lemma bio_blocksD:
  assumes "bio_blocks H s"
  shows "i < NBUF \<Longrightarrow> b_valid (bufs s i) = (b_dev (bufs s i) = 1)"
    and "i < NBUF \<Longrightarrow> b_dirty (bufs s i) \<Longrightarrow> b_valid (bufs s i)"
    and "i < NBUF \<Longrightarrow> b_valid (bufs s i) \<Longrightarrow> b_blockno (bufs s i) < disksize s"
    and "i < NBUF \<Longrightarrow> b_valid (bufs s i) \<Longrightarrow> length (b_data (bufs s i)) = BSIZE"
    and "i \<in> H \<Longrightarrow> b_valid (bufs s i)"
    and "i < NBUF \<Longrightarrow> j < NBUF \<Longrightarrow> b_valid (bufs s i) \<Longrightarrow> b_valid (bufs s j) \<Longrightarrow>
      b_blockno (bufs s i) = b_blockno (bufs s j) \<Longrightarrow> i = j"
    and "i < NBUF \<Longrightarrow> i \<notin> H \<Longrightarrow> b_valid (bufs s i) \<Longrightarrow> \<not> b_dirty (bufs s i) \<Longrightarrow>
      b_data (bufs s i) = disk s (unat (b_blockno (bufs s i)))"
    and "b < unat (disksize s) \<Longrightarrow> length (disk s b) = BSIZE"
  using assms unfolding bio_blocks_def by blast+

lemma buf_of_iff:
  assumes uni: "\<And>j. j < NBUF \<Longrightarrow> b_valid (bufs s j) \<Longrightarrow> b_blockno (bufs s j) = b_blockno (bufs s i) \<Longrightarrow> j = i"
  shows "buf_of s b = Some i \<longleftrightarrow> i < NBUF \<and> b_valid (bufs s i) \<and> unat (b_blockno (bufs s i)) = b"
proof
  assume "buf_of s b = Some i"
  then show "i < NBUF \<and> b_valid (bufs s i) \<and> unat (b_blockno (bufs s i)) = b"
    unfolding buf_of_def using find_index_Some(1,2) by blast
next
  assume i: "i < NBUF \<and> b_valid (bufs s i) \<and> unat (b_blockno (bufs s i)) = b"
  show "buf_of s b = Some i"
  proof (cases "buf_of s b")
    case None
    then show ?thesis using i by (auto simp: buf_of_def find_index_None simp del: upt_rec_numeral)
  next
    case (Some j)
    then have j: "j < NBUF" "b_valid (bufs s j)" "unat (b_blockno (bufs s j)) = b"
      unfolding buf_of_def using find_index_Some(1,2) by blast+
    then have "b_blockno (bufs s j) = b_blockno (bufs s i)" using i by (simp add: word_unat_eq_iff)
    then show ?thesis using uni j Some by blast
  qed
qed

lemma buf_of_Some:
  assumes "bio_blocks H s"
  shows "buf_of s b = Some i \<longleftrightarrow> i < NBUF \<and> b_valid (bufs s i) \<and> unat (b_blockno (bufs s i)) = b"
proof (cases "i < NBUF \<and> b_valid (bufs s i)")
  case True
  then show ?thesis using bio_blocksD(6) [OF assms] by (intro buf_of_iff) blast
next
  case False
  then show ?thesis unfolding buf_of_def using find_index_Some(1,2) by blast
qed

lemma buf_of_None: "buf_of s b = None \<longleftrightarrow> (\<forall>i < NBUF. b_valid (bufs s i) \<longrightarrow> unat (b_blockno (bufs s i)) \<noteq> b)"
  by (auto simp: buf_of_def find_index_None simp del: upt_rec_numeral)

lemma blk_valid:
  assumes "bio_blocks H s" "i < NBUF" "b_valid (bufs s i)"
  shows "blk s (unat (b_blockno (bufs s i))) = b_data (bufs s i)"
  using assms buf_of_Some [OF assms(1), of "unat (b_blockno (bufs s i))" i] by (simp add: blk_def)

lemma blk_cong:
  assumes "\<And>i. i < NBUF \<Longrightarrow> b_valid (bufs t i) = b_valid (bufs s i)"
    and "\<And>i. i < NBUF \<Longrightarrow> b_valid (bufs s i) \<Longrightarrow> b_blockno (bufs t i) = b_blockno (bufs s i)"
    and "\<And>i. i < NBUF \<Longrightarrow> b_valid (bufs s i) \<Longrightarrow> b_data (bufs t i) = b_data (bufs s i)"
    and "disk t = disk s"
  shows "blk t = blk s"
proof
  fix b
  have "buf_of t b = buf_of s b" unfolding buf_of_def
    by (rule find_cong [OF refl]) (use assms in auto)
  moreover have "i < NBUF" "b_valid (bufs s i)" if "buf_of s b = Some i" for i
    using that find_index_Some(1,2) unfolding buf_of_def by blast+
  ultimately show "blk t b = blk s b" using assms(3,4) by (auto simp: blk_def split: option.splits)
qed


section \<open>Changing one buffer\<close>

text \<open>
  Buffer \<open>i\<close> becomes \<open>x\<close>, a valid buffer for a block that no other buffer has, and is held
  afterwards or not; the disk changes at most at that block.
\<close>

lemma bio_ok_upd:
  assumes ok: "bio_ok p H s" and i: "i < NBUF"
    and t: "bufs t = (bufs s)(i := x)" "sleeplocks t = (sleeplocks s)(BufLk i :=
      \<lparr>sl_locked = h, sl_pid = if h then pid (ptable s p) else 0\<rparr>)" "disksize t = disksize s" "ptable t = ptable s"
    and lnk: "b_next x = b_next (bufs s i)" "b_prev x = b_prev (bufs s i)" "b_refcnt x = (if h then 1 else 0)"
    and x: "b_dev x = 1" "b_valid x" "b_blockno x < disksize s" "length (b_data x) = BSIZE"
    and uni: "\<And>j. j < NBUF \<Longrightarrow> j \<noteq> i \<Longrightarrow> b_valid (bufs s j) \<Longrightarrow> b_blockno (bufs s j) \<noteq> b_blockno x"
    and d: "\<And>b. b \<noteq> unat (b_blockno x) \<Longrightarrow> disk t b = disk s b" "length (disk t (unat (b_blockno x))) = BSIZE"
    and cl: "\<not> h \<Longrightarrow> \<not> b_dirty x \<Longrightarrow> b_data x = disk t (unat (b_blockno x))"
    and H: "H' = (if h then insert i H else H - {i})"
  shows "bio_ok p H' t"
proof -
  have "dll (bufs t) xs = dll (bufs s) xs" for xs by (rule dll_cong) (auto simp: t(1) lnk)
  moreover have lk: "bio_locks p H s" and bl: "bio_blocks H s" using ok by (simp_all add: bio_ok_def)
  have "bio_locks p H' t"
    using lk i unfolding bio_locks_def t H by (auto simp: lnk(3))
  moreover have "bio_blocks H' t"
    unfolding bio_blocks_def
  proof (intro conjI allI impI ballI)
    fix j :: nat assume j: "j < NBUF"
    show "b_valid (bufs t j) = (b_dev (bufs t j) = 1)" using bio_blocksD(1) [OF bl j] x by (simp add: t(1))
    show "b_valid (bufs t j)" if "b_dirty (bufs t j)"
      using bio_blocksD(2) [OF bl j] x that by (simp add: t(1) split: if_splits)
    show "b_blockno (bufs t j) < disksize t" if "b_valid (bufs t j)"
      using bio_blocksD(3) [OF bl j] x that by (simp add: t(1,3) split: if_splits)
    show "length (b_data (bufs t j)) = BSIZE" if "b_valid (bufs t j)"
      using bio_blocksD(4) [OF bl j] x that by (simp add: t(1) split: if_splits)
    show "j = k" if "k < NBUF" "b_valid (bufs t j) \<and> b_valid (bufs t k) \<and> b_blockno (bufs t j) = b_blockno (bufs t k)" for k
      using bio_blocksD(6) [OF bl j that(1)] uni [OF j] uni [OF that(1)] that(2) by (auto simp: t(1) split: if_splits)
    show "b_data (bufs t j) = disk t (unat (b_blockno (bufs t j)))"
      if "j \<notin> H' \<and> b_valid (bufs t j) \<and> \<not> b_dirty (bufs t j)"
    proof (cases "j = i")
      case True
      then show ?thesis using that cl by (auto simp: t(1) H split: if_splits)
    next
      case False
      then have "j \<notin> H" "b_valid (bufs s j)" "\<not> b_dirty (bufs s j)" using that by (auto simp: t(1) H split: if_splits)
      then have "b_data (bufs s j) = disk s (unat (b_blockno (bufs s j)))" "b_blockno (bufs s j) \<noteq> b_blockno x"
        using bio_blocksD(7) [OF bl j] uni [OF j False] by blast+
      then show ?thesis using d(1) False by (simp add: t(1) word_unat_eq_iff)
    qed
  next
    fix j assume "j \<in> H'"
    then show "b_valid (bufs t j)" using bio_blocksD(5) [OF bl] x by (auto simp: t(1) H split: if_splits)
  next
    fix b assume "b < unat (disksize t)"
    then show "length (disk t b) = BSIZE" using bio_blocksD(8) [OF bl, of b] d by (cases "b = unat (b_blockno x)") (simp_all add: t(3))
  qed
  ultimately show ?thesis using ok by (simp add: bio_ok_def)
qed

lemma blk_upd:
  assumes ok: "bio_ok p H s" and i: "i < NBUF"
    and t: "bufs t = (bufs s)(i := x)" and x: "b_valid x"
    and uni: "\<And>j. j < NBUF \<Longrightarrow> j \<noteq> i \<Longrightarrow> b_valid (bufs s j) \<Longrightarrow> b_blockno (bufs s j) \<noteq> b_blockno x"
    and d: "\<And>b. b \<noteq> unat (b_blockno x) \<Longrightarrow> disk t b = disk s b"
    and old: "b_valid (bufs s i) \<Longrightarrow> b_blockno (bufs s i) \<noteq> b_blockno x \<Longrightarrow>
      b_data (bufs s i) = disk s (unat (b_blockno (bufs s i)))"
  shows "blk t = (blk s)(unat (b_blockno x) := b_data x)"
proof
  fix b
  have bl: "bio_blocks H s" using ok by (simp add: bio_ok_def)
  show "blk t b = ((blk s)(unat (b_blockno x) := b_data x)) b"
  proof (cases "b = unat (b_blockno x)")
    case True
    have "buf_of t b = Some i \<longleftrightarrow> i < NBUF \<and> b_valid (bufs t i) \<and> unat (b_blockno (bufs t i)) = b"
      by (rule buf_of_iff) (use uni in \<open>auto simp: t split: if_splits\<close>)
    with True have "buf_of t b = Some i" using i x by (simp add: t)
    then show ?thesis using True by (simp add: blk_def t)
  next
    case False
    show ?thesis
    proof (cases "buf_of t b")
      case (Some j)
      then have j: "j < NBUF" "b_valid (bufs t j)" "unat (b_blockno (bufs t j)) = b"
        unfolding buf_of_def using find_index_Some(1,2) by blast+
      moreover have "j \<noteq> i" using j(3) False by (auto simp: t)
      ultimately have j: "j < NBUF" "b_valid (bufs s j)" "unat (b_blockno (bufs s j)) = b" "j \<noteq> i" by (simp_all add: t)
      then have "blk s b = b_data (bufs s j)" using blk_valid [OF bl, of j] by (simp add: t)
      then show ?thesis using Some j False by (simp add: blk_def t)
    next
      case None
      then have none: "\<forall>j < NBUF. b_valid (bufs t j) \<longrightarrow> unat (b_blockno (bufs t j)) \<noteq> b" by (simp add: buf_of_None)
      have "blk s b = disk s b"
      proof (cases "buf_of s b")
        case (Some j)
        then have j: "j < NBUF" "b_valid (bufs s j)" "unat (b_blockno (bufs s j)) = b" using buf_of_Some [OF bl] by blast+
        then have "j = i" using none by (auto simp: t split: if_splits)
        then have "b_data (bufs s j) = disk s b" using old j False by (metis)
        then show ?thesis using Some by (simp add: blk_def)
      qed (simp add: blk_def)
      then show ?thesis using None False d by (simp add: blk_def)
    qed
  qed
qed

lemma bio_ok_to_front:
  assumes "bio_ok p H s" "i < NBUF"
  shows "bio_ok p H (s\<lparr>bufs := to_front i (bufs s)\<rparr>)" "blk (s\<lparr>bufs := to_front i (bufs s)\<rparr>) = blk s"
    "dirty (s\<lparr>bufs := to_front i (bufs s)\<rparr>) = dirty s"
proof -
  obtain xs where "dll (bufs s) xs" "i \<in> set xs" using assms by (auto simp: bio_ok_def dll_def)
  then obtain ys where "dll (to_front i (bufs s)) ys" using dll_to_front by blast
  moreover have "bio_locks p H (s\<lparr>bufs := to_front i (bufs s)\<rparr>) = bio_locks p H s" by (simp add: bio_locks_def)
  moreover have "bio_blocks H (s\<lparr>bufs := to_front i (bufs s)\<rparr>) = bio_blocks H s" by (simp add: bio_blocks_def)
  ultimately show "bio_ok p H (s\<lparr>bufs := to_front i (bufs s)\<rparr>)" using assms by (auto simp: bio_ok_def)
  show "blk (s\<lparr>bufs := to_front i (bufs s)\<rparr>) = blk s" by (rule blk_cong) simp_all
  show "dirty (s\<lparr>bufs := to_front i (bufs s)\<rparr>) = dirty s" by (simp add: dirty_def fun_eq_iff)
qed


section \<open>Reading\<close>

lemma find_in: "find P xs = Some j \<Longrightarrow> j \<in> set xs \<and> P j"
  by (auto simp: find_Some_iff)

lemma find_unique:
  assumes "i \<in> set xs" "P i" "\<forall>j \<in> set xs. P j \<longrightarrow> j = i"
  shows "find P xs = Some i"
proof (cases "find P xs")
  case None
  then show ?thesis using assms(1,2) by (simp add: find_None_iff)
next
  case (Some j)
  then show ?thesis using find_in [OF Some] assms(3) by simp
qed

lemma find_exists:
  assumes "i \<in> set xs" "P i"
  shows "\<exists>j \<in> set xs. P j \<and> find P xs = Some j"
proof (cases "find P xs")
  case None
  then show ?thesis using assms by (simp add: find_None_iff)
next
  case (Some j)
  then show ?thesis using find_in [OF Some] by blast
qed

abbreviation hold_lock :: "nat \<Rightarrow> nat \<Rightarrow> 'a kern_scheme \<Rightarrow> 'a kern_scheme" where
  "hold_lock p i s \<equiv> set_sleeplock (BufLk i) True (pid (ptable s p)) s"

lemma bget_cached:
  assumes calm: "calm p s" and ok: "bio_ok p H s"
    and i: "i < NBUF" "i \<notin> H" "b_valid (bufs s i)"
  shows "bget 1 (b_blockno (bufs s i)) s = Inr (i, hold_lock p i (upd_buf i (\<lambda>x. x\<lparr>b_refcnt := 1\<rparr>) s))"
proof -
  note st = calmD(1) [OF calm] and fr = calmD(2) [OF calm]
  obtain xs where xs: "dll (bufs s) xs" using ok by (auto simp: bio_ok_def)
  have bl: "bio_blocks H s" and lk: "bio_locks p H s" using ok by (simp_all add: bio_ok_def)
  have set: "set xs = {0..<NBUF}" using xs by (simp add: dll_def)
  have f: "find (\<lambda>j. b_dev (bufs s j) = 1 \<and> b_blockno (bufs s j) = b_blockno (bufs s i)) xs = Some i"
    using i bio_blocksD(1,6) [OF bl] set by (intro find_unique) auto
  have r0: "b_refcnt (bufs s i) = 0" and sl: "sleeplocks s (BufLk i) = \<lparr>sl_locked = False, sl_pid = 0\<rparr>"
    using lk i by (simp_all add: bio_locks_def)
  let ?s = "s\<lparr>bufs := (bufs s)(i := (bufs s i)\<lparr>b_refcnt := 1\<rparr>)\<rparr>"
  have a: "acquiresleep (BufLk i) ?s = Inr (hold_lock p i ?s)"
    using acquiresleep_free [of p ?s "BufLk i"] st fr sl by simp
  show ?thesis
    by (simp add: bget_def acquire_steady [OF st fr] dll_scan(1) [OF xs] f upd_buf_def release_upd [OF st fr] a r0)
qed

lemma bget_fresh:
  assumes calm: "calm p s" and ok: "bio_ok p H s"
    and none: "\<forall>j < NBUF. b_valid (bufs s j) \<longrightarrow> b_blockno (bufs s j) \<noteq> b"
    and room: "k < NBUF" "k \<notin> H" "\<not> b_dirty (bufs s k)"
  shows "\<exists>i < NBUF. i \<notin> H \<and> \<not> b_dirty (bufs s i) \<and> bget 1 b s = Inr (i, hold_lock p i
    (upd_buf i (\<lambda>x. x\<lparr>b_dev := 1, b_blockno := b, b_valid := False, b_dirty := False, b_refcnt := 1\<rparr>) s))"
proof -
  note st = calmD(1) [OF calm] and fr = calmD(2) [OF calm]
  obtain xs where xs: "dll (bufs s) xs" using ok by (auto simp: bio_ok_def)
  have bl: "bio_blocks H s" and lk: "bio_locks p H s" using ok by (simp_all add: bio_ok_def)
  have set: "set xs = {0..<NBUF}" using xs by (simp add: dll_def)
  have f: "find (\<lambda>j. b_dev (bufs s j) = 1 \<and> b_blockno (bufs s j) = b) xs = None"
    using none bio_blocksD(1) [OF bl] set by (auto simp: find_None_iff)
  have rc: "b_refcnt (bufs s j) = 0 \<longleftrightarrow> j \<notin> H" if "j < NBUF" for j using lk that by (simp add: bio_locks_def)
  have "\<exists>i \<in> set (rev xs). (b_refcnt (bufs s i) = 0 \<and> \<not> b_dirty (bufs s i))
      \<and> find (\<lambda>j. b_refcnt (bufs s j) = 0 \<and> \<not> b_dirty (bufs s j)) (rev xs) = Some i"
    by (rule find_exists [of k]) (use room rc set in auto)
  then obtain i where i: "i < NBUF" "i \<notin> H" "\<not> b_dirty (bufs s i)"
    and g: "find (\<lambda>j. b_refcnt (bufs s j) = 0 \<and> \<not> b_dirty (bufs s j)) (rev xs) = Some i"
    using set rc by auto
  have sl: "sleeplocks s (BufLk i) = \<lparr>sl_locked = False, sl_pid = 0\<rparr>" using lk i by (simp add: bio_locks_def)
  let ?s = "s\<lparr>bufs := (bufs s)(i := (bufs s i)\<lparr>b_dev := 1, b_blockno := b, b_valid := False, b_dirty := False,
    b_refcnt := 1\<rparr>)\<rparr>"
  have a: "acquiresleep (BufLk i) ?s = Inr (hold_lock p i ?s)"
    using acquiresleep_free [of p ?s "BufLk i"] st fr sl by simp
  have "bget 1 b s = Inr (i, hold_lock p i ?s)"
    by (simp add: bget_def acquire_steady [OF st fr] dll_scan [OF xs] f g upd_buf_def release_upd [OF st fr] a)
  then show ?thesis using i by (auto simp: upd_buf_def)
qed

text \<open>The sleep locks of the inodes, which the buffer cache does not touch.\<close>

definition inode_locks :: "'a kern_scheme \<Rightarrow> nat \<Rightarrow> sleeplock" where
  "inode_locks s k = sleeplocks s (InodeLk k)"

lemma inode_locks_upd [simp]:
  "inode_locks (s\<lparr>bufs := x1\<rparr>) = inode_locks s" "inode_locks (s\<lparr>klog := x2\<rparr>) = inode_locks s"
  "inode_locks (s\<lparr>icache := x3\<rparr>) = inode_locks s"
  by (simp_all add: fun_eq_iff inode_locks_def)

text \<open>What a process may rely on after reading block \<open>b\<close> into buffer \<open>i\<close>.\<close>

definition read_into :: "nat \<Rightarrow> nat set \<Rightarrow> u32 \<Rightarrow> 'a kern_scheme \<Rightarrow> nat \<Rightarrow> 'a kern_scheme \<Rightarrow> bool" where
  "read_into p H b s i t \<longleftrightarrow> i < NBUF \<and> i \<notin> H \<and> bio_ok p (insert i H) t
     \<and> t = s\<lparr>bufs := bufs t, sleeplocks := sleeplocks t\<rparr>
     \<and> b_blockno (bufs t i) = b \<and> b_data (bufs t i) = blk s (unat b) \<and> b_dirty (bufs t i) = dirty s (unat b)
     \<and> blk t = blk s \<and> dirty t = dirty s \<and> (\<forall>j \<in> H. bufs t j = bufs s j) \<and> inode_locks t = inode_locks s"

lemma bread_cached:
  assumes calm: "calm p s" and ok: "bio_ok p H s"
    and i: "i < NBUF" "i \<notin> H" "b_valid (bufs s i)"
  shows "\<exists>t. bread 1 (b_blockno (bufs s i)) s = Inr (i, t) \<and> read_into p H (b_blockno (bufs s i)) s i t"
proof -
  let ?t = "hold_lock p i (upd_buf i (\<lambda>x. x\<lparr>b_refcnt := 1\<rparr>) s)"
  have bl: "bio_blocks H s" using ok by (simp add: bio_ok_def)
  have t: "bufs ?t = (bufs s)(i := (bufs s i)\<lparr>b_refcnt := 1\<rparr>)" by (simp add: set_sleeplock_def upd_buf_def)
  have rd: "bread 1 (b_blockno (bufs s i)) s = Inr (i, ?t)"
    using i(3) by (simp add: bread_def bget_cached [OF calm ok i] t)
  have "bio_ok p (insert i H) ?t"
    by (rule bio_ok_upd [OF ok i(1) t, where h = True])
      (use i bio_blocksD(1,3,4,6,8) [OF bl] in \<open>auto simp: set_sleeplock_def upd_buf_def word_less_nat_alt\<close>)
  moreover have "blk ?t = blk s" by (rule blk_cong) (auto simp: set_sleeplock_def upd_buf_def)
  moreover have "dirty ?t = dirty s" by (auto simp: dirty_def fun_eq_iff set_sleeplock_def upd_buf_def)
  moreover have "b_dirty (bufs s i) = dirty s (unat (b_blockno (bufs s i)))"
    using i bio_blocksD(2,6) [OF bl] by (auto simp: dirty_def word_unat_eq_iff)
  ultimately have "read_into p H (b_blockno (bufs s i)) s i ?t"
    using i blk_valid [OF bl i(1,3)] by (auto simp: read_into_def set_sleeplock_def upd_buf_def inode_locks_def fun_eq_iff)
  with rd show ?thesis by blast
qed


lemma iderw_read:
  assumes calm: "calm p s" and lk: "sleeplocks s (BufLk i) = \<lparr>sl_locked = True, sl_pid = pid (ptable s p)\<rparr>"
    and b: "\<not> b_valid (bufs s i)" "\<not> b_dirty (bufs s i)" "b_dev (bufs s i) = 1" "b_blockno (bufs s i) < disksize s"
  shows "iderw i s = Inr (upd_buf i (\<lambda>x. x\<lparr>b_data := disk s (unat (b_blockno x)), b_valid := True\<rparr>) s)"
proof -
  have h: "holdingsleep (BufLk i) s = Inr (True, s)" using holdingsleep_eq [OF calmD(1,2) [OF calm]] lk by simp
  show ?thesis using b by (simp add: iderw_def h upd_buf_def)
qed

lemma bread_fresh:
  assumes calm: "calm p s" and ok: "bio_ok p H s" and b: "b < disksize s"
    and none: "\<forall>j < NBUF. b_valid (bufs s j) \<longrightarrow> b_blockno (bufs s j) \<noteq> b"
    and room: "k < NBUF" "k \<notin> H" "\<not> b_dirty (bufs s k)"
  shows "\<exists>i t. bread 1 b s = Inr (i, t) \<and> read_into p H b s i t"
proof -
  have bl: "bio_blocks H s" using ok by (simp add: bio_ok_def)
  from bget_fresh [OF calm ok none room] obtain i where i: "i < NBUF" "i \<notin> H" "\<not> b_dirty (bufs s i)"
    and g: "bget 1 b s = Inr (i, hold_lock p i (upd_buf i
      (\<lambda>x. x\<lparr>b_dev := 1, b_blockno := b, b_valid := False, b_dirty := False, b_refcnt := 1\<rparr>) s))" by blast
  let ?u = "hold_lock p i (upd_buf i
      (\<lambda>x. x\<lparr>b_dev := 1, b_blockno := b, b_valid := False, b_dirty := False, b_refcnt := 1\<rparr>) s)"
  let ?x = "(bufs s i)\<lparr>b_dev := 1, b_blockno := b, b_dirty := False, b_refcnt := 1,
      b_data := disk s (unat b), b_valid := True\<rparr>"
  let ?t = "(hold_lock p i s)\<lparr>bufs := (bufs s)(i := ?x)\<rparr>"
  have "iderw i ?u = Inr (upd_buf i (\<lambda>x. x\<lparr>b_data := disk ?u (unat (b_blockno x)), b_valid := True\<rparr>) ?u)"
    by (rule iderw_read [of p]) (use calm b in \<open>simp_all add: set_sleeplock_def upd_buf_def\<close>)
  also have "upd_buf i (\<lambda>x. x\<lparr>b_data := disk ?u (unat (b_blockno x)), b_valid := True\<rparr>) ?u = ?t"
    by (simp add: set_sleeplock_def upd_buf_def)
  finally have rd: "bread 1 b s = Inr (i, ?t)"
    by (simp add: bread_def g) (simp add: set_sleeplock_def upd_buf_def)
  have t: "bufs ?t = (bufs s)(i := ?x)" by (simp add: set_sleeplock_def)
  have "bio_ok p (insert i H) ?t"
    by (rule bio_ok_upd [OF ok i(1) t, where h = True])
      (use b none bio_blocksD(8) [OF bl] in \<open>auto simp: set_sleeplock_def word_less_nat_alt\<close>)
  moreover have "blk s (unat b) = disk s (unat b)"
    using none by (auto simp: blk_def buf_of_None word_unat_eq_iff split: option.splits dest!: buf_of_Some [OF bl, THEN iffD1])
  then have "blk ?t = blk s"
    using blk_upd [OF ok i(1) t] none bio_blocksD(7) [OF bl i(1,2)] i(3) by (simp add: set_sleeplock_def fun_upd_idem)
  moreover have "dirty ?t = dirty s" using i by (auto simp: dirty_def fun_eq_iff set_sleeplock_def)
  moreover have "\<not> dirty s (unat b)" using none bio_blocksD(2) [OF bl] by (auto simp: dirty_def word_unat_eq_iff)
  ultimately have "read_into p H b s i ?t"
    using i \<open>blk s (unat b) = disk s (unat b)\<close> by (auto simp: read_into_def set_sleeplock_def inode_locks_def fun_eq_iff)
  with rd show ?thesis by blast
qed

text \<open>Reading a block that is not held: there must be a buffer for it, or one that can be recycled.\<close>

lemma bread_ok:
  assumes "calm p s" "bio_ok p H s" "b < disksize s" "\<forall>i \<in> H. b_blockno (bufs s i) \<noteq> b"
    and "(\<exists>i < NBUF. b_valid (bufs s i) \<and> b_blockno (bufs s i) = b) \<or> (\<exists>k < NBUF. k \<notin> H \<and> \<not> b_dirty (bufs s k))"
  shows "\<exists>i t. bread 1 b s = Inr (i, t) \<and> read_into p H b s i t"
proof (cases "\<exists>i < NBUF. b_valid (bufs s i) \<and> b_blockno (bufs s i) = b")
  case True
  then show ?thesis using bread_cached [OF assms(1,2)] assms(4) by blast
next
  case False
  then show ?thesis using bread_fresh [OF assms(1-3)] assms(5) by blast
qed


section \<open>Changing, writing and releasing a held buffer\<close>

lemma bio_held:
  assumes "bio_ok p H s" "i \<in> H"
  shows "i < NBUF" "b_valid (bufs s i)" "b_dev (bufs s i) = 1" "b_blockno (bufs s i) < disksize s"
    "length (b_data (bufs s i)) = BSIZE" "b_refcnt (bufs s i) = 1"
    "sleeplocks s (BufLk i) = \<lparr>sl_locked = True, sl_pid = pid (ptable s p)\<rparr>"
    "blk s (unat (b_blockno (bufs s i))) = b_data (bufs s i)"
    "\<And>j. j < NBUF \<Longrightarrow> j \<noteq> i \<Longrightarrow> b_valid (bufs s j) \<Longrightarrow> b_blockno (bufs s j) \<noteq> b_blockno (bufs s i)"
proof -
  have bl: "bio_blocks H s" and lk: "bio_locks p H s" using assms(1) by (simp_all add: bio_ok_def)
  show i: "i < NBUF" using lk assms(2) by (auto simp: bio_locks_def)
  show v: "b_valid (bufs s i)" using bio_blocksD(5) [OF bl assms(2)] .
  show "b_dev (bufs s i) = 1" "b_blockno (bufs s i) < disksize s" "length (b_data (bufs s i)) = BSIZE"
    using bio_blocksD(1,3,4) [OF bl i] v by simp_all
  show "b_refcnt (bufs s i) = 1" "sleeplocks s (BufLk i) = \<lparr>sl_locked = True, sl_pid = pid (ptable s p)\<rparr>"
    using lk i assms(2) by (simp_all add: bio_locks_def)
  show "blk s (unat (b_blockno (bufs s i))) = b_data (bufs s i)" by (rule blk_valid [OF bl i v])
  show "b_blockno (bufs s j) \<noteq> b_blockno (bufs s i)" if "j < NBUF" "j \<noteq> i" "b_valid (bufs s j)" for j
    using bio_blocksD(6) [OF bl that(1) i that(3) v] that(2) by auto
qed

text \<open>Any change of the contents or the dirty mark of a held buffer, with the disk changed at its block or not.\<close>

lemma bio_ok_held_upd:
  assumes ok: "bio_ok p H s" and i: "i \<in> H"
    and t: "bufs t = (bufs s)(i := (bufs s i)\<lparr>b_data := c, b_dirty := d\<rparr>)" "sleeplocks t = sleeplocks s"
      "disksize t = disksize s" "ptable t = ptable s" "length c = BSIZE"
    and dk: "disk t = (disk s)(unat (b_blockno (bufs s i)) := disk t (unat (b_blockno (bufs s i))))"
      "length (disk t (unat (b_blockno (bufs s i)))) = BSIZE"
  shows "bio_ok p H t" "blk t = (blk s)(unat (b_blockno (bufs s i)) := c)"
    "dirty t = (dirty s)(unat (b_blockno (bufs s i)) := d)"
proof -
  note h = bio_held [OF ok i]
  have dd: "disk t b = disk s b" if "b \<noteq> unat (b_blockno (bufs s i))" for b using dk(1) that by (metis fun_upd_apply)
  show "bio_ok p H t"
    by (rule bio_ok_upd [OF ok h(1) t(1), where h = True]) (use h t dd dk(2) i in auto)
  show "blk t = (blk s)(unat (b_blockno (bufs s i)) := c)"
    using blk_upd [OF ok h(1) t(1)] h dd by simp
  have "j < NBUF \<Longrightarrow> j \<noteq> i \<Longrightarrow> b_dirty (bufs s j) \<Longrightarrow> unat (b_blockno (bufs s j)) \<noteq> unat (b_blockno (bufs s i))" for j
    using h(9) [of j] bio_blocksD(2) ok by (auto simp: bio_ok_def word_unat_eq_iff)
  then show "dirty t = (dirty s)(unat (b_blockno (bufs s i)) := d)"
    using h(1) by (auto simp: dirty_def fun_eq_iff t(1)) metis
qed

lemma bwrite_ok:
  assumes calm: "calm p s" and ok: "bio_ok p H s" and i: "i \<in> H"
  defines "b \<equiv> unat (b_blockno (bufs s i))"
  defines "t \<equiv> s\<lparr>disk := (disk s)(b := b_data (bufs s i)), dwrites := dwrites s @ [(b, b_data (bufs s i))],
    bufs := (bufs s)(i := (bufs s i)\<lparr>b_dirty := False\<rparr>)\<rparr>"
  shows "bwrite i s = Inr t" "bio_ok p H t" "blk t = blk s" "dirty t = (dirty s)(b := False)"
proof -
  note h = bio_held [OF ok i]
  have hs: "holdingsleep (BufLk i) u = Inr (True, u)"
    if "calm p u" "sleeplocks u = sleeplocks s" "ptable u = ptable s" for u :: "'a kern_scheme"
    using holdingsleep_eq [OF calmD(1,2) [OF that(1)], of "BufLk i"] h(7) that by simp
  have bv: "(bufs s i)\<lparr>b_dirty := False, b_valid := True\<rparr> = (bufs s i)\<lparr>b_dirty := False\<rparr>"
    using h(2) by (intro buf.equality) simp_all
  show "bwrite i s = Inr t"
    using h(2-4) calm by (simp add: bwrite_def hs iderw_def upd_buf_def t_def b_def bv Let_def linorder_not_le)
  have tb: "bufs t = (bufs s)(i := (bufs s i)\<lparr>b_data := b_data (bufs s i), b_dirty := False\<rparr>)" by (simp add: t_def)
  have "bio_ok p H t" "blk t = (blk s)(b := b_data (bufs s i))" "dirty t = (dirty s)(b := False)"
    unfolding b_def by (rule bio_ok_held_upd [OF ok i tb]; simp add: t_def b_def h(5))+
  then show "bio_ok p H t" "blk t = blk s" "dirty t = (dirty s)(b := False)" using h(8) by (auto simp: b_def fun_upd_idem)
qed

lemma brelse_links:
  "(let s = set_prev (b_next (bufs s b)) (b_prev (bufs s b)) s; s = set_next (b_prev (bufs s b)) (b_next (bufs s b)) s
    in push_front b s) = s\<lparr>bufs := to_front b (bufs s)\<rparr>"
  by (simp add: Let_def set_next_bufs push_front_bufs to_front_def)

lemma brelse_alt:
  "brelse b s =
     rbind (holdingsleep (BufLk b) s) (\<lambda>(h, s).
     if \<not> h then Inl (Panic ''brelse'')
     else
       rbind (releasesleep (BufLk b) s) (\<lambda>s.
       rbind (acquire BcacheLock s) (\<lambda>s.
       let s = upd_buf b (\<lambda>x. x\<lparr>b_refcnt := b_refcnt x - 1\<rparr>) s;
           s = (if b_refcnt (bufs s b) = 0 then s\<lparr>bufs := to_front b (bufs s)\<rparr> else s)
       in release BcacheLock s)))"
  unfolding brelse_def brelse_links ..

lemma brelse_ok:
  assumes calm: "calm p s" and ok: "bio_ok p H s" and i: "i \<in> H"
    and cl: "b_dirty (bufs s i) \<or> b_data (bufs s i) = disk s (unat (b_blockno (bufs s i)))"
  shows "\<exists>t. brelse i s = Inr t \<and> t = s\<lparr>bufs := bufs t, sleeplocks := sleeplocks t\<rparr> \<and> bio_ok p (H - {i}) t
    \<and> blk t = blk s \<and> dirty t = dirty s \<and> (\<forall>j. j \<noteq> i \<longrightarrow> bview (bufs t j) = bview (bufs s j))
    \<and> inode_locks t = inode_locks s"
proof -
  note h = bio_held [OF ok i] and st = calmD(1) [OF calm] and fr = calmD(2) [OF calm]
  let ?v = "set_sleeplock (BufLk i) False 0 s"
  let ?x = "(bufs s i)\<lparr>b_refcnt := 0\<rparr>"
  let ?u = "?v\<lparr>bufs := (bufs s)(i := ?x)\<rparr>"
  let ?t = "?u\<lparr>bufs := to_front i (bufs ?u)\<rparr>"
  have hs: "holdingsleep (BufLk i) s = Inr (True, s)" using holdingsleep_eq [OF st fr, of "BufLk i"] h(7) by simp
  have rs: "releasesleep (BufLk i) s = Inr ?v" by (rule releasesleep_idle [OF st calmD(3) [OF calm]])
  have v: "steady p ?v" "lock_free lk ?v" for lk using st fr by (simp_all add: set_sleeplock_def)
  have "brelse i s = release BcacheLock ((enter BcacheLock ?v)\<lparr>bufs := to_front i ((bufs s)(i := ?x))\<rparr>)"
    using h(6) by (simp add: brelse_alt hs rs acquire_steady [OF v] upd_buf_def Let_def) (simp add: set_sleeplock_def)
  also have "\<dots> = Inr ?t" by (subst release_upd [OF v]) (simp add: set_sleeplock_def)
  finally have br: "brelse i s = Inr ?t" .
  have ub: "bufs ?u = (bufs s)(i := ?x)" by simp
  have u: "bio_ok p (H - {i}) ?u"
    by (rule bio_ok_upd [OF ok h(1) ub, where h = False])
      (use h cl ok in \<open>auto simp: set_sleeplock_def bio_ok_def word_less_nat_alt intro: bio_blocksD(8)\<close>)
  have "blk ?u = blk s" by (rule blk_cong) (auto simp: set_sleeplock_def)
  moreover have "dirty ?u = dirty s" by (auto simp: dirty_def fun_eq_iff)
  moreover have "bview (bufs ?t j) = bview (bufs s j)" if "j \<noteq> i" for j using that by (simp add: bview_to_front)
  moreover have "?t = s\<lparr>bufs := bufs ?t, sleeplocks := sleeplocks ?t\<rparr>" by (simp add: set_sleeplock_def)
  moreover have "inode_locks ?t = inode_locks s" by (simp add: set_sleeplock_def inode_locks_def fun_eq_iff)
  ultimately show ?thesis using br bio_ok_to_front [OF u h(1)] by metis
qed

end
