(* ===== verification/BioSpec.thy ===== *)
theory BioSpec
  imports BioInv
begin

text \<open>
  The buffer cache as an array of blocks: \<^verbatim>\<open>binit\<close> establishes the invariant, and any sequence of
  block writes and reads through the cache behaves like an array, whatever buffers are recycled on the way.
\<close>

section \<open>Initialisation\<close>

definition links :: "(nat \<Rightarrow> buf) \<Rightarrow> nat list \<Rightarrow> bool" where
  "links B xs \<longleftrightarrow> ring (\<lambda>i. b_next (B i)) NBUF xs \<and> ring (\<lambda>i. b_prev (B i)) NBUF (rev xs) \<and> distinct (NBUF # xs)"

lemma links_front_in:
  assumes "links B xs" "b \<notin> set xs" "b \<noteq> NBUF"
  shows "links (front_in b B) (b # xs)"
proof -
  have h: "b_next (B NBUF) = hd (xs @ [NBUF])" using assms(1) by (cases xs) (auto simp: links_def ring_def)
  have "ring (\<lambda>i. b_next (front_in b B i)) NBUF (b # xs)"
    unfolding front_in_links [OF assms(3)] using assms by (intro ring_push) (auto simp: links_def)
  moreover have "ring (\<lambda>i. b_prev (front_in b B i)) NBUF (rev (b # xs))"
    unfolding front_in_links [OF assms(3)] h using assms by (intro ring_push_back) (auto simp: links_def)
  ultimately show ?thesis using assms by (auto simp: links_def)
qed

lemma binit_loop_ok:
  "links (bufs s) xs \<Longrightarrow> distinct bs \<Longrightarrow> set bs \<inter> set xs = {} \<Longrightarrow> NBUF \<notin> set bs \<Longrightarrow>
   \<exists>B L. binit_loop bs s = s\<lparr>bufs := B, sleeplocks := L, locks := locks (binit_loop bs s)\<rparr>
     \<and> links B (rev bs @ xs) \<and> (\<forall>i. bview (B i) = bview (bufs s i))
     \<and> (\<forall>i \<in> set bs. L (BufLk i) = \<lparr>sl_locked = False, sl_pid = 0\<rparr> \<and> lock_free (BufLk i) (binit_loop bs s))
     \<and> (\<forall>lk. lock_free lk s \<longrightarrow> lock_free lk (binit_loop bs s)) \<and> (\<forall>lk. lk \<notin> BufLk ` set bs \<longrightarrow> L lk = sleeplocks s lk)"
proof (induction bs arbitrary: s xs)
  case Nil
  then show ?case by (intro exI [of _ "bufs s"] exI [of _ "sleeplocks s"]) simp
next
  case (Cons b bs)
  let ?s = "push_front b (initsleeplock (BufLk b) s)"
  have b: "b \<notin> set xs" "b \<noteq> NBUF" "b \<notin> set bs" using Cons.prems by auto
  have B: "bufs ?s = front_in b (bufs s)"
    by (simp add: push_front_bufs initsleeplock_def set_sleeplock_def initlock_def)
  have l: "links (bufs ?s) (b # xs)" unfolding B by (rule links_front_in [OF Cons.prems(1) b(1,2)])
  have L: "sleeplocks ?s = (sleeplocks s)(BufLk b := \<lparr>sl_locked = False, sl_pid = 0\<rparr>)"
    by (simp add: push_front_bufs initsleeplock_def set_sleeplock_def initlock_def)
  have fr: "lock_free (BufLk b) ?s" "\<And>lk. lock_free lk s \<Longrightarrow> lock_free lk ?s"
    by (simp_all add: push_front_bufs initsleeplock_def set_sleeplock_def initlock_def lock_free_def)
  from Cons.IH [OF l] Cons.prems b obtain C M where IH:
    "binit_loop bs ?s = ?s\<lparr>bufs := C, sleeplocks := M, locks := locks (binit_loop bs ?s)\<rparr>"
    "links C (rev bs @ b # xs)" "\<forall>i. bview (C i) = bview (bufs ?s i)"
    "\<forall>i \<in> set bs. M (BufLk i) = \<lparr>sl_locked = False, sl_pid = 0\<rparr> \<and> lock_free (BufLk i) (binit_loop bs ?s)"
    "\<forall>lk. lock_free lk ?s \<longrightarrow> lock_free lk (binit_loop bs ?s)" "\<forall>lk. lk \<notin> BufLk ` set bs \<longrightarrow> M lk = sleeplocks ?s lk"
    by auto
  have eq: "?s\<lparr>bufs := C, sleeplocks := M, locks := ls\<rparr> = s\<lparr>bufs := C, sleeplocks := M, locks := ls\<rparr>" for ls
    by (simp add: push_front_bufs initsleeplock_def set_sleeplock_def initlock_def)
  show ?case
  proof (intro exI [of _ C] exI [of _ M] conjI)
    show "binit_loop (b # bs) s = s\<lparr>bufs := C, sleeplocks := M, locks := locks (binit_loop (b # bs) s)\<rparr>"
      using IH(1) eq by simp
    show "links C (rev (b # bs) @ xs)" using IH(2) by simp
    show "\<forall>i. bview (C i) = bview (bufs s i)" using IH(3) by (simp add: B bview_front_in)
    show "\<forall>i \<in> set (b # bs). M (BufLk i) = \<lparr>sl_locked = False, sl_pid = 0\<rparr> \<and> lock_free (BufLk i) (binit_loop (b # bs) s)"
      using IH(4,5,6) fr(1) b(3) by (auto simp: L)
    show "\<forall>lk. lock_free lk s \<longrightarrow> lock_free lk (binit_loop (b # bs) s)" using IH(5) fr(2) by simp
    show "\<forall>lk. lk \<notin> BufLk ` set (b # bs) \<longrightarrow> M lk = sleeplocks s lk" using IH(6) by (auto simp: L)
  qed
qed


text \<open>The buffers of a machine that has just been switched on, above a disk of 512-byte blocks.\<close>

definition cold :: "'a kern_scheme \<Rightarrow> bool" where
  "cold s \<longleftrightarrow> (\<forall>i < NBUF. \<not> b_valid (bufs s i) \<and> \<not> b_dirty (bufs s i) \<and> b_dev (bufs s i) = 0 \<and> b_refcnt (bufs s i) = 0)
     \<and> (\<forall>b < unat (disksize s). length (disk s b) = BSIZE)"

lemma bio_cold:
  assumes "\<forall>i < NBUF. \<not> b_valid (bufs s i) \<and> \<not> b_dirty (bufs s i) \<and> b_dev (bufs s i) = 0"
  shows "blk s = disk s" "\<not> dirty s b"
  using assms by (auto simp: dirty_def blk_def fun_eq_iff buf_of_None [THEN iffD2])

lemma binit_ok:
  fixes s :: "'a kern_scheme"
  assumes calm: "calm p s" and cold: "cold s"
  shows "\<exists>B L. binit s = s\<lparr>bufs := B, sleeplocks := L\<rparr>" "bio_ok p {} (binit s)" "blk (binit s) = disk s"
    "\<not> dirty (binit s) b"
proof -
  let ?i = "set_next NBUF NBUF (set_prev NBUF NBUF (initlock BcacheLock s))"
  have l: "links (bufs ?i) []" by (simp add: links_def ring_def set_next_bufs initlock_def link_app)
  have bv: "bview (bufs ?i j) = bview (bufs s j)" for j
    by (simp add: set_next_bufs initlock_def bview_links)
  have fr: "lock_free lk ?i" for lk
    using calmD(2) [OF calm, of lk] by (simp add: set_next_bufs initlock_def lock_free_def)
  from binit_loop_ok [OF l, of "[0..<NBUF]"] obtain B L where BL:
    "binit s = ?i\<lparr>bufs := B, sleeplocks := L, locks := locks (binit s)\<rparr>" "links B (rev [0..<NBUF] @ [])"
    "\<forall>i. bview (B i) = bview (bufs ?i i)" "\<forall>i \<in> set [0..<NBUF]. L (BufLk i) = \<lparr>sl_locked = False, sl_pid = 0\<rparr>"
    "\<forall>lk. lock_free lk ?i \<longrightarrow> lock_free lk (binit s)"
    unfolding binit_def by auto
  have "locks (binit s) = locks s" using BL(5) fr calmD(2) [OF calm] by (auto simp: lock_free_def)
  then have eq: "binit s = s\<lparr>bufs := B, sleeplocks := L\<rparr>" using BL(1) by (simp add: set_next_bufs initlock_def)
  then show "\<exists>B L. binit s = s\<lparr>bufs := B, sleeplocks := L\<rparr>" by blast
  have v: "bview (B i) = bview (bufs s i)" for i using BL(3) bv by simp
  have inv: "\<not> b_valid (B i)" "\<not> b_dirty (B i)" "b_dev (B i) = 0" "b_refcnt (B i) = 0" if "i < NBUF" for i
    using cold that bviewD [OF v [of i]] by (simp_all add: cold_def)
  have "dll B (rev [0..<NBUF])"
    using BL(2) by (simp add: dll_def links_def del: upt_rec_numeral)
  moreover have "bio_locks p {} (s\<lparr>bufs := B, sleeplocks := L\<rparr>)"
    using inv BL(4) by (simp add: bio_locks_def del: upt_rec_numeral)
  moreover have "bio_blocks {} (s\<lparr>bufs := B, sleeplocks := L\<rparr>)"
    using inv cold by (simp add: bio_blocks_def cold_def)
  ultimately show "bio_ok p {} (binit s)" unfolding eq bio_ok_def by auto
  show "blk (binit s) = disk s" "\<not> dirty (binit s) b" using bio_cold [of "binit s"] inv unfolding eq by simp_all
qed

section \<open>The array interface\<close>

text \<open>Reading a block and putting the buffer back; overwriting a block on disk.\<close>

definition read_block :: "u32 \<Rightarrow> 'a kern_scheme \<Rightarrow> (u8 list \<times> 'a kern_scheme) res" where
  "read_block b s =
     rbind (bread 1 b s) (\<lambda>(i, s).
     let d = b_data (bufs s i) in
     rbind (brelse i s) (\<lambda>s. Inr (d, s)))"

definition write_block :: "u32 \<Rightarrow> u8 list \<Rightarrow> 'a kern_scheme \<Rightarrow> 'a kern_scheme res" where
  "write_block b d s =
     rbind (bread 1 b s) (\<lambda>(i, s).
     rbind (bwrite i (upd_buf i (\<lambda>x. x\<lparr>b_data := d\<rparr>) s)) (\<lambda>s.
     brelse i s))"

definition array_put :: "u32 \<times> u8 list \<Rightarrow> (nat \<Rightarrow> u8 list) \<Rightarrow> nat \<Rightarrow> u8 list" where
  "array_put w c = c(unat (fst w) := snd w)"

locale block_array =
  fixes ready :: "'s \<Rightarrow> bool" and contents :: "'s \<Rightarrow> nat \<Rightarrow> u8 list" and size_of :: "'s \<Rightarrow> u32"
    and get :: "u32 \<Rightarrow> 's \<Rightarrow> (u8 list \<times> 's) res" and put :: "u32 \<Rightarrow> u8 list \<Rightarrow> 's \<Rightarrow> 's res"
  assumes get_ok: "ready s \<Longrightarrow> b < size_of s \<Longrightarrow>
      \<exists>t. get b s = Inr (contents s (unat b), t) \<and> ready t \<and> contents t = contents s \<and> size_of t = size_of s"
    and put_ok: "ready s \<Longrightarrow> b < size_of s \<Longrightarrow> length d = BSIZE \<Longrightarrow>
      \<exists>t. put b d s = Inr t \<and> ready t \<and> contents t = (contents s)(unat b := d) \<and> size_of t = size_of s"
begin

primrec puts :: "(u32 \<times> u8 list) list \<Rightarrow> 's \<Rightarrow> 's res" where
  "puts [] s = Inr s"
| "puts (w # ws) s = rbind (put (fst w) (snd w) s) (\<lambda>s. puts ws s)"

lemma puts_ok:
  "ready s \<Longrightarrow> \<forall>(b, d) \<in> set ws. b < size_of s \<and> length d = BSIZE \<Longrightarrow>
   \<exists>t. puts ws s = Inr t \<and> ready t \<and> contents t = fold array_put ws (contents s) \<and> size_of t = size_of s"
proof (induction ws arbitrary: s)
  case (Cons w ws)
  obtain b d where w: "w = (b, d)" by (cases w)
  then obtain u where u: "put b d s = Inr u" "ready u" "contents u = (contents s)(unat b := d)" "size_of u = size_of s"
    using put_ok [OF Cons.prems(1), of b d] Cons.prems(2) by auto
  from Cons.IH [OF u(2)] Cons.prems(2) u(4) obtain t where
    "puts ws u = Inr t" "ready t" "contents t = fold array_put ws (contents u)" "size_of t = size_of u"
    by auto
  moreover have "contents u = array_put w (contents s)" using u(3) w by (simp add: array_put_def)
  ultimately show ?case using u w by auto
qed simp

lemma get_after_puts:
  assumes "ready s" "\<forall>(b, d) \<in> set ws. b < size_of s \<and> length d = BSIZE" "b < size_of s"
  shows "\<exists>t u. puts ws s = Inr t \<and> get b t = Inr (fold array_put ws (contents s) (unat b), u) \<and> ready u"
  using puts_ok [OF assms(1,2)] get_ok assms(3) by metis

end

text \<open>No buffer is held or dirty.\<close>

definition bio_ready :: "nat \<Rightarrow> 'a kern_scheme \<Rightarrow> bool" where
  "bio_ready p s \<longleftrightarrow> calm p s \<and> bio_ok p {} s \<and> (\<forall>b. \<not> dirty s b)"

lemma bread_ready:
  assumes "bio_ready p s" "b < disksize s"
  shows "\<exists>i t. bread 1 b s = Inr (i, t) \<and> read_into p {} b s i t"
proof (rule bread_ok)
  have "\<not> dirty s (unat (b_blockno (bufs s 0)))" using assms(1) by (simp add: bio_ready_def)
  moreover have "(0::nat) < NBUF" by simp
  ultimately have "\<not> b_dirty (bufs s 0)" unfolding dirty_def by blast
  then show "(\<exists>i < NBUF. b_valid (bufs s i) \<and> b_blockno (bufs s i) = b) \<or> (\<exists>k < NBUF. k \<notin> {} \<and> \<not> b_dirty (bufs s k))"
    by (intro disjI2 exI [of _ 0]) simp
qed (use assms in \<open>simp_all add: bio_ready_def\<close>)

lemma blk_clean:
  assumes "bio_blocks H s" "\<not> dirty s b" "\<forall>i \<in> H. unat (b_blockno (bufs s i)) \<noteq> b"
  shows "blk s b = disk s b"
proof (cases "buf_of s b")
  case (Some i)
  then have i: "i < NBUF" "b_valid (bufs s i)" "unat (b_blockno (bufs s i)) = b" using buf_of_Some [OF assms(1)] by blast+
  then have "i \<notin> H" "\<not> b_dirty (bufs s i)" using assms(2,3) by (auto simp: dirty_def)
  then show ?thesis using bio_blocksD(7) [OF assms(1) i(1)] i Some by (simp add: blk_def)
qed (simp add: blk_def)

lemma read_block_ok:
  assumes r: "bio_ready p s" and b: "b < disksize s"
  shows "\<exists>t. read_block b s = Inr (blk s (unat b), t) \<and> bio_ready p t \<and> blk t = blk s \<and> disksize t = disksize s"
proof -
  obtain i u where rd: "bread 1 b s = Inr (i, u)" and u: "read_into p {} b s i u" using bread_ready [OF r b] by blast
  have ue: "u = s\<lparr>bufs := bufs u, sleeplocks := sleeplocks u\<rparr>" and ok: "bio_ok p {i} u" using u by (simp_all add: read_into_def)
  have calm: "calm p u" using r by (subst ue) (simp add: bio_ready_def)
  have "blk s (unat b) = disk s (unat b)" using r by (intro blk_clean) (auto simp: bio_ready_def bio_ok_def)
  moreover have "disk u = disk s" "disksize u = disksize s" by (subst ue, simp)+
  ultimately have "b_data (bufs u i) = disk u (unat (b_blockno (bufs u i)))" using u by (simp add: read_into_def)
  with brelse_ok [OF calm ok, of i] obtain t where t: "brelse i u = Inr t"
    "t = u\<lparr>bufs := bufs t, sleeplocks := sleeplocks t\<rparr>" "bio_ok p ({i} - {i}) t" "blk t = blk u" "dirty t = dirty u"
    by blast
  have "read_block b s = Inr (blk s (unat b), t)" using u t(1) by (simp add: read_block_def rd read_into_def)
  moreover have "calm p t" by (subst t(2)) (simp add: calm)
  moreover have "disksize t = disksize s" by (subst t(2), subst ue) simp
  ultimately show ?thesis using t u r by (auto simp: bio_ready_def read_into_def)
qed

lemma write_block_ok:
  assumes r: "bio_ready p s" and b: "b < disksize s" and d: "length d = BSIZE"
  shows "\<exists>t. write_block b d s = Inr t \<and> bio_ready p t \<and> blk t = (blk s)(unat b := d) \<and> disksize t = disksize s"
proof -
  obtain i u where rd: "bread 1 b s = Inr (i, u)" and u: "read_into p {} b s i u" using bread_ready [OF r b] by blast
  have ue: "u = s\<lparr>bufs := bufs u, sleeplocks := sleeplocks u\<rparr>" and ok: "bio_ok p {i} u"
    and bn: "b_blockno (bufs u i) = b" and nd: "dirty u = dirty s" "b_dirty (bufs u i) = dirty s (unat b)"
    using u by (simp_all add: read_into_def)
  let ?v = "upd_buf i (\<lambda>x. x\<lparr>b_data := d\<rparr>) u"
  have vb: "bufs ?v = (bufs u)(i := (bufs u i)\<lparr>b_data := d, b_dirty := False\<rparr>)"
  proof -
    have "(bufs u i)\<lparr>b_data := d\<rparr> = (bufs u i)\<lparr>b_data := d, b_dirty := False\<rparr>"
      using nd r by (intro buf.equality) (simp_all add: bio_ready_def)
    from this [symmetric] show ?thesis by (simp add: upd_buf_def)
  qed
  have du: "disksize u = disksize s" by (subst ue) simp
  have lens: "length (disk u (unat b)) = BSIZE"
    using bio_blocksD(8) [of "{i}" u "unat b"] ok b du by (simp add: bio_ok_def word_less_nat_alt)
  have v: "bio_ok p {i} ?v" "blk ?v = (blk u)(unat b := d)" "dirty ?v = (dirty u)(unat b := False)"
    using bio_ok_held_upd [OF ok _ vb] d lens bn by (simp_all add: upd_buf_def)
  have cv: "calm p ?v" using r by (subst ue) (simp add: bio_ready_def upd_buf_def)
  let ?w = "?v\<lparr>disk := (disk ?v)(unat (b_blockno (bufs ?v i)) := b_data (bufs ?v i)),
    dwrites := dwrites ?v @ [(unat (b_blockno (bufs ?v i)), b_data (bufs ?v i))],
    bufs := (bufs ?v)(i := (bufs ?v i)\<lparr>b_dirty := False\<rparr>)\<rparr>"
  have w: "bwrite i ?v = Inr ?w" "bio_ok p {i} ?w" "blk ?w = blk ?v" "dirty ?w = (dirty ?v)(unat (b_blockno (bufs ?v i)) := False)"
    by (rule bwrite_ok [OF cv v(1)]; simp)+
  have cw: "calm p ?w" using cv by simp
  obtain t where t: "brelse i ?w = Inr t" "t = ?w\<lparr>bufs := bufs t, sleeplocks := sleeplocks t\<rparr>" "bio_ok p ({i} - {i}) t"
    "blk t = blk ?w" "dirty t = dirty ?w"
    using brelse_ok [OF cw w(2), of i] by auto
  have "write_block b d s = Inr t" by (simp add: write_block_def rd w(1) t(1))
  moreover have "calm p t" using cv by (subst t(2)) simp
  moreover have "disksize t = disksize s" by (subst t(2)) (simp add: upd_buf_def du)
  moreover have "blk t = (blk s)(unat b := d)" using t(4) w(3) v(2) u by (simp add: read_into_def)
  moreover have "\<not> dirty t c" for c using t(5) w(4) v(3) nd(1) r by (simp add: bio_ready_def)
  ultimately show ?thesis using t(3) by (auto simp: bio_ready_def)
qed


interpretation ba: block_array "bio_ready p" blk disksize read_block write_block for p
  by unfold_locales (use read_block_ok write_block_ok in auto)

section \<open>What the buffer cache promises\<close>

primrec write_blocks :: "(u32 \<times> u8 list) list \<Rightarrow> 'a kern_scheme \<Rightarrow> 'a kern_scheme res" where
  "write_blocks [] s = Inr s"
| "write_blocks (w # ws) s = rbind (write_block (fst w) (snd w) s) (\<lambda>s. write_blocks ws s)"

lemma write_blocks_puts: "write_blocks ws s = ba.puts ws s"
  by (induction ws arbitrary: s) simp_all

text \<open>
  C6: the buffer cache is an array of blocks. After booting, any sequence of block writes
  through \<^verbatim>\<open>bread\<close>, \<^verbatim>\<open>bwrite\<close> and \<^verbatim>\<open>brelse\<close> succeeds, however many blocks it touches and whichever
  buffers are recycled, and a following read of any block returns what was last written there, or what the
  disk held at boot.
\<close>

theorem buffer_cache_array:
  assumes "calm p s" "cold s" "\<forall>(b, d) \<in> set ws. b < disksize s \<and> length d = BSIZE" "b < disksize s"
  shows "\<exists>t u. write_blocks ws (binit s) = Inr t
    \<and> read_block b t = Inr (fold array_put ws (disk s) (unat b), u)"
proof -
  obtain B L where eq: "binit s = s\<lparr>bufs := B, sleeplocks := L\<rparr>" using binit_ok(1) [OF assms(1,2)] by blast
  have "bio_ready p (binit s)"
    using binit_ok(2,4) [OF assms(1,2)] assms(1) by (simp add: bio_ready_def) (simp add: eq)
  moreover have "disksize (binit s) = disksize s" by (simp add: eq)
  ultimately show ?thesis
    using ba.get_after_puts [of p "binit s" ws b] assms(3,4) binit_ok(3) [OF assms(1,2)]
    unfolding write_blocks_puts by metis
qed

lemma demo_kern_cold: "cold demo_kern"
  by (simp add: cold_def demo_kern_def)

theorem buffer_cache_array_witness:
  "\<exists>t u. write_blocks [(7, replicate 512 1), (7, replicate 512 2), (9, replicate 512 3)] (binit demo_kern) = Inr t
    \<and> read_block 7 t = Inr (replicate 512 2, u)"
proof -
  have d: "disksize demo_kern = 1000" by (simp add: demo_kern_def)
  from buffer_cache_array [OF demo_kern_calm demo_kern_cold,
    of "[(7, replicate 512 1), (7, replicate 512 2), (9, replicate 512 3)]" 7]
  show ?thesis by (simp add: d array_put_def)
qed

end
