(* ===== verification/LogInv.thy ===== *)
theory LogInv
  imports Log BioSpec
begin

text \<open>
  The log's building blocks on the block array: copying a block through the cache, writing and
  reading the header, and the loops that copy a transaction to the log and from there to its home.
\<close>

section \<open>Words in blocks\<close>

lemma length_splice: "off + length ys \<le> length xs \<Longrightarrow> length (splice off ys xs) = length xs"
  by (simp add: splice_def)

lemma slice_splice_same: "off + length ys \<le> length xs \<Longrightarrow> slice off (length ys) (splice off ys xs) = ys"
  by (simp add: slice_def splice_def)

lemma slice_splice_other:
  assumes "off + length ys \<le> length xs" "o2 + n \<le> off \<or> off + length ys \<le> o2" "o2 + n \<le> length xs"
  shows "slice o2 n (splice off ys xs) = slice o2 n xs"
proof (rule nth_equalityI)
  have l: "length (splice off ys xs) = length xs" using assms(1) by (rule length_splice)
  then show "length (slice o2 n (splice off ys xs)) = length (slice o2 n xs)" by (simp add: slice_def)
  fix i assume "i < length (slice o2 n (splice off ys xs))"
  then have i: "i < n" "o2 + i < length xs" using l assms(3) by (simp_all add: slice_def)
  have "splice off ys xs ! (o2 + i) = xs ! (o2 + i)"
    using assms i by (auto simp: splice_def nth_append min_def)
  then show "slice o2 n (splice off ys xs) ! i = slice o2 n xs ! i" using i l by (simp add: slice_def)
qed

lemma u32_bytes [simp]: "u32_of_bytes (bytes_of_u32 w) = w" "length (bytes_of_u32 w) = 4"
  using split_bytes [of w] by (simp_all add: bytes_of_u32_def)

lemma get32_put32: "off + 4 \<le> length d \<Longrightarrow> get32 off (put32 off w d) = w"
  using slice_splice_same [of off "bytes_of_u32 w" d] by (simp add: get32_def put32_def)

lemma get32_put32_other:
  "off + 4 \<le> length d \<Longrightarrow> o2 + 4 \<le> length d \<Longrightarrow> o2 + 4 \<le> off \<or> off + 4 \<le> o2 \<Longrightarrow> get32 o2 (put32 off w d) = get32 o2 d"
  using slice_splice_other [of off "bytes_of_u32 w" d o2 4] by (simp add: get32_def put32_def)

lemma length_put32: "off + 4 \<le> length d \<Longrightarrow> length (put32 off w d) = length d"
  by (simp add: put32_def length_splice)

lemma put_blocks_ok:
  "distinct is \<Longrightarrow> \<forall>i \<in> set is. 8 + 4 * i \<le> length d \<Longrightarrow>
   length (put_blocks is bl d) = length d
   \<and> (\<forall>i \<in> set is. get32 (4 + 4 * i) (put_blocks is bl d) = u32_of_int (bl i))
   \<and> (\<forall>off. off + 4 \<le> length d \<and> (\<forall>i \<in> set is. off + 4 \<le> 4 + 4 * i \<or> 8 + 4 * i \<le> off) \<longrightarrow>
        get32 off (put_blocks is bl d) = get32 off d)"
proof (induction "is" arbitrary: d)
  case (Cons i "is")
  let ?d = "put32 (4 + 4 * i) (u32_of_int (bl i)) d"
  have l: "length ?d = length d" using Cons.prems(2) by (simp add: length_put32)
  have d: "distinct is" "\<forall>j \<in> set is. 8 + 4 * j \<le> length ?d" using Cons.prems l by auto
  note IH = Cons.IH [OF d]
  have i: "get32 (4 + 4 * i) (put_blocks is bl ?d) = u32_of_int (bl i)"
  proof -
    have "4 + 4 * i + 4 \<le> 4 + 4 * j \<or> 8 + 4 * j \<le> 4 + 4 * i" if "j \<in> set is" for j
      using Cons.prems(1) that by (cases i j rule: linorder_cases) auto
    then have "get32 (4 + 4 * i) (put_blocks is bl ?d) = get32 (4 + 4 * i) ?d" using IH l Cons.prems(2) by auto
    then show ?thesis using Cons.prems(2) by (simp add: get32_put32)
  qed
  have "get32 off (put_blocks is bl ?d) = get32 off d"
    if "off + 4 \<le> length d \<and> (\<forall>j \<in> set (i # is). off + 4 \<le> 4 + 4 * j \<or> 8 + 4 * j \<le> off)" for off
  proof -
    have "get32 off (put_blocks is bl ?d) = get32 off ?d" using IH that l by auto
    also have "\<dots> = get32 off d" using that Cons.prems(2) by (intro get32_put32_other) auto
    finally show ?thesis .
  qed
  with IH i l show ?case by auto
qed simp

section \<open>Room in the cache\<close>

lemma card_dirty:
  assumes "bio_blocks H s"
  shows "card {i. i < NBUF \<and> b_dirty (bufs s i)} = card {b. dirty s b}" "finite {b. dirty s b}"
proof -
  have e: "{b. dirty s b} = (\<lambda>i. unat (b_blockno (bufs s i))) ` {i. i < NBUF \<and> b_dirty (bufs s i)}"
    by (auto simp: dirty_def)
  have "inj_on (\<lambda>i. unat (b_blockno (bufs s i))) {i. i < NBUF \<and> b_dirty (bufs s i)}"
    using bio_blocksD(2,6) [OF assms] by (auto simp: inj_on_def word_unat_eq_iff)
  then show "card {i. i < NBUF \<and> b_dirty (bufs s i)} = card {b. dirty s b}" unfolding e by (rule card_image [symmetric])
  show "finite {b. dirty s b}" unfolding e by simp
qed

lemma spare_buffer:
  assumes "bio_ok p H s" "card {b. dirty s b} + card H < NBUF"
  shows "\<exists>k < NBUF. k \<notin> H \<and> \<not> b_dirty (bufs s k)"
proof (rule ccontr)
  assume "\<not> ?thesis"
  then have "{0..<NBUF} \<subseteq> {i. i < NBUF \<and> b_dirty (bufs s i)} \<union> H" by auto
  moreover have "finite H" using assms(1) by (auto simp: bio_ok_def bio_locks_def intro: finite_subset)
  ultimately have "card {0..<(NBUF::nat)} \<le> card ({i. i < NBUF \<and> b_dirty (bufs s i)} \<union> H)"
    by (intro card_mono) auto
  also have "\<dots> \<le> card {i. i < NBUF \<and> b_dirty (bufs s i)} + card H" by (rule card_Un_le)
  finally show False using assms card_dirty(1) [of H s] by (simp add: bio_ok_def)
qed

lemma bread_room:
  assumes "calm p s" "bio_ok p H s" "b < disksize s" "\<forall>i \<in> H. b_blockno (bufs s i) \<noteq> b"
    and "dirty s (unat b) \<or> card {b. dirty s b} + card H < NBUF"
  shows "\<exists>i t. bread 1 b s = Inr (i, t) \<and> read_into p H b s i t"
proof (rule bread_ok [OF assms(1-4)])
  have bl: "bio_blocks H s" using assms(2) by (simp add: bio_ok_def)
  show "(\<exists>i < NBUF. b_valid (bufs s i) \<and> b_blockno (bufs s i) = b) \<or> (\<exists>k < NBUF. k \<notin> H \<and> \<not> b_dirty (bufs s k))"
    using assms(5) spare_buffer [OF assms(2)] bio_blocksD(2) [OF bl] unfolding dirty_def word_unat_eq_iff by blast
qed


section \<open>Copying a block\<close>

text \<open>The state after block \<open>b\<close> has been overwritten on disk, all buffers put back.\<close>

definition stored :: "nat \<Rightarrow> nat \<Rightarrow> u8 list \<Rightarrow> 'a kern_scheme \<Rightarrow> 'a kern_scheme \<Rightarrow> bool" where
  "stored p b c s t \<longleftrightarrow> t = s\<lparr>bufs := bufs t, sleeplocks := sleeplocks t, disk := (disk s)(b := c),
       dwrites := dwrites s @ [(b, c)]\<rparr>
     \<and> bio_ok p {} t \<and> blk t = (blk s)(b := c) \<and> dirty t = (dirty s)(b := False)"

lemma held_release:
  assumes "calm p s" "bio_ok p H s" "i \<in> H" "b_dirty (bufs s i) \<or> b_data (bufs s i) = disk s (unat (b_blockno (bufs s i)))"
  obtains t where "brelse i s = Inr t" "t = s\<lparr>bufs := bufs t, sleeplocks := sleeplocks t\<rparr>" "bio_ok p (H - {i}) t"
    "blk t = blk s" "dirty t = dirty s" "\<And>j. j \<noteq> i \<Longrightarrow> bview (bufs t j) = bview (bufs s j)" "calm p t"
    "inode_locks t = inode_locks s"
proof -
  obtain t where t: "brelse i s = Inr t" "t = s\<lparr>bufs := bufs t, sleeplocks := sleeplocks t\<rparr>" "bio_ok p (H - {i}) t"
    "blk t = blk s" "dirty t = dirty s" "\<forall>j. j \<noteq> i \<longrightarrow> bview (bufs t j) = bview (bufs s j)"
    "inode_locks t = inode_locks s"
    using brelse_ok [OF assms] by blast
  moreover have "calm p t" using assms(1) by (subst t(2)) simp
  ultimately show ?thesis using that by blast
qed

lemma held_write:
  assumes calm: "calm p u" and ok: "bio_ok p H u" and w: "w \<in> H" and c: "length c = BSIZE"
    and b: "b = unat (b_blockno (bufs u w))"
  obtains v where "bwrite w (buf_data w (\<lambda>_. c) u) = Inr v"
    "v = u\<lparr>bufs := bufs v, disk := (disk u)(b := c), dwrites := dwrites u @ [(b, c)]\<rparr>" "bio_ok p H v"
    "blk v = (blk u)(b := c)" "dirty v = (dirty u)(b := False)" "\<And>j. j \<noteq> w \<Longrightarrow> bufs v j = bufs u j"
    "b_data (bufs v w) = c" "b_blockno (bufs v w) = b_blockno (bufs u w)" "calm p v"
proof -
  let ?m = "buf_data w (\<lambda>_. c) u"
  have mb: "bufs ?m = (bufs u)(w := (bufs u w)\<lparr>b_data := c, b_dirty := b_dirty (bufs u w)\<rparr>)"
    by (simp add: upd_buf_def)
  have ld: "length (disk u (unat (b_blockno (bufs u w)))) = BSIZE"
    using bio_blocksD(8) [of H u] bio_held(4) [OF ok w] ok by (simp add: bio_ok_def word_less_nat_alt)
  have m: "bio_ok p H ?m" "blk ?m = (blk u)(b := c)" "dirty ?m = (dirty u)(b := b_dirty (bufs u w))"
    unfolding b by (rule bio_ok_held_upd [OF ok w mb]; use c ld in \<open>simp add: upd_buf_def\<close>)+
  have cm: "calm p ?m" using calm by (simp add: upd_buf_def)
  let ?v = "?m\<lparr>disk := (disk ?m)(unat (b_blockno (bufs ?m w)) := b_data (bufs ?m w)),
    dwrites := dwrites ?m @ [(unat (b_blockno (bufs ?m w)), b_data (bufs ?m w))],
    bufs := (bufs ?m)(w := (bufs ?m w)\<lparr>b_dirty := False\<rparr>)\<rparr>"
  have v: "bwrite w ?m = Inr ?v" "bio_ok p H ?v" "blk ?v = blk ?m"
    "dirty ?v = (dirty ?m)(unat (b_blockno (bufs ?m w)) := False)"
    by (rule bwrite_ok [OF cm m(1) w])+
  show ?thesis
  proof (rule that [OF v(1) _ v(2)])
    show "?v = u\<lparr>bufs := bufs ?v, disk := (disk u)(b := c), dwrites := dwrites u @ [(b, c)]\<rparr>"
      by (simp add: upd_buf_def b)
    show "blk ?v = (blk u)(b := c)" using v(3) m(2) by simp
    show "dirty ?v = (dirty u)(b := False)" using v(4) m(3) by (simp add: upd_buf_def b)
    show "calm p ?v" using cm by simp
  qed (simp_all add: upd_buf_def)
qed

lemma store_pair:
  assumes calm: "calm p u" and ok: "bio_ok p {w, r} u" and ne: "w \<noteq> r" and c: "length c = BSIZE"
    and cl: "b_dirty (bufs u r) \<or> b_data (bufs u r) = disk u (unat (b_blockno (bufs u r)))"
  shows "\<exists>t. rbind (bwrite w (buf_data w (\<lambda>_. c) u)) (\<lambda>s. rbind (brelse r s) (\<lambda>s. brelse w s)) = Inr t
    \<and> stored p (unat (b_blockno (bufs u w))) c u t"
proof -
  let ?b = "unat (b_blockno (bufs u w))"
  obtain v where v: "bwrite w (buf_data w (\<lambda>_. c) u) = Inr v"
    "v = u\<lparr>bufs := bufs v, disk := (disk u)(?b := c), dwrites := dwrites u @ [(?b, c)]\<rparr>" "bio_ok p {w, r} v"
    "blk v = (blk u)(?b := c)" "dirty v = (dirty u)(?b := False)" "\<And>j. j \<noteq> w \<Longrightarrow> bufs v j = bufs u j"
    "b_data (bufs v w) = c" "b_blockno (bufs v w) = b_blockno (bufs u w)" "calm p v"
    using held_write [OF calm ok _ c refl, of w] by blast
  have nb: "unat (b_blockno (bufs u r)) \<noteq> ?b"
    using bio_held(9) [OF ok, of w r] bio_held(1,2) [OF ok, of r] ne by (auto simp: word_unat_eq_iff)
  have vd: "disk v = (disk u)(?b := c)" by (subst v(2)) simp
  have "b_dirty (bufs v r) \<or> b_data (bufs v r) = disk v (unat (b_blockno (bufs v r)))"
    using cl nb v(6) [of r] ne by (simp add: vd)
  then obtain x where x: "brelse r v = Inr x" "x = v\<lparr>bufs := bufs x, sleeplocks := sleeplocks x\<rparr>"
    "bio_ok p ({w, r} - {r}) x" "blk x = blk v" "dirty x = dirty v" "bview (bufs x w) = bview (bufs v w)" "calm p x"
    using held_release [OF v(9) v(3), of r] ne by (metis insertI1 insertI2)
  have xok: "bio_ok p {w} x" using x(3) ne by (simp add: insert_Diff_if)
  have xd: "disk x = disk v" by (subst x(2)) simp
  have "b_data (bufs x w) = disk x (unat (b_blockno (bufs x w)))"
    using bviewD(2,6) [OF x(6)] v(7,8) by (simp add: xd vd)
  then obtain t where t: "brelse w x = Inr t" "t = x\<lparr>bufs := bufs t, sleeplocks := sleeplocks t\<rparr>"
    "bio_ok p ({w} - {w}) t" "blk t = blk x" "dirty t = dirty x"
    using held_release [OF x(7) xok, of w] by (metis insertI1)
  have "t = u\<lparr>bufs := bufs t, sleeplocks := sleeplocks t, disk := (disk u)(?b := c), dwrites := dwrites u @ [(?b, c)]\<rparr>"
    by (subst t(2), subst x(2), subst v(2)) simp
  then have "stored p ?b c u t" using t x(4,5) v(4,5) by (simp add: stored_def)
  then show ?thesis using v(1) x(1) t(1) by auto
qed

lemma two_reads:
  assumes calm: "calm p s" and ok: "bio_ok p {} s" and b: "x < disksize s" "y < disksize s" "x \<noteq> y"
    and room: "dirty s (unat x) \<or> card {b. dirty s b} < NBUF" "dirty s (unat y) \<or> card {b. dirty s b} + 1 < NBUF"
  obtains i j s1 u where "bread 1 x s = Inr (i, s1)" "bread 1 y s1 = Inr (j, u)" "i \<noteq> j"
    "u = s\<lparr>bufs := bufs u, sleeplocks := sleeplocks u\<rparr>" "klog s1 = klog s" "bio_ok p {j, i} u" "calm p u"
    "b_blockno (bufs u i) = x" "b_blockno (bufs u j) = y" "b_data (bufs u i) = blk s (unat x)"
    "b_data (bufs u j) = blk s (unat y)" "b_dirty (bufs u i) = dirty s (unat x)" "b_dirty (bufs u j) = dirty s (unat y)"
    "blk u = blk s" "dirty u = dirty s" "disk u = disk s"
proof -
  obtain i s1 where i: "bread 1 x s = Inr (i, s1)" "read_into p {} x s i s1"
    using bread_room [OF calm ok b(1)] room by auto
  have s1: "s1 = s\<lparr>bufs := bufs s1, sleeplocks := sleeplocks s1\<rparr>" using i(2) by (simp add: read_into_def)
  have c1: "calm p s1" using calm by (subst s1) simp
  have d1: "disksize s1 = disksize s" "klog s1 = klog s" by (subst s1, simp)+
  obtain j u where j: "bread 1 y s1 = Inr (j, u)" "read_into p {i} y s1 j u"
    using bread_room [OF c1, of "{i}" y] i(2) room b d1 by (auto simp: read_into_def)
  have u: "u = s1\<lparr>bufs := bufs u, sleeplocks := sleeplocks u\<rparr>" using j(2) by (simp add: read_into_def)
  have "calm p u" using c1 by (subst u) simp
  moreover have "disk u = disk s" by (subst u, subst s1) simp
  moreover have "u = s\<lparr>bufs := bufs u, sleeplocks := sleeplocks u\<rparr>" by (subst u, subst s1) simp
  ultimately show ?thesis using that [OF i(1) j(1)] i(2) j(2) d1 by (auto simp: read_into_def)
qed


text \<open>A sequence of disk writes, oldest first.\<close>

definition disk_put :: "nat \<times> u8 list \<Rightarrow> (nat \<Rightarrow> u8 list) \<Rightarrow> nat \<Rightarrow> u8 list" where
  "disk_put w d = d(fst w := snd w)"

definition replay :: "(nat \<times> u8 list) list \<Rightarrow> (nat \<Rightarrow> u8 list) \<Rightarrow> nat \<Rightarrow> u8 list" where
  "replay ws d = fold disk_put ws d"

lemma replay_simps [simp]: "replay [] d = d" "replay (w # ws) d = replay ws (disk_put w d)"
  "replay (ws @ vs) d = replay vs (replay ws d)"
  by (simp_all add: replay_def)

lemma replay_other: "b \<notin> fst ` set ws \<Longrightarrow> replay ws d b = d b"
  by (induction ws arbitrary: d) (auto simp: disk_put_def)

lemma replay_in:
  assumes "distinct (map fst ws)" "(b, c) \<in> set ws"
  shows "replay ws d b = c"
  using assms
proof (induction ws arbitrary: d)
  case (Cons w ws)
  show ?case
  proof (cases "w = (b, c)")
    case True
    then have "b \<notin> fst ` set ws" using Cons.prems(1) by auto
    then show ?thesis using True by (simp add: replay_other disk_put_def)
  next
    case False
    then show ?thesis using Cons by auto
  qed
qed simp

definition stored_all :: "nat \<Rightarrow> (nat \<times> u8 list) list \<Rightarrow> 'a kern_scheme \<Rightarrow> 'a kern_scheme \<Rightarrow> bool" where
  "stored_all p ws s t \<longleftrightarrow> t = s\<lparr>bufs := bufs t, sleeplocks := sleeplocks t, disk := replay ws (disk s),
       dwrites := dwrites s @ ws\<rparr>
     \<and> bio_ok p {} t \<and> blk t = replay ws (blk s) \<and> (\<forall>b. dirty t b \<longleftrightarrow> dirty s b \<and> b \<notin> fst ` set ws)"

lemma stored_all_Nil: "bio_ok p {} s \<Longrightarrow> stored_all p [] s s"
  by (simp add: stored_all_def)

lemma stored_all_Cons:
  assumes "stored p b c s u" "stored_all p ws u t"
  shows "stored_all p ((b, c) # ws) s t"
proof -
  have u: "u = s\<lparr>bufs := bufs u, sleeplocks := sleeplocks u, disk := (disk s)(b := c), dwrites := dwrites s @ [(b, c)]\<rparr>"
    using assms(1) by (simp add: stored_def)
  have t: "t = u\<lparr>bufs := bufs t, sleeplocks := sleeplocks t, disk := replay ws (disk u), dwrites := dwrites u @ ws\<rparr>"
    using assms(2) by (simp add: stored_all_def)
  have du: "disk u = (disk s)(b := c)" "dwrites u = dwrites s @ [(b, c)]" by (subst u, simp)+
  have "t = s\<lparr>bufs := bufs t, sleeplocks := sleeplocks t, disk := replay ((b, c) # ws) (disk s),
      dwrites := dwrites s @ (b, c) # ws\<rparr>"
    by (subst t, subst u) (simp add: du disk_put_def)
  then show ?thesis using assms by (auto simp: stored_all_def stored_def disk_put_def)
qed

lemma stored_allD:
  assumes "stored_all p ws s t"
  shows "calm p s \<Longrightarrow> calm p t" "klog t = klog s" "disksize t = disksize s" "disk t = replay ws (disk s)"
    "dwrites t = dwrites s @ ws" "bio_ok p {} t" "blk t = replay ws (blk s)"
    "dirty t b \<longleftrightarrow> dirty s b \<and> b \<notin> fst ` set ws"
proof -
  have t: "t = s\<lparr>bufs := bufs t, sleeplocks := sleeplocks t, disk := replay ws (disk s), dwrites := dwrites s @ ws\<rparr>"
    using assms by (simp add: stored_all_def)
  show "calm p s \<Longrightarrow> calm p t" "klog t = klog s" "disksize t = disksize s" "disk t = replay ws (disk s)"
    "dwrites t = dwrites s @ ws" by (subst t, simp)+
  show "bio_ok p {} t" "blk t = replay ws (blk s)" "dirty t b \<longleftrightarrow> dirty s b \<and> b \<notin> fst ` set ws"
    using assms by (simp_all add: stored_all_def)
qed

text \<open>The two loop bodies: copy block \<open>y\<close> over block \<open>x\<close>, with the buffers taken in either order.\<close>

lemma blk_length:
  assumes "bio_ok p {} s" "b < disksize s"
  shows "length (blk s (unat b)) = BSIZE"
proof (cases "buf_of s (unat b)")
  case None
  then show ?thesis using assms bio_blocksD(8) [of "{}" s "unat b"] by (simp add: blk_def bio_ok_def word_less_nat_alt)
next
  case (Some i)
  have bl: "bio_blocks {} s" using assms(1) by (simp add: bio_ok_def)
  have "i < NBUF" "b_valid (bufs s i)" using Some buf_of_Some [OF bl] by blast+
  then show ?thesis using Some bio_blocksD(4) [OF bl] by (simp add: blk_def)
qed

lemma clean_read:
  assumes "bio_ok p {} s" "\<not> dirty s b"
  shows "blk s b = disk s b"
  using assms by (intro blk_clean) (auto simp: bio_ok_def)

lemma stored_base:
  assumes "u = s\<lparr>bufs := bufs u, sleeplocks := sleeplocks u\<rparr>" "blk u = blk s" "dirty u = dirty s" "stored p b c u t"
  shows "stored p b c s t"
proof -
  obtain B L where u: "u = s\<lparr>bufs := B, sleeplocks := L\<rparr>" using assms(1) by blast
  have "u\<lparr>bufs := X, sleeplocks := Y, disk := (disk u)(b := c), dwrites := dwrites u @ [(b, c)]\<rparr>
      = s\<lparr>bufs := X, sleeplocks := Y, disk := (disk s)(b := c), dwrites := dwrites s @ [(b, c)]\<rparr>" for X Y
    unfolding u by simp
  then show ?thesis using assms(2-4) unfolding stored_def by metis
qed

text \<open>The destination is read first when a block is copied to the log, last when it is copied home.\<close>

lemma copy_to_log:
  fixes s :: "'a kern_scheme"
  assumes calm: "calm p s" and ok: "bio_ok p {} s" and b: "x < disksize s" "Y (klog s) < disksize s" "x \<noteq> Y (klog s)"
    and dev: "lg_dev (klog s) = 1"
    and room: "card {b. dirty s b} < NBUF" "dirty s (unat (Y (klog s)))"
  shows "\<exists>t. stored p (unat x) (blk s (unat (Y (klog s)))) s t
    \<and> (\<forall>K :: 'a kern_scheme \<Rightarrow> 'a kern_scheme res. rbind (bread (log_dev s) x s) (\<lambda>(to, s). rbind (bread (log_dev s) (Y (klog s)) s) (\<lambda>(from_b, s).
        let s = buf_data to (\<lambda>_. b_data (bufs s from_b)) s in
        rbind (bwrite to s) (\<lambda>s. rbind (brelse from_b s) (\<lambda>s. rbind (brelse to s) K)))) = K t)"
proof -
  let ?y = "Y (klog s)"
  from two_reads [OF calm ok b] room obtain i j s1 u where r: "bread 1 x s = Inr (i, s1)" "bread 1 ?y s1 = Inr (j, u)"
    "i \<noteq> j" "u = s\<lparr>bufs := bufs u, sleeplocks := sleeplocks u\<rparr>" "bio_ok p {j, i} u" "calm p u"
    "b_blockno (bufs u i) = x" "b_data (bufs u j) = blk s (unat ?y)"
    "b_dirty (bufs u j) = dirty s (unat ?y)" "blk u = blk s" "dirty u = dirty s" "klog s1 = klog s" by metis
  have ok2: "bio_ok p {i, j} u" using r(5) by (simp add: insert_commute)
  have "b_dirty (bufs u j) \<or> b_data (bufs u j) = disk u (unat (b_blockno (bufs u j)))" using r(9) room(2) by simp
  from store_pair [OF r(6) ok2 r(3) blk_length [OF ok b(2)] this] obtain t where
    t: "rbind (bwrite i (buf_data i (\<lambda>_. blk s (unat ?y)) u)) (\<lambda>s. rbind (brelse j s) (\<lambda>s. brelse i s)) = Inr t"
    "stored p (unat x) (blk s (unat ?y)) u t" using r(7) by auto
  have "rbind (rbind (bwrite i (buf_data i (\<lambda>_. blk s (unat ?y)) u)) (\<lambda>s. rbind (brelse j s) (\<lambda>s. brelse i s))) K = K t"
    for K :: "'a kern_scheme \<Rightarrow> 'a kern_scheme res"
    by (simp add: t(1))
  moreover have "stored p (unat x) (blk s (unat ?y)) s t" by (rule stored_base [OF r(4) r(10,11) t(2)])
  ultimately show ?thesis using r(8) by (auto simp: r(1,2,12) dev rbind_assoc Let_def)
qed

lemma copy_home:
  fixes s :: "'a kern_scheme"
  assumes calm: "calm p s" and ok: "bio_ok p {} s" and b: "x < disksize s" "Y (klog s) < disksize s" "x \<noteq> Y (klog s)"
    and dev: "lg_dev (klog s) = 1"
    and room: "card {b. dirty s b} < NBUF" "dirty s (unat (Y (klog s))) \<or> card {b. dirty s b} + 1 < NBUF"
  shows "\<exists>t. stored p (unat (Y (klog s))) (blk s (unat x)) s t
    \<and> (\<forall>K :: 'a kern_scheme \<Rightarrow> 'a kern_scheme res. rbind (bread (log_dev s) x s) (\<lambda>(lbuf, s). rbind (bread (log_dev s) (Y (klog s)) s) (\<lambda>(dbuf, s).
        let s = buf_data dbuf (\<lambda>_. b_data (bufs s lbuf)) s in
        rbind (bwrite dbuf s) (\<lambda>s. rbind (brelse lbuf s) (\<lambda>s. rbind (brelse dbuf s) K)))) = K t)"
proof -
  let ?y = "Y (klog s)"
  from two_reads [OF calm ok b] room obtain i j s1 u where r: "bread 1 x s = Inr (i, s1)" "bread 1 ?y s1 = Inr (j, u)"
    "j \<noteq> i" "u = s\<lparr>bufs := bufs u, sleeplocks := sleeplocks u\<rparr>" "bio_ok p {j, i} u" "calm p u"
    "b_blockno (bufs u j) = ?y" "b_data (bufs u i) = blk s (unat x)" "b_blockno (bufs u i) = x"
    "b_dirty (bufs u i) = dirty s (unat x)" "blk u = blk s" "dirty u = dirty s" "klog s1 = klog s" "disk u = disk s" by metis
  have "b_dirty (bufs u i) \<or> b_data (bufs u i) = disk u (unat (b_blockno (bufs u i)))"
    using r(8-10,14) clean_read [OF ok] by auto
  from store_pair [OF r(6,5,3) blk_length [OF ok b(1)] this] obtain t where
    t: "rbind (bwrite j (buf_data j (\<lambda>_. blk s (unat x)) u)) (\<lambda>s. rbind (brelse i s) (\<lambda>s. brelse j s)) = Inr t"
    "stored p (unat ?y) (blk s (unat x)) u t" using r(7) by auto
  have "rbind (rbind (bwrite j (buf_data j (\<lambda>_. blk s (unat x)) u)) (\<lambda>s. rbind (brelse i s) (\<lambda>s. brelse j s))) K = K t"
    for K :: "'a kern_scheme \<Rightarrow> 'a kern_scheme res"
    by (simp add: t(1))
  moreover have "stored p (unat ?y) (blk s (unat x)) s t" by (rule stored_base [OF r(4) r(11,12) t(2)])
  ultimately show ?thesis using r(8) by (auto simp: r(1,2,13) dev rbind_assoc Let_def)
qed

section \<open>The layout of the log\<close>

text \<open>
  The log lies on disk between \<^verbatim>\<open>log.start\<close> and \<^verbatim>\<open>log.start + log.size\<close>; the logged blocks are distinct
  and lie outside it.
\<close>

definition log_ok :: "'a kern_scheme \<Rightarrow> bool" where
  "log_ok s \<longleftrightarrow> (let l = klog s; N = int (unat (disksize s)) in
     lg_dev l = 1 \<and> 0 \<le> lg_start l \<and> lg_start l + lg_size l \<le> N \<and> N < 2 ^ 31
     \<and> 0 \<le> lh_n l \<and> lh_n l \<le> LOGSIZE \<and> lh_n l < lg_size l
     \<and> (\<forall>k < nat (lh_n l). 0 \<le> lh_block l k \<and> lh_block l k < N
         \<and> (lh_block l k < lg_start l \<or> lg_start l + lg_size l \<le> lh_block l k))
     \<and> inj_on (lh_block l) {..<nat (lh_n l)})"

definition head_no :: "log \<Rightarrow> nat" where
  "head_no l = nat (lg_start l)"

definition log_no :: "log \<Rightarrow> nat \<Rightarrow> nat" where
  "log_no l k = nat (lg_start l) + 1 + k"

definition home_no :: "log \<Rightarrow> nat \<Rightarrow> nat" where
  "home_no l k = nat (lh_block l k)"

definition in_log :: "log \<Rightarrow> nat \<Rightarrow> bool" where
  "in_log l b \<longleftrightarrow> lg_start l \<le> int b \<and> int b < lg_start l + lg_size l"

lemma unat_u32_of_int: "0 \<le> i \<Longrightarrow> i < 2 ^ 31 \<Longrightarrow> unat (u32_of_int i) = nat i"
  by (simp add: unat_eq_nat_uint uint_word_of_int take_bit_int_eq_self)

lemma log_okD:
  assumes "log_ok s"
  shows "lg_dev (klog s) = 1" "0 \<le> lh_n (klog s)" "lh_n (klog s) \<le> LOGSIZE"
    and "k < nat (lh_n (klog s)) \<Longrightarrow> unat (u32_of_int (lg_start (klog s) + int k + 1)) = log_no (klog s) k"
    and "k < nat (lh_n (klog s)) \<Longrightarrow> u32_of_int (lg_start (klog s) + int k + 1) < disksize s"
    and "k < nat (lh_n (klog s)) \<Longrightarrow> unat (u32_of_int (lh_block (klog s) k)) = home_no (klog s) k"
    and "k < nat (lh_n (klog s)) \<Longrightarrow> u32_of_int (lh_block (klog s) k) < disksize s"
    and "unat (u32_of_int (lg_start (klog s))) = head_no (klog s)" "u32_of_int (lg_start (klog s)) < disksize s"
    and "k < nat (lh_n (klog s)) \<Longrightarrow> in_log (klog s) (log_no (klog s) k)"
    and "k < nat (lh_n (klog s)) \<Longrightarrow> \<not> in_log (klog s) (home_no (klog s) k)"
    and "in_log (klog s) (head_no (klog s))" "log_no (klog s) k \<noteq> head_no (klog s)"
    and "k < nat (lh_n (klog s)) \<Longrightarrow> j < nat (lh_n (klog s)) \<Longrightarrow> home_no (klog s) k = home_no (klog s) j \<Longrightarrow> k = j"
proof -
  let ?l = "klog s" let ?N = "int (unat (disksize s))"
  have l: "lg_dev ?l = 1" "0 \<le> lg_start ?l" "lg_start ?l + lg_size ?l \<le> ?N" "?N < 2 ^ 31" "0 \<le> lh_n ?l" "lh_n ?l \<le> LOGSIZE"
    "lh_n ?l < lg_size ?l" using assms by (simp_all add: log_ok_def Let_def)
  have h: "0 \<le> lh_block ?l k" "lh_block ?l k < ?N"
    "lh_block ?l k < lg_start ?l \<or> lg_start ?l + lg_size ?l \<le> lh_block ?l k" if "k < nat (lh_n ?l)" for k
    using assms that by (simp_all add: log_ok_def Let_def)
  show "lg_dev ?l = 1" "0 \<le> lh_n ?l" "lh_n ?l \<le> LOGSIZE" using l by simp_all
  have u: "unat (u32_of_int i) = nat i \<and> u32_of_int i < disksize s" if "0 \<le> i" "i < ?N" for i
    using unat_u32_of_int [of i] that l(4) by (simp add: word_less_nat_alt nat_less_iff)
  show "unat (u32_of_int (lg_start ?l + int k + 1)) = log_no ?l k" "u32_of_int (lg_start ?l + int k + 1) < disksize s"
    if "k < nat (lh_n ?l)"
    using u [of "lg_start ?l + int k + 1"] l that by (simp_all add: log_no_def nat_add_distrib)
  show "unat (u32_of_int (lh_block ?l k)) = home_no ?l k" "u32_of_int (lh_block ?l k) < disksize s" if "k < nat (lh_n ?l)"
    using u [OF h(1,2) [OF that]] by (simp_all add: home_no_def)
  show "unat (u32_of_int (lg_start ?l)) = head_no ?l" "u32_of_int (lg_start ?l) < disksize s"
    using u [of "lg_start ?l"] l by (simp_all add: head_no_def)
  show "in_log ?l (log_no ?l k)" "\<not> in_log ?l (home_no ?l k)" if "k < nat (lh_n ?l)"
    using h [OF that] l that by (auto simp: in_log_def log_no_def home_no_def)
  show "in_log ?l (head_no ?l)" using l by (simp add: in_log_def head_no_def)
  show "log_no ?l k \<noteq> head_no ?l" by (simp add: log_no_def head_no_def)
  show "k = j" if "k < nat (lh_n ?l)" "j < nat (lh_n ?l)" "home_no ?l k = home_no ?l j"
  proof -
    have "lh_block ?l k = lh_block ?l j" using h(1) [OF that(1)] h(1) [OF that(2)] that(3) by (simp add: home_no_def)
    moreover have "inj_on (lh_block ?l) {..<nat (lh_n ?l)}" using assms by (simp add: log_ok_def Let_def)
    ultimately show ?thesis using that(1,2) by (auto dest: inj_onD)
  qed
qed

end
