(* ===== verification/LogSpec.thy ===== *)
theory LogSpec
  imports LogInv
begin

text \<open>
  Transactions are atomic: whatever prefix of the disk writes of a commit reaches the disk before a
  crash, recovery leaves every block outside the log with the contents from before the transaction,
  or every block with the contents after it.
\<close>

section \<open>The loops\<close>

lemma log_ok_cong: "klog t = klog s \<Longrightarrow> disksize t = disksize s \<Longrightarrow> log_ok t = log_ok s"
  by (simp add: log_ok_def)

lemma stored_one: "stored p b c s t \<Longrightarrow> stored_all p [(b, c)] s t"
  using stored_all_Cons [of p b c s t "[]" t] stored_all_Nil [of p t] by (simp add: stored_def)

lemma card_dirty_le:
  assumes "bio_ok p H s" "\<And>b. dirty t b \<Longrightarrow> dirty s b"
  shows "card {b. dirty t b} \<le> card {b. dirty s b}"
  using assms card_dirty(2) [of H s] by (intro card_mono) (auto simp: bio_ok_def)

definition log_writes :: "log \<Rightarrow> (nat \<Rightarrow> u8 list) \<Rightarrow> nat list \<Rightarrow> (nat \<times> u8 list) list" where
  "log_writes l c ts = map (\<lambda>k. (log_no l k, c (home_no l k))) ts"

definition home_writes :: "log \<Rightarrow> (nat \<Rightarrow> u8 list) \<Rightarrow> nat list \<Rightarrow> (nat \<times> u8 list) list" where
  "home_writes l c ts = map (\<lambda>k. (home_no l k, c (log_no l k))) ts"

lemma write_log_loop_ok:
  "calm p s \<Longrightarrow> bio_ok p {} s \<Longrightarrow> log_ok s \<Longrightarrow> card {b. dirty s b} < NBUF \<Longrightarrow> distinct ts \<Longrightarrow>
   set ts \<subseteq> {..<nat (lh_n (klog s))} \<Longrightarrow> \<forall>k \<in> set ts. dirty s (home_no (klog s) k) \<Longrightarrow>
   \<forall>b. dirty s b \<longrightarrow> \<not> in_log (klog s) b \<Longrightarrow>
   \<exists>t. write_log_loop ts s = Inr t \<and> stored_all p (log_writes (klog s) (blk s) ts) s t"
proof (induction ts arbitrary: s)
  case Nil
  then show ?case by (simp add: log_writes_def stored_all_Nil)
next
  case (Cons k ts)
  note lg = log_okD [OF Cons.prems(3)]
  let ?l = "klog s" let ?x = "u32_of_int (lg_start ?l + int k + 1)"
  have k: "k < nat (lh_n ?l)" using Cons.prems(6) by simp
  have ne: "?x \<noteq> u32_of_int (lh_block ?l k)" using lg(4,6,10,11) [OF k] by metis
  obtain u where u: "stored p (log_no ?l k) (blk s (home_no ?l k)) s u"
    and K: "write_log_loop (k # ts) s = write_log_loop ts u"
    using copy_to_log [OF Cons.prems(1,2) lg(5) [OF k], of "\<lambda>l. u32_of_int (lh_block l k)"] ne lg(1,7,4,6) k Cons.prems(4,7)
    by fastforce
  note su = stored_allD [OF stored_one [OF u]]
  have du: "dirty u b = dirty s b" for b using su(8) [of b] Cons.prems(8) lg(10) [OF k] by auto
  have bu: "blk u (home_no ?l j) = blk s (home_no ?l j)" if "j < nat (lh_n ?l)" for j
    using su(7) lg(10) [OF k] lg(11) [OF that] by (auto simp: disk_put_def)
  have "\<exists>t. write_log_loop ts u = Inr t \<and> stored_all p (log_writes (klog u) (blk u) ts) u t"
    by (rule Cons.IH) (use su Cons.prems du log_ok_cong [of u s] in auto)
  moreover have "log_writes (klog u) (blk u) ts = log_writes ?l (blk s) ts"
    using bu su(2) Cons.prems(6) by (auto simp: log_writes_def)
  ultimately obtain t where t: "write_log_loop ts u = Inr t" "stored_all p (log_writes ?l (blk s) ts) u t" by auto
  have "log_writes ?l (blk s) (k # ts) = (log_no ?l k, blk s (home_no ?l k)) # log_writes ?l (blk s) ts"
    by (simp add: log_writes_def)
  then show ?case using K t(1) stored_all_Cons [OF u t(2)] by metis
qed

lemma install_loop_ok:
  "calm p s \<Longrightarrow> bio_ok p {} s \<Longrightarrow> log_ok s \<Longrightarrow> card {b. dirty s b} < NBUF \<Longrightarrow> distinct ts \<Longrightarrow>
   set ts \<subseteq> {..<nat (lh_n (klog s))} \<Longrightarrow>
   \<forall>k \<in> set ts. dirty s (home_no (klog s) k) \<or> card {b. dirty s b} + 1 < NBUF \<Longrightarrow>
   \<exists>t. install_loop ts s = Inr t \<and> stored_all p (home_writes (klog s) (blk s) ts) s t"
proof (induction ts arbitrary: s)
  case Nil
  then show ?case by (simp add: home_writes_def stored_all_Nil)
next
  case (Cons k ts)
  note lg = log_okD [OF Cons.prems(3)]
  let ?l = "klog s" let ?x = "u32_of_int (lg_start ?l + int k + 1)"
  have k: "k < nat (lh_n ?l)" using Cons.prems(6) by simp
  have ne: "?x \<noteq> u32_of_int (lh_block ?l k)" using lg(4,6,10,11) [OF k] by metis
  obtain u where u: "stored p (home_no ?l k) (blk s (log_no ?l k)) s u"
    and K: "install_loop (k # ts) s = install_loop ts u"
    using copy_home [OF Cons.prems(1,2) lg(5) [OF k], of "\<lambda>l. u32_of_int (lh_block l k)"] ne lg(1,7,4,6) k Cons.prems(4,7)
    by fastforce
  note su = stored_allD [OF stored_one [OF u]]
  have du: "dirty u b \<longleftrightarrow> dirty s b \<and> b \<noteq> home_no ?l k" for b using su(8) [of b] by auto
  have cd: "card {b. dirty u b} \<le> card {b. dirty s b}" by (rule card_dirty_le [OF Cons.prems(2)]) (simp add: du)
  have bu: "blk u (log_no ?l j) = blk s (log_no ?l j)" if "j < nat (lh_n ?l)" for j
    using su(7) lg(10) [OF that] lg(11) [OF k] by (auto simp: disk_put_def)
  have di: "dirty u (home_no ?l j) \<or> card {b. dirty u b} + 1 < NBUF" if "j \<in> set ts" for j
  proof -
    have "home_no ?l j \<noteq> home_no ?l k" using lg(14) [of j k] Cons.prems(5,6) that k by auto
    then show ?thesis using Cons.prems(7) that cd by (auto simp: du)
  qed
  have "\<exists>t. install_loop ts u = Inr t \<and> stored_all p (home_writes (klog u) (blk u) ts) u t"
    by (rule Cons.IH) (use su Cons.prems di cd log_ok_cong [of u s] in auto)
  moreover have "home_writes (klog u) (blk u) ts = home_writes ?l (blk s) ts"
    using bu su(2) Cons.prems(6) by (auto simp: home_writes_def)
  ultimately obtain t where t: "install_loop ts u = Inr t" "stored_all p (home_writes ?l (blk s) ts) u t" by auto
  have "home_writes ?l (blk s) (k # ts) = (home_no ?l k, blk s (log_no ?l k)) # home_writes ?l (blk s) ts"
    by (simp add: home_writes_def)
  then show ?case using K t(1) stored_all_Cons [OF u t(2)] by metis
qed


section \<open>The header\<close>

definition head_bytes :: "log \<Rightarrow> u8 list \<Rightarrow> u8 list" where
  "head_bytes l d = put_blocks [0..<nat (lh_n l)] (lh_block l) (put32 0 (u32_of_int (lh_n l)) d)"

lemma head_bytes_ok:
  assumes "length d = BSIZE" "0 \<le> lh_n l" "lh_n l \<le> LOGSIZE"
  shows "length (head_bytes l d) = BSIZE" "int_of_u32 (get32 0 (head_bytes l d)) = lh_n l"
    and "k < nat (lh_n l) \<Longrightarrow> 0 \<le> lh_block l k \<Longrightarrow> lh_block l k < 2 ^ 31 \<Longrightarrow>
      int_of_u32 (get32 (4 + 4 * k) (head_bytes l d)) = lh_block l k"
proof -
  let ?e = "put32 0 (u32_of_int (lh_n l)) d"
  have e: "length ?e = BSIZE" using assms(1) by (simp add: length_put32)
  have "\<forall>i \<in> set [0..<nat (lh_n l)]. 8 + 4 * i \<le> length ?e" using e assms(2,3) by auto
  note pb = put_blocks_ok [OF distinct_upt this, of "lh_block l"]
  show "length (head_bytes l d) = BSIZE" using pb e by (simp add: head_bytes_def)
  have "get32 0 (head_bytes l d) = get32 0 ?e" using pb e by (simp add: head_bytes_def)
  also have "\<dots> = u32_of_int (lh_n l)" using assms(1) by (simp add: get32_put32)
  finally show "int_of_u32 (get32 0 (head_bytes l d)) = lh_n l" using assms sint_small [of "lh_n l"] by simp
  show "int_of_u32 (get32 (4 + 4 * k) (head_bytes l d)) = lh_block l k"
    if "k < nat (lh_n l)" "0 \<le> lh_block l k" "lh_block l k < 2 ^ 31"
    using pb that sint_small [of "lh_block l k"] by (simp add: head_bytes_def)
qed

lemma bio_upd_log [simp]:
  "bio_ok p H (s\<lparr>klog := l\<rparr>) = bio_ok p H s" "blk (s\<lparr>klog := l\<rparr>) = blk s" "dirty (s\<lparr>klog := l\<rparr>) = dirty s"
  by (auto simp: bio_ok_def bio_locks_def bio_blocks_def blk_def fun_eq_iff buf_of_def dirty_def split: option.splits)

lemma write_head_ok:
  assumes calm: "calm p s" and ok: "bio_ok p {} s" and lg: "log_ok s" and room: "card {b. dirty s b} < NBUF"
  shows "\<exists>t. write_head s = Inr t
    \<and> stored_all p [(head_no (klog s), head_bytes (klog s) (blk s (head_no (klog s))))] s t"
proof -
  let ?l = "klog s" let ?b = "u32_of_int (lg_start ?l)" let ?c = "head_bytes ?l (blk s (head_no ?l))"
  note d = log_okD [OF lg]
  obtain i u where r: "bread 1 ?b s = Inr (i, u)" "read_into p {} ?b s i u"
    using bread_room [OF calm ok d(9)] room by auto
  then have u: "u = s\<lparr>bufs := bufs u, sleeplocks := sleeplocks u\<rparr>" "bio_ok p {i} u" "b_blockno (bufs u i) = ?b"
    "b_data (bufs u i) = blk s (head_no ?l)" "blk u = blk s" "dirty u = dirty s" using d(8) by (auto simp: read_into_def)
  have cu: "calm p u" using calm by (subst u(1)) simp
  have ku: "klog u = ?l" by (subst u(1)) simp
  have lc: "length ?c = BSIZE" using head_bytes_ok(1) [of "blk s (head_no ?l)" ?l] blk_length [OF ok d(9)] d by simp
  have bd: "buf_data i (\<lambda>d. put_blocks [0..<nat (lh_n ?l)] (lh_block ?l) (put32 0 (u32_of_int (lh_n ?l)) d)) u
      = buf_data i (\<lambda>_. ?c) u"
    by (simp add: upd_buf_def head_bytes_def u(4))
  obtain v where v: "bwrite i (buf_data i (\<lambda>_. ?c) u) = Inr v"
    "v = u\<lparr>bufs := bufs v, disk := (disk u)(head_no ?l := ?c), dwrites := dwrites u @ [(head_no ?l, ?c)]\<rparr>" "bio_ok p {i} v"
    "blk v = (blk u)(head_no ?l := ?c)" "dirty v = (dirty u)(head_no ?l := False)"
    "b_data (bufs v i) = ?c" "b_blockno (bufs v i) = b_blockno (bufs u i)" "calm p v"
    using held_write [OF cu u(2) _ lc, of i "head_no ?l"] u(3) d(8) by (metis singletonI)
  have "disk v = (disk u)(head_no ?l := ?c)" by (subst v(2)) simp
  then have cl: "b_data (bufs v i) = disk v (unat (b_blockno (bufs v i)))" using v(6,7) u(3) d(8) by simp
  obtain t where t: "brelse i v = Inr t" "t = v\<lparr>bufs := bufs t, sleeplocks := sleeplocks t\<rparr>" "bio_ok p ({i} - {i}) t"
    "blk t = blk v" "dirty t = dirty v"
    using held_release [OF v(8,3) _ disjI2 [OF cl]] by (metis singletonI)
  have "t = u\<lparr>bufs := bufs t, sleeplocks := sleeplocks t, disk := (disk u)(head_no ?l := ?c),
      dwrites := dwrites u @ [(head_no ?l, ?c)]\<rparr>" by (subst t(2), subst v(2)) simp
  then have "stored p (head_no ?l) ?c u t" using t v(4,5) by (simp add: stored_def)
  then have "stored p (head_no ?l) ?c s t" by (rule stored_base [OF u(1,5,6)])
  moreover have "write_head s = Inr t"
    using d(1,3) by (simp add: write_head_def r(1) ku bd v(1) t(1))
  ultimately show ?thesis using stored_one by blast
qed


section \<open>Commit\<close>

text \<open>
  The disk writes of a commit, in order: the logged blocks, the header that commits them, the blocks
  at their home, the empty header.
\<close>

definition commit_writes :: "log \<Rightarrow> (nat \<Rightarrow> u8 list) \<Rightarrow> (nat \<times> u8 list) list" where
  "commit_writes l c = (let ks = [0..<nat (lh_n l)]; h = head_bytes l (c (head_no l)) in
     log_writes l c ks @ [(head_no l, h)] @ map (\<lambda>k. (home_no l k, c (home_no l k))) ks
     @ [(head_no l, head_bytes (l\<lparr>lh_n := 0\<rparr>) h)])"

lemma log_ok_empty: "log_ok s \<Longrightarrow> log_ok (s\<lparr>klog := (klog s)\<lparr>lh_n := 0\<rparr>\<rparr>)"
  by (simp add: log_ok_def Let_def)

lemma log_no_inj: "log_no l k = log_no l j \<longleftrightarrow> k = j"
  by (simp add: log_no_def)

lemma log_writes_in:
  assumes "log_ok s" "l = klog s" "k < nat (lh_n l)"
  shows "replay (log_writes l c [0..<nat (lh_n l)]) d (log_no l k) = c (home_no l k)"
  using assms by (intro replay_in) (auto simp: log_writes_def distinct_map inj_on_def log_no_inj comp_def)

lemma fst_log: "fst ` set (log_writes l c ks) = log_no l ` set ks"
  by (auto simp: log_writes_def image_iff)

lemma log_writes_other:
  assumes "\<And>k. b \<noteq> log_no l k"
  shows "replay (log_writes l c ks) d b = d b"
  using assms by (simp add: replay_other fst_log image_iff)

lemma home_other:
  assumes "\<And>k. k \<in> set ks \<Longrightarrow> b \<noteq> home_no l k"
  shows "replay (map (\<lambda>k. (home_no l k, f k)) ks) d b = d b"
  by (rule replay_other) (simp add: image_image image_iff, metis assms)

lemma commit_ok:
  assumes calm: "calm p s" and ok: "bio_ok p {} s" and lg: "log_ok s" and n: "0 < lh_n (klog s)"
    and room: "card {b. dirty s b} < NBUF"
    and dirty: "\<And>b. dirty s b \<longleftrightarrow> (\<exists>k < nat (lh_n (klog s)). b = home_no (klog s) k)"
  shows "\<exists>t. commit s = Inr t \<and> calm p t \<and> bio_ok p {} t \<and> (\<forall>b. \<not> dirty t b)
    \<and> klog t = (klog s)\<lparr>lh_n := 0\<rparr> \<and> dwrites t = dwrites s @ commit_writes (klog s) (blk s)
    \<and> disk t = replay (commit_writes (klog s) (blk s)) (disk s) \<and> disksize t = disksize s"
proof -
  let ?l = "klog s" let ?ks = "[0..<nat (lh_n ?l)]" let ?LW = "log_writes ?l (blk s) ?ks"
  let ?hd = "head_no ?l" let ?h = "head_bytes ?l (blk s ?hd)" let ?e = "?l\<lparr>lh_n := 0\<rparr>"
  let ?HW = "map (\<lambda>k. (home_no ?l k, blk s (home_no ?l k))) ?ks"
  note d = log_okD [OF lg]
  have nl: "\<not> in_log ?l b" if "dirty s b" for b using that dirty d(11) by auto
  have ks: "set ?ks \<subseteq> {..<nat (lh_n ?l)}" and dk: "\<forall>k \<in> set ?ks. dirty s (home_no ?l k)" using dirty by auto
  obtain s1 where s1: "write_log s = Inr s1" "stored_all p ?LW s s1"
    using write_log_loop_ok [OF calm ok lg room distinct_upt ks dk] nl unfolding write_log_def by blast
  note D1 = stored_allD [OF s1(2)]
  have L1: "fst ` set ?LW = log_no ?l ` {..<nat (lh_n ?l)}" by (auto simp: fst_log)
  have dy1: "dirty s1 = dirty s" using D1(8) nl d(10) by (auto simp: L1 fun_eq_iff)
  have hd1: "blk s1 ?hd = blk s ?hd" using D1(7) d(13) log_writes_other [of ?hd ?l] by metis
  obtain s2 where s2: "write_head s1 = Inr s2" "stored_all p [(?hd, ?h)] s1 s2"
    using write_head_ok [OF D1(1) [OF calm] D1(6), unfolded log_ok_cong [OF D1(2,3)]] lg room D1(2) dy1 hd1 by auto
  note D2 = stored_allD [OF s2(2)]
  have lg2: "log_ok s2" using lg log_ok_cong [of s2 s] D1(2,3) D2(2,3) by simp
  have dy2: "dirty s2 = dirty s" using D2(8) nl d(12) by (auto simp: dy1 fun_eq_iff)
  have k2: "klog s2 = ?l" using D1(2) D2(2) by simp
  obtain s3 where s3: "install_trans s2 = Inr s3" "stored_all p (home_writes ?l (blk s2) ?ks) s2 s3"
    using install_loop_ok [OF D2(1) [OF D1(1) [OF calm]] D2(6) lg2 _ distinct_upt, unfolded k2 dy2, OF room ks] dk
    unfolding install_trans_def k2 by blast
  have hw: "home_writes ?l (blk s2) ?ks = ?HW"
    using D1(7) D2(7) log_writes_in [OF lg refl] d(13) by (auto simp: home_writes_def disk_put_def)
  note D3 = stored_allD [OF s3(2) [unfolded hw]]
  let ?s3 = "s3\<lparr>klog := ?e\<rparr>"
  have c3: "calm p ?s3" using D3(1) D2(1) D1(1) calm by simp
  have nd: "\<not> dirty s3 b" for b using D3(8) [of b] dirty by (auto simp: dy2 image_image)
  have "log_ok s3" using lg2 log_ok_cong [of s3 s2] D3(2,3) by simp
  then have lg3: "log_ok ?s3" using log_ok_empty [of s3] D3(2) k2 by simp
  have hd3: "blk s3 ?hd = ?h"
  proof -
    have "?hd \<noteq> home_no ?l k" if "k \<in> set ?ks" for k using d(11) [of k] d(12) that by auto
    then show ?thesis using D3(7) D2(7) home_other [of ?ks ?hd ?l] by (simp add: disk_put_def)
  qed
  obtain t where t: "write_head ?s3 = Inr t" "stored_all p [(?hd, head_bytes ?e ?h)] ?s3 t"
    using write_head_ok [OF c3 _ lg3] D3(6) nd hd3 by (auto simp: head_no_def)
  note D4 = stored_allD [OF t(2)]
  have "commit s = Inr t" using n s1(1) s2(1) s3(1) t(1) D3(2) k2 by (simp add: commit_def)
  moreover have "dwrites t = dwrites s @ commit_writes ?l (blk s)" "disk t = replay (commit_writes ?l (blk s)) (disk s)"
    "disksize t = disksize s"
    using D1(3-5) D2(3-5) D3(3-5) D4(3-5) by (simp_all add: commit_writes_def Let_def)
  ultimately show ?thesis using D4 c3 nd by auto
qed


section \<open>Recovery\<close>

definition head_log :: "log \<Rightarrow> u8 list \<Rightarrow> log" where
  "head_log l d = l\<lparr>lh_n := int_of_u32 (get32 0 d),
     lh_block := (\<lambda>i. if int i < int_of_u32 (get32 0 d) then int_of_u32 (get32 (4 + 4 * i) d) else lh_block l i)\<rparr>"

lemma head_log_sel [simp]: "lg_dev (head_log l d) = lg_dev l" "lg_start (head_log l d) = lg_start l"
  "lg_size (head_log l d) = lg_size l" "head_no (head_log l d) = head_no l" "log_no (head_log l d) = log_no l"
  "in_log (head_log l d) = in_log l"
  by (simp_all add: head_log_def head_no_def log_no_def fun_eq_iff in_log_def)

lemma ready_release:
  assumes r: "bio_ready p s" and u: "read_into p {} b s i u"
  shows "\<exists>t. brelse i (u\<lparr>klog := l\<rparr>) = Inr t \<and> bio_ready p t \<and> klog t = l \<and> disk t = disk s \<and> dwrites t = dwrites s
    \<and> disksize t = disksize s"
proof -
  let ?u = "u\<lparr>klog := l\<rparr>"
  have e: "u = s\<lparr>bufs := bufs u, sleeplocks := sleeplocks u\<rparr>" and ok: "bio_ok p {i} u" and dy: "dirty u = dirty s"
    using u by (simp_all add: read_into_def)
  have c: "calm p ?u" using r by (subst e) (simp add: bio_ready_def)
  have du: "disk u = disk s" "dwrites u = dwrites s" "disksize u = disksize s" by (subst e, simp)+
  have "b_data (bufs ?u i) = disk ?u (unat (b_blockno (bufs ?u i)))"
    using u r clean_read [of p s] du by (simp add: read_into_def bio_ready_def)
  from held_release [OF c _ _ disjI2 [OF this], of "{i}"] ok obtain t where
    t: "brelse i ?u = Inr t" "t = ?u\<lparr>bufs := bufs t, sleeplocks := sleeplocks t\<rparr>" "bio_ok p {} t" "dirty t = dirty s" "calm p t"
    by (auto simp: dy)
  have "klog t = l" "disk t = disk s" "dwrites t = dwrites s" "disksize t = disksize s" by (subst t(2), simp add: du)+
  then show ?thesis using t r by (auto simp: bio_ready_def)
qed

lemma read_into_klog:
  assumes "read_into p H b s i u"
  shows "klog u = klog s"
proof -
  have u: "u = s\<lparr>bufs := bufs u, sleeplocks := sleeplocks u\<rparr>" using assms by (simp add: read_into_def)
  show ?thesis by (subst u) simp
qed

lemma readsb_ok:
  assumes r: "bio_ready p s" and b: "1 < disksize s"
  shows "\<exists>t. readsb 1 s = Inr (get_superblock (disk s 1), t) \<and> bio_ready p t \<and> klog t = klog s \<and> disk t = disk s
    \<and> dwrites t = dwrites s \<and> disksize t = disksize s"
proof -
  obtain i u where u: "bread 1 1 s = Inr (i, u)" "read_into p {} 1 s i u" using bread_ready [OF r b] by blast
  have "u\<lparr>klog := klog s\<rparr> = u" by (simp flip: read_into_klog [OF u(2)])
  moreover have "b_data (bufs u i) = disk s 1" using u(2) r clean_read [of p s 1] by (simp add: read_into_def bio_ready_def)
  ultimately show ?thesis using ready_release [OF r u(2), of "klog s"] u(1) by (auto simp: readsb_def)
qed

lemma recover_ok:
  fixes s :: "'a kern_scheme"
  defines "h \<equiv> disk s (head_no (klog s))"
  defines "l \<equiv> head_log (klog s) h"
  assumes r: "bio_ready p s" and lg: "log_ok (s\<lparr>klog := l\<rparr>)"
  shows "\<exists>t. recover_from_log s = Inr t \<and> bio_ready p t \<and> klog t = l\<lparr>lh_n := 0\<rparr> \<and> disksize t = disksize s
    \<and> disk t = replay (home_writes l (disk s) [0..<nat (lh_n l)] @ [(head_no l, head_bytes (l\<lparr>lh_n := 0\<rparr>) h)]) (disk s)"
proof -
  let ?b = "u32_of_int (lg_start (klog s))" let ?ks = "[0..<nat (lh_n l)]" let ?e = "l\<lparr>lh_n := 0\<rparr>"
  note d = log_okD [OF lg, simplified]
  have l: "lg_start l = lg_start (klog s)" "lg_dev l = lg_dev (klog s)" "head_no l = head_no (klog s)"
    by (simp_all add: l_def)
  obtain i u where u: "bread 1 ?b s = Inr (i, u)" "read_into p {} ?b s i u" using bread_ready [OF r] d(9) l by metis
  have bd: "b_data (bufs u i) = h"
    using u(2) r clean_read [of p s] d(8) l by (simp add: read_into_def bio_ready_def h_def)
  have ku: "klog u = klog s" using u(2) by (rule read_into_klog)
  obtain v where v: "brelse i (u\<lparr>klog := l\<rparr>) = Inr v" "bio_ready p v" "klog v = l" "disk v = disk s"
    "disksize v = disksize s" using ready_release [OF r u(2), of l] by auto
  have rh: "read_head s = Inr v"
    using u(1) v(1) d(1,3) l by (simp add: read_head_def bd ku l_def head_log_def Let_def cong: if_cong)
  have bv: "calm p v" "bio_ok p {} v" "\<And>b. \<not> dirty v b" using v(2) by (simp_all add: bio_ready_def)
  have blk: "blk v = disk s" using clean_read [OF bv(2,3)] v(4) by (auto simp: fun_eq_iff)
  have lv: "log_ok v" using lg log_ok_cong [of v "s\<lparr>klog := l\<rparr>"] v(3,5) by simp
  have "\<exists>w. install_loop ?ks v = Inr w \<and> stored_all p (home_writes (klog v) (blk v) ?ks) v w"
    by (rule install_loop_ok [OF bv(1,2) lv]) (use bv(3) v(3) in auto)
  then obtain w where w: "install_trans v = Inr w" "stored_all p (home_writes l (disk s) ?ks) v w"
    unfolding install_trans_def v(3) blk by blast
  note D = stored_allD [OF w(2)]
  let ?w = "w\<lparr>klog := ?e\<rparr>"
  have cw: "calm p ?w" using D(1) bv(1) by simp
  have nw: "\<not> dirty w b" for b using D(8) bv(3) by simp
  have "log_ok w" using lv log_ok_cong [of w v] D(2,3) by simp
  then have lw: "log_ok ?w" using log_ok_empty [of w] D(2) v(3) by simp
  have "blk w (head_no l) = h"
  proof -
    have "head_no l \<noteq> home_no l k" if "k \<in> set ?ks" for k using d(11) [of k] d(12) that by auto
    then show ?thesis using D(7) home_other [of ?ks "head_no l" l] blk by (simp add: home_writes_def h_def l(3))
  qed
  then obtain t where t: "write_head ?w = Inr t" "stored_all p [(head_no l, head_bytes ?e h)] ?w t"
    using write_head_ok [OF cw _ lw] D(6) nw by (auto simp: head_no_def)
  note D' = stored_allD [OF t(2)]
  have "recover_from_log s = Inr t" using rh w(1) t(1) D(2) v(3) by (simp add: recover_from_log_def)
  moreover have "bio_ready p t" using D' cw nw by (simp add: bio_ready_def)
  moreover have "disk t = replay (home_writes l (disk s) ?ks @ [(head_no l, head_bytes ?e h)]) (disk s)"
    using D(4) D'(4) v(4) by simp
  ultimately show ?thesis using D'(2,3) D(3) v(5) by auto
qed

lemma boot_log_ok:
  assumes c: "calm p s" "cold s" and b: "1 < disksize s"
    and l: "l = (klog s)\<lparr>lg_start := int_of_u32 (sb_logstart (get_superblock (disk s 1))),
      lg_size := int_of_u32 (sb_nlog (get_superblock (disk s 1))), lg_dev := 1\<rparr>"
    and h: "h = disk s (head_no l)" and lg: "log_ok (s\<lparr>klog := head_log l h\<rparr>)"
  shows "\<exists>t. initlog 1 (binit s) = Inr t \<and> bio_ready p t \<and> klog t = (head_log l h)\<lparr>lh_n := 0\<rparr> \<and> disksize t = disksize s
    \<and> disk t = replay (home_writes (head_log l h) (disk s) [0..<nat (lh_n (head_log l h))]
        @ [(head_no l, head_bytes ((head_log l h)\<lparr>lh_n := 0\<rparr>) h)]) (disk s)"
proof -
  let ?s = "binit s"
  obtain B L where eq: "?s = s\<lparr>bufs := B, sleeplocks := L\<rparr>" using binit_ok(1) [OF c] by blast
  have r: "bio_ready p ?s" using binit_ok(2,4) [OF c] c(1) by (simp add: bio_ready_def) (simp add: eq)
  have "locks ?s LogLock = \<lparr>locked = False, lk_cpu = None\<rparr>" using calmD(2) [OF c(1), of LogLock] by (simp add: eq lock_free_def)
  then have il: "initlock LogLock ?s = ?s" by (simp add: initlock_def fun_upd_idem)
  obtain u where u: "readsb 1 ?s = Inr (get_superblock (disk s 1), u)" "bio_ready p u" "klog u = klog s" "disk u = disk s"
    "disksize u = disksize s" using readsb_ok [OF r] b by (auto simp: eq)
  let ?u = "u\<lparr>klog := l\<rparr>"
  have ru: "bio_ready p ?u" using u(2) by (simp add: bio_ready_def)
  have lu: "log_ok (?u\<lparr>klog := head_log (klog ?u) (disk ?u (head_no (klog ?u)))\<rparr>)"
    using lg log_ok_cong [of "u\<lparr>klog := head_log l h\<rparr>" "s\<lparr>klog := head_log l h\<rparr>"] u(4,5) h by simp
  have "initlog 1 ?s = recover_from_log ?u" using il u(1,3) l by (simp add: initlog_def)
  then show ?thesis using recover_ok [OF ru lu] u(4,5) h by simp
qed


section \<open>Crashes\<close>

lemma take_commit:
  "take m (A @ [x] @ B @ [y]) = (if m \<le> length A then take m A
     else if m \<le> length A + 1 + length B then A @ [x] @ take (m - length A - 1) B else A @ [x] @ B @ [y])"
proof (cases "m \<le> length A")
  case False
  then obtain j where "m = length A + Suc j" by (metis add_Suc_right less_imp_Suc_add not_le)
  then show ?thesis by (cases "j - length B") auto
qed simp

lemma log_ok_zero:
  assumes "log_ok s" "disksize t = disksize s" "lg_dev (klog t) = 1" "lg_start (klog t) = lg_start (klog s)"
    "lg_size (klog t) = lg_size (klog s)" "lh_n (klog t) = 0"
  shows "log_ok t"
  using assms by (simp add: log_ok_def Let_def)

lemma log_ok_same:
  assumes "log_ok s" "disksize t = disksize s" "lg_dev (klog t) = 1" "lg_start (klog t) = lg_start (klog s)"
    "lg_size (klog t) = lg_size (klog s)" "lh_n (klog t) = lh_n (klog s)"
    "\<And>k. k < nat (lh_n (klog s)) \<Longrightarrow> lh_block (klog t) k = lh_block (klog s) k"
  shows "log_ok t"
proof -
  have "inj_on (lh_block (klog t)) {..<nat (lh_n (klog s))} = inj_on (lh_block (klog s)) {..<nat (lh_n (klog s))}"
    using assms(7) by (intro inj_on_cong) auto
  then show ?thesis using assms by (simp add: log_ok_def Let_def)
qed

text \<open>
  The crash argument on bare disks: \<open>e\<close> is the disk before the commit, \<open>c\<close> the cached contents to be
  committed, \<open>d\<close> the disk found at boot and \<open>l'\<close> the log as it is read from there.
\<close>

lemma crash_prefix:
  assumes lg: "log_ok s" and l: "l = klog s" and n: "n = nat (lh_n l)"
    and d: "d = replay (take m (commit_writes l c)) e"
  shows "m \<le> n \<Longrightarrow> d (head_no l) = e (head_no l)" "m \<le> n \<Longrightarrow> \<not> in_log l b \<Longrightarrow> d b = e b"
    and "n < m \<Longrightarrow> m \<le> n + 1 + n \<Longrightarrow> d (head_no l) = head_bytes l (c (head_no l))"
    and "n < m \<Longrightarrow> m \<le> n + 1 + n \<Longrightarrow> k < n \<Longrightarrow> d (log_no l k) = c (home_no l k)"
    and "\<not> in_log l b \<Longrightarrow> b \<notin> home_no l ` {..<n} \<Longrightarrow> d b = e b"
    and "n + 1 + n < m \<Longrightarrow> d (head_no l) = head_bytes (l\<lparr>lh_n := 0\<rparr>) (head_bytes l (c (head_no l)))"
    and "n + 1 + n < m \<Longrightarrow> k < n \<Longrightarrow> d (home_no l k) = c (home_no l k)"
proof -
  note D = log_okD [OF lg, folded l, folded n(1)]
  let ?hd = "head_no l" let ?h1 = "head_bytes l (c ?hd)" let ?LW = "log_writes l c [0..<n]"
  let ?HW = "map (\<lambda>k. (home_no l k, c (home_no l k))) [0..<n]" let ?h0 = "head_bytes (l\<lparr>lh_n := 0\<rparr>) ?h1"
  have len: "length ?LW = n" "length ?HW = n" by (simp_all add: log_writes_def)
  have dd: "d = replay (if m \<le> n then take m ?LW
      else if m \<le> n + 1 + n then ?LW @ [(?hd, ?h1)] @ take (m - n - 1) ?HW else ?LW @ [(?hd, ?h1)] @ ?HW @ [(?hd, ?h0)]) e"
    unfolding d commit_writes_def Let_def n [symmetric] take_commit len ..
  have fL: "fst ` set (take i ?LW) \<subseteq> log_no l ` {..<n}" for i
    using image_mono [OF set_take_subset [of i ?LW], of fst] by (simp add: fst_log atLeast0LessThan)
  have fH: "fst ` set (take i ?HW) \<subseteq> home_no l ` {..<n}" for i
    using image_mono [OF set_take_subset [of i ?HW], of fst] by (simp add: image_image atLeast0LessThan)
  have L: "replay (take i ?LW) f b = f b" if "b \<notin> log_no l ` {..<n}" for i f b
    using fL that by (intro replay_other) blast
  have H: "replay (take i ?HW) f b = f b" if "b \<notin> home_no l ` {..<n}" for i f b
    using fH that by (intro replay_other) blast
  have L': "replay ?LW f b = f b" if "b \<notin> log_no l ` {..<n}" for f b using L [OF that, of n] len by simp
  have H': "replay ?HW f b = f b" if "b \<notin> home_no l ` {..<n}" for f b using H [OF that, of n] by simp
  have hd: "?hd \<notin> log_no l ` {..<n}" "?hd \<notin> home_no l ` {..<n}" using D(11-13) by (auto, metis)
  have nl: "b \<notin> log_no l ` {..<n}" if "\<not> in_log l b" for b using D(10) that by auto
  have lh: "log_no l k \<notin> home_no l ` {..<n}" if "k < n" for k using D(10) [OF that] D(11) by auto
  show "m \<le> n \<Longrightarrow> d ?hd = e ?hd" "m \<le> n \<Longrightarrow> \<not> in_log l b \<Longrightarrow> d b = e b"
    using L hd nl by (simp_all add: dd)
  show "n < m \<Longrightarrow> m \<le> n + 1 + n \<Longrightarrow> d ?hd = ?h1" using H hd by (simp add: dd disk_put_def)
  show "n < m \<Longrightarrow> m \<le> n + 1 + n \<Longrightarrow> k < n \<Longrightarrow> d (log_no l k) = c (home_no l k)"
    using H lh [of k] D(13) log_writes_in [OF lg l] n by (simp add: dd disk_put_def)
  show "d b = e b" if "\<not> in_log l b" "b \<notin> home_no l ` {..<n}"
    using L L' H H' that nl [of b] D(12) by (auto simp: dd disk_put_def)
  show "n + 1 + n < m \<Longrightarrow> d ?hd = ?h0" by (simp add: dd disk_put_def)
  have "replay ?HW f (home_no l k) = c (home_no l k)" if "k < n" for f
    using that D(14) by (intro replay_in) (auto simp: distinct_map inj_on_def comp_def)
  then show "n + 1 + n < m \<Longrightarrow> k < n \<Longrightarrow> d (home_no l k) = c (home_no l k)"
    using D(11) [of k] D(12) by (cases "home_no l k = ?hd") (simp_all add: dd disk_put_def)
qed


lemma crash_disk:
  fixes s :: "'a kern_scheme" and s' :: "'a kern_scheme"
  assumes lg: "log_ok s" and l: "l = klog s" and n: "n = nat (lh_n l)"
    and clean: "\<And>b. \<not> in_log l b \<Longrightarrow> b \<notin> home_no l ` {..<n} \<Longrightarrow> c b = e b"
    and empty: "get32 0 (e (head_no l)) = 0" and len: "length (c (head_no l)) = BSIZE"
    and l0: "lg_start l0 = lg_start l" "lg_size l0 = lg_size l" "lg_dev l0 = 1"
    and d: "d = replay (take m (commit_writes l c)) e" and l': "l' = head_log l0 (d (head_no l))"
    and s': "disksize s' = disksize s"
  shows "log_ok (s'\<lparr>klog := l'\<rparr>)
    \<and> (\<forall>b. \<not> in_log l b \<longrightarrow>
        replay (home_writes l' d [0..<nat (lh_n l')] @ [(head_no l, x)]) d b = (if m \<le> n then e b else c b))"
proof -
  note D = log_okD [OF lg, folded l, folded n(1)] and P = crash_prefix [OF lg l n d]
  have no: "log_no l' = log_no l" using l0 by (simp add: l' log_no_def fun_eq_iff)
  have dev: "lg_dev l' = 1" "lg_start l' = lg_start l" "lg_size l' = lg_size l" using l0 by (simp_all add: l')
  have nh: "b \<noteq> head_no l" if "\<not> in_log l b" for b using that D(12) by auto
  have L1: "length (head_bytes l (c (head_no l))) = BSIZE" using head_bytes_ok(1) [OF len D(2,3)] .
  show ?thesis
  proof (cases "n < m \<and> m \<le> n + 1 + n")
    case False
    then have z: "lh_n l' = 0"
      using P(1,6) empty head_bytes_ok(2) [OF L1, of "l\<lparr>lh_n := 0\<rparr>"] by (cases "m \<le> n") (auto simp: l' head_log_def)
    have "log_ok (s'\<lparr>klog := l'\<rparr>)" by (rule log_ok_zero [OF lg]) (use s' dev l z in simp_all)
    moreover have "d b = (if m \<le> n then e b else c b)" if "\<not> in_log l b" for b
      using False that P(2,5,7) clean [of b] by (cases "b \<in> home_no l ` {..<n}") auto
    ultimately show ?thesis using z nh by (simp add: home_writes_def disk_put_def)
  next
    case True
    note h = P(3) [OF conjunct1 [OF True] conjunct2 [OF True]]
    have hn: "lh_n l' = lh_n l" using head_bytes_ok(2) [OF len D(2,3)] by (simp add: l' head_log_def h)
    have hb: "lh_block l' k = lh_block l k" if "k < n" for k
    proof -
      have "0 \<le> lh_block l k" "lh_block l k < 2 ^ 31" using lg that n l by (auto simp: log_ok_def Let_def)
      then show ?thesis using head_bytes_ok(2,3) [OF len D(2,3)] that n by (auto simp: l' head_log_def h)
    qed
    have "log_ok (s'\<lparr>klog := l'\<rparr>)"
      by (rule log_ok_same [OF lg]) (use s' dev hn hb n l in simp_all)
    moreover have "replay (home_writes l' d [0..<n] @ [(head_no l, x)]) d b = c b" if b: "\<not> in_log l b" for b
    proof -
      have hh: "home_no l' k = home_no l k" if "k < n" for k using hb that by (simp add: home_no_def)
      have "replay (home_writes l' d [0..<n]) d b = c b"
      proof (cases "b \<in> home_no l ` {..<n}")
        case True
        then obtain k where k: "k < n" "b = home_no l k" by blast
        have "distinct (map fst (home_writes l' d [0..<n]))"
          using D(14) hh by (auto simp: home_writes_def distinct_map inj_on_def comp_def)
        moreover have "(b, c b) \<in> set (home_writes l' d [0..<n])"
          using k hh P(4) \<open>n < m \<and> m \<le> n + 1 + n\<close> by (auto simp: home_writes_def no image_iff intro!: bexI [of _ k])
        ultimately show ?thesis by (rule replay_in)
      next
        case False
        then have "replay (home_writes l' d [0..<n]) d b = d b"
          using hh by (intro replay_other) (auto simp: home_writes_def image_image)
        then show ?thesis using P(5) [OF b False] clean [OF b False] by simp
      qed
      then show ?thesis using nh [OF b] by (simp add: disk_put_def)
    qed
    ultimately show ?thesis using True hn n by simp
  qed
qed

end
