(* ===== verification/TxnSpec.thy ===== *)
theory TxnSpec
  imports LogSpec
begin

text \<open>
  Transactions: the system-call pattern of \<^verbatim>\<open>log.c\<close> (\<^verbatim>\<open>begin_op\<close>, updates through \<^verbatim>\<open>log_write\<close>,
  \<^verbatim>\<open>end_op\<close>) as one atomic update of the block array.
\<close>

section \<open>Recording a block\<close>

definition log_absorb :: "u32 \<Rightarrow> log \<Rightarrow> log" where
  "log_absorb b l = (let n = nat (lh_n l);
     i = (case find (\<lambda>i. u32_of_int (lh_block l i) = b) [0..<n] of Some i \<Rightarrow> i | None \<Rightarrow> n);
     l = l\<lparr>lh_block := (lh_block l)(i := int_of_u32 b)\<rparr>
     in if int i = lh_n l then l\<lparr>lh_n := lh_n l + 1\<rparr> else l)"

lemma log_write_eq:
  assumes "calm p s" "lh_n (klog s) < LOGSIZE" "lh_n (klog s) < lg_size (klog s) - 1" "1 \<le> lg_outstanding (klog s)"
  shows "log_write i s = Inr (s\<lparr>klog := log_absorb (b_blockno (bufs s i)) (klog s),
    bufs := (bufs s)(i := (bufs s i)\<lparr>b_dirty := True\<rparr>)\<rparr>)"
proof -
  note c = calmD(1,2) [OF assms(1)]
  show ?thesis using assms(2-4)
    by (simp add: log_write_def acquire_steady [OF c] Let_def log_absorb_def upd_buf_def release_upd [OF c] if_distrib
        cong: if_cong option.case_cong)
qed

lemma int_of_u32_small: "unat b < 2 ^ 31 \<Longrightarrow> int_of_u32 b = int (unat b)"
  using sint_of_nat_small [of "unat b"] by simp

lemma sint_zero: "int_of_u32 w = 0 \<longleftrightarrow> w = 0"
  by (metis signed_eq_0_iff)

lemma log_absorb_ok:
  assumes lg: "log_ok s" and l: "l = klog s" and b: "b < disksize s" "\<not> in_log l (unat b)"
    and n: "lh_n l < LOGSIZE" "lh_n l < lg_size l - 1"
  shows "log_ok (s\<lparr>klog := log_absorb b l\<rparr>) \<and> lh_n (log_absorb b l) \<le> lh_n l + 1
    \<and> (\<forall>x. (\<exists>k < nat (lh_n (log_absorb b l)). x = home_no (log_absorb b l) k)
          \<longleftrightarrow> x = unat b \<or> (\<exists>k < nat (lh_n l). x = home_no l k))
    \<and> (\<exists>m f. log_absorb b l = l\<lparr>lh_n := m, lh_block := f\<rparr>)"
proof -
  let ?f = "find (\<lambda>i. u32_of_int (lh_block l i) = b) [0..<nat (lh_n l)]"
  note D = log_okD [OF lg, folded l]
  have N: "int (unat (disksize s)) < 2 ^ 31" using lg by (simp add: log_ok_def Let_def)
  have b': "int (unat b) < int (unat (disksize s))" using b(1) unfolding word_less_nat_alt by (rule iffD2 [OF of_nat_less_iff])
  have "int (unat b) < int (2 ^ 31)" using less_trans [OF b' N] by simp
  then have "unat b < 2 ^ 31" by (rule iffD1 [OF of_nat_less_iff])
  then have ib: "int_of_u32 b = int (unat b)" by (rule int_of_u32_small)
  show ?thesis
  proof (cases ?f)
    case (Some i)
    then have i: "i < nat (lh_n l)" "u32_of_int (lh_block l i) = b" by (auto simp: find_Some_iff)
    have "home_no l i = unat b" using D(6) [OF i(1)] i(2) by simp
    moreover have "0 \<le> lh_block l i" using lg i(1) l by (simp add: log_ok_def Let_def)
    ultimately have "lh_block l i = int_of_u32 b" unfolding ib home_no_def by (metis nat_0_le)
    then have "log_absorb b l = l" using Some i(1) by (simp add: log_absorb_def Let_def fun_upd_idem)
    moreover have "\<exists>m f. l = l\<lparr>lh_n := m, lh_block := f\<rparr>"
      by (rule exI [of _ "lh_n l"], rule exI [of _ "lh_block l"]) simp
    ultimately show ?thesis using lg l i \<open>home_no l i = unat b\<close> by auto
  next
    case None
    let ?n = "nat (lh_n l)" let ?l = "l\<lparr>lh_n := lh_n l + 1, lh_block := (lh_block l)(?n := int (unat b))\<rparr>"
    have e: "log_absorb b l = ?l" using None D(2) by (simp add: log_absorb_def Let_def ib)
    have nb: "lh_block l k \<noteq> int (unat b)" if "k < ?n" for k
    proof
      assume "lh_block l k = int (unat b)"
      then have "u32_of_int (lh_block l k) = b" by simp
      then show False using None that by (auto simp: find_None_iff)
    qed
    have S: "nat (lh_n l + 1) = Suc ?n" using D(2) by simp
    have ij: "inj_on ((lh_block l)(?n := int (unat b))) {..<Suc ?n}"
    proof -
      have "inj_on (lh_block l) {..<?n}" using lg l by (simp add: log_ok_def Let_def)
      moreover have "int (unat b) \<notin> lh_block l ` {..<?n}" using nb by (metis imageE lessThan_iff)
      ultimately have "inj_on ((lh_block l)(?n := int (unat b))) {..<?n}" by (rule inj_on_fun_updI)
      moreover have "((lh_block l)(?n := int (unat b))) ` ({..<?n} - {?n}) = lh_block l ` {..<?n}" by auto
      ultimately show ?thesis using \<open>int (unat b) \<notin> _\<close> unfolding lessThan_Suc inj_on_insert fun_upd_same by blast
    qed
    have "log_ok (s\<lparr>klog := ?l\<rparr>)"
      using lg n b b' ij unfolding log_ok_def Let_def l [symmetric] by (auto simp: S less_Suc_eq in_log_def)
    moreover have "(\<exists>k < nat (lh_n ?l). x = home_no ?l k) \<longleftrightarrow> x = unat b \<or> (\<exists>k < ?n. x = home_no l k)" for x
    proof -
      have "home_no ?l k = (if k = ?n then unat b else home_no l k)" for k by (simp add: home_no_def)
      moreover have "(\<exists>k < Suc ?n. x = (if k = ?n then unat b else home_no l k)) \<longleftrightarrow> x = unat b \<or> (\<exists>k < ?n. x = home_no l k)"
        by (auto simp: less_Suc_eq) (metis nat_neq_iff)
      ultimately show ?thesis by (simp add: S)
    qed
    ultimately show ?thesis unfolding e by auto
  qed
qed

section \<open>Updates inside a transaction\<close>

definition log_put :: "u32 \<Rightarrow> u8 list \<Rightarrow> 'a kern_scheme \<Rightarrow> 'a kern_scheme res" where
  "log_put b d s =
     rbind (bread 1 b s) (\<lambda>(i, s).
     rbind (log_write i (upd_buf i (\<lambda>x. x\<lparr>b_data := d\<rparr>) s)) (\<lambda>s.
     brelse i s))"

definition in_txn :: "nat \<Rightarrow> 'a kern_scheme \<Rightarrow> bool" where
  "in_txn p s \<longleftrightarrow> calm p s \<and> bio_ok p {} s \<and> log_ok s \<and> lg_outstanding (klog s) = 1 \<and> \<not> lg_committing (klog s)
     \<and> (\<forall>b. dirty s b \<longleftrightarrow> (\<exists>k < nat (lh_n (klog s)). b = home_no (klog s) k))"

lemma card_logged:
  assumes "\<forall>b. dirty s b \<longleftrightarrow> (\<exists>k < nat (lh_n (klog s)). b = home_no (klog s) k)"
  shows "card {b. dirty s b} \<le> nat (lh_n (klog s))"
proof -
  have "{b. dirty s b} = home_no (klog s) ` {..<nat (lh_n (klog s))}" using assms by auto
  then show ?thesis using card_image_le [of "{..<nat (lh_n (klog s))}" "home_no (klog s)"] by simp
qed

text \<open>
  What block operations leave alone: everything but the buffers, their locks and the header of the
  log in memory. The sleep locks of inodes stay as they are.
\<close>

definition fs_frame :: "'a kern_scheme \<Rightarrow> 'a kern_scheme \<Rightarrow> bool" where
  "fs_frame s t \<longleftrightarrow> (\<exists>B L m f. t = s\<lparr>klog := (klog s)\<lparr>lh_n := m, lh_block := f\<rparr>, bufs := B, sleeplocks := L\<rparr>)
     \<and> inode_locks t = inode_locks s"

lemma fs_frameI: "t = s\<lparr>bufs := B, sleeplocks := L\<rparr> \<Longrightarrow> inode_locks t = inode_locks s \<Longrightarrow> fs_frame s t"
  unfolding fs_frame_def
  by (rule conjI, rule exI [of _ B], rule exI [of _ L], rule exI [of _ "lh_n (klog s)"], rule exI [of _ "lh_block (klog s)"]) simp

lemma fs_frame_refl: "fs_frame s s"
  using fs_frameI [where s = s and t = s and B = "bufs s" and L = "sleeplocks s"] by simp

lemma fs_frame_trans: "fs_frame s t \<Longrightarrow> fs_frame t u \<Longrightarrow> fs_frame s u"
  unfolding fs_frame_def by (elim exE conjE) (simp, blast)

lemma fs_frameD:
  assumes "fs_frame s t"
  shows "disk t = disk s" "dwrites t = dwrites s" "disksize t = disksize s" "lg_start (klog t) = lg_start (klog s)"
    "lg_size (klog t) = lg_size (klog s)" "in_log (klog t) = in_log (klog s)" "head_no (klog t) = head_no (klog s)"
    "sb t = sb s" "icache t = icache s" "ptable t = ptable s" "mem t = mem s" "ftable t = ftable s"
    "calm p t = calm p s" "inode_locks t = inode_locks s"
  using assms by (auto simp: fs_frame_def in_log_def fun_eq_iff head_no_def)

definition loggable :: "'a kern_scheme \<Rightarrow> u32 \<times> u8 list \<Rightarrow> bool" where
  "loggable s w \<longleftrightarrow> fst w < disksize s \<and> fst w \<noteq> 1 \<and> \<not> in_log (klog s) (unat (fst w)) \<and> length (snd w) = BSIZE"

lemma txn_read:
  assumes tx: "in_txn p s" and n: "lh_n (klog s) < LOGSIZE" and b: "b < disksize s"
  shows "\<exists>i u. bread 1 b s = Inr (i, u) \<and> read_into p {} b s i u"
proof -
  have s: "calm p s" "bio_ok p {} s"
    and dy: "\<And>b. dirty s b \<longleftrightarrow> (\<exists>k < nat (lh_n (klog s)). b = home_no (klog s) k)" using tx by (simp_all add: in_txn_def)
  have "card {b. dirty s b} < NBUF" using card_logged [of s] dy n by auto
  then show ?thesis using bread_room [OF s b] by auto
qed

lemma txn_release:
  assumes tx: "in_txn p s" and u: "read_into p {} b s i u"
  shows "\<exists>t. brelse i u = Inr t \<and> in_txn p t \<and> blk t = blk s \<and> fs_frame s t \<and> klog t = klog s \<and> dirty t = dirty s"
proof -
  have s: "calm p s" "bio_ok p {} s" using tx by (simp_all add: in_txn_def)
  obtain B L where e: "u = s\<lparr>bufs := B, sleeplocks := L\<rparr>" using u unfolding read_into_def by blast
  have ok: "bio_ok p {i} u" and r: "blk u = blk s" "dirty u = dirty s" "b_dirty (bufs u i) = dirty s (unat b)"
    "b_data (bufs u i) = blk s (unat b)" "b_blockno (bufs u i) = b" using u by (simp_all add: read_into_def)
  have c: "calm p u" using s(1) by (simp add: e)
  have "b_dirty (bufs u i) \<or> b_data (bufs u i) = disk u (unat (b_blockno (bufs u i)))"
    using r clean_read [OF s(2), of "unat b"] by (cases "dirty s (unat b)") (simp_all add: e)
  from held_release [OF c ok _ this] obtain t where
    t: "brelse i u = Inr t" "t = u\<lparr>bufs := bufs t, sleeplocks := sleeplocks t\<rparr>" "bio_ok p ({i} - {i}) t"
    "blk t = blk u" "dirty t = dirty u" "calm p t" "inode_locks t = inode_locks u" by auto
  obtain B' L' where t': "t = s\<lparr>bufs := B', sleeplocks := L'\<rparr>" using t(2) by (simp add: e)
  then have "klog t = klog s" "disksize t = disksize s" by simp_all
  moreover have "fs_frame s t" using fs_frameI [OF t'] t(7) u by (simp add: read_into_def)
  moreover from calculation have "in_txn p t"
    using tx t(3-6) r(1,2) log_ok_cong [of t s] by (simp add: in_txn_def)
  ultimately show ?thesis using t r by simp
qed

lemma txn_modify:
  fixes s :: "'a kern_scheme"
  assumes tx: "in_txn p s" and u: "read_into p {} b s i u" and d: "loggable s (b, f (blk s (unat b)))"
    and n: "lh_n (klog s) + 1 < LOGSIZE" "lh_n (klog s) + 1 < lg_size (klog s)"
  shows "\<exists>v t. log_write i (buf_data i f u) = Inr v \<and> brelse i v = Inr t \<and> in_txn p t
    \<and> blk t = (blk s)(unat b := f (blk s (unat b))) \<and> fs_frame s t
    \<and> lh_n (klog t) \<le> lh_n (klog s) + 1 \<and> dirty t = (dirty s)(unat b := True)"
proof -
  let ?l = "klog s" let ?l' = "log_absorb b ?l" let ?d = "f (blk s (unat b))"
  have s: "calm p s" "bio_ok p {} s" "log_ok s" "lg_outstanding ?l = 1" "\<not> lg_committing ?l"
    and dy: "\<And>b. dirty s b \<longleftrightarrow> (\<exists>k < nat (lh_n ?l). b = home_no ?l k)" using tx by (simp_all add: in_txn_def)
  have b: "b < disksize s" "\<not> in_log ?l (unat b)" "length ?d = BSIZE" using d by (simp_all add: loggable_def)
  obtain B L where ue: "u = s\<lparr>bufs := B, sleeplocks := L\<rparr>" using u unfolding read_into_def by blast
  have ok: "bio_ok p {i} u" and ub: "b_blockno (bufs u i) = b" "b_data (bufs u i) = blk s (unat b)"
    and bu: "blk u = blk s" "dirty u = dirty s" using u by (simp_all add: read_into_def)
  have us: "klog u = ?l" "disksize u = disksize s" by (simp_all add: ue)
  let ?v = "u\<lparr>klog := ?l', bufs := (bufs u)(i := (bufs u i)\<lparr>b_data := ?d, b_dirty := True\<rparr>)\<rparr>"
  have cu: "calm p u" using s(1) by (simp add: ue)
  have lw: "log_write i (buf_data i f u) = Inr ?v"
    using log_write_eq [of p "buf_data i f u" i] cu n s(4) ub by (simp add: upd_buf_def us)
  have ld: "length (disk u (unat (b_blockno (bufs u i)))) = BSIZE"
    using bio_blocksD(8) [of "{i}" u] ok b(1) us(2) by (simp add: bio_ok_def word_less_nat_alt ub)
  have v: "bio_ok p {i} ?v" "blk ?v = (blk s)(unat b := ?d)" "dirty ?v = (dirty s)(unat b := True)"
    using bio_ok_held_upd [OF ok, where i = i and t = "?v" and c = ?d and d = True] ld b(3) by (simp_all add: ub bu)
  have cv: "calm p ?v" using cu by simp
  obtain t where t: "brelse i ?v = Inr t" "t = ?v\<lparr>bufs := bufs t, sleeplocks := sleeplocks t\<rparr>" "bio_ok p ({i} - {i}) t"
    "blk t = blk ?v" "dirty t = dirty ?v" "calm p t" "inode_locks t = inode_locks ?v"
    using held_release [OF cv v(1), of i] by auto
  obtain B' L' where t': "t = s\<lparr>klog := ?l', bufs := B', sleeplocks := L'\<rparr>" using t(2) by (simp add: ue)
  have ts: "klog t = ?l'" "disksize t = disksize s" by (simp_all add: t')
  have la: "log_ok (s\<lparr>klog := ?l'\<rparr>)" "lh_n ?l' \<le> lh_n ?l + 1"
    "\<And>x. (\<exists>k < nat (lh_n ?l'). x = home_no ?l' k) \<longleftrightarrow> x = unat b \<or> (\<exists>k < nat (lh_n ?l). x = home_no ?l k)"
    "\<exists>m f. ?l' = ?l\<lparr>lh_n := m, lh_block := f\<rparr>"
    using log_absorb_ok [OF s(3) refl b(1,2)] n by auto
  have "log_ok t" using la(1) log_ok_cong [of t "s\<lparr>klog := ?l'\<rparr>"] ts by simp
  moreover have "lg_outstanding ?l' = 1" "\<not> lg_committing ?l'" using la(4) s(4,5) by auto
  moreover have "dirty t x \<longleftrightarrow> (\<exists>k < nat (lh_n (klog t)). x = home_no (klog t) k)" for x
    unfolding ts(1) la(3) using t(5) v(3) dy by auto
  ultimately have "in_txn p t" using t(3,6) ts by (simp add: in_txn_def)
  moreover have "inode_locks t = inode_locks s" using t(7) u by (simp add: read_into_def)
  then have "fs_frame s t" using la(4) t' unfolding fs_frame_def by metis
  ultimately show ?thesis using lw t(1,4,5) v(2,3) la(2) ts(1) by auto
qed

lemma log_put_ok:
  assumes tx: "in_txn p s" and d: "loggable s (b, d)"
    and n: "lh_n (klog s) + 1 < LOGSIZE" "lh_n (klog s) + 1 < lg_size (klog s)"
  shows "\<exists>t. log_put b d s = Inr t \<and> in_txn p t \<and> blk t = (blk s)(unat b := d) \<and> fs_frame s t
    \<and> lh_n (klog t) \<le> lh_n (klog s) + 1 \<and> dirty t = (dirty s)(unat b := True)"
proof -
  have "b < disksize s" using d by (simp add: loggable_def)
  then obtain i u where "bread 1 b s = Inr (i, u)" "read_into p {} b s i u" using txn_read [OF tx, of b] n(1) by auto
  then show ?thesis using txn_modify [OF tx _ _ n, of b i u "\<lambda>_. d"] d by (auto simp: log_put_def)
qed

primrec log_puts :: "(u32 \<times> u8 list) list \<Rightarrow> 'a kern_scheme \<Rightarrow> 'a kern_scheme res" where
  "log_puts [] s = Inr s"
| "log_puts (w # ws) s = rbind (log_put (fst w) (snd w) s) (\<lambda>s. log_puts ws s)"

lemma log_puts_ok:
  "in_txn p s \<Longrightarrow> list_all (loggable s) ws \<Longrightarrow> lh_n (klog s) + int (length ws) < LOGSIZE \<Longrightarrow>
   lh_n (klog s) + int (length ws) < lg_size (klog s) \<Longrightarrow>
   \<exists>t. log_puts ws s = Inr t \<and> in_txn p t \<and> blk t = fold array_put ws (blk s) \<and> fs_frame s t
     \<and> lh_n (klog t) \<le> lh_n (klog s) + int (length ws) \<and> (\<forall>b. dirty t b \<longrightarrow> dirty s b \<or> b \<in> unat ` fst ` set ws)"
proof (induction ws arbitrary: s)
  case Nil
  have "fs_frame s s" by (rule fs_frame_refl)
  then show ?case using Nil by simp
next
  case (Cons w ws)
  obtain u where u: "log_put (fst w) (snd w) s = Inr u" "in_txn p u" "blk u = array_put w (blk s)" "fs_frame s u"
    "lh_n (klog u) \<le> lh_n (klog s) + 1" "dirty u = (dirty s)(unat (fst w) := True)"
    using log_put_ok [OF Cons.prems(1), of "fst w" "snd w"] Cons.prems(2-4) by (auto simp: array_put_def)
  note f = fs_frameD [OF u(4)]
  have "list_all (loggable u) ws" using Cons.prems(2) f by (simp add: loggable_def list_all_iff)
  then obtain t where "log_puts ws u = Inr t" "in_txn p t" "blk t = fold array_put ws (blk u)" "fs_frame u t"
    "lh_n (klog t) \<le> lh_n (klog u) + int (length ws)" "\<forall>b. dirty t b \<longrightarrow> dirty u b \<or> b \<in> unat ` fst ` set ws"
    using Cons.IH [OF u(2)] Cons.prems(3,4) u(5) f(5) by auto
  then show ?case using u fs_frame_trans [OF u(4)] by (auto split: if_splits)
qed

section \<open>Transactions\<close>

definition transaction :: "(u32 \<times> u8 list) list \<Rightarrow> 'a kern_scheme \<Rightarrow> 'a kern_scheme res" where
  "transaction ws s = rbind (begin_op s) (\<lambda>s. rbind (log_puts ws s) (\<lambda>s. end_op s))"

text \<open>The super block on disk describes the log, and the header on disk is empty.\<close>

definition formatted :: "log \<Rightarrow> (nat \<Rightarrow> u8 list) \<Rightarrow> bool" where
  "formatted l d \<longleftrightarrow> get32 0 (d (head_no l)) = 0 \<and> int_of_u32 (sb_logstart (get_superblock (d 1))) = lg_start l
     \<and> int_of_u32 (sb_nlog (get_superblock (d 1))) = lg_size l \<and> 1 < lg_start l"

text \<open>Between transactions.\<close>

definition log_idle :: "nat \<Rightarrow> 'a kern_scheme \<Rightarrow> bool" where
  "log_idle p s \<longleftrightarrow> bio_ready p s \<and> log_ok s \<and> lh_n (klog s) = 0 \<and> lg_outstanding (klog s) = 0
     \<and> \<not> lg_committing (klog s) \<and> formatted (klog s) (disk s)"

lemma log_ok_outstanding: "log_ok (s\<lparr>klog := (klog s)\<lparr>lg_outstanding := n\<rparr>\<rparr>) = log_ok s"
  "log_ok (s\<lparr>klog := (klog s)\<lparr>lg_outstanding := n, lg_committing := c\<rparr>\<rparr>) = log_ok s"
  by (simp_all add: log_ok_def Let_def)

lemma begin_op_ok:
  assumes "log_idle p s"
  shows "begin_op s = Inr (s\<lparr>klog := (klog s)\<lparr>lg_outstanding := 1\<rparr>\<rparr>)"
    "in_txn p (s\<lparr>klog := (klog s)\<lparr>lg_outstanding := 1\<rparr>\<rparr>)"
proof -
  have s: "calm p s" "bio_ok p {} s" "\<And>b. \<not> dirty s b" "log_ok s" "lh_n (klog s) = 0" "lg_outstanding (klog s) = 0"
    "\<not> lg_committing (klog s)" using assms by (simp_all add: log_idle_def bio_ready_def)
  note c = calmD(1,2) [OF s(1)]
  show "begin_op s = Inr (s\<lparr>klog := (klog s)\<lparr>lg_outstanding := 1\<rparr>\<rparr>)"
    using s(5-7) by (simp add: begin_op_def acquire_steady [OF c] release_upd [OF c])
  show "in_txn p (s\<lparr>klog := (klog s)\<lparr>lg_outstanding := 1\<rparr>\<rparr>)"
    using s by (simp add: in_txn_def log_ok_outstanding)
qed

lemma commit_writes_cong:
  "commit_writes (l\<lparr>lg_outstanding := n, lg_committing := x\<rparr>) c = commit_writes l c"
  by (simp add: commit_writes_def Let_def log_writes_def head_bytes_def head_no_def log_no_def home_no_def)

lemma end_op_ok:
  assumes tx: "in_txn p s" and n: "lh_n (klog s) < NBUF"
  defines "W \<equiv> if 0 < lh_n (klog s) then commit_writes (klog s) (blk s) else []"
  shows "\<exists>t. end_op s = Inr t \<and> bio_ready p t \<and> dwrites t = dwrites s @ W \<and> disk t = replay W (disk s)
    \<and> klog t = (klog s)\<lparr>lg_outstanding := 0, lh_n := 0, lg_committing := False\<rparr> \<and> disksize t = disksize s"
proof -
  let ?l = "klog s" let ?l1 = "?l\<lparr>lg_outstanding := 0, lg_committing := True\<rparr>" let ?s = "s\<lparr>klog := ?l1\<rparr>"
  let ?e = "?l\<lparr>lg_outstanding := 0, lh_n := 0, lg_committing := False\<rparr>"
  have s: "calm p s" "bio_ok p {} s" "log_ok s" "lg_outstanding ?l = 1" "\<not> lg_committing ?l"
    and dy: "\<And>b. dirty s b \<longleftrightarrow> (\<exists>k < nat (lh_n ?l). b = home_no ?l k)" using tx by (simp_all add: in_txn_def)
  note c = calmD(1,2) [OF s(1)]
  have cs: "calm p ?s" using s(1) by simp
  have dys: "dirty ?s b \<longleftrightarrow> (\<exists>k < nat (lh_n (klog ?s)). b = home_no (klog ?s) k)" for b using dy by (simp add: home_no_def)
  have "card {b. dirty ?s b} < NBUF" using card_logged [of s] dy n by auto
  then have "\<exists>u. commit ?s = Inr u \<and> bio_ready p u \<and> klog u = ?l1\<lparr>lh_n := 0\<rparr> \<and> dwrites u = dwrites s @ W
      \<and> disk u = replay W (disk s) \<and> disksize u = disksize s"
  proof (cases "0 < lh_n ?l")
    case True
    then show ?thesis
      using commit_ok [OF cs _ _ _ \<open>card _ < _\<close> dys] s(2,3)
      by (simp add: W_def bio_ready_def log_ok_outstanding commit_writes_cong)
  next
    case False
    then have "lh_n ?l = 0" using log_okD(2) [OF s(3)] by simp
    then have "?l1\<lparr>lh_n := 0\<rparr> = ?l1" "bio_ready p ?s" using s(2) cs dy by (simp_all add: bio_ready_def)
    then show ?thesis using False by (simp add: commit_def W_def)
  qed
  then obtain u where u: "commit ?s = Inr u" "bio_ready p u" "klog u = ?l1\<lparr>lh_n := 0\<rparr>" "dwrites u = dwrites s @ W"
    "disk u = replay W (disk s)" "disksize u = disksize s" by blast
  have cu: "calm p u" using u(2) by (simp add: bio_ready_def)
  note c' = calmD(1,2) [OF cu]
  have "wakeup ChanLog ((enter LogLock u)\<lparr>klog := ?e\<rparr>) = Inr ((enter LogLock u)\<lparr>klog := ?e\<rparr>)"
    using c' calmD(5) [OF cu] by (intro wakeup_nobody [of p]) auto
  then have "end_op s = Inr (u\<lparr>klog := ?e\<rparr>)"
    using s(4,5) by (simp add: end_op_def acquire_steady [OF c] release_upd [OF c] u(1) acquire_steady [OF c'] u(3)
        release_upd [OF c'])
  moreover have "bio_ready p (u\<lparr>klog := ?e\<rparr>)" using u(2) by (simp add: bio_ready_def)
  ultimately show ?thesis using u(4-6) by simp
qed


text \<open>A machine that has just been switched on.\<close>

definition powered_on :: "nat \<Rightarrow> 'a kern_scheme \<Rightarrow> bool" where
  "powered_on p s \<longleftrightarrow> calm p s \<and> cold s \<and> lg_outstanding (klog s) = 0 \<and> \<not> lg_committing (klog s)"

lemma replay_length:
  assumes "\<forall>w \<in> set ws. length (snd w) = n" "length (d b) = n"
  shows "length (replay ws d b) = n"
  using assms by (induction ws arbitrary: d) (auto simp: disk_put_def)

lemma commit_writes_length:
  assumes ok: "bio_ok p {} s" and lg: "log_ok s"
  shows "\<forall>w \<in> set (commit_writes (klog s) (blk s)). length (snd w) = BSIZE"
proof -
  note D = log_okD [OF lg]
  have h: "length (blk s (head_no (klog s))) = BSIZE" using blk_length [OF ok D(9)] D(8) by simp
  have k: "length (blk s (home_no (klog s) k)) = BSIZE" if "k < nat (lh_n (klog s))" for k
    using blk_length [OF ok D(7) [OF that]] D(6) [OF that] by simp
  have "length (head_bytes (klog s) (blk s (head_no (klog s)))) = BSIZE" by (rule head_bytes_ok(1) [OF h D(2,3)])
  then show ?thesis using k head_bytes_ok(1) [of _ "(klog s)\<lparr>lh_n := 0\<rparr>"]
    by (auto simp: commit_writes_def Let_def log_writes_def)
qed

lemma fold_array_other: "unat b \<notin> unat ` fst ` set ws \<Longrightarrow> fold array_put ws c (unat b) = c (unat b)"
  by (induction ws arbitrary: c) (auto simp: array_put_def)

text \<open>Booting from the disk as a crash has left it.\<close>

lemma crash_boot:
  fixes s :: "'a kern_scheme" and s0 :: "'a kern_scheme"
  assumes ok: "bio_ok p {} s" and lg: "log_ok s" and f: "formatted (klog s) (disk s)" 
    and dy: "\<And>b. dirty s b \<longleftrightarrow> (\<exists>k < nat (lh_n (klog s)). b = home_no (klog s) k)" "\<not> dirty s 1"
    and on: "powered_on q s0" "disksize s0 = disksize s"
    and d: "d = replay (take m (commit_writes (klog s) (blk s))) (disk s)"
  shows "\<exists>u. initlog 1 (binit (s0\<lparr>disk := d\<rparr>)) = Inr u \<and> log_idle q u
    \<and> (\<forall>b. \<not> in_log (klog s) b \<longrightarrow> blk u b = (if m \<le> nat (lh_n (klog s)) then disk s b else blk s b))"
proof -
  let ?l = "klog s" let ?n = "nat (lh_n ?l)" let ?s = "s0\<lparr>disk := d\<rparr>"
  note D = log_okD [OF lg]
  have bl: "bio_blocks {} s" using ok by (simp add: bio_ok_def)
  have f': "get32 0 (disk s (head_no ?l)) = 0" "1 < lg_start ?l"
    "int_of_u32 (sb_logstart (get_superblock (disk s 1))) = lg_start ?l"
    "int_of_u32 (sb_nlog (get_superblock (disk s 1))) = lg_size ?l" using f by (simp_all add: formatted_def)
  have one: "\<not> in_log ?l 1" "1 \<notin> home_no ?l ` {..<?n}" "blk s 1 = disk s 1"
    using f'(2) dy clean_read [OF ok dy(2)] by (auto simp: in_log_def)
  have d1: "d 1 = disk s 1" by (rule crash_prefix(5) [OF lg refl refl d one(1,2)])
  have len: "length (d b) = BSIZE" if "b < unat (disksize s)" for b
    unfolding d using bio_blocksD(8) [OF bl] that commit_writes_length [OF ok lg] by (intro replay_length) (auto dest: in_set_takeD)
  have "cold ?s" using on len by (simp add: powered_on_def cold_def)
  moreover have "calm q ?s" using on by (simp add: powered_on_def)
  moreover have "1 < disksize ?s" using lg f'(2) D(2) on(2) by (simp add: log_ok_def Let_def word_less_def)
  define l0 where "l0 = (klog ?s)\<lparr>lg_start := int_of_u32 (sb_logstart (get_superblock (disk ?s 1))),
      lg_size := int_of_u32 (sb_nlog (get_superblock (disk ?s 1))), lg_dev := 1\<rparr>"
  have l0: "lg_start l0 = lg_start ?l" "lg_size l0 = lg_size ?l" "lg_dev l0 = 1" using f' d1 by (simp_all add: l0_def)
  then have hd: "head_no l0 = head_no ?l" by (simp add: head_no_def)
  let ?h = "d (head_no ?l)" let ?l' = "head_log l0 ?h"
  have clean: "blk s b = disk s b" if "b \<notin> home_no ?l ` {..<?n}" for b
    using clean_read [OF ok, of b] dy(1) that by auto
  have hlen: "length (blk s (head_no ?l)) = BSIZE" using blk_length [OF ok D(9)] D(8) by simp
  have C: "log_ok (?s\<lparr>klog := ?l'\<rparr>)" "\<And>b x. \<not> in_log ?l b \<Longrightarrow>
      replay (home_writes ?l' d [0..<nat (lh_n ?l')] @ [(head_no ?l, x)]) d b = (if m \<le> ?n then disk s b else blk s b)"
    using crash_disk [OF lg refl refl clean f'(1) hlen l0 d refl, of ?s] on(2) by auto
  ultimately obtain u where u: "initlog 1 (binit ?s) = Inr u" "bio_ready q u" "klog u = ?l'\<lparr>lh_n := 0\<rparr>"
    "disk u = replay (home_writes ?l' d [0..<nat (lh_n ?l')] @ [(head_no ?l, head_bytes (?l'\<lparr>lh_n := 0\<rparr>) ?h)]) d"
    "disksize u = disksize s"
    using boot_log_ok [of q ?s l0 ?h] on(2) hd \<open>1 < disksize ?s\<close> unfolding l0_def [symmetric] by auto
  have eq: "blk u b = disk u b" for b using u(2) by (intro clean_read) (auto simp: bio_ready_def)
  have ub: "disk u b = (if m \<le> ?n then disk s b else blk s b)" if "\<not> in_log ?l b" for b using C(2) [OF that] u(4) by simp
  have "log_ok (?s\<lparr>klog := ?l'\<lparr>lh_n := 0\<rparr>\<rparr>)" using log_ok_empty [OF C(1)] by simp
  then have "log_ok u" using log_ok_cong [of u "?s\<lparr>klog := ?l'\<lparr>lh_n := 0\<rparr>\<rparr>"] u(3,5) on(2) by simp
  moreover have "get32 0 (disk u (head_no ?l)) = 0"
    using head_bytes_ok(2) [of ?h "?l'\<lparr>lh_n := 0\<rparr>"] len [of "head_no ?l"] D(8,9)
    by (simp add: u(4) disk_put_def word_less_nat_alt sint_zero)
  moreover have "disk u 1 = disk s 1" using ub [OF one(1)] one(3) by simp
  ultimately have "log_idle q u"
    using u(2,3) l0 f' on(1) hd by (simp add: log_idle_def formatted_def powered_on_def head_no_def l0_def head_log_def)
  then show ?thesis using u(1) ub eq by auto
qed


section \<open>Atomicity\<close>

lemma sealed_txn:
  assumes ok: "bio_ok p {} s" and lg: "log_ok s" and f: "formatted (klog s) (disk s)"
    and dy: "\<And>b. dirty s b \<longleftrightarrow> (\<exists>k < nat (lh_n (klog s)). b = home_no (klog s) k)" "\<not> dirty s 1"
    and W: "W = (if 0 < lh_n (klog s) then commit_writes (klog s) (blk s) else [])"
    and t: "bio_ready p t" "disk t = replay W (disk s)" "disksize t = disksize s"
      "klog t = (klog s)\<lparr>lg_outstanding := 0, lh_n := 0, lg_committing := False\<rparr>"
  shows "log_idle p t" "\<not> in_log (klog s) b \<Longrightarrow> blk t b = blk s b"
proof -
  let ?l = "klog s" let ?n = "nat (lh_n ?l)"
  have clean: "blk s b = disk s b" if "b \<notin> home_no ?l ` {..<?n}" for b
    using clean_read [OF ok, of b] dy(1) that by auto
  have one: "\<not> in_log ?l 1" using f by (simp add: formatted_def in_log_def)
  have hlen: "length (blk s (head_no ?l)) = BSIZE" using blk_length [OF ok log_okD(9) [OF lg]] log_okD(8) [OF lg] by simp
  have H: "get32 0 (disk t (head_no ?l)) = 0 \<and> (\<forall>b. \<not> in_log ?l b \<longrightarrow> disk t b = blk s b)"
  proof (cases "0 < lh_n ?l")
    case True
    let ?C = "commit_writes ?l (blk s)"
    have L: "length ?C = ?n + 1 + ?n + 1" by (simp add: commit_writes_def Let_def log_writes_def)
    have dt: "disk t = replay (take (length ?C) ?C) (disk s)" using t(2) W True by simp
    note P = crash_prefix [OF lg refl refl dt, unfolded L]
    have "int_of_u32 (get32 0 (disk t (head_no ?l))) = 0"
      using P(6) head_bytes_ok(1) [OF hlen log_okD(2,3) [OF lg]] head_bytes_ok(2) [of _ "?l\<lparr>lh_n := 0\<rparr>"] by simp
    moreover have "disk t b = blk s b" if "\<not> in_log ?l b" for b
      using P(5) [OF that] P(7) clean [of b] by (cases "b \<in> home_no ?l ` {..<?n}") auto
    ultimately show ?thesis by (simp add: sint_zero)
  next
    case False
    then show ?thesis using t(2) W clean f by (simp add: formatted_def)
  qed
  have "log_ok t" by (rule log_ok_zero [OF lg]) (use t log_okD(1) [OF lg] in simp_all)
  moreover have "disk t 1 = disk s 1" using H one clean_read [OF ok dy(2)] by simp
  ultimately show "log_idle p t"
    using t(1,4) H f by (simp add: log_idle_def formatted_def head_no_def)
  have "blk t b = disk t b" using t(1) by (intro clean_read) (auto simp: bio_ready_def)
  then show "\<not> in_log ?l b \<Longrightarrow> blk t b = blk s b" using H by simp
qed

text \<open>
  C3: transactions are atomic with respect to crashes. Between transactions, a process that begins
  an operation, changes at most \<^verbatim>\<open>MAXOPBLOCKS\<close> blocks through \<^verbatim>\<open>log_write\<close> and ends the operation
  leaves the file system's blocks updated in that order, with the log idle again. If the machine stops
  after any number \<open>m\<close> of the disk writes this causes and is switched on again, the boot code
  recovers an idle log and every block outside the log has its contents from before the operation
  (when the header naming the logged blocks had not been written) or every block has its new contents.
\<close>

theorem transaction_atomic:
  fixes s :: "'a kern_scheme" and s0 :: "'a kern_scheme"
  assumes idle: "log_idle p s" and ws: "list_all (loggable s) ws" "length ws \<le> MAXOPBLOCKS" "MAXOPBLOCKS < lg_size (klog s)"
    and on: "powered_on q s0" "disksize s0 = disksize s"
  shows "\<exists>t W n. transaction ws s = Inr t \<and> log_idle p t \<and> dwrites t = dwrites s @ W \<and> disk t = replay W (disk s)
    \<and> (n < length W \<or> W = []) \<and> (\<forall>b. \<not> in_log (klog s) b \<longrightarrow> blk t b = fold array_put ws (blk s) b)
    \<and> (\<forall>m. \<exists>u. initlog 1 (binit (s0\<lparr>disk := replay (take m W) (disk s)\<rparr>)) = Inr u \<and> log_idle q u
        \<and> (\<forall>b. \<not> in_log (klog s) b \<longrightarrow> blk u b = (if m \<le> n then blk s b else fold array_put ws (blk s) b)))"
proof -
  let ?v = "s\<lparr>klog := (klog s)\<lparr>lg_outstanding := 1\<rparr>\<rparr>"
  have n0: "lh_n (klog s) = 0" and nd: "\<And>b. \<not> dirty s b" and oks: "bio_ok p {} s" and f: "formatted (klog s) (disk s)"
    using idle by (simp_all add: log_idle_def bio_ready_def)
  have il: "in_log ((klog s)\<lparr>lg_outstanding := 1\<rparr>) = in_log (klog s)" by (simp add: in_log_def fun_eq_iff)
  have "list_all (loggable ?v) ws" using ws(1) by (simp add: loggable_def list_all_iff il)
  then obtain v where v: "log_puts ws ?v = Inr v" "in_txn p v" "blk v = fold array_put ws (blk s)" "fs_frame ?v v"
    "lh_n (klog v) \<le> int (length ws)" "\<And>b. dirty v b \<Longrightarrow> b \<in> unat ` fst ` set ws"
    using log_puts_ok [OF begin_op_ok(2) [OF idle], of ws] ws(2,3) n0 nd by auto
  note fr = fs_frameD [OF v(4), simplified]
  have il': "in_log (klog v) = in_log (klog s)" using fr(6) il by simp
  have V: "bio_ok p {} v" "log_ok v" "\<And>b. dirty v b \<longleftrightarrow> (\<exists>k < nat (lh_n (klog v)). b = home_no (klog v) k)"
    using v(2) by (simp_all add: in_txn_def)
  have fv: "formatted (klog v) (disk v)" using f fr by (simp add: formatted_def head_no_def)
  have "unat (fst w) \<noteq> 1" if "w \<in> set ws" for w
    using ws(1) that word_unat_eq_iff [of "fst w" 1] by (auto simp: list_all_iff loggable_def)
  then have "1 \<notin> unat ` fst ` set ws" unfolding image_image image_iff by (metis (no_types))
  then have d1: "\<not> dirty v 1" using v(6) by blast
  define W where "W = (if 0 < lh_n (klog v) then commit_writes (klog v) (blk v) else [])"
  obtain t where t: "end_op v = Inr t" "bio_ready p t" "dwrites t = dwrites v @ W" "disk t = replay W (disk v)"
    "klog t = (klog v)\<lparr>lg_outstanding := 0, lh_n := 0, lg_committing := False\<rparr>" "disksize t = disksize v"
    using end_op_ok [OF v(2)] v(5) ws(2) unfolding W_def by auto
  note S = sealed_txn [OF V(1,2) fv V(3) d1 W_def t(2,4,6,5)]
  let ?n = "nat (lh_n (klog v))"
  have eqs: "blk s b = disk s b" for b using clean_read [OF oks nd] by simp
  have crash: "\<exists>u. initlog 1 (binit (s0\<lparr>disk := replay (take m W) (disk s)\<rparr>)) = Inr u \<and> log_idle q u
      \<and> (\<forall>b. \<not> in_log (klog s) b \<longrightarrow> blk u b = (if m \<le> ?n then blk s b else fold array_put ws (blk s) b))" for m
  proof (cases "0 < lh_n (klog v)")
    case True
    then show ?thesis
      using crash_boot [OF V(1,2) fv V(3) d1 on(1) _ refl, of m] on(2) fr(1,3) v(3) il' eqs
      by (simp add: W_def cong: if_cong split del: if_split)
  next
    case False
    then have "blk v b = disk v b" for b using clean_read [OF V(1), of b] V(3) [of b] log_okD(2) [OF V(2)] by auto
    then have "fold array_put ws (blk s) b = blk s b" for b using v(3) fr(1) eqs by metis
    then show ?thesis
      using crash_boot [OF V(1,2) fv V(3) d1 on(1) _ refl, of 0] on(2) fr(1,3) v(3) il' eqs False
      by (simp add: W_def cong: if_cong split del: if_split)
  qed
  have "transaction ws s = Inr t" using begin_op_ok(1) [OF idle] v(1) t(1) by (simp add: transaction_def)
  moreover have "?n < length W \<or> W = []" by (simp add: W_def commit_writes_def Let_def log_writes_def)
  ultimately show ?thesis using S t(3,4) fr(1,2) v(3) il' crash
    by (intro exI [of _ t] exI [of _ W] exI [of _ ?n]) (simp split del: if_split)
qed


definition demo_disk :: "nat \<Rightarrow> u8 list" where
  "demo_disk = (\<lambda>_. replicate 512 0)
     (1 := concat (map bytes_of_u32 [1000, 941, 200, 30, 2, 32, 58]) @ replicate 484 0)"

definition demo_boot :: kern where
  "demo_boot = demo_kern\<lparr>disk := demo_disk\<rparr>"

lemma demo_super: "get_superblock (demo_disk 1) = \<lparr>sb_size = 1000, sb_nblocks = 941, sb_ninodes = 200, sb_nlog = 30,
    sb_logstart = 2, sb_inodestart = 32, sb_bmapstart = 58\<rparr>" "get32 0 (demo_disk 2) = 0"
  "length (demo_disk b) = 512"
  by (code_simp, code_simp, simp add: demo_disk_def bytes_of_u32_def)

lemma demo_powered: "powered_on 3 demo_boot" "cold demo_boot"
  using demo_kern_calm demo_super(3) by (simp_all add: powered_on_def cold_def demo_boot_def) (simp_all add: demo_kern_def)

lemma demo_sel: "klog demo_boot = \<lparr>lg_start = 2, lg_size = 30, lg_outstanding = 0, lg_committing = False, lg_dev = 1,
    lh_n = 0, lh_block = (\<lambda>_. 0)\<rparr>" "disk demo_boot = demo_disk" "disksize demo_boot = 1000"
  by (simp_all add: demo_boot_def demo_kern_def)

lemma demo_idle: "log_idle 3 (binit demo_boot)" "klog (binit demo_boot) = klog demo_boot" "disksize (binit demo_boot) = 1000"
  "disk (binit demo_boot) = demo_disk" "blk (binit demo_boot) = demo_disk"
proof -
  have c: "calm 3 demo_boot" "cold demo_boot" using demo_powered by (simp_all add: powered_on_def)
  obtain B L where eq: "binit demo_boot = demo_boot\<lparr>bufs := B, sleeplocks := L\<rparr>" using binit_ok(1) [OF c] by blast
  show sel: "klog (binit demo_boot) = klog demo_boot" "disksize (binit demo_boot) = 1000"
    "disk (binit demo_boot) = demo_disk" by (simp_all add: eq demo_sel)
  show "blk (binit demo_boot) = demo_disk" using binit_ok(3) [OF c] by (simp add: demo_sel)
  have "bio_ready 3 (binit demo_boot)" using binit_ok(2,4) [OF c] c(1) by (simp add: bio_ready_def) (simp add: eq)
  then show "log_idle 3 (binit demo_boot)"
    by (simp add: log_idle_def sel log_ok_def demo_sel formatted_def head_no_def demo_super [unfolded One_nat_def])
qed

theorem transaction_atomic_witness:
  "\<exists>t W n. transaction [(100, replicate 512 7), (101, replicate 512 8)] (binit demo_boot) = Inr t
    \<and> blk t 100 = replicate 512 7 \<and> (\<forall>m. \<exists>u. initlog 1 (binit (demo_boot\<lparr>disk := replay (take m W) demo_disk\<rparr>)) = Inr u
      \<and> blk u 101 = (if m \<le> n then replicate 512 0 else replicate 512 8))"
proof -
  let ?ws = "[(100, replicate 512 7), (101, replicate 512 8)] :: (u32 \<times> u8 list) list"
  have h: "list_all (loggable (binit demo_boot)) ?ws" by (simp add: loggable_def demo_idle in_log_def demo_sel)
  have n: "length ?ws \<le> 10" "10 < lg_size (klog (binit demo_boot))" "disksize demo_boot = disksize (binit demo_boot)"
    by (simp_all add: demo_idle demo_sel)
  obtain t W n where T: "transaction ?ws (binit demo_boot) = Inr t"
    "\<forall>b. \<not> in_log (klog demo_boot) b \<longrightarrow> blk t b = fold array_put ?ws demo_disk b"
    "\<forall>m. \<exists>u. initlog 1 (binit (demo_boot\<lparr>disk := replay (take m W) demo_disk\<rparr>)) = Inr u \<and> log_idle 3 u
        \<and> (\<forall>b. \<not> in_log (klog demo_boot) b \<longrightarrow> blk u b = (if m \<le> n then demo_disk b else fold array_put ?ws demo_disk b))"
    using transaction_atomic [OF demo_idle(1) h n(1,2) demo_powered(1) n(3), unfolded demo_idle] by blast
  have l: "\<not> in_log (klog demo_boot) 100" "\<not> in_log (klog demo_boot) 101" by (simp_all add: in_log_def demo_sel)
  have "blk t 100 = replicate 512 7" using T(2) l(1) by (simp add: array_put_def)
  moreover have "\<exists>u. initlog 1 (binit (demo_boot\<lparr>disk := replay (take m W) demo_disk\<rparr>)) = Inr u
      \<and> blk u 101 = (if m \<le> n then replicate 512 0 else replicate 512 8)" for m
  proof -
    have "demo_disk 101 = replicate 512 0" "fold array_put ?ws demo_disk 101 = replicate 512 8"
      by (simp_all add: demo_disk_def array_put_def)
    then show ?thesis using T(3) [rule_format, of m] l(2) by auto
  qed
  ultimately show ?thesis using T(1) by blast
qed

end
