(* ===== verification/BlockSpec.thy ===== *)
theory BlockSpec
  imports TxnSpec Fs
begin

text \<open>
  The block allocator on the block array: the bitmap is the set of blocks in use, \<^verbatim>\<open>balloc\<close> takes
  the first block that is not in use and clears it, \<^verbatim>\<open>bfree\<close> gives it back.
\<close>

section \<open>Working inside a transaction\<close>

text \<open>A transaction that may still log \<open>n\<close> blocks.\<close>

definition tx :: "nat \<Rightarrow> nat \<Rightarrow> 'a kern_scheme \<Rightarrow> bool" where
  "tx p n s \<longleftrightarrow> in_txn p s \<and> lh_n (klog s) + int n < LOGSIZE \<and> lh_n (klog s) + int n < lg_size (klog s)"

lemma tx_mono: "tx p n s \<Longrightarrow> m \<le> n \<Longrightarrow> tx p m s"
  by (simp add: tx_def)

lemma tx_read:
  assumes "tx p n s" "b < disksize s"
  obtains i u where "bread 1 b s = Inr (i, u)" "read_into p {} b s i u"
  using txn_read [of p s b] assms by (auto simp: tx_def)

lemma tx_release:
  assumes "tx p n s" "read_into p {} b s i u"
  obtains t where "brelse i u = Inr t" "tx p n t" "blk t = blk s" "fs_frame s t"
  using txn_release [of p s b i u] assms by (auto simp: tx_def)

lemma tx_modify:
  assumes "tx p (Suc n) s" "read_into p {} b s i u" "loggable s (b, f (blk s (unat b)))"
  obtains v t where "log_write i (buf_data i f u) = Inr v" "brelse i v = Inr t" "tx p n t"
    "blk t = (blk s)(unat b := f (blk s (unat b)))" "fs_frame s t"
proof -
  obtain v t where v: "log_write i (buf_data i f u) = Inr v" "brelse i v = Inr t" "in_txn p t"
    "blk t = (blk s)(unat b := f (blk s (unat b)))" "fs_frame s t" "lh_n (klog t) \<le> lh_n (klog s) + 1"
    using txn_modify [of p s b i u f] assms by (auto simp: tx_def)
  have "tx p n t" using v(3,6) assms(1) fs_frameD(5) [OF v(5)] by (simp add: tx_def)
  then show ?thesis using that v by blast
qed

lemma read_into_data: "read_into p {} b s i u \<Longrightarrow> b_data (bufs u i) = blk s (unat b)"
  by (simp add: read_into_def)

lemma read_into_sb:
  assumes "read_into p H b s i u"
  shows "sb u = sb s" "icache u = icache s"
proof -
  have u: "u = s\<lparr>bufs := bufs u, sleeplocks := sleeplocks u\<rparr>" using assms by (simp add: read_into_def)
  show "sb u = sb s" "icache u = icache s" by (subst u, simp)+
qed

section \<open>Bits\<close>

lemma bit_set_eq: "bit_set d bi = bit (d ! (bi div 8)) (bi mod 8)"
  by (simp add: bit_set_def push_bit_of_1 and_exp_eq_0_iff_not_bit)

lemma bit_cell: "i div 8 = j div 8 \<Longrightarrow> i mod 8 = j mod 8 \<longleftrightarrow> i = (j::nat)"
  by (metis div_mult_mod_eq)

lemma mark_bit_set:
  assumes "i < 8 * length d" "j < 8 * length d"
  shows "bit_set (mark_bit i d) j \<longleftrightarrow> j = i \<or> bit_set d j"
proof (cases "i div 8 = j div 8")
  case True
  have "i div 8 < length d" using assms by simp
  then show ?thesis using True bit_cell [OF True]
    by (auto simp: bit_set_eq mark_bit_def bit_or_iff push_bit_of_1 bit_exp_iff)
next
  case False
  then show ?thesis by (auto simp: bit_set_eq mark_bit_def)
qed

lemma clear_bit_set:
  assumes "i < 8 * length d" "j < 8 * length d"
  shows "bit_set (clear_bit i d) j \<longleftrightarrow> j \<noteq> i \<and> bit_set d j"
proof (cases "i div 8 = j div 8")
  case True
  have "i div 8 < length d" using assms by simp
  moreover have "j mod 8 < 8" by simp
  ultimately show ?thesis using True bit_cell [OF True]
    by (auto simp: bit_set_eq clear_bit_def bit_and_iff bit_not_iff push_bit_of_1 bit_exp_iff)
next
  case False
  then show ?thesis by (auto simp: bit_set_eq clear_bit_def)
qed

lemma bit_upd_length: "length (mark_bit i d) = length d" "length (clear_bit i d) = length d"
  by (simp_all add: mark_bit_def clear_bit_def)


section \<open>The bitmap\<close>

definition bm_no :: "'a kern_scheme \<Rightarrow> nat \<Rightarrow> nat" where
  "bm_no s b = unat (sb_bmapstart (sb s)) + b div BPB"

definition used :: "'a kern_scheme \<Rightarrow> nat \<Rightarrow> bool" where
  "used s b \<longleftrightarrow> bit_set (blk s (bm_no s b)) (b mod BPB)"

abbreviation fs_size :: "'a kern_scheme \<Rightarrow> nat" where
  "fs_size s \<equiv> unat (sb_size (sb s))"

text \<open>
  The file system lies on the disk, its bitmap inside it and outside the log, and the boot block, the
  super block, the log and the bitmap itself are in use.
\<close>

definition bitmap_ok :: "'a kern_scheme \<Rightarrow> bool" where
  "bitmap_ok s \<longleftrightarrow> fs_size s \<le> unat (disksize s) \<and> fs_size s < 2 ^ 31
     \<and> (\<forall>c < fs_size s. bm_no s c < fs_size s \<and> 1 < bm_no s c \<and> \<not> in_log (klog s) (bm_no s c))
     \<and> (\<forall>b < fs_size s. b \<le> 1 \<or> in_log (klog s) b \<or> (\<exists>c < fs_size s. b = bm_no s c) \<longrightarrow> used s b)"

lemma bitmap_okD:
  assumes "bitmap_ok s"
  shows "fs_size s \<le> unat (disksize s)" "fs_size s < 2 ^ 31"
    "c < fs_size s \<Longrightarrow> bm_no s c < fs_size s" "c < fs_size s \<Longrightarrow> 1 < bm_no s c"
    "c < fs_size s \<Longrightarrow> \<not> in_log (klog s) (bm_no s c)"
    "b < fs_size s \<Longrightarrow> b \<le> 1 \<Longrightarrow> used s b" "b < fs_size s \<Longrightarrow> in_log (klog s) b \<Longrightarrow> used s b"
    "c < fs_size s \<Longrightarrow> used s (bm_no s c)"
  using assms unfolding bitmap_ok_def by blast+

lemma bitmap_cong:
  assumes "blk t = blk s" "fs_frame s t"
  shows "bitmap_ok t = bitmap_ok s" "used t = used s" "bm_no t = bm_no s"
proof -
  show m: "bm_no t = bm_no s" using fs_frameD(8) [OF assms(2)] by (simp add: bm_no_def fun_eq_iff)
  then show u: "used t = used s" using assms(1) by (simp add: used_def fun_eq_iff)
  show "bitmap_ok t = bitmap_ok s" using u m fs_frameD(3,6,8) [OF assms(2)] by (simp add: bitmap_ok_def)
qed

lemma u32_block:
  assumes "bitmap_ok s" "b < fs_size s"
  shows "unat (of_nat b :: u32) = b" "(of_nat b :: u32) < disksize s"
proof -
  show "unat (of_nat b :: u32) = b" using bitmap_okD(2) [OF assms(1)] assms(2) by (simp add: unat_of_nat)
  then show "(of_nat b :: u32) < disksize s"
    using bitmap_okD(1) [OF assms(1)] assms(2) by (simp add: word_less_nat_alt)
qed

lemma bblock_no:
  assumes "bitmap_ok s" "b < fs_size s"
  shows "unat (BBLOCK (of_nat b) (sb s)) = bm_no s b"
proof -
  have "unat (of_nat b div BPB :: u32) = b div BPB" using u32_block(1) [OF assms] by (simp add: unat_div)
  moreover have "bm_no s b < 2 ^ 32" using bitmap_okD(2) [OF assms(1)] bitmap_okD(3) [OF assms] by simp
  ultimately show ?thesis by (simp add: BBLOCK_def bm_no_def unat_word_ariths)
qed


lemma tx_blk_length: "tx p n s \<Longrightarrow> b < disksize s \<Longrightarrow> length (blk s (unat b)) = BSIZE"
  using blk_length [of p s b] by (simp add: tx_def in_txn_def)

lemma unat_neq_one: "b \<noteq> (1::u32) \<longleftrightarrow> unat b \<noteq> 1"
  using word_unat_eq_iff [of b 1] by simp

lemma bitmap_block:
  fixes s :: "'a kern_scheme"
  assumes ok: "bitmap_ok s" and b: "b < fs_size s" and n: "tx p n s"
  defines "w \<equiv> BBLOCK (of_nat b) (sb s)"
  shows "unat w = bm_no s b" "w < disksize s" "length (blk s (bm_no s b)) = BSIZE"
    "length d = BSIZE \<Longrightarrow> loggable s (w, d)"
proof -
  note D = bitmap_okD [OF ok]
  show w: "unat w = bm_no s b" unfolding w_def by (rule bblock_no [OF ok b])
  show l: "w < disksize s" using D(1) D(3) [OF b] w by (simp add: word_less_nat_alt)
  show "length (blk s (bm_no s b)) = BSIZE" using tx_blk_length [OF n l] w by simp
  show "length d = BSIZE \<Longrightarrow> loggable s (w, d)"
    using l D(4,5) [OF b] w by (simp add: loggable_def unat_neq_one)
qed

lemma bzero_eq: "bzero 1 b s = log_put b (replicate BSIZE 0) s"
  by (simp add: bzero_def log_put_def)

lemma free_block_loggable:
  assumes ok: "bitmap_ok s" and b: "b < fs_size s" "\<not> used s b" and d: "length d = BSIZE"
  shows "loggable s (of_nat b, d)"
  using u32_block [OF ok b(1)] bitmap_okD(6,7) [OF ok b(1)] b(2) d by (auto simp: loggable_def unat_neq_one)

definition alloc_blk :: "'a kern_scheme \<Rightarrow> nat \<Rightarrow> nat \<Rightarrow> u8 list" where
  "alloc_blk s b = (blk s)(bm_no s b := mark_bit (b mod BPB) (blk s (bm_no s b)), b := replicate BSIZE 0)"

lemma balloc_take:
  fixes s :: "'a kern_scheme"
  assumes t: "tx p (Suc (Suc r)) s" and ok: "bitmap_ok s" and b: "b < fs_size s" "\<not> used s b"
    and u: "read_into p {} (BBLOCK (of_nat b') (sb s)) s i u" and b': "b' < fs_size s" "b' div BPB = b div BPB"
  shows "\<exists>t. rbind (log_write i (buf_data i (mark_bit (b mod BPB)) u)) (\<lambda>s. rbind (brelse i s) (\<lambda>s.
      rbind (bzero 1 (of_nat b) s) (\<lambda>s. Inr (of_nat b :: u32, s)))) = Inr (of_nat b, t)
    \<and> tx p r t \<and> fs_frame s t \<and> blk t = alloc_blk s b"
proof -
  let ?w = "BBLOCK (of_nat b' :: u32) (sb s)" let ?f = "mark_bit (b mod BPB)"
  have bm: "bm_no s b' = bm_no s b" using b'(2) by (simp add: bm_no_def)
  note w = bitmap_block [OF ok b'(1) t, unfolded bm]
  have l: "loggable s (?w, ?f (blk s (unat ?w)))" using w by (simp add: bit_upd_length)
  obtain v x where v: "log_write i (buf_data i ?f u) = Inr v" "brelse i v = Inr x" "tx p (Suc r) x"
    "blk x = (blk s)(unat ?w := ?f (blk s (unat ?w)))" "fs_frame s x"
    using tx_modify [where f = "?f", OF t u l] by blast
  have "loggable s (of_nat b, replicate BSIZE 0)" by (rule free_block_loggable [OF ok b]) simp
  then have lx: "loggable x (of_nat b, replicate BSIZE 0)" using fs_frameD(3,6) [OF v(5)] by (simp add: loggable_def)
  obtain y where y: "log_put (of_nat b) (replicate BSIZE 0) x = Inr y" "in_txn p y" "blk y = (blk x)(b := replicate BSIZE 0)"
    "fs_frame x y" "lh_n (klog y) \<le> lh_n (klog x) + 1"
    using log_put_ok [OF _ lx] v(3) u32_block(1) [OF ok b(1)] by (auto simp: tx_def)
  have "tx p r y" using y(2,5) v(3) fs_frameD(5) [OF y(4)] by (simp add: tx_def)
  moreover have "blk y = alloc_blk s b" using y(3) v(4) w(1) by (simp add: alloc_blk_def)
  ultimately show ?thesis using v(1,2) y(1) fs_frame_trans [OF v(5) y(4)] by (simp add: bzero_eq)
qed

lemma balloc_loop_ok:
  "tx p (Suc (Suc r)) s \<Longrightarrow> bitmap_ok s \<Longrightarrow> K = (fs_size s + (BPB - 1)) div BPB \<Longrightarrow> k \<le> K \<Longrightarrow>
   \<forall>c < fs_size s. c < BPB * k \<longrightarrow> used s c \<Longrightarrow>
   if \<forall>c < fs_size s. used s c then balloc_loop [k..<K] 1 s = Inl (Panic ''balloc: out of blocks'')
   else \<exists>b t. balloc_loop [k..<K] 1 s = Inr (of_nat b, t) \<and> b < fs_size s \<and> \<not> used s b \<and> (\<forall>c < b. used s c)
     \<and> tx p r t \<and> fs_frame s t \<and> blk t = alloc_blk s b"
proof (induction "K - k" arbitrary: k s)
  case 0
  then have "\<forall>c < fs_size s. used s c" by auto
  then show ?case using 0 by simp
next
  case (Suc n)
  note t = Suc.prems(1) and ok = Suc.prems(2)
  have k: "k < K" using Suc.hyps(2) by simp
  then have up: "[k..<K] = k # [Suc k..<K]" by (rule upt_conv_Cons)
  have bk: "BPB * k < fs_size s" using k Suc.prems(3) by simp
  let ?w = "BBLOCK (of_nat (BPB * k)) (sb s)"
  note w = bitmap_block [OF ok bk t]
  obtain i u where u: "bread 1 ?w s = Inr (i, u)" "read_into p {} ?w s i u" using tx_read [OF t w(2)] by blast
  let ?m = "min BPB (fs_size s - BPB * k)"
  have us: "\<not> bit_set (b_data (bufs u i)) bi \<longleftrightarrow> \<not> used s (BPB * k + bi)" if "bi < ?m" for bi
    using that read_into_data [OF u(2)] w(1) by (simp add: used_def bm_no_def)
  have small: "\<not> 2 ^ 31 \<le> BPB * k" using bitmap_okD(2) [OF ok] bk by simp
  let ?f = "find (\<lambda>bi. \<not> bit_set (b_data (bufs u i)) bi) [0..<?m]"
  show ?case
  proof (cases ?f)
    case (Some bi)
    then have bi: "bi < ?m" "\<not> used s (BPB * k + bi)" "\<forall>c < bi. used s (BPB * k + c)"
      using us unfolding find_Some_iff by (auto simp del: upt_rec_numeral)
    let ?b = "BPB * k + bi"
    have b: "?b < fs_size s" "?b mod BPB = bi" "(BPB * k) div BPB = ?b div BPB" using bi(1) by (linarith, simp_all)
    have less: "used s c" if "c < ?b" for c
    proof (cases "c < BPB * k")
      case True
      then show ?thesis using Suc.prems(5) that b(1) by simp
    next
      case False
      then show ?thesis using bi(3) [rule_format, of "c - BPB * k"] that by simp
    qed
    from balloc_take [OF t ok b(1) bi(2) u(2) bk b(3)] obtain x where
      "balloc_loop [k..<K] 1 s = Inr (of_nat ?b, x)" "tx p r x" "fs_frame s x" "blk x = alloc_blk s ?b"
      unfolding b(2) using u(1) Some small read_into_sb(1) [OF u(2)] by (auto simp: up Let_def)
    then have "\<exists>b t. balloc_loop [k..<K] 1 s = Inr (of_nat b, t) \<and> b < fs_size s \<and> \<not> used s b \<and> (\<forall>c < b. used s c)
      \<and> tx p r t \<and> fs_frame s t \<and> blk t = alloc_blk s b"
      using b(1) bi(2) less by (intro exI [of _ ?b] exI [of _ x]) blast
    moreover have "\<not> (\<forall>c < fs_size s. used s c)" using b(1) bi(2) by blast
    ultimately show ?thesis by (simp only: if_False not_False_eq_True)
  next
    case None
    then have all: "used s (BPB * k + bi)" if "bi < ?m" for bi
      using us that unfolding find_None_iff by (auto simp del: upt_rec_numeral)
    obtain x where x: "brelse i u = Inr x" "tx p (Suc (Suc r)) x" "blk x = blk s" "fs_frame s x" using tx_release [OF t u(2)] by blast
    note cg = bitmap_cong [OF x(3,4)] and sb = fs_frameD(8) [OF x(4)]
    have "balloc_loop [k..<K] 1 s = balloc_loop [Suc k..<K] 1 x"
      using u(1) None small read_into_sb(1) [OF u(2)] x(1) by (simp add: up Let_def)
    moreover have "\<forall>c < fs_size x. c < BPB * Suc k \<longrightarrow> used x c"
    proof (intro allI impI)
      fix c assume c: "c < fs_size x" "c < BPB * Suc k"
      show "used x c"
      proof (cases "c < BPB * k")
        case True
        then show ?thesis using Suc.prems(5) c(1) cg(2) sb by simp
      next
        case False
        then have "c - BPB * k < ?m" "BPB * k + (c - BPB * k) = c" using c sb by auto
        then show ?thesis using all [of "c - BPB * k"] cg(2) by simp
      qed
    qed
    then have "if \<forall>c < fs_size x. used x c then balloc_loop [Suc k..<K] 1 x = Inl (Panic ''balloc: out of blocks'')
      else \<exists>b t. balloc_loop [Suc k..<K] 1 x = Inr (of_nat b, t) \<and> b < fs_size x \<and> \<not> used x b \<and> (\<forall>c < b. used x c)
        \<and> tx p r t \<and> fs_frame x t \<and> blk t = alloc_blk x b"
      by (intro Suc.hyps(1)) (use Suc.hyps(2) x(2) cg(1) ok Suc.prems(3) sb k in simp_all)
    moreover have "alloc_blk x = alloc_blk s" using x(3) cg(3) by (simp add: alloc_blk_def fun_eq_iff)
    ultimately show ?thesis using cg(2) sb fs_frame_trans [OF x(4)] by (auto split: if_splits)
  qed
qed


section \<open>Allocating and freeing\<close>

definition reserved :: "'a kern_scheme \<Rightarrow> nat \<Rightarrow> bool" where
  "reserved s b \<longleftrightarrow> b \<le> 1 \<or> in_log (klog s) b \<or> (\<exists>c < fs_size s. b = bm_no s c)"

lemma reserved_used: "bitmap_ok s \<Longrightarrow> b < fs_size s \<Longrightarrow> reserved s b \<Longrightarrow> used s b"
  unfolding bitmap_ok_def reserved_def by blast

lemma frame_geometry:
  assumes "fs_frame s t"
  shows "fs_size t = fs_size s" "bm_no t = bm_no s" "reserved t = reserved s"
proof -
  show "fs_size t = fs_size s" and b: "bm_no t = bm_no s"
    using fs_frameD(8) [OF assms] by (simp_all add: bm_no_def fun_eq_iff)
  then show "reserved t = reserved s" using fs_frameD(6) [OF assms] by (simp add: reserved_def fun_eq_iff)
qed

lemma bitmap_upd:
  assumes ok: "bitmap_ok s" and fr: "fs_frame s t"
    and us: "\<And>c. c < fs_size s \<Longrightarrow> reserved s c \<Longrightarrow> used t c"
  shows "bitmap_ok t"
  using ok us fs_frameD(3,6) [OF fr] frame_geometry [OF fr] by (simp add: bitmap_ok_def reserved_def)

lemma alloc_used:
  assumes ok: "bitmap_ok s" and b: "b < fs_size s" "\<not> used s b" and t: "tx p n s"
    and fr: "fs_frame s u" and bl: "blk u = alloc_blk s b" and c: "c < fs_size s"
  shows "used u c \<longleftrightarrow> c = b \<or> used s c"
proof -
  have nb: "bm_no s c \<noteq> b" using bitmap_okD(8) [OF ok c] b(2) by auto
  have e: "used u c = bit_set (alloc_blk s b (bm_no s c)) (c mod BPB)"
    using bl frame_geometry(2) [OF fr] by (simp add: used_def)
  show ?thesis
  proof (cases "bm_no s c = bm_no s b")
    case True
    have "length (blk s (bm_no s b)) = BSIZE" by (rule bitmap_block(3) [OF ok b(1) t])
    moreover have "c = b \<longleftrightarrow> c mod BPB = b mod BPB" using True by (metis (no_types) add_left_cancel bm_no_def div_mult_mod_eq)
    moreover have "c mod BPB < BPB" "b mod BPB < BPB" by simp_all
    ultimately show ?thesis
      using e nb True mark_bit_set [of "b mod BPB" "blk s (bm_no s b)" "c mod BPB"] by (simp add: alloc_blk_def used_def)
  next
    case False
    then show ?thesis using e nb by (auto simp: alloc_blk_def used_def)
  qed
qed

lemma balloc_ok:
  assumes t: "tx p (Suc (Suc r)) s" and ok: "bitmap_ok s"
  shows "if \<forall>c < fs_size s. used s c then balloc 1 s = Inl (Panic ''balloc: out of blocks'')
   else \<exists>b u. balloc 1 s = Inr (of_nat b, u) \<and> b < fs_size s \<and> \<not> used s b \<and> (\<forall>c < b. used s c)
     \<and> tx p r u \<and> fs_frame s u \<and> blk u = alloc_blk s b \<and> bitmap_ok u \<and> (\<forall>c < fs_size s. used u c \<longleftrightarrow> c = b \<or> used s c)"
proof -
  have A: "bitmap_ok u \<and> (\<forall>c < fs_size s. used u c \<longleftrightarrow> c = b \<or> used s c)"
    if "b < fs_size s" "\<not> used s b" "fs_frame s u" "blk u = alloc_blk s b" for b and u :: "'a kern_scheme"
    using alloc_used [OF ok that(1,2) t that(3,4)] bitmap_upd [OF ok that(3)] reserved_used [OF ok] by auto
  have "if \<forall>c < fs_size s. used s c then balloc 1 s = Inl (Panic ''balloc: out of blocks'')
   else \<exists>b u. balloc 1 s = Inr (of_nat b, u) \<and> b < fs_size s \<and> \<not> used s b \<and> (\<forall>c < b. used s c)
     \<and> tx p r u \<and> fs_frame s u \<and> blk u = alloc_blk s b"
    unfolding balloc_def by (rule balloc_loop_ok [OF t ok refl]) simp_all
  then show ?thesis using A by (auto split: if_splits)
qed

lemma bfree_ok:
  assumes t: "tx p (Suc r) s" and ok: "bitmap_ok s" and b: "b < fs_size s" "\<not> reserved s b"
  shows "if used s b
   then \<exists>u. bfree 1 (of_nat b) s = Inr u \<and> tx p r u \<and> fs_frame s u \<and> bitmap_ok u
     \<and> blk u = (blk s)(bm_no s b := clear_bit (b mod BPB) (blk s (bm_no s b)))
     \<and> (\<forall>c < fs_size s. used u c \<longleftrightarrow> c \<noteq> b \<and> used s c)
   else bfree 1 (of_nat b) s = Inl (Panic ''freeing free block'')"
proof -
  let ?w = "BBLOCK (of_nat b :: u32) (sb s)" let ?f = "clear_bit (b mod BPB)"
  note w = bitmap_block [OF ok b(1) t]
  obtain i u where u: "bread 1 ?w s = Inr (i, u)" "read_into p {} ?w s i u" using tx_read [OF t w(2)] by blast
  have m: "unat ((of_nat b :: u32) mod BPB) = b mod BPB" using u32_block(1) [OF ok b(1)] by (simp add: unat_mod)
  have us: "bit_set (b_data (bufs u i)) (b mod BPB) = used s b" using read_into_data [OF u(2)] w(1) by (simp add: used_def)
  show ?thesis
  proof (cases "used s b")
    case False
    then show ?thesis using u(1) us m by (simp add: bfree_def)
  next
    case True
    have "loggable s (?w, ?f (blk s (unat ?w)))" using w by (simp add: bit_upd_length)
    then obtain v x where v: "log_write i (buf_data i ?f u) = Inr v" "brelse i v = Inr x" "tx p r x"
      "blk x = (blk s)(unat ?w := ?f (blk s (unat ?w)))" "fs_frame s x"
      using tx_modify [where f = "?f", OF t u(2)] by blast
    have ux: "used x c \<longleftrightarrow> c \<noteq> b \<and> used s c" if "c < fs_size s" for c
    proof (cases "bm_no s c = bm_no s b")
      case True
      moreover have "c = b \<longleftrightarrow> c mod BPB = b mod BPB" using True by (metis (no_types) add_left_cancel bm_no_def div_mult_mod_eq)
      moreover have "c mod BPB < BPB" "b mod BPB < BPB" by simp_all
      ultimately show ?thesis
        using v(4) w(1,3) frame_geometry(2) [OF v(5)] clear_bit_set [of "b mod BPB" "blk s (bm_no s b)" "c mod BPB"]
        by (simp add: used_def)
    next
      case False
      then show ?thesis using v(4) w(1) frame_geometry(2) [OF v(5)] by (auto simp: used_def)
    qed
    have "bitmap_ok x" using ux b(2) reserved_used [OF ok] by (intro bitmap_upd [OF ok v(5)]) auto
    then show ?thesis using True u(1) us m v w(1) ux by (simp add: bfree_def)
  qed
qed


section \<open>The allocator's contract\<close>

text \<open>
  An allocator of blocks below a limit, some of which are reserved; \<open>ready r\<close> says that \<open>r\<close> more
  blocks can be changed.
\<close>

locale block_allocator =
  fixes ready :: "nat \<Rightarrow> 's \<Rightarrow> bool" and limit :: "'s \<Rightarrow> nat" and rsvd :: "'s \<Rightarrow> nat \<Rightarrow> bool" and taken :: "'s \<Rightarrow> nat \<Rightarrow> bool"
    and alloc :: "'s \<Rightarrow> (u32 \<times> 's) res" and free :: "u32 \<Rightarrow> 's \<Rightarrow> 's res"
  assumes alloc_ok: "ready (Suc (Suc r)) s \<Longrightarrow> \<exists>c < limit s. \<not> taken s c \<Longrightarrow>
      \<exists>b t. alloc s = Inr (of_nat b, t) \<and> ready r t \<and> limit t = limit s \<and> rsvd t = rsvd s \<and> b < limit s \<and> \<not> rsvd s b
        \<and> \<not> taken s b \<and> (\<forall>c < limit s. taken t c \<longleftrightarrow> c = b \<or> taken s c)"
    and free_ok: "ready (Suc r) s \<Longrightarrow> b < limit s \<Longrightarrow> \<not> rsvd s b \<Longrightarrow> taken s b \<Longrightarrow>
      \<exists>t. free (of_nat b) s = Inr t \<and> ready r t \<and> limit t = limit s \<and> rsvd t = rsvd s
        \<and> (\<forall>c < limit s. taken t c \<longleftrightarrow> c \<noteq> b \<and> taken s c)"
begin

lemma alloc_free:
  assumes "ready (Suc (Suc (Suc r))) s" "\<exists>c < limit s. \<not> taken s c"
  shows "\<exists>b t u. alloc s = Inr (of_nat b, t) \<and> taken t b \<and> \<not> taken s b \<and> free (of_nat b) t = Inr u \<and> ready r u
    \<and> (\<forall>c < limit s. taken u c = taken s c)"
proof -
  obtain b t where t: "alloc s = Inr (of_nat b, t)" "ready (Suc r) t" "limit t = limit s" "rsvd t = rsvd s" "b < limit s"
    "\<not> rsvd s b" "\<not> taken s b" "\<forall>c < limit s. taken t c \<longleftrightarrow> c = b \<or> taken s c" using alloc_ok [OF assms] by blast
  obtain u where u: "free (of_nat b) t = Inr u" "ready r u" "\<forall>c < limit s. taken u c \<longleftrightarrow> c \<noteq> b \<and> taken t c"
    using free_ok [OF t(2), of b] t by auto
  then have "\<forall>c < limit s. taken u c = taken s c" using t(7,8) by auto
  then show ?thesis using t u by blast
qed

primrec allocs :: "nat \<Rightarrow> 's \<Rightarrow> (u32 list \<times> 's) res" where
  "allocs 0 s = Inr ([], s)"
| "allocs (Suc n) s = rbind (alloc s) (\<lambda>(b, s). rbind (allocs n s) (\<lambda>(bs, s). Inr (b # bs, s)))"

lemma allocs_distinct:
  "ready (2 * n) s \<Longrightarrow> n \<le> card {c. c < limit s \<and> \<not> taken s c} \<Longrightarrow>
   \<exists>bs t. allocs n s = Inr (map of_nat bs, t) \<and> length bs = n \<and> distinct bs
     \<and> (\<forall>b \<in> set bs. b < limit s \<and> \<not> taken s b) \<and> (\<forall>c < limit s. taken t c \<longleftrightarrow> c \<in> set bs \<or> taken s c)"
proof (induction n arbitrary: s)
  case (Suc n)
  have "{c. c < limit s \<and> \<not> taken s c} \<noteq> {}" using Suc.prems(2) by (metis card.empty le_zero_eq nat.distinct(1))
  then obtain b t where t: "alloc s = Inr (of_nat b, t)" "ready (2 * n) t" "limit t = limit s" "b < limit s"
    "\<not> taken s b" "\<forall>c < limit s. taken t c \<longleftrightarrow> c = b \<or> taken s c" using alloc_ok [of "2 * n" s] Suc.prems(1) by auto
  have "{c. c < limit t \<and> \<not> taken t c} = {c. c < limit s \<and> \<not> taken s c} - {b}" using t(3,6) by auto
  then have "n \<le> card {c. c < limit t \<and> \<not> taken t c}" using Suc.prems(2) t(4,5) by simp
  from Suc.IH [OF t(2) this] obtain bs u where u: "allocs n t = Inr (map of_nat bs, u)" "length bs = n" "distinct bs"
    "\<forall>b \<in> set bs. b < limit t \<and> \<not> taken t b" "\<forall>c < limit t. taken u c \<longleftrightarrow> c \<in> set bs \<or> taken t c" by blast
  have "allocs (Suc n) s = Inr (map of_nat (b # bs), u)" using t(1) u(1) by simp
  moreover have "length (b # bs) = Suc n" "distinct (b # bs)" using u(2-4) t(3,4,6) by auto
  moreover have "\<forall>c \<in> set (b # bs). c < limit s \<and> \<not> taken s c" using u(4) t(3-6) by auto
  moreover have "\<forall>c < limit s. taken u c \<longleftrightarrow> c \<in> set (b # bs) \<or> taken s c" using u(5) t(3,6) by auto
  ultimately show ?case by blast
qed simp

end

interpretation al: block_allocator "\<lambda>r s. tx p r s \<and> bitmap_ok s" "\<lambda>s. fs_size s" reserved used "balloc 1" "bfree 1" for p
proof (unfold_locales, goal_cases)
  case (1 r s)
  then obtain b u where "balloc 1 s = Inr (of_nat b, u)" "b < fs_size s" "\<not> used s b" "tx p r u" "fs_frame s u" "bitmap_ok u"
    "\<forall>c < fs_size s. used u c \<longleftrightarrow> c = b \<or> used s c" using balloc_ok [of p r s] by (auto split: if_splits)
  moreover from this have "\<not> reserved s b" using reserved_used [of s b] 1 by blast
  ultimately show ?case using frame_geometry [of s u] by auto
next
  case (2 r s b)
  then show ?case using bfree_ok [of p r s b] frame_geometry [of s] by (auto simp: frame_geometry)
qed


text \<open>
  C18: the block allocator. Inside a transaction, \<^verbatim>\<open>balloc\<close> panics if every block of the file system is in
  use; otherwise it returns the first block that is not, with its contents cleared and its bit set; no
  other block than this one and the bitmap block changes, exactly this block becomes used, and the
  boot block, super block, log and bitmap stay in use. Freeing that block restores the set of used blocks,
  and freeing it once more panics.
\<close>

theorem balloc_bfree:
  assumes t: "tx p 4 s" and ok: "bitmap_ok s"
  shows "if \<forall>c < fs_size s. used s c then balloc 1 s = Inl (Panic ''balloc: out of blocks'')
    else \<exists>b u v. balloc 1 s = Inr (of_nat b, u) \<and> b < fs_size s \<and> \<not> used s b \<and> (\<forall>c < b. used s c)
      \<and> blk u b = replicate BSIZE 0 \<and> (\<forall>c. c \<noteq> b \<and> c \<noteq> bm_no s b \<longrightarrow> blk u c = blk s c)
      \<and> (\<forall>c < fs_size s. used u c \<longleftrightarrow> c = b \<or> used s c) \<and> bitmap_ok u
      \<and> bfree 1 (of_nat b) u = Inr v \<and> (\<forall>c < fs_size s. used v c = used s c) \<and> bitmap_ok v
      \<and> bfree 1 (of_nat b) v = Inl (Panic ''freeing free block'')"
proof -
  have t': "tx p (Suc (Suc (Suc (Suc 0)))) s" using t by (simp add: eval_nat_numeral)
  show ?thesis
  proof (cases "\<forall>c < fs_size s. used s c")
    case True
    then show ?thesis using balloc_ok [OF t' ok] by simp
  next
    case False
    then obtain b u where u: "balloc 1 s = Inr (of_nat b, u)" "b < fs_size s" "\<not> used s b" "\<forall>c < b. used s c"
      "tx p (Suc (Suc 0)) u" "fs_frame s u" "blk u = alloc_blk s b" "bitmap_ok u" "\<forall>c < fs_size s. used u c \<longleftrightarrow> c = b \<or> used s c"
      using balloc_ok [OF t' ok] unfolding if_not_P [OF False] by blast
    have nr: "\<not> reserved s b" using reserved_used [OF ok u(2)] u(3) by blast
    note g = frame_geometry [OF u(6)]
    obtain v where v: "bfree 1 (of_nat b) u = Inr v" "tx p (Suc 0) v" "fs_frame u v" "bitmap_ok v"
      "\<forall>c < fs_size s. used v c \<longleftrightarrow> c \<noteq> b \<and> used u c"
      using bfree_ok [OF u(5,8), of b] u(2,9) nr g by auto
    note h = frame_geometry [OF v(3)]
    have "\<forall>c < fs_size s. used v c = used s c" using v(5) u(3,9) by auto
    moreover have "bfree 1 (of_nat b) v = Inl (Panic ''freeing free block'')"
      using bfree_ok [OF v(2,4), of b] u(2) v(5) nr g h by simp
    moreover have "blk u b = replicate BSIZE 0" "\<forall>c. c \<noteq> b \<and> c \<noteq> bm_no s b \<longrightarrow> blk u c = blk s c"
      using u(7) by (simp_all add: alloc_blk_def)
    ultimately show ?thesis using False u(1-4,8,9) v(1,4) by auto
  qed
qed

lemma fold_mark_bit:
  "\<forall>i \<in> set is. i < 8 * length d \<Longrightarrow> j < 8 * length d \<Longrightarrow> bit_set (fold mark_bit is d) j \<longleftrightarrow> j \<in> set is \<or> bit_set d j"
  by (induction "is" arbitrary: d) (auto simp: bit_upd_length mark_bit_set)

definition demo_fsdisk :: "nat \<Rightarrow> u8 list" where
  "demo_fsdisk = demo_disk(58 := fold mark_bit [0..<59] (replicate 512 0))"

definition demo_fs :: kern where
  "demo_fs = (binit (demo_kern\<lparr>disk := demo_fsdisk\<rparr>))\<lparr>klog := (klog demo_kern)\<lparr>lg_outstanding := 1\<rparr>\<rparr>"

lemma length_fold_mark: "length (fold mark_bit is d) = length d"
  by (induction "is" arbitrary: d) (simp_all add: bit_upd_length)

lemma demo_fsdisk_length: "length (demo_fsdisk b) = 512"
  using demo_super(3) [of b] by (simp add: demo_fsdisk_def length_fold_mark del: upt_rec_numeral)

lemma demo_fs_ok: "tx 3 12 demo_fs" "blk demo_fs = demo_fsdisk" "sb demo_fs = sb demo_kern" "disksize demo_fs = 1000"
  "klog demo_fs = (klog demo_kern)\<lparr>lg_outstanding := 1\<rparr>" "\<not> dirty demo_fs b" "icache demo_fs = icache demo_kern"
  "mem demo_fs = mem demo_kern" "ptable demo_fs = ptable demo_kern"
proof -
  let ?s = "demo_kern\<lparr>disk := demo_fsdisk\<rparr>"
  have k: "klog demo_kern = klog demo_boot" "disksize demo_kern = 1000" using demo_sel by (simp_all add: demo_boot_def)
  have c: "calm 3 ?s" "cold ?s"
    using demo_kern_calm demo_kern_cold demo_fsdisk_length by (simp_all add: cold_def)
  obtain B L where eq: "binit ?s = ?s\<lparr>bufs := B, sleeplocks := L\<rparr>" using binit_ok(1) [OF c] by blast
  have r: "bio_ready 3 (binit ?s)" using binit_ok(2,4) [OF c] c(1) by (simp add: bio_ready_def) (simp add: eq)
  have "demo_fsdisk 2 = demo_disk 2" "demo_fsdisk (Suc 0) = demo_disk (Suc 0)" by (simp_all add: demo_fsdisk_def)
  then have "log_idle 3 (binit ?s)"
    using r by (simp add: log_idle_def eq log_ok_def k demo_sel formatted_def head_no_def demo_super [unfolded One_nat_def])
  from begin_op_ok(2) [OF this] show "tx 3 12 demo_fs"
    by (simp add: tx_def demo_fs_def) (simp add: eq k demo_sel)
  show "blk demo_fs = demo_fsdisk" "\<not> dirty demo_fs b" using binit_ok(3,4) [OF c] by (simp_all add: demo_fs_def)
  show "sb demo_fs = sb demo_kern" "disksize demo_fs = 1000" "klog demo_fs = (klog demo_kern)\<lparr>lg_outstanding := 1\<rparr>"
    "icache demo_fs = icache demo_kern" "mem demo_fs = mem demo_kern" "ptable demo_fs = ptable demo_kern"
    by (simp_all add: demo_fs_def eq k)
qed

lemma demo_fs_bitmap: "bitmap_ok demo_fs" "fs_size demo_fs = 1000" "b < 4096 \<Longrightarrow> used demo_fs b \<longleftrightarrow> b < 59"
proof -
  have z: "\<not> bit_set (replicate 512 0) b" if "b < 4096" for b using that by (simp add: bit_set_eq)
  have g: "bm_no demo_fs b = 58" if "b < 4096" for b using that demo_fs_ok(3) by (simp add: bm_no_def demo_kern_def)
  show u: "used demo_fs b \<longleftrightarrow> b < 59" if "b < 4096" for b
  proof -
    have "used demo_fs b = bit_set (fold mark_bit [0..<59] (replicate 512 0)) b"
      unfolding used_def g [OF that] demo_fs_ok(2) demo_fsdisk_def using that by simp
    then show ?thesis using that z [OF that] fold_mark_bit [of "[0..<59]" "replicate 512 0" b] by (simp del: upt_rec_numeral)
  qed
  show n: "fs_size demo_fs = 1000" using demo_fs_ok(3) by (simp add: demo_kern_def)
  have "klog demo_kern = klog demo_boot" by (simp add: demo_boot_def)
  then show "bitmap_ok demo_fs" using u g
    by (auto simp: bitmap_ok_def n demo_fs_ok(4,5) in_log_def demo_sel)
qed

theorem balloc_bfree_witness:
  "\<exists>u v. balloc 1 demo_fs = Inr (59, u) \<and> blk u 59 = replicate 512 0 \<and> bfree 1 59 u = Inr v \<and> \<not> used v 59"
proof -
  have t: "tx 3 4 demo_fs" by (rule tx_mono [OF demo_fs_ok(1)]) simp
  have ex: "\<not> (\<forall>c < 1000. used demo_fs c)" using demo_fs_bitmap(3) by (auto intro!: exI [of _ 59])
  obtain b u v where b: "balloc 1 demo_fs = Inr (of_nat b, u)" "b < 1000" "\<not> used demo_fs b" "\<forall>c < b. used demo_fs c"
    "blk u b = replicate BSIZE 0" "bfree 1 (of_nat b) u = Inr v" "\<forall>c < 1000. used v c = used demo_fs c"
    using balloc_bfree [OF t demo_fs_bitmap(1)] unfolding demo_fs_bitmap(2) if_not_P [OF ex] by blast
  have "\<not> b < 59" using b(2,3) demo_fs_bitmap(3) [of b] by simp
  moreover have "\<not> 59 < b" using b(4) demo_fs_bitmap(3) [of 59] by auto
  ultimately have "b = 59" by simp
  then show ?thesis using b demo_fs_bitmap(3) [of 59] by auto
qed

end
