(* ===== verification/FsCodec.thy ===== *)
theory FsCodec
  imports LogInv
begin

text \<open>
  Structures in blocks: what is written as a \<^verbatim>\<open>struct dinode\<close> or a directory entry is read back, and
  writing one inode of a block leaves the others of the block alone.
\<close>

lemma slice_in_splice:
  assumes "off + length ys \<le> length xs" "a + n \<le> length ys"
  shows "slice (off + a) n (splice off ys xs) = slice a n ys"
  using assms by (simp add: slice_def splice_def)

lemma slice_append: "slice (length xs + a) n (xs @ ys) = slice a n ys"
  "a + n \<le> length xs \<Longrightarrow> slice a n (xs @ ys) = slice a n xs"
  by (simp_all add: slice_def)

lemma u16_bytes [simp]: "u16_of_bytes (bytes_of_u16 w) = w" "length (bytes_of_u16 w) = 2"
proof -
  show "length (bytes_of_u16 w) = 2" by (simp add: bytes_of_u16_def)
  have "(ucast (ucast w :: u8) :: u16) OR push_bit 8 (ucast (ucast (drop_bit 8 w) :: u8)) = w"
    by (rule bit_word_eqI) (auto simp: bit_simps)
  then show "u16_of_bytes (bytes_of_u16 w) = w" by (simp add: u16_of_bytes_def bytes_of_u16_def)
qed

lemma slice_words: "k < length as \<Longrightarrow> slice (4 * k) 4 (concat (map bytes_of_u32 as)) = bytes_of_u32 (as ! k)"
proof (induction as arbitrary: k)
  case (Cons a as)
  show ?case
  proof (cases k)
    case 0
    then show ?thesis by (simp add: slice_def)
  next
    case (Suc j)
    then show ?thesis using Cons.IH [of j] Cons.prems slice_append(1) [of "bytes_of_u32 a" "4 * j" 4] by simp
  qed
qed simp

lemma length_words: "length (concat (map bytes_of_u32 as)) = 4 * length as"
  by (induction as) simp_all

lemma length_bytes_of_dinode: "length (di_addrs di) = NDIRECT + 1 \<Longrightarrow> length (bytes_of_dinode di) = 64"
  by (simp add: bytes_of_dinode_def length_words)

lemma dinode_slices:
  assumes "length (di_addrs di) = NDIRECT + 1"
  shows "slice 0 2 (bytes_of_dinode di) = bytes_of_u16 (di_type di)"
    "slice 2 2 (bytes_of_dinode di) = bytes_of_u16 (di_major di)"
    "slice 4 2 (bytes_of_dinode di) = bytes_of_u16 (di_minor di)"
    "slice 6 2 (bytes_of_dinode di) = bytes_of_u16 (di_nlink di)"
    "slice 8 4 (bytes_of_dinode di) = bytes_of_u32 (di_size di)"
    "k < 13 \<Longrightarrow> slice (12 + 4 * k) 4 (bytes_of_dinode di) = bytes_of_u32 (di_addrs di ! k)"
proof -
  show "slice 0 2 (bytes_of_dinode di) = bytes_of_u16 (di_type di)"
    "slice 2 2 (bytes_of_dinode di) = bytes_of_u16 (di_major di)"
    "slice 4 2 (bytes_of_dinode di) = bytes_of_u16 (di_minor di)"
    "slice 6 2 (bytes_of_dinode di) = bytes_of_u16 (di_nlink di)"
    "slice 8 4 (bytes_of_dinode di) = bytes_of_u32 (di_size di)"
    by (simp_all add: bytes_of_dinode_def slice_def)
  let ?pre = "bytes_of_u16 (di_type di) @ bytes_of_u16 (di_major di) @ bytes_of_u16 (di_minor di)
     @ bytes_of_u16 (di_nlink di) @ bytes_of_u32 (di_size di)"
  have e: "bytes_of_dinode di = ?pre @ concat (map bytes_of_u32 (di_addrs di))" by (simp add: bytes_of_dinode_def)
  have l: "length ?pre = 12" by simp
  have "k < length (di_addrs di)" if "k < 13" using that assms by simp
  then show "slice (12 + 4 * k) 4 (bytes_of_dinode di) = bytes_of_u32 (di_addrs di ! k)" if "k < 13"
    unfolding e using slice_append(1) [of ?pre "4 * k" 4, unfolded l] slice_words that by simp
qed

lemma get_put_dinode:
  assumes a: "length (di_addrs di) = NDIRECT + 1" and d: "length d = BSIZE" and i: "i < IPB"
  shows "get_dinode i (put_dinode i di d) = di"
proof -
  have l: "64 * i + length (bytes_of_dinode di) \<le> length d" using length_bytes_of_dinode [OF a] d i by simp
  note s = slice_in_splice [OF l] and ds = dinode_slices [OF a] and len = length_bytes_of_dinode [OF a]
  have "map (\<lambda>k. get32 (64 * i + 12 + 4 * k) (put_dinode i di d)) [0..<NDIRECT + 1] = di_addrs di"
  proof (rule nth_equalityI)
    fix k assume "k < length (map (\<lambda>k. get32 (64 * i + 12 + 4 * k) (put_dinode i di d)) [0..<NDIRECT + 1])"
    then have k: "k < 13" by simp
    have "slice (64 * i + (12 + 4 * k)) 4 (put_dinode i di d) = bytes_of_u32 (di_addrs di ! k)"
      unfolding put_dinode_def using s [of "12 + 4 * k" 4] ds(6) [OF k] len k by simp
    then show "map (\<lambda>k. get32 (64 * i + 12 + 4 * k) (put_dinode i di d)) [0..<NDIRECT + 1] ! k = di_addrs di ! k"
      using k by (simp add: get32_def add.assoc del: upt_Suc)
  qed (use a in simp)
  moreover have "get16 (64 * i) (put_dinode i di d) = di_type di" "get16 (64 * i + 2) (put_dinode i di d) = di_major di"
    "get16 (64 * i + 4) (put_dinode i di d) = di_minor di" "get16 (64 * i + 6) (put_dinode i di d) = di_nlink di"
    "get32 (64 * i + 8) (put_dinode i di d) = di_size di"
    unfolding put_dinode_def get16_def get32_def
    using s [of 0 2] s [of 2 2] s [of 4 2] s [of 6 2] s [of 8 4] ds(1-5) len by simp_all
  ultimately show ?thesis by (simp add: get_dinode_def Let_def del: upt_Suc)
qed

lemma get_put_dinode_other:
  assumes a: "length (di_addrs di) = NDIRECT + 1" and d: "length d = BSIZE" and i: "i < IPB" "j < IPB" "i \<noteq> j"
  shows "get_dinode j (put_dinode i di d) = get_dinode j d"
proof -
  have l: "64 * i + length (bytes_of_dinode di) \<le> length d" using length_bytes_of_dinode [OF a] d i by simp
  have "slice (64 * j + x) n (put_dinode i di d) = slice (64 * j + x) n d" if "x + n \<le> 64" for x n
    unfolding put_dinode_def using l that i d length_bytes_of_dinode [OF a]
    by (intro slice_splice_other) linarith+
  from this [of 0 2] this [of 2 2] this [of 4 2] this [of 6 2] this [of 8 4] this [of "12 + 4 * _" 4] show ?thesis
    by (auto simp: get_dinode_def Let_def get16_def get32_def add.assoc simp del: upt_Suc)
qed

lemma length_put_dinode:
  "length (di_addrs di) = NDIRECT + 1 \<Longrightarrow> length d = BSIZE \<Longrightarrow> i < IPB \<Longrightarrow> length (put_dinode i di d) = BSIZE"
  using length_splice [of "64 * i" "bytes_of_dinode di" d] length_bytes_of_dinode [of di] by (simp add: put_dinode_def)

end
