(* ===== verification/FileSpec.thy ===== *)
theory FileSpec
  imports BlockSpec FsCodec FsData
begin

text \<open>
  Reading files: \<^verbatim>\<open>bmap\<close> finds the blocks of a file that has no holes, and \<^verbatim>\<open>readi\<close> returns the bytes of the file.
\<close>

section \<open>The bytes of a file\<close>

definition faddr :: "u32 list \<Rightarrow> (nat \<Rightarrow> u8 list) \<Rightarrow> nat \<Rightarrow> u32" where
  "faddr as d k = (if k < NDIRECT then as ! k
     else if as ! NDIRECT = 0 then 0 else get32 (4 * (k - NDIRECT)) (d (unat (as ! NDIRECT))))"

definition fdata :: "u32 list \<Rightarrow> (nat \<Rightarrow> u8 list) \<Rightarrow> nat \<Rightarrow> u8 list" where
  "fdata as d k = (if faddr as d k = 0 then replicate BSIZE 0 else d (unat (faddr as d k)))"

definition fbytes :: "u32 list \<Rightarrow> (nat \<Rightarrow> u8 list) \<Rightarrow> u8 list" where
  "fbytes as d = concat (map (fdata as d) [0..<MAXFILE])"

lemma slice_split: "slice off (m + n) xs = slice off m xs @ slice (off + m) n xs"
  by (simp add: slice_def take_add add.commute)

lemma length_concat_blocks: "(\<And>j. j < n \<Longrightarrow> length (f j) = B) \<Longrightarrow> length (concat (map f [0..<n])) = n * B"
  by (induction n) simp_all

lemma slice_blocks:
  assumes f: "\<And>j. j < n \<Longrightarrow> length (f j) = B" and k: "k < n" "i + m \<le> B"
  shows "slice (k * B + i) m (concat (map f [0..<n])) = slice i m (f k)"
proof -
  have s: "[0..<n] = [0..<k] @ k # [Suc k..<n]"
    using k(1) by (metis append_Cons append_Nil le0 less_imp_le_nat upt_add_eq_append upt_conv_Cons le_add_diff_inverse)
  have l: "length (concat (map f [0..<k])) = k * B" using f k by (intro length_concat_blocks) simp
  show ?thesis using l k f [of k] unfolding s by (simp add: slice_def)
qed

section \<open>Looking up a block\<close>

text \<open>Block \<open>k\<close> of the file with the addresses \<open>as\<close> is on the disk.\<close>

definition mapped :: "u32 list \<Rightarrow> 'a kern_scheme \<Rightarrow> nat \<Rightarrow> bool" where
  "mapped as s k \<longleftrightarrow> (let a = faddr as (blk s) k in
     a \<noteq> 0 \<and> a < disksize s \<and> (NDIRECT \<le> k \<longrightarrow> as ! NDIRECT < disksize s))"

lemma mapped_cong:
  assumes "blk t = blk s" "disksize t = disksize s"
  shows "mapped as t k = mapped as s k"
  using assms by (simp add: mapped_def)

lemma bmap_mapped:
  assumes tx: "tx p n s" and d: "i_dev (icache s ip) = 1" and k: "unat bn < MAXFILE" and m: "mapped (i_addrs (icache s ip)) s (unat bn)"
  shows "\<exists>t. bmap ip bn s = Inr (faddr (i_addrs (icache s ip)) (blk s) (unat bn), t) \<and> tx p n t \<and> blk t = blk s \<and> fs_frame s t"
proof -
  let ?as = "i_addrs (icache s ip)"
  have a: "faddr ?as (blk s) (unat bn) \<noteq> 0" using m by (simp add: mapped_def Let_def)
  show ?thesis
  proof (cases "bn < 12")
    case True
    then have "unat bn < 12" by (simp add: word_less_nat_alt)
    then show ?thesis using True a tx fs_frame_refl [of s] by (auto simp: bmap_def addr_or_alloc_def faddr_def)
  next
    case False
    let ?j = "bn - 12"
    have j: "unat ?j = unat bn - 12" "12 \<le> unat bn" "?j < 128"
      using False k by (auto simp: unat_sub_if' not_less word_le_nat_alt word_less_nat_alt)
    have ib: "?as ! 12 \<noteq> 0" "?as ! 12 < disksize s" and g: "get32 (4 * unat ?j) (blk s (unat (?as ! 12))) \<noteq> 0"
      using m a j by (auto simp: mapped_def Let_def faddr_def split: if_splits)
    obtain i u where r: "bread 1 (?as ! 12) s = Inr (i, u)" "read_into p {} (?as ! 12) s i u" by (rule tx_read [OF tx ib(2)])
    obtain t where t: "brelse i u = Inr t" "tx p n t" "blk t = blk s" "fs_frame s t" by (rule tx_release [OF tx r(2)])
    have "bmap ip bn s = Inr (get32 (4 * unat ?j) (blk s (unat (?as ! 12))), t)"
      using False j(3) d ib(1) r(1) read_into_data [OF r(2)] g t(1) by (simp add: bmap_def addr_or_alloc_def Let_def)
    moreover have "get32 (4 * unat ?j) (blk s (unat (?as ! 12))) = faddr ?as (blk s) (unat bn)"
      using j ib(1) by (simp add: faddr_def)
    ultimately show ?thesis using t by auto
  qed
qed

lemma fdata_length:
  assumes "tx p n s" "\<And>k. k < MAXFILE \<Longrightarrow> faddr as (blk s) k \<noteq> 0 \<Longrightarrow> faddr as (blk s) k < disksize s" "k < MAXFILE"
  shows "length (fdata as (blk s) k) = BSIZE"
  using assms(2,3) tx_blk_length [OF assms(1)] by (auto simp: fdata_def word_less_nat_alt)

section \<open>Reading\<close>

text \<open>The blocks below byte \<open>z\<close> are on the disk, and so is every block the addresses name.\<close>

definition no_holes :: "u32 list \<Rightarrow> 'a kern_scheme \<Rightarrow> nat \<Rightarrow> bool" where
  "no_holes as s z \<longleftrightarrow> z \<le> MAXFILE * BSIZE \<and> (\<forall>k. k * BSIZE < z \<longrightarrow> mapped as s k)
     \<and> (\<forall>k < MAXFILE. let a = faddr as (blk s) k in a \<noteq> 0 \<longrightarrow> a < disksize s)"

lemma no_holes_cong: "blk t = blk s \<Longrightarrow> disksize t = disksize s \<Longrightarrow> no_holes as t z = no_holes as s z"
  using mapped_cong [of t s as] by (simp add: no_holes_def)

lemma no_holes_mono: "no_holes as s z \<Longrightarrow> z' \<le> z \<Longrightarrow> no_holes as s z'"
  by (auto simp: no_holes_def)

lemma chunk_min: "t < n \<Longrightarrow> r < B \<Longrightarrow> m = min (n - t) (B - r) \<Longrightarrow> 0 < m \<and> r + m \<le> B \<and> t + m \<le> (n :: nat)"
  by auto

lemma chunk_facts:
  assumes "tot < n"
  shows "unat (chunk off n tot) = min (unat n - unat tot) (512 - unat off mod 512)" "0 < unat (chunk off n tot)"
    "unat (tot + chunk off n tot) = unat tot + unat (chunk off n tot)" "unat off mod 512 + unat (chunk off n tot) \<le> 512"
    "unat tot + unat (chunk off n tot) \<le> unat n"
proof -
  have nt: "unat (n - tot) = unat n - unat tot" "unat tot < unat n" using assms by (simp_all add: unat_sub_if' word_less_nat_alt)
  have m: "unat (off mod 512) = unat off mod 512" by (simp add: unat_mod_distrib)
  have l: "unat off mod 512 < 512" by simp
  have r: "unat (512 - off mod 512) = 512 - unat off mod 512" using m by (simp add: unat_sub_if')
  show c: "unat (chunk off n tot) = min (unat n - unat tot) (512 - unat off mod 512)"
    using nt r by (simp add: chunk_def min_def word_le_nat_alt)
  note f = chunk_min [OF nt(2) l c]
  then show "0 < unat (chunk off n tot)" "unat off mod 512 + unat (chunk off n tot) \<le> 512" "unat tot + unat (chunk off n tot) \<le> unat n"
    by blast+
  have "unat tot + unat (chunk off n tot) < 2 ^ LENGTH(32)" using f by (blast intro: le_less_trans unsigned_less)
  then show "unat (tot + chunk off n tot) = unat tot + unat (chunk off n tot)"
    by (rule unat_add_lem [THEN iffD1])
qed

lemma read_chunk:
  assumes tx: "tx p r s" and d: "i_dev (icache s ip) = 1" and h: "no_holes (i_addrs (icache s ip)) s z" and z: "unat off + m \<le> z" "0 < m"
    and m: "unat off mod 512 + m \<le> 512"
  shows "\<exists>a u i v t. bmap ip (off div 512) s = Inr (a, u) \<and> bread 1 a u = Inr (i, v) \<and> icache u = icache s
    \<and> slice (unat off mod 512) m (b_data (bufs v i)) = slice (unat off) m (fbytes (i_addrs (icache s ip)) (blk s))
    \<and> brelse i v = Inr t \<and> tx p r t \<and> blk t = blk s \<and> fs_frame s t"
proof -
  let ?as = "i_addrs (icache s ip)"
  let ?k = "unat off div 512"
  have u: "unat (off div 512) = ?k" by (simp add: unat_div_distrib)
  have kz: "?k * 512 < z" using z mult_div_mod_eq [of 512 "unat off"] by linarith
  then have k: "?k < 140" "mapped ?as s ?k" using h by (auto simp: no_holes_def intro!: less_mult_imp_div_less)
  obtain t1 where b: "bmap ip (off div 512) s = Inr (faddr ?as (blk s) ?k, t1)" "tx p r t1" "blk t1 = blk s" "fs_frame s t1"
    using bmap_mapped [OF tx d, of "off div 512"] k u by auto
  let ?a = "faddr ?as (blk s) ?k"
  have a: "?a \<noteq> 0" "?a < disksize t1" using k(2) fs_frameD(3) [OF b(4)] by (simp_all add: mapped_def Let_def)
  obtain i v where v: "bread 1 ?a t1 = Inr (i, v)" "read_into p {} ?a t1 i v" by (rule tx_read [OF b(2) a(2)])
  obtain t where t: "brelse i v = Inr t" "tx p r t" "blk t = blk t1" "fs_frame t1 t" by (rule tx_release [OF b(2) v(2)])
  have "length (fdata ?as (blk s) j) = 512" if "j < 140" for j
    using h that by (intro fdata_length [OF tx]) (auto simp: no_holes_def Let_def)
  then have "slice (unat off) m (fbytes ?as (blk s)) = slice (unat off mod 512) m (fdata ?as (blk s) ?k)"
    using slice_blocks [of 140 "fdata ?as (blk s)" 512 ?k "unat off mod 512" m] k(1) m by (simp add: fbytes_def del: upt_rec_numeral)
  moreover have "b_data (bufs v i) = fdata ?as (blk s) ?k" using read_into_data [OF v(2)] b(3) a(1) by (simp add: fdata_def)
  ultimately show ?thesis using b v t fs_frame_trans [OF b(4) t(4)] fs_frameD(9) [OF b(4)] by auto
qed

lemma readi_loop_ok:
  assumes "tx p r s" "i_dev (icache s ip) = 1" "no_holes (i_addrs (icache s ip)) s z" "unat off + (unat n - unat tot) \<le> z" "tot \<le> n"
  shows "\<exists>t. readi_loop ip ToLocal off n tot got s
      = Inr (got @ slice (unat off) (unat n - unat tot) (fbytes (i_addrs (icache s ip)) (blk s)), t)
    \<and> tx p r t \<and> blk t = blk s \<and> fs_frame s t"
  using assms
proof (induction "unat n - unat tot" arbitrary: off tot got s rule: less_induct)
  case less
  show ?case
  proof (cases "tot < n")
    case False
    then have "tot = n" using less.prems(5) by simp
    then show ?thesis using less.prems(1) fs_frame_refl [of s] by (simp add: readi_loop.simps slice_def)
  next
    case True
    let ?m = "chunk off n tot"
    let ?B = "fbytes (i_addrs (icache s ip)) (blk s)"
    note C = chunk_facts [OF True, of off]
    have zz: "unat off + unat ?m \<le> z" using less.prems(4) C(1) by simp
    obtain a u i v t where R: "bmap ip (off div 512) s = Inr (a, u)" "bread 1 a u = Inr (i, v)" "icache u = icache s"
        "slice (unat off mod 512) (unat ?m) (b_data (bufs v i)) = slice (unat off) (unat ?m) ?B"
        "brelse i v = Inr t" "tx p r t" "blk t = blk s" "fs_frame s t"
      using read_chunk [OF less.prems(1-3) zz C(2,4)] by blast
    have ic: "icache t = icache s" using fs_frameD(9) [OF R(8)] .
    have z31: "z \<le> 71680" using less.prems(3) by (simp add: no_holes_def)
    have offm: "unat (off + ?m) = unat off + unat ?m" using zz z31 by (intro unat_add_lem [THEN iffD1]) simp
    have tm: "tot + ?m \<le> n" using C(3,5) by (simp add: word_le_nat_alt)
    have dec: "unat n - unat (tot + ?m) < unat n - unat tot" "unat (off + ?m) + (unat n - unat (tot + ?m)) \<le> z"
      using C(2,3,5) offm less.prems(4) by simp_all
    let ?g = "got @ slice (unat off) (unat ?m) ?B"
    obtain t2 where L: "readi_loop ip ToLocal (off + ?m) n (tot + ?m) ?g t
        = Inr (?g @ slice (unat (off + ?m)) (unat n - unat (tot + ?m)) ?B, t2)" "tx p r t2" "blk t2 = blk t" "fs_frame t t2"
      using less.hyps [OF dec(1) R(6) _ _ dec(2) tm, of ?g] less.prems(2,3) ic R(7) no_holes_cong [OF R(7) fs_frameD(3) [OF R(8)]] by auto
    have "readi_loop ip ToLocal off n tot got s = readi_loop ip ToLocal (off + ?m) n (tot + ?m) ?g t"
      using True R(1-5) less.prems(2) by (subst readi_loop.simps) (simp add: deliver_def Let_def unat_mod_distrib)
    moreover have "unat n - unat tot = unat ?m + (unat n - unat (tot + ?m))" using C(3,5) by simp
    then have "slice (unat off) (unat n - unat tot) ?B = slice (unat off) (unat ?m) ?B @ slice (unat (off + ?m)) (unat n - unat (tot + ?m)) ?B"
      using offm by (simp add: slice_split)
    ultimately show ?thesis using L R(7) fs_frame_trans [OF R(8) L(4)] by auto
  qed
qed

text \<open>The bytes of a file up to its size.\<close>

definition contents :: "'a kern_scheme \<Rightarrow> nat \<Rightarrow> u8 list" where
  "contents s ip = take (unat (i_size (icache s ip))) (fbytes (i_addrs (icache s ip)) (blk s))"

lemma readi_ok:
  assumes tx: "tx p r s" and d: "i_dev (icache s ip) = 1" "i_type (icache s ip) \<noteq> T_DEV"
    and h: "no_holes (i_addrs (icache s ip)) s z" "min (unat off + unat n) (unat (i_size (icache s ip))) \<le> z"
    and off: "off \<le> i_size (icache s ip)" "unat off + unat n < 2 ^ 32"
  shows "\<exists>t. readi ip ToLocal off n s = Inr (int (length (slice (unat off) (unat n) (contents s ip))),
      slice (unat off) (unat n) (contents s ip), t) \<and> tx p r t \<and> blk t = blk s \<and> fs_frame s t"
proof -
  let ?z = "i_size (icache s ip)"
  let ?B = "fbytes (i_addrs (icache s ip)) (blk s)"
  define m where "m = (if off + n > ?z then ?z - off else n)"
  have on: "unat (off + n) = unat off + unat n" using off(2) by (intro unat_add_lem [THEN iffD1]) simp
  have oz: "unat off \<le> unat ?z" using off(1) by (simp add: word_le_nat_alt)
  have m: "unat m = min (unat n) (unat ?z - unat off)"
    using on oz off(1) by (auto simp: m_def word_less_nat_alt unat_sub min_def)
  have om: "unat off + unat m \<le> z" unfolding m using oz h(2) by auto
  have nw: "\<not> off + n < off" using on by (simp add: word_less_nat_alt)
  have z31: "z \<le> 71680" using h(1) by (simp add: no_holes_def)
  obtain t where t: "readi_loop ip ToLocal off m 0 [] s = Inr (slice (unat off) (unat m) ?B, t)" "tx p r t" "blk t = blk s" "fs_frame s t"
    using readi_loop_ok [OF tx d(1) h(1), of off m 0 "[]"] om by auto
  have lB: "length ?B = 71680" using length_concat_blocks [of 140 "fdata (i_addrs (icache s ip)) (blk s)" 512] h(1)
    by (simp add: fbytes_def fdata_length [OF tx] no_holes_def Let_def del: upt_rec_numeral)
  have s: "slice (unat off) (unat n) (contents s ip) = slice (unat off) (unat m) ?B"
    using m by (simp add: contents_def slice_def drop_take)
  have "length (slice (unat off) (unat m) ?B) = unat m" using lB om z31 by (simp add: slice_def)
  moreover have "int_of_u32 m = int (unat m)" using om z31 by (intro int_of_u32_small) simp
  ultimately have "readi ip ToLocal off n s = Inr (int (length (slice (unat off) (unat m) ?B)), slice (unat off) (unat m) ?B, t)"
    using d(2) off(1) nw t(1) by (simp add: readi_def Let_def m_def [symmetric] leD)
  then show ?thesis using t s by simp
qed

end
