(* ===== verification/InodeSpec.thy ===== *)
theory InodeSpec
  imports BlockSpec FsCodec FsData
begin

text \<open>
  The inode cache: the invariant of \<^verbatim>\<open>icache\<close> and what \<^verbatim>\<open>iget\<close>, \<^verbatim>\<open>ilock\<close>, \<^verbatim>\<open>iunlock\<close> and \<^verbatim>\<open>iput\<close> do to it.
\<close>

section \<open>Frames\<close>

lemma icache_upd [simp]:
  "blk (s\<lparr>icache := X\<rparr>) = blk s" "dirty (s\<lparr>icache := X\<rparr>) = dirty s" "bio_ok p H (s\<lparr>icache := X\<rparr>) = bio_ok p H s"
  "log_ok (s\<lparr>icache := X\<rparr>) = log_ok s"
  by (simp_all add: fun_eq_iff blk_def buf_of_def dirty_def bio_ok_def bio_locks_def bio_blocks_def log_ok_def cong: option.case_cong)

lemma tx_icache [simp]: "tx p n (s\<lparr>icache := X\<rparr>) = tx p n s"
  by (simp add: tx_def in_txn_def)

lemma inode_lock_upd [simp]:
  "blk (set_sleeplock (InodeLk k) b q s) = blk s" "dirty (set_sleeplock (InodeLk k) b q s) = dirty s"
  "bio_ok p H (set_sleeplock (InodeLk k) b q s) = bio_ok p H s" "log_ok (set_sleeplock (InodeLk k) b q s) = log_ok s"
  "calm p (set_sleeplock (InodeLk k) b q s) = calm p s" "klog (set_sleeplock (InodeLk k) b q s) = klog s"
  "icache (set_sleeplock (InodeLk k) b q s) = icache s" "sb (set_sleeplock (InodeLk k) b q s) = sb s"
  "disksize (set_sleeplock (InodeLk k) b q s) = disksize s" "ptable (set_sleeplock (InodeLk k) b q s) = ptable s"
  by (simp_all add: fun_eq_iff blk_def buf_of_def dirty_def bio_ok_def bio_locks_def bio_blocks_def log_ok_def set_sleeplock_def
      cong: option.case_cong)

lemma tx_inode_lock [simp]: "tx p n (set_sleeplock (InodeLk k) b q s) = tx p n s"
  by (simp add: tx_def in_txn_def)

lemma inode_locks_set: "inode_locks (set_sleeplock (InodeLk k) b q s) = (inode_locks s)(k := \<lparr>sl_locked = b, sl_pid = q\<rparr>)"
  by (auto simp: inode_locks_def set_sleeplock_def fun_eq_iff)

lemma read_into_icache:
  assumes "read_into p H b s i u"
  shows "read_into p H b (s\<lparr>icache := X\<rparr>) i (u\<lparr>icache := X\<rparr>)"
proof -
  have "u = s\<lparr>bufs := bufs u, sleeplocks := sleeplocks u\<rparr>" using assms by (simp add: read_into_def)
  then have "u\<lparr>icache := X\<rparr> = (s\<lparr>bufs := bufs u, sleeplocks := sleeplocks u\<rparr>)\<lparr>icache := X\<rparr>" by (rule arg_cong)
  also have "\<dots> = (s\<lparr>icache := X\<rparr>)\<lparr>bufs := bufs u, sleeplocks := sleeplocks u\<rparr>" by simp
  finally have e: "u\<lparr>icache := X\<rparr> = s\<lparr>icache := X, bufs := bufs u, sleeplocks := sleeplocks u\<rparr>" .
  have "bufs (u\<lparr>icache := X\<rparr>) = bufs u" "sleeplocks (u\<lparr>icache := X\<rparr>) = sleeplocks u" by simp_all
  then show ?thesis unfolding read_into_def using assms e [symmetric] by (auto simp: read_into_def)
qed

text \<open>What operations that only read leave alone.\<close>

definition reads_only :: "'a kern_scheme \<Rightarrow> 'a kern_scheme \<Rightarrow> bool" where
  "reads_only s t \<longleftrightarrow> blk t = blk s \<and> disk t = disk s \<and> disksize t = disksize s \<and> sb t = sb s \<and> ptable t = ptable s \<and> mem t = mem s
     \<and> ftable t = ftable s"

lemma reads_only_trans: "reads_only s t \<Longrightarrow> reads_only t u \<Longrightarrow> reads_only s u"
  by (simp add: reads_only_def)

lemma reads_only_frame: "fs_frame s t \<Longrightarrow> blk t = blk s \<Longrightarrow> reads_only s t"
  using fs_frameD [of s t] by (simp add: reads_only_def)

section \<open>The invariant\<close>

definition dinode_at :: "'a kern_scheme \<Rightarrow> u32 \<Rightarrow> dinode" where
  "dinode_at s i = get_dinode (unat (i mod IPB)) (blk s (unat (IBLOCK i (sb s))))"

definition in_use :: "'a kern_scheme \<Rightarrow> nat set" where
  "in_use s = {k. k < NINODE \<and> 0 < i_ref (icache s k)}"

text \<open>
  Process \<open>p\<close> holds the locks of the slots in \<open>L\<close>, which are in use, and no other lock of an inode is taken. Slots in use are for
  device 1 and for different inodes, and one that is valid agrees with the inode on disk.
\<close>

definition icache_ok :: "nat \<Rightarrow> nat set \<Rightarrow> 'a kern_scheme \<Rightarrow> bool" where
  "icache_ok p L s \<longleftrightarrow> L \<subseteq> in_use s
     \<and> (\<forall>k < NINODE. 0 \<le> i_ref (icache s k) \<and> sl_locked (inode_locks s k) = (k \<in> L)
          \<and> (k \<in> L \<longrightarrow> sl_pid (inode_locks s k) = pid (ptable s p)))
     \<and> (\<forall>k \<in> in_use s. i_dev (icache s k) = 1
          \<and> (i_valid (icache s k) \<longrightarrow> fill_inode (dinode_at s (i_inum (icache s k))) (icache s k) = icache s k))
     \<and> inj_on (\<lambda>k. i_inum (icache s k)) (in_use s)"

text \<open>The inodes that are open, and the references to them.\<close>

definition open_inodes :: "'a kern_scheme \<Rightarrow> u32 set" where
  "open_inodes s = (\<lambda>k. i_inum (icache s k)) ` in_use s"

definition irefs :: "'a kern_scheme \<Rightarrow> u32 \<Rightarrow> int" where
  "irefs s i = (\<Sum>k < NINODE. if i_inum (icache s k) = i then i_ref (icache s k) else 0)"

lemma irefs_cong: "icache t = icache s \<Longrightarrow> irefs t = irefs s"
  unfolding irefs_def [abs_def] by (simp only:)

lemma irefs_upd:
  fixes s t :: "'a kern_scheme"
  assumes k: "k < NINODE" and t: "icache t = (icache s)(k := x)"
    and z: "i_inum x = i_inum (icache s k) \<or> i_ref (icache s k) = 0"
  shows "irefs t = (irefs s)(i_inum x := irefs s (i_inum x) + i_ref x - i_ref (icache s k))"
proof
  fix i
  define S where "S u = (\<Sum>j \<in> {..<50} - {k}. if i_inum (icache u j) = i then i_ref (icache u j) else 0)" for u :: "'a kern_scheme"
  have e: "irefs u i = S u + (if i_inum (icache u k) = i then i_ref (icache u k) else 0)" for u :: "'a kern_scheme"
    unfolding irefs_def S_def by (subst sum.remove [of _ k]) (use k in auto)
  have "S t = S s" unfolding S_def by (rule sum.cong) (auto simp: t)
  moreover have "irefs t i = S t + (if i_inum x = i then i_ref x else 0)" unfolding e by (simp add: t)
  ultimately have "irefs t i = irefs s i - (if i_inum (icache s k) = i then i_ref (icache s k) else 0) + (if i_inum x = i then i_ref x else 0)"
    unfolding e [of s] by simp
  then show "irefs t i = ((irefs s)(i_inum x := irefs s (i_inum x) + i_ref x - i_ref (icache s k))) i"
    by (cases "i_inum x = i") (use z in auto)
qed

lemma open_irefs:
  assumes "icache_ok p L s"
  shows "open_inodes s = {i. 0 < irefs s i}"
proof -
  have p: "0 \<le> i_ref (icache s k)" if "k < 50" for k using assms that by (simp add: icache_ok_def)
  have "0 < irefs s i \<longleftrightarrow> (\<exists>k < 50. i_inum (icache s k) = i \<and> 0 < i_ref (icache s k))" for i
  proof -
    let ?f = "\<lambda>k. if i_inum (icache s k) = i then i_ref (icache s k) else 0"
    have n: "0 \<le> ?f k" if "k \<in> {..<50}" for k using p that by simp
    have "(sum ?f {..<50} = 0) = (\<forall>k \<in> {..<50}. ?f k = 0)" by (rule sum_nonneg_eq_0_iff) (use p in auto)
    moreover have "0 \<le> sum ?f {..<50}" using n by (rule sum_nonneg)
    ultimately have "0 < sum ?f {..<50} \<longleftrightarrow> (\<exists>k \<in> {..<50}. ?f k \<noteq> 0)" by (metis (no_types, lifting) less_le)
    also have "\<dots> \<longleftrightarrow> (\<exists>k < 50. i_inum (icache s k) = i \<and> 0 < i_ref (icache s k))"
      using p unfolding Bex_def lessThan_iff by (metis less_le)
    finally show ?thesis unfolding irefs_def .
  qed
  then show ?thesis by (auto simp: open_inodes_def in_use_def)
qed

lemma free_slot:
  assumes "icache_ok p L s" "card (open_inodes s) < NINODE"
  shows "\<exists>k < NINODE. i_ref (icache s k) = 0"
proof (rule ccontr)
  assume "\<not> ?thesis"
  then have "in_use s = {..<50}" using assms(1) by (fastforce simp: in_use_def icache_ok_def)
  then have "card (open_inodes s) = 50"
    using assms(1) card_image [of "\<lambda>k. i_inum (icache s k)" "in_use s"] by (simp add: open_inodes_def icache_ok_def)
  then show False using assms(2) by simp
qed

section \<open>Operations\<close>

lemma icache_ok_cong:
  assumes "reads_only s t" "icache t = icache s" "inode_locks t = inode_locks s"
  shows "icache_ok p L t = icache_ok p L s"
  using assms by (simp add: icache_ok_def in_use_def dinode_at_def reads_only_def)

lemma icache_okD:
  assumes "icache_ok p L s" "k < NINODE"
  shows "0 \<le> i_ref (icache s k)" "sl_locked (inode_locks s k) = (k \<in> L)" "k \<in> L \<Longrightarrow> sl_pid (inode_locks s k) = pid (ptable s p)"
    "k \<in> L \<Longrightarrow> 0 < i_ref (icache s k)" "0 < i_ref (icache s k) \<Longrightarrow> i_dev (icache s k) = 1"
    "0 < i_ref (icache s k) \<Longrightarrow> i_valid (icache s k) \<Longrightarrow> fill_inode (dinode_at s (i_inum (icache s k))) (icache s k) = icache s k"
  using assms by (auto simp: icache_ok_def in_use_def)

text \<open>Replacing one slot.\<close>

lemma icache_ok_upd:
  fixes s t :: "'a kern_scheme"
  assumes ok: "icache_ok p L s" and k: "k < NINODE" and t: "icache t = (icache s)(k := x)" "inode_locks t = inode_locks s"
      "blk t = blk s" "sb t = sb s" "ptable t = ptable s"
    and x: "0 \<le> i_ref x" "k \<in> L \<longrightarrow> 0 < i_ref x"
      "0 < i_ref x \<Longrightarrow> i_dev x = 1 \<and> (i_valid x \<longrightarrow> fill_inode (dinode_at s (i_inum x)) x = x)
         \<and> (\<forall>j \<in> in_use s. i_inum (icache s j) = i_inum x \<longrightarrow> j = k)"
  shows "icache_ok p L t"
proof -
  have u: "in_use t = (if 0 < i_ref x then insert k (in_use s) else in_use s - {k})" using k by (auto simp: in_use_def t)
  have d: "dinode_at t = dinode_at s" by (simp add: fun_eq_iff dinode_at_def t)
  have old: "j \<in> in_use s" if "j \<in> in_use t" "j \<noteq> k" for j using that by (auto simp: u split: if_splits)
  have new: "0 < i_ref x" if "k \<in> in_use t" using that by (auto simp: u split: if_splits)
  have "inj_on (\<lambda>j. i_inum (icache t j)) (in_use t)"
  proof (rule inj_onI)
    fix i j
    assume ij: "i \<in> in_use t" "j \<in> in_use t" "i_inum (icache t i) = i_inum (icache t j)"
    consider "i = j" | "i = k" "j \<noteq> k" | "i \<noteq> k" "j = k" | "i \<noteq> k" "j \<noteq> k" by blast
    then show "i = j"
    proof cases
      case 2
      then show ?thesis using ij x(3) [OF new] old [of j] by (auto simp: t)
    next
      case 3
      then show ?thesis using ij x(3) [OF new] old [of i] by (auto simp: t)
    next
      case 4
      moreover have "inj_on (\<lambda>k. i_inum (icache s k)) (in_use s)" using ok by (simp add: icache_ok_def)
      ultimately show ?thesis using ij old by (auto simp: t dest: inj_onD)
    qed
  qed
  moreover have "L \<subseteq> in_use t" using ok x(2) by (auto simp: u icache_ok_def)
  moreover have "i_dev (icache t j) = 1 \<and> (i_valid (icache t j) \<longrightarrow> fill_inode (dinode_at t (i_inum (icache t j))) (icache t j) = icache t j)"
    if "j \<in> in_use t" for j
    using that ok x(3) [OF new] old [of j] by (cases "j = k") (simp_all add: icache_ok_def d t)
  moreover have "0 \<le> i_ref (icache t j)" if "j < 50" for j using that ok x(1) by (simp add: icache_ok_def t)
  ultimately show ?thesis using ok unfolding icache_ok_def t(2,5) by blast
qed

lemma fill_inode_ref: "fill_inode d (x\<lparr>i_ref := n\<rparr>) = (fill_inode d x)\<lparr>i_ref := n\<rparr>"
  by (simp add: fill_inode_def)

lemma iget_ok:
  assumes tx: "tx p r s" and ok: "icache_ok p L s" and room: "inum \<in> open_inodes s \<or> card (open_inodes s) < NINODE"
  shows "\<exists>ip t. iget 1 inum s = Inr (ip, t) \<and> ip < NINODE \<and> tx p r t \<and> reads_only s t \<and> icache_ok p L t
    \<and> inode_locks t = inode_locks s \<and> 0 < i_ref (icache t ip) \<and> i_inum (icache t ip) = inum \<and> i_dev (icache t ip) = 1
    \<and> irefs t = (irefs s)(inum := irefs s inum + 1)
    \<and> (\<forall>k \<in> in_use s. \<exists>n \<ge> i_ref (icache s k). icache t k = (icache s k)\<lparr>i_ref := n\<rparr>)
    \<and> (ip \<in> in_use s \<longrightarrow> i_ref (icache t ip) = i_ref (icache s ip) + 1)"
proof -
  have calm: "calm p s" using tx by (simp add: tx_def in_txn_def)
  note c = calmD(1,2) [OF calm]
  let ?P = "\<lambda>i. i_ref (icache s i) > 0 \<and> i_dev (icache s i) = 1 \<and> i_inum (icache s i) = inum"
  have get: ?thesis if k: "k < 50" "i_ref (icache s k) = 0 \<or> i_inum (icache s k) = inum \<and> i_dev (icache s k) = 1 \<and> i_ref (icache s k) > 0"
      and e: "iget 1 inum s = Inr (k, s\<lparr>icache := (icache s)(k := x)\<rparr>)"
      and x: "x = (icache s k)\<lparr>i_ref := i_ref x, i_dev := 1, i_inum := inum, i_valid := i_valid x\<rparr>" "i_ref x = i_ref (icache s k) + 1"
        "i_valid x \<longrightarrow> i_valid (icache s k) \<and> 0 < i_ref (icache s k)" "0 < i_ref (icache s k) \<Longrightarrow> x = (icache s k)\<lparr>i_ref := i_ref (icache s k) + 1\<rparr>"
      and n: "\<And>j. j \<in> in_use s \<Longrightarrow> i_inum (icache s j) = inum \<Longrightarrow> j = k" for k x
  proof -
    let ?t = "s\<lparr>icache := (icache s)(k := x)\<rparr>"
    have xi: "i_inum x = inum" "i_dev x = 1" by (subst x(1), simp)+
    have r0: "0 \<le> i_ref (icache s k)" using icache_okD(1) [OF ok k(1)] .
    have ro: "reads_only s ?t" by (simp add: reads_only_def)
    have fi: "i_valid x \<Longrightarrow> fill_inode (dinode_at s inum) x = x"
      using x(3,4) icache_okD(6) [OF ok k(1)] k(2) by (auto simp: fill_inode_ref)
    have "icache_ok p L ?t"
      by (rule icache_ok_upd [OF ok k(1), where x = x]) (use xi x(2) r0 fi n in \<open>auto simp: inode_locks_def\<close>)
    moreover have "irefs ?t = (irefs s)(inum := irefs s inum + 1)"
      using irefs_upd [OF k(1), of ?t s x] xi x(2) k(2) by auto
    moreover have "\<exists>n \<ge> i_ref (icache s j). icache ?t j = (icache s j)\<lparr>i_ref := n\<rparr>" if "j \<in> in_use s" for j
      using that x(4) by (intro exI [of _ "i_ref (icache ?t j)"]) (auto simp: in_use_def)
    ultimately show ?thesis using e k(1) tx ro xi x(2) r0 by auto
  qed
  show ?thesis
  proof (cases "find ?P [0..<50]")
    case (Some k)
    then have k: "k < 50" "?P k" by (auto simp: find_Some_iff)
    show ?thesis
    proof (rule get [OF k(1), where x = "(icache s k)\<lparr>i_ref := i_ref (icache s k) + 1\<rparr>"])
      show "iget 1 inum s = Inr (k, s\<lparr>icache := (icache s)(k := (icache s k)\<lparr>i_ref := i_ref (icache s k) + 1\<rparr>)\<rparr>)"
        using Some by (simp add: iget_def acquire_steady [OF c] upd_inode_def release_upd [OF c] del: upt_rec_numeral)
      show "j = k" if "j \<in> in_use s" "i_inum (icache s j) = inum" for j
        using ok that k unfolding icache_ok_def inj_on_def by (auto simp: in_use_def)
    qed (use k in auto)
  next
    case None
    then have n: "\<not> ?P k" if "k < 50" for k using that by (auto simp: find_None_iff)
    then have "inum \<notin> open_inodes s" using icache_okD(5) [OF ok] by (auto simp: open_inodes_def in_use_def)
    then obtain k where "k < 50" "i_ref (icache s k) = 0" using free_slot [OF ok] room by auto
    then obtain k where f: "find (\<lambda>i. i_ref (icache s i) = 0) [0..<50] = Some k"
      by (cases "find (\<lambda>i. i_ref (icache s i) = 0) [0..<50]") (auto simp: find_None_iff)
    then have k: "k < 50" "i_ref (icache s k) = 0" by (auto simp: find_Some_iff)
    show ?thesis
    proof (rule get [OF k(1), where x = "(icache s k)\<lparr>i_dev := 1, i_inum := inum, i_ref := 1, i_valid := False\<rparr>"])
      show "iget 1 inum s = Inr (k, s\<lparr>icache := (icache s)(k := (icache s k)\<lparr>i_dev := 1, i_inum := inum, i_ref := 1, i_valid := False\<rparr>)\<rparr>)"
        using None f by (simp add: iget_def acquire_steady [OF c] upd_inode_def release_upd [OF c] del: upt_rec_numeral)
      show "j = k" if "j \<in> in_use s" "i_inum (icache s j) = inum" for j
        using that n [of j] icache_okD(5) [OF ok, of j] by (auto simp: in_use_def)
    qed (use k in auto)
  qed
qed

lemma iunlock_ok:
  assumes tx: "tx p r s" and ok: "icache_ok p L s" and ip: "ip \<in> L"
  shows "\<exists>t. iunlock (Some ip) s = Inr t \<and> tx p r t \<and> reads_only s t \<and> icache_ok p (L - {ip}) t \<and> icache t = icache s"
proof -
  let ?t = "set_sleeplock (InodeLk ip) False 0 s"
  have calm: "calm p s" using tx by (simp add: tx_def in_txn_def)
  note c = calmD [OF calm]
  have i: "ip < 50" "0 < i_ref (icache s ip)" using ok ip by (auto simp: icache_ok_def in_use_def)
  have h: "holdingsleep (InodeLk ip) s = Inr (True, s)"
    using holdingsleep_eq [OF c(1,2), of "InodeLk ip"] icache_okD(2,3) [OF ok i(1)] ip by (simp add: inode_locks_def)
  have e: "iunlock (Some ip) s = Inr ?t"
    using i(2) by (simp add: iunlock_def h releasesleep_idle [OF c(1,4)])
  have "icache_ok p (L - {ip}) ?t"
    using ok unfolding icache_ok_def inode_locks_set by (auto simp: in_use_def dinode_at_def)
  then show ?thesis using e tx by (auto simp: reads_only_def) (simp_all add: set_sleeplock_def)
qed

lemma iput_ok:
  assumes tx: "tx p r s" and ok: "icache_ok p L s" and ip: "ip \<in> in_use s" "ip \<notin> L" "i_valid (icache s ip) \<Longrightarrow> i_nlink (icache s ip) \<noteq> 0"
  shows "\<exists>t. iput ip s = Inr t \<and> tx p r t \<and> reads_only s t \<and> icache_ok p L t
    \<and> icache t = (icache s)(ip := (icache s ip)\<lparr>i_ref := i_ref (icache s ip) - 1\<rparr>)
    \<and> irefs t = (irefs s)(i_inum (icache s ip) := irefs s (i_inum (icache s ip)) - 1)"
proof -
  let ?x = "(icache s ip)\<lparr>i_ref := i_ref (icache s ip) - 1\<rparr>"
  let ?u = "set_sleeplock (InodeLk ip) False 0 s"
  let ?t = "?u\<lparr>icache := (icache s)(ip := ?x)\<rparr>"
  have i: "ip < 50" "0 < i_ref (icache s ip)" using ip(1) by (simp_all add: in_use_def)
  have calm: "calm p s" using tx by (simp add: tx_def in_txn_def)
  note c = calmD [OF calm]
  have a: "acquiresleep (InodeLk ip) s = Inr (set_sleeplock (InodeLk ip) True (pid (ptable s p)) s)"
    using icache_okD(2) [OF ok i(1)] ip(2) by (intro acquiresleep_free [OF c(1,2)]) (simp add: inode_locks_def)
  have cl: "calm p (set_sleeplock (InodeLk ip) True (pid (ptable s p)) s)" "calm p ?u" using calm by simp_all
  have uu: "set_sleeplock (InodeLk ip) False 0 (set_sleeplock (InodeLk ip) True (pid (ptable s p)) s) = ?u"
    by (simp add: set_sleeplock_def)
  have e: "iput ip s = Inr ?t"
    using ip(3) by (auto simp: iput_def a releasesleep_idle [OF calmD(1,4) [OF cl(1)]] uu acquire_steady [OF calmD(1,2) [OF cl(2)]]
        upd_inode_def release_upd [OF calmD(1,2) [OF cl(2)]])
  have o: "icache_ok p L ?u" using ok ip(2) unfolding icache_ok_def inode_locks_set by (auto simp: in_use_def dinode_at_def)
  have "j = ip" if "j \<in> in_use s" "i_inum (icache s j) = i_inum (icache s ip)" for j
    using ok that ip(1) by (auto simp: icache_ok_def dest: inj_onD)
  then have "icache_ok p L ?t"
    using icache_okD(5,6) [OF ok i(1)] i(2) ip(2)
    by (intro icache_ok_upd [OF o i(1), where x = ?x]) (auto simp: fill_inode_ref dinode_at_def in_use_def)
  moreover have "irefs ?t = (irefs s)(i_inum (icache s ip) := irefs s (i_inum (icache s ip)) - 1)"
    using irefs_upd [OF i(1), of ?t s ?x] by simp
  moreover have "reads_only s ?t" by (simp add: reads_only_def) (simp add: set_sleeplock_def)
  ultimately show ?thesis using e tx by auto
qed

lemma ilock_ok:
  assumes tx: "tx p r s" and ok: "icache_ok p L s" and ip: "ip \<in> in_use s" "ip \<notin> L"
  defines "i \<equiv> i_inum (icache s ip)"
  assumes d: "IBLOCK i (sb s) < disksize s" "di_type (dinode_at s i) \<noteq> 0"
  shows "\<exists>t. ilock (Some ip) s = Inr t \<and> tx p r t \<and> reads_only s t \<and> icache_ok p (insert ip L) t
    \<and> icache t = (icache s)(ip := (fill_inode (dinode_at s i) (icache s ip))\<lparr>i_valid := True\<rparr>) \<and> irefs t = irefs s"
proof -
  let ?u = "set_sleeplock (InodeLk ip) True (pid (ptable s p)) s"
  have n: "ip < 50" "0 < i_ref (icache s ip)" "\<not> i_ref (icache s ip) < 1" using ip(1) by (simp_all add: in_use_def)
  have calm: "calm p s" using tx by (simp add: tx_def in_txn_def)
  note c = calmD [OF calm]
  have a: "acquiresleep (InodeLk ip) s = Inr ?u"
    using icache_okD(2) [OF ok n(1)] ip(2) by (intro acquiresleep_free [OF c(1,2)]) (simp add: inode_locks_def)
  have o: "icache_ok p (insert ip L) ?u"
    using ok ip unfolding icache_ok_def inode_locks_set by (auto simp: in_use_def dinode_at_def)
  have ru: "reads_only s ?u" by (simp add: reads_only_def) (simp add: set_sleeplock_def)
  have dev: "i_dev (icache s ip) = 1" using icache_okD(5) [OF ok n(1,2)] .
  show ?thesis
  proof (cases "i_valid (icache s ip)")
    case True
    then have "(fill_inode (dinode_at s i) (icache s ip))\<lparr>i_valid := True\<rparr> = icache s ip"
      using icache_okD(6) [OF ok n(1,2)] by (simp add: i_def)
    then have "(icache s)(ip := (fill_inode (dinode_at s i) (icache s ip))\<lparr>i_valid := True\<rparr>) = icache s" by (simp add: fun_upd_idem)
    then show ?thesis using True tx o ru n irefs_cong [of ?u s] by (simp add: ilock_def a)
  next
    case False
    let ?b = "IBLOCK i (sb s)"
    let ?x = "fill_inode (dinode_at s i) (icache s ip)"
    let ?X = "(icache s)(ip := ?x)"
    have txu: "tx p r ?u" using tx by simp
    obtain b v where b: "bread 1 ?b ?u = Inr (b, v)" "read_into p {} ?b ?u b v" using tx_read [OF txu] d(1) by auto
    have ve: "v = ?u\<lparr>bufs := bufs v, sleeplocks := sleeplocks v\<rparr>" using b(2) by (simp add: read_into_def)
    have iv: "icache v = icache s" by (subst ve) simp
    have di: "get_dinode (unat (i mod 8)) (b_data (bufs v b)) = dinode_at s i"
      using read_into_data [OF b(2)] by (simp add: dinode_at_def)
    have txX: "tx p r (?u\<lparr>icache := ?X\<rparr>)" using tx by simp
    obtain w where w: "brelse b (v\<lparr>icache := ?X\<rparr>) = Inr w" "tx p r w" "blk w = blk (?u\<lparr>icache := ?X\<rparr>)" "fs_frame (?u\<lparr>icache := ?X\<rparr>) w"
      by (rule tx_release [OF txX read_into_icache [OF b(2)]])
    have iw: "icache w = ?X" using fs_frameD(9) [OF w(4)] by simp
    let ?t = "w\<lparr>icache := (icache s)(ip := ?x\<lparr>i_valid := True\<rparr>)\<rparr>"
    have e: "ilock (Some ip) s = Inr ?t"
      using False n(3) d(2) b(1) w(1) di
      by (simp add: ilock_def a dev i_def [symmetric] upd_inode_def iv iw Let_def) (simp add: fill_inode_def)
    have f: "blk w = blk ?u" "sb w = sb s" "ptable w = ptable s" "inode_locks w = inode_locks ?u"
      using fs_frameD [OF w(4)] w(3) by simp_all
    have "j = ip" if "j \<in> in_use ?u" "i_inum (icache s j) = i" for j
      using ok that ip(1) by (auto simp: icache_ok_def i_def in_use_def dest: inj_onD)
    then have "icache_ok p (insert ip L) ?t" using n dev f
      by (intro icache_ok_upd [OF o n(1), where x = "?x\<lparr>i_valid := True\<rparr>"])
        (auto simp: fill_inode_def i_def dinode_at_def)
    moreover have "irefs ?t = irefs s"
      using irefs_upd [OF n(1), of ?t s "?x\<lparr>i_valid := True\<rparr>"] by (simp add: fill_inode_def)
    moreover have "reads_only s ?t"
      using reads_only_trans [OF ru] fs_frameD [OF w(4)] w(3) ru by (simp add: reads_only_def)
    ultimately show ?thesis using e w(2) by auto
  qed
qed

end
