(* ===== verification/DirSpec.thy ===== *)
theory DirSpec
  imports FileSpec InodeSpec
begin

text \<open>
  Directories and paths: \<^verbatim>\<open>dirlookup\<close> finds the first entry with the name, and \<^verbatim>\<open>namei\<close> walks a path from the root through
  the directories on disk.
\<close>

section \<open>Files on disk\<close>

definition file_addrs :: "'a kern_scheme \<Rightarrow> u32 \<Rightarrow> u32 list" where
  "file_addrs s i = di_addrs (dinode_at s i)"

definition file_len :: "'a kern_scheme \<Rightarrow> u32 \<Rightarrow> nat" where
  "file_len s i = unat (di_size (dinode_at s i))"

definition file_bytes :: "'a kern_scheme \<Rightarrow> u32 \<Rightarrow> u8 list" where
  "file_bytes s i = take (file_len s i) (fbytes (file_addrs s i) (blk s))"

text \<open>The slot holds what is on disk.\<close>

definition loaded :: "nat \<Rightarrow> u32 \<Rightarrow> 'a kern_scheme \<Rightarrow> bool" where
  "loaded ip i s \<longleftrightarrow> ip \<in> in_use s \<and> i_inum (icache s ip) = i \<and> i_dev (icache s ip) = 1 \<and> i_valid (icache s ip)
     \<and> fill_inode (dinode_at s i) (icache s ip) = icache s ip"

lemma fill_inodeD:
  assumes "fill_inode d x = x"
  shows "i_type x = di_type d" "i_nlink x = di_nlink d" "i_size x = di_size d" "i_addrs x = di_addrs d"
  by (subst assms [symmetric], simp add: fill_inode_def)+

lemma loadedD:
  assumes "loaded ip i s"
  shows "i_dev (icache s ip) = 1" "i_type (icache s ip) = di_type (dinode_at s i)" "i_nlink (icache s ip) = di_nlink (dinode_at s i)"
    "i_size (icache s ip) = di_size (dinode_at s i)" "i_addrs (icache s ip) = file_addrs s i" "contents s ip = file_bytes s i"
  using assms fill_inodeD [of "dinode_at s i" "icache s ip"]
  by (simp_all add: loaded_def file_addrs_def contents_def file_bytes_def file_len_def)

lemma disk_cong:
  assumes "reads_only s t"
  shows "dinode_at t = dinode_at s" "file_bytes t = file_bytes s" "file_addrs t = file_addrs s" "file_len t = file_len s"
    "no_holes as t z = no_holes as s z"
proof -
  show d: "dinode_at t = dinode_at s" using assms by (intro ext) (simp add: dinode_at_def reads_only_def)
  show a: "file_addrs t = file_addrs s" and l: "file_len t = file_len s" by (intro ext, simp add: file_addrs_def file_len_def d)+
  show "file_bytes t = file_bytes s" using assms by (intro ext) (simp add: file_bytes_def a l reads_only_def)
  show "no_holes as t z = no_holes as s z" using assms by (intro no_holes_cong) (simp_all add: reads_only_def)
qed

lemma loaded_cong: "reads_only s t \<Longrightarrow> icache t = icache s \<Longrightarrow> loaded ip i t = loaded ip i s"
  using disk_cong(1) [of s t] by (simp add: loaded_def in_use_def)

lemma length_fbytes:
  assumes "tx p r s" "no_holes as s z"
  shows "length (fbytes as (blk s)) = MAXFILE * BSIZE"
  using length_concat_blocks [of 140 "fdata as (blk s)" 512] assms(2)
  by (simp add: fbytes_def fdata_length [OF assms(1)] no_holes_def Let_def del: upt_rec_numeral)

lemma readi_file:
  assumes "tx p r s" "loaded ip i s" "di_type (dinode_at s i) \<noteq> T_DEV" "no_holes (file_addrs s i) s (min (unat off + unat n) (file_len s i))"
    "unat off \<le> file_len s i" "unat off + unat n < 2 ^ 32"
  shows "\<exists>t. readi ip ToLocal off n s = Inr (int (length (slice (unat off) (unat n) (file_bytes s i))),
      slice (unat off) (unat n) (file_bytes s i), t) \<and> tx p r t \<and> blk t = blk s \<and> fs_frame s t"
  using readi_ok [OF assms(1), of ip "min (unat off + unat n) (file_len s i)" off n] loadedD [OF assms(2)] assms(3-6)
  by (simp add: file_len_def word_le_nat_alt)

section \<open>Directory entries\<close>

definition entry_at :: "'a kern_scheme \<Rightarrow> u32 \<Rightarrow> nat \<Rightarrow> u8 list" where
  "entry_at s d k = slice (16 * k) 16 (file_bytes s d)"

definition matches :: "u8 list \<Rightarrow> u8 list \<Rightarrow> bool" where
  "matches nm de \<longleftrightarrow> dirent_inum de \<noteq> 0 \<and> namecmp nm (dirent_name de) = 0"

text \<open>Entry \<open>k\<close> of directory \<open>d\<close> is the first with the name; no entry of the directory has the name.\<close>

definition finds :: "'a kern_scheme \<Rightarrow> u32 \<Rightarrow> u8 list \<Rightarrow> nat \<Rightarrow> bool" where
  "finds s d nm k \<longleftrightarrow> 16 * (k + 1) \<le> file_len s d \<and> no_holes (file_addrs s d) s (16 * (k + 1))
     \<and> matches nm (entry_at s d k) \<and> (\<forall>j < k. \<not> matches nm (entry_at s d j))"

definition absent :: "'a kern_scheme \<Rightarrow> u32 \<Rightarrow> u8 list \<Rightarrow> bool" where
  "absent s d nm \<longleftrightarrow> 16 dvd file_len s d \<and> no_holes (file_addrs s d) s (file_len s d)
     \<and> (\<forall>j. 16 * j < file_len s d \<longrightarrow> \<not> matches nm (entry_at s d j))"

lemma read_entry:
  assumes tx: "tx p r s" and l: "loaded dp d s" and d: "di_type (dinode_at s d) = T_DIR"
    and k: "16 * (k + 1) \<le> file_len s d" "no_holes (file_addrs s d) s (16 * (k + 1))"
  shows "\<exists>t. readi dp ToLocal (of_nat (16 * k)) 16 s = Inr (16, entry_at s d k, t) \<and> tx p r t \<and> blk t = blk s \<and> fs_frame s t"
proof -
  have "file_len s d < 2 ^ 32" unfolding file_len_def using unsigned_less [of "di_size (dinode_at s d)"] by simp
  moreover define off :: u32 where "off = of_nat (16 * k)"
  ultimately have u: "unat off = 16 * k" using k(1) by (simp only: unat_of_nat off_def) simp
  have z: "16 * (k + 1) \<le> 71680" using k(2) by (simp add: no_holes_def)
  have "length (fbytes (file_addrs s d) (blk s)) = 71680" using length_fbytes [OF tx k(2)] by simp
  then have "length (entry_at s d k) = 16" using k(1) z by (simp add: entry_at_def slice_def file_bytes_def)
  moreover have "no_holes (file_addrs s d) s (16 * k + 16)" using k(2) by (simp only: distrib_left mult_1_right)
  ultimately show ?thesis
    using readi_file [OF tx l, of off 16] d k(1) z unfolding off_def [symmetric] by (simp add: u entry_at_def min_def)
qed

lemma entries_skipped:
  assumes "tx p r s" "icache_ok p L s" "loaded dp d s" "di_type (dinode_at s d) = T_DIR"
    "16 * n \<le> file_len s d" "no_holes (file_addrs s d) s (16 * n)" "m \<le> n" "\<forall>j. m \<le> j \<and> j < n \<longrightarrow> \<not> matches nm (entry_at s d j)"
  shows "\<exists>t. dirlookup_loop ([m..<n] @ is) dp nm s = dirlookup_loop is dp nm t \<and> tx p r t \<and> blk t = blk s \<and> fs_frame s t"
  using assms
proof (induction "n - m" arbitrary: m s)
  case 0
  then show ?case using fs_frame_refl [of s] by auto
next
  case (Suc x)
  then have m: "m < n" by simp
  have "no_holes (file_addrs s d) s (16 * (m + 1))" using no_holes_mono [OF Suc.prems(6)] m by simp
  moreover have "16 * (m + 1) \<le> file_len s d" using Suc.prems(5) m by simp
  ultimately obtain u where u: "readi dp ToLocal (of_nat (16 * m)) 16 s = Inr (16, entry_at s d m, u)" "tx p r u" "blk u = blk s" "fs_frame s u"
    using read_entry [OF Suc.prems(1,3,4)] by blast
  note ro = reads_only_frame [OF u(4,3)] and f = fs_frameD [OF u(4)]
  note c = disk_cong [OF ro]
  have nm: "\<not> matches nm (entry_at s d m)" using Suc.prems(8) m by simp
  have x: "x = n - Suc m" using Suc.hyps(2) by simp
  have e: "entry_at u = entry_at s" by (simp add: fun_eq_iff entry_at_def c)
  obtain t where t: "dirlookup_loop ([Suc m..<n] @ is) dp nm u = dirlookup_loop is dp nm t" "tx p r t" "blk t = blk u" "fs_frame u t"
    using Suc.hyps(1) [OF x, of u] Suc.prems u(2) icache_ok_cong [OF ro f(9,14)] loaded_cong [OF ro f(9)] m
    by (auto simp: c e)
  have "dirlookup_loop ([m..<n] @ is) dp nm s = dirlookup_loop ([Suc m..<n] @ is) dp nm u"
    using u(1) nm m by (auto simp: upt_conv_Cons matches_def Let_def)
  then show ?case using t u(3) fs_frame_trans [OF u(4) t(4)] by auto
qed

text \<open>What a look-up of \<open>i\<close> leaves behind: a slot for it with one more reference.\<close>

definition got :: "nat \<Rightarrow> u32 \<Rightarrow> 'a kern_scheme \<Rightarrow> 'a kern_scheme \<Rightarrow> bool" where
  "got ip i s t \<longleftrightarrow> ip \<in> in_use t \<and> i_inum (icache t ip) = i \<and> irefs t = (irefs s)(i := irefs s i + 1)
     \<and> (\<forall>k \<in> in_use s. \<exists>n \<ge> i_ref (icache s k). icache t k = (icache s k)\<lparr>i_ref := n\<rparr>)
     \<and> (ip \<in> in_use s \<longrightarrow> i_ref (icache t ip) = i_ref (icache s ip) + 1)"

lemma iget_got:
  assumes "tx p r s" "icache_ok p L s" "i \<in> open_inodes s \<or> card (open_inodes s) < NINODE"
  shows "\<exists>ip t. iget 1 i s = Inr (ip, t) \<and> tx p r t \<and> reads_only s t \<and> icache_ok p L t \<and> got ip i s t"
  using iget_ok [OF assms] by (fastforce simp: got_def in_use_def)

lemma got_cong: "icache s = icache s' \<Longrightarrow> got ip i s t = got ip i s' t"
  using irefs_cong [of s s'] by (simp add: got_def in_use_def)

lemma dirlookup_found:
  assumes tx: "tx p r s" and ok: "icache_ok p L s" and l: "loaded dp d s" and d: "di_type (dinode_at s d) = T_DIR"
    and f: "finds s d nm k" and i: "i = ucast (dirent_inum (entry_at s d k))"
    and room: "i \<in> open_inodes s \<or> card (open_inodes s) < NINODE"
  shows "\<exists>ip t. dirlookup dp nm s = Inr (Some (ip, of_nat (16 * k)), t) \<and> tx p r t \<and> reads_only s t \<and> icache_ok p L t \<and> got ip i s t"
proof -
  let ?n = "n_dirents (i_size (icache s dp))"
  have k: "16 * (k + 1) \<le> file_len s d" "no_holes (file_addrs s d) s (16 * (k + 1))"
    "matches nm (entry_at s d k)" "\<forall>j < k. \<not> matches nm (entry_at s d j)" using f by (simp_all add: finds_def)
  have "k < ?n" using k(1) loadedD(4) [OF l] by (simp add: n_dirents_def file_len_def)
  then have u: "[0..<?n] = [0..<k] @ k # [Suc k..<?n]" using upt_add_eq_append [of 0 k "?n - k"] by (simp add: upt_conv_Cons)
  obtain t where t: "dirlookup_loop ([0..<k] @ k # [Suc k..<?n]) dp nm s = dirlookup_loop (k # [Suc k..<?n]) dp nm t"
      "tx p r t" "blk t = blk s" "fs_frame s t"
    using entries_skipped [OF tx ok l d, of k 0 nm "k # [Suc k..<?n]"] k no_holes_mono [OF k(2)] by auto
  note ro = reads_only_frame [OF t(4,3)] and ff = fs_frameD [OF t(4)]
  note c = disk_cong [OF ro]
  have okt: "icache_ok p L t" "loaded dp d t" using icache_ok_cong [OF ro ff(9,14)] loaded_cong [OF ro ff(9)] ok l by simp_all
  obtain v where v: "readi dp ToLocal (of_nat (16 * k)) 16 t = Inr (16, entry_at s d k, v)" "tx p r v" "blk v = blk t" "fs_frame t v"
    using read_entry [OF t(2) okt(2), of k] d k by (auto simp: c entry_at_def)
  note rv = reads_only_frame [OF v(4,3)] and fv = fs_frameD [OF v(4)]
  have okv: "icache_ok p L v" using icache_ok_cong [OF rv fv(9,14)] okt(1) by simp
  have iv: "icache v = icache s" using ff(9) fv(9) by simp
  then have "open_inodes v = open_inodes s" by (simp add: open_inodes_def in_use_def)
  then obtain ip w where w: "iget 1 i v = Inr (ip, w)" "tx p r w" "reads_only v w" "icache_ok p L w" "got ip i v w"
    using iget_got [OF v(2) okv, of i] room by auto
  have "dirlookup dp nm s = Inr (Some (ip, of_nat (16 * k)), w)"
    using loadedD(1,2) [OF l] d t(1) v(1) w(1) k(3) iv i by (simp add: dirlookup_def u matches_def Let_def)
  then show ?thesis using w got_cong [OF iv] reads_only_trans [OF ro reads_only_trans [OF rv w(3)]] by auto
qed

lemma dirlookup_missing:
  assumes tx: "tx p r s" and ok: "icache_ok p L s" and l: "loaded dp d s" and d: "di_type (dinode_at s d) = T_DIR"
    and a: "absent s d nm"
  shows "\<exists>t. dirlookup dp nm s = Inr (None, t) \<and> tx p r t \<and> blk t = blk s \<and> fs_frame s t"
proof -
  have n: "16 * n_dirents (i_size (icache s dp)) = file_len s d"
    using a loadedD(4) [OF l] by (auto simp: n_dirents_def file_len_def absent_def elim!: dvdE)
  show ?thesis
    using entries_skipped [OF tx ok l d, of "n_dirents (i_size (icache s dp))" 0 nm "[]"] a n loadedD(2) [OF l] d
    by (auto simp: dirlookup_def absent_def)
qed

section \<open>Paths\<close>

definition inode_ok :: "'a kern_scheme \<Rightarrow> u32 \<Rightarrow> bool" where
  "inode_ok s i \<longleftrightarrow> IBLOCK i (sb s) < disksize s \<and> di_type (dinode_at s i) \<noteq> 0 \<and> di_nlink (dinode_at s i) \<noteq> 0"

text \<open>The inode that a path leads to from directory \<open>d\<close>, \<open>None\<close> when an element is missing or is not a directory.\<close>

inductive resolves :: "'a kern_scheme \<Rightarrow> u32 \<Rightarrow> u8 list \<Rightarrow> u32 option \<Rightarrow> bool" for s where
  here: "skipelem path = None \<Longrightarrow> resolves s d path (Some d)"
| no_dir: "skipelem path = Some x \<Longrightarrow> inode_ok s d \<Longrightarrow> di_type (dinode_at s d) \<noteq> T_DIR \<Longrightarrow> resolves s d path None"
| missing: "skipelem path = Some (rest, nm) \<Longrightarrow> inode_ok s d \<Longrightarrow> di_type (dinode_at s d) = T_DIR \<Longrightarrow> absent s d nm
    \<Longrightarrow> resolves s d path None"
| down: "skipelem path = Some (rest, nm) \<Longrightarrow> inode_ok s d \<Longrightarrow> di_type (dinode_at s d) = T_DIR \<Longrightarrow> finds s d nm k
    \<Longrightarrow> i = ucast (dirent_inum (entry_at s d k)) \<Longrightarrow> resolves s i rest r \<Longrightarrow> resolves s d path r"

lemma iunlockput_ok:
  assumes tx: "tx p r s" and ok: "icache_ok p {ip} s" and l: "loaded ip d s" and n: "di_nlink (dinode_at s d) \<noteq> 0"
  shows "\<exists>t. iunlockput ip s = Inr t \<and> tx p r t \<and> reads_only s t \<and> icache_ok p {} t \<and> irefs t = (irefs s)(d := irefs s d - 1)
    \<and> icache t = (icache s)(ip := (icache s ip)\<lparr>i_ref := i_ref (icache s ip) - 1\<rparr>)"
proof -
  obtain u where u: "iunlock (Some ip) s = Inr u" "tx p r u" "reads_only s u" "icache_ok p {} u" "icache u = icache s"
    using iunlock_ok [OF tx ok] by auto
  have lu: "loaded ip d u" using loaded_cong [OF u(3,5)] l by simp
  have "i_nlink (icache u ip) \<noteq> 0" using loadedD(3) [OF lu] n disk_cong(1) [OF u(3)] by simp
  moreover have "ip \<in> in_use u" "i_inum (icache u ip) = d" using lu by (simp_all add: loaded_def)
  ultimately obtain t where "iput ip u = Inr t" "tx p r t" "reads_only u t" "icache_ok p {} t"
    "icache t = (icache u)(ip := (icache u ip)\<lparr>i_ref := i_ref (icache u ip) - 1\<rparr>)" "irefs t = (irefs u)(d := irefs u d - 1)"
    using iput_ok [OF u(2,4), of ip] by auto
  then show ?thesis using u irefs_cong [OF u(5)] reads_only_trans [OF u(3)] by (auto simp: iunlockput_def)
qed

lemma ilock_loaded:
  assumes "tx p r s" "icache_ok p {} s" "ip \<in> in_use s" "i_inum (icache s ip) = d" "IBLOCK d (sb s) < disksize s" "di_type (dinode_at s d) \<noteq> 0"
  shows "\<exists>t. ilock (Some ip) s = Inr t \<and> tx p r t \<and> reads_only s t \<and> icache_ok p {ip} t \<and> loaded ip d t \<and> irefs t = irefs s"
proof -
  obtain t where t: "ilock (Some ip) s = Inr t" "tx p r t" "reads_only s t" "icache_ok p {ip} t"
    "icache t = (icache s)(ip := (fill_inode (dinode_at s d) (icache s ip))\<lparr>i_valid := True\<rparr>)" "irefs t = irefs s"
    using ilock_ok [OF assms(1-3)] assms(4-6) by auto
  have "i_dev (icache s ip) = 1" using icache_okD(5) [OF assms(2)] assms(3) by (simp add: in_use_def)
  then have "loaded ip d t" using t(5) disk_cong(1) [OF t(3)] assms(3,4)
    by (auto simp: loaded_def in_use_def) (simp_all add: fill_inode_def)
  then show ?thesis using t by blast
qed

lemma open_card:
  assumes "icache_ok p L s" "irefs s = B(d := B d + 1)" "card {i. 0 < B i} + 2 \<le> NINODE" "finite {i. 0 < B i}"
  shows "card (open_inodes s) < NINODE"
proof -
  have "open_inodes s \<subseteq> insert d {i. 0 < B i}" unfolding open_irefs [OF assms(1)] assms(2) by auto
  then have "card (open_inodes s) \<le> card (insert d {i. 0 < B i})" using assms(4) by (intro card_mono) auto
  also have "\<dots> \<le> card {i. 0 < B i} + 1" using assms(4) by (simp add: card_insert_if)
  finally show ?thesis using assms(3) by simp
qed

lemma entry_cong: "reads_only s t \<Longrightarrow> entry_at t = entry_at s"
  by (intro ext) (simp add: entry_at_def disk_cong)

lemma finds_cong: "reads_only s t \<Longrightarrow> finds t = finds s" "reads_only s t \<Longrightarrow> absent t = absent s"
  by (intro ext, simp add: finds_def absent_def disk_cong entry_cong)+

text \<open>The result of a walk in terms of references: those before are \<open>B\<close>.\<close>

definition walked :: "(u32 \<Rightarrow> int) \<Rightarrow> u32 option \<Rightarrow> nat option \<Rightarrow> 'a kern_scheme \<Rightarrow> bool" where
  "walked B r q t \<longleftrightarrow> (case r of None \<Rightarrow> q = None \<and> irefs t = B
     | Some i \<Rightarrow> \<exists>ip. q = Some ip \<and> ip \<in> in_use t \<and> i_inum (icache t ip) = i \<and> irefs t = B(i := B i + 1))"

text \<open>Taking the lock of the inode at which the walk stands.\<close>

lemma enter_inode:
  assumes "inode_ok s0 d" "reads_only s0 s" "tx p n s" "icache_ok p {} s" "ip \<in> in_use s" "i_inum (icache s ip) = d"
  obtains u where "ilock (Some ip) s = Inr u" "tx p n u" "reads_only s u" "icache_ok p {ip} u" "loaded ip d u" "irefs u = irefs s"
    "reads_only s0 u" "di_nlink (dinode_at u d) \<noteq> 0" "i_type (icache u ip) = di_type (dinode_at s0 d)"
proof -
  have d: "IBLOCK d (sb s) < disksize s" "di_type (dinode_at s d) \<noteq> 0" "di_nlink (dinode_at s d) \<noteq> 0"
    using assms(1,2) disk_cong(1) [OF assms(2)] by (simp_all add: inode_ok_def reads_only_def)
  obtain u where u: "ilock (Some ip) s = Inr u" "tx p n u" "reads_only s u" "icache_ok p {ip} u" "loaded ip d u" "irefs u = irefs s"
    using ilock_loaded [OF assms(3-6) d(1,2)] by blast
  have r: "reads_only s0 u" by (rule reads_only_trans [OF assms(2) u(3)])
  show ?thesis
    by (rule that [OF u r]) (use d(3) loadedD(2) [OF u(5)] disk_cong(1) [OF r] disk_cong(1) [OF u(3)] in simp_all)
qed

lemma namex_loop_ok:
  assumes "resolves s0 d path r" and B: "card {i. 0 < B i} + 2 \<le> NINODE" "finite {i. 0 < B i}"
    and "tx p n s" "icache_ok p {} s" "reads_only s0 s" "ip \<in> in_use s" "i_inum (icache s ip) = d" "irefs s = B(d := B d + 1)"
  shows "\<exists>q t. namex_loop ip path False nm0 s = Inr (q, t) \<and> tx p n t \<and> reads_only s t \<and> icache_ok p {} t
    \<and> walked B r (map_option fst q) t"
  using assms(1,4-)
proof (induction arbitrary: s ip nm0)
  case (here path d)
  then show ?case by (auto simp: namex_loop.simps reads_only_def walked_def)
next
  case (no_dir path x d)
  note S = no_dir.prems
  obtain u where u: "ilock (Some ip) s = Inr u" "tx p n u" "reads_only s u" "icache_ok p {ip} u" "loaded ip d u" "irefs u = irefs s"
    "reads_only s0 u" "di_nlink (dinode_at u d) \<noteq> 0" "i_type (icache u ip) = di_type (dinode_at s0 d)"
    using enter_inode [OF no_dir.hyps(2) S(3,1,2,4,5)] by blast
  obtain t where t: "iunlockput ip u = Inr t" "tx p n t" "reads_only u t" "icache_ok p {} t" "irefs t = (irefs u)(d := irefs u d - 1)"
    using iunlockput_ok [OF u(2,4,5,8)] by auto
  have "namex_loop ip path False nm0 s = Inr (None, t)"
    using no_dir.hyps(1,3) u(1,9) t(1) by (cases x) (simp add: namex_loop.simps)
  then show ?case using t u S(6) reads_only_trans [OF u(3) t(3)] by (auto simp: walked_def)
next
  case (missing path rest nm d)
  note S = missing.prems
  obtain u where u: "ilock (Some ip) s = Inr u" "tx p n u" "reads_only s u" "icache_ok p {ip} u" "loaded ip d u" "irefs u = irefs s"
    "reads_only s0 u" "di_nlink (dinode_at u d) \<noteq> 0" "i_type (icache u ip) = di_type (dinode_at s0 d)"
    using enter_inode [OF missing.hyps(2) S(3,1,2,4,5)] by blast
  have a: "absent u d nm" using missing.hyps(4) finds_cong(2) [OF u(7)] by simp
  have ty: "di_type (dinode_at u d) = 1" using missing.hyps(3) disk_cong(1) [OF u(7)] by simp
  obtain v where v: "dirlookup ip nm u = Inr (None, v)" "tx p n v" "blk v = blk u" "fs_frame u v"
    using dirlookup_missing [OF u(2,4,5) ty a] by blast
  note rv = reads_only_frame [OF v(4,3)] and fv = fs_frameD [OF v(4)]
  have ov: "icache_ok p {ip} v" "loaded ip d v" using u(4,5) icache_ok_cong [OF rv fv(9,14)] loaded_cong [OF rv fv(9)] by simp_all
  obtain t where t: "iunlockput ip v = Inr t" "tx p n t" "reads_only v t" "icache_ok p {} t" "irefs t = (irefs v)(d := irefs v d - 1)"
    using iunlockput_ok [OF v(2) ov] u(8) disk_cong(1) [OF rv] by auto
  have "namex_loop ip path False nm0 s = Inr (None, t)"
    using missing.hyps(1,3) u(1,9) v(1) t(1) by (simp add: namex_loop.simps)
  then show ?case using t u S(6) irefs_cong [OF fv(9)] reads_only_trans [OF u(3) reads_only_trans [OF rv t(3)]] by (auto simp: walked_def)
next
  case (down path rest nm d k i r)
  note S = down.prems
  obtain u where u: "ilock (Some ip) s = Inr u" "tx p n u" "reads_only s u" "icache_ok p {ip} u" "loaded ip d u" "irefs u = irefs s"
    "reads_only s0 u" "di_nlink (dinode_at u d) \<noteq> 0" "i_type (icache u ip) = di_type (dinode_at s0 d)"
    using enter_inode [OF down.hyps(2) S(3,1,2,4,5)] by blast
  have f: "finds u d nm k" "i = ucast (dirent_inum (entry_at u d k))" "di_type (dinode_at u d) = 1"
    using down.hyps(3-5) finds_cong(1) [OF u(7)] entry_cong [OF u(7)] disk_cong(1) [OF u(7)] by simp_all
  have room: "card (open_inodes u) < 50" by (rule open_card [OF u(4) u(6) [unfolded S(6)] B])
  obtain nx v where v: "dirlookup ip nm u = Inr (Some (nx, of_nat (16 * k)), v)" "tx p n v" "reads_only u v" "icache_ok p {ip} v" "got nx i u v"
    using dirlookup_found [OF u(2,4,5) f(3,1,2)] room by blast
  obtain m where m: "icache v ip = (icache u ip)\<lparr>i_ref := m\<rparr>" "i_ref (icache u ip) \<le> m"
    using v(5) u(5) unfolding got_def loaded_def by blast
  have lv: "loaded ip d v" using u(5) m disk_cong(1) [OF v(3)] by (auto simp: loaded_def in_use_def fill_inode_ref)
  obtain w where w: "iunlockput ip v = Inr w" "tx p n w" "reads_only v w" "icache_ok p {} w" "irefs w = (irefs v)(d := irefs v d - 1)"
    "icache w = (icache v)(ip := (icache v ip)\<lparr>i_ref := i_ref (icache v ip) - 1\<rparr>)"
    using iunlockput_ok [OF v(2,4) lv] u(8) disk_cong(1) [OF v(3)] by auto
  have g: "nx \<in> in_use v" "i_inum (icache v nx) = i" "irefs v = (irefs u)(i := irefs u i + 1)"
    "nx \<in> in_use u \<longrightarrow> i_ref (icache v nx) = i_ref (icache u nx) + 1" using v(5) by (simp_all add: got_def)
  have nw: "nx \<in> in_use w" "i_inum (icache w nx) = i"
    using g(1,2,4) w(6) u(5) by (auto simp: in_use_def loaded_def)
  have "irefs w = B(i := B i + 1)" using w(5) g(3) u(6) S(6) by (auto simp: fun_eq_iff)
  moreover have ro: "reads_only s0 w" by (rule reads_only_trans [OF u(7) reads_only_trans [OF v(3) w(3)]])
  ultimately obtain q t where t: "namex_loop nx rest False nm w = Inr (q, t)" "tx p n t" "reads_only w t" "icache_ok p {} t"
      "walked B r (map_option fst q) t"
    using down.IH [OF w(2,4) _ nw] by blast
  have "namex_loop ip path False nm0 s = Inr (q, t)"
    using down.hyps(1,3) u(1,9) v(1) w(1) t(1) by (simp add: namex_loop.simps [of ip])
  then show ?case using t reads_only_trans [OF u(3) reads_only_trans [OF v(3) reads_only_trans [OF w(3) t(3)]]] by auto
qed

lemma namei_ok:
  assumes tx: "tx p n s" and ok: "icache_ok p {} s" and room: "card (open_inodes s) + 2 \<le> NINODE"
    and path: "path \<noteq> []" "hd path = SLASH" "resolves s ROOTINO path r"
  shows "\<exists>q t. namei path s = Inr (q, t) \<and> tx p n t \<and> reads_only s t \<and> icache_ok p {} t \<and> walked (irefs s) r q t"
proof -
  note o = open_irefs [OF ok]
  have fin: "finite (open_inodes s)" by (simp add: open_inodes_def in_use_def)
  obtain ip t where t: "iget 1 1 s = Inr (ip, t)" "tx p n t" "reads_only s t" "icache_ok p {} t" "got ip 1 s t"
    using iget_got [OF tx ok, of 1] room by auto
  obtain q u where "namex_loop ip path False [] t = Inr (q, u)" "tx p n u" "reads_only t u" "icache_ok p {} u" "walked (irefs s) r (map_option fst q) u"
    using namex_loop_ok [OF path(3), of "irefs s" p n t ip "[]"] room fin t o by (auto simp: got_def)
  then show ?thesis using t path(1,2) reads_only_trans [OF t(3)] by (auto simp: namei_def namex_def)
qed

end
