(* ===== verification/Mkfs.thy ===== *)
theory Mkfs
  imports Fs
begin

text \<open>
  The program \<^verbatim>\<open>mkfs.c\<close> that builds the file system image on the host. The image is the list of the
  512-byte sectors of the file; the globals \<^verbatim>\<open>freeinode\<close> and \<^verbatim>\<open>freeblock\<close> complete the state. A failing
  \<^verbatim>\<open>assert\<close> is a \<open>Panic\<close>, the exit after an I/O error is \<open>Exits\<close>. The messages on standard output are left out.
\<close>

section \<open>State and layout\<close>

record mk =
  img :: "u8 list list"
  freeinode :: u32
  freeblock :: u32

abbreviation (input) FSSIZE :: "'a::numeral" where "FSSIZE \<equiv> 1000"
abbreviation (input) NINODES :: "'a::numeral" where "NINODES \<equiv> 200"

definition nbitmap :: u32 where "nbitmap = FSSIZE div (BSIZE * 8) + 1"
definition ninodeblocks :: u32 where "ninodeblocks = NINODES div IPB + 1"
definition nlog :: u32 where "nlog = LOGSIZE"
definition nmeta :: u32 where "nmeta = 2 + nlog + ninodeblocks + nbitmap"

text \<open>Conversion to little-endian order on a little-endian host.\<close>

definition xshort :: "u16 \<Rightarrow> u16" where
  "xshort x = u16_of_bytes [ucast x, ucast (drop_bit 8 x)]"

definition xint :: "u32 \<Rightarrow> u32" where
  "xint x = u32_of_bytes [ucast x, ucast (drop_bit 8 x), ucast (drop_bit 16 x), ucast (drop_bit 24 x)]"

definition mksb :: superblock where
  "mksb = \<lparr>sb_size = xint FSSIZE, sb_nblocks = xint (FSSIZE - nmeta), sb_ninodes = xint NINODES, sb_nlog = xint nlog,
     sb_logstart = xint 2, sb_inodestart = xint (2 + nlog), sb_bmapstart = xint (2 + nlog + ninodeblocks)\<rparr>"

text \<open>The bytes of \<^verbatim>\<open>struct superblock\<close>.\<close>

definition bytes_of_superblock :: "superblock \<Rightarrow> u8 list" where
  "bytes_of_superblock r = concat (map bytes_of_u32 [sb_size r, sb_nblocks r, sb_ninodes r, sb_nlog r, sb_logstart r,
     sb_inodestart r, sb_bmapstart r])"

section \<open>Sectors and inodes\<close>

text \<open>The byte offset \<^verbatim>\<open>sec * BSIZE\<close> is an unsigned product.\<close>

definition sect_no :: "u32 \<Rightarrow> nat" where
  "sect_no sec = unat (sec * BSIZE) div BSIZE"

text \<open>Writing past the end of the file leaves zero bytes in between; reading there is an error.\<close>

definition wsect :: "u32 \<Rightarrow> u8 list \<Rightarrow> mk \<Rightarrow> mk" where
  "wsect sec buf s =
     (let k = sect_no sec; xs = img s @ replicate (Suc k - length (img s)) (replicate BSIZE 0) in s\<lparr>img := xs[k := buf]\<rparr>)"

definition rsect :: "u32 \<Rightarrow> mk \<Rightarrow> u8 list res" where
  "rsect sec s = (if sect_no sec < length (img s) then Inr (img s ! sect_no sec) else Inl Exits)"

definition winode :: "u32 \<Rightarrow> dinode \<Rightarrow> mk \<Rightarrow> mk res" where
  "winode inum di s =
     (let bn = IBLOCK inum mksb in
      rbind (rsect bn s) (\<lambda>buf. Inr (wsect bn (put_dinode (unat (inum mod IPB)) di buf) s)))"

definition rinode :: "u32 \<Rightarrow> mk \<Rightarrow> dinode res" where
  "rinode inum s =
     (let bn = IBLOCK inum mksb in
      rbind (rsect bn s) (\<lambda>buf. Inr (get_dinode (unat (inum mod IPB)) buf)))"

definition mk_ialloc :: "u16 \<Rightarrow> mk \<Rightarrow> (u32 \<times> mk) res" where
  "mk_ialloc ty s =
     (let inum = freeinode s; s = s\<lparr>freeinode := freeinode s + 1\<rparr> in
      rbind (winode inum (zero_dinode\<lparr>di_type := xshort ty, di_nlink := xshort 1, di_size := xint 0\<rparr>) s) (\<lambda>s.
      Inr (inum, s)))"

text \<open>The bitmap with the first \<open>used\<close> bits set.\<close>

definition mk_balloc :: "int \<Rightarrow> mk \<Rightarrow> mk res" where
  "mk_balloc used s =
     (if \<not> used < BSIZE * 8 then Inl (Panic ''assert'')
      else Inr (wsect (sb_bmapstart mksb) (fold mark_bit [0..<nat used] (replicate BSIZE 0)) s))"

section \<open>Appending to a file\<close>

text \<open>The block for file block \<open>fbn\<close>, allocated if there is none yet.\<close>

definition iappend_block :: "u32 \<Rightarrow> dinode \<Rightarrow> mk \<Rightarrow> (u32 \<times> dinode \<times> mk) res" where
  "iappend_block fbn din s =
     (if fbn < NDIRECT then
        let k = unat fbn;
            (din, s) = (if xint (di_addrs din ! k) = 0
              then (din\<lparr>di_addrs := (di_addrs din)[k := xint (freeblock s)]\<rparr>, s\<lparr>freeblock := freeblock s + 1\<rparr>) else (din, s))
        in Inr (xint (di_addrs din ! k), din, s)
      else
        let (din, s) = (if xint (di_addrs din ! NDIRECT) = 0
              then (din\<lparr>di_addrs := (di_addrs din)[NDIRECT := xint (freeblock s)]\<rparr>, s\<lparr>freeblock := freeblock s + 1\<rparr>) else (din, s));
            ib = xint (di_addrs din ! NDIRECT); o2 = 4 * unat (fbn - NDIRECT)
        in
        rbind (rsect ib s) (\<lambda>indirect.
        let (indirect, s) = (if get32 o2 indirect = 0
              then (let ind = put32 o2 (xint (freeblock s)) indirect in (ind, wsect ib ind (s\<lparr>freeblock := freeblock s + 1\<rparr>)))
              else (indirect, s))
        in Inr (xint (get32 o2 indirect), din, s)))"

text \<open>
  The loop; \<open>p\<close> are the bytes still to be appended. \<open>n1\<close> is at least 1, so every turn consumes bytes.
\<close>

definition iappend_n1 :: "u32 \<Rightarrow> u8 list \<Rightarrow> nat" where
  "iappend_n1 off p = min (length p) (BSIZE - unat off mod BSIZE)"

function iappend_loop :: "dinode \<Rightarrow> u32 \<Rightarrow> u8 list \<Rightarrow> mk \<Rightarrow> (dinode \<times> u32 \<times> mk) res" where
  "iappend_loop din off p s =
     (if p \<noteq> [] then
        let fbn = off div BSIZE in
        if \<not> fbn < MAXFILE then Inl (Panic ''assert'')
        else
          rbind (iappend_block fbn din s) (\<lambda>(x, din, s).
          let n1 = iappend_n1 off p in
          rbind (rsect x s) (\<lambda>buf.
          let s = wsect x (splice (unat off mod BSIZE) (take n1 p) buf) s in
          iappend_loop din (off + of_nat n1) (drop n1 p) s))
      else Inr (din, off, s))"
  by pat_completeness auto
termination
proof (relation "measure (\<lambda>(din, off, p, s). length p)", goal_cases)
  case (2 din off p s)
  then show ?case by (simp add: iappend_n1_def)
qed simp

declare iappend_loop.simps [simp del]

definition iappend :: "u32 \<Rightarrow> u8 list \<Rightarrow> mk \<Rightarrow> mk res" where
  "iappend inum p s =
     rbind (rinode inum s) (\<lambda>din.
     rbind (iappend_loop din (xint (di_size din)) p s) (\<lambda>(din, off, s).
     winode inum (din\<lparr>di_size := xint off\<rparr>) s))"

section \<open>The program\<close>

definition mk_entry :: "u32 \<Rightarrow> u8 list \<Rightarrow> u8 list" where
  "mk_entry inum nm = bytes_of_u16 (xshort (ucast inum)) @ take DIRSIZ (nm @ replicate DIRSIZ 0)"

text \<open>A file on the command line: its name, and the byte strings the reads of it return.\<close>

primrec append_reads :: "u32 \<Rightarrow> u8 list list \<Rightarrow> mk \<Rightarrow> mk res" where
  "append_reads inum [] s = Inr s"
| "append_reads inum (buf # rs) s = rbind (iappend inum buf s) (\<lambda>s. append_reads inum rs s)"

primrec add_files :: "(u8 list \<times> u8 list list) list \<Rightarrow> u32 \<Rightarrow> mk \<Rightarrow> mk res" where
  "add_files [] rootino s = Inr s"
| "add_files (f # fs) rootino s =
     (let nm = fst f in
      if 47 \<in> set nm then Inl (Panic ''assert'')
      else
        let nm = (if nm \<noteq> [] \<and> hd nm = 95 then tl nm else nm) in
        rbind (mk_ialloc T_FILE s) (\<lambda>(inum, s).
        rbind (iappend rootino (mk_entry inum nm) s) (\<lambda>s.
        rbind (append_reads inum (snd f) s) (\<lambda>s.
        add_files fs rootino s))))"

definition mk_zero :: "mk" where
  "mk_zero = fold (\<lambda>i s. wsect (of_nat i) (replicate BSIZE 0) s) [0..<FSSIZE] \<lparr>img = [], freeinode = 1, freeblock = nmeta\<rparr>"

definition mkfs :: "(u8 list \<times> u8 list list) list \<Rightarrow> mk res" where
  "mkfs files =
     (let s = wsect 1 (splice 0 (bytes_of_superblock mksb) (replicate BSIZE 0)) mk_zero in
      rbind (mk_ialloc T_DIR s) (\<lambda>(rootino, s).
      if rootino \<noteq> ROOTINO then Inl (Panic ''assert'')
      else
        rbind (iappend rootino (mk_entry rootino [46]) s) (\<lambda>s.
        rbind (iappend rootino (mk_entry rootino [46, 46]) s) (\<lambda>s.
        rbind (add_files files rootino s) (\<lambda>s.
        rbind (rinode rootino s) (\<lambda>din.
        let off = xint (di_size din);
            off = (off div BSIZE + 1) * BSIZE
        in
        rbind (winode rootino (din\<lparr>di_size := xint off\<rparr>) s) (\<lambda>s.
        mk_balloc (int_of_u32 (freeblock s)) s)))))))"

end
