(* ===== verification/MkfsSpec.thy ===== *)
theory MkfsSpec
  imports Mkfs FsCodec BlockSpec
begin

text \<open>
  The image that \<^verbatim>\<open>mkfs\<close> writes: every block has one owner, the files on it hold what was read from the host, and
  the kernel's bitmap, log and super block routines accept it.
\<close>

section \<open>Layout\<close>

lemma xint_id [simp]: "xint x = x"
  using u32_bytes(1) [of x] by (simp add: xint_def bytes_of_u32_def)

lemma xshort_id [simp]: "xshort x = x"
  using u16_bytes(1) [of x] by (simp add: xshort_def bytes_of_u16_def)

lemma layout: "nbitmap = 1" "ninodeblocks = 26" "nlog = 30" "nmeta = 59"
  "mksb = \<lparr>sb_size = 1000, sb_nblocks = 941, sb_ninodes = 200, sb_nlog = 30, sb_logstart = 2, sb_inodestart = 32,
     sb_bmapstart = 58\<rparr>"
  by code_simp+

lemma sect_no_small: "unat x < 1000 \<Longrightarrow> sect_no x = unat x"
proof -
  assume "unat x < 1000"
  then have "unat (x * 512) = unat x * 512" by (simp add: unat_word_ariths)
  then show ?thesis by (simp add: sect_no_def)
qed

section \<open>The owners of blocks\<close>

text \<open>
  Every allocated block is a data block of one file or the indirect block of one inode. \<open>img_ok\<close> says that the block
  numbers in inodes and indirect blocks respect this assignment, that free blocks are zero, and that the log is empty.
\<close>

datatype owner = Data nat nat | Ind nat

type_synonym blkmap = "nat \<Rightarrow> owner option"

definition slot :: "nat \<Rightarrow> nat \<Rightarrow> owner" where
  "slot i k = (if k = NDIRECT then Ind i else Data i k)"

definition typed :: "blkmap \<Rightarrow> owner \<Rightarrow> u32 \<Rightarrow> bool" where
  "typed ty ow a \<longleftrightarrow> a = 0 \<or> ty (unat a) = Some ow"

definition typed_addrs :: "blkmap \<Rightarrow> nat \<Rightarrow> u32 list \<Rightarrow> bool" where
  "typed_addrs ty i as \<longleftrightarrow> length as = NDIRECT + 1 \<and> (\<forall>k < 13. typed ty (slot i k) (as ! k))"

definition img_ok :: "blkmap \<Rightarrow> mk \<Rightarrow> bool" where
  "img_ok ty s \<longleftrightarrow> length (img s) = FSSIZE \<and> (\<forall>b < 1000. length (img s ! b) = BSIZE)
     \<and> 59 \<le> unat (freeblock s) \<and> unat (freeblock s) \<le> FSSIZE
     \<and> (\<forall>b. ty b \<noteq> None \<longrightarrow> 59 \<le> b \<and> b < unat (freeblock s))
     \<and> (\<forall>b. unat (freeblock s) \<le> b \<and> b < 1000 \<longrightarrow> img s ! b = replicate BSIZE 0)
     \<and> img s ! 1 = splice 0 (bytes_of_superblock mksb) (replicate BSIZE 0)
     \<and> (\<forall>b. 2 \<le> b \<and> b < 32 \<longrightarrow> img s ! b = replicate BSIZE 0)
     \<and> (\<forall>b j. 32 \<le> b \<and> b < 58 \<and> j < IPB \<longrightarrow> typed_addrs ty (8 * (b - 32) + j) (di_addrs (get_dinode j (img s ! b))))
     \<and> (\<forall>b i k. ty b = Some (Ind i) \<and> k < 128 \<longrightarrow> typed ty (Data i (12 + k)) (get32 (4 * k) (img s ! b)))"

lemma img_okD:
  assumes "img_ok ty s"
  shows "length (img s) = FSSIZE" "b < 1000 \<Longrightarrow> length (img s ! b) = BSIZE" "59 \<le> unat (freeblock s)"
    "unat (freeblock s) \<le> FSSIZE" "ty b = Some x \<Longrightarrow> 59 \<le> b \<and> b < unat (freeblock s)"
    "unat (freeblock s) \<le> b \<Longrightarrow> b < 1000 \<Longrightarrow> img s ! b = replicate BSIZE 0"
    "img s ! 1 = splice 0 (bytes_of_superblock mksb) (replicate BSIZE 0)"
    "2 \<le> b \<Longrightarrow> b < 32 \<Longrightarrow> img s ! b = replicate BSIZE 0"
    "32 \<le> b \<Longrightarrow> b < 58 \<Longrightarrow> j < IPB \<Longrightarrow> typed_addrs ty (8 * (b - 32) + j) (di_addrs (get_dinode j (img s ! b)))"
    "ty b = Some (Ind i) \<Longrightarrow> k < 128 \<Longrightarrow> typed ty (Data i (12 + k)) (get32 (4 * k) (img s ! b))"
  using assms by (auto simp: img_ok_def)

lemma owned_block:
  assumes "img_ok ty s" "ty (unat a) = Some ow"
  shows "59 \<le> unat a" "unat a < 1000" "unat a < unat (freeblock s)" "sect_no a = unat a"
proof -
  show "59 \<le> unat a" "unat a < 1000" "unat a < unat (freeblock s)"
    using img_okD(4) [OF assms(1)] img_okD(5) [OF assms] by auto
  then show "sect_no a = unat a" by (simp add: sect_no_small)
qed

lemma wsect_small: "length (img s) = 1000 \<Longrightarrow> sect_no a < 1000 \<Longrightarrow> wsect a buf s = s\<lparr>img := (img s)[sect_no a := buf]\<rparr>"
  by (simp add: wsect_def)

lemma rsect_small: "length (img s) = 1000 \<Longrightarrow> sect_no a < 1000 \<Longrightarrow> rsect a s = Inr (img s ! sect_no a)"
  by (simp add: rsect_def)

lemma owned_sect:
  assumes "img_ok ty s" "ty (unat a) = Some ow"
  shows "wsect a buf s = s\<lparr>img := (img s)[unat a := buf]\<rparr>" "rsect a s = Inr (img s ! unat a)"
  using owned_block [OF assms] img_okD(1) [OF assms(1)] by (simp_all add: wsect_small rsect_small)

lemma owned_nth:
  fixes a :: u32
  assumes "img_ok ty s" "ty (unat a) = Some ow"
  shows "(img s)[unat a := v] ! b = (if b = unat a then v else img s ! b)" "b < 59 \<Longrightarrow> b \<noteq> unat a"
    "unat (freeblock s) \<le> b \<Longrightarrow> b \<noteq> unat a"
  using owned_block [OF assms] img_okD(1) [OF assms(1)] by (auto simp: nth_list_update)

text \<open>Writing file data.\<close>

lemma write_data:
  assumes ok: "img_ok ty s" and a: "ty (unat a) = Some (Data i k)" and b: "length buf = BSIZE"
  shows "img_ok ty (wsect a buf s)"
proof -
  note D = img_okD [OF ok]
  have n: "b \<noteq> unat a" if "ty b = Some (Ind i)" for b i using that a by auto
  show ?thesis unfolding owned_sect [OF ok a] img_ok_def using D b n owned_nth(2,3) [OF ok a]
    by (auto simp: owned_nth(1) [OF ok a])
qed

lemma typed_mono: "typed ty i a \<Longrightarrow> ty b = None \<Longrightarrow> typed (ty(b := Some j)) i a"
  by (auto simp: typed_def)

lemma typed_addrs_mono: "typed_addrs ty i as \<Longrightarrow> ty b = None \<Longrightarrow> typed_addrs (ty(b := Some j)) i as"
  by (auto simp: typed_addrs_def typed_mono)

lemma zero_words:
  assumes "off + 4 \<le> 512"
  shows "get32 off (replicate BSIZE 0) = 0"
proof -
  have "min 4 (512 - off) = 4" using assms by simp
  then have "slice off 4 (replicate BSIZE 0) = replicate 4 (0 :: u8)" by (simp only: slice_def drop_replicate take_replicate)
  moreover have "u32_of_bytes (replicate 4 0) = 0" by code_simp
  ultimately show ?thesis by (simp only: get32_def)
qed

text \<open>Allocating the next block.\<close>

lemma alloc_block:
  fixes j :: owner and ty :: blkmap
  assumes ok: "img_ok ty s" and b: "unat (freeblock s) < 1000"
  defines "ty' \<equiv> ty(unat (freeblock s) := Some j)"
  shows "img_ok ty' (s\<lparr>freeblock := freeblock s + 1\<rparr>)" "ty (unat (freeblock s)) = None" "freeblock s \<noteq> 0"
proof -
  let ?f = "unat (freeblock s)"
  note D = img_okD [OF ok]
  show n: "ty ?f = None" using D(5) [of ?f] by (cases "ty ?f") auto
  show "freeblock s \<noteq> 0" using D(3) by auto
  have f1: "unat (freeblock s + 1) = Suc ?f" using b by (simp add: unat_word_ariths)
  have T: "typed ty' i a" if "typed ty i a" for i a unfolding ty'_def by (rule typed_mono [OF that n])
  have TA: "typed_addrs ty' i as" if "typed_addrs ty i as" for i as unfolding ty'_def by (rule typed_addrs_mono [OF that n])
  have "\<forall>c. ty' c \<noteq> None \<longrightarrow> 59 \<le> c \<and> c < Suc ?f" using D(3,5) by (auto simp: ty'_def less_Suc_eq)
  moreover have "\<forall>c i k. ty' c = Some (Ind i) \<and> k < 128 \<longrightarrow> typed ty' (Data i (12 + k)) (get32 (4 * k) (img s ! c))"
  proof (intro allI impI)
    fix c i k :: nat assume c: "ty' c = Some (Ind i) \<and> k < 128"
    show "typed ty' (Data i (12 + k)) (get32 (4 * k) (img s ! c))"
    proof (cases "c = ?f")
      case True
      then show ?thesis using D(6) [of c] b c zero_words [of "4 * k"] by (simp add: typed_def)
    next
      case False
      then show ?thesis using T D(10) [of c i k] c by (simp add: ty'_def)
    qed
  qed
  ultimately show "img_ok ty' (s\<lparr>freeblock := freeblock s + 1\<rparr>)"
    using D TA b unfolding img_ok_def by (auto simp: f1)
qed

lemma write_indirect:
  assumes ok: "img_ok ty s" and a: "ty (unat a) = Some (Ind i)" and v: "typed ty (Data i (12 + k)) v" and k: "k < 128"
  shows "img_ok ty (wsect a (put32 (4 * k) v (img s ! unat a)) s)"
proof -
  note D = img_okD [OF ok]
  note a' = owned_block [OF ok a]
  have l: "length (img s ! unat a) = 512" using D(2) [OF a'(2)] .
  let ?b = "put32 (4 * k) v (img s ! unat a)"
  have g: "get32 (4 * k) ?b = v" using l k by (intro get32_put32) simp
  have "typed ty (Data i (12 + j)) (get32 (4 * j) ?b)" if "j < 128" for j
  proof (cases "j = k")
    case False
    then have "get32 (4 * j) ?b = get32 (4 * j) (img s ! unat a)" using l k that by (intro get32_put32_other) auto
    then show ?thesis using D(10) [OF a that] by simp
  qed (use g v in simp)
  then show ?thesis
    unfolding owned_sect [OF ok a] img_ok_def using D a l k owned_nth(2,3) [OF ok a]
    by (auto simp: owned_nth(1) [OF ok a] length_put32)
qed

lemma typed_upd:
  assumes "typed_addrs ty i as" "k < 13" "typed ty (slot i k) v"
  shows "typed_addrs ty i (as[k := v])"
  using assms by (auto simp: typed_addrs_def nth_list_update)

definition extends :: "blkmap \<Rightarrow> blkmap \<Rightarrow> bool" where
  "extends ty ty' \<longleftrightarrow> (\<forall>b. ty b \<noteq> None \<longrightarrow> ty' b = ty b)"

lemma extends_refl [simp]: "extends ty ty"
  by (simp add: extends_def)

lemma extends_trans: "extends ty ty' \<Longrightarrow> extends ty' ty'' \<Longrightarrow> extends ty ty''"
  by (auto simp: extends_def)

lemma extends_fresh: "ty b = None \<Longrightarrow> extends ty (ty(b := x))"
  by (auto simp: extends_def)

lemma extends_typed: "extends ty ty' \<Longrightarrow> typed ty ow a \<Longrightarrow> typed ty' ow a"
  by (auto simp: extends_def typed_def)

lemma extends_typed_addrs: "extends ty ty' \<Longrightarrow> typed_addrs ty i as \<Longrightarrow> typed_addrs ty' i as"
  by (auto simp: typed_addrs_def extends_typed)

section \<open>The contents of files\<close>

definition baddr :: "u32 list \<Rightarrow> mk \<Rightarrow> nat \<Rightarrow> u32" where
  "baddr as s k = (if k < NDIRECT then as ! k
     else if as ! NDIRECT = 0 then 0 else get32 (4 * (k - NDIRECT)) (img s ! unat (as ! NDIRECT)))"

definition fblk :: "u32 list \<Rightarrow> mk \<Rightarrow> nat \<Rightarrow> u8 list" where
  "fblk as s k = (if baddr as s k = 0 then replicate BSIZE 0 else img s ! unat (baddr as s k))"

lemma baddr_typed:
  assumes "img_ok ty s" "typed_addrs ty i as" "k < MAXFILE"
  shows "typed ty (Data i k) (baddr as s k)"
proof (cases "k < 12")
  case True
  then show ?thesis using assms(2) by (auto simp: typed_addrs_def baddr_def slot_def dest: spec [of _ k])
next
  case False
  have "typed ty (Ind i) (as ! 12)" using assms(2) by (auto simp: typed_addrs_def slot_def dest: spec [of _ 12])
  then show ?thesis using False assms(3) img_okD(10) [OF assms(1), of "unat (as ! 12)" i "k - 12"]
    by (auto simp: baddr_def typed_def)
qed

lemma length_fblk:
  assumes "img_ok ty s" "typed_addrs ty i as" "k < MAXFILE"
  shows "length (fblk as s k) = BSIZE"
  using baddr_typed [OF assms] owned_block(2) [OF assms(1), of "baddr as s k"] img_okD(2) [OF assms(1)]
  by (auto simp: fblk_def typed_def)

text \<open>A write to a block that belongs to another file block, or to the metadata, is not seen.\<close>

lemma fblk_write_other:
  assumes ok: "img_ok ty s" and t: "typed_addrs ty i as" and k: "k < MAXFILE"
    and b: "b < 59 \<or> (\<exists>ow. ty b = Some ow \<and> ow \<noteq> Data i k \<and> ow \<noteq> Ind i)"
  shows "fblk as (s\<lparr>img := (img s)[b := v]\<rparr>) k = fblk as s k" "baddr as (s\<lparr>img := (img s)[b := v]\<rparr>) k = baddr as s k"
proof -
  let ?s = "s\<lparr>img := (img s)[b := v]\<rparr>"
  have "typed ty (Ind i) (as ! 12)" using t by (auto simp: typed_addrs_def slot_def dest: spec [of _ 12])
  then have n: "as ! 12 \<noteq> 0 \<Longrightarrow> b \<noteq> unat (as ! 12)"
    using b owned_block(1) [OF ok, of "as ! 12"] by (auto simp: typed_def)
  show e: "baddr as ?s k = baddr as s k" using n by (simp add: baddr_def)
  have "baddr as s k \<noteq> 0 \<Longrightarrow> b \<noteq> unat (baddr as s k)"
    using baddr_typed [OF ok t k] b owned_block(1) [OF ok, of "baddr as s k"] by (auto simp: typed_def)
  then show "fblk as ?s k = fblk as s k" by (simp add: fblk_def e)
qed


section \<open>Appending\<close>

text \<open>Taking a new block for an address field that is 0 does not change what is read.\<close>

lemma free_sect_small:
  assumes "img_ok ty s" "sect_no (freeblock s) < 1000"
  shows "unat (freeblock s) < 1000"
proof -
  have "unat (freeblock s) \<le> 1000" using img_okD(4) [OF assms(1)] .
  moreover have "unat (freeblock s) \<noteq> 1000"
  proof
    assume "unat (freeblock s) = 1000"
    then have "freeblock s = 1000" by (simp add: word_unat_eq_iff)
    then show False using assms(2) by (simp add: sect_no_def)
  qed
  ultimately show ?thesis by simp
qed

lemma take_block:
  assumes ok: "img_ok ty s" and b: "sect_no (freeblock s) < 1000"
  shows "\<exists>ty'. img_ok ty' (s\<lparr>freeblock := freeblock s + 1\<rparr>) \<and> extends ty ty' \<and> ty' (unat (freeblock s)) = Some ow
    \<and> freeblock s \<noteq> 0 \<and> img s ! unat (freeblock s) = replicate BSIZE 0"
proof -
  note b = free_sect_small [OF ok b]
  note A = alloc_block(1) [OF ok b, of ow] alloc_block(2,3) [OF ok b]
  show ?thesis
    by (rule exI [of _ "ty(unat (freeblock s) := Some ow)"])
      (use A extends_fresh [of ty] img_okD(6) [OF ok _ b] in auto)
qed

lemma fblk_fill:
  assumes "length as = 13" "as ! k = 0" "k < 13" "j < MAXFILE" "img s ! unat v = replicate BSIZE 0"
  shows "fblk (as[k := v]) s j = fblk as s j"
proof (cases "k = 12")
  case True
  have "get32 (4 * (j - 12)) (replicate 512 0) = 0" using assms(4) by (intro zero_words) simp
  then show ?thesis using True assms by (auto simp: fblk_def baddr_def nth_list_update)
next
  case False
  then show ?thesis using assms by (auto simp: fblk_def baddr_def nth_list_update)
qed

lemma fblk_freeblock [simp]: "fblk as (s\<lparr>freeblock := b\<rparr>) = fblk as s"
  by (rule ext) (simp add: fblk_def baddr_def)

lemma baddr_freeblock [simp]: "baddr as (s\<lparr>freeblock := b\<rparr>) = baddr as s"
  by (rule ext) (simp add: baddr_def)

lemma fill_field:
  assumes ok: "img_ok ty s" and t: "typed_addrs ty i (di_addrs din)" and k: "k < 13"
    and e: "(din1, s1) = (if di_addrs din ! k = 0
      then (din\<lparr>di_addrs := (di_addrs din)[k := freeblock s]\<rparr>, s\<lparr>freeblock := freeblock s + 1\<rparr>) else (din, s))"
    and r: "sect_no (di_addrs din1 ! k) < 1000"
  shows "\<exists>ty'. img_ok ty' s1 \<and> extends ty ty' \<and> typed_addrs ty' i (di_addrs din1) \<and> di_addrs din1 ! k \<noteq> 0
    \<and> ty' (unat (di_addrs din1 ! k)) = Some (slot i k) \<and> (\<forall>j < 140. fblk (di_addrs din1) s1 j = fblk (di_addrs din) s j)"
proof (cases "di_addrs din ! k = 0")
  case True
  have l: "length (di_addrs din) = 13" using t by (simp add: typed_addrs_def)
  have e': "din1 = din\<lparr>di_addrs := (di_addrs din)[k := freeblock s]\<rparr>" "s1 = s\<lparr>freeblock := freeblock s + 1\<rparr>"
    using e True by auto
  have x: "di_addrs din1 ! k = freeblock s" using e' l k by simp
  obtain ty' where ty': "img_ok ty' s1" "extends ty ty'" "ty' (unat (freeblock s)) = Some (slot i k)" "freeblock s \<noteq> 0"
    "img s ! unat (freeblock s) = replicate 512 0"
    using take_block [OF ok, of "slot i k"] e' r x by auto
  have "typed_addrs ty' i (di_addrs din1)"
    using typed_upd [OF extends_typed_addrs [OF ty'(2) t] k, of "freeblock s"] ty'(3) e'(1) by (simp add: typed_def)
  moreover have "fblk (di_addrs din1) s1 j = fblk (di_addrs din) s j" if "j < 140" for j
    using fblk_fill [OF l True k that ty'(5)] e' by simp
  ultimately show ?thesis using ty' x by auto
next
  case False
  then have e': "din1 = din" "s1 = s" using e by auto
  have "typed ty (slot i k) (di_addrs din ! k)" using t k by (auto simp: typed_addrs_def)
  then show ?thesis using False ok t e' by (auto simp: typed_def intro!: exI [of _ ty])
qed

text \<open>
  The effect of choosing the block: it belongs to the file block, no file changes its contents, and the metadata and
  the inode counter stay.
\<close>

definition meta_same :: "mk \<Rightarrow> mk \<Rightarrow> bool" where
  "meta_same s s' \<longleftrightarrow> (\<forall>b < 59. img s' ! b = img s ! b) \<and> freeinode s' = freeinode s"

definition others_same :: "blkmap \<Rightarrow> nat \<Rightarrow> mk \<Rightarrow> mk \<Rightarrow> bool" where
  "others_same ty i s s' \<longleftrightarrow> (\<forall>i' as j. i' \<noteq> i \<and> typed_addrs ty i' as \<and> j < 140
     \<longrightarrow> fblk as s' j = fblk as s j \<and> baddr as s' j = baddr as s j)"

lemma others_sameD:
  "others_same ty i s s' \<Longrightarrow> i' \<noteq> i \<Longrightarrow> typed_addrs ty i' as \<Longrightarrow> j < 140 \<Longrightarrow> fblk as s' j = fblk as s j \<and> baddr as s' j = baddr as s j"
  by (simp add: others_same_def)

lemma others_same_trans:
  assumes "others_same ty i s s'" "extends ty ty'" "others_same ty' i s' s''"
  shows "others_same ty i s s''"
  unfolding others_same_def
proof (intro allI impI, elim conjE)
  fix i' as j assume t: "i' \<noteq> i" "typed_addrs ty i' as" "j < (140 :: nat)"
  show "fblk as s'' j = fblk as s j \<and> baddr as s'' j = baddr as s j"
    using others_sameD [OF assms(1) t] others_sameD [OF assms(3) t(1) extends_typed_addrs [OF assms(2) t(2)] t(3)] by simp
qed

lemma meta_same_trans: "meta_same s s' \<Longrightarrow> meta_same s' s'' \<Longrightarrow> meta_same s s''"
  by (simp add: meta_same_def)

definition append_ok :: "blkmap \<Rightarrow> nat \<Rightarrow> mk \<Rightarrow> blkmap \<Rightarrow> dinode \<Rightarrow> dinode \<Rightarrow> mk \<Rightarrow> bool" where
  "append_ok ty i s ty' din din' s' \<longleftrightarrow> img_ok ty' s' \<and> extends ty ty' \<and> typed_addrs ty' i (di_addrs din')
     \<and> din'\<lparr>di_addrs := []\<rparr> = din\<lparr>di_addrs := []\<rparr> \<and> meta_same s s' \<and> others_same ty i s s'"

lemma append_ok_trans:
  "append_ok ty i s ty' din din' s' \<Longrightarrow> append_ok ty' i s' ty'' din' din'' s'' \<Longrightarrow> append_ok ty i s ty'' din din'' s''"
  by (auto simp: append_ok_def intro: extends_trans meta_same_trans others_same_trans)

lemma iappend_direct:
  assumes ok: "img_ok ty s" and t: "typed_addrs ty i (di_addrs din)" and f: "fbn < NDIRECT"
    and r: "iappend_block fbn din s = Inr (x, din', s')" "sect_no x < 1000"
  shows "\<exists>ty'. append_ok ty i s ty' din din' s' \<and> ty' (unat x) = Some (Data i (unat fbn)) \<and> x \<noteq> 0
    \<and> baddr (di_addrs din') s' (unat fbn) = x \<and> (\<forall>j < 140. fblk (di_addrs din') s' j = fblk (di_addrs din) s j)"
proof -
  have k: "unat fbn < 12" using f by (simp add: word_less_nat_alt)
  have e: "(din', s') = (if di_addrs din ! unat fbn = 0
      then (din\<lparr>di_addrs := (di_addrs din)[unat fbn := freeblock s]\<rparr>, s\<lparr>freeblock := freeblock s + 1\<rparr>) else (din, s))"
    "x = di_addrs din' ! unat fbn"
    using r(1) f by (auto simp: iappend_block_def Let_def split: if_splits)
  have "img s' = img s" "freeinode s' = freeinode s" "din'\<lparr>di_addrs := []\<rparr> = din\<lparr>di_addrs := []\<rparr>" "fblk as s' = fblk as s"
      "baddr as s' = baddr as s" for as
    using e(1) by (auto split: if_splits)
  then show ?thesis using fill_field [OF ok t _ e(1)] k r(2) e(2)
    by (auto simp: append_ok_def meta_same_def others_same_def slot_def baddr_def)
qed

lemma fblk_put:
  assumes ok: "img_ok ty s" and t: "typed_addrs ty i as" and k: "k < 128" and j: "j < MAXFILE"
    and a: "as ! 12 \<noteq> 0" "get32 (4 * k) (img s ! unat (as ! 12)) = 0"
    and v: "ty (unat v) = Some (Data i (12 + k))" "img s ! unat v = replicate BSIZE 0"
  defines "s' \<equiv> s\<lparr>img := (img s)[unat (as ! 12) := put32 (4 * k) v (img s ! unat (as ! 12))]\<rparr>"
  shows "fblk as s' j = fblk as s j" "baddr as s' (12 + k) = v"
proof -
  have ib: "ty (unat (as ! 12)) = Some (Ind i)" using t a(1) by (auto simp: typed_addrs_def slot_def typed_def dest: spec [of _ 12])
  have l: "length (img s ! unat (as ! 12)) = 512" using img_okD(2) [OF ok] owned_block(2) [OF ok ib] by blast
  note n = owned_nth(1) [OF ok ib]
  have D: "img s' ! b = img s ! b" if "b \<noteq> unat (as ! 12)" for b using that by (simp add: s'_def n)
  have g: "get32 (4 * m) (img s' ! unat (as ! 12)) = (if m = k then v else get32 (4 * m) (img s ! unat (as ! 12)))" if "m < 128" for m
  proof (cases "m = k")
    case False
    then show ?thesis using that k l by (simp add: s'_def n) (rule get32_put32_other; auto)
  qed (use k l in \<open>simp add: s'_def n get32_put32\<close>)
  show b: "baddr as s' (12 + k) = v" using g [OF k] a(1) by (simp add: baddr_def)
  show "fblk as s' j = fblk as s j"
  proof (cases "j = 12 + k")
    case True
    have "baddr as s (12 + k) = 0" using a by (simp add: baddr_def)
    moreover have "unat v \<noteq> unat (as ! 12)" using v(1) ib by auto
    ultimately show ?thesis using True b v(2) D [of "unat v"] by (simp add: fblk_def)
  next
    case False
    then have "baddr as s' j = baddr as s j" using g [of "j - 12"] j by (auto simp: baddr_def)
    moreover have "img s' ! unat (baddr as s j) = img s ! unat (baddr as s j)" if "baddr as s j \<noteq> 0"
      using baddr_typed [OF ok t j] that ib by (intro D) (auto simp: typed_def)
    ultimately show ?thesis by (simp add: fblk_def)
  qed
qed

lemma indirect_eq:
  assumes f: "\<not> fbn < NDIRECT" and e: "(din1, s1) = (if di_addrs din ! 12 = 0
      then (din\<lparr>di_addrs := (di_addrs din)[12 := freeblock s]\<rparr>, s\<lparr>freeblock := freeblock s + 1\<rparr>) else (din, s))"
  shows "iappend_block fbn din s = rbind (rsect (di_addrs din1 ! 12) s1) (\<lambda>indirect.
     let (indirect, s) = (if get32 (4 * unat (fbn - NDIRECT)) indirect = 0
       then (let ind = put32 (4 * unat (fbn - NDIRECT)) (freeblock s1) indirect in
               (ind, wsect (di_addrs din1 ! 12) ind (s1\<lparr>freeblock := freeblock s1 + 1\<rparr>)))
       else (indirect, s1))
     in Inr (get32 (4 * unat (fbn - NDIRECT)) indirect, din1, s))"
  unfolding iappend_block_def xint_id if_not_P [OF f] e [symmetric] by (simp only: Let_def prod.case)

lemma iappend_indirect:
  assumes ok: "img_ok ty s" and t: "typed_addrs ty i (di_addrs din)" and f: "\<not> fbn < NDIRECT" "fbn < MAXFILE"
    and r: "iappend_block fbn din s = Inr (x, din', s')" "sect_no x < 1000"
  shows "\<exists>ty'. append_ok ty i s ty' din din' s' \<and> ty' (unat x) = Some (Data i (unat fbn)) \<and> x \<noteq> 0
    \<and> baddr (di_addrs din') s' (unat fbn) = x \<and> (\<forall>j < 140. fblk (di_addrs din') s' j = fblk (di_addrs din) s j)"
proof -
  define k where "k = unat (fbn - NDIRECT)"
  have k: "k < 128" "unat fbn = 12 + k" using f by (simp_all add: k_def word_less_nat_alt unat_sub_if' not_less)
  obtain din1 s1 where e1: "(din1, s1) = (if di_addrs din ! 12 = 0
      then (din\<lparr>di_addrs := (di_addrs din)[12 := freeblock s]\<rparr>, s\<lparr>freeblock := freeblock s + 1\<rparr>) else (din, s))"
    by (metis surj_pair)
  define ib where "ib = di_addrs din1 ! 12"
  note b = indirect_eq [OF f(1) e1, folded k_def ib_def]
  have s1: "img s1 = img s" "freeinode s1 = freeinode s" "din1\<lparr>di_addrs := []\<rparr> = din\<lparr>di_addrs := []\<rparr>" "fblk as s1 = fblk as s"
      "baddr as s1 = baddr as s" for as
    using e1 by (auto split: if_splits)
  have ib: "sect_no ib < 1000" using r(1) b s1(1) img_okD(1) [OF ok] by (auto simp: rsect_def split: if_splits)
  obtain ty1 where ty1: "img_ok ty1 s1" "extends ty ty1" "typed_addrs ty1 i (di_addrs din1)" "ib \<noteq> 0" "ty1 (unat ib) = Some (Ind i)"
      "\<And>j. j < 140 \<Longrightarrow> fblk (di_addrs din1) s1 j = fblk (di_addrs din) s j"
    using fill_field [OF ok t _ e1] ib by (auto simp: ib_def slot_def)
  have A1: "append_ok ty i s ty1 din din1 s1"
    unfolding append_ok_def meta_same_def others_same_def using ty1(1-3) s1 by simp
  note rs = owned_sect(2) [OF ty1(1,5)]
  have l512: "length (img s1 ! unat ib) = 512" using img_okD(2) [OF ty1(1) owned_block(2) [OF ty1(1,5)]] .
  show ?thesis
  proof (cases "get32 (4 * k) (img s1 ! unat ib) = 0")
    case True
    let ?s2 = "s1\<lparr>freeblock := freeblock s1 + 1\<rparr>"
    let ?ind = "put32 (4 * k) (freeblock s1) (img s1 ! unat ib)"
    have e: "x = get32 (4 * k) ?ind" "din' = din1" "s' = wsect ib ?ind ?s2"
      using r(1) b rs True by (auto simp: Let_def)
    have x: "x = freeblock s1" using e(1) l512 k by (simp add: get32_put32)
    obtain ty2 where ty2: "img_ok ty2 ?s2" "extends ty1 ty2" "ty2 (unat x) = Some (Data i (12 + k))" "x \<noteq> 0"
        "img ?s2 ! unat x = replicate 512 0"
      using take_block [OF ty1(1), of "Data i (12 + k)"] r(2) x by auto
    have ib2: "ty2 (unat ib) = Some (Ind i)" using ty2(2) ty1(5) by (auto simp: extends_def)
    have t2: "typed_addrs ty2 i (di_addrs din1)" by (rule extends_typed_addrs [OF ty2(2) ty1(3)])
    have ok': "img_ok ty2 s'" using write_indirect [OF ty2(1) ib2 _ k(1), of "freeblock s1"] ty2(3) e(3) x by (simp add: typed_def)
    have s': "s' = ?s2\<lparr>img := (img ?s2)[unat ib := ?ind]\<rparr>" unfolding e(3) owned_sect(1) [OF ty2(1) ib2] by simp
    have P: "fblk (di_addrs din1) s' j = fblk (di_addrs din1) ?s2 j" "baddr (di_addrs din1) s' (12 + k) = x" if "j < 140" for j
      using fblk_put [OF ty2(1) t2 k(1) that _ _ ty2(3,5)] True ty1(4) s' x by (simp_all add: ib_def)
    have "others_same ty1 i s1 s'"
      unfolding others_same_def
    proof (intro allI impI, elim conjE)
      fix i' as j assume o: "i' \<noteq> i" "typed_addrs ty1 i' as" "j < (140 :: nat)"
      show "fblk as s' j = fblk as s1 j \<and> baddr as s' j = baddr as s1 j"
        unfolding s' using fblk_write_other [OF ty2(1) extends_typed_addrs [OF ty2(2) o(2)] o(3), of "unat ib"] ib2 o(1) by simp
    qed
    moreover have "meta_same s1 s'"
      unfolding meta_same_def s' using owned_nth [OF ty2(1) ib2] by simp
    ultimately have "append_ok ty1 i s1 ty2 din1 din' s'"
      unfolding append_ok_def using ok' ty2(2) t2 e(2) by simp
    then have "append_ok ty i s ty2 din din' s'" by (rule append_ok_trans [OF A1])
    then show ?thesis using ty2(3,4) P [of 0] P ty1(6) e(2) k(2) by auto
  next
    case False
    then have e: "x = get32 (4 * k) (img s1 ! unat ib)" "din' = din1" "s' = s1" using r(1) b rs by auto
    then have "ty1 (unat x) = Some (Data i (12 + k))" "baddr (di_addrs din') s' (12 + k) = x"
      using False img_okD(10) [OF ty1(1) ty1(5) k(1)] ty1(4) by (auto simp: typed_def baddr_def ib_def)
    then show ?thesis using A1 ty1(6) e False k(2) by auto
  qed
qed


text \<open>The bytes of a file, block after block.\<close>

definition flat :: "u32 list \<Rightarrow> mk \<Rightarrow> u8 list" where
  "flat as s = concat (map (fblk as s) [0..<MAXFILE])"

lemma length_blocks: "(\<And>j. j < n \<Longrightarrow> length (f j) = B) \<Longrightarrow> length (concat (map f [0..<n])) = n * B"
  by (induction n) simp_all

lemma splice_blocks:
  assumes f: "\<And>j. j < n \<Longrightarrow> length (f j) = B" and g: "\<And>j. j < n \<Longrightarrow> j \<noteq> k \<Longrightarrow> g j = f j"
    and gk: "g k = splice o2 q (f k)" and k: "k < n" "o2 + length q \<le> B"
  shows "concat (map g [0..<n]) = splice (k * B + o2) q (concat (map f [0..<n]))"
proof -
  have s: "[0..<n] = [0..<k] @ k # [Suc k..<n]" using k(1) by (metis append_Cons append_Nil le0 less_imp_le_nat upt_add_eq_append upt_conv_Cons le_add_diff_inverse)
  have l: "length (concat (map f [0..<k])) = k * B" using f k by (intro length_blocks) simp
  have "concat (map g [0..<k]) = concat (map f [0..<k])" "concat (map g [Suc k..<n]) = concat (map f [Suc k..<n])"
    using g k by (auto intro!: arg_cong [of _ _ concat])
  then show ?thesis using l gk k f [of k] unfolding s by (simp add: splice_def)
qed

lemma splice_splice: "off + length p \<le> length d \<Longrightarrow> n \<le> length p
    \<Longrightarrow> splice (off + n) (drop n p) (splice off (take n p) d) = splice off p d"
  by (simp add: splice_def add.commute)

lemma length_flat: "img_ok ty s \<Longrightarrow> typed_addrs ty i as \<Longrightarrow> length (flat as s) = 71680"
  using length_blocks [of 140 "fblk as s" 512] by (simp add: flat_def length_fblk)

lemma flat_same: "(\<And>j. j < 140 \<Longrightarrow> fblk as s j = fblk as' s' j) \<Longrightarrow> flat as s = flat as' s'"
  unfolding flat_def by (rule arg_cong [of _ _ concat], rule map_cong [OF refl]) simp

lemma flat_write:
  assumes ok: "img_ok ty s" and t: "typed_addrs ty i as" and k: "k < MAXFILE" and x: "x = baddr as s k" "x \<noteq> 0"
    and q: "o2 + length q \<le> BSIZE"
  defines "s' \<equiv> wsect x (splice o2 q (img s ! unat x)) s"
  shows "img_ok ty s'" "meta_same s s'" "others_same ty i s s'" "flat as s' = splice (k * BSIZE + o2) q (flat as s)"
proof -
  have xt: "ty (unat x) = Some (Data i k)" using baddr_typed [OF ok t k] x by (simp add: typed_def)
  have l: "length (img s ! unat x) = 512" using img_okD(2) [OF ok owned_block(2) [OF ok xt]] .
  show "img_ok ty s'" unfolding s'_def using q l by (intro write_data [OF ok xt]) (simp add: length_splice)
  have s': "s' = s\<lparr>img := (img s)[unat x := splice o2 q (img s ! unat x)]\<rparr>" unfolding s'_def owned_sect(1) [OF ok xt] ..
  show "meta_same s s'" unfolding meta_same_def s' using owned_nth [OF ok xt] by simp
  show "others_same ty i s s'"
    unfolding others_same_def s' using fblk_write_other [OF ok _ _ , of _ _ _ "unat x"] xt by auto
  have "fblk as s' j = fblk as s j" if "j < 140" "j \<noteq> k" for j
    unfolding s' using fblk_write_other [OF ok t that(1), of "unat x"] xt that(2) by auto
  moreover have "fblk as s' k = splice o2 q (fblk as s k)"
  proof -
    have "baddr as s' k = x"
    proof -
      have "typed ty (Ind i) (as ! 12)" using t by (auto simp: typed_addrs_def slot_def dest: spec [of _ 12])
      then have "as ! 12 \<noteq> 0 \<Longrightarrow> unat x \<noteq> unat (as ! 12)" using xt by (auto simp: typed_def)
      then have "baddr as s' k = baddr as s k" by (simp add: baddr_def s')
      then show ?thesis using x(1) by simp
    qed
    then show ?thesis using x owned_nth(1) [OF ok xt] by (simp add: fblk_def s')
  qed
  ultimately show "flat as s' = splice (k * BSIZE + o2) q (flat as s)"
    unfolding flat_def using k q length_fblk [OF ok t] by (intro splice_blocks) auto
qed


text \<open>The loop of \<^verbatim>\<open>iappend\<close> writes the bytes at \<open>off\<close>.\<close>

lemma iappend_block_ok:
  assumes "img_ok ty s" "typed_addrs ty i (di_addrs din)" "fbn < MAXFILE" "iappend_block fbn din s = Inr (x, din', s')" "sect_no x < 1000"
  shows "\<exists>ty'. append_ok ty i s ty' din din' s' \<and> ty' (unat x) = Some (Data i (unat fbn)) \<and> x \<noteq> 0
    \<and> baddr (di_addrs din') s' (unat fbn) = x \<and> (\<forall>j < 140. fblk (di_addrs din') s' j = fblk (di_addrs din) s j)"
  using iappend_direct [OF assms(1,2) _ assms(4,5)] iappend_indirect [OF assms(1,2) _ assms(3-5)] by blast

lemma length_iappend_block:
  assumes "length (img s) = 1000" "iappend_block fbn din s = Inr (x, din', s')"
  shows "length (img s') = 1000"
  using assms by (auto simp: iappend_block_def Let_def rsect_def wsect_def split: if_splits)

lemma iappend_turn:
  assumes ok: "img_ok ty s" and t: "typed_addrs ty i (di_addrs din)" and f: "off div BSIZE < MAXFILE"
    and b: "iappend_block (off div BSIZE) din s = Inr (x, din1, s1)" "rsect x s1 = Inr buf" and p: "p \<noteq> []"
  defines "n1 \<equiv> iappend_n1 off p"
  defines "s2 \<equiv> wsect x (splice (unat off mod BSIZE) (take n1 p) buf) s1"
  shows "\<exists>ty'. append_ok ty i s ty' din din1 s2 \<and> unat (off + of_nat n1) = unat off + n1 \<and> unat off + n1 \<le> 71680
    \<and> flat (di_addrs din1) s2 = splice (unat off) (take n1 p) (flat (di_addrs din) s)"
proof -
  let ?k = "unat (off div 512)"
  have k: "?k < 140" "?k = unat off div 512" using f by (simp_all add: word_less_nat_alt unat_div_distrib)
  have n1: "n1 \<le> length p" "unat off mod 512 + n1 \<le> 512" by (auto simp: n1_def iappend_n1_def)
  have le: "unat off + n1 \<le> 71680" using n1(2) k mult_div_mod_eq [of 512 "unat off"] by linarith
  then have u: "unat (off + of_nat n1) = unat off + n1" by (simp add: unat_word_ariths unat_of_nat)
  have xs: "sect_no x < 1000"
    using length_iappend_block [OF img_okD(1) [OF ok] b(1)] b(2) by (simp add: rsect_def split: if_splits)
  obtain ty1 where ty1: "append_ok ty i s ty1 din din1 s1" "ty1 (unat x) = Some (Data i ?k)" "x \<noteq> 0"
      "baddr (di_addrs din1) s1 ?k = x" "\<And>j. j < 140 \<Longrightarrow> fblk (di_addrs din1) s1 j = fblk (di_addrs din) s j"
    using iappend_block_ok [OF ok t f b(1) xs] by blast
  have ok1: "img_ok ty1 s1" "typed_addrs ty1 i (di_addrs din1)" using ty1(1) by (simp_all add: append_ok_def)
  have bu: "buf = img s1 ! unat x" using b(2) owned_sect(2) [OF ok1(1) ty1(2)] by simp
  note W = flat_write [OF ok1 k(1) ty1(4) [symmetric] ty1(3), of "unat off mod 512" "take n1 p", folded bu, folded s2_def]
  have "append_ok ty1 i s1 ty1 din1 din1 s2" using W(1-3) n1 ok1(2) by (simp add: append_ok_def)
  then have "append_ok ty i s ty1 din din1 s2" by (rule append_ok_trans [OF ty1(1)])
  moreover have "flat (di_addrs din1) s2 = splice (unat off) (take n1 p) (flat (di_addrs din) s)"
    using W(4) n1 k(2) flat_same [OF ty1(5)] by simp
  ultimately show ?thesis using le u by blast
qed

lemma iappend_loop_ok:
  assumes "img_ok ty s" "typed_addrs ty i (di_addrs din)" "iappend_loop din off p s = Inr (din', off', s')" "unat off \<le> 71680"
  shows "\<exists>ty'. append_ok ty i s ty' din din' s' \<and> unat off' = unat off + length p \<and> unat off' \<le> 71680
    \<and> flat (di_addrs din') s' = splice (unat off) p (flat (di_addrs din) s)"
  using assms
proof (induction din off p s arbitrary: ty rule: iappend_loop.induct)
  case (1 din off p s)
  show ?case
  proof (cases "p = []")
    case True
    then have "din' = din" "off' = off" "s' = s" using "1.prems"(3) by (simp_all add: iappend_loop.simps)
    then show ?thesis using True "1.prems" by (auto simp: append_ok_def meta_same_def others_same_def splice_def intro!: exI [of _ ty])
  next
    case False
    let ?n = "iappend_n1 off p"
    have f: "off div 512 < 140" using "1.prems"(3) False by (subst (asm) iappend_loop.simps) (auto simp: Let_def split: if_splits)
    obtain x din1 s1 buf where b: "iappend_block (off div 512) din s = Inr (x, din1, s1)" "rsect x s1 = Inr buf"
      "iappend_loop din1 (off + of_nat ?n) (drop ?n p) (wsect x (splice (unat off mod 512) (take ?n p) buf) s1) = Inr (din', off', s')"
      using "1.prems"(3) False f
      by (subst (asm) iappend_loop.simps) (auto simp: Let_def rbind_def split: sum.splits)
    let ?s2 = "wsect x (splice (unat off mod 512) (take ?n p) buf) s1"
    obtain ty1 where A: "append_ok ty i s ty1 din din1 ?s2" "unat (off + of_nat ?n) = unat off + ?n" "unat off + ?n \<le> 71680"
      "flat (di_addrs din1) ?s2 = splice (unat off) (take ?n p) (flat (di_addrs din) s)"
      using iappend_turn [OF "1.prems"(1,2) f b(1,2) False] by blast
    have A': "img_ok ty1 ?s2" "typed_addrs ty1 i (di_addrs din1)" using A(1) by (simp_all add: append_ok_def)
    obtain ty2 where B: "append_ok ty1 i ?s2 ty2 din1 din' s'" "unat off' = unat off + ?n + length (drop ?n p)" "unat off' \<le> 71680"
      "flat (di_addrs din') s' = splice (unat off + ?n) (drop ?n p) (flat (di_addrs din1) ?s2)"
      using "1.IH" [OF False refl _ b(1) refl refl refl b(2) refl A' b(3)] f A(2,3) by auto
    have n: "?n \<le> length p" by (simp add: iappend_n1_def)
    then have "flat (di_addrs din') s' = splice (unat off) p (flat (di_addrs din) s)"
      using B(2-4) A(4) length_flat [OF "1.prems"(1,2)] by (simp add: splice_splice)
    then show ?thesis using append_ok_trans [OF A(1) B(1)] B(2,3) n by auto
  qed
qed


section \<open>Inodes\<close>

definition inode_at :: "mk \<Rightarrow> nat \<Rightarrow> dinode" where
  "inode_at s i = get_dinode (i mod IPB) (img s ! (32 + i div IPB))"

lemma IBLOCK_mksb:
  assumes "unat inum < 208"
  shows "unat (IBLOCK inum mksb) = 32 + unat inum div 8" "sect_no (IBLOCK inum mksb) = 32 + unat inum div 8"
proof -
  show u: "unat (IBLOCK inum mksb) = 32 + unat inum div 8"
    using assms by (simp add: IBLOCK_def layout unat_word_ariths unat_div_distrib)
  show "sect_no (IBLOCK inum mksb) = 32 + unat inum div 8" unfolding u [symmetric] by (rule sect_no_small) (use u assms in simp)
qed

lemma rinode_ok:
  assumes "img_ok ty s" "unat inum < 208"
  shows "rinode inum s = Inr (inode_at s (unat inum))"
  using assms(2) img_okD(1) [OF assms(1)]
  by (simp add: rinode_def rsect_small IBLOCK_mksb inode_at_def unat_mod_distrib)

lemma inode_typed: "img_ok ty s \<Longrightarrow> i < 208 \<Longrightarrow> typed_addrs ty i (di_addrs (inode_at s i))"
  using img_okD(9) [of ty s "32 + i div 8" "i mod 8"] by (simp add: inode_at_def)

lemma winode_ok:
  assumes ok: "img_ok ty s" and i: "unat inum < 208" and t: "typed_addrs ty (unat inum) (di_addrs di)"
  shows "\<exists>s'. winode inum di s = Inr s' \<and> img_ok ty s' \<and> freeinode s' = freeinode s \<and> freeblock s' = freeblock s
    \<and> (\<forall>j < 208. inode_at s' j = (if j = unat inum then di else inode_at s j))
    \<and> (\<forall>j as. typed_addrs ty j as \<longrightarrow> flat as s' = flat as s \<and> (\<forall>k < 140. baddr as s' k = baddr as s k))"
proof -
  let ?i = "unat inum"
  let ?b = "32 + ?i div 8"
  let ?v = "put_dinode (?i mod 8) di (img s ! ?b)"
  define s' where "s' = s\<lparr>img := (img s)[?b := ?v]\<rparr>"
  note D = img_okD [OF ok]
  have b: "?b < 58" using i by simp
  have l: "length (img s ! ?b) = 512" using D(2) b by simp
  have a: "length (di_addrs di) = 13" using t by (simp add: typed_addrs_def)
  have w: "winode inum di s = Inr s'"
    using i D(1) b by (simp add: winode_def rsect_small wsect_small IBLOCK_mksb unat_mod_distrib s'_def)
  have nth: "img s' ! c = (if c = ?b then ?v else img s ! c)" for c using b D(1) by (simp add: s'_def nth_list_update)
  have g: "get_dinode j ?v = (if j = ?i mod 8 then di else get_dinode j (img s ! ?b))" if "j < 8" for j
    using get_put_dinode [OF _ l] get_put_dinode_other [OF _ l] a that by auto
  have I: "inode_at s' j = (if j = ?i then di else inode_at s j)" if "j < 208" for j
  proof -
    have "j div 8 = ?i div 8 \<Longrightarrow> j mod 8 = ?i mod 8 \<Longrightarrow> j = ?i" by (metis mult_div_mod_eq)
    then show ?thesis using g [of "j mod 8"] by (auto simp: inode_at_def nth)
  qed
  have "typed_addrs ty (8 * (c - 32) + j) (di_addrs (get_dinode j (img s' ! c)))" if "32 \<le> c" "c < 58" "j < 8" for c j
    using I [of "8 * (c - 32) + j"] D(9) [OF that] t that by (auto simp: inode_at_def split: if_splits)
  moreover have "ty ?b = None" using D(5) [of ?b] b by (cases "ty ?b") auto
  ultimately have "img_ok ty s'"
    unfolding img_ok_def using D length_put_dinode [OF _ l, of di "?i mod 8"] a b
    by (auto simp: nth) (auto simp: s'_def)
  moreover have "flat as s' = flat as s \<and> (\<forall>k < 140. baddr as s' k = baddr as s k)" if "typed_addrs ty j as" for j as
    unfolding s'_def using fblk_write_other [OF ok that, of _ ?b] b by (auto intro!: flat_same)
  ultimately show ?thesis using w I by (auto simp: s'_def)
qed


section \<open>The files of the image\<close>

text \<open>What an inode says: its type, its link count and its bytes.\<close>

definition file_at :: "mk \<Rightarrow> nat \<Rightarrow> u16 \<times> u16 \<times> u8 list" where
  "file_at s i = (let di = inode_at s i in
     (di_type di, di_nlink di, take (unat (di_size di)) (flat (di_addrs di) s)))"

text \<open>No file is longer than \<^verbatim>\<open>MAXFILE\<close> blocks, and the bytes after its end are zero.\<close>

definition file_ok :: "mk \<Rightarrow> nat \<Rightarrow> bool" where
  "file_ok s i \<longleftrightarrow> (let di = inode_at s i in
     unat (di_size di) \<le> MAXFILE * BSIZE \<and> set (drop (unat (di_size di)) (flat (di_addrs di) s)) \<subseteq> {0})"

definition mk_ok :: "mk \<Rightarrow> bool" where
  "mk_ok s \<longleftrightarrow> (\<exists>ty. img_ok ty s) \<and> (\<forall>i < 208. file_ok s i)"

lemma inode_eq:
  assumes "inode_at s' i = inode_at s i" "flat (di_addrs (inode_at s i)) s' = flat (di_addrs (inode_at s i)) s"
  shows "file_at s' i = file_at s i" "file_ok s' i = file_ok s i"
  using assms by (simp_all add: file_at_def file_ok_def Let_def)

lemma iappend_ok:
  assumes ok: "mk_ok s" and i: "unat inum < 208" and r: "iappend inum p s = Inr s'"
    and f: "file_at s (unat inum) = (t, n, bs)"
  shows "mk_ok s'" "file_at s' (unat inum) = (t, n, bs @ p)" "freeinode s' = freeinode s"
    "\<And>j. j < 208 \<Longrightarrow> j \<noteq> unat inum \<Longrightarrow> file_at s' j = file_at s j"
proof -
  let ?i = "unat inum"
  let ?d = "inode_at s ?i"
  obtain ty where ty: "img_ok ty s" and fo: "\<And>j. j < 208 \<Longrightarrow> file_ok s j" using ok by (auto simp: mk_ok_def)
  have sz: "unat (di_size ?d) \<le> 71680" and zt: "set (drop (unat (di_size ?d)) (flat (di_addrs ?d) s)) \<subseteq> {0}"
    using fo [OF i] by (simp_all add: file_ok_def Let_def)
  note T = inode_typed [OF ty i]
  obtain din off s1 where l: "iappend_loop ?d (di_size ?d) p s = Inr (din, off, s1)" "winode inum (din\<lparr>di_size := off\<rparr>) s1 = Inr s'"
    using r by (auto simp: iappend_def rinode_ok [OF ty i] rbind_def split: sum.splits)
  obtain ty' where L: "append_ok ty ?i s ty' ?d din s1" "unat off = unat (di_size ?d) + length p" "unat off \<le> 71680"
     "flat (di_addrs din) s1 = splice (unat (di_size ?d)) p (flat (di_addrs ?d) s)"
    using iappend_loop_ok [OF ty T l(1) sz] by blast
  have A: "img_ok ty' s1" "typed_addrs ty' ?i (di_addrs din)" "extends ty ty'" "meta_same s s1" "others_same ty ?i s s1"
    and dd: "din\<lparr>di_addrs := []\<rparr> = ?d\<lparr>di_addrs := []\<rparr>" using L(1) by (simp_all add: append_ok_def)
  have dt: "di_type din = di_type ?d" "di_nlink din = di_nlink ?d"
    using arg_cong [OF dd, of di_type] arg_cong [OF dd, of di_nlink] by simp_all
  have W: "img_ok ty' s'" "freeinode s' = freeinode s1"
      "\<And>j. j < 208 \<Longrightarrow> inode_at s' j = (if j = ?i then din\<lparr>di_size := off\<rparr> else inode_at s1 j)"
      "\<And>j as. typed_addrs ty' j as \<Longrightarrow> flat as s' = flat as s1"
    using winode_ok [OF A(1) i, of "din\<lparr>di_size := off\<rparr>"] A(2) l(2) by auto
  show "freeinode s' = freeinode s" using W(2) A(4) by (simp add: meta_same_def)
  have o: "file_at s' j = file_at s j \<and> file_ok s' j = file_ok s j" if j: "j < 208" "j \<noteq> ?i" for j
  proof -
    have e: "inode_at s' j = inode_at s j" using W(3) [OF j(1)] j A(4) by (simp add: inode_at_def meta_same_def)
    have Tj: "typed_addrs ty j (di_addrs (inode_at s j))" by (rule inode_typed [OF ty j(1)])
    have "flat (di_addrs (inode_at s j)) s' = flat (di_addrs (inode_at s j)) s"
      unfolding W(4) [OF extends_typed_addrs [OF A(3) Tj]] using A(5) Tj j(2)
      by (intro flat_same) (auto simp: others_same_def)
    then show ?thesis using inode_eq [OF e] by blast
  qed
  then show "\<And>j. j < 208 \<Longrightarrow> j \<noteq> unat inum \<Longrightarrow> file_at s' j = file_at s j" by blast
  have F: "flat (di_addrs din) s' = splice (unat (di_size ?d)) p (flat (di_addrs ?d) s)" using W(4) [OF A(2)] L(4) by simp
  have lf: "length (flat (di_addrs ?d) s) = 71680" by (rule length_flat [OF ty T])
  show "file_at s' ?i = (t, n, bs @ p)"
    using f W(3) [OF i] dt F L(2) sz lf by (auto simp: file_at_def Let_def splice_def)
  have "file_ok s' ?i"
    using W(3) [OF i] F L(2,3) sz lf zt set_drop_subset [of "length p" "drop (unat (di_size ?d)) (flat (di_addrs ?d) s)"]
    by (auto simp: file_ok_def Let_def splice_def add.commute)
  then show "mk_ok s'" unfolding mk_ok_def using W(1) o fo by blast
qed


lemma zero_fblk: "k < MAXFILE \<Longrightarrow> fblk (replicate (NDIRECT + 1) 0) s k = replicate BSIZE 0"
  by (simp add: fblk_def baddr_def nth_append)

lemma ialloc_ok:
  assumes ok: "mk_ok s" and i: "unat (freeinode s) < 208"
  shows "\<exists>s'. mk_ialloc t s = Inr (freeinode s, s') \<and> mk_ok s' \<and> freeinode s' = freeinode s + 1 \<and> freeblock s' = freeblock s
    \<and> file_at s' (unat (freeinode s)) = (t, 1, []) \<and> (\<forall>j < 208. j \<noteq> unat (freeinode s) \<longrightarrow> file_at s' j = file_at s j)"
proof -
  let ?i = "unat (freeinode s)"
  let ?s = "s\<lparr>freeinode := freeinode s + 1\<rparr>"
  let ?d = "zero_dinode\<lparr>di_type := t, di_nlink := 1, di_size := 0\<rparr>"
  obtain ty where ty: "img_ok ty s" and fo: "\<And>j. j < 208 \<Longrightarrow> file_ok s j" using ok by (auto simp: mk_ok_def)
  have ty0: "img_ok ty ?s" using ty by (simp add: img_ok_def)
  have fl: "flat as ?s = flat as s" for as by (intro flat_same) (simp add: fblk_def baddr_def)
  have T: "typed_addrs ty ?i (di_addrs ?d)" by (auto simp: typed_addrs_def zero_dinode_def typed_def nth_append)
  obtain s' where W: "winode (freeinode s) ?d ?s = Inr s'" "img_ok ty s'" "freeinode s' = freeinode ?s" "freeblock s' = freeblock ?s"
      "\<And>j. j < 208 \<Longrightarrow> inode_at s' j = (if j = ?i then ?d else inode_at ?s j)"
      "\<And>j as. typed_addrs ty j as \<Longrightarrow> flat as s' = flat as ?s"
    using winode_ok [OF ty0 i T] by blast
  have r: "mk_ialloc t s = Inr (freeinode s, s')" using W(1) by (simp add: mk_ialloc_def Let_def)
  have o: "file_at s' j = file_at s j \<and> file_ok s' j = file_ok s j" if j: "j < 208" "j \<noteq> ?i" for j
  proof -
    have e: "inode_at s' j = inode_at s j" using W(5) [OF j(1)] j by (simp add: inode_at_def)
    have "flat (di_addrs (inode_at s j)) s' = flat (di_addrs (inode_at s j)) s"
      unfolding W(6) [OF inode_typed [OF ty j(1)]] by (rule fl)
    then show ?thesis using inode_eq [OF e] by blast
  qed
  have n: "file_at s' ?i = (t, 1, [])" using W(5) [OF i] by (simp add: file_at_def zero_dinode_def)
  have "flat (di_addrs ?d) s' = concat (map (\<lambda>k. replicate 512 0) [0..<140])"
    unfolding flat_def using zero_fblk [of _ s'] by (intro arg_cong [of _ _ concat] map_cong) (auto simp: zero_dinode_def)
  then have "file_ok s' ?i" using W(5) [OF i] by (auto simp: file_ok_def Let_def zero_dinode_def simp del: upt_rec_numeral)
  then have "mk_ok s'" unfolding mk_ok_def using W(2) o fo by blast
  then show ?thesis using r W(3,4) n o by auto
qed

lemma append_reads_ok:
  assumes "mk_ok s" "unat inum < 208" "append_reads inum rs s = Inr s'" "file_at s (unat inum) = (t, n, bs)"
  shows "mk_ok s' \<and> file_at s' (unat inum) = (t, n, bs @ concat rs) \<and> freeinode s' = freeinode s
    \<and> (\<forall>j < 208. j \<noteq> unat inum \<longrightarrow> file_at s' j = file_at s j)"
  using assms
proof (induction rs arbitrary: s bs)
  case (Cons p rs)
  obtain s1 where a: "iappend inum p s = Inr s1" "append_reads inum rs s1 = Inr s'"
    using Cons.prems(3) by (auto simp: rbind_def split: sum.splits)
  note I = iappend_ok [OF Cons.prems(1,2) a(1) Cons.prems(4)]
  show ?case using Cons.IH [OF I(1) Cons.prems(2) a(2) I(2)] I(3,4) by simp
qed auto

text \<open>The directory entries of the files on the command line.\<close>

definition strip :: "u8 list \<Rightarrow> u8 list" where
  "strip nm = (if nm \<noteq> [] \<and> hd nm = 95 then tl nm else nm)"

fun dirents :: "nat \<Rightarrow> (u8 list \<times> u8 list list) list \<Rightarrow> u8 list" where
  "dirents n [] = []"
| "dirents n (f # fs) = mk_entry (of_nat n) (strip (fst f)) @ dirents (Suc n) fs"

lemma add_files_ok:
  assumes "mk_ok s" "2 \<le> unat (freeinode s)" "unat (freeinode s) + length files \<le> 208" "add_files files 1 s = Inr s'"
    "file_at s 1 = (t, n, bs)"
  shows "mk_ok s' \<and> file_at s' 1 = (t, n, bs @ dirents (unat (freeinode s)) files)
    \<and> (\<forall>k < length files. file_at s' (unat (freeinode s) + k) = (T_FILE, 1, concat (snd (files ! k))))
    \<and> (\<forall>j < 208. j \<noteq> 1 \<and> j < unat (freeinode s) \<longrightarrow> file_at s' j = file_at s j)"
  using assms
proof (induction files arbitrary: s bs)
  case (Cons f fs)
  let ?i = "unat (freeinode s)"
  have i: "?i < 208" "?i \<noteq> 1" using Cons.prems(2,3) by auto
  obtain s1 where s1: "mk_ialloc T_FILE s = Inr (freeinode s, s1)" "mk_ok s1" "freeinode s1 = freeinode s + 1"
      "file_at s1 ?i = (T_FILE, 1, [])" "\<And>j. j < 208 \<Longrightarrow> j \<noteq> ?i \<Longrightarrow> file_at s1 j = file_at s j"
    using ialloc_ok [OF Cons.prems(1) i(1), of T_FILE] by blast
  let ?e = "mk_entry (freeinode s) (strip (fst f))"
  obtain s2 s3 where r: "iappend 1 ?e s1 = Inr s2" "append_reads (freeinode s) (snd f) s2 = Inr s3" "add_files fs 1 s3 = Inr s'"
    using Cons.prems(4) s1(1) by (auto simp: Let_def strip_def rbind_def split: sum.splits if_splits)
  have f1: "file_at s1 (unat (1 :: u32)) = (t, n, bs)" using s1(5) [of 1] i Cons.prems(5) by simp
  note I = iappend_ok [OF s1(2) _ r(1) f1]
  have f2: "file_at s2 ?i = (T_FILE, 1, [])" using I(4) i s1(4) by simp
  note A = append_reads_ok [OF I(1) i(1) r(2) f2]
  have u: "unat (freeinode s3) = Suc ?i" using A I(3) s1(3) i(1) by (simp add: unat_word_ariths)
  have f3: "file_at s3 1 = (t, n, bs @ ?e)" using A I(2) i by simp
  note IH = Cons.IH [OF _ _ _ r(3) f3, unfolded u]
  have d: "dirents ?i (f # fs) = ?e @ dirents (Suc ?i) fs" by (simp add: unat_of_nat)
  have o: "file_at s3 j = file_at s j" if "j < 208" "j \<noteq> 1" "j \<noteq> ?i" for j
    using that A I(4) s1(5) by simp
  have H: "mk_ok s'" "file_at s' 1 = (t, n, (bs @ ?e) @ dirents (Suc ?i) fs)"
    "\<And>k. k < length fs \<Longrightarrow> file_at s' (Suc ?i + k) = (T_FILE, 1, concat (snd (fs ! k)))"
    "\<And>j. j < 208 \<Longrightarrow> j \<noteq> 1 \<Longrightarrow> j < Suc ?i \<Longrightarrow> file_at s' j = file_at s3 j"
    using IH A Cons.prems(2,3) by auto
  have "file_at s' (?i + k) = (T_FILE, 1, concat (snd ((f # fs) ! k)))" if "k < length (f # fs)" for k
  proof (cases k)
    case 0
    then show ?thesis using H(4) [of ?i] i A by simp
  next
    case (Suc m)
    then show ?thesis using H(3) [of m] that by simp
  qed
  then show ?case using H(1,2,4) o d by auto
qed auto


section \<open>The whole program\<close>

lemma mk_zero: "mk_zero = \<lparr>img = replicate 1000 (replicate 512 0), freeinode = 1, freeblock = 59\<rparr>"
proof -
  let ?s = "\<lparr>img = [], freeinode = 1, freeblock = nmeta\<rparr> :: mk"
  have "fold (\<lambda>i s. wsect (of_nat i) (replicate 512 0) s) [0..<n] ?s = ?s\<lparr>img := replicate n (replicate 512 0)\<rparr>" if "n \<le> 1000" for n
    using that
  proof (induction n)
    case (Suc n)
    have "sect_no (of_nat n) = n" using sect_no_small [of "of_nat n"] Suc.prems by (simp add: unat_of_nat)
    then show ?case using Suc by (simp add: wsect_def nth_append list_update_append replicate_append_same)
  qed simp
  from this [of 1000] show ?thesis by (simp add: mk_zero_def layout del: upt_rec_numeral)
qed

lemma zero_inode:
  assumes "j < IPB"
  shows "di_addrs (get_dinode j (replicate BSIZE 0)) = replicate (NDIRECT + 1) 0" "di_size (get_dinode j (replicate BSIZE 0)) = 0"
proof -
  have "map (\<lambda>k. get32 (64 * j + 12 + 4 * k) (replicate 512 0)) [0..<13] = map (\<lambda>k. 0) [0..<13]"
    using assms zero_words by (intro map_cong) auto
  then show "di_addrs (get_dinode j (replicate BSIZE 0)) = replicate (NDIRECT + 1) 0"
    by (simp add: get_dinode_def Let_def map_replicate_const del: upt_rec_numeral)
  show "di_size (get_dinode j (replicate BSIZE 0)) = 0"
    using assms zero_words [of "64 * j + 8"] by (simp add: get_dinode_def Let_def)
qed

definition mk_start :: mk where
  "mk_start = wsect 1 (splice 0 (bytes_of_superblock mksb) (replicate BSIZE 0)) mk_zero"

lemma mk_start:
  "mk_ok mk_start" "freeinode mk_start = 1" "freeblock mk_start = 59" "img_ok (\<lambda>_. None) mk_start"
proof -
  let ?sb = "splice 0 (bytes_of_superblock mksb) (replicate 512 0)"
  have s1: "sect_no 1 = 1" using sect_no_small [of 1] by simp
  have e: "mk_start = \<lparr>img = (replicate 1000 (replicate 512 0))[1 := ?sb], freeinode = 1, freeblock = 59\<rparr>"
    using wsect_small [of mk_zero 1 ?sb] s1 by (simp add: mk_start_def mk_zero)
  show "freeinode mk_start = 1" "freeblock mk_start = 59" by (simp_all add: e)
  have lb: "length ?sb = 512" by (simp add: splice_def bytes_of_superblock_def)
  have n: "img mk_start ! b = (if b = 1 then ?sb else replicate 512 0)" if "b < 1000" for b
    unfolding e using that by (auto simp: nth_list_update)
  have z: "typed_addrs (\<lambda>_. None) i (replicate 13 0)" for i by (simp add: typed_addrs_def typed_def)
  show ok: "img_ok (\<lambda>_. None) mk_start"
    unfolding img_ok_def using n lb zero_inode(1) z by (simp add: e)
  have "file_ok mk_start i" if "i < 208" for i
  proof -
    have d: "inode_at mk_start i = get_dinode (i mod 8) (replicate 512 0)" using that by (simp add: inode_at_def n)
    have "flat (replicate 13 0) mk_start = concat (map (\<lambda>k. replicate 512 0) [0..<140])"
      unfolding flat_def using zero_fblk [of _ mk_start] by (intro arg_cong [of _ _ concat] map_cong) auto
    then show ?thesis using zero_inode [of "i mod 8"] by (auto simp: file_ok_def d Let_def simp del: upt_rec_numeral)
  qed
  then show "mk_ok mk_start" using ok by (auto simp: mk_ok_def)
qed

lemma length_mk_entry [simp]: "length (mk_entry i nm) = 16"
  by (simp add: mk_entry_def)

lemma length_dirents: "length (dirents n fs) = 16 * length fs"
  by (induction n fs rule: dirents.induct) simp_all

text \<open>The root directory before its size is rounded up to whole blocks.\<close>

definition root_entries :: "(u8 list \<times> u8 list list) list \<Rightarrow> u8 list" where
  "root_entries files = mk_entry ROOTINO [46] @ mk_entry ROOTINO [46, 46] @ dirents 2 files"


lemma mkfs_steps:
  assumes "mkfs files = Inr s"
  shows "\<exists>s1 s2 s3 s4 s5. mk_ialloc T_DIR mk_start = Inr (1, s1) \<and> iappend 1 (mk_entry 1 [46]) s1 = Inr s2
    \<and> iappend 1 (mk_entry 1 [46, 46]) s2 = Inr s3 \<and> add_files files 1 s3 = Inr s4
    \<and> (\<exists>din. rinode 1 s4 = Inr din \<and> winode 1 (din\<lparr>di_size := (di_size din div 512 + 1) * 512\<rparr>) s4 = Inr s5)
    \<and> mk_balloc (int_of_u32 (freeblock s5)) s5 = Inr s"
  using assms by (auto simp: mkfs_def mk_start_def [symmetric] Let_def rbind_def split: sum.splits if_splits)

lemma mk_balloc_ok:
  assumes ok: "img_ok ty s" and r: "mk_balloc (int_of_u32 (freeblock s)) s = Inr s'"
  shows "s' = s\<lparr>img := (img s)[58 := fold mark_bit [0..<unat (freeblock s)] (replicate 512 0)]\<rparr>" "img_ok ty s'"
    "\<And>j. j < 208 \<Longrightarrow> file_at s' j = file_at s j"
proof -
  let ?b = "fold mark_bit [0..<unat (freeblock s)] (replicate 512 0)"
  note D = img_okD [OF ok]
  have n: "nat (int_of_u32 (freeblock s)) = unat (freeblock s)" using D(4) int_of_u32_small [of "freeblock s"] by simp
  have s58: "sect_no 58 = 58" using sect_no_small [of 58] by simp
  show s': "s' = s\<lparr>img := (img s)[58 := ?b]\<rparr>"
    using r D(1) by (auto simp: mk_balloc_def n layout wsect_small s58 split: if_splits)
  have nth: "img s' ! c = (if c = 58 then ?b else img s ! c)" for c unfolding s' using D(1) by (simp add: nth_list_update)
  have "ty 58 = None" using D(5) [of 58] by (cases "ty 58") auto
  then show "img_ok ty s'" unfolding img_ok_def using D by (auto simp: nth length_fold_mark) (auto simp: s')
  show "file_at s' j = file_at s j" if "j < 208" for j
  proof (rule inode_eq(1))
    show "inode_at s' j = inode_at s j" using that by (simp add: inode_at_def nth)
    show "flat (di_addrs (inode_at s j)) s' = flat (di_addrs (inode_at s j)) s"
      unfolding s' using fblk_write_other [OF ok inode_typed [OF ok that], of _ 58] by (intro flat_same) auto
  qed
qed

lemma round_up: "r < 512 \<Longrightarrow> q * 512 + r = l \<Longrightarrow> (q + 1) * 512 = l + (512 - r)" for l :: nat
  by arith

lemma round_root:
  assumes ok: "mk_ok s" and f: "file_at s 1 = (t, n, bs)" and l: "length bs < 71000"
    and w: "winode 1 ((inode_at s 1)\<lparr>di_size := (di_size (inode_at s 1) div 512 + 1) * 512\<rparr>) s = Inr s'"
  shows "\<exists>ty. img_ok ty s'" "file_at s' 1 = (t, n, bs @ replicate (512 - length bs mod 512) 0)"
    "\<And>j. j < 208 \<Longrightarrow> j \<noteq> 1 \<Longrightarrow> file_at s' j = file_at s j" "freeblock s' = freeblock s"
proof -
  let ?d = "inode_at s 1"
  let ?sz = "(di_size ?d div 512 + 1) * 512"
  obtain ty where ty: "img_ok ty s" using ok by (auto simp: mk_ok_def)
  have T: "typed_addrs ty 1 (di_addrs ?d)" by (rule inode_typed [OF ty]) simp
  have W: "img_ok ty s'" "freeblock s' = freeblock s"
      "\<And>j. j < 208 \<Longrightarrow> inode_at s' j = (if j = 1 then ?d\<lparr>di_size := ?sz\<rparr> else inode_at s j)"
      "\<And>j as. typed_addrs ty j as \<Longrightarrow> flat as s' = flat as s"
    using winode_ok [OF ty, of 1 "?d\<lparr>di_size := ?sz\<rparr>"] T w by auto
  then show "\<exists>ty. img_ok ty s'" "freeblock s' = freeblock s" by auto
  show "file_at s' j = file_at s j" if "j < 208" "j \<noteq> 1" for j
    using that W(3) [of j] W(4) [OF inode_typed [OF ty that(1)]] by (intro inode_eq) auto
  have lf: "length (flat (di_addrs ?d) s) = 71680" by (rule length_flat [OF ty T])
  have fo: "unat (di_size ?d) \<le> 71680" "set (drop (unat (di_size ?d)) (flat (di_addrs ?d) s)) \<subseteq> {0}"
    using ok by (auto simp: mk_ok_def file_ok_def Let_def)
  have bs: "bs = take (unat (di_size ?d)) (flat (di_addrs ?d) s)" and tn: "t = di_type ?d" "n = di_nlink ?d"
    using f by (auto simp: file_at_def Let_def)
  have sz: "unat (di_size ?d) = length bs" using fo lf bs by simp
  have u: "unat ?sz = length bs + (512 - length bs mod 512)"
  proof -
    have "unat (di_size ?d div 512 + 1) = length bs div 512 + 1" using l by (simp add: unat_word_ariths unat_div_distrib sz [unfolded One_nat_def])
    then have "unat ?sz = (length bs div 512 + 1) * 512" using l by (subst unat_word_ariths(2)) simp
    moreover have "(length bs div 512 + 1) * 512 = length bs + (512 - length bs mod 512)"
      by (rule round_up) simp_all
    ultimately show ?thesis by simp
  qed
  have "drop (length bs) (flat (di_addrs ?d) s) = replicate (71680 - length bs) 0"
    using fo(2) lf sz by (intro replicate_eqI) auto
  then have "take (unat ?sz) (flat (di_addrs ?d) s) = bs @ replicate (512 - length bs mod 512) 0"
    unfolding u take_add using bs sz l by (simp add: take_replicate min_def)
  then show "file_at s' 1 = (t, n, bs @ replicate (512 - length bs mod 512) 0)"
    using W(3) [of 1] W(4) [OF T] tn by (simp add: file_at_def Let_def)
qed


lemma mkfs_core:
  assumes r: "mkfs files = Inr s" and n: "length files \<le> 206"
  shows "\<exists>ty. img_ok ty s" "img s ! 58 = fold mark_bit [0..<unat (freeblock s)] (replicate 512 0)"
    "file_at s 1 = (T_DIR, 1, root_entries files @ replicate (512 - length (root_entries files) mod 512) 0)"
    "k < length files \<Longrightarrow> file_at s (2 + k) = (T_FILE, 1, concat (snd (files ! k)))"
proof -
  obtain s1 s2 s3 s4 s5 din where S: "mk_ialloc T_DIR mk_start = Inr (1, s1)" "iappend 1 (mk_entry 1 [46]) s1 = Inr s2"
    "iappend 1 (mk_entry 1 [46, 46]) s2 = Inr s3" "add_files files 1 s3 = Inr s4"
    "rinode 1 s4 = Inr din" "winode 1 (din\<lparr>di_size := (di_size din div 512 + 1) * 512\<rparr>) s4 = Inr s5"
    "mk_balloc (int_of_u32 (freeblock s5)) s5 = Inr s"
    using mkfs_steps [OF r] by blast
  let ?e = "root_entries files"
  have s1: "mk_ok s1" "freeinode s1 = 2" "file_at s1 (unat (1 :: u32)) = (T_DIR, 1, [])"
    using ialloc_ok [OF mk_start(1), of T_DIR] mk_start(2) S(1) by auto
  note I2 = iappend_ok [OF s1(1) _ S(2) s1(3)]
  note I3 = iappend_ok [OF I2(1) _ S(3) I2(2)]
  have u: "unat (freeinode s3) = 2" using I2(3) I3(3) s1(2) by simp
  have A: "mk_ok s4" "file_at s4 1 = (T_DIR, 1, ?e)" "k < length files \<Longrightarrow> file_at s4 (2 + k) = (T_FILE, 1, concat (snd (files ! k)))"
    using add_files_ok [OF I3(1) _ _ S(4), of T_DIR 1 "mk_entry 1 [46] @ mk_entry 1 [46, 46]"] u n I3(2)
    by (auto simp: root_entries_def)
  have din: "din = inode_at s4 1" using S(5) A(1) rinode_ok [of _ s4 1] by (auto simp: mk_ok_def)
  have l: "length ?e < 71000" using n by (simp add: root_entries_def length_dirents)
  note R = round_root [OF A(1,2) l S(6) [unfolded din]]
  obtain ty where ty: "img_ok ty s5" using R(1) by blast
  note B = mk_balloc_ok [OF ty S(7)]
  show "\<exists>ty. img_ok ty s" using B(2) by blast
  have "length (img s5) = 1000" using img_okD(1) [OF ty] .
  then show "img s ! 58 = fold mark_bit [0..<unat (freeblock s)] (replicate 512 0)" unfolding B(1) by simp
  show "file_at s 1 = (T_DIR, 1, ?e @ replicate (512 - length ?e mod 512) 0)" using B(3) [of 1] R(2) by simp
  show "file_at s (2 + k) = (T_FILE, 1, concat (snd (files ! k)))" if "k < length files"
    using B(3) [of "2 + k"] R(3) [of "2 + k"] A(3) that n by simp
qed

lemma mk_bitmap:
  assumes "n \<le> 1000" "b < 1000"
  shows "bit_set (fold mark_bit [0..<n] (replicate 512 0)) b \<longleftrightarrow> b < n"
proof -
  have "\<not> bit_set (replicate 512 0) b" using assms(2) by (simp add: bit_set_def)
  then show ?thesis using assms fold_mark_bit [of "[0..<n]" "replicate 512 0" b] by simp
qed

lemma mk_superblock: "get_superblock (splice 0 (bytes_of_superblock mksb) (replicate 512 0)) = mksb"
proof -
  have "get32 (4 * k) (splice 0 (bytes_of_superblock mksb) (replicate 512 0)) =
      [sb_size mksb, sb_nblocks mksb, sb_ninodes mksb, sb_nlog mksb, sb_logstart mksb, sb_inodestart mksb, sb_bmapstart mksb] ! k"
    (is "_ = ?ws ! k") if "k < 7" for k
  proof -
    have b: "bytes_of_superblock mksb = concat (map bytes_of_u32 ?ws)" by (simp only: bytes_of_superblock_def)
    have "slice (0 + 4 * k) 4 (splice 0 (concat (map bytes_of_u32 ?ws)) (replicate 512 0)) = bytes_of_u32 (?ws ! k)"
      using that slice_in_splice [of 0 "concat (map bytes_of_u32 ?ws)" "replicate 512 0" "4 * k" 4] slice_words [of k ?ws] length_words [of ?ws]
      by simp
    then show ?thesis unfolding b get32_def by simp
  qed
  from this [of 0] this [of 1] this [of 2] this [of 3] this [of 4] this [of 5] this [of 6]
  show ?thesis by (simp add: get_superblock_def)
qed

text \<open>What a kernel finds on an image.\<close>

lemma image_bitmap:
  fixes t :: "'a kern_scheme"
  assumes ok: "img_ok ty s" and b: "img s ! 58 = fold mark_bit [0..<unat (freeblock s)] (replicate 512 0)"
    and t: "\<And>b. b < 1000 \<Longrightarrow> blk t b = img s ! b" "disksize t = 1000" "sb t = mksb" "lg_start (klog t) = 2" "lg_size (klog t) = 30"
  shows "c < 1000 \<Longrightarrow> used t c \<longleftrightarrow> c < unat (freeblock s)" "bitmap_ok t" "formatted (klog t) (blk t)"
proof -
  note D = img_okD [OF ok]
  have bm: "bm_no t c = 58" if "c < 1000" for c using that t(3) by (simp add: bm_no_def layout)
  show u: "used t c \<longleftrightarrow> c < unat (freeblock s)" if "c < 1000" for c
    using that mk_bitmap [OF D(4) that] b t(1) by (simp add: used_def bm)
  show "bitmap_ok t" using t bm u D(3) by (auto simp: bitmap_ok_def layout in_log_def)
  have "blk t 1 = splice 0 (bytes_of_superblock mksb) (replicate 512 0)" "blk t 2 = replicate 512 0" using t(1) D(7) D(8) [of 2] by simp_all
  then show "formatted (klog t) (blk t)"
    using zero_words [of 0] t(4,5) mk_superblock by (simp add: formatted_def head_no_def layout)
qed

end
