(* ===== verification/MkfsRoom.thy ===== *)
theory MkfsRoom
  imports MkfsSpec
begin

text \<open>
  The blocks a file takes on the image, and that \<^verbatim>\<open>mkfs\<close> succeeds when the files fit.
\<close>

definition cost :: "nat \<Rightarrow> nat" where
  "cost n = (n + 511) div BSIZE + (if NDIRECT * BSIZE < n then 1 else 0)"

text \<open>Exactly the blocks below the end of the file are allocated.\<close>

definition full :: "u32 list \<Rightarrow> mk \<Rightarrow> nat \<Rightarrow> bool" where
  "full as s n \<longleftrightarrow> (\<forall>k < MAXFILE. baddr as s k \<noteq> 0 \<longleftrightarrow> k * BSIZE < n) \<and> (as ! NDIRECT \<noteq> 0 \<longleftrightarrow> NDIRECT * BSIZE < n)"

definition need :: "nat \<Rightarrow> nat" where
  "need off = (if off mod BSIZE \<noteq> 0 then 0 else if off div BSIZE = NDIRECT then 2 else 1)"

lemma block_bounds:
  "r < 512 \<Longrightarrow> r \<noteq> 0 \<Longrightarrow> m * 512 < q * 512 + r \<longleftrightarrow> m \<le> q" "m * 512 < q * 512 \<longleftrightarrow> m < q"
  "0 < n \<Longrightarrow> r + n \<le> 512 \<Longrightarrow> m * 512 < q * 512 + r + n \<longleftrightarrow> m \<le> q" for q r m n :: nat
  by (simp, linarith?)+

lemma before_end:
  fixes off :: nat
  shows "off mod 512 \<noteq> 0 \<Longrightarrow> m * 512 < off \<longleftrightarrow> m \<le> off div 512" "off mod 512 = 0 \<Longrightarrow> m * 512 < off \<longleftrightarrow> m < off div 512"
    "0 < n \<Longrightarrow> off mod 512 + n \<le> 512 \<Longrightarrow> m * 512 < off + n \<longleftrightarrow> m \<le> off div 512"
proof -
  have e: "off div 512 * 512 + off mod 512 = off" by simp
  show "off mod 512 \<noteq> 0 \<Longrightarrow> m * 512 < off \<longleftrightarrow> m \<le> off div 512" using block_bounds(1) [of "off mod 512" m "off div 512"] e by simp
  show "off mod 512 = 0 \<Longrightarrow> m * 512 < off \<longleftrightarrow> m < off div 512" using block_bounds(2) [of m "off div 512"] e by (metis add.right_neutral)
  show "0 < n \<Longrightarrow> off mod 512 + n \<le> 512 \<Longrightarrow> m * 512 < off + n \<longleftrightarrow> m \<le> off div 512"
    using block_bounds(3) [of n "off mod 512" m "off div 512"] e by simp
qed

lemma cost_eq: "r \<le> 512 \<Longrightarrow> 0 < r \<Longrightarrow> (q * 512 + r + 511) div 512 = q + 1" for q r :: nat
  using div_mult_self3 [of 512 q "r + 511"] by (simp add: add.assoc div_nat_eqI)

lemma cost_turn:
  assumes "0 < n" "off mod 512 + n \<le> 512"
  shows "cost (off + n) = cost off + need off"
proof -
  have a: "(off + n + 511) div 512 = off div 512 + 1"
    using cost_eq [of "off mod 512 + n" "off div 512"] assms by (simp add: div_mult_mod_eq add.assoc [symmetric])
  have b: "(off + 511) div 512 = off div 512 + (if off mod 512 = 0 then 0 else 1)"
  proof (cases "off mod 512 = 0")
    case True
    then have "off = off div 512 * 512" using div_mult_mod_eq [of off 512] by simp
    then show ?thesis using True div_mult_self3 [of 512 "off div 512" 511] by simp
  qed (use cost_eq [of "off mod 512" "off div 512"] div_mult_mod_eq [of off 512] in simp)
  have c: "6144 < off + n \<longleftrightarrow> 12 \<le> off div 512" using before_end(3) [OF assms, of 12] by simp
  have d: "6144 < off \<longleftrightarrow> (if off mod 512 = 0 then 12 < off div 512 else 12 \<le> off div 512)"
    using before_end(1,2) [of off 12] by simp
  show ?thesis by (auto simp: cost_def need_def a b c d)
qed

lemma full_turn:
  assumes "0 < n" "off mod 512 + n \<le> 512"
  shows "full as s (off + n) \<longleftrightarrow> (\<forall>m < 140. baddr as s m \<noteq> 0 \<longleftrightarrow> m \<le> off div 512) \<and> (as ! 12 \<noteq> 0 \<longleftrightarrow> 12 \<le> off div 512)"
  using before_end(3) [OF assms] before_end(3) [OF assms, of 12] by (simp add: full_def)


lemma free_block:
  assumes "img_ok ty s" "unat (freeblock s) < 1000"
  shows "sect_no (freeblock s) < 1000" "freeblock s \<noteq> 0" "unat (freeblock s + 1) = Suc (unat (freeblock s))"
    "img s ! unat (freeblock s) = replicate BSIZE 0"
  using assms sect_no_small [OF assms(2)] img_okD(3,6) [OF assms(1)] by (auto simp: unat_word_ariths)

lemma direct_room:
  assumes ok: "img_ok ty s" and t: "typed_addrs ty i (di_addrs din)" and fu: "full (di_addrs din) s (unat off)"
    and k: "unat off div 512 < 12" and room: "unat (freeblock s) + need (unat off) \<le> 1000"
  shows "\<exists>x din' s'. iappend_block (off div 512) din s = Inr (x, din', s') \<and> sect_no x < 1000
    \<and> unat (freeblock s') = unat (freeblock s) + need (unat off)
    \<and> (\<forall>m < 140. baddr (di_addrs din') s' m \<noteq> 0 \<longleftrightarrow> m \<le> unat off div 512) \<and> di_addrs din' ! 12 = 0"
proof -
  let ?k = "unat off div 512"
  have u: "unat (off div 512) = ?k" by (simp add: unat_div_distrib)
  have f: "off div 512 < 12" using k u by (simp add: word_less_nat_alt)
  have l: "length (di_addrs din) = 13" using t by (simp add: typed_addrs_def)
  have z: "di_addrs din ! 12 = 0" using fu k before_end [of "unat off" 12] by (auto simp: full_def)
  show ?thesis
  proof (cases "unat off mod 512 = 0")
    case True
    have b: "baddr (di_addrs din) s m \<noteq> 0 \<longleftrightarrow> m < ?k" if "m < 140" for m
      using fu before_end(2) [OF True, of m] that by (simp add: full_def)
    have a: "di_addrs din ! ?k = 0" using b [of ?k] k by (simp add: baddr_def)
    have fb: "unat (freeblock s) < 1000" using room True k by (simp add: need_def)
    note F = free_block [OF ok fb]
    let ?d = "din\<lparr>di_addrs := (di_addrs din)[?k := freeblock s]\<rparr>"
    have "iappend_block (off div 512) din s = Inr (freeblock s, ?d, s\<lparr>freeblock := freeblock s + 1\<rparr>)"
      using f a l k by (simp add: iappend_block_def u)
    moreover have "baddr (di_addrs ?d) s m \<noteq> 0 \<longleftrightarrow> m \<le> ?k" if "m < 140" for m
      using b [OF that] a z l F(2) k by (auto simp: baddr_def nth_list_update split: if_splits)
    ultimately show ?thesis using F True z k l by (auto simp: need_def)
  next
    case False
    have b: "baddr (di_addrs din) s m \<noteq> 0 \<longleftrightarrow> m \<le> ?k" if "m < 140" for m
      using fu before_end(1) [OF False, of m] that by (simp add: full_def)
    have a: "di_addrs din ! ?k \<noteq> 0" using b [of ?k] k by (simp add: baddr_def)
    have "typed ty (slot i ?k) (di_addrs din ! ?k)" using t k by (simp add: typed_addrs_def)
    then have "sect_no (di_addrs din ! ?k) < 1000" using a owned_block(2,4) [OF ok] by (auto simp: typed_def)
    moreover have "iappend_block (off div 512) din s = Inr (di_addrs din ! ?k, din, s)"
      using f a by (simp add: iappend_block_def u)
    ultimately show ?thesis using False b z by (auto simp: need_def)
  qed
qed


text \<open>The block numbers after the indirect block is there, and after an entry of it is set.\<close>

lemma baddr_indirect_block:
  assumes "length as = 13" "as ! 12 = 0" "img s ! unat v = replicate BSIZE 0" "m < MAXFILE"
  shows "baddr (as[12 := v]) s m = baddr as s m"
  using assms zero_words [of "4 * (m - 12)"] by (auto simp: baddr_def)

lemma baddr_put:
  assumes ok: "img_ok ty s" and ib: "ty (unat (as ! 12)) = Some (Ind i)" "as ! 12 \<noteq> 0" and k: "12 \<le> k" "k < MAXFILE" and m: "m < MAXFILE"
  shows "baddr as (wsect (as ! 12) (put32 (4 * (k - 12)) v (img s ! unat (as ! 12))) s) m = (if m = k then v else baddr as s m)"
proof -
  have l: "length (img s ! unat (as ! 12)) = 512" using img_okD(2) [OF ok] owned_block(2) [OF ok ib(1)] by blast
  have "get32 (4 * (m - 12)) (put32 (4 * (k - 12)) v (img s ! unat (as ! 12))) = get32 (4 * (m - 12)) (img s ! unat (as ! 12))"
    if "m \<noteq> k" "12 \<le> m" using that k m l by (intro get32_put32_other) auto
  moreover have "get32 (4 * (k - 12)) (put32 (4 * (k - 12)) v (img s ! unat (as ! 12))) = v" using k l by (intro get32_put32) auto
  ultimately show ?thesis unfolding owned_sect(1) [OF ok ib(1)] using ib(2) k(1) owned_nth(1) [OF ok ib(1)] by (auto simp: baddr_def)
qed

lemma indirect_room:
  assumes ok: "img_ok ty s" and t: "typed_addrs ty i (di_addrs din)" and fu: "full (di_addrs din) s (unat off)"
    and k: "12 \<le> unat off div 512" "unat off div 512 < 140" and room: "unat (freeblock s) + need (unat off) \<le> 1000"
  shows "\<exists>x din' s'. iappend_block (off div 512) din s = Inr (x, din', s') \<and> sect_no x < 1000
    \<and> unat (freeblock s') = unat (freeblock s) + need (unat off)
    \<and> (\<forall>m < 140. baddr (di_addrs din') s' m \<noteq> 0 \<longleftrightarrow> m \<le> unat off div 512) \<and> di_addrs din' ! 12 \<noteq> 0"
proof -
  let ?k = "unat off div 512"
  let ?as = "di_addrs din"
  have u: "unat (off div 512) = ?k" by (simp add: unat_div_distrib)
  have f: "\<not> off div 512 < 12" using k u by (simp add: word_less_nat_alt)
  have k12: "unat (off div 512 - 12) = ?k - 12" using f u by (simp add: unat_sub_if' not_less word_le_nat_alt)
  have l: "length ?as = 13" using t by (simp add: typed_addrs_def)
  obtain din1 s1 where e1: "(din1, s1) = (if ?as ! 12 = 0
      then (din\<lparr>di_addrs := ?as[12 := freeblock s]\<rparr>, s\<lparr>freeblock := freeblock s + 1\<rparr>) else (din, s))"
    by (metis surj_pair)
  let ?ib = "di_addrs din1 ! 12"
  have a12: "?as ! 12 = 0 \<longleftrightarrow> ?k = 12 \<and> unat off mod 512 = 0"
    using fu k before_end(1,2) [of "unat off" 12] by (auto simp: full_def)
  have fb: "unat (freeblock s) < 1000" if "?as ! 12 = 0" using that room a12 by (simp add: need_def)
  have ib: "sect_no ?ib < 1000"
  proof (cases "?as ! 12 = 0")
    case True
    then show ?thesis using e1 l free_block(1) [OF ok fb] by simp
  next
    case False
    have "typed ty (slot i 12) (?as ! 12)" using t by (simp add: typed_addrs_def)
    then show ?thesis using False e1 owned_block(2,4) [OF ok] by (auto simp: typed_def)
  qed
  obtain ty1 where ty1: "img_ok ty1 s1" "typed_addrs ty1 i (di_addrs din1)" "?ib \<noteq> 0" "ty1 (unat ?ib) = Some (Ind i)"
    using fill_field [OF ok t _ e1] ib by (auto simp: slot_def)
  have s1: "baddr (di_addrs din1) s1 m = baddr ?as s m" if "m < 140" for m
    using e1 baddr_indirect_block [OF l _ _ that] free_block(4) [OF ok fb] by (auto split: if_splits)
  have fb1: "unat (freeblock s1) = unat (freeblock s) + (if ?as ! 12 = 0 then 1 else 0)"
    using e1 free_block(3) [OF ok fb] by (auto split: if_splits)
  have g: "get32 (4 * (?k - 12)) (img s1 ! unat ?ib) = baddr ?as s ?k" using s1 [OF k(2)] ty1(3) k(1) by (simp add: baddr_def)
  note b = indirect_eq [OF f e1, unfolded k12 owned_sect(2) [OF ty1(1,4)] rbind_simps, unfolded Let_def, unfolded g]
  show ?thesis
  proof (cases "unat off mod 512 = 0")
    case True
    have z: "baddr ?as s m \<noteq> 0 \<longleftrightarrow> m < ?k" if "m < 140" for m
      using fu before_end(2) [OF True, of m] that by (simp add: full_def)
    have fb1': "unat (freeblock s1) < 1000" using fb1 room True a12 by (auto simp: need_def)
    note F = free_block [OF ty1(1) fb1']
    let ?s2 = "s1\<lparr>freeblock := freeblock s1 + 1\<rparr>"
    let ?ind = "put32 (4 * (?k - 12)) (freeblock s1) (img s1 ! unat ?ib)"
    let ?s3 = "wsect ?ib ?ind ?s2"
    obtain ty2 where ty2: "img_ok ty2 ?s2" "extends ty1 ty2" using take_block [OF ty1(1) F(1), of "Data i ?k"] by blast
    have ib2: "ty2 (unat ?ib) = Some (Ind i)" using ty2(2) ty1(4) by (auto simp: extends_def)
    have B: "baddr (di_addrs din1) ?s3 m = (if m = ?k then freeblock s1 else baddr ?as s m)" if "m < 140" for m
      using baddr_put [OF ty2(1) ib2 ty1(3) k that, of "freeblock s1"] s1 [OF that] by simp
    have "iappend_block (off div 512) din s = Inr (freeblock s1, din1, ?s3)"
    proof -
      have "length (img s1 ! unat ?ib) = 512" using img_okD(2) [OF ty1(1)] owned_block(2) [OF ty1(1,4)] by blast
      then have "get32 (4 * (?k - 12)) ?ind = freeblock s1" using k by (intro get32_put32) auto
      then show ?thesis using b z [OF k(2)] by simp
    qed
    moreover have "unat (freeblock ?s3) = unat (freeblock s) + need (unat off)"
      using owned_sect(1) [OF ty2(1) ib2] F(3) fb1 True a12 by (auto simp: need_def)
    ultimately show ?thesis using F(1,2) B z ty1(3) by auto
  next
    case False
    have z: "baddr ?as s m \<noteq> 0 \<longleftrightarrow> m \<le> ?k" if "m < 140" for m
      using fu before_end(1) [OF False, of m] that by (simp add: full_def)
    have "iappend_block (off div 512) din s = Inr (baddr ?as s ?k, din1, s1)" using b z [OF k(2)] g by simp
    moreover have "sect_no (baddr ?as s ?k) < 1000"
      using z [OF k(2)] baddr_typed [OF ok t k(2)] owned_block(2,4) [OF ok] by (auto simp: typed_def)
    ultimately show ?thesis using z s1 ty1(3) fb1 False a12 by (auto simp: need_def)
  qed
qed


lemma block_room:
  assumes "img_ok ty s" "typed_addrs ty i (di_addrs din)" "full (di_addrs din) s (unat off)"
    "unat off div 512 < 140" "unat (freeblock s) + need (unat off) \<le> 1000"
  shows "\<exists>x din' s'. iappend_block (off div 512) din s = Inr (x, din', s') \<and> sect_no x < 1000
    \<and> unat (freeblock s') = unat (freeblock s) + need (unat off)
    \<and> (\<forall>m < 140. baddr (di_addrs din') s' m \<noteq> 0 \<longleftrightarrow> m \<le> unat off div 512) \<and> (di_addrs din' ! 12 \<noteq> 0 \<longleftrightarrow> 12 \<le> unat off div 512)"
proof (cases "unat off div 512 < 12")
  case True
  show ?thesis using direct_room [OF assms(1-3) True assms(5)] True by fastforce
next
  case False
  then show ?thesis using indirect_room [OF assms(1-3) _ assms(4,5)] by fastforce
qed

text \<open>A write to a data block leaves the block numbers.\<close>

lemma baddr_data:
  assumes ok: "img_ok ty s" and t: "typed_addrs ty i as" and x: "ty (unat x) = Some (Data i k)"
  shows "baddr as (wsect x buf s) m = baddr as s m"
proof -
  have "typed ty (Ind i) (as ! 12)" using t by (auto simp: typed_addrs_def slot_def dest: spec [of _ 12])
  then have "as ! 12 \<noteq> 0 \<Longrightarrow> unat x \<noteq> unat (as ! 12)" using x by (auto simp: typed_def)
  then show ?thesis unfolding owned_sect(1) [OF ok x] by (simp add: baddr_def)
qed

lemma cost_mono: "m \<le> n \<Longrightarrow> cost m \<le> cost n"
  unfolding cost_def by (intro add_mono div_le_mono) auto

lemma loop_room:
  assumes "img_ok ty s" "typed_addrs ty i (di_addrs din)" "full (di_addrs din) s (unat off)" "unat off + length p \<le> 71680"
    "unat (freeblock s) + cost (unat off + length p) \<le> 1000 + cost (unat off)"
  shows "\<exists>din' off' s'. iappend_loop din off p s = Inr (din', off', s')
    \<and> unat (freeblock s') + cost (unat off) = unat (freeblock s) + cost (unat off + length p)
    \<and> full (di_addrs din') s' (unat off + length p)"
  using assms
proof (induction "length p" arbitrary: ty din off p s rule: less_induct)
  case less
  show ?case
  proof (cases "p = []")
    case True
    then show ?thesis using less.prems by (simp add: iappend_loop.simps)
  next
    case False
    let ?o = "unat off"
    let ?n = "iappend_n1 off p"
    have n: "0 < ?n" "?n \<le> length p" "?o mod 512 + ?n \<le> 512" using False by (auto simp: iappend_n1_def)
    have c: "cost (?o + ?n) = cost ?o + need ?o" by (rule cost_turn [OF n(1,3)])
    have cm: "cost (?o + ?n) \<le> cost (?o + length p)" using n(2) by (intro cost_mono) simp
    have k: "?o div 512 < 140" using less.prems(4) n by (intro less_mult_imp_div_less) simp
    have f: "off div 512 < 140" using k by (simp add: word_less_nat_alt unat_div_distrib)
    obtain x din1 s1 where b: "iappend_block (off div 512) din s = Inr (x, din1, s1)" "sect_no x < 1000"
        "unat (freeblock s1) = unat (freeblock s) + need ?o"
        "\<forall>m < 140. baddr (di_addrs din1) s1 m \<noteq> 0 \<longleftrightarrow> m \<le> ?o div 512" "di_addrs din1 ! 12 \<noteq> 0 \<longleftrightarrow> 12 \<le> ?o div 512"
      using block_room [OF less.prems(1-3) k] less.prems(5) c cm by auto
    obtain ty1 where ty1: "append_ok ty i s ty1 din din1 s1" "ty1 (unat x) = Some (Data i (unat (off div 512)))"
      using iappend_block_ok [OF less.prems(1,2) f b(1,2)] by blast
    have ok1: "img_ok ty1 s1" "typed_addrs ty1 i (di_addrs din1)" using ty1(1) by (simp_all add: append_ok_def)
    let ?buf = "splice (?o mod 512) (take ?n p) (img s1 ! unat x)"
    let ?s2 = "wsect x ?buf s1"
    note r = owned_sect(2) [OF ok1(1) ty1(2)]
    have u: "unat (off + of_nat ?n) = ?o + ?n" using iappend_turn [OF less.prems(1,2) f b(1) r False] by blast
    have ty2: "img_ok ty1 ?s2"
      using n img_okD(2) [OF ok1(1) owned_block(2) [OF ok1(1) ty1(2)]] by (intro write_data [OF ok1(1) ty1(2)]) (simp add: length_splice)
    have fu: "full (di_addrs din1) ?s2 (?o + ?n)"
      unfolding full_turn [OF n(1,3)] using b(4,5) baddr_data [OF ok1 ty1(2)] by simp
    have fb: "freeblock ?s2 = freeblock s1" using owned_sect(1) [OF ok1(1) ty1(2)] by simp
    have l: "length (drop ?n p) < length p" "?o + ?n + length (drop ?n p) = ?o + length p" using n by auto
    obtain din' off' s' where L: "iappend_loop din1 (off + of_nat ?n) (drop ?n p) ?s2 = Inr (din', off', s')"
        "unat (freeblock s') + cost (?o + ?n) = unat (freeblock ?s2) + cost (?o + length p)"
        "full (di_addrs din') s' (?o + length p)"
      using less.hyps [OF l(1) ty2 ok1(2), of "off + of_nat ?n"] fu b(3) fb c less.prems(4,5) unfolding u l(2) by auto
    have "iappend_loop din off p s = Inr (din', off', s')"
      using L(1) by (subst iappend_loop.simps) (simp add: False f b(1) r Let_def)
    then show ?thesis using L(2,3) c b(3) fb by simp
  qed
qed


definition mk_full :: "mk \<Rightarrow> bool" where
  "mk_full s \<longleftrightarrow> (\<forall>i < 208. full (di_addrs (inode_at s i)) s (unat (di_size (inode_at s i))))"

lemma full_cong: "(\<And>k. k < 140 \<Longrightarrow> baddr as s' k = baddr as s k) \<Longrightarrow> full as s' n = full as s n"
  by (simp add: full_def)

lemma file_size:
  assumes "mk_ok s" "i < 208" "file_at s i = (t, n, bs)"
  shows "unat (di_size (inode_at s i)) = length bs"
proof -
  obtain ty where ty: "img_ok ty s" using assms(1) by (auto simp: mk_ok_def)
  have "length (flat (di_addrs (inode_at s i)) s) = 71680" by (rule length_flat [OF ty inode_typed [OF ty assms(2)]])
  moreover have "unat (di_size (inode_at s i)) \<le> 71680" using assms(1,2) by (auto simp: mk_ok_def file_ok_def Let_def)
  ultimately show ?thesis using assms(3) by (auto simp: file_at_def Let_def)
qed

lemma iappend_room:
  assumes ok: "mk_ok s" "mk_full s" and i: "unat inum < 208" and f: "file_at s (unat inum) = (t, n, bs)"
    and l: "length bs + length p \<le> 71680" and room: "unat (freeblock s) + cost (length bs + length p) \<le> 1000 + cost (length bs)"
  shows "\<exists>s'. iappend inum p s = Inr s' \<and> mk_full s' \<and> unat (freeblock s') + cost (length bs) = unat (freeblock s) + cost (length bs + length p)"
proof -
  let ?i = "unat inum"
  let ?d = "inode_at s ?i"
  obtain ty where ty: "img_ok ty s" using ok(1) by (auto simp: mk_ok_def)
  note T = inode_typed [OF ty i]
  note sz = file_size [OF ok(1) i f]
  have fu: "full (di_addrs ?d) s (unat (di_size ?d))" using ok(2) i by (simp add: mk_full_def)
  obtain din off s1 where L: "iappend_loop ?d (di_size ?d) p s = Inr (din, off, s1)"
      "unat (freeblock s1) + cost (length bs) = unat (freeblock s) + cost (length bs + length p)"
      "full (di_addrs din) s1 (length bs + length p)"
    using loop_room [OF ty T fu] l room unfolding sz by blast
  obtain ty' where A: "append_ok ty ?i s ty' ?d din s1" "unat off = length bs + length p"
    using iappend_loop_ok [OF ty T L(1)] l sz by auto
  have A': "img_ok ty' s1" "typed_addrs ty' ?i (di_addrs din)" "extends ty ty'" "meta_same s s1" "others_same ty ?i s s1"
    using A(1) by (simp_all add: append_ok_def)
  obtain s' where W: "winode inum (din\<lparr>di_size := off\<rparr>) s1 = Inr s'" "freeblock s' = freeblock s1"
      "\<And>j. j < 208 \<Longrightarrow> inode_at s' j = (if j = ?i then din\<lparr>di_size := off\<rparr> else inode_at s1 j)"
      "\<And>j as k. typed_addrs ty' j as \<Longrightarrow> k < 140 \<Longrightarrow> baddr as s' k = baddr as s1 k"
    using winode_ok [OF A'(1) i, of "din\<lparr>di_size := off\<rparr>"] A'(2) by auto
  have "full (di_addrs (inode_at s' j)) s' (unat (di_size (inode_at s' j)))" if j: "j < 208" for j
  proof (cases "j = ?i")
    case True
    have "full (di_addrs din) s' m = full (di_addrs din) s1 m" for m by (rule full_cong) (rule W(4) [OF A'(2)])
    then show ?thesis using W(3) [OF j] L(3) A(2) True by simp
  next
    case False
    have e: "inode_at s' j = inode_at s j" using W(3) [OF j] False j A'(4) by (simp add: inode_at_def meta_same_def)
    have Tj: "typed_addrs ty j (di_addrs (inode_at s j))" by (rule inode_typed [OF ty j])
    have "baddr (di_addrs (inode_at s j)) s' k = baddr (di_addrs (inode_at s j)) s k" if "k < 140" for k
      using W(4) [OF extends_typed_addrs [OF A'(3) Tj] that] others_sameD [OF A'(5) False Tj that] by simp
    then have "full (di_addrs (inode_at s j)) s' m = full (di_addrs (inode_at s j)) s m" for m by (rule full_cong)
    then show ?thesis using ok(2) j e by (simp add: mk_full_def)
  qed
  moreover have "iappend inum p s = Inr s'" using L(1) W(1) by (simp add: iappend_def rinode_ok [OF ty i])
  ultimately show ?thesis using W(2) L(2) by (auto simp: mk_full_def)
qed

lemma ialloc_full:
  assumes ok: "mk_ok s" "mk_full s" and i: "unat (freeinode s) < 208" and r: "mk_ialloc t s = Inr (inum, s')"
  shows "mk_full s'"
proof -
  let ?s = "s\<lparr>freeinode := freeinode s + 1\<rparr>"
  let ?d = "zero_dinode\<lparr>di_type := t, di_nlink := 1, di_size := 0\<rparr>"
  obtain ty where ty: "img_ok ty s" using ok(1) by (auto simp: mk_ok_def)
  have ty0: "img_ok ty ?s" using ty by (simp add: img_ok_def)
  have T: "typed_addrs ty (unat (freeinode s)) (di_addrs ?d)" by (auto simp: typed_addrs_def zero_dinode_def typed_def nth_append)
  have w: "winode (freeinode s) ?d ?s = Inr s'" using r by (simp add: mk_ialloc_def Let_def rbind_def split: sum.splits)
  then have W: "\<And>j. j < 208 \<Longrightarrow> inode_at s' j = (if j = unat (freeinode s) then ?d else inode_at s j)"
      "\<And>j as k. typed_addrs ty j as \<Longrightarrow> k < 140 \<Longrightarrow> baddr as s' k = baddr as s k"
    using winode_ok [OF ty0 i T] by (auto simp: inode_at_def baddr_def)
  have "full (di_addrs (inode_at s' j)) s' (unat (di_size (inode_at s' j)))" if j: "j < 208" for j
  proof (cases "j = unat (freeinode s)")
    case True
    then show ?thesis using W(1) [OF j] by (simp add: full_def baddr_def zero_dinode_def nth_append)
  next
    case False
    have "full (di_addrs (inode_at s j)) s' m = full (di_addrs (inode_at s j)) s m" for m
      by (rule full_cong) (rule W(2) [OF inode_typed [OF ty j]])
    then show ?thesis using W(1) [OF j] False ok(2) j by (simp add: mk_full_def)
  qed
  then show ?thesis by (simp add: mk_full_def)
qed


lemma append_reads_room:
  assumes "mk_ok s" "mk_full s" "unat inum < 208" "file_at s (unat inum) = (t, n, bs)" "length bs + length (concat rs) \<le> 71680"
    "unat (freeblock s) + cost (length bs + length (concat rs)) \<le> 1000 + cost (length bs)"
  shows "\<exists>s'. append_reads inum rs s = Inr s' \<and> mk_full s'
    \<and> unat (freeblock s') + cost (length bs) = unat (freeblock s) + cost (length bs + length (concat rs))"
  using assms
proof (induction rs arbitrary: s bs)
  case (Cons p rs)
  have c: "cost (length bs + length p) \<le> cost (length bs + length (concat (p # rs)))" by (rule cost_mono) simp
  obtain s1 where a: "iappend inum p s = Inr s1" "mk_full s1"
      "unat (freeblock s1) + cost (length bs) = unat (freeblock s) + cost (length bs + length p)"
    using iappend_room [OF Cons.prems(1-4), of p] Cons.prems(5,6) c by auto
  note I = iappend_ok [OF Cons.prems(1,3) a(1) Cons.prems(4)]
  show ?case using Cons.IH [OF I(1) a(2) Cons.prems(3) I(2)] Cons.prems(5,6) a by (auto simp: add.assoc)
qed auto

definition files_cost :: "(u8 list \<times> u8 list list) list \<Rightarrow> nat" where
  "files_cost fs = sum_list (map (\<lambda>f. cost (length (concat (snd f)))) fs)"

definition host_ok :: "u8 list \<times> u8 list list \<Rightarrow> bool" where
  "host_ok f \<longleftrightarrow> 47 \<notin> set (fst f) \<and> length (concat (snd f)) \<le> MAXFILE * BSIZE"

lemma add_files_room:
  assumes "mk_ok s" "mk_full s" "2 \<le> unat (freeinode s)" "unat (freeinode s) + length fs \<le> 208" "file_at s 1 = (t, n, bs)"
    "\<forall>f \<in> set fs. host_ok f" "length bs + 16 * length fs \<le> 71680"
    "unat (freeblock s) + cost (length bs + 16 * length fs) + files_cost fs \<le> 1000 + cost (length bs)"
  shows "\<exists>s'. add_files fs 1 s = Inr s' \<and> mk_full s'
    \<and> unat (freeblock s') + cost (length bs) = unat (freeblock s) + cost (length bs + 16 * length fs) + files_cost fs"
  using assms
proof (induction fs arbitrary: s bs)
  case (Cons f fs)
  let ?i = "unat (freeinode s)"
  let ?e = "mk_entry (freeinode s) (strip (fst f))"
  let ?b = "concat (snd f)"
  have i: "?i < 208" "?i \<noteq> 1" using Cons.prems(3,4) by auto
  obtain s1 where s1: "mk_ialloc T_FILE s = Inr (freeinode s, s1)" "mk_ok s1" "freeinode s1 = freeinode s + 1" "freeblock s1 = freeblock s"
      "file_at s1 ?i = (T_FILE, 1, [])" "\<And>j. j < 208 \<Longrightarrow> j \<noteq> ?i \<Longrightarrow> file_at s1 j = file_at s j"
    using ialloc_ok [OF Cons.prems(1) i(1), of T_FILE] by blast
  note F1 = ialloc_full [OF Cons.prems(1,2) i(1) s1(1)]
  have f1: "file_at s1 (unat (1 :: u32)) = (t, n, bs)" using s1(6) [of 1] i Cons.prems(5) by simp
  have c: "cost (length bs + 16) \<le> cost (length bs + 16 * length (f # fs))" by (rule cost_mono) simp
  have fc: "files_cost (f # fs) = cost (length ?b) + files_cost fs" by (simp add: files_cost_def)
  obtain s2 where s2: "iappend 1 ?e s1 = Inr s2" "mk_full s2" "unat (freeblock s2) + cost (length bs) = unat (freeblock s) + cost (length bs + 16)"
    using iappend_room [OF s1(2) F1 _ f1, of ?e] Cons.prems(7,8) c s1(4) by auto
  note I = iappend_ok [OF s1(2) _ s2(1) f1]
  have f2: "file_at s2 ?i = (T_FILE, 1, [])" using I(4) i s1(5) by simp
  have "length ?b \<le> 71680" using Cons.prems(6) by (simp add: host_ok_def)
  then obtain s3 where s3: "append_reads (freeinode s) (snd f) s2 = Inr s3" "mk_full s3"
      "unat (freeblock s3) = unat (freeblock s2) + cost (length ?b)"
    using append_reads_room [OF I(1) s2(2) i(1) f2, of "snd f"] Cons.prems(8) c s2(3) fc by (auto simp: cost_def)
  note A = append_reads_ok [OF I(1) i(1) s3(1) f2]
  have u: "unat (freeinode s3) = Suc ?i" using A I(3) s1(3) i(1) by (simp add: unat_word_ariths)
  have f3: "file_at s3 1 = (t, n, bs @ ?e)" using A I(2) i by simp
  obtain s' where L: "add_files fs 1 s3 = Inr s'"
      "unat (freeblock s') + cost (length bs + 16) = unat (freeblock s3) + cost (length bs + 16 + 16 * length fs) + files_cost fs" "mk_full s'"
    using Cons.IH [OF _ s3(2) _ _ f3] A u Cons.prems s2(3) s3(3) fc by (auto simp: add.assoc)
  have "add_files (f # fs) 1 s = Inr s'"
    using Cons.prems(6) s1(1) s2(1) s3(1) L(1) by (simp add: Let_def strip_def host_ok_def split: if_splits)
  then show ?case using L(2,3) s2(3) s3(3) fc by (auto simp: add.assoc)
qed (auto simp: files_cost_def)

lemma mk_start_full: "mk_full mk_start"
proof -
  have "inode_at mk_start i = get_dinode (i mod 8) (replicate 512 0)" if "i < 208" for i
    using that wsect_small [of mk_zero 1] sect_no_small [of 1] by (simp add: inode_at_def mk_start_def mk_zero nth_list_update)
  then show ?thesis using zero_inode by (simp add: mk_full_def full_def baddr_def nth_append)
qed

text \<open>
  The blocks of the root directory are those of its entries: the rounding of its size to whole blocks adds none.
\<close>

definition mk_mapped :: "(u8 list \<times> u8 list list) list \<Rightarrow> mk \<Rightarrow> bool" where
  "mk_mapped files s \<longleftrightarrow> (\<forall>i < 208. full (di_addrs (inode_at s i)) s
     (if i = 1 then length (root_entries files) else unat (di_size (inode_at s i)))
     \<and> (i \<noteq> 1 \<longrightarrow> unat (di_size (inode_at s i)) \<le> MAXFILE * BSIZE))"

lemma mkfs_room:
  assumes "\<forall>f \<in> set files. host_ok f" "length files \<le> 198"
    "cost (length (root_entries files)) + files_cost files \<le> 941"
  shows "\<exists>s. mkfs files = Inr s \<and> unat (freeblock s) = 59 + cost (length (root_entries files)) + files_cost files \<and> mk_mapped files s"
proof -
  have le: "length (root_entries files) = 32 + 16 * length files" by (simp add: root_entries_def length_dirents)
  obtain s1 where s1: "mk_ialloc T_DIR mk_start = Inr (1, s1)" "mk_ok s1" "freeinode s1 = 2" "freeblock s1 = 59"
      "file_at s1 (unat (1 :: u32)) = (T_DIR, 1, [])"
    using ialloc_ok [OF mk_start(1), of T_DIR] mk_start(2,3) by auto
  have F1: "mk_full s1" using ialloc_full [OF mk_start(1) mk_start_full _ s1(1)] mk_start(2) by simp
  have c: "cost 0 = 0" "cost 16 = 1" "cost 32 = 1" by (simp_all add: cost_def)
  obtain s2 where s2: "iappend 1 (mk_entry 1 [46]) s1 = Inr s2" "mk_full s2" "unat (freeblock s2) = 60"
    using iappend_room [OF s1(2) F1 _ s1(5), of "mk_entry 1 [46]"] s1(4) c by auto
  note I2 = iappend_ok [OF s1(2) _ s2(1) s1(5)]
  obtain s3 where s3: "iappend 1 (mk_entry 1 [46, 46]) s2 = Inr s3" "mk_full s3" "unat (freeblock s3) = 60"
    using iappend_room [OF I2(1) s2(2) _ I2(2), of "mk_entry 1 [46, 46]"] s2(3) c by auto
  note I3 = iappend_ok [OF I2(1) _ s3(1) I2(2)]
  have u: "unat (freeinode s3) = 2" using I2(3) I3(3) s1(3) by simp
  let ?d = "mk_entry 1 [46] @ mk_entry 1 [46, 46]"
  have f3: "file_at s3 1 = (T_DIR, 1, ?d)" using I3(2) by simp
  obtain s4 where s4: "add_files files 1 s3 = Inr s4" "unat (freeblock s4) = 59 + cost (length (root_entries files)) + files_cost files" "mk_full s4"
    using add_files_room [OF I3(1) s3(2) _ _ f3 assms(1)] u assms(2,3) s3(3) c le by auto
  have A: "mk_ok s4" "file_at s4 1 = (T_DIR, 1, root_entries files)"
    using add_files_ok [OF I3(1) _ _ s4(1) f3] u assms(2) by (simp_all add: root_entries_def)
  obtain ty where ty: "img_ok ty s4" using A(1) by (auto simp: mk_ok_def)
  let ?din = "inode_at s4 1"
  obtain s5 where s5: "winode 1 (?din\<lparr>di_size := (di_size ?din div 512 + 1) * 512\<rparr>) s4 = Inr s5" "img_ok ty s5" "freeblock s5 = freeblock s4"
      "\<And>j. j < 208 \<Longrightarrow> inode_at s5 j = (if j = 1 then ?din\<lparr>di_size := (di_size ?din div 512 + 1) * 512\<rparr> else inode_at s4 j)"
      "\<And>j as k. typed_addrs ty j as \<Longrightarrow> k < 140 \<Longrightarrow> baddr as s5 k = baddr as s4 k"
    using winode_ok [OF ty, of 1 "?din\<lparr>di_size := (di_size ?din div 512 + 1) * 512\<rparr>"] inode_typed [OF ty, of 1] by auto
  have "int_of_u32 (freeblock s5) = int (unat (freeblock s5))" using img_okD(4) [OF s5(2)] by (intro int_of_u32_small) simp
  then have "int_of_u32 (freeblock s5) < 4096" using img_okD(4) [OF s5(2)] by linarith
  then obtain s where s: "mk_balloc (int_of_u32 (freeblock s5)) s5 = Inr s" by (simp add: mk_balloc_def)
  then have "freeblock s = freeblock s5" using mk_balloc_ok(1) [OF s5(2) s] by simp
  moreover have "mkfs files = Inr s"
    using s1(1) s2(1) s3(1) s4(1) s5(1) s rinode_ok [OF ty, of 1] unfolding mkfs_def mk_start_def [symmetric]
    by (simp add: Let_def)
  moreover have "mk_mapped files s"
    unfolding mk_mapped_def
  proof (intro allI impI)
    fix i :: nat
    assume i: "i < 208"
    let ?as = "di_addrs (inode_at s4 i)"
    note T = inode_typed [OF ty i]
    have ia: "inode_at s i = inode_at s5 i" using i mk_balloc_ok(1) [OF s5(2) s] img_okD(1) [OF s5(2)] by (simp add: inode_at_def)
    have as: "di_addrs (inode_at s i) = ?as" "i \<noteq> 1 \<Longrightarrow> di_size (inode_at s i) = di_size (inode_at s4 i)"
      using s5(4) [OF i] unfolding ia by simp_all
    have b: "baddr ?as s k = baddr ?as s4 k" if "k < 140" for k
      using fblk_write_other(2) [OF s5(2) T that, of 58] s5(5) [OF T that] mk_balloc_ok(1) [OF s5(2) s] by simp
    have "full ?as s4 (unat (di_size (inode_at s4 i)))" using s4(3) i by (simp add: mk_full_def)
    then have "full ?as s (unat (di_size (inode_at s4 i)))" using full_cong [OF b] by blast
    moreover have "unat (di_size (inode_at s4 i)) \<le> 71680" using A(1) i by (auto simp: mk_ok_def file_ok_def Let_def)
    ultimately show "full (di_addrs (inode_at s i)) s (if i = 1 then length (root_entries files) else unat (di_size (inode_at s i)))
        \<and> (i \<noteq> 1 \<longrightarrow> unat (di_size (inode_at s i)) \<le> MAXFILE * BSIZE)"
      using as file_size [OF A(1) i, of T_DIR 1 "root_entries files"] A(2) by auto
  qed
  ultimately show ?thesis using s4(2) s5(3) by simp
qed


definition demo_files :: "(u8 list \<times> u8 list list) list" where
  "demo_files = [([95, 99, 97, 116], [replicate BSIZE 7, [1, 2, 3]]), ([82, 69, 65, 68, 77, 69], [[65, 10]])]"

lemma demo_files: "\<forall>f \<in> set demo_files. host_ok f" "length demo_files = 2" "files_cost demo_files = 3"
    "cost (length (root_entries demo_files)) = 1"
  by (simp_all add: demo_files_def host_ok_def files_cost_def cost_def root_entries_def)

section \<open>Properties\<close>

text \<open>
  C17: \<^verbatim>\<open>mkfs\<close> succeeds when the files fit: no name has a slash, there are inodes for all of them, no file is longer than
  \<^verbatim>\<open>MAXFILE\<close> blocks, and the data blocks, indirect blocks and directory blocks together are at most the 941 blocks behind the
  bitmap. It then uses exactly that many blocks.
\<close>

theorem mkfs_succeeds:
  assumes "\<forall>f \<in> set files. host_ok f" "length files \<le> 198"
    "cost (length (root_entries files)) + files_cost files \<le> 941"
  shows "\<exists>s. mkfs files = Inr s \<and> unat (freeblock s) = 59 + cost (length (root_entries files)) + files_cost files"
  using mkfs_room [OF assms] by blast

theorem mkfs_succeeds_witness: "\<exists>s. mkfs demo_files = Inr s \<and> unat (freeblock s) = 63"
  using mkfs_succeeds [OF demo_files(1)] demo_files(2-) by simp

text \<open>
  C15: The image that \<^verbatim>\<open>mkfs\<close> writes holds the files it was given. Inode 1 is a directory with the entries for itself,
  its parent and every file on the command line in order (the leading underscore of a name dropped), padded with empty
  entries to whole blocks; inode \<open>2 + k\<close> is a file with one link whose bytes are those read from the \<open>k\<close>-th host file.
\<close>

theorem mkfs_files:
  assumes "mkfs files = Inr s" "length files \<le> 198"
  shows "file_at s 1 = (T_DIR, 1, root_entries files @ replicate (512 - length (root_entries files) mod 512) 0)
    \<and> (\<forall>k < length files. file_at s (2 + k) = (T_FILE, 1, concat (snd (files ! k))))"
  using mkfs_core(3,4) [OF assms(1)] assms(2) by simp

theorem mkfs_files_witness:
  "\<exists>s. mkfs demo_files = Inr s \<and> file_at s 2 = (T_FILE, 1, replicate BSIZE 7 @ [1, 2, 3]) \<and> file_at s 3 = (T_FILE, 1, [65, 10])
    \<and> take 64 (snd (snd (file_at s 1))) =
        [1, 0, 46, 0, 0, 0, 0, 0, 0, 0, 0, 0, 0, 0, 0, 0, 1, 0, 46, 46, 0, 0, 0, 0, 0, 0, 0, 0, 0, 0, 0, 0,
         2, 0, 99, 97, 116, 0, 0, 0, 0, 0, 0, 0, 0, 0, 0, 0, 3, 0, 82, 69, 65, 68, 77, 69, 0, 0, 0, 0, 0, 0, 0, 0]"
proof -
  obtain s where s: "mkfs demo_files = Inr s" using mkfs_room [OF demo_files(1)] demo_files(2-) by auto
  have F: "file_at s 1 = (T_DIR, 1, root_entries demo_files @ replicate (512 - length (root_entries demo_files) mod 512) 0)"
    "\<And>k. k < 2 \<Longrightarrow> file_at s (2 + k) = (T_FILE, 1, concat (snd (demo_files ! k)))"
    using mkfs_files [OF s] demo_files(2) by auto
  have "take 64 (root_entries demo_files) =
        [1, 0, 46, 0, 0, 0, 0, 0, 0, 0, 0, 0, 0, 0, 0, 0, 1, 0, 46, 46, 0, 0, 0, 0, 0, 0, 0, 0, 0, 0, 0, 0,
         2, 0, 99, 97, 116, 0, 0, 0, 0, 0, 0, 0, 0, 0, 0, 0, 3, 0, 82, 69, 65, 68, 77, 69, 0, 0, 0, 0, 0, 0, 0, 0]"
    by code_simp
  moreover have "length (root_entries demo_files) = 64" by (simp add: root_entries_def length_dirents demo_files(2))
  ultimately show ?thesis using s F(1) F(2) [of 0] F(2) [of 1] by (simp add: demo_files_def)
qed

text \<open>
  C16: The image is a consistent file system. It has 1000 sectors of 512 bytes, the super block is the one \<^verbatim>\<open>mkfs\<close> announces
  and the log is empty. Every block an inode refers to lies between the bitmap and the first free block, no data block has two
  owners and no block is both a data block and an indirect block. A kernel that reads this image finds a bitmap in which
  exactly the blocks below the first free one are in use.
\<close>

theorem mkfs_consistent:
  assumes "mkfs files = Inr s" "length files \<le> 198"
  defines "A \<equiv> \<lambda>i. di_addrs (inode_at s i)"
  shows "length (img s) = FSSIZE \<and> (\<forall>b < FSSIZE. length (img s ! b) = BSIZE) \<and> get_superblock (img s ! 1) = mksb
    \<and> (\<forall>b. 2 \<le> b \<and> b < 32 \<longrightarrow> img s ! b = replicate BSIZE 0)
    \<and> (\<forall>i < 208. \<forall>k < MAXFILE. baddr (A i) s k \<noteq> 0 \<longrightarrow> 59 \<le> unat (baddr (A i) s k) \<and> unat (baddr (A i) s k) < unat (freeblock s))
    \<and> (\<forall>i < 208. \<forall>k < MAXFILE. \<forall>j < 208. \<forall>m < MAXFILE.
         baddr (A i) s k = baddr (A j) s m \<and> baddr (A i) s k \<noteq> 0 \<longrightarrow> i = j \<and> k = m)
    \<and> (\<forall>i < 208. \<forall>j < 208. \<forall>m < MAXFILE. A i ! NDIRECT \<noteq> 0 \<longrightarrow>
         A i ! NDIRECT \<noteq> baddr (A j) s m \<and> (A i ! NDIRECT = A j ! NDIRECT \<longrightarrow> i = j))
    \<and> (\<forall>t :: kern. (\<forall>b < FSSIZE. blk t b = img s ! b) \<and> disksize t = FSSIZE \<and> sb t = mksb \<and> lg_start (klog t) = 2
         \<and> lg_size (klog t) = LOGSIZE \<longrightarrow> bitmap_ok t \<and> formatted (klog t) (blk t) \<and> (\<forall>b < FSSIZE. used t b \<longleftrightarrow> b < unat (freeblock s)))"
proof (intro conjI)
  have n: "length files \<le> 206" using assms(2) by simp
  obtain ty where ok: "img_ok ty s" using mkfs_core(1) [OF assms(1) n] by blast
  note D = img_okD [OF ok]
  show "length (img s) = FSSIZE" by (rule D(1))
  show "\<forall>b < FSSIZE. length (img s ! b) = BSIZE" using D(2) by blast
  show "get_superblock (img s ! 1) = mksb" unfolding D(7) by (rule mk_superblock)
  show "\<forall>b. 2 \<le> b \<and> b < 32 \<longrightarrow> img s ! b = replicate BSIZE 0" using D(8) by blast
  have T: "baddr (A i) s k \<noteq> 0 \<Longrightarrow> ty (unat (baddr (A i) s k)) = Some (Data i k)" if "i < 208" "k < 140" for i k
    using baddr_typed [OF ok inode_typed [OF ok that(1)] that(2)] by (simp add: typed_def A_def)
  have U: "A i ! 12 \<noteq> 0 \<Longrightarrow> ty (unat (A i ! 12)) = Some (Ind i)" if "i < 208" for i
    using inode_typed [OF ok that] by (auto simp: typed_addrs_def typed_def A_def slot_def dest: spec [of _ 12])
  show "\<forall>i < 208. \<forall>k < MAXFILE. baddr (A i) s k \<noteq> 0 \<longrightarrow> 59 \<le> unat (baddr (A i) s k) \<and> unat (baddr (A i) s k) < unat (freeblock s)"
    using T D(5) by blast
  show "\<forall>i < 208. \<forall>k < MAXFILE. \<forall>j < 208. \<forall>m < MAXFILE.
         baddr (A i) s k = baddr (A j) s m \<and> baddr (A i) s k \<noteq> 0 \<longrightarrow> i = j \<and> k = m"
    using T by (metis option.inject owner.inject(1))
  show "\<forall>i < 208. \<forall>j < 208. \<forall>m < MAXFILE. A i ! NDIRECT \<noteq> 0 \<longrightarrow>
         A i ! NDIRECT \<noteq> baddr (A j) s m \<and> (A i ! NDIRECT = A j ! NDIRECT \<longrightarrow> i = j)"
    using T U by (metis option.inject owner.inject(2) owner.distinct(1))
  show "\<forall>t :: kern. (\<forall>b < FSSIZE. blk t b = img s ! b) \<and> disksize t = FSSIZE \<and> sb t = mksb \<and> lg_start (klog t) = 2
         \<and> lg_size (klog t) = LOGSIZE \<longrightarrow> bitmap_ok t \<and> formatted (klog t) (blk t) \<and> (\<forall>b < FSSIZE. used t b \<longleftrightarrow> b < unat (freeblock s))"
    using image_bitmap [OF ok mkfs_core(2) [OF assms(1) n]] by blast
qed

theorem mkfs_consistent_witness:
  "\<exists>s. mkfs demo_files = Inr s \<and> length (img s) = FSSIZE \<and> get_superblock (img s ! 1) = mksb
    \<and> (\<forall>t :: kern. (\<forall>b < FSSIZE. blk t b = img s ! b) \<and> disksize t = FSSIZE \<and> sb t = mksb \<and> lg_start (klog t) = 2
         \<and> lg_size (klog t) = LOGSIZE \<longrightarrow> used t 62 \<and> \<not> used t 63)"
proof -
  obtain s where s: "mkfs demo_files = Inr s" "unat (freeblock s) = 63" using mkfs_room [OF demo_files(1)] demo_files(2-) by auto
  have "length demo_files \<le> 198" using demo_files(2) by simp
  note C = mkfs_consistent [OF s(1) this, unfolded s(2)]
  note C1 = conjunct1 [OF C] and C3 = conjunct1 [OF conjunct2 [OF conjunct2 [OF C]]]
    and C8 = conjunct2 [OF conjunct2 [OF conjunct2 [OF conjunct2 [OF conjunct2 [OF conjunct2 [OF conjunct2 [OF C]]]]]]]
  have "used t 62 \<and> \<not> used t 63" if "(\<forall>b < FSSIZE. blk t b = img s ! b) \<and> disksize t = FSSIZE \<and> sb t = mksb \<and> lg_start (klog t) = 2
         \<and> lg_size (klog t) = LOGSIZE" for t :: kern
  proof -
    have "\<forall>b < FSSIZE. used t b \<longleftrightarrow> b < 63" using C8 that by blast
    then show ?thesis by simp
  qed
  then show ?thesis using s(1) C1 C3 by blast
qed

end
