(* ===== verification/ImageSpec.thy ===== *)
theory ImageSpec
  imports DirSpec MkfsRoom
begin

text \<open>
  The kernel on an image that \<^verbatim>\<open>mkfs\<close> wrote: the inodes and files it sees are those of the image, and the files are found by
  their names.
\<close>

section \<open>The image as the kernel sees it\<close>

definition mounted :: "mk \<Rightarrow> 'a kern_scheme \<Rightarrow> bool" where
  "mounted m s \<longleftrightarrow> (\<forall>b < FSSIZE. blk s b = img m ! b) \<and> sb s = mksb \<and> disksize s = FSSIZE"

lemma image_dinode:
  assumes "mounted m s" "unat i < 208"
  shows "IBLOCK i (sb s) < disksize s" "dinode_at s i = inode_at m (unat i)"
proof -
  have u: "unat (IBLOCK i mksb) = 32 + unat i div 8" by (rule IBLOCK_mksb(1) [OF assms(2)])
  then show "IBLOCK i (sb s) < disksize s" using assms by (simp add: mounted_def word_less_nat_alt)
  show "dinode_at s i = inode_at m (unat i)"
    using assms u by (simp add: dinode_at_def inode_at_def mounted_def unat_mod_distrib)
qed

lemma image_addr:
  assumes "mounted m s" "img_ok ty m" "typed_addrs ty i as" "k < MAXFILE"
  shows "faddr as (blk s) k = baddr as m k" "fdata as (blk s) k = fblk as m k" "baddr as m k < disksize s" "as ! NDIRECT < disksize s"
proof -
  have "typed ty (Ind i) (as ! 12)" using assms(3) by (auto simp: typed_addrs_def slot_def dest: spec [of _ 12])
  then have a: "unat (as ! 12) < 1000" using owned_block(2) [OF assms(2), of "as ! 12"] by (auto simp: typed_def)
  have b: "unat (baddr as m k) < 1000"
    using baddr_typed [OF assms(2-4)] owned_block(2) [OF assms(2), of "baddr as m k"] by (auto simp: typed_def)
  show "faddr as (blk s) k = baddr as m k" using assms(1) a by (simp add: faddr_def baddr_def mounted_def)
  then show "fdata as (blk s) k = fblk as m k" using assms(1) b by (simp add: fdata_def fblk_def mounted_def)
  show "baddr as m k < disksize s" "as ! NDIRECT < disksize s" using assms(1) a b by (simp_all add: mounted_def word_less_nat_alt)
qed

lemma image_bytes:
  assumes "mounted m s" "img_ok ty m" "unat i < 208"
  shows "(di_type (dinode_at s i), di_nlink (dinode_at s i), file_bytes s i) = file_at m (unat i)"
proof -
  note d = image_dinode(2) [OF assms(1,3)]
  have "map (fdata (di_addrs (inode_at m (unat i))) (blk s)) [0..<140] = map (fblk (di_addrs (inode_at m (unat i))) m) [0..<140]"
    using image_addr(2) [OF assms(1,2) inode_typed [OF assms(2,3)]] by (simp del: upt_rec_numeral)
  then have "fbytes (di_addrs (inode_at m (unat i))) (blk s) = flat (di_addrs (inode_at m (unat i))) m"
    unfolding fbytes_def flat_def by (rule arg_cong)
  then show ?thesis by (simp add: file_at_def file_bytes_def file_len_def file_addrs_def d Let_def)
qed

lemma image_no_holes:
  assumes "mounted m s" "img_ok ty m" "unat i < 208" "full (di_addrs (inode_at m (unat i))) m n" "z \<le> n" "z \<le> MAXFILE * BSIZE"
  shows "no_holes (file_addrs s i) s z"
proof -
  let ?as = "di_addrs (inode_at m (unat i))"
  note A = image_addr [OF assms(1,2) inode_typed [OF assms(2,3)]]
  have "mapped ?as s k" if "k * 512 < z" for k
  proof -
    have "k < 140" using that assms(6) by simp
    moreover from this have "baddr ?as m k \<noteq> 0" using that assms(4,5) by (auto simp: full_def)
    ultimately show ?thesis using A by (simp add: mapped_def)
  qed
  then show ?thesis using A assms(6) image_dinode(2) [OF assms(1,3)] by (simp add: no_holes_def file_addrs_def)
qed

lemma mk_mappedD:
  assumes "mk_mapped files m" "i < 208"
  shows "i = 1 \<Longrightarrow> full (di_addrs (inode_at m i)) m (length (root_entries files))"
    "i \<noteq> 1 \<Longrightarrow> full (di_addrs (inode_at m i)) m (unat (di_size (inode_at m i)))"
    "i \<noteq> 1 \<Longrightarrow> unat (di_size (inode_at m i)) \<le> MAXFILE * BSIZE"
  using assms(1) [unfolded mk_mapped_def, rule_format, OF assms(2)] by simp_all

section \<open>Names\<close>

lemma strncmp_zero:
  "0 \<notin> set p \<Longrightarrow> 0 \<notin> set q \<Longrightarrow> n \<le> m \<Longrightarrow> name_strncmp n p (take n (q @ replicate m 0)) = 0 \<longleftrightarrow> take n p = take n q"
proof (induction n arbitrary: p q)
  case (Suc n)
  show ?case
  proof (cases q)
    case Nil
    then show ?thesis using Suc.prems by (cases p; cases m) (auto simp: Let_def word_uint_eq_iff)
  next
    case (Cons b q')
    then show ?thesis using Suc by (cases p) (auto simp: Let_def word_uint_eq_iff)
  qed
qed simp

lemma mk_entry_fields:
  assumes "unat i < 2 ^ 16"
  shows "ucast (dirent_inum (mk_entry i nm)) = i" "dirent_name (mk_entry i nm) = take DIRSIZ (nm @ replicate DIRSIZ 0)"
proof -
  have "dirent_inum (mk_entry i nm) = ucast i" by (simp add: dirent_inum_def get16_def mk_entry_def slice_def)
  moreover have "ucast (ucast i :: u16) = i" using assms by (simp add: word_unat_eq_iff unsigned_ucast_eq unsigned_take_bit_eq take_bit_nat_eq_self)
  ultimately show "ucast (dirent_inum (mk_entry i nm)) = i" by simp
  show "dirent_name (mk_entry i nm) = take DIRSIZ (nm @ replicate DIRSIZ 0)"
    by (simp add: dirent_name_def mk_entry_def slice_def)
qed

lemma matches_entry:
  assumes "unat i < 2 ^ 16" "i \<noteq> 0" "0 \<notin> set nm" "0 \<notin> set nm'"
  shows "matches nm (mk_entry i nm') \<longleftrightarrow> take DIRSIZ nm = take DIRSIZ nm'"
proof -
  have "dirent_inum (mk_entry i nm') \<noteq> 0" using mk_entry_fields(1) [OF assms(1), of nm'] assms(2) by auto
  then show ?thesis using mk_entry_fields(2) [OF assms(1)] strncmp_zero [OF assms(3,4), of 14 14]
    by (simp add: matches_def namecmp_def)
qed

section \<open>Looking up a file\<close>

lemma slice_dirents:
  "k < length fs \<Longrightarrow> slice (16 * k) 16 (dirents n fs) = mk_entry (of_nat (n + k)) (strip (fst (fs ! k)))"
proof (induction fs arbitrary: n k)
  case (Cons f fs)
  show ?case
  proof (cases k)
    case 0
    then show ?thesis by (simp add: slice_def)
  next
    case (Suc j)
    then show ?thesis
      using Cons.IH [of j "Suc n"] Cons.prems slice_append [where xs = "mk_entry (of_nat n) (strip (fst f))" and a = "16 * j" and n = 16 and ys = "dirents (Suc n) fs"]
      by simp
  qed
qed simp

text \<open>The names of the root directory in order; the name of file \<open>k\<close> is the first of its kind and one that a path can hold.\<close>

definition root_names :: "(u8 list \<times> u8 list list) list \<Rightarrow> u8 list list" where
  "root_names files = [[46], [46, 46]] @ map (\<lambda>f. strip (fst f)) files"

definition first_name :: "(u8 list \<times> u8 list list) list \<Rightarrow> nat \<Rightarrow> bool" where
  "first_name files k \<longleftrightarrow> (\<forall>nm \<in> set (root_names files). 0 \<notin> set nm)
     \<and> strip (fst (files ! k)) \<noteq> [] \<and> (\<forall>j < k + 2. take DIRSIZ (root_names files ! j) \<noteq> take DIRSIZ (strip (fst (files ! k))))"

lemma root_entry:
  assumes "j < length files + 2" "length files \<le> 198"
  shows "slice (16 * j) 16 (root_entries files @ zs) = mk_entry (if j < 2 then 1 else of_nat j) (root_names files ! j)"
proof -
  have r: "slice (16 * j) 16 (root_entries files @ zs) = slice (16 * j) 16 (root_entries files)"
    using assms(1) by (simp add: slice_def root_entries_def length_dirents)
  show ?thesis
  proof (cases "j < 2")
    case True
    then have "j = 0 \<or> j = 1" by auto
    then show ?thesis unfolding r by (auto simp: root_entries_def root_names_def slice_def)
  next
    case False
    then obtain i where i: "j = i + 2" by (metis add.commute le_Suc_ex not_less)
    have "slice (16 * j) 16 (root_entries files) = slice (16 * i) 16 (dirents 2 files)"
      using slice_append [where xs = "mk_entry 1 [46] @ mk_entry 1 [46, 46]" and a = "16 * i" and n = 16 and ys = "dirents 2 files"] by (simp add: root_entries_def i)
    then show ?thesis unfolding r using slice_dirents [of i files 2] assms(1) i by (simp add: root_names_def nth_append)
  qed
qed

lemma image_finds:
  assumes m: "mounted m s" "img_ok ty m" and mk: "mk_mapped files m"
    and f: "file_at m 1 = (T_DIR, 1, root_entries files @ zs)"
    and k: "k < length files" "length files \<le> 198" "first_name files k"
  shows "finds s 1 (take DIRSIZ (strip (fst (files ! k)))) (k + 2)" "ucast (dirent_inum (entry_at s 1 (k + 2))) = (of_nat (k + 2) :: u32)"
    "di_type (dinode_at s 1) = T_DIR" "inode_ok s 1"
proof -
  let ?nm = "strip (fst (files ! k))"
  have one: "unat (1 :: u32) < 208" by simp
  have B: "di_type (dinode_at s 1) = T_DIR" "di_nlink (dinode_at s 1) = 1" "file_bytes s 1 = root_entries files @ zs"
    using image_bytes [OF m one] f by simp_all
  then show "di_type (dinode_at s 1) = T_DIR" "inode_ok s 1" using image_dinode(1) [OF m(1) one] by (simp_all add: inode_ok_def)
  have le: "length (root_entries files) = 32 + 16 * length files" by (simp add: root_entries_def length_dirents)
  have E: "entry_at s 1 j = mk_entry (if j < 2 then 1 else of_nat j) (root_names files ! j)" if "j < length files + 2" for j
    unfolding entry_at_def B(3) by (rule root_entry [OF that k(2)])
  have rk: "root_names files ! (k + 2) = ?nm" using k(1) by (simp add: root_names_def nth_append)
  have "length (root_names files) = length files + 2" by (simp add: root_names_def)
  then have n0: "0 \<notin> set (root_names files ! j)" if "j < length files + 2" for j
    using k(3) that nth_mem [of j "root_names files"] by (simp add: first_name_def)
  have M: "matches (take 14 ?nm) (entry_at s 1 j) \<longleftrightarrow> take 14 ?nm = take 14 (root_names files ! j)" if "j < length files + 2" for j
  proof -
    have u: "unat (of_nat j :: u32) = j" using that k(2) by (simp add: unat_of_nat)
    then have "j \<ge> 2 \<Longrightarrow> (of_nat j :: u32) \<noteq> 0" by (metis not_numeral_le_zero unat_0)
    moreover have "0 \<notin> set (take 14 ?nm)" using n0 [of "k + 2"] k(1) rk by (auto dest: in_set_takeD)
    ultimately show ?thesis
      using matches_entry [of "if j < 2 then 1 else of_nat j" "take 14 ?nm" "root_names files ! j"] n0 [OF that] that k(2) u
      by (simp add: E)
  qed
  have "full (di_addrs (inode_at m (unat (1 :: u32)))) m (length (root_entries files))" by (rule mk_mappedD(1) [OF mk one]) simp
  then have "no_holes (file_addrs s 1) s (16 * (k + 2 + 1))"
    using k by (intro image_no_holes [OF m one]) (auto simp: le)
  moreover have "16 * (k + 2 + 1) \<le> file_len s 1"
  proof -
    have "length (file_bytes s 1) \<le> file_len s 1" by (simp add: file_bytes_def)
    then show ?thesis using k(1) unfolding B(3) by (simp add: le)
  qed
  moreover have "\<not> matches (take 14 ?nm) (entry_at s 1 j)" if "j < k + 2" for j
    using M [of j] that k(1,3) by (auto simp: first_name_def)
  ultimately show "finds s 1 (take DIRSIZ ?nm) (k + 2)" using M [of "k + 2"] k(1) rk by (simp add: finds_def)
  have "unat (of_nat (k + 2) :: u32) = k + 2" using k by (simp only: unat_of_nat) simp
  then show "ucast (dirent_inum (entry_at s 1 (k + 2))) = (of_nat (k + 2) :: u32)"
    using E [of "k + 2"] k mk_entry_fields(1) [of "of_nat (k + 2)"] by simp
qed

lemma skipelem_single:
  assumes "nm \<noteq> []" "SLASH \<notin> set nm"
  shows "skipelem (SLASH # nm) = Some ([], take DIRSIZ nm)"
proof -
  have "hd nm \<noteq> 47" using hd_in_set [OF assms(1)] assms(2) by metis
  then have d: "dropWhile (\<lambda>c. c = 47) nm = nm" using assms(1) by (cases nm) auto
  have t: "takeWhile (\<lambda>c. c \<noteq> 47) nm = nm" "dropWhile (\<lambda>c. c \<noteq> 47) nm = []" using assms(2) by auto
  show ?thesis using assms(1) by (simp add: skipelem_def Let_def d t)
qed

lemma image_resolves:
  assumes "mounted m s" "img_ok ty m" "mk_mapped files m" "file_at m 1 = (T_DIR, 1, root_entries files @ zs)"
    "k < length files" "length files \<le> 198" "first_name files k" "host_ok (files ! k)"
  shows "resolves s 1 (SLASH # strip (fst (files ! k))) (Some (of_nat (k + 2)))"
proof -
  let ?nm = "strip (fst (files ! k))"
  have ns: "47 \<notin> set ?nm" "?nm \<noteq> []"
    using assms(7,8) by (auto simp: host_ok_def strip_def first_name_def split: if_splits dest: list.set_sel(2) [rotated])
  have e: "skipelem (47 # ?nm) = Some ([], take 14 ?nm)" by (rule skipelem_single [OF ns(2,1)])
  note F = image_finds [OF assms(1-7)]
  have "resolves s (of_nat (k + 2)) [] (Some (of_nat (k + 2)))" by (rule resolves.here) (simp add: skipelem_def)
  then show ?thesis by (rule resolves.down [OF e F(4,3,1) F(2) [symmetric]])
qed

section \<open>Properties\<close>

lemma idle_mounted:
  assumes "log_idle p s" "\<forall>b < FSSIZE. disk s b = img m ! b" "sb s = mksb" "disksize s = FSSIZE" "n < LOGSIZE" "int n < lg_size (klog s)"
  shows "begin_op s = Inr (s\<lparr>klog := (klog s)\<lparr>lg_outstanding := 1\<rparr>\<rparr>)" "tx p n (s\<lparr>klog := (klog s)\<lparr>lg_outstanding := 1\<rparr>\<rparr>)"
    "mounted m (s\<lparr>klog := (klog s)\<lparr>lg_outstanding := 1\<rparr>\<rparr>)"
proof -
  have r: "bio_ready p s" "lh_n (klog s) = 0" using assms(1) by (simp_all add: log_idle_def)
  have c: "blk s b = disk s b" for b using clean_read [of p s b] r(1) by (simp add: bio_ready_def)
  show "begin_op s = Inr (s\<lparr>klog := (klog s)\<lparr>lg_outstanding := 1\<rparr>\<rparr>)" "tx p n (s\<lparr>klog := (klog s)\<lparr>lg_outstanding := 1\<rparr>\<rparr>)"
    using begin_op_ok [OF assms(1)] assms(5,6) r(2) by (simp_all add: tx_def)
  show "mounted m (s\<lparr>klog := (klog s)\<lparr>lg_outstanding := 1\<rparr>\<rparr>)"
    using assms(2-4) c by (simp add: mounted_def)
qed


text \<open>
  C4: what \<^verbatim>\<open>mkfs\<close> stores the kernel reads. Take any host files that fit on the image, and a kernel whose disk is the image that
  \<^verbatim>\<open>mkfs\<close> built of them. Then a process that starts an operation, looks up the name of a file in the root directory, locks the
  inode and reads at an offset gets exactly the bytes of the host file there, cut off at its end.
\<close>

theorem kernel_reads_image:
  fixes s :: "'a kern_scheme"
  assumes files: "\<forall>f \<in> set files. host_ok f" "length files \<le> 198" "cost (length (root_entries files)) + files_cost files \<le> 941"
    and k: "k < length files" "first_name files k"
    and s: "log_idle p s" "sb s = mksb" "disksize s = FSSIZE" "lg_size (klog s) = LOGSIZE" "icache_ok p {} s" "card (open_inodes s) + 2 \<le> NINODE"
    and off: "unat off \<le> length (concat (snd (files ! k)))" "unat off + unat n < 2 ^ 32"
  shows "\<exists>m. mkfs files = Inr m \<and> ((\<forall>b < FSSIZE. disk s b = img m ! b) \<longrightarrow>
    (\<exists>s1 ip t u v. begin_op s = Inr s1 \<and> namei (SLASH # strip (fst (files ! k))) s1 = Inr (Some ip, t) \<and> ilock (Some ip) t = Inr u
      \<and> (let bs = take (unat n) (drop (unat off) (concat (snd (files ! k)))) in readi ip ToLocal off n u = Inr (int (length bs), bs, v))))"
proof -
  obtain m where m: "mkfs files = Inr m" "mk_mapped files m" using mkfs_room [OF files] by blast
  have n206: "length files \<le> 206" using files(2) by simp
  obtain ty where ty: "img_ok ty m" using mkfs_core(1) [OF m(1) n206] by blast
  note F = mkfs_core(3,4) [OF m(1) n206]
  let ?nm = "strip (fst (files ! k))" let ?i = "of_nat (k + 2) :: u32" let ?bs = "concat (snd (files ! k))"
  let ?s = "s\<lparr>klog := (klog s)\<lparr>lg_outstanding := 1\<rparr>\<rparr>"
  have ui: "unat ?i = 2 + k" using k(1) files(2) by (simp only: unat_of_nat) simp
  have "\<exists>ip t u v. namei (47 # ?nm) ?s = Inr (Some ip, t) \<and> ilock (Some ip) t = Inr u
      \<and> readi ip ToLocal off n u = Inr (int (length (slice (unat off) (unat n) ?bs)), slice (unat off) (unat n) ?bs, v)"
    if d: "\<forall>b < FSSIZE. disk s b = img m ! b"
  proof -
    note I = idle_mounted [OF s(1) d s(2,3), of 1] 
    have tx: "tx p 1 ?s" and mo: "mounted m ?s" using I(2,3) s(4) by simp_all
    have ok: "icache_ok p {} ?s" using s(5) icache_ok_cong [of s ?s p "{}"] by (simp add: reads_only_def blk_def buf_of_def inode_locks_def fun_eq_iff)
    have cd: "card (open_inodes ?s) + 2 \<le> 50" using s(6) by (simp add: open_inodes_def in_use_def)
    have "resolves ?s 1 (47 # ?nm) (Some ?i)" using image_resolves [OF mo ty m(2) F(1) k(1) files(2) k(2)] files(1) k(1) by simp
    then obtain ip t where t: "namei (47 # ?nm) ?s = Inr (Some ip, t)" "tx p 1 t" "reads_only ?s t" "icache_ok p {} t" "ip \<in> in_use t" "i_inum (icache t ip) = ?i"
      using namei_ok [OF tx ok cd] by (force simp: walked_def)
    have mt: "mounted m t" using mo t(3) by (simp add: mounted_def reads_only_def)
    have i208: "unat ?i < 208" using ui k(1) files(2) by simp
    have D: "di_type (dinode_at t ?i) = 2" "file_bytes t ?i = ?bs" using image_bytes [OF mt ty i208] F(2) [OF k(1)] ui by simp_all
    obtain u where u: "ilock (Some ip) t = Inr u" "tx p 1 u" "reads_only t u" "loaded ip ?i u"
      using ilock_loaded [OF t(2,4-6) image_dinode(1) [OF mt i208]] D(1) by auto
    note c = disk_cong [OF u(3)]
    have mu: "mounted m u" using mt u(3) by (simp add: mounted_def reads_only_def)
    have z: "full (di_addrs (inode_at m (unat ?i))) m (file_len u ?i)" "file_len u ?i \<le> 71680"
      using mk_mappedD(2,3) [OF m(2) i208] ui image_dinode(2) [OF mu i208] by (simp_all add: file_len_def)
    have h: "no_holes (file_addrs u ?i) u (min (unat off + unat n) (file_len u ?i))"
      by (rule image_no_holes [OF mu ty i208 z(1)]) (use z(2) in auto)
    have "length (file_bytes u ?i) = min (file_len u ?i) 71680" using length_fbytes [OF u(2) h] by (simp add: file_bytes_def)
    then have "unat off \<le> file_len u ?i" using off(1) D(2) z(2) c(2) by simp
    then obtain v where "readi ip ToLocal off n u = Inr (int (length (slice (unat off) (unat n) ?bs)), slice (unat off) (unat n) ?bs, v)"
      using readi_file [OF u(2,4) _ h _ off(2)] D c by auto
    then show ?thesis using t(1) u(1) by blast
  qed
  moreover have "begin_op s = Inr ?s" using begin_op_ok(1) [OF s(1)] .
  ultimately show ?thesis using m(1) unfolding slice_def Let_def by blast
qed

section \<open>A kernel on an image, for examples\<close>

lemma inode_locks_binit: "inode_locks (binit s) = inode_locks s"
proof -
  have "inode_locks (binit_loop bs s) = inode_locks s" for bs and s :: "'a kern_scheme"
    by (induction bs arbitrary: s)
      (auto simp: push_front_bufs initsleeplock_def initlock_def set_sleeplock_def inode_locks_def fun_eq_iff)
  then show ?thesis by (simp add: binit_def set_next_bufs initlock_def inode_locks_def fun_eq_iff)
qed

definition image_kern :: "mk \<Rightarrow> kern" where
  "image_kern m = binit (demo_kern\<lparr>disk := \<lambda>b. if b < FSSIZE then img m ! b else replicate BSIZE 0\<rparr>)"

lemma image_kern_ok:
  assumes "img_ok ty m"
  shows "log_idle 3 (image_kern m)" "b < FSSIZE \<Longrightarrow> disk (image_kern m) b = img m ! b" "sb (image_kern m) = mksb"
    "disksize (image_kern m) = FSSIZE" "lg_size (klog (image_kern m)) = LOGSIZE" "icache_ok 3 {} (image_kern m)" "open_inodes (image_kern m) = {}"
proof -
  let ?s = "demo_kern\<lparr>disk := \<lambda>b. if b < FSSIZE then img m ! b else replicate BSIZE 0\<rparr>"
  note D = img_okD [OF assms]
  have c: "calm 3 ?s" "cold ?s" using demo_kern_calm demo_kern_cold D(2) by (simp_all add: cold_def)
  obtain B L where eq: "binit ?s = ?s\<lparr>bufs := B, sleeplocks := L\<rparr>" using binit_ok(1) [OF c] by blast
  have r: "bio_ready 3 (binit ?s)" using binit_ok(2,4) [OF c] c(1) by (simp add: bio_ready_def) (simp add: eq)
  have k: "klog demo_kern = klog demo_boot" "disksize demo_kern = 1000" using demo_sel by (simp_all add: demo_boot_def)
  have m1: "get_superblock (img m ! Suc 0) = mksb" using D(7) mk_superblock by simp
  have m2: "get32 0 (img m ! 2) = 0" using D(8) [of 2] zero_words [of 0] by simp
  show "log_idle 3 (image_kern m)"
    using r m1 m2 by (simp add: image_kern_def log_idle_def eq log_ok_def k demo_sel formatted_def head_no_def layout)
  show "b < FSSIZE \<Longrightarrow> disk (image_kern m) b = img m ! b" "disksize (image_kern m) = FSSIZE" "lg_size (klog (image_kern m)) = LOGSIZE"
    by (simp_all add: image_kern_def eq k demo_sel)
  show "sb (image_kern m) = mksb" by (simp add: image_kern_def eq) (simp add: demo_kern_def mksb_def layout)
  have i: "icache (image_kern m) k = icache demo_kern k" "inode_locks (image_kern m) k = inode_locks demo_kern k" for k
    unfolding image_kern_def inode_locks_binit by (simp_all add: eq) (simp add: inode_locks_def)
  have u: "in_use (image_kern m) = {}" by (simp add: in_use_def i) (simp add: demo_kern_def)
  then show "open_inodes (image_kern m) = {}" by (simp add: open_inodes_def)
  show "icache_ok 3 {} (image_kern m)"
    unfolding icache_ok_def u by (simp add: i) (simp add: demo_kern_def inode_locks_def)
qed

lemma demo_image: "\<exists>m ty. mkfs demo_files = Inr m \<and> img_ok ty m \<and> mk_mapped demo_files m"
  using mkfs_room [OF demo_files(1)] demo_files(2-) mkfs_core(1) [of demo_files] by fastforce

lemma demo_first_name: "first_name demo_files 0"
  by code_simp

theorem kernel_reads_image_witness:
  "\<exists>m s s1 ip t u v. mkfs demo_files = Inr m \<and> (\<forall>b < FSSIZE. disk s b = img m ! b) \<and> begin_op (s :: kern) = Inr s1
    \<and> namei [47, 99, 97, 116] s1 = Inr (Some ip, t) \<and> ilock (Some ip) t = Inr u \<and> readi ip ToLocal 510 10 u = Inr (5, [7, 7, 1, 2, 3], v)"
proof -
  obtain m ty where m: "mkfs demo_files = Inr m" "img_ok ty m" using demo_image by blast
  note I = image_kern_ok [OF m(2)]
  have bs: "concat (snd (demo_files ! 0)) = replicate 512 7 @ [1, 2, 3]" "strip (fst (demo_files ! 0)) = [99, 97, 116]"
    by (simp_all add: demo_files_def strip_def)
  have two: "replicate 2 (7 :: u8) = [7, 7]" by (simp add: numeral_2_eq_2)
  have "\<exists>s1 ip t u v. begin_op (image_kern m) = Inr s1 \<and> namei [47, 99, 97, 116] s1 = Inr (Some ip, t) \<and> ilock (Some ip) t = Inr u
      \<and> readi ip ToLocal 510 10 u = Inr (5, [7, 7, 1, 2, 3], v)"
    using kernel_reads_image [of demo_files 0 3 "image_kern m" 510 10] demo_files demo_first_name I m(1) bs
    by (simp add: Let_def two)
  then show ?thesis using m(1) I(2) by blast
qed


end
