(* ===== verification/File.thy ===== *)
theory File
  imports Pipe
begin

text \<open>
  Open files (\<^verbatim>\<open>file.c\<close>) and the creation of pipes (\<^verbatim>\<open>pipealloc\<close> of \<^verbatim>\<open>pipe.c\<close>). A pointer to an open
  file is an index of \<^verbatim>\<open>ftable.file\<close>.
\<close>

section \<open>References\<close>

definition fileinit :: "'a kern_scheme \<Rightarrow> 'a kern_scheme" where
  "fileinit s = initlock FtableLock s"

definition filealloc :: "'a kern_scheme \<Rightarrow> (nat option \<times> 'a kern_scheme) res" where
  "filealloc s =
     rbind (acquire FtableLock s) (\<lambda>s.
     case find (\<lambda>i. f_ref (ftable s i) = 0) [0..<NFILE] of
       Some f \<Rightarrow> rbind (release FtableLock (upd_file f (\<lambda>x. x\<lparr>f_ref := 1\<rparr>) s)) (\<lambda>s. Inr (Some f, s))
     | None \<Rightarrow> rbind (release FtableLock s) (\<lambda>s. Inr (None, s)))"

definition filedup :: "nat \<Rightarrow> 'a kern_scheme \<Rightarrow> (nat \<times> 'a kern_scheme) res" where
  "filedup f s =
     rbind (acquire FtableLock s) (\<lambda>s.
     if f_ref (ftable s f) < 1 then Inl (Panic ''filedup'')
     else rbind (release FtableLock (upd_file f (\<lambda>x. x\<lparr>f_ref := f_ref x + 1\<rparr>) s)) (\<lambda>s. Inr (f, s)))"

definition fileclose :: "nat \<Rightarrow> 'a kern_scheme \<Rightarrow> 'a kern_scheme res" where
  "fileclose f s =
     rbind (acquire FtableLock s) (\<lambda>s.
     if f_ref (ftable s f) < 1 then Inl (Panic ''fileclose'')
     else
       let s = upd_file f (\<lambda>x. x\<lparr>f_ref := f_ref x - 1\<rparr>) s in
       if f_ref (ftable s f) > 0 then release FtableLock s
       else
         let ff = ftable s f;
             s = upd_file f (\<lambda>x. x\<lparr>f_ref := 0, f_type := FD_NONE\<rparr>) s
         in
         rbind (release FtableLock s) (\<lambda>s.
         case f_type ff of
           FD_PIPE \<Rightarrow> pipeclose (f_pipe ff) (f_writable ff) s
         | FD_INODE \<Rightarrow>
             rbind (begin_op s) (\<lambda>s.
             case f_ip ff of None \<Rightarrow> Inl (Undef ''null inode'')
             | Some ip \<Rightarrow> rbind (iput ip s) (\<lambda>s. end_op s))
         | FD_NONE \<Rightarrow> Inr s))"

section \<open>Input and output\<close>

text \<open>The result is the return value and what \<^verbatim>\<open>stati\<close> stores through the pointer.\<close>

definition filestat :: "nat \<Rightarrow> 'a kern_scheme \<Rightarrow> (stat option \<times> 'a kern_scheme) res" where
  "filestat f s =
     (if f_type (ftable s f) = FD_INODE then
        rbind (ilock (f_ip (ftable s f)) s) (\<lambda>s.
        case f_ip (ftable s f) of None \<Rightarrow> Inl (Undef ''null inode'')
        | Some ip \<Rightarrow>
            let st = stati ip s in
            rbind (iunlock (Some ip) s) (\<lambda>s. Inr (Some st, s)))
      else Inr (None, s))"

definition fileread :: "nat \<Rightarrow> u32 \<Rightarrow> int \<Rightarrow> 'a kern_scheme \<Rightarrow> (int \<times> 'a kern_scheme) res" where
  "fileread f addr n s =
     (if \<not> f_readable (ftable s f) then Inr (- 1, s)
      else case f_type (ftable s f) of
        FD_PIPE \<Rightarrow> piperead (f_pipe (ftable s f)) addr n s
      | FD_INODE \<Rightarrow>
          rbind (ilock (f_ip (ftable s f)) s) (\<lambda>s.
          case f_ip (ftable s f) of None \<Rightarrow> Inl (Undef ''null inode'')
          | Some ip \<Rightarrow>
              rbind (readi ip (ToUser addr) (f_off (ftable s f)) (u32_of_int n) s) (\<lambda>(r, _, s).
              let s = (if r > 0 then upd_file f (\<lambda>x. x\<lparr>f_off := f_off x + u32_of_int r\<rparr>) s else s) in
              rbind (iunlock (Some ip) s) (\<lambda>s. Inr (r, s))))
      | FD_NONE \<Rightarrow> Inl (Panic ''fileread''))"

text \<open>One pass of the loop in \<^verbatim>\<open>filewrite\<close>, a transaction of its own.\<close>

definition filewrite_chunk :: "nat \<Rightarrow> u32 \<Rightarrow> int \<Rightarrow> 'a kern_scheme \<Rightarrow> (int \<times> 'a kern_scheme) res" where
  "filewrite_chunk f addr n1 s =
     rbind (begin_op s) (\<lambda>s.
     rbind (ilock (f_ip (ftable s f)) s) (\<lambda>s.
     case f_ip (ftable s f) of None \<Rightarrow> Inl (Undef ''null inode'')
     | Some ip \<Rightarrow>
         rbind (writei ip (FromUser addr) (f_off (ftable s f)) (u32_of_int n1) s) (\<lambda>(r, s).
         let s = (if r > 0 then upd_file f (\<lambda>x. x\<lparr>f_off := f_off x + u32_of_int r\<rparr>) s else s) in
         rbind (iunlock (Some ip) s) (\<lambda>s.
         rbind (end_op s) (\<lambda>s. Inr (r, s))))))"

abbreviation (input) WRITE_MAX :: int where "WRITE_MAX \<equiv> ((MAXOPBLOCKS - 1 - 1 - 2) div 2) * 512"

function filewrite_loop :: "nat \<Rightarrow> u32 \<Rightarrow> int \<Rightarrow> int \<Rightarrow> 'a kern_scheme \<Rightarrow> (int \<times> 'a kern_scheme) res" where
  "filewrite_loop f addr n i s =
     (if i < n then
        let n1 = (if n - i > WRITE_MAX then WRITE_MAX else n - i) in
        rbind (filewrite_chunk f (addr + u32_of_int i) n1 s) (\<lambda>(r, s).
        if r < 0 then Inr (i, s)
        else if r \<noteq> n1 then Inl (Panic ''short filewrite'')
        else filewrite_loop f addr n (i + r) s)
      else Inr (i, s))"
  by pat_completeness auto
termination
  by (relation "measure (\<lambda>(f, addr, n, i, s). nat (n - i))") (auto split: if_splits)

declare filewrite_loop.simps [simp del]

definition filewrite :: "nat \<Rightarrow> u32 \<Rightarrow> int \<Rightarrow> 'a kern_scheme \<Rightarrow> (int \<times> 'a kern_scheme) res" where
  "filewrite f addr n s =
     (if \<not> f_writable (ftable s f) then Inr (- 1, s)
      else case f_type (ftable s f) of
        FD_PIPE \<Rightarrow> pipewrite (f_pipe (ftable s f)) addr n s
      | FD_INODE \<Rightarrow>
          rbind (filewrite_loop f addr n 0 s) (\<lambda>(i, s).
          Inr (if i = n then n else - 1, s))
      | FD_NONE \<Rightarrow> Inl (Panic ''filewrite''))"

section \<open>Creating a pipe\<close>

definition pipe_files :: "u32 \<Rightarrow> nat \<Rightarrow> nat \<Rightarrow> 'a kern_scheme \<Rightarrow> 'a kern_scheme" where
  "pipe_files p f0 f1 s =
     upd_file f1 (\<lambda>x. x\<lparr>f_type := FD_PIPE, f_readable := False, f_writable := True, f_pipe := p\<rparr>)
       (upd_file f0 (\<lambda>x. x\<lparr>f_type := FD_PIPE, f_readable := True, f_writable := False, f_pipe := p\<rparr>) s)"

text \<open>The files of the pipe, or \<open>None\<close> for the return with -1. The label \<^verbatim>\<open>bad\<close> closes what was opened.\<close>

definition pipealloc :: "'a kern_scheme \<Rightarrow> ((nat \<times> nat) option \<times> 'a kern_scheme) res" where
  "pipealloc s =
     rbind (filealloc s) (\<lambda>(f0, s).
     case f0 of None \<Rightarrow> Inr (None, s)
     | Some f0 \<Rightarrow>
         rbind (filealloc s) (\<lambda>(f1, s).
         case f1 of None \<Rightarrow> rbind (fileclose f0 s) (\<lambda>s. Inr (None, s))
         | Some f1 \<Rightarrow>
             rbind (kalloc s) (\<lambda>(p, s).
             if p = 0 then rbind (fileclose f0 s) (\<lambda>s. rbind (fileclose f1 s) (\<lambda>s. Inr (None, s)))
             else
               let s = upd_pipe p (\<lambda>P. P\<lparr>p_readopen := True, p_writeopen := True, p_nwrite := 0, p_nread := 0\<rparr>) s;
                   s = initlock (PipeLock p) s
               in Inr (Some (f0, f1), pipe_files p f0 f1 s))))"

end
