(* ===== verification/Syscall.thy ===== *)
theory Syscall
  imports File
begin

text \<open>
  System call arguments (\<^verbatim>\<open>syscall.c\<close>) and the system calls on processes and shared memory
  (\<^verbatim>\<open>sysproc.c\<close> and the end of \<^verbatim>\<open>sysfile.c\<close>). The calls that need the file system on the way are in
  later theories. \<open>None\<close> stands for the result -1 of the fetching functions.
\<close>

section \<open>Arguments\<close>

definition fetchint :: "u32 \<Rightarrow> 'a procs_scheme \<Rightarrow> (int option \<times> 'a procs_scheme) res" where
  "fetchint addr s =
     rbind (curproc s) (\<lambda>(p, s).
     if addr \<ge> sz (ptable s p) \<or> addr + 4 > sz (ptable s p) then Inr (None, s)
     else rbind (uload32 addr s) (\<lambda>w. Inr (Some (int_of_u32 w), s)))"

function fetchstr_loop :: "u32 \<Rightarrow> u32 \<Rightarrow> u8 list \<Rightarrow> 'a phys_scheme \<Rightarrow> u8 list option res" where
  "fetchstr_loop a ep got s =
     (if a < ep then
        rbind (uload8 a s) (\<lambda>c. if c = 0 then Inr (Some got) else fetchstr_loop (a + 1) ep (got @ [c]) s)
      else Inr None)"
  by pat_completeness auto
termination
proof (relation "measure (\<lambda>(a, ep, got, s). unat (ep - a))")
  fix a ep :: u32 and got c and s :: "'a phys_scheme"
  assume "a < ep"
  then have "unat (ep - a) \<noteq> 0" by (auto simp: unat_eq_0)
  then have le: "1 \<le> ep - a" by (simp add: word_le_nat_alt)
  have "unat (ep - (a + 1)) = unat (ep - a) - 1"
    unfolding diff_diff_eq [symmetric] using unat_sub [OF le] by simp
  moreover have "0 < unat (ep - a)" using le by (simp add: word_le_nat_alt)
  ultimately show "((a + 1, ep, got @ [c], s), a, ep, got, s) \<in> measure (\<lambda>(a, ep, got, s). unat (ep - a))" by simp
qed simp

declare fetchstr_loop.simps [simp del]

text \<open>The string found, whose length is the result of the code.\<close>

definition fetchstr :: "u32 \<Rightarrow> 'a procs_scheme \<Rightarrow> (u8 list option \<times> 'a procs_scheme) res" where
  "fetchstr addr s =
     rbind (curproc s) (\<lambda>(p, s).
     if addr \<ge> sz (ptable s p) then Inr (None, s)
     else rbind (fetchstr_loop addr (sz (ptable s p)) [] s) (\<lambda>r. Inr (r, s)))"

definition argint :: "nat \<Rightarrow> 'a procs_scheme \<Rightarrow> (int option \<times> 'a procs_scheme) res" where
  "argint n s =
     rbind (curproc s) (\<lambda>(p, s).
     fetchint (load32 (mem s) (tf (ptable s p) + TF_ESP) + 4 + 4 * of_nat n) s)"

definition argptr :: "nat \<Rightarrow> int \<Rightarrow> 'a procs_scheme \<Rightarrow> (u32 option \<times> 'a procs_scheme) res" where
  "argptr n size_arg s =
     rbind (curproc s) (\<lambda>(p, s).
     rbind (argint n s) (\<lambda>(i, s).
     case i of None \<Rightarrow> Inr (None, s)
     | Some i \<Rightarrow>
         if size_arg < 0 \<or> u32_of_int i \<ge> sz (ptable s p)
            \<or> u32_of_int i + u32_of_int size_arg > sz (ptable s p)
         then Inr (None, s) else Inr (Some (u32_of_int i), s)))"

definition argstr :: "nat \<Rightarrow> 'a procs_scheme \<Rightarrow> (u8 list option \<times> 'a procs_scheme) res" where
  "argstr n s =
     rbind (argint n s) (\<lambda>(a, s).
     case a of None \<Rightarrow> Inr (None, s) | Some a \<Rightarrow> fetchstr (u32_of_int a) s)"

text \<open>The pattern \<^verbatim>\<open>if(argint(n, &x) < 0) return r\<close>.\<close>

definition with_int ::
  "nat \<Rightarrow> int \<Rightarrow> (int \<Rightarrow> 'a procs_scheme \<Rightarrow> (int \<times> 'a procs_scheme) res) \<Rightarrow> 'a procs_scheme \<Rightarrow> (int \<times> 'a procs_scheme) res"
where
  "with_int n r f s =
     rbind (argint n s) (\<lambda>(x, s). case x of None \<Rightarrow> Inr (r, s) | Some x \<Rightarrow> f x s)"

section \<open>Processes\<close>

definition sys_wait :: "'a procs_scheme \<Rightarrow> (int \<times> 'a procs_scheme) res" where
  "sys_wait s = wait s"

definition sys_kill :: "'a procs_scheme \<Rightarrow> (int \<times> 'a procs_scheme) res" where
  "sys_kill s = with_int 0 (- 1) (\<lambda>i s. kill i s) s"

definition sys_getpid :: "'a procs_scheme \<Rightarrow> (int \<times> 'a procs_scheme) res" where
  "sys_getpid s = rbind (curproc s) (\<lambda>(p, s). Inr (pid (ptable s p), s))"

definition sys_sbrk :: "'a procs_scheme \<Rightarrow> (int \<times> 'a procs_scheme) res" where
  "sys_sbrk s =
     with_int 0 (- 1) (\<lambda>n s.
       rbind (curproc s) (\<lambda>(p, s).
       let addr = int_of_u32 (sz (ptable s p)) in
       rbind (growproc n s) (\<lambda>(r, s).
       if r < 0 then Inr (- 1, s) else Inr (addr, s)))) s"

text \<open>
  \<^verbatim>\<open>ticks - ticks0 < n\<close> compares as unsigned. In the first round the difference is 0, so the
  process goes to sleep unless \<open>n\<close> is 0.
\<close>

definition sys_sleep :: "'a procs_scheme \<Rightarrow> (int \<times> 'a procs_scheme) res" where
  "sys_sleep s =
     with_int 0 (- 1) (\<lambda>n s.
       rbind (acquire TicksLock s) (\<lambda>s.
       let ticks0 = ticks s in
       if ticks s - ticks0 < u32_of_int n then
         rbind (curproc s) (\<lambda>(p, s).
         if killed (ptable s p) then rbind (release TicksLock s) (\<lambda>s. Inr (- 1, s))
         else sleep ChanTicks TicksLock s)
       else rbind (release TicksLock s) (\<lambda>s. Inr (0, s)))) s"

definition sys_uptime :: "'a procs_scheme \<Rightarrow> (int \<times> 'a procs_scheme) res" where
  "sys_uptime s =
     rbind (acquire TicksLock s) (\<lambda>s.
     let xticks = ticks s in
     rbind (release TicksLock s) (\<lambda>s. Inr (int_of_u32 xticks, s)))"

section \<open>Shared memory\<close>

definition sys_shmget :: "'a shm_scheme \<Rightarrow> (int \<times> 'a shm_scheme) res" where
  "sys_shmget s =
     with_int 0 (- 1) (\<lambda>key. with_int 1 (- 1) (\<lambda>z. with_int 2 (- 1) (\<lambda>shmflag s.
       shmgetHelper key (u32_of_int z) shmflag s))) s"

text \<open>\<^verbatim>\<open>sys_shmat\<close> returns a pointer, which the dispatcher stores as an integer.\<close>

definition sys_shmat :: "'a shm_scheme \<Rightarrow> (int \<times> 'a shm_scheme) res" where
  "sys_shmat s =
     with_int 0 101 (\<lambda>shmid. with_int 1 102 (\<lambda>shmaddr. with_int 2 103 (\<lambda>shmflag s.
       rbind (shmatHelper shmid shmaddr shmflag s) (\<lambda>(va, s). Inr (int_of_u32 va, s))))) s"

definition sys_shmdt :: "'a shm_scheme \<Rightarrow> (int \<times> 'a shm_scheme) res" where
  "sys_shmdt s = with_int 0 (- 1) (\<lambda>shmaddr s. shmdtHelper shmaddr s) s"

text \<open>\<^verbatim>\<open>argptr\<close> is given the size of a pointer, 4 bytes, not that of the structure.\<close>

definition sys_shmctl :: "'a shm_scheme \<Rightarrow> (int \<times> 'a shm_scheme) res" where
  "sys_shmctl s =
     with_int 0 (- 1) (\<lambda>shmid. with_int 1 (- 1) (\<lambda>cmd s.
       rbind (argptr 2 4 s) (\<lambda>(b, s).
       case b of None \<Rightarrow> Inr (- 1, s) | Some b \<Rightarrow> shmctlHelper shmid cmd b s))) s"

definition sys_removeshm :: "'a shm_scheme \<Rightarrow> (int \<times> 'a shm_scheme) res" where
  "sys_removeshm s =
     with_int 0 (- 1) (\<lambda>shm_identifier. with_int 1 (- 1) (\<lambda>flag s.
       removeshmHelper shm_identifier flag s)) s"

end
