(* ===== verification/Fork.thy ===== *)
theory Fork
  imports Syscall
begin

text \<open>
  The routines of \<^verbatim>\<open>proc.c\<close> that create and end processes and therefore touch every part of the
  kernel: the first process, \<^verbatim>\<open>fork\<close>, \<^verbatim>\<open>exit\<close> and the first return to user space.
\<close>

section \<open>Trap frames\<close>

definition store16 :: "memory \<Rightarrow> u32 \<Rightarrow> u16 \<Rightarrow> memory" where
  "store16 m a w = m(a := ucast w, a + 1 := ucast (drop_bit 8 w))"

definition load16 :: "memory \<Rightarrow> u32 \<Rightarrow> u16" where
  "load16 m a = ucast (m a) OR push_bit 8 (ucast (m (a + 1)))"

abbreviation set_mem :: "(memory \<Rightarrow> memory) \<Rightarrow> 'a phys_scheme \<Rightarrow> 'a phys_scheme" where
  "set_mem f s \<equiv> s\<lparr>mem := f (mem s)\<rparr>"

abbreviation (input) USER_CS :: u16 where "USER_CS \<equiv> 27"
abbreviation (input) USER_DS :: u16 where "USER_DS \<equiv> 35"
abbreviation (input) FL_IF :: u32 where "FL_IF \<equiv> 0x200"

definition init_trapframe :: "u32 \<Rightarrow> memory \<Rightarrow> memory" where
  "init_trapframe t m =
     (let m = memset m t 0 TF_SIZE;
          m = store16 m (t + TF_CS) USER_CS;
          m = store16 m (t + TF_DS) USER_DS;
          m = store16 m (t + TF_ES) (load16 m (t + TF_DS));
          m = store16 m (t + TF_SS) (load16 m (t + TF_DS));
          m = store32 m (t + TF_EFLAGS) FL_IF;
          m = store32 m (t + TF_ESP) PGSIZE
      in store32 m (t + TF_EIP) 0)"

section \<open>The first process\<close>

text \<open>\<open>initcode\<close> is the program linked into the kernel from \<^verbatim>\<open>initcode.S\<close>.\<close>

definition userinit :: "u8 list \<Rightarrow> 'a kern_scheme \<Rightarrow> 'a kern_scheme res" where
  "userinit initcode s =
     rbind (allocproc s) (\<lambda>(p, s).
     let s = s\<lparr>initproc := p\<rparr> in
     case p of None \<Rightarrow> Inl (Undef ''null process'')
     | Some p \<Rightarrow>
         rbind (setupkvm s) (\<lambda>(pd, s).
         let s = upd_proc p (\<lambda>q. q\<lparr>pgdir := pd\<rparr>) s in
         if pd = 0 then Inl (Panic ''userinit: out of memory?'')
         else
           rbind (inituvm pd initcode s) (\<lambda>s.
           let s = upd_proc p (\<lambda>q. q\<lparr>sz := PGSIZE\<rparr>) s;
               s = set_mem (init_trapframe (tf (ptable s p))) s;
               s = upd_proc p (\<lambda>q. q\<lparr>pname := ''initcode''\<rparr>) s
           in
           rbind (namei [SLASH] s) (\<lambda>(d, s).
           make_runnable p (upd_proc p (\<lambda>q. q\<lparr>cwd := d\<rparr>) s)))))"

text \<open>\<^verbatim>\<open>forkret\<close> initialises the file system when the first process runs.\<close>

definition forkret :: "'a kern_scheme \<Rightarrow> 'a kern_scheme res" where
  "forkret s =
     rbind (forkret_release s) (\<lambda>s.
     if forkret_first s then
       rbind (iinit ROOTDEV (s\<lparr>forkret_first := False\<rparr>)) (\<lambda>s. initlog ROOTDEV s)
     else Inr s)"

section \<open>Fork\<close>

primrec fork_files :: "nat list \<Rightarrow> nat \<Rightarrow> nat \<Rightarrow> 'a kern_scheme \<Rightarrow> 'a kern_scheme res" where
  "fork_files [] cur np s = Inr s"
| "fork_files (i # is) cur np s =
     (case ofile (ptable s cur) i of
        None \<Rightarrow> fork_files is cur np s
      | Some f \<Rightarrow>
          rbind (filedup f s) (\<lambda>(f, s).
          fork_files is cur np (upd_proc np (\<lambda>q. q\<lparr>ofile := (ofile q)(i := Some f)\<rparr>) s)))"

text \<open>Copying the attached segments: a run of slots with the same id counts as one attachment.\<close>

primrec fork_shm :: "nat list \<Rightarrow> nat \<Rightarrow> nat \<Rightarrow> int \<Rightarrow> 'a kern_scheme \<Rightarrow> 'a kern_scheme res" where
  "fork_shm [] cur np last_shmid s = Inr s"
| "fork_shm (i # is) cur np last_shmid s =
     (let a = shmsegs (ptable s cur) i;
          s = upd_proc np (\<lambda>q. q\<lparr>shmsegs := (shmsegs q)(i := a)\<rparr>) s;
          temp_shmid = at_shmid a
      in
      if temp_shmid = - 1 \<or> temp_shmid = last_shmid then fork_shm is cur np last_shmid s
      else
        rbind (updateShmSeg temp_shmid (pid (ptable s np)) 0 s) (\<lambda>s.
        fork_shm is cur np temp_shmid s))"

text \<open>The trap frame of the child is a copy of the parent's with result 0.\<close>

definition fork_frame :: "nat \<Rightarrow> nat \<Rightarrow> 'a procs_scheme \<Rightarrow> 'a procs_scheme" where
  "fork_frame cur np s =
     (let t = tf (ptable s np) in
      set_mem (\<lambda>m. store32 (memmove m t (tf (ptable s cur)) TF_SIZE) (t + TF_EAX) 0) s)"

definition fork :: "'a kern_scheme \<Rightarrow> (int \<times> 'a kern_scheme) res" where
  "fork s =
     rbind (curproc s) (\<lambda>(cur, s).
     rbind (allocproc s) (\<lambda>(np, s).
     case np of None \<Rightarrow> Inr (- 1, s)
     | Some np \<Rightarrow>
         rbind (copyuvm (pgdir (ptable s cur)) (sz (ptable s cur)) s) (\<lambda>(pd, s).
         let s = upd_proc np (\<lambda>q. q\<lparr>pgdir := pd\<rparr>) s in
         if pd = 0 then
           rbind (kfree (kstack (ptable s np)) s) (\<lambda>s.
           Inr (- 1, upd_proc np (\<lambda>q. q\<lparr>kstack := 0, pstate := UNUSED\<rparr>) s))
         else
           let s = upd_proc np (\<lambda>q. q\<lparr>sz := sz (ptable s cur), parent := Some cur\<rparr>) s;
               s = fork_frame cur np s
           in
           rbind (fork_files [0..<NOFILE] cur np s) (\<lambda>s.
           case cwd (ptable s cur) of None \<Rightarrow> Inl (Undef ''null inode'')
           | Some d \<Rightarrow>
               rbind (idup d s) (\<lambda>(d, s).
               let s = upd_proc np (\<lambda>q. q\<lparr>cwd := Some d, pname := take 15 (pname (ptable s cur))\<rparr>) s;
                   npid = pid (ptable s np)
               in
               rbind (acquire PtableLock s) (\<lambda>s.
               rbind (if pid (ptable s cur) > 2 then fork_shm [0..<4096] cur np (- 2) s
                      else Inr (upd_proc np (\<lambda>q. q\<lparr>shmsegs :=
                        (\<lambda>i. if i < 4096 then \<lparr>isAttached = 0, at_shmid = - 1\<rparr> else shmsegs q i)\<rparr>) s)) (\<lambda>s.
               rbind (release PtableLock (upd_proc np (\<lambda>q. q\<lparr>pstate := RUNNABLE\<rparr>) s)) (\<lambda>s.
               Inr (npid, s)))))))))"

section \<open>Exit\<close>

primrec exit_files :: "nat list \<Rightarrow> nat \<Rightarrow> 'a kern_scheme \<Rightarrow> 'a kern_scheme res" where
  "exit_files [] cur s = Inr s"
| "exit_files (fd # fds) cur s =
     (case ofile (ptable s cur) fd of
        None \<Rightarrow> exit_files fds cur s
      | Some f \<Rightarrow>
          rbind (fileclose f s) (\<lambda>s.
          exit_files fds cur (upd_proc cur (\<lambda>q. q\<lparr>ofile := (ofile q)(fd := None)\<rparr>) s)))"

text \<open>Up to the switch to the scheduler, from which the process never comes back.\<close>

definition exit_out :: "'a kern_scheme \<Rightarrow> (bool \<times> 'a kern_scheme) res" where
  "exit_out s =
     rbind (curproc s) (\<lambda>(cur, s).
     if initproc s = Some cur then Inl (Panic ''init exiting'')
     else
       rbind (exit_files [0..<NOFILE] cur s) (\<lambda>s.
       rbind (begin_op s) (\<lambda>s.
       case cwd (ptable s cur) of None \<Rightarrow> Inl (Undef ''null inode'')
       | Some d \<Rightarrow>
           rbind (iput d s) (\<lambda>s.
           rbind (end_op s) (\<lambda>s.
           exit_sched cur (upd_proc cur (\<lambda>q. q\<lparr>cwd := None\<rparr>) s))))))"

definition sys_fork :: "'a kern_scheme \<Rightarrow> (int \<times> 'a kern_scheme) res" where
  "sys_fork s = fork s"

definition sys_exit :: "'a kern_scheme \<Rightarrow> (int \<times> 'a kern_scheme) res" where
  "sys_exit s = rbind (exit_out s) (\<lambda>_. Inl Exits)"

end
