(* ===== verification/Exec.thy ===== *)
theory Exec
  imports Fork
begin

text \<open>
  Loading programs: \<^verbatim>\<open>loaduvm\<close> of \<^verbatim>\<open>vm.c\<close> and \<^verbatim>\<open>exec.c\<close>. The ELF headers (\<^verbatim>\<open>elf.h\<close>) are read from the
  bytes of the file.
\<close>

section \<open>Loading a segment\<close>

text \<open>\<open>i\<close> counts pages; \<open>unat sz - 4096 * i\<close> bytes are left.\<close>

primrec loaduvm_loop ::
  "nat list \<Rightarrow> u32 \<Rightarrow> u32 \<Rightarrow> nat \<Rightarrow> u32 \<Rightarrow> u32 \<Rightarrow> 'a kern_scheme \<Rightarrow> (int \<times> 'a kern_scheme) res"
where
  "loaduvm_loop [] pd addr ip off z s = (if z > 0xFFFFF000 then Inl Wraps else Inr (0, s))"
| "loaduvm_loop (k # ks) pd addr ip off z s =
     (let i = of_nat (4096 * k) in
      rbind (walkpgdir pd (addr + i) False s) (\<lambda>(pte, s).
      if pte = 0 then Inl (Panic ''loaduvm: address should exist'')
      else
        let pa = PTE_ADDR (load32 (mem s) pte);
            n = (if z - i < PGSIZE then z - i else PGSIZE)
        in
        rbind (readi ip (ToKernel (P2V pa)) (off + i) n s) (\<lambda>(r, _, s).
        if r \<noteq> int_of_u32 n then Inr (- 1, s)
        else loaduvm_loop ks pd addr ip off z s)))"

definition loaduvm ::
  "u32 \<Rightarrow> u32 \<Rightarrow> nat \<Rightarrow> u32 \<Rightarrow> u32 \<Rightarrow> 'a kern_scheme \<Rightarrow> (int \<times> 'a kern_scheme) res"
where
  "loaduvm pd addr ip off z s =
     (if addr mod PGSIZE \<noteq> 0 then Inl (Panic ''loaduvm: addr must be page aligned'')
      else loaduvm_loop [0..<(unat z + 4095) div 4096] pd addr ip off z s)"

section \<open>ELF headers\<close>

record elfhdr =
  eh_magic :: u32
  eh_entry :: u32
  eh_phoff :: u32
  eh_phnum :: u16

definition get_elfhdr :: "u8 list \<Rightarrow> elfhdr" where
  "get_elfhdr d = \<lparr>eh_magic = get32 0 d, eh_entry = get32 24 d, eh_phoff = get32 28 d, eh_phnum = get16 44 d\<rparr>"

record proghdr =
  ph_type :: u32
  ph_off :: u32
  ph_vaddr :: u32
  ph_filesz :: u32
  ph_memsz :: u32

definition get_proghdr :: "u8 list \<Rightarrow> proghdr" where
  "get_proghdr d = \<lparr>ph_type = get32 0 d, ph_off = get32 4 d, ph_vaddr = get32 8 d, ph_filesz = get32 16 d,
     ph_memsz = get32 20 d\<rparr>"

abbreviation (input) ELF_MAGIC :: u32 where "ELF_MAGIC \<equiv> 0x464C457F"
abbreviation (input) ELF_PROG_LOAD :: u32 where "ELF_PROG_LOAD \<equiv> 1"

section \<open>exec\<close>

text \<open>The loop over the program headers; the result \<open>None\<close> is a jump to \<^verbatim>\<open>bad\<close>.\<close>

primrec exec_load ::
  "nat \<Rightarrow> u32 \<Rightarrow> u32 \<Rightarrow> u32 \<Rightarrow> nat \<Rightarrow> 'a kern_scheme \<Rightarrow> (u32 option \<times> 'a kern_scheme) res"
where
  "exec_load 0 off z pd ip s = Inr (Some z, s)"
| "exec_load (Suc k) off z pd ip s =
     rbind (readi ip ToLocal off 32 s) (\<lambda>(r, d, s).
     let ph = get_proghdr d in
     if r \<noteq> 32 then Inr (None, s)
     else if ph_type ph \<noteq> ELF_PROG_LOAD then exec_load k (off + 32) z pd ip s
     else if ph_memsz ph < ph_filesz ph then Inr (None, s)
     else if ph_vaddr ph + ph_memsz ph < ph_vaddr ph then Inr (None, s)
     else
       rbind (allocuvm pd z (ph_vaddr ph + ph_memsz ph) s) (\<lambda>(z, s).
       if z = 0 then Inr (None, s)
       else if ph_vaddr ph mod PGSIZE \<noteq> 0 then Inr (None, s)
       else
         rbind (loaduvm pd (ph_vaddr ph) ip (ph_off ph) (ph_filesz ph) s) (\<lambda>(r, s).
         if r < 0 then Inr (None, s) else exec_load k (off + 32) z pd ip s)))"

text \<open>Pushing the argument strings; the addresses they get are collected for the argument vector.\<close>

primrec exec_args ::
  "u8 list list \<Rightarrow> u32 \<Rightarrow> u32 list \<Rightarrow> u32 \<Rightarrow> 'a kern_scheme \<Rightarrow> ((u32 \<times> u32 list) option \<times> 'a kern_scheme) res"
where
  "exec_args [] sp ptrs pd s = Inr (Some (sp, ptrs), s)"
| "exec_args (a # as) sp ptrs pd s =
     (if length ptrs \<ge> MAXARG then Inr (None, s)
      else
        let sp = (sp - of_nat (length a + 1)) AND NOT 3 in
        rbind (copyout pd sp (a @ [0]) s) (\<lambda>(r, s).
        if r < 0 then Inr (None, s) else exec_args as sp (ptrs @ [sp]) pd s))"

definition exec_ustack :: "u32 \<Rightarrow> u32 list \<Rightarrow> u32 list" where
  "exec_ustack sp ptrs =
     (let argc = of_nat (length ptrs) in [0xffffffff, argc, sp - (argc + 1) * 4] @ ptrs @ [0])"

text \<open>The part of the path after the last slash, cut to 15 characters.\<close>

definition exec_name :: "u8 list \<Rightarrow> string" where
  "exec_name path = map (\<lambda>b. char_of (unat b)) (take 15 (rev (takeWhile (\<lambda>c. c \<noteq> SLASH) (rev path))))"

primrec exec_shm :: "nat list \<Rightarrow> nat \<Rightarrow> int \<Rightarrow> 'a kern_scheme \<Rightarrow> 'a kern_scheme res" where
  "exec_shm [] cur last_shmid s = Inr s"
| "exec_shm (i # is) cur last_shmid s =
     (if isAttached (shmsegs (ptable s cur) i) = 1 then
        let temp_shmid = at_shmid (shmsegs (ptable s cur) i);
            s = upd_proc cur (\<lambda>q. q\<lparr>shmsegs := (shmsegs q)(i := \<lparr>isAttached = 0, at_shmid = - 1\<rparr>)\<rparr>) s
        in
        if temp_shmid = last_shmid then exec_shm is cur last_shmid s
        else
          rbind (updateShmSeg temp_shmid (- 1) 1 s) (\<lambda>s.
          exec_shm is cur temp_shmid s)
      else exec_shm is cur last_shmid s)"

text \<open>The code at the label \<^verbatim>\<open>bad\<close>.\<close>

definition exec_bad :: "u32 \<Rightarrow> nat option \<Rightarrow> 'a kern_scheme \<Rightarrow> (int \<times> 'a kern_scheme) res" where
  "exec_bad pd ip s =
     rbind (if pd \<noteq> 0 then freevm pd s else Inr s) (\<lambda>s.
     case ip of None \<Rightarrow> Inr (- 1, s)
     | Some ip \<Rightarrow> rbind (iunlockput ip s) (\<lambda>s. rbind (end_op s) (\<lambda>s. Inr (- 1, s))))"

text \<open>Switching to the new image.\<close>

definition exec_commit ::
  "nat \<Rightarrow> u8 list \<Rightarrow> u32 \<Rightarrow> u32 \<Rightarrow> u32 \<Rightarrow> u32 \<Rightarrow> 'a kern_scheme \<Rightarrow> (int \<times> 'a kern_scheme) res"
where
  "exec_commit cur path pd z sp ent s =
     (let oldpgdir = pgdir (ptable s cur);
          s = upd_proc cur (\<lambda>q. q\<lparr>pname := exec_name path, pgdir := pd, sz := z\<rparr>) s;
          t = tf (ptable s cur);
          s = set_mem (\<lambda>m. store32 (store32 m (t + TF_EIP) ent) (t + TF_ESP) sp) s
      in
      rbind (exec_shm [0..<4096] cur (- 2) s) (\<lambda>s.
      rbind (switchuvm (Some cur) s) (\<lambda>s.
      rbind (freevm oldpgdir s) (\<lambda>s. Inr (0, s)))))"

text \<open>From the end of the file accesses to the switch: the stack and the arguments.\<close>

definition exec_stack ::
  "nat \<Rightarrow> u8 list \<Rightarrow> u8 list list \<Rightarrow> u32 \<Rightarrow> u32 \<Rightarrow> u32 \<Rightarrow> 'a kern_scheme \<Rightarrow> (int \<times> 'a kern_scheme) res"
where
  "exec_stack cur path argv pd z ent s =
     (let z = PGROUNDUP z in
      rbind (allocuvm pd z (z + 2 * PGSIZE) s) (\<lambda>(z, s).
      if z = 0 then exec_bad pd None s
      else
        rbind (clearpteu pd (z - 2 * PGSIZE) s) (\<lambda>s.
        rbind (exec_args argv z [] pd s) (\<lambda>(r, s).
        case r of None \<Rightarrow> exec_bad pd None s
        | Some (sp, ptrs) \<Rightarrow>
            let ustack = exec_ustack sp ptrs;
                sp = sp - of_nat (4 * length ustack)
            in
            rbind (copyout pd sp (concat (map bytes_of_u32 ustack)) s) (\<lambda>(r, s).
            if r < 0 then exec_bad pd None s
            else exec_commit cur path pd z sp ent s)))))"

definition exec :: "u8 list \<Rightarrow> u8 list list \<Rightarrow> 'a kern_scheme \<Rightarrow> (int \<times> 'a kern_scheme) res" where
  "exec path argv s =
     rbind (curproc s) (\<lambda>(cur, s).
     rbind (begin_op s) (\<lambda>s.
     rbind (namei path s) (\<lambda>(ip, s).
     case ip of None \<Rightarrow>
         rbind (end_op s) (\<lambda>s.
         rbind (cprintf (chars ''exec: fail'' @ [NL]) [] s) (\<lambda>s. Inr (- 1, s)))
     | Some ip \<Rightarrow>
         rbind (ilock (Some ip) s) (\<lambda>s.
         rbind (readi ip ToLocal 0 52 s) (\<lambda>(r, d, s).
         let elf = get_elfhdr d in
         if r \<noteq> 52 then exec_bad 0 (Some ip) s
         else if eh_magic elf \<noteq> ELF_MAGIC then exec_bad 0 (Some ip) s
         else
           rbind (setupkvm s) (\<lambda>(pd, s).
           if pd = 0 then exec_bad 0 (Some ip) s
           else
             rbind (exec_load (unat (eh_phnum elf)) (eh_phoff elf) 0 pd ip s) (\<lambda>(z, s).
             case z of None \<Rightarrow> exec_bad pd (Some ip) s
             | Some z \<Rightarrow>
                 rbind (iunlockput ip s) (\<lambda>s.
                 rbind (end_op s) (\<lambda>s.
                 exec_stack cur path argv pd z (eh_entry elf) s)))))))))"

end
