(* ===== verification/Sysfile.thy ===== *)
theory Sysfile
  imports Exec
begin

text \<open>
  The file system calls of \<^verbatim>\<open>sysfile.c\<close>. Each returns what the code returns, with the state it
  leaves behind.
\<close>

section \<open>Descriptors\<close>

definition argfd :: "nat \<Rightarrow> 'a kern_scheme \<Rightarrow> ((nat \<times> nat) option \<times> 'a kern_scheme) res" where
  "argfd n s =
     rbind (argint n s) (\<lambda>(fd, s).
     case fd of None \<Rightarrow> Inr (None, s)
     | Some fd \<Rightarrow>
         if fd < 0 \<or> fd \<ge> NOFILE then Inr (None, s)
         else
           rbind (curproc s) (\<lambda>(p, s).
           case ofile (ptable s p) (nat fd) of
             None \<Rightarrow> Inr (None, s)
           | Some f \<Rightarrow> Inr (Some (nat fd, f), s)))"

definition set_ofile :: "nat \<Rightarrow> nat \<Rightarrow> nat option \<Rightarrow> 'a procs_scheme \<Rightarrow> 'a procs_scheme" where
  "set_ofile p fd f s = upd_proc p (\<lambda>q. q\<lparr>ofile := (ofile q)(fd := f)\<rparr>) s"

definition fdalloc :: "nat \<Rightarrow> 'a kern_scheme \<Rightarrow> (nat option \<times> 'a kern_scheme) res" where
  "fdalloc f s =
     rbind (curproc s) (\<lambda>(p, s).
     case find (\<lambda>fd. ofile (ptable s p) fd = None) [0..<NOFILE] of
       Some fd \<Rightarrow> Inr (Some fd, set_ofile p fd (Some f) s)
     | None \<Rightarrow> Inr (None, s))"

definition sys_dup :: "'a kern_scheme \<Rightarrow> (int \<times> 'a kern_scheme) res" where
  "sys_dup s =
     rbind (argfd 0 s) (\<lambda>(a, s).
     case a of None \<Rightarrow> Inr (- 1, s)
     | Some (_, f) \<Rightarrow>
         rbind (fdalloc f s) (\<lambda>(fd, s).
         case fd of None \<Rightarrow> Inr (- 1, s)
         | Some fd \<Rightarrow> rbind (filedup f s) (\<lambda>(_, s). Inr (int fd, s))))"

text \<open>The arguments that \<^verbatim>\<open>sys_read\<close> and \<^verbatim>\<open>sys_write\<close> fetch: file, pointer and length.\<close>

definition arg_transfer :: "'a kern_scheme \<Rightarrow> ((nat \<times> u32 \<times> int) option \<times> 'a kern_scheme) res" where
  "arg_transfer s =
     rbind (argfd 0 s) (\<lambda>(a, s).
     case a of None \<Rightarrow> Inr (None, s)
     | Some (_, f) \<Rightarrow>
         rbind (argint 2 s) (\<lambda>(n, s).
         case n of None \<Rightarrow> Inr (None, s)
         | Some n \<Rightarrow>
             rbind (argptr 1 n s) (\<lambda>(p, s).
             case p of None \<Rightarrow> Inr (None, s) | Some p \<Rightarrow> Inr (Some (f, p, n), s))))"

definition sys_read :: "'a kern_scheme \<Rightarrow> (int \<times> 'a kern_scheme) res" where
  "sys_read s =
     rbind (arg_transfer s) (\<lambda>(a, s).
     case a of None \<Rightarrow> Inr (- 1, s) | Some (f, p, n) \<Rightarrow> fileread f p n s)"

definition sys_write :: "'a kern_scheme \<Rightarrow> (int \<times> 'a kern_scheme) res" where
  "sys_write s =
     rbind (arg_transfer s) (\<lambda>(a, s).
     case a of None \<Rightarrow> Inr (- 1, s) | Some (f, p, n) \<Rightarrow> filewrite f p n s)"

definition sys_close :: "'a kern_scheme \<Rightarrow> (int \<times> 'a kern_scheme) res" where
  "sys_close s =
     rbind (argfd 0 s) (\<lambda>(a, s).
     case a of None \<Rightarrow> Inr (- 1, s)
     | Some (fd, f) \<Rightarrow>
         rbind (curproc s) (\<lambda>(p, s).
         rbind (fileclose f (set_ofile p fd None s)) (\<lambda>s. Inr (0, s))))"

text \<open>\<^verbatim>\<open>struct stat\<close> in user memory, with the padding the compiler inserts.\<close>

definition store_stat :: "u32 \<Rightarrow> stat \<Rightarrow> 'a phys_scheme \<Rightarrow> 'a phys_scheme res" where
  "store_stat a st s =
     rbind (ustore32 (a + 4) (u32_of_int (st_dev st)) s) (\<lambda>s.
     rbind (ustore32 (a + 8) (st_ino st) s) (\<lambda>s.
     rbind (ustore_bytes (bytes_of_u16 (st_type st)) a s) (\<lambda>s.
     rbind (ustore_bytes (bytes_of_u16 (st_nlink st)) (a + 12) s) (\<lambda>s.
     ustore32 (a + 16) (st_size st) s))))"

definition sys_fstat :: "'a kern_scheme \<Rightarrow> (int \<times> 'a kern_scheme) res" where
  "sys_fstat s =
     rbind (argfd 0 s) (\<lambda>(a, s).
     case a of None \<Rightarrow> Inr (- 1, s)
     | Some (_, f) \<Rightarrow>
         rbind (argptr 1 20 s) (\<lambda>(p, s).
         case p of None \<Rightarrow> Inr (- 1, s)
         | Some p \<Rightarrow>
             rbind (filestat f s) (\<lambda>(st, s).
             case st of None \<Rightarrow> Inr (- 1, s)
             | Some st \<Rightarrow> rbind (store_stat p st s) (\<lambda>s. Inr (0, s)))))"

section \<open>Links\<close>

text \<open>\<^verbatim>\<open>end_op(); return r\<close>\<close>

definition end_with :: "int \<Rightarrow> 'a kern_scheme \<Rightarrow> (int \<times> 'a kern_scheme) res" where
  "end_with r s = rbind (end_op s) (\<lambda>s. Inr (r, s))"

definition add_nlink :: "u16 \<Rightarrow> nat \<Rightarrow> 'a kern_scheme \<Rightarrow> 'a kern_scheme res" where
  "add_nlink d ip s = iupdate ip (upd_inode ip (\<lambda>x. x\<lparr>i_nlink := i_nlink x + d\<rparr>) s)"

definition link_bad :: "nat \<Rightarrow> 'a kern_scheme \<Rightarrow> (int \<times> 'a kern_scheme) res" where
  "link_bad ip s =
     rbind (ilock (Some ip) s) (\<lambda>s.
     rbind (add_nlink (- 1) ip s) (\<lambda>s.
     rbind (iunlockput ip s) (\<lambda>s.
     end_with (- 1) s)))"

definition link_path :: "u8 list \<Rightarrow> u8 list \<Rightarrow> 'a kern_scheme \<Rightarrow> (int \<times> 'a kern_scheme) res" where
  "link_path old new s =
     rbind (begin_op s) (\<lambda>s.
     rbind (namei old s) (\<lambda>(ip, s).
     case ip of None \<Rightarrow> end_with (- 1) s
     | Some ip \<Rightarrow>
         rbind (ilock (Some ip) s) (\<lambda>s.
         if i_type (icache s ip) = T_DIR then rbind (iunlockput ip s) (\<lambda>s. end_with (- 1) s)
         else
           rbind (add_nlink 1 ip s) (\<lambda>s.
           rbind (iunlock (Some ip) s) (\<lambda>s.
           rbind (nameiparent new s) (\<lambda>(r, s).
           case r of None \<Rightarrow> link_bad ip s
           | Some (dp, nm) \<Rightarrow>
               rbind (ilock (Some dp) s) (\<lambda>s.
               rbind (if i_dev (icache s dp) \<noteq> i_dev (icache s ip) then Inr (- 1, s)
                      else dirlink dp nm (i_inum (icache s ip)) s) (\<lambda>(r, s).
               if r < 0 then rbind (iunlockput dp s) (\<lambda>s. link_bad ip s)
               else
                 rbind (iunlockput dp s) (\<lambda>s.
                 rbind (iput ip s) (\<lambda>s.
                 end_with 0 s)))))))))) "

definition sys_link :: "'a kern_scheme \<Rightarrow> (int \<times> 'a kern_scheme) res" where
  "sys_link s =
     rbind (argstr 0 s) (\<lambda>(old, s).
     case old of None \<Rightarrow> Inr (- 1, s)
     | Some old \<Rightarrow>
         rbind (argstr 1 s) (\<lambda>(new, s).
         case new of None \<Rightarrow> Inr (- 1, s) | Some new \<Rightarrow> link_path old new s))"

primrec isdirempty_loop :: "nat list \<Rightarrow> nat \<Rightarrow> 'a kern_scheme \<Rightarrow> (bool \<times> 'a kern_scheme) res" where
  "isdirempty_loop [] dp s = Inr (True, s)"
| "isdirempty_loop (i # is) dp s =
     rbind (readi dp ToLocal (of_nat (16 * i)) 16 s) (\<lambda>(r, de, s).
     if r \<noteq> 16 then Inl (Panic ''isdirempty: readi'')
     else if dirent_inum de \<noteq> 0 then Inr (False, s)
     else isdirempty_loop is dp s)"

definition isdirempty :: "nat \<Rightarrow> 'a kern_scheme \<Rightarrow> (bool \<times> 'a kern_scheme) res" where
  "isdirempty dp s = isdirempty_loop [2..<n_dirents (i_size (icache s dp))] dp s"

definition unlink_bad :: "nat \<Rightarrow> 'a kern_scheme \<Rightarrow> (int \<times> 'a kern_scheme) res" where
  "unlink_bad dp s = rbind (iunlockput dp s) (\<lambda>s. end_with (- 1) s)"

text \<open>Erasing the entry at \<open>off\<close> of \<open>dp\<close>, which names \<open>ip\<close>.\<close>

definition unlink_entry :: "nat \<Rightarrow> nat \<Rightarrow> u32 \<Rightarrow> 'a kern_scheme \<Rightarrow> (int \<times> 'a kern_scheme) res" where
  "unlink_entry dp ip off s =
     rbind (writei dp (FromLocal (replicate 16 0)) off 16 s) (\<lambda>(r, s).
     if r \<noteq> 16 then Inl (Panic ''unlink: writei'')
     else
       rbind (if i_type (icache s ip) = T_DIR then add_nlink (- 1) dp s else Inr s) (\<lambda>s.
       rbind (iunlockput dp s) (\<lambda>s.
       rbind (add_nlink (- 1) ip s) (\<lambda>s.
       rbind (iunlockput ip s) (\<lambda>s.
       end_with 0 s)))))"

definition unlink_path :: "u8 list \<Rightarrow> 'a kern_scheme \<Rightarrow> (int \<times> 'a kern_scheme) res" where
  "unlink_path path s =
     rbind (begin_op s) (\<lambda>s.
     rbind (nameiparent path s) (\<lambda>(r, s).
     case r of None \<Rightarrow> end_with (- 1) s
     | Some (dp, nm) \<Rightarrow>
         rbind (ilock (Some dp) s) (\<lambda>s.
         if namecmp nm [46] = 0 \<or> namecmp nm [46, 46] = 0 then unlink_bad dp s
         else
           rbind (dirlookup dp nm s) (\<lambda>(r, s).
           case r of None \<Rightarrow> unlink_bad dp s
           | Some (ip, off) \<Rightarrow>
               rbind (ilock (Some ip) s) (\<lambda>s.
               if sint (i_nlink (icache s ip)) < 1 then Inl (Panic ''unlink: nlink < 1'')
               else
                 rbind (if i_type (icache s ip) = T_DIR then isdirempty ip s else Inr (True, s)) (\<lambda>(e, s).
                 if \<not> e then rbind (iunlockput ip s) (\<lambda>s. unlink_bad dp s)
                 else unlink_entry dp ip off s))))))"

definition sys_unlink :: "'a kern_scheme \<Rightarrow> (int \<times> 'a kern_scheme) res" where
  "sys_unlink s =
     rbind (argstr 0 s) (\<lambda>(path, s).
     case path of None \<Rightarrow> Inr (- 1, s) | Some path \<Rightarrow> unlink_path path s)"

section \<open>Creating and opening\<close>

text \<open>The entries \<open>.\<close> and \<open>..\<close> of a new directory; the second call is made only if the first succeeds.\<close>

definition create_dots :: "nat \<Rightarrow> nat \<Rightarrow> 'a kern_scheme \<Rightarrow> 'a kern_scheme res" where
  "create_dots dp ip s =
     rbind (add_nlink 1 dp s) (\<lambda>s.
     rbind (dirlink ip [46] (i_inum (icache s ip)) s) (\<lambda>(r, s).
     if r < 0 then Inl (Panic ''create dots'')
     else
       rbind (dirlink ip [46, 46] (i_inum (icache s dp)) s) (\<lambda>(r, s).
       if r < 0 then Inl (Panic ''create dots'') else Inr s)))"

definition create :: "u8 list \<Rightarrow> u16 \<Rightarrow> u16 \<Rightarrow> u16 \<Rightarrow> 'a kern_scheme \<Rightarrow> (nat option \<times> 'a kern_scheme) res" where
  "create path ty maj mnr s =
     rbind (nameiparent path s) (\<lambda>(r, s).
     case r of None \<Rightarrow> Inr (None, s)
     | Some (dp, nm) \<Rightarrow>
         rbind (ilock (Some dp) s) (\<lambda>s.
         rbind (dirlookup dp nm s) (\<lambda>(r, s).
         case r of
           Some (ip, _) \<Rightarrow>
             rbind (iunlockput dp s) (\<lambda>s.
             rbind (ilock (Some ip) s) (\<lambda>s.
             if ty = T_FILE \<and> i_type (icache s ip) = T_FILE then Inr (Some ip, s)
             else rbind (iunlockput ip s) (\<lambda>s. Inr (None, s))))
         | None \<Rightarrow>
             rbind (ialloc (i_dev (icache s dp)) ty s) (\<lambda>(ip, s).
             rbind (ilock (Some ip) s) (\<lambda>s.
             rbind (iupdate ip (upd_inode ip (\<lambda>x. x\<lparr>i_major := maj, i_minor := mnr, i_nlink := 1\<rparr>) s)) (\<lambda>s.
             rbind (if ty = T_DIR then create_dots dp ip s else Inr s) (\<lambda>s.
             rbind (dirlink dp nm (i_inum (icache s ip)) s) (\<lambda>(r, s).
             if r < 0 then Inl (Panic ''create: dirlink'')
             else rbind (iunlockput dp s) (\<lambda>s. Inr (Some ip, s)))))))))) "

abbreviation (input) O_WRONLY :: int where "O_WRONLY \<equiv> 1"
abbreviation (input) O_RDWR :: int where "O_RDWR \<equiv> 2"
abbreviation (input) O_CREATE :: int where "O_CREATE \<equiv> 0x200"

text \<open>The inode to open, locked; the transaction is still open.\<close>

definition open_inode :: "u8 list \<Rightarrow> int \<Rightarrow> 'a kern_scheme \<Rightarrow> (nat option \<times> 'a kern_scheme) res" where
  "open_inode path omode s =
     (if omode AND O_CREATE \<noteq> 0 then create path T_FILE 0 0 s
      else
        rbind (namei path s) (\<lambda>(ip, s).
        case ip of None \<Rightarrow> Inr (None, s)
        | Some ip \<Rightarrow>
            rbind (ilock (Some ip) s) (\<lambda>s.
            if i_type (icache s ip) = T_DIR \<and> omode \<noteq> 0 then rbind (iunlockput ip s) (\<lambda>s. Inr (None, s))
            else Inr (Some ip, s))))"

definition open_fail :: "nat \<Rightarrow> 'a kern_scheme \<Rightarrow> (int \<times> 'a kern_scheme) res" where
  "open_fail ip s = rbind (iunlockput ip s) (\<lambda>s. end_with (- 1) s)"

definition open_path :: "u8 list \<Rightarrow> int \<Rightarrow> 'a kern_scheme \<Rightarrow> (int \<times> 'a kern_scheme) res" where
  "open_path path omode s =
     rbind (begin_op s) (\<lambda>s.
     rbind (open_inode path omode s) (\<lambda>(ip, s).
     case ip of None \<Rightarrow> end_with (- 1) s
     | Some ip \<Rightarrow>
         rbind (filealloc s) (\<lambda>(f, s).
         case f of None \<Rightarrow> open_fail ip s
         | Some f \<Rightarrow>
             rbind (fdalloc f s) (\<lambda>(fd, s).
             case fd of None \<Rightarrow> rbind (fileclose f s) (\<lambda>s. open_fail ip s)
             | Some fd \<Rightarrow>
                 rbind (iunlock (Some ip) s) (\<lambda>s.
                 rbind (end_op s) (\<lambda>s.
                 Inr (int fd, upd_file f (\<lambda>x. x\<lparr>f_type := FD_INODE, f_ip := Some ip, f_off := 0,
                   f_readable := (omode AND O_WRONLY = 0),
                   f_writable := (omode AND O_WRONLY \<noteq> 0 \<or> omode AND O_RDWR \<noteq> 0)\<rparr>) s)))))))"

definition sys_open :: "'a kern_scheme \<Rightarrow> (int \<times> 'a kern_scheme) res" where
  "sys_open s =
     rbind (argstr 0 s) (\<lambda>(path, s).
     case path of None \<Rightarrow> Inr (- 1, s)
     | Some path \<Rightarrow>
         rbind (argint 1 s) (\<lambda>(omode, s).
         case omode of None \<Rightarrow> Inr (- 1, s) | Some omode \<Rightarrow> open_path path omode s))"

text \<open>The common end of \<^verbatim>\<open>sys_mkdir\<close> and \<^verbatim>\<open>sys_mknod\<close>.\<close>

definition create_end :: "nat option \<Rightarrow> 'a kern_scheme \<Rightarrow> (int \<times> 'a kern_scheme) res" where
  "create_end ip s =
     (case ip of None \<Rightarrow> end_with (- 1) s
      | Some ip \<Rightarrow> rbind (iunlockput ip s) (\<lambda>s. end_with 0 s))"

definition sys_mkdir :: "'a kern_scheme \<Rightarrow> (int \<times> 'a kern_scheme) res" where
  "sys_mkdir s =
     rbind (begin_op s) (\<lambda>s.
     rbind (argstr 0 s) (\<lambda>(path, s).
     case path of None \<Rightarrow> end_with (- 1) s
     | Some path \<Rightarrow>
         rbind (create path T_DIR 0 0 s) (\<lambda>(ip, s). create_end ip s)))"

definition sys_mknod :: "'a kern_scheme \<Rightarrow> (int \<times> 'a kern_scheme) res" where
  "sys_mknod s =
     rbind (begin_op s) (\<lambda>s.
     rbind (argstr 0 s) (\<lambda>(path, s).
     case path of None \<Rightarrow> end_with (- 1) s
     | Some path \<Rightarrow>
         rbind (argint 1 s) (\<lambda>(maj, s).
         case maj of None \<Rightarrow> end_with (- 1) s
         | Some maj \<Rightarrow>
             rbind (argint 2 s) (\<lambda>(mnr, s).
             case mnr of None \<Rightarrow> end_with (- 1) s
             | Some mnr \<Rightarrow>
                 rbind (create path T_DEV (word_of_int maj) (word_of_int mnr) s) (\<lambda>(ip, s). create_end ip s)))))"

definition sys_chdir :: "'a kern_scheme \<Rightarrow> (int \<times> 'a kern_scheme) res" where
  "sys_chdir s =
     rbind (curproc s) (\<lambda>(p, s).
     rbind (begin_op s) (\<lambda>s.
     rbind (argstr 0 s) (\<lambda>(path, s).
     case path of None \<Rightarrow> end_with (- 1) s
     | Some path \<Rightarrow>
         rbind (namei path s) (\<lambda>(ip, s).
         case ip of None \<Rightarrow> end_with (- 1) s
         | Some ip \<Rightarrow>
             rbind (ilock (Some ip) s) (\<lambda>s.
             if i_type (icache s ip) \<noteq> T_DIR then rbind (iunlockput ip s) (\<lambda>s. end_with (- 1) s)
             else
               rbind (iunlock (Some ip) s) (\<lambda>s.
               case cwd (ptable s p) of None \<Rightarrow> Inl (Undef ''null inode'')
               | Some d \<Rightarrow>
                   rbind (iput d s) (\<lambda>s.
                   rbind (end_op s) (\<lambda>s.
                   Inr (0, upd_proc p (\<lambda>q. q\<lparr>cwd := Some ip\<rparr>) s)))))))))"

section \<open>Programs and pipes\<close>

text \<open>Collecting the argument strings; \<open>k\<close> is how many more fit into \<^verbatim>\<open>argv\<close>.\<close>

primrec sys_exec_argv ::
  "nat \<Rightarrow> u32 \<Rightarrow> u8 list list \<Rightarrow> 'a kern_scheme \<Rightarrow> (u8 list list option \<times> 'a kern_scheme) res"
where
  "sys_exec_argv 0 uargv argv s = Inr (None, s)"
| "sys_exec_argv (Suc k) uargv argv s =
     rbind (fetchint uargv s) (\<lambda>(uarg, s).
     case uarg of None \<Rightarrow> Inr (None, s)
     | Some uarg \<Rightarrow>
         if uarg = 0 then Inr (Some argv, s)
         else
           rbind (fetchstr (u32_of_int uarg) s) (\<lambda>(a, s).
           case a of None \<Rightarrow> Inr (None, s)
           | Some a \<Rightarrow> sys_exec_argv k (uargv + 4) (argv @ [a]) s))"

definition sys_exec :: "'a kern_scheme \<Rightarrow> (int \<times> 'a kern_scheme) res" where
  "sys_exec s =
     rbind (argstr 0 s) (\<lambda>(path, s).
     case path of None \<Rightarrow> Inr (- 1, s)
     | Some path \<Rightarrow>
         rbind (argint 1 s) (\<lambda>(uargv, s).
         case uargv of None \<Rightarrow> Inr (- 1, s)
         | Some uargv \<Rightarrow>
             rbind (sys_exec_argv MAXARG (u32_of_int uargv) [] s) (\<lambda>(argv, s).
             case argv of None \<Rightarrow> Inr (- 1, s) | Some argv \<Rightarrow> exec path argv s)))"

definition pipe_fail :: "nat \<Rightarrow> nat \<Rightarrow> 'a kern_scheme \<Rightarrow> (int \<times> 'a kern_scheme) res" where
  "pipe_fail f0 f1 s =
     rbind (fileclose f0 s) (\<lambda>s. rbind (fileclose f1 s) (\<lambda>s. Inr (- 1, s)))"

definition sys_pipe :: "'a kern_scheme \<Rightarrow> (int \<times> 'a kern_scheme) res" where
  "sys_pipe s =
     rbind (argptr 0 8 s) (\<lambda>(fd, s).
     case fd of None \<Rightarrow> Inr (- 1, s)
     | Some fd \<Rightarrow>
         rbind (pipealloc s) (\<lambda>(r, s).
         case r of None \<Rightarrow> Inr (- 1, s)
         | Some (f0, f1) \<Rightarrow>
             rbind (fdalloc f0 s) (\<lambda>(fd0, s).
             case fd0 of None \<Rightarrow> pipe_fail f0 f1 s
             | Some fd0 \<Rightarrow>
                 rbind (fdalloc f1 s) (\<lambda>(fd1, s).
                 case fd1 of
                   None \<Rightarrow>
                     rbind (curproc s) (\<lambda>(p, s). pipe_fail f0 f1 (set_ofile p fd0 None s))
                 | Some fd1 \<Rightarrow>
                     rbind (ustore32 fd (of_nat fd0) s) (\<lambda>s.
                     rbind (ustore32 (fd + 4) (of_nat fd1) s) (\<lambda>s.
                     Inr (0, s)))))))"

end
