(* ===== verification/Trap.thy ===== *)
theory Trap
  imports Sysfile
begin

text \<open>The system call table of \<^verbatim>\<open>syscall.c\<close> and the trap handler of \<^verbatim>\<open>trap.c\<close>.\<close>

section \<open>Listing the segments\<close>

definition shminfo_row :: "int list" where
  "shminfo_row = chars ''%d '' @ TAB # chars '' %d '' @ TAB # chars '' %d '' @ TAB # chars '' %d '' @ TAB # TAB #
     chars '' %d'' @ [NL]"

primrec shminfo_loop :: "nat list \<Rightarrow> int \<Rightarrow> 'a kern_scheme \<Rightarrow> 'a kern_scheme res" where
  "shminfo_loop [] lastKey s = Inr s"
| "shminfo_loop (i # is) lastKey s =
     rbind (get_seg (int i) s) (\<lambda>g.
     if seg_key g = - 1 \<or> lastKey = seg_key g then shminfo_loop is lastKey s
     else
       rbind (cprintf shminfo_row [PInt (u32_of_int (seg_key g)), PInt (of_nat i), PInt (shm_segsz g),
         PInt (shm_nattch g), PInt (u32_of_int (shm_lpid g))] s) (\<lambda>s.
       shminfo_loop is (seg_key g) s))"

definition shminfoHelper :: "'a kern_scheme \<Rightarrow> 'a kern_scheme res" where
  "shminfoHelper s =
     rbind (cprintf (chars ''--------------- Shared Memory Segments ---------------'' @ [NL]) [] s) (\<lambda>s.
     rbind (cprintf (chars ''Last segment index: %d'' @ [NL]) [PInt (u32_of_int (lastShmSegIndex s))] s) (\<lambda>s.
     rbind (cprintf (chars ''------------------------------------------------------'' @ [NL]) [] s) (\<lambda>s.
     if lastShmSegIndex s = - 1 then Inr s
     else
       rbind (cprintf (chars ''Key '' @ TAB # chars '' Shmid '' @ TAB # chars '' Size '' @ TAB # chars '' nattach '' @
         TAB # chars '' lpid'' @ [NL, NL]) [] s) (\<lambda>s.
       shminfo_loop [0..<nat (lastShmSegIndex s + 1)] (- 1) s))))"

text \<open>\<^verbatim>\<open>sys_shminfo\<close> has no result; what the dispatcher finds in the result register is some value \<open>junk\<close>.\<close>

definition sys_shminfo :: "int \<Rightarrow> 'a kern_scheme \<Rightarrow> (int \<times> 'a kern_scheme) res" where
  "sys_shminfo junk s = rbind (shminfoHelper s) (\<lambda>s. Inr (junk, s))"

section \<open>Dispatch\<close>

definition syscalls :: "int \<Rightarrow> int \<Rightarrow> ('a kern_scheme \<Rightarrow> (int \<times> 'a kern_scheme) res) option" where
  "syscalls junk num =
     (if num = 1 then Some sys_fork else if num = 2 then Some sys_exit else if num = 3 then Some sys_wait
      else if num = 4 then Some sys_pipe else if num = 5 then Some sys_read else if num = 6 then Some sys_kill
      else if num = 7 then Some sys_exec else if num = 8 then Some sys_fstat else if num = 9 then Some sys_chdir
      else if num = 10 then Some sys_dup else if num = 11 then Some sys_getpid else if num = 12 then Some sys_sbrk
      else if num = 13 then Some sys_sleep else if num = 14 then Some sys_uptime else if num = 15 then Some sys_open
      else if num = 16 then Some sys_write else if num = 17 then Some sys_mknod else if num = 18 then Some sys_unlink
      else if num = 19 then Some sys_link else if num = 20 then Some sys_mkdir else if num = 21 then Some sys_close
      else if num = 22 then Some sys_shmget else if num = 23 then Some sys_shmat else if num = 24 then Some sys_shmdt
      else if num = 25 then Some sys_shmctl else if num = 26 then Some (sys_shminfo junk)
      else if num = 27 then Some sys_removeshm else None)"

definition set_eax :: "nat \<Rightarrow> int \<Rightarrow> 'a procs_scheme \<Rightarrow> 'a procs_scheme" where
  "set_eax p r s = set_mem (\<lambda>m. store32 m (tf (ptable s p) + TF_EAX) (u32_of_int r)) s"

definition syscall :: "int \<Rightarrow> 'a kern_scheme \<Rightarrow> 'a kern_scheme res" where
  "syscall junk s =
     rbind (curproc s) (\<lambda>(p, s).
     let num = int_of_u32 (load32 (mem s) (tf (ptable s p) + TF_EAX)) in
     case syscalls junk num of
       Some f \<Rightarrow> rbind (f s) (\<lambda>(r, s). Inr (set_eax p r s))
     | None \<Rightarrow>
         rbind (cprintf (chars ''%d %s: unknown sys call %d'' @ [NL])
           [PInt (u32_of_int (pid (ptable s p))), PStr (Some (chars (pname (ptable s p)))), PInt (u32_of_int num)] s) (\<lambda>s.
         Inr (set_eax p (- 1) s)))"

section \<open>Traps\<close>

abbreviation (input) SEG_KCODE :: u16 where "SEG_KCODE \<equiv> 1"
abbreviation (input) T_SYSCALL :: "'a::numeral" where "T_SYSCALL \<equiv> 64"
abbreviation (input) T_IRQ0 :: "'a::numeral" where "T_IRQ0 \<equiv> 32"

definition SETGATE :: "bool \<Rightarrow> u16 \<Rightarrow> u32 \<Rightarrow> nat \<Rightarrow> gatedesc" where
  "SETGATE istrap sel off d = \<lparr>off_15_0 = ucast (off AND 0xffff), cs_sel = sel, gate_args = 0, gate_rsv1 = 0,
     gate_type = (if istrap then 15 else 14), gate_s = 0, gate_dpl = d, gate_p = 1, off_31_16 = ucast (drop_bit 16 off)\<rparr>"

text \<open>\<open>vectors\<close> are the addresses of the 256 entry points of \<^verbatim>\<open>vectors.S\<close>, a generated file.\<close>

definition tvinit :: "(nat \<Rightarrow> u32) \<Rightarrow> 'a kern_scheme \<Rightarrow> 'a kern_scheme" where
  "tvinit vectors s =
     (let gates = (\<lambda>i. if i < 256 then SETGATE False (push_bit 3 SEG_KCODE) (vectors i) 0 else idt s i);
          gates = gates(T_SYSCALL := SETGATE True (push_bit 3 SEG_KCODE) (vectors T_SYSCALL) 3)
      in initlock TicksLock (s\<lparr>idt := gates\<rparr>))"

text \<open>
  How a trap ends for now: the interrupted code goes on, the process has exited, or it has given
  up the CPU on a clock tick and the rest of the handler runs when it is scheduled again.
\<close>

datatype trap_end = Resumes | Exited | Yields bool

definition timer_tick :: "'a kern_scheme \<Rightarrow> 'a kern_scheme res" where
  "timer_tick s =
     rbind (cpuid s) (\<lambda>c.
     if c = 0 then
       rbind (acquire TicksLock s) (\<lambda>s.
       rbind (wakeup ChanTicks (s\<lparr>ticks := ticks s + 1\<rparr>)) (\<lambda>s.
       release TicksLock s))
     else Inr s)"

text \<open>\<^verbatim>\<open>myproc() && myproc()->killed && (tf->cs&3) == DPL_USER\<close>, then \<^verbatim>\<open>exit()\<close>.\<close>

definition exit_if_killed ::
  "u32 \<Rightarrow> 'a kern_scheme \<Rightarrow> (bool \<times> 'a kern_scheme) res"
where
  "exit_if_killed t s =
     rbind (myproc s) (\<lambda>(p, s).
     case p of None \<Rightarrow> Inr (False, s)
     | Some p \<Rightarrow>
         if killed (ptable s p) \<and> load16 (mem s) (t + TF_CS) AND 3 = 3
         then rbind (exit_out s) (\<lambda>(_, s). Inr (True, s))
         else Inr (False, s))"

text \<open>The system call case: a killed process exits before or after the call.\<close>

definition trap_syscall :: "int \<Rightarrow> u32 \<Rightarrow> 'a kern_scheme \<Rightarrow> (trap_end \<times> 'a kern_scheme) res" where
  "trap_syscall junk t s =
     rbind (curproc s) (\<lambda>(p, s).
     if killed (ptable s p) then rbind (exit_out s) (\<lambda>(_, s). Inr (Exited, s))
     else
       rbind (syscall junk (upd_proc p (\<lambda>q. q\<lparr>tf := t\<rparr>) s)) (\<lambda>s.
       rbind (curproc s) (\<lambda>(p, s).
       if killed (ptable s p) then rbind (exit_out s) (\<lambda>(_, s). Inr (Exited, s))
       else Inr (Resumes, s))))"

text \<open>
  The \<^verbatim>\<open>switch\<close> over the other traps. \<open>input\<close> is what the keyboard or the serial port delivers,
  \<open>cr2\<close> the faulting address the processor reports. Acknowledging the interrupt
  (\<^verbatim>\<open>lapiceoi\<close>) changes no state of the model, the disk interrupt does nothing with the memory disk.
\<close>

definition trap_dispatch :: "int list \<Rightarrow> u32 \<Rightarrow> u32 \<Rightarrow> 'a kern_scheme \<Rightarrow> 'a kern_scheme res" where
  "trap_dispatch input cr2 t s =
     (let no = load32 (mem s) (t + TF_TRAPNO); cs = load16 (mem s) (t + TF_CS);
          eip = load32 (mem s) (t + TF_EIP); err = load32 (mem s) (t + TF_ERR)
      in
      if no = T_IRQ0 then timer_tick s
      else if no = T_IRQ0 + 14 \<or> no = T_IRQ0 + 15 then Inr s
      else if no = T_IRQ0 + 1 \<or> no = T_IRQ0 + 4 then consoleintr input s
      else if no = T_IRQ0 + 7 \<or> no = T_IRQ0 + 31 then
        rbind (cpuid s) (\<lambda>c.
        cprintf (chars ''cpu%d: spurious interrupt at %x:%x'' @ [NL]) [PInt (of_nat c), PInt (ucast cs), PInt eip] s)
      else
        rbind (myproc s) (\<lambda>(p, s).
        rbind (cpuid s) (\<lambda>c.
        if p = None \<or> cs AND 3 = 0 then
          rbind (cprintf (chars ''unexpected trap %d from cpu %d eip %x (cr2=0x%x)'' @ [NL])
            [PInt no, PInt (of_nat c), PInt eip, PInt cr2] s) (\<lambda>_.
          Inl (Panic ''trap''))
        else
          let q = ptable s (the p) in
          rbind (cprintf (chars ''pid %d %s: trap %d err %d on cpu %d eip 0x%x addr 0x%x--kill proc'' @ [NL])
            [PInt (u32_of_int (pid q)), PStr (Some (chars (pname q))), PInt no, PInt err, PInt (of_nat c), PInt eip,
             PInt cr2] s) (\<lambda>s.
          Inr (upd_proc (the p) (\<lambda>q. q\<lparr>killed := True\<rparr>) s)))))"

definition trap :: "int \<Rightarrow> int list \<Rightarrow> u32 \<Rightarrow> u32 \<Rightarrow> 'a kern_scheme \<Rightarrow> (trap_end \<times> 'a kern_scheme) res" where
  "trap junk input cr2 t s =
     (let no = load32 (mem s) (t + TF_TRAPNO) in
      if no = T_SYSCALL then trap_syscall junk t s
      else
        rbind (trap_dispatch input cr2 t s) (\<lambda>s.
        rbind (exit_if_killed t s) (\<lambda>(x, s).
        if x then Inr (Exited, s)
        else
          rbind (myproc s) (\<lambda>(p, s).
          case p of None \<Rightarrow> Inr (Resumes, s)
          | Some p \<Rightarrow>
              if pstate (ptable s p) = RUNNING \<and> no = T_IRQ0
              then rbind (yield_out s) (\<lambda>(ena, s). Inr (Yields ena, s))
              else
                rbind (exit_if_killed t s) (\<lambda>(x, s).
                Inr (if x then Exited else Resumes, s))))))"

text \<open>The rest of the handler after a yield.\<close>

definition trap_resume :: "bool \<Rightarrow> u32 \<Rightarrow> 'a kern_scheme \<Rightarrow> (trap_end \<times> 'a kern_scheme) res" where
  "trap_resume ena t s =
     rbind (yield_in ena s) (\<lambda>s.
     rbind (exit_if_killed t s) (\<lambda>(x, s).
     Inr (if x then Exited else Resumes, s)))"

end
