(* ===== verification/Grep.thy ===== *)
theory Grep
  imports Prelude
begin

text \<open>
  The pattern matcher and the line loop of \<^verbatim>\<open>grep.c\<close>. A C string is the list of its bytes before
  the terminating NUL, so a pointer that moves along it is the rest of the list and \<^verbatim>\<open>*text == 0\<close> is
  the empty list. The matcher is compared with the language of the pattern, given as sets of words.
\<close>

section \<open>The matcher\<close>

abbreviation (input) CARET :: u8 where "CARET \<equiv> 94"
abbreviation (input) STAR :: u8 where "STAR \<equiv> 42"
abbreviation (input) DOLLAR :: u8 where "DOLLAR \<equiv> 36"
abbreviation (input) DOT :: u8 where "DOT \<equiv> 46"
abbreviation (input) NEWLINE :: u8 where "NEWLINE \<equiv> 10"

function matchhere :: "u8 list \<Rightarrow> u8 list \<Rightarrow> bool" and matchstar :: "u8 \<Rightarrow> u8 list \<Rightarrow> u8 list \<Rightarrow> bool" where
  "matchhere re text =
     (case re of
        [] \<Rightarrow> True
      | r # rs \<Rightarrow>
          if rs \<noteq> [] \<and> hd rs = STAR then matchstar r (tl rs) text
          else if r = DOLLAR \<and> rs = [] then text = []
          else
            (case text of
               [] \<Rightarrow> False
             | t # ts \<Rightarrow> if r = DOT \<or> r = t then matchhere rs ts else False))"
| "matchstar c re text =
     (if matchhere re text then True
      else
        (case text of
           [] \<Rightarrow> False
         | t # ts \<Rightarrow> if t = c \<or> c = DOT then matchstar c re ts else False))"
  by pat_completeness auto
termination
  by (relation "measures [case_sum (\<lambda>(re, text). length re) (\<lambda>(c, re, text). length re),
        case_sum (\<lambda>(re, text). length text) (\<lambda>(c, re, text). length text), case_sum (\<lambda>_. 0) (\<lambda>_. 1)]") auto

declare matchhere.simps [simp del] matchstar.simps [simp del]

primrec match_from :: "u8 list \<Rightarrow> u8 list \<Rightarrow> bool" where
  "match_from re [] = matchhere re []"
| "match_from re (t # ts) = (if matchhere re (t # ts) then True else match_from re ts)"

definition match :: "u8 list \<Rightarrow> u8 list \<Rightarrow> bool" where
  "match re text = (if re \<noteq> [] \<and> hd re = CARET then matchhere (tl re) text else match_from re text)"

section \<open>The language of a pattern\<close>

text \<open>
  A pattern is a sequence of items, each one character or any number of characters of a class, that
  may be anchored at the end of the line.
\<close>

datatype cls = Any | Char u8

datatype item = One cls | Many cls

fun in_cls :: "cls \<Rightarrow> u8 \<Rightarrow> bool" where
  "in_cls Any t = True"
| "in_cls (Char c) t = (t = c)"

definition cls_of :: "u8 \<Rightarrow> cls" where
  "cls_of c = (if c = DOT then Any else Char c)"

fun items :: "u8 list \<Rightarrow> item list \<times> bool" where
  "items [] = ([], False)"
| "items [r] = (if r = DOLLAR then ([], True) else ([One (cls_of r)], False))"
| "items (r # q # rs) =
     (if q = STAR then let (is, e) = items rs in (Many (cls_of r) # is, e)
      else let (is, e) = items (q # rs) in (One (cls_of r) # is, e))"

primrec lang :: "item list \<Rightarrow> u8 list set" where
  "lang [] = {[]}"
| "lang (i # is) =
     (case i of
        One a \<Rightarrow> {t # u | t u. in_cls a t \<and> u \<in> lang is}
      | Many a \<Rightarrow> {s @ u | s u. list_all (in_cls a) s \<and> u \<in> lang is})"

text \<open>The text starts with a word of the language; with the anchor it is one.\<close>

definition starts :: "item list \<times> bool \<Rightarrow> u8 list \<Rightarrow> bool" where
  "starts p text \<longleftrightarrow> (\<exists>u v. text = u @ v \<and> u \<in> lang (fst p) \<and> (snd p \<longrightarrow> v = []))"

lemma in_cls_of: "in_cls (cls_of c) t \<longleftrightarrow> t = c \<or> c = DOT"
  by (auto simp: cls_of_def)

lemma starts_One:
  "starts (One a # is, e) text \<longleftrightarrow> (\<exists>t ts. text = t # ts \<and> in_cls a t \<and> starts (is, e) ts)"
proof
  assume "starts (One a # is, e) text"
  then obtain w v where w: "text = w @ v" "w \<in> lang (One a # is)" "e \<longrightarrow> v = []" by (auto simp only: starts_def fst_conv snd_conv)
  then obtain t u where "w = t # u" "in_cls a t" "u \<in> lang is" by auto
  with w have "text = t # u @ v" "in_cls a t" "u \<in> lang is" "e \<longrightarrow> v = []" by simp_all
  then show "\<exists>t ts. text = t # ts \<and> in_cls a t \<and> starts (is, e) ts" by (auto simp: starts_def)
next
  assume "\<exists>t ts. text = t # ts \<and> in_cls a t \<and> starts (is, e) ts"
  then obtain t u v where "text = t # u @ v" "in_cls a t" "u \<in> lang is" "e \<longrightarrow> v = []"
    by (auto simp only: starts_def fst_conv snd_conv)
  then show "starts (One a # is, e) text"
    unfolding starts_def by (intro exI [of _ "t # u"] exI [of _ v]) simp
qed

lemma starts_Many_iff:
  "starts (Many a # is, e) text \<longleftrightarrow> (\<exists>s ts. text = s @ ts \<and> list_all (in_cls a) s \<and> starts (is, e) ts)"
proof
  assume "starts (Many a # is, e) text"
  then obtain w v where w: "text = w @ v" "w \<in> lang (Many a # is)" "e \<longrightarrow> v = []" by (auto simp only: starts_def fst_conv snd_conv)
  then obtain s u where "w = s @ u" "list_all (in_cls a) s" "u \<in> lang is" by auto
  with w have "text = s @ u @ v" "list_all (in_cls a) s" "u \<in> lang is" "e \<longrightarrow> v = []" by simp_all
  then show "\<exists>s ts. text = s @ ts \<and> list_all (in_cls a) s \<and> starts (is, e) ts" by (auto simp: starts_def)
next
  assume "\<exists>s ts. text = s @ ts \<and> list_all (in_cls a) s \<and> starts (is, e) ts"
  then obtain s u v where "text = s @ u @ v" "list_all (in_cls a) s" "u \<in> lang is" "e \<longrightarrow> v = []"
    by (auto simp only: starts_def fst_conv snd_conv)
  then show "starts (Many a # is, e) text"
    unfolding starts_def by (intro exI [of _ "s @ u"] exI [of _ v]) auto
qed

lemma starts_Many:
  "starts (Many a # is, e) text \<longleftrightarrow> starts (is, e) text \<or> (\<exists>t ts. text = t # ts \<and> in_cls a t \<and> starts (Many a # is, e) ts)"
proof -
  have "(\<exists>s ts. text = s @ ts \<and> list_all (in_cls a) s \<and> starts (is, e) ts) \<longleftrightarrow>
      starts (is, e) text \<or> (\<exists>t r s ts. text = t # r \<and> in_cls a t \<and> r = s @ ts \<and> list_all (in_cls a) s \<and> starts (is, e) ts)"
    (is "?l \<longleftrightarrow> _ \<or> ?r")
  proof
    assume ?l
    then obtain s ts where s: "text = s @ ts" "list_all (in_cls a) s" "starts (is, e) ts" by blast
    then show "starts (is, e) text \<or> ?r" by (cases s) auto
  next
    assume "starts (is, e) text \<or> ?r"
    then show ?l
    proof
      assume "starts (is, e) text"
      then show ?l by (intro exI [of _ "[]"] exI [of _ "text"]) simp
    next
      assume ?r
      then obtain t s ts where "text = (t # s) @ ts" "list_all (in_cls a) (t # s)" "starts (is, e) ts" by auto
      then show ?l by blast
    qed
  qed
  then show ?thesis unfolding starts_Many_iff by blast
qed

lemma matchhere_starts:
  "matchhere re xs = starts (items re) xs"
  "matchstar c re xs = starts (Many (cls_of c) # fst (items re), snd (items re)) xs"
proof (induction re xs and c re xs rule: matchhere_matchstar.induct)
  case (1 re xs)
  show ?case
  proof (cases re rule: items.cases)
    case 1
    then show ?thesis by (simp add: matchhere.simps starts_def)
  next
    case (2 r)
    then show ?thesis using 1(2) [of r "[]"]
      by (cases xs) (auto simp: matchhere.simps [of "[r]"] starts_One in_cls_of, auto simp: starts_def matchhere.simps)
  next
    case (3 r q rs)
    then show ?thesis using 1(1) [of r "q # rs"] 1(2) [of r "q # rs"]
      by (cases xs) (auto simp: matchhere.simps [of "r # q # rs"] starts_One in_cls_of split: prod.splits)
  qed
next
  case (2 c re xs)
  show ?case
    by (subst matchstar.simps, subst starts_Many) (use 2 in \<open>auto simp: in_cls_of split: list.splits\<close>)
qed


lemma match_from_starts: "match_from re xs \<longleftrightarrow> (\<exists>w v. xs = w @ v \<and> starts (items re) v)"
proof (induction xs)
  case Nil
  then show ?case by (simp add: matchhere_starts)
next
  case (Cons t ts)
  have "(\<exists>w v. t # ts = w @ v \<and> starts (items re) v) \<longleftrightarrow>
      starts (items re) (t # ts) \<or> (\<exists>w v. ts = w @ v \<and> starts (items re) v)"
    by (auto simp: Cons_eq_append_conv)
  then show ?case using Cons by (simp add: matchhere_starts)
qed

text \<open>
  C19: the matcher decides the language of its pattern. With a leading caret the line has to start with a
  word of the pattern's language, otherwise some suffix of the line has to; a dollar sign at the end of
  the pattern demands that the word extends to the end of the line. The recursion ends for every pattern and
  every line.
\<close>

theorem match_language:
  "match re line =
     (if re \<noteq> [] \<and> hd re = CARET then starts (items (tl re)) line
      else (\<exists>w v. line = w @ v \<and> starts (items re) v))"
  by (simp add: match_def matchhere_starts match_from_starts)

section \<open>The line loop\<close>

text \<open>
  The inner loop on the part of the buffer from \<^verbatim>\<open>p\<close> on: the newline is searched up to the first NUL, and
  the line before it is matched. The result is what is written and the bytes left over.
\<close>

function grep_lines :: "u8 list \<Rightarrow> u8 list \<Rightarrow> u8 list list \<times> u8 list" where
  "grep_lines pattern p =
     (if NEWLINE \<in> set (takeWhile (\<lambda>c. c \<noteq> 0) p) then
        let line = takeWhile (\<lambda>c. c \<noteq> NEWLINE) p;
            (ws, rest) = grep_lines pattern (drop (length line + 1) p)
        in (if match pattern line then (line @ [NEWLINE]) # ws else ws, rest)
      else ([], p))"
  by pat_completeness auto
termination
proof (relation "measure (\<lambda>(pattern, p). length p)")
  fix pattern p line
  assume n: "NEWLINE \<in> set (takeWhile (\<lambda>c. c \<noteq> 0) p)"
  then have "p \<noteq> []" by auto
  then show "((pattern, drop (length line + 1) p), pattern, p) \<in> measure (\<lambda>(pattern, p). length p)" by simp
qed simp

declare grep_lines.simps [simp del]

text \<open>
  The outer loop on the sequence of byte strings the reads return; an empty one is a read that returns 0 or
  less. The bytes kept for the next turn are dropped when no line was found.
\<close>

fun grep :: "u8 list \<Rightarrow> u8 list \<Rightarrow> u8 list list \<Rightarrow> u8 list list" where
  "grep pattern buf [] = []"
| "grep pattern buf (chunk # reads) =
     (if chunk = [] then []
      else
        let buf = buf @ chunk;
            (ws, rest) = grep_lines pattern buf;
            buf = (if length rest = length buf then [] else rest)
        in ws @ grep pattern buf reads)"

text \<open>The lines of a text with their newlines, without an unfinished one at the end.\<close>

fun lines_acc :: "u8 list \<Rightarrow> u8 list \<Rightarrow> u8 list list" where
  "lines_acc acc [] = []"
| "lines_acc acc (c # cs) = (if c = NEWLINE then (acc @ [c]) # lines_acc [] cs else lines_acc (acc @ [c]) cs)"

abbreviation full_lines :: "u8 list \<Rightarrow> u8 list list" where
  "full_lines cs \<equiv> lines_acc [] cs"

fun unfinished :: "u8 list \<Rightarrow> u8 list \<Rightarrow> u8 list" where
  "unfinished acc [] = acc"
| "unfinished acc (c # cs) = (if c = NEWLINE then unfinished [] cs else unfinished (acc @ [c]) cs)"

lemma lines_append: "lines_acc acc (xs @ ys) = lines_acc acc xs @ lines_acc (unfinished acc xs) ys"
  by (induction xs arbitrary: acc) auto

lemma unfinished_append: "unfinished acc (xs @ ys) = unfinished (unfinished acc xs) ys"
  by (induction xs arbitrary: acc) auto

lemma lines_plain: "NEWLINE \<notin> set xs \<Longrightarrow> lines_acc acc (xs @ ys) = lines_acc (acc @ xs) ys"
  "NEWLINE \<notin> set xs \<Longrightarrow> unfinished acc (xs @ ys) = unfinished (acc @ xs) ys"
  by (induction xs arbitrary: acc) auto

lemma unfinished_plain: "NEWLINE \<notin> set (unfinished acc xs)" if "NEWLINE \<notin> set acc"
  using that by (induction xs arbitrary: acc) auto

definition wanted :: "u8 list \<Rightarrow> u8 list \<Rightarrow> bool" where
  "wanted pattern l = match pattern (butlast l)"

lemma wanted_snoc: "wanted pattern (l @ [c]) = match pattern l"
  by (simp add: wanted_def)

lemma grep_lines_ok:
  "0 \<notin> set p \<Longrightarrow> grep_lines pattern p = (filter (wanted pattern) (full_lines p), unfinished [] p)"
proof (induction pattern p rule: grep_lines.induct)
  case (1 pattern p)
  have tw: "takeWhile (\<lambda>c. c \<noteq> 0) p = p" using 1(2) by (auto intro: takeWhile_eq_all_conv [THEN iffD2])
  show ?case
  proof (cases "NEWLINE \<in> set p")
    case False
    then show ?thesis using lines_plain [of p "[]" "[]"] by (simp add: grep_lines.simps [of pattern p] tw)
  next
    case True
    let ?l = "takeWhile (\<lambda>c. c \<noteq> NEWLINE) p" let ?r = "drop (length ?l + 1) p"
    have nl: "NEWLINE \<notin> set ?l" using set_takeWhileD by force
    have "dropWhile (\<lambda>c. c \<noteq> NEWLINE) p \<noteq> []" using True by (auto simp: dropWhile_eq_Nil_conv)
    then have "dropWhile (\<lambda>c. c \<noteq> NEWLINE) p = NEWLINE # ?r"
      using hd_dropWhile [of "\<lambda>c. c \<noteq> NEWLINE" p]
      by (metis (mono_tags, lifting) add.commute drop_drop dropWhile_eq_drop drop_Suc list.collapse plus_1_eq_Suc drop_0)
    then have p: "p = ?l @ NEWLINE # ?r" by (metis takeWhile_dropWhile_id)
    have z: "0 \<notin> set ?r" using 1(2) in_set_dropD by fast
    have "grep_lines pattern ?r = (filter (wanted pattern) (full_lines ?r), unfinished [] ?r)"
      using 1(1) [OF _ refl z] True by (simp add: tw)
    moreover have "full_lines p = (?l @ [NEWLINE]) # full_lines ?r" "unfinished [] p = unfinished [] ?r"
      by (subst p, simp add: lines_plain [OF nl])+
    ultimately show ?thesis using True by (simp add: grep_lines.simps [of pattern p] tw wanted_snoc Let_def)
  qed
qed


lemma unfinished_subset: "set (unfinished acc xs) \<subseteq> set acc \<union> set xs"
proof (induction xs arbitrary: acc)
  case (Cons c cs)
  then show ?case using Cons [of "[]"] Cons [of "acc @ [c]"] by auto
qed simp

lemma unfinished_length: "length (unfinished acc xs) \<le> length acc + length xs"
proof (induction xs arbitrary: acc)
  case (Cons c cs)
  then show ?case using Cons [of "[]"] Cons [of "acc @ [c]"] by auto
qed simp

lemma unfinished_shorter: "NEWLINE \<in> set xs \<Longrightarrow> length (unfinished acc xs) < length acc + length xs"
proof (induction xs arbitrary: acc)
  case (Cons c cs)
  show ?case
  proof (cases "c = NEWLINE")
    case True
    then show ?thesis using unfinished_length [of "[]" cs] by simp
  next
    case False
    then show ?thesis using Cons.IH [of "acc @ [c]"] Cons.prems by simp
  qed
qed simp

lemma grep_ok:
  "\<forall>c \<in> set reads. NEWLINE \<in> set c \<and> 0 \<notin> set c \<Longrightarrow> NEWLINE \<notin> set buf \<Longrightarrow> 0 \<notin> set buf \<Longrightarrow>
   grep pattern buf reads = filter (wanted pattern) (lines_acc buf (concat reads))"
proof (induction reads arbitrary: buf)
  case (Cons c reads)
  let ?b = "buf @ c"
  have g: "grep_lines pattern ?b = (filter (wanted pattern) (full_lines ?b), unfinished [] ?b)"
    using Cons.prems by (intro grep_lines_ok) auto
  have u: "unfinished [] ?b = unfinished buf c" "full_lines ?b = lines_acc buf c"
    using lines_plain [OF Cons.prems(2), of "[]" c] by simp_all
  have g': "grep_lines pattern ?b = (filter (wanted pattern) (lines_acc buf c), unfinished buf c)" using g u by simp
  have len: "length (unfinished buf c) \<noteq> length ?b" using unfinished_shorter [of c buf] Cons.prems(1) by auto
  have "NEWLINE \<notin> set (unfinished buf c)" by (rule unfinished_plain [OF Cons.prems(2)])
  moreover have "0 \<notin> set (unfinished buf c)"
  proof -
    show ?thesis using unfinished_subset [of buf c] Cons.prems by auto
  qed
  ultimately have "grep pattern (unfinished buf c) reads = filter (wanted pattern) (lines_acc (unfinished buf c) (concat reads))"
    using Cons.prems(1) by (intro Cons.IH) auto
  moreover have "c \<noteq> []" using Cons.prems(1) by auto
  ultimately show ?case using len by (simp add: g' lines_append)
qed simp

text \<open>
  C20: what \<^verbatim>\<open>grep\<close> prints. If every read returns at least one newline and no NUL byte, the writes are exactly
  the matching lines among the complete lines of the input, in order.
\<close>

theorem grep_prints_matching_lines:
  assumes "\<forall>c \<in> set reads. NEWLINE \<in> set c \<and> 0 \<notin> set c"
  shows "grep pattern [] reads = filter (\<lambda>l. match pattern (butlast l)) (full_lines (concat reads))"
  using grep_ok [OF assms, of "[]" pattern] by (simp add: wanted_def [abs_def])

theorem grep_prints_matching_lines_witness:
  "grep [97] [] [[97, 98, 10, 99], [10, 98, 97, 10]] = [[97, 98, 10], [98, 97, 10]]"
proof -
  have "match [97] [97, 98]" "\<not> match [97] [99]" "match [97] [98, 97]" by code_simp+
  then show ?thesis using grep_prints_matching_lines [of "[[97, 98, 10, 99], [10, 98, 97, 10]]" "[97]"] by simp
qed


end
