(* ===== verification/Ulib.thy ===== *)
theory Ulib
  imports CString
begin

text \<open>
  The user library: \<^verbatim>\<open>ulib.c\<close> over the byte memory of the process, and \<^verbatim>\<open>printf.c\<close>, whose output
  is the sequence of bytes it writes one by one. Names that \<^verbatim>\<open>string.c\<close> of the kernel also has carry the
  prefix \<open>u\<close>.
\<close>

section \<open>Strings\<close>

text \<open>
  Loops that move two pointers until a NUL byte; \<open>n\<close> counts the turns. After 2^32 turns the pointers have
  been everywhere.
\<close>

function strcpy_loop :: "memory \<Rightarrow> u32 \<Rightarrow> u32 \<Rightarrow> nat \<Rightarrow> memory res" where
  "strcpy_loop m s t n =
     (if n \<ge> 2 ^ 32 then Inl Wraps
      else
        let c = m (t + of_nat n); m = m(s + of_nat n := c) in
        if c \<noteq> 0 then strcpy_loop m s t (Suc n) else Inr m)"
  by pat_completeness auto
termination
  by (relation "measure (\<lambda>(m, s, t, n). 2 ^ 32 - n)") auto

declare strcpy_loop.simps [simp del]

definition strcpy :: "memory \<Rightarrow> u32 \<Rightarrow> u32 \<Rightarrow> memory res" where
  "strcpy m s t = strcpy_loop m s t 0"

function strcmp_loop :: "memory \<Rightarrow> u32 \<Rightarrow> u32 \<Rightarrow> nat \<Rightarrow> int res" where
  "strcmp_loop m p q n =
     (if n \<ge> 2 ^ 32 then Inl Wraps
      else
        let a = m (p + of_nat n); b = m (q + of_nat n) in
        if a \<noteq> 0 \<and> a = b then strcmp_loop m p q (Suc n) else Inr (uint a - uint b))"
  by pat_completeness auto
termination
  by (relation "measure (\<lambda>(m, p, q, n). 2 ^ 32 - n)") auto

declare strcmp_loop.simps [simp del]

definition strcmp :: "memory \<Rightarrow> u32 \<Rightarrow> u32 \<Rightarrow> int res" where
  "strcmp m p q = strcmp_loop m p q 0"

text \<open>The loop of \<^verbatim>\<open>strlen\<close> is the one of the kernel's \<^verbatim>\<open>string.c\<close>.\<close>

definition ustrlen :: "memory \<Rightarrow> u32 \<Rightarrow> nat res" where
  "ustrlen m s = strlen_loop m s 0"

definition umemset :: "memory \<Rightarrow> u32 \<Rightarrow> u32 \<Rightarrow> u32 \<Rightarrow> memory" where
  "umemset m dst c n = stosb m dst c (unat n)"

function strchr_loop :: "memory \<Rightarrow> u32 \<Rightarrow> u8 \<Rightarrow> nat \<Rightarrow> u32 res" where
  "strchr_loop m s c n =
     (if n \<ge> 2 ^ 32 then Inl Wraps
      else
        let a = s + of_nat n in
        if m a = 0 then Inr 0
        else if m a = c then Inr a
        else strchr_loop m s c (Suc n))"
  by pat_completeness auto
termination
  by (relation "measure (\<lambda>(m, s, c, n). 2 ^ 32 - n)") auto

declare strchr_loop.simps [simp del]

definition strchr :: "memory \<Rightarrow> u32 \<Rightarrow> u8 \<Rightarrow> u32 res" where
  "strchr m s c = strchr_loop m s c 0"

text \<open>
  \<^verbatim>\<open>gets\<close> takes single bytes from standard input, the list \<open>inp\<close>, which ends where a read
  returns less than one byte. The result is the memory and the input left.
\<close>

fun gets_loop :: "memory \<Rightarrow> u32 \<Rightarrow> int \<Rightarrow> int \<Rightarrow> u8 list \<Rightarrow> memory \<times> int \<times> u8 list" where
  "gets_loop m buf mx i [] = (m, i, [])"
| "gets_loop m buf mx i (c # inp) =
     (if i + 1 < mx then
        let m = m(buf + u32_of_int i := c); i = i + 1 in
        if c = 10 \<or> c = 13 then (m, i, inp) else gets_loop m buf mx i inp
      else (m, i, c # inp))"

definition gets :: "memory \<Rightarrow> u32 \<Rightarrow> int \<Rightarrow> u8 list \<Rightarrow> memory \<times> u8 list" where
  "gets m buf mx inp = (let (m, i, inp) = gets_loop m buf mx 0 inp in (m(buf + u32_of_int i := 0), inp))"

text \<open>The sum \<^verbatim>\<open>n*10 + *s\<close> is formed before the subtraction; it must not overflow.\<close>

function atoi_loop :: "memory \<Rightarrow> u32 \<Rightarrow> nat \<Rightarrow> int \<Rightarrow> int res" where
  "atoi_loop m s k n =
     (if k \<ge> 2 ^ 32 then Inl Wraps
      else
        let c = m (s + of_nat k) in
        if 48 \<le> c \<and> c \<le> 57 then
          (if n * 10 + uint c \<ge> 2 ^ 31 then Inl (Undef ''signed overflow'')
           else atoi_loop m s (Suc k) (n * 10 + uint c - 48))
        else Inr n)"
  by pat_completeness auto
termination
  by (relation "measure (\<lambda>(m, s, k, n). 2 ^ 32 - k)") auto

declare atoi_loop.simps [simp del]

definition atoi :: "memory \<Rightarrow> u32 \<Rightarrow> int res" where
  "atoi m s = atoi_loop m s 0 0"

text \<open>Unlike the kernel's, this \<^verbatim>\<open>memmove\<close> always copies upwards.\<close>

definition umemmove :: "memory \<Rightarrow> u32 \<Rightarrow> u32 \<Rightarrow> int \<Rightarrow> memory" where
  "umemmove m vdst vsrc n = copy_up m vdst vsrc (nat n)"

section \<open>printf\<close>

text \<open>\<^verbatim>\<open>"0123456789ABCDEF"\<close>\<close>

definition udigit :: "u32 \<Rightarrow> u8" where
  "udigit d = (if d < 10 then 48 + ucast d else 55 + ucast d)"

text \<open>The digits in the order the \<^verbatim>\<open>do\<close> loop stores them in \<^verbatim>\<open>buf\<close>.\<close>

function udigits :: "u32 \<Rightarrow> u32 \<Rightarrow> u8 list" where
  "udigits x base =
     (if base < 2 then [] else udigit (x mod base) # (if x div base \<noteq> 0 then udigits (x div base) base else []))"
  by pat_completeness auto
termination
proof (relation "measure (\<lambda>(x, base). unat x)")
  fix x base :: u32
  assume b: "\<not> base < 2" and d: "x div base \<noteq> 0"
  have "2 \<le> unat base" using b by (simp add: word_less_nat_alt)
  moreover have "unat x \<noteq> 0" using d by (auto simp: unat_eq_0)
  ultimately have "unat x div unat base < unat x" by (intro div_less_dividend) auto
  then show "((x div base, base), x, base) \<in> measure (\<lambda>(x, base). unat x)" by (simp add: unat_div)
qed simp

declare udigits.simps [simp del]

text \<open>What \<^verbatim>\<open>printint\<close> prints. Negating the least \<^verbatim>\<open>int\<close> is undefined.\<close>

definition uprintint :: "int \<Rightarrow> u32 \<Rightarrow> bool \<Rightarrow> u8 list res" where
  "uprintint xx base sign =
     (let neg = (sign \<and> xx < 0) in
      if neg \<and> xx = - (2 ^ 31) then Inl (Undef ''signed overflow'')
      else
        let x = (if neg then u32_of_int (- xx) else u32_of_int xx) in
        Inr (rev (udigits x base @ (if neg then [45] else []))))"

text \<open>
  The arguments on the stack: words, or string pointers with the bytes of the string (\<open>None\<close> is the null
  pointer). A directive without an argument of its kind reads what the caller did not put there.
\<close>

datatype uarg = UInt u32 | UStr "u8 list option"

fun uprintf :: "bool \<Rightarrow> u8 list \<Rightarrow> uarg list \<Rightarrow> u8 list res" where
  "uprintf percent [] ap = Inr []"
| "uprintf False (c # fmt) ap =
     (if c = 37 then uprintf True fmt ap else rbind (uprintf False fmt ap) (\<lambda>r. Inr (c # r)))"
| "uprintf True (c # fmt) ap =
     (if c = 100 then
        (case ap of UInt w # ap \<Rightarrow>
           rbind (uprintint (int_of_u32 w) 10 True) (\<lambda>d. rbind (uprintf False fmt ap) (\<lambda>r. Inr (d @ r)))
         | _ \<Rightarrow> Inl (Undef ''printf argument''))
      else if c = 120 \<or> c = 112 then
        (case ap of UInt w # ap \<Rightarrow>
           rbind (uprintint (int_of_u32 w) 16 False) (\<lambda>d. rbind (uprintf False fmt ap) (\<lambda>r. Inr (d @ r)))
         | _ \<Rightarrow> Inl (Undef ''printf argument''))
      else if c = 115 then
        (case ap of UStr s # ap \<Rightarrow>
           rbind (uprintf False fmt ap) (\<lambda>r. Inr ((case s of None \<Rightarrow> [40, 110, 117, 108, 108, 41] | Some s \<Rightarrow> s) @ r))
         | _ \<Rightarrow> Inl (Undef ''printf argument''))
      else if c = 99 then
        (case ap of UInt w # ap \<Rightarrow> rbind (uprintf False fmt ap) (\<lambda>r. Inr (ucast w # r))
         | _ \<Rightarrow> Inl (Undef ''printf argument''))
      else if c = 37 then rbind (uprintf False fmt ap) (\<lambda>r. Inr (c # r))
      else rbind (uprintf False fmt ap) (\<lambda>r. Inr (37 # c # r)))"

definition printf :: "u8 list \<Rightarrow> uarg list \<Rightarrow> u8 list res" where
  "printf fmt args = uprintf False fmt args"


section \<open>Printing and reading numbers\<close>

definition string_at :: "memory \<Rightarrow> u32 \<Rightarrow> u8 list \<Rightarrow> bool" where
  "string_at m s cs \<longleftrightarrow> (\<forall>k < length cs. m (s + of_nat k) = cs ! k) \<and> m (s + of_nat (length cs)) = 0"

lemma udigit_10:
  assumes "d < 10"
  shows "48 \<le> udigit d" "udigit d \<le> 57" "uint (udigit d) = 48 + int (unat d)"
proof -
  have d: "unat d < 10" using assms by (simp add: word_less_nat_alt)
  have u: "unat (ucast d :: u8) = unat d" using d by (simp add: unsigned_ucast_eq take_bit_nat_eq_self)
  have e: "unat (udigit d) = 48 + unat d" using assms d u by (simp add: udigit_def unat_word_ariths)
  then show "48 \<le> udigit d" "udigit d \<le> 57" using d by (simp_all add: word_le_nat_alt)
  show "uint (udigit d) = 48 + int (unat d)" using e by (metis of_nat_add of_nat_numeral uint_nat)
qed

lemma udigits_length: "length (udigits x 10) \<le> 10"
proof -
  have "unat x < 10 ^ Suc n \<Longrightarrow> length (udigits x 10) \<le> Suc n" for n
  proof (induction n arbitrary: x)
    case 0
    then have "x div 10 = 0" by (simp add: word_unat_eq_iff unat_div)
    then show ?case by (simp add: udigits.simps [of x])
  next
    case (Suc n)
    have "unat (x div 10) < 10 ^ Suc n" using Suc.prems by (simp add: unat_div less_mult_imp_div_less)
    then show ?case using Suc.IH [of "x div 10"] by (simp add: udigits.simps [of x])
  qed
  moreover have "unat x < 2 ^ 32" using unsigned_less [of x] by simp
  then have "unat x < 10 ^ Suc 9" by simp
  ultimately show ?thesis by fastforce
qed

lemma dec_step:
  "N < 2147483600 \<Longrightarrow> int (N div 10) * 10 + (48 + int (N mod 10)) < 2 ^ 31"
  "int (N div 10) * 10 + (48 + int (N mod 10)) - 48 = int N"
  by (simp_all add: zdiv_int zmod_int)

lemma atoi_digits:
  "unat x < 2147483600 \<Longrightarrow> (\<forall>k < length (udigits x 10). m (s + of_nat k) = rev (udigits x 10) ! k) \<Longrightarrow>
   atoi_loop m s 0 0 = atoi_loop m s (length (udigits x 10)) (int (unat x))"
proof (induction "unat x" arbitrary: x rule: less_induct)
  case less
  let ?d = "udigits x 10" let ?q = "x div 10"
  have q: "unat ?q = unat x div 10" and r: "unat (x mod 10) = unat x mod 10" by (simp_all add: unat_div unat_mod)
  have r10: "x mod 10 < 10" by (simp add: word_mod_less_divisor)
  have D: "?d = udigit (x mod 10) # (if ?q \<noteq> 0 then udigits ?q 10 else [])" by (simp add: udigits.simps [of x])
  let ?n = "length ?d - 1"
  have rd: "rev ?d = rev (if ?q \<noteq> 0 then udigits ?q 10 else []) @ [udigit (x mod 10)]" by (simp add: D)
  have n: "length ?d = Suc ?n" "rev ?d ! ?n = udigit (x mod 10)" by (simp_all add: D nth_append)
  have ten: "?n < 2 ^ 32" using udigits_length [of x] by simp
  have c: "m (s + of_nat ?n) = udigit (x mod 10)" using less.prems(2) n by (metis lessI)
  have step: "atoi_loop m s ?n (int (unat ?q)) = atoi_loop m s (length ?d) (int (unat x))"
  proof -
    have "int (unat ?q) * 10 + (48 + int (unat (x mod 10))) < 2 ^ 31"
      unfolding q r by (rule dec_step(1) [OF less.prems(1)])
    moreover have "int (unat ?q) * 10 + (48 + int (unat (x mod 10))) - 48 = int (unat x)"
      unfolding q r by (rule dec_step(2))
    ultimately show ?thesis
      using ten c udigit_10 [OF r10] n(1) by (subst atoi_loop.simps) (simp add: Let_def)
  qed
  show ?case
  proof (cases "?q = 0")
    case True
    then have "?n = 0" by (simp add: D)
    then show ?thesis using step True by simp
  next
    case False
    have lq: "length (udigits ?q 10) = ?n" using False by (simp add: D)
    have "unat x \<noteq> 0" using False by (auto simp: unat_eq_0)
    then have "unat ?q < unat x" using q by simp
    moreover have "unat ?q < 2147483600" using q less.prems(1) by simp
    moreover have "\<forall>k < length (udigits ?q 10). m (s + of_nat k) = rev (udigits ?q 10) ! k"
      using less.prems(2) False by (auto simp: D nth_append)
    ultimately have "atoi_loop m s 0 0 = atoi_loop m s ?n (int (unat ?q))" using less.hyps [of ?q] lq by simp
    then show ?thesis using step by simp
  qed
qed

text \<open>
  C22: numbers survive printing and reading. For a number from 0 to 2147483599, \<^verbatim>\<open>printint\<close> in decimal prints
  a string from which \<^verbatim>\<open>atoi\<close> reads the same number, wherever the string lies. (From 2147483600 on the
  intermediate sum in \<^verbatim>\<open>atoi\<close> overflows.)
\<close>

theorem printint_atoi_roundtrip:
  assumes "0 \<le> n" "n < 2147483600"
  shows "\<exists>ds. uprintint n 10 True = Inr ds \<and> (\<forall>m s. string_at m s ds \<longrightarrow> atoi m s = Inr n)"
proof -
  let ?x = "u32_of_int n" let ?ds = "rev (udigits ?x 10)"
  have x: "int (unat ?x) = n" using assms by (simp add: unsigned_of_int take_bit_int_eq_self)
  have "uprintint n 10 True = Inr ?ds" using assms by (simp add: uprintint_def)
  moreover have "atoi m s = Inr n" if a: "string_at m s ?ds" for m s
  proof -
    have "unat ?x < 2147483600" using x assms(2) by linarith
    then have "atoi m s = atoi_loop m s (length (udigits ?x 10)) n"
      unfolding atoi_def using atoi_digits [of ?x m s] a x by (simp add: string_at_def)
    also have "\<dots> = Inr n" using a udigits_length [of ?x] by (subst atoi_loop.simps) (simp add: string_at_def Let_def)
    finally show ?thesis .
  qed
  ultimately show ?thesis by blast
qed

theorem printint_atoi_roundtrip_witness:
  "uprintint 307 10 True = Inr [51, 48, 55] \<and> atoi (\<lambda>a. if a = 100 then 51 else if a = 101 then 48 else if a = 102 then 55 else 0) 100 = Inr 307"
proof -
  have p: "uprintint 307 10 True = Inr [51, 48, 55]" by code_simp
  moreover have "string_at (\<lambda>a. if a = 100 then 51 else if a = 101 then 48 else if a = 102 then 55 else 0) 100 [51, 48, 55]"
    by (auto simp: string_at_def less_Suc_eq numeral_3_eq_3)
  ultimately show ?thesis using printint_atoi_roundtrip [of 307] by auto
qed


section \<open>Overlapping copies\<close>

lemma umemmove_eq_memmove:
  "\<not> (src < dst \<and> dst < src + n) \<Longrightarrow> umemmove m dst src (uint n) = memmove m dst src n"
  by (auto simp: umemmove_def memmove_def nat_uint_eq)

text \<open>Copying three bytes one place up repeats the first of them.\<close>

lemma umemmove_smears:
  "umemmove m (a + 1) a 3 = m(a + 1 := m a, a + 2 := m a, a + 3 := m a)"
  by (simp add: umemmove_def numeral_3_eq_3 add.assoc fun_eq_iff)

end
