(* ===== verification/Umalloc.thy ===== *)
theory Umalloc
  imports Ulib "HOL-Library.Monad_Syntax"
begin

text \<open>
  The memory allocator of user programs (\<^verbatim>\<open>umalloc.c\<close>): a circular list of free blocks, linked through headers of 8 bytes in
  the memory of the process, the pointer at offset 0 and the size in units of 8 bytes at offset 4. A call that does not return
  is \<open>None\<close>.
\<close>

section \<open>The memory of a process\<close>

text \<open>\<open>brk\<close> is the size of the process, the end of its heap.\<close>

record uheap =
  um :: memory
  freep :: u32
  brk :: u32

abbreviation (input) HDR :: u32 where "HDR \<equiv> 8"

definition s_ptr :: "memory \<Rightarrow> u32 \<Rightarrow> u32" where "s_ptr m p = load32 m p"
definition s_size :: "memory \<Rightarrow> u32 \<Rightarrow> u32" where "s_size m p = load32 m (p + 4)"

definition set_ptr :: "u32 \<Rightarrow> u32 \<Rightarrow> uheap \<Rightarrow> uheap" where
  "set_ptr p v h = h\<lparr>um := store32 (um h) p v\<rparr>"

definition set_size :: "u32 \<Rightarrow> u32 \<Rightarrow> uheap \<Rightarrow> uheap" where
  "set_size p v h = h\<lparr>um := store32 (um h) (p + 4) v\<rparr>"

text \<open>
  The system call as the process sees it. A positive argument grows the process unless it would reach \<^verbatim>\<open>HEAPLIMIT\<close> or the kernel
  has no memory left (\<open>grant\<close> says whether it has); a negative one shrinks it, or does nothing if the sum wraps around.
\<close>

definition sbrk :: "(u32 \<Rightarrow> uheap \<Rightarrow> bool) \<Rightarrow> u32 \<Rightarrow> uheap \<Rightarrow> u32 \<times> uheap" where
  "sbrk grant n h =
     (let sz = brk h in
      if 0 < sint n then
        if sz + n \<ge> 0x7F000000 then (- 1, h)
        else if sz + n < sz then (sz, h)
        else if \<not> grant n h then (- 1, h)
        else (sz, h\<lparr>brk := sz + n\<rparr>)
      else if sint n < 0 then
        if sz + n \<ge> sz then (if sz = 0 then (- 1, h) else (sz, h))
        else if sz + n = 0 then (- 1, h)
        else (sz, h\<lparr>brk := sz + n\<rparr>)
      else (sz, h))"

section \<open>The allocator\<close>

partial_function (option) free_find :: "memory \<Rightarrow> u32 \<Rightarrow> u32 \<Rightarrow> u32 option" where
  "free_find m bp p =
     (if bp > p \<and> bp < s_ptr m p then Some p
      else if p \<ge> s_ptr m p \<and> (bp > p \<or> bp < s_ptr m p) then Some p
      else free_find m bp (s_ptr m p))"

declare free_find.simps [code]

text \<open>A block is joined with the one above it and with the one below it if they touch.\<close>

definition join_upper :: "u32 \<Rightarrow> u32 \<Rightarrow> uheap \<Rightarrow> uheap" where
  "join_upper bp p h =
     (if bp + HDR * s_size (um h) bp = s_ptr (um h) p then
        let h = set_size bp (s_size (um h) bp + s_size (um h) (s_ptr (um h) p)) h
        in set_ptr bp (s_ptr (um h) (s_ptr (um h) p)) h
      else set_ptr bp (s_ptr (um h) p) h)"

definition join_lower :: "u32 \<Rightarrow> u32 \<Rightarrow> uheap \<Rightarrow> uheap" where
  "join_lower bp p h =
     (if p + HDR * s_size (um h) p = bp then
        let h = set_size p (s_size (um h) p + s_size (um h) bp) h
        in set_ptr p (s_ptr (um h) bp) h
      else set_ptr p bp h)"

definition free :: "u32 \<Rightarrow> uheap \<Rightarrow> uheap option" where
  "free ap h =
     (let bp = ap - HDR in
      case free_find (um h) bp (freep h) of None \<Rightarrow> None
      | Some p \<Rightarrow> Some ((join_lower bp p (join_upper bp p h))\<lparr>freep := p\<rparr>))"

definition morecore :: "(u32 \<Rightarrow> uheap \<Rightarrow> bool) \<Rightarrow> u32 \<Rightarrow> uheap \<Rightarrow> (u32 \<times> uheap) option" where
  "morecore grant nu h =
     (let nu = (if nu < 4096 then 4096 else nu);
          (p, h) = sbrk grant (nu * HDR) h
      in
      if p = - 1 then Some (0, h)
      else
        case free (p + HDR) (set_size p nu h) of None \<Rightarrow> None
        | Some h \<Rightarrow> Some (freep h, h))"

text \<open>A block that is large enough: all of it, or its tail.\<close>

definition take_block :: "u32 \<Rightarrow> u32 \<Rightarrow> u32 \<Rightarrow> uheap \<Rightarrow> u32 \<times> uheap" where
  "take_block nunits prevp p h =
     (let (p, h) = (if s_size (um h) p = nunits then (p, set_ptr prevp (s_ptr (um h) p) h)
                    else
                      let h = set_size p (s_size (um h) p - nunits) h;
                          p = p + HDR * s_size (um h) p
                      in (p, set_size p nunits h))
      in (p + HDR, h\<lparr>freep := prevp\<rparr>))"

partial_function (option) malloc_loop ::
  "(u32 \<Rightarrow> uheap \<Rightarrow> bool) \<Rightarrow> u32 \<Rightarrow> u32 \<Rightarrow> u32 \<Rightarrow> uheap \<Rightarrow> (u32 \<times> uheap) option"
where
  "malloc_loop grant nunits prevp p h =
     (if s_size (um h) p \<ge> nunits then Some (take_block nunits prevp p h)
      else if p = freep h then
        do {
          (p, h) \<leftarrow> morecore grant nunits h;
          if p = 0 then Some (0, h) else malloc_loop grant nunits p (s_ptr (um h) p) h
        }
      else malloc_loop grant nunits p (s_ptr (um h) p) h)"

declare malloc_loop.simps [code]

text \<open>\<open>base\<close> is the address of the static header, which the linker chooses.\<close>

definition malloc :: "(u32 \<Rightarrow> uheap \<Rightarrow> bool) \<Rightarrow> u32 \<Rightarrow> u32 \<Rightarrow> uheap \<Rightarrow> (u32 \<times> uheap) option" where
  "malloc grant base nbytes h =
     (let nunits = (nbytes + HDR - 1) div HDR + 1;
          h = (if freep h = 0 then set_size base 0 (set_ptr base base (h\<lparr>freep := base\<rparr>)) else h);
          prevp = freep h
      in malloc_loop grant nunits prevp (s_ptr (um h) prevp) h)"

end
