(* ===== verification/UmallocInv.thy ===== *)
theory UmallocInv
  imports Umalloc
begin

text \<open>
  The allocator of \<^verbatim>\<open>umalloc.c\<close>: whatever sequence of calls a program makes, the blocks it holds do not overlap each other, the free
  list or the end of the heap, and no call changes a byte of a block that stays allocated.
\<close>

section \<open>Words of the memory\<close>

definition words :: "memory \<Rightarrow> nat \<Rightarrow> nat" where
  "words m a = unat (load32 m (of_nat a))"

lemma words_less: "words m a < 4294967296"
  unfolding words_def by (rule order_less_le_trans [OF unsigned_less]) simp

lemma s_ptr_words: "s_ptr m (of_nat a) = of_nat (words m a)"
  by (simp add: s_ptr_def words_def)

lemma s_size_words: "s_size m (of_nat a) = of_nat (words m (a + 4))"
  by (simp add: s_size_def words_def add.commute)

lemma aligned4_nat: "a < 4294967296 \<Longrightarrow> a mod 4 = 0 \<Longrightarrow> aligned4 (of_nat a)"
  by (simp add: aligned4_def unat_nat)

lemma words_store:
  assumes "a < 4294967296" "b < 4294967296" "a mod 4 = 0" "b mod 4 = 0"
  shows "words (store32 m (of_nat a) v) b = (if b = a then unat v else words m b)"
  using assms load32_store32_other [OF aligned4_nat aligned4_nat, of a b m v] nat_word_eq [OF assms(1,2)]
  by (auto simp: words_def)

lemma store32_byte:
  assumes "a + 4 \<le> 4294967296" "x < 4294967296" "x < a \<or> a + 4 \<le> x"
  shows "store32 m (of_nat a) v (of_nat x) = m (of_nat x)"
proof -
  have "(of_nat a + of_nat k :: u32) \<noteq> of_nat x" if "k < 4" for k
    using nat_word_eq [of "a + k" x] assms that by auto
  from this [of 0] this [of 1] this [of 2] this [of 3] show ?thesis by (auto simp: store32_def)
qed

text \<open>Two memories that differ only in the headers at \<open>X\<close>.\<close>

definition same_but :: "nat set \<Rightarrow> memory \<Rightarrow> memory \<Rightarrow> bool" where
  "same_but X m m' \<longleftrightarrow> (\<forall>x < 4294967296. (\<forall>a \<in> X. x < a \<or> a + 8 \<le> x) \<longrightarrow> m' (of_nat x) = m (of_nat x))"

lemma same_but_refl: "same_but X m m"
  by (simp add: same_but_def)

lemma same_but_store:
  assumes "same_but X m m'" "a \<in> X" "a + 8 \<le> 4294967296"
  shows "same_but X m (store32 m' (of_nat a) v)" "same_but X m (store32 m' (of_nat (a + 4)) v)"
proof -
  show "same_but X m (store32 m' (of_nat a) v)" unfolding same_but_def
  proof (intro allI impI)
    fix x :: nat assume x: "x < 4294967296" "\<forall>a \<in> X. x < a \<or> a + 8 \<le> x"
    then have "x < a \<or> a + 4 \<le> x" using assms(2) by auto
    with store32_byte [of a x m' v] assms(1,3) x show "store32 m' (of_nat a) v (of_nat x) = m (of_nat x)" by (simp add: same_but_def)
  qed
  show "same_but X m (store32 m' (of_nat (a + 4)) v)" unfolding same_but_def
  proof (intro allI impI)
    fix x :: nat assume x: "x < 4294967296" "\<forall>a \<in> X. x < a \<or> a + 8 \<le> x"
    then have "x < a + 4 \<or> a + 4 + 4 \<le> x" using assms(2) by auto
    with store32_byte [of "a + 4" x m' v] assms(1,3) x show "store32 m' (of_nat (a + 4)) v (of_nat x) = m (of_nat x)" by (simp add: same_but_def)
  qed
qed

section \<open>The free list\<close>

type_synonym block = "nat \<times> nat"

text \<open>From the header at \<open>a\<close> through the blocks to \<open>e\<close>.\<close>

fun lnk :: "(nat \<Rightarrow> nat) \<Rightarrow> nat \<Rightarrow> block list \<Rightarrow> nat \<Rightarrow> bool" where
  "lnk W a [] e \<longleftrightarrow> W a = e"
| "lnk W a ((b, n) # bs) e \<longleftrightarrow> W a = b \<and> W (b + 4) = n \<and> lnk W b bs e"

abbreviation nodes :: "nat \<Rightarrow> block list \<Rightarrow> nat list" where
  "nodes a bs \<equiv> a # map fst bs"

lemma lnk_append: "lnk W a (us @ (b, n) # vs) e \<longleftrightarrow> lnk W a us b \<and> W (b + 4) = n \<and> lnk W b vs e"
  by (induction us arbitrary: a) auto

lemma lnk_cong:
  assumes "lnk W a bs e" "\<And>x. x \<in> set (nodes a bs) \<Longrightarrow> W' x = W x" "\<And>b n. (b, n) \<in> set bs \<Longrightarrow> W' (b + 4) = W (b + 4)"
  shows "lnk W' a bs e"
  using assms by (induction bs arbitrary: a) (auto, fastforce+)

text \<open>Only the pointer of the last block changes.\<close>

lemma lnk_relink:
  assumes "lnk W a bs e" "distinct (nodes a bs)" "W' (last (nodes a bs)) = e'"
    "\<And>x. x \<in> set (nodes a bs) \<Longrightarrow> x \<noteq> last (nodes a bs) \<Longrightarrow> W' x = W x" "\<And>b n. (b, n) \<in> set bs \<Longrightarrow> W' (b + 4) = W (b + 4)"
  shows "lnk W' a bs e'"
  using assms
proof (induction bs arbitrary: a)
  case (Cons x bs)
  obtain b n where x: "x = (b, n)" by (cases x)
  have l: "last (nodes a (x # bs)) = last (nodes b bs)" using x by simp
  have "last (nodes b bs) \<in> set (nodes b bs)" by (rule last_in_set) simp
  moreover have "a \<notin> set (nodes b bs)" using Cons.prems(2) x by simp
  ultimately have "a \<noteq> last (nodes b bs)" by metis
  then have "W' a = W a" using Cons.prems(4) [of a] l by simp
  moreover have "lnk W' b bs e'"
  proof (rule Cons.IH)
    show "lnk W b bs e" "distinct (nodes b bs)" "W' (last (nodes b bs)) = e'" using Cons.prems(1-3) x by (simp_all add: l)
    show "W' y = W y" if "y \<in> set (nodes b bs)" "y \<noteq> last (nodes b bs)" for y using Cons.prems(4) [of y] that x l by simp
    show "W' (c + 4) = W (c + 4)" if "(c, k) \<in> set bs" for c k using Cons.prems(5) [of c k] that by simp
  qed
  moreover have "W' (b + 4) = W (b + 4)" using Cons.prems(5) [of b n] x by simp
  ultimately show ?case using Cons.prems(1) x by simp
qed simp

abbreviation ascending :: "nat \<Rightarrow> block list \<Rightarrow> bool" where
  "ascending a bs \<equiv> sorted_wrt (<) (nodes a bs)"

lemma lnk_next:
  "lnk W a bs e \<Longrightarrow> ascending a bs \<Longrightarrow> x \<in> set (nodes a bs) \<Longrightarrow> W x = e \<or> x < W x \<and> W x \<in> set (nodes a bs)"
proof (induction bs arbitrary: a)
  case (Cons y bs)
  obtain b n where y: "y = (b, n)" by (cases y)
  show ?case
  proof (cases "x = a")
    case True
    then show ?thesis using Cons.prems y by simp
  next
    case False
    then show ?thesis using Cons.IH [of b] Cons.prems y by auto
  qed
qed simp

text \<open>Every node is reached from every node of a circular list.\<close>

lemma lnk_reach_from: "lnk W a bs e \<Longrightarrow> x \<in> set (nodes a bs) \<Longrightarrow> \<exists>k. (W ^^ k) a = x"
proof (induction bs arbitrary: a)
  case Nil
  then show ?case by (intro exI [of _ 0]) simp
next
  case (Cons y bs)
  obtain b n where y: "y = (b, n)" by (cases y)
  show ?case
  proof (cases "x = a")
    case True
    then show ?thesis by (intro exI [of _ 0]) simp
  next
    case False
    then obtain k where "(W ^^ k) b = x" using Cons.IH [of b] Cons.prems y by auto
    moreover have "W a = b" using Cons.prems(1) y by simp
    ultimately have "(W ^^ Suc k) a = x" by (simp add: funpow_swap1)
    then show ?thesis by blast
  qed
qed

lemma lnk_reach_end: "lnk W a bs e \<Longrightarrow> x \<in> set (nodes a bs) \<Longrightarrow> \<exists>k. (W ^^ Suc k) x = e"
proof (induction bs arbitrary: a x)
  case Nil
  then show ?case by (intro exI [of _ 0]) simp
next
  case (Cons y bs)
  obtain b n where y: "y = (b, n)" by (cases y)
  show ?case
  proof (cases "x = a")
    case True
    obtain k where "(W ^^ Suc k) b = e" using Cons.IH [of b b] Cons.prems y by auto
    moreover have "W a = b" using Cons.prems(1) y by simp
    ultimately have "(W ^^ Suc (Suc k)) a = e" by (simp only: funpow_Suc_right o_def)
    then show ?thesis using True by blast
  next
    case False
    then show ?thesis using Cons.IH [of b] Cons.prems y by auto
  qed
qed

lemma lnk_reach:
  assumes "lnk W a bs a" "x \<in> set (nodes a bs)" "y \<in> set (nodes a bs)"
  shows "\<exists>k. (W ^^ Suc k) x = y"
proof -
  obtain j where j: "(W ^^ Suc j) x = a" using lnk_reach_end [OF assms(1,2)] by blast
  obtain k where k: "(W ^^ k) a = y" using lnk_reach_from [OF assms(1,3)] by blast
  have "(W ^^ (k + Suc j)) x = y" using j k by (simp only: funpow_add o_def)
  then show ?thesis by (metis add_Suc_right)
qed

text \<open>The predecessor of a block.\<close>

lemma lnk_pred:
  "lnk W a (us @ (b, n) # vs) e \<Longrightarrow> ascending a (us @ (b, n) # vs) \<Longrightarrow> e \<le> a \<Longrightarrow> x \<in> set (nodes a (us @ (b, n) # vs)) \<Longrightarrow>
   W x = b \<Longrightarrow> x = last (nodes a us)"
proof (induction us arbitrary: a)
  case Nil
  show ?case
  proof (rule ccontr)
    assume "x \<noteq> last (nodes a [])"
    then have x: "x \<in> set (nodes b vs)" using Nil.prems(4) by simp
    have "lnk W b vs e" "ascending b vs" using Nil.prems(1,2) by simp_all
    from lnk_next [OF this x] have "W x = e \<or> x < W x" by blast
    moreover have "b \<le> x" using x Nil.prems(2) by auto
    moreover have "e < b" using Nil.prems(2,3) by simp
    ultimately show False using Nil.prems(5) by auto
  qed
next
  case (Cons y us)
  obtain d k where y: "y = (d, k)" by (cases y)
  have d: "a < d" "d < b" using Cons.prems(2) y by auto
  have "x \<noteq> a" using Cons.prems(1,5) y d by auto
  then have "x = last (nodes d us)" using Cons.IH [of d] Cons.prems y d by auto
  then show ?case using y by simp
qed

section \<open>Blocks apart\<close>

text \<open>Blocks in ascending order from above \<open>lo\<close> up to \<open>hi\<close>, no two of which touch.\<close>

fun sep :: "nat \<Rightarrow> block list \<Rightarrow> nat \<Rightarrow> bool" where
  "sep lo [] hi \<longleftrightarrow> lo \<le> hi"
| "sep lo ((b, n) # bs) hi \<longleftrightarrow> lo < b \<and> b mod 8 = 0 \<and> 1 \<le> n \<and> sep (b + 8 * n) bs hi"

lemma sep_bounds: "sep lo bs hi \<Longrightarrow> lo \<le> hi \<and> (\<forall>(b, n) \<in> set bs. lo < b \<and> b mod 8 = 0 \<and> 1 \<le> n \<and> b + 8 * n \<le> hi)"
proof (induction bs arbitrary: lo)
  case (Cons x bs)
  obtain b n where x: "x = (b, n)" by (cases x)
  have "b + 8 * n \<le> hi \<and> (\<forall>(c, k) \<in> set bs. b + 8 * n < c \<and> c mod 8 = 0 \<and> 1 \<le> k \<and> c + 8 * k \<le> hi)" using Cons x by simp
  then show ?case using Cons.prems x by fastforce
qed simp

lemma sep_lower: "sep lo bs hi \<Longrightarrow> lo' \<le> lo \<Longrightarrow> sep lo' bs hi"
  by (cases bs) auto

lemma sep_raise: "sep lo bs hi \<Longrightarrow> hi \<le> hi' \<Longrightarrow> sep lo bs hi'"
  by (induction bs arbitrary: lo) auto

lemma sep_append: "sep lo (us @ vs) hi \<longleftrightarrow> (\<exists>mid. sep lo us mid \<and> sep mid vs hi)"
proof (induction us arbitrary: lo)
  case Nil
  then show ?case by (auto intro: sep_lower)
qed auto

lemma sep_ascending: "sep (a + 7) bs hi \<Longrightarrow> ascending a bs"
proof -
  have "sep lo bs hi \<Longrightarrow> a \<le> lo \<Longrightarrow> ascending a bs" for lo
  proof (induction bs arbitrary: lo a)
    case (Cons x bs)
    obtain b n where x: "x = (b, n)" by (cases x)
    have "ascending b bs" using Cons.IH [of "b + 8 * n" b] Cons.prems x by simp
    moreover have "a < b" using Cons.prems x by simp
    ultimately show ?case using x by auto
  qed simp
  then show "sep (a + 7) bs hi \<Longrightarrow> ascending a bs" by simp
qed

lemma sep_spaced:
  "sep (a + 7) bs hi \<Longrightarrow> x \<in> set (nodes a bs) \<Longrightarrow> y \<in> set (nodes a bs) \<Longrightarrow> x < y \<Longrightarrow> x + 8 \<le> y"
proof -
  have "sep lo bs hi \<Longrightarrow> a + 7 \<le> lo \<Longrightarrow> x \<in> set (nodes a bs) \<Longrightarrow> y \<in> set (nodes a bs) \<Longrightarrow> x < y \<Longrightarrow> x + 8 \<le> y" for lo
  proof (induction bs arbitrary: lo a)
    case (Cons z bs)
    obtain b n where z: "z = (b, n)" by (cases z)
    have s: "sep (b + 8 * n) bs hi" "lo < b" "1 \<le> n" using Cons.prems(1) z by simp_all
    have up: "b \<le> y'" if "y' \<in> set (nodes b bs)" for y' using sep_bounds [OF s(1)] that by fastforce
    show ?case
    proof (cases "x = a")
      case True
      then show ?thesis using up [of y] Cons.prems(2,4,5) s(2) z by auto
    next
      case False
      then have x: "x \<in> set (nodes b bs)" using Cons.prems(3) z by simp
      have "y \<noteq> a" using up [OF x] Cons.prems(2,5) s(2) by auto
      then have "y \<in> set (nodes b bs)" using Cons.prems(4) z by simp
      with x show ?thesis using Cons.IH [of "b + 8 * n" b] s Cons.prems(5) by simp
    qed
  qed simp
  then show "sep (a + 7) bs hi \<Longrightarrow> x \<in> set (nodes a bs) \<Longrightarrow> y \<in> set (nodes a bs) \<Longrightarrow> x < y \<Longrightarrow> x + 8 \<le> y" by blast
qed

section \<open>Finding the place of a block\<close>

text \<open>The test of the loop in \<^verbatim>\<open>free\<close> holds at one node only.\<close>

lemma free_place:
  "lnk W a (us @ vs) e \<Longrightarrow> ascending a (us @ vs) \<Longrightarrow> e \<le> a \<Longrightarrow> a < b \<Longrightarrow> (\<forall>(c, n) \<in> set us. c < b) \<Longrightarrow> (\<forall>(c, n) \<in> set vs. b < c) \<Longrightarrow>
   x \<in> set (nodes a (us @ vs)) \<Longrightarrow>
   (x < b \<and> b < W x \<or> W x \<le> x \<and> (x < b \<or> b < W x)) \<longleftrightarrow> x = last (nodes a us)"
proof (induction us arbitrary: a)
  case Nil
  show ?case
  proof (cases "x = a")
    case True
    then show ?thesis using Nil.prems by (cases vs) auto
  next
    case False
    then obtain c n vs' where vs: "vs = (c, n) # vs'" using Nil.prems(7) by (cases vs) auto
    have x: "x \<in> set (nodes c vs')" using False Nil.prems(7) vs by simp
    have "lnk W c vs' e" "ascending c vs'" using Nil.prems(1,2) vs by simp_all
    from lnk_next [OF this x] have "W x = e \<or> x < W x" by blast
    moreover have "b < x" using x Nil.prems(6) vs by auto
    moreover have "e < b" using Nil.prems(3,4) by simp
    ultimately show ?thesis using False by auto
  qed
next
  case (Cons y us)
  obtain d k where y: "y = (d, k)" by (cases y)
  have d: "a < d" "d < b" "W a = d" "\<forall>z \<in> set (map fst us). a < z" using Cons.prems y by auto
  show ?case
  proof (cases "x = a")
    case True
    have "last (nodes d us) \<in> set (nodes d us)" by (rule last_in_set) simp
    then have "a < last (nodes d us)" using d(1,4) by (metis list.set_intros set_ConsD)
    then show ?thesis using True d y by simp
  next
    case False
    then show ?thesis using Cons.IH [of d] Cons.prems y d by auto
  qed
qed

lemma free_find_step:
  assumes "p < 4294967296" "b < 4294967296"
  shows "free_find m (of_nat b) (of_nat p) =
    (if p < b \<and> b < words m p \<or> words m p \<le> p \<and> (p < b \<or> b < words m p) then Some (of_nat p) else free_find m (of_nat b) (of_nat (words m p)))"
  by (subst free_find.simps) (auto simp: s_ptr_words nat_word_less nat_word_le words_less assms)

lemma free_find_ok:
  assumes l: "lnk (words m) base (us @ vs) base" "ascending base (us @ vs)" and b: "base < b" "b < 4294967296"
    "\<forall>(c, n) \<in> set us. c < b" "\<forall>(c, n) \<in> set vs. b < c" and f: "f \<in> set (nodes base (us @ vs))"
    and nd: "\<forall>x \<in> set (nodes base (us @ vs)). x < 4294967296"
  shows "free_find m (of_nat b) (of_nat f) = Some (of_nat (last (nodes base us)))"
proof -
  define N where "N = set (nodes base (us @ vs))"
  define p where "p = last (nodes base us)"
  have "set (nodes base us) \<subseteq> N" by (auto simp: N_def)
  moreover have "p \<in> set (nodes base us)" unfolding p_def by (rule last_in_set) simp
  ultimately have p: "p \<in> N" by (rule subsetD)
  have step: "free_find m (of_nat b) (of_nat x) = (if x = p then Some (of_nat p) else free_find m (of_nat b) (of_nat (words m x)))" if "x \<in> N" for x
    using free_place [OF l order_refl b(1,3,4) that [unfolded N_def]] free_find_step [of x b m] nd that b(2)
    unfolding p_def [symmetric] N_def [symmetric] by simp
  have close: "words m x \<in> N" if "x \<in> N" for x using lnk_next [OF l that [unfolded N_def]] unfolding N_def by auto
  have go: "x \<in> N \<Longrightarrow> (words m ^^ k) x = p \<Longrightarrow> free_find m (of_nat b) (of_nat x) = Some (of_nat p)" for k x
  proof (induction k arbitrary: x)
    case 0
    then show ?case using step by simp
  next
    case (Suc k)
    have "(words m ^^ k) (words m x) = p" using Suc.prems(2) by (simp add: funpow_swap1)
    then show ?case using Suc.IH [OF close [OF Suc.prems(1)]] step [OF Suc.prems(1)] by simp
  qed
  from lnk_reach [OF l(1) f p [unfolded N_def]] obtain k where "(words m ^^ Suc k) f = p" by blast
  then show ?thesis unfolding p_def [symmetric] by (rule go [OF f [folded N_def]])
qed

section \<open>Joining blocks\<close>

text \<open>A set of headers: aligned, and 8 bytes apart.\<close>

definition hdrs :: "nat set \<Rightarrow> bool" where
  "hdrs X \<longleftrightarrow> (\<forall>x \<in> X. x mod 4 = 0 \<and> x + 8 \<le> 2147483648) \<and> (\<forall>x \<in> X. \<forall>y \<in> X. x < y \<longrightarrow> x + 8 \<le> y)"

lemma hdrsD:
  assumes "hdrs X" "x \<in> X"
  shows "x mod 4 = 0" "x + 8 \<le> 2147483648" "(x + 4) mod 4 = 0"
  using assms by (auto simp: hdrs_def)

lemma hdrs_other:
  assumes "hdrs X" "x \<in> X" "y \<in> X"
  shows "x + 4 \<noteq> y"
proof
  assume "x + 4 = y"
  moreover then have "x + 8 \<le> y" using assms by (auto simp: hdrs_def)
  ultimately show False by simp
qed

lemma words_set_ptr:
  assumes X: "hdrs X" "a \<in> X" "y \<in> X" and v: "v < 4294967296"
  shows "words (um (set_ptr (of_nat a) (of_nat v) h)) y = (if y = a then v else words (um h) y)"
    "words (um (set_ptr (of_nat a) (of_nat v) h)) (y + 4) = words (um h) (y + 4)"
  using hdrsD [OF X(1,2)] hdrsD [OF X(1,3)] hdrs_other [OF X(1) X(3,2)] v
  by (simp_all add: set_ptr_def words_store unat_nat)

lemma words_set_size:
  assumes X: "hdrs X" "a \<in> X" "y \<in> X" and v: "v < 4294967296"
  shows "words (um (set_size (of_nat a) (of_nat v) h)) y = words (um h) y"
    "words (um (set_size (of_nat a) (of_nat v) h)) (y + 4) = (if y = a then v else words (um h) (y + 4))"
proof -
  have e: "set_size (of_nat a) (of_nat v) h = h\<lparr>um := store32 (um h) (of_nat (a + 4)) (of_nat v)\<rparr>" by (simp add: set_size_def add.commute)
  show "words (um (set_size (of_nat a) (of_nat v) h)) y = words (um h) y"
    unfolding e using hdrsD [OF X(1,2)] hdrsD [OF X(1,3)] hdrs_other [OF X] v words_store [of "a + 4" y] by auto
  show "words (um (set_size (of_nat a) (of_nat v) h)) (y + 4) = (if y = a then v else words (um h) (y + 4))"
    unfolding e using hdrsD [OF X(1,2)] hdrsD [OF X(1,3)] v words_store [of "a + 4" "y + 4"] by (auto simp: unat_nat)
qed

lemma set_frame [simp]:
  "freep (set_ptr p v h) = freep h" "brk (set_ptr p v h) = brk h" "freep (set_size p v h) = freep h" "brk (set_size p v h) = brk h"
  by (simp_all add: set_ptr_def set_size_def)

lemma same_but_set:
  assumes "same_but X m (um h)" "a \<in> X" "a + 8 \<le> 2147483648"
  shows "same_but X m (um (set_ptr (of_nat a) v h))" "same_but X m (um (set_size (of_nat a) v h))"
  using same_but_store [OF assms(1,2), of v] assms(3) by (simp_all add: set_ptr_def set_size_def add.commute)

lemma lnk_head:
  assumes "lnk W b bs e" "W' a = W b" "\<And>x n. (x, n) \<in> set bs \<Longrightarrow> W' x = W x \<and> W' (x + 4) = W (x + 4)"
  shows "lnk W' a bs e"
proof (cases bs)
  case (Cons y bs')
  obtain c n where y: "y = (c, n)" by (cases y)
  have l: "lnk W c bs' e" using assms(1) Cons y by simp
  have same: "W' x = W x \<and> W' (x + 4) = W (x + 4)" if "(x, k) \<in> set ((c, n) # bs')" for x k using assms(3) [of x k] that Cons y by simp
  have "lnk W' c bs' e"
  proof (rule lnk_cong [OF l])
    fix x assume "x \<in> set (nodes c bs')"
    then have "x \<in> fst ` set ((c, n) # bs')" by simp
    then obtain z where "z \<in> set ((c, n) # bs')" "x = fst z" by blast
    then show "W' x = W x" using same [of "fst z" "snd z"] by simp
  next
    fix x k assume "(x, k) \<in> set bs'"
    then show "W' (x + 4) = W (x + 4)" using same [of x k] by simp
  qed
  then show ?thesis using assms(1,2) same [of c n] Cons y by simp
qed (use assms in simp)

fun join_up :: "nat \<Rightarrow> nat \<Rightarrow> block list \<Rightarrow> nat \<times> block list" where
  "join_up b n [] = (n, [])"
| "join_up b n ((c, k) # vs) = (if b + 8 * n = c then (n + k, vs) else (n, (c, k) # vs))"

lemma join_up_rest: "join_up b n vs = (n', rest) \<Longrightarrow> set rest \<subseteq> set vs \<and> (distinct (map fst vs) \<longrightarrow> distinct (map fst rest))"
  by (cases vs) (auto split: if_splits)

lemma join_up_distinct:
  assumes "join_up b n vs = (n', rest)" "distinct (xs @ map fst vs)" "b \<notin> set xs" "b \<notin> set (map fst vs)"
  shows "distinct (xs @ b # map fst rest)"
proof -
  have "set (map fst rest) \<subseteq> set (map fst vs)" "distinct (map fst rest)" using join_up_rest [OF assms(1)] assms(2) by auto
  then show ?thesis using assms(2-4) unfolding distinct_append distinct.simps set_simps by blast
qed

lemma join_upper_ok:
  assumes X: "hdrs X" "p \<in> X" "b \<in> X" "set (map fst vs) \<subseteq> X" and ne: "b \<noteq> p" "b \<notin> set (map fst vs)"
    and l: "lnk (words (um h)) p vs base" and n: "words (um h) (b + 4) = n" "b + 8 * n \<le> 2147483648"
    and bs: "base < b" "base < 2147483648" and vs: "\<forall>(c, k) \<in> set vs. c + 8 * k \<le> 2147483648"
    and j: "join_up b n vs = (n', rest)"
  defines "h' \<equiv> join_upper (of_nat b) (of_nat p) h"
  shows "words (um h') (b + 4) = n' \<and> lnk (words (um h')) b rest base \<and> same_but {b} (um h) (um h') \<and> freep h' = freep h \<and> brk h' = brk h
    \<and> (\<forall>y \<in> X. y \<noteq> b \<longrightarrow> words (um h') y = words (um h) y \<and> words (um h') (y + 4) = words (um h) (y + 4))"
proof -
  let ?W = "words (um h)"
  have bX: "b + 8 \<le> 2147483648" using hdrsD [OF X(1,3)] by simp
  have q32: "?W p < 4294967296" by (rule words_less)
  have sub: "x \<in> X \<and> x \<noteq> b" if "(x, k) \<in> set vs" for x k
    using X(4) ne(2) that by (auto simp: subset_iff image_iff)
  have test: "of_nat b + 8 * s_size (um h) (of_nat b) = s_ptr (um h) (of_nat p) \<longleftrightarrow> b + 8 * n = ?W p"
    using nat_word_eq [of "b + 8 * n" "?W p"] n q32 by (simp add: s_size_words s_ptr_words)
  show ?thesis
  proof (cases "b + 8 * n = ?W p")
    case False
    then have h': "h' = set_ptr (of_nat b) (of_nat (?W p)) h" unfolding h'_def join_upper_def test by (simp add: s_ptr_words)
    note w = words_set_ptr [OF X(1,3) _ q32, of _ h, folded h']
    have r: "n' = n" "rest = vs" using j False l by (cases vs; auto split: if_splits)+
    have "lnk (words (um h')) b vs base"
      using w(1) [OF X(3)] w(1,2) [OF conjunct1 [OF sub]] sub by (intro lnk_head [OF l]) simp_all
    then show ?thesis using w X(3) n(1) r same_but_set(1) [OF same_but_refl, of b "{b}" h "of_nat (?W p)"] bX h' by auto
  next
    case True
    then obtain c k vs' where v: "vs = (c, k) # vs'" using l bs by (cases vs) auto
    have c: "?W p = c" "?W (c + 4) = k" "lnk ?W c vs' base" "c \<in> X" "c \<noteq> b" using l v X(4) ne by auto
    have r: "n' = n + k" "rest = vs'" using j True v c(1) by simp_all
    have nk: "n + k < 4294967296" using True c(1) vs v by auto
    let ?g = "set_size (of_nat b) (of_nat (n + k)) h"
    have s: "s_size (um h) (of_nat b) + s_size (um h) (s_ptr (um h) (of_nat p)) = of_nat (n + k)"
      using c n(1) by (simp add: s_size_words s_ptr_words)
    note wg = words_set_size [OF X(1,3) _ nk, of _ h]
    have g: "s_ptr (um ?g) (s_ptr (um ?g) (of_nat p)) = of_nat (?W c)" using wg(1) [OF X(2)] wg(1) [OF c(4)] c(1) by (simp add: s_ptr_words)
    have h': "h' = set_ptr (of_nat b) (of_nat (?W c)) ?g"
      unfolding h'_def join_upper_def Let_def test using True g by (simp add: s)
    note w = words_set_ptr [OF X(1,3) _ words_less, of _ "um h" c ?g, folded h']
    have wy: "words (um h') y = (if y = b then ?W c else ?W y)" "words (um h') (y + 4) = (if y = b then n + k else ?W (y + 4))" if "y \<in> X" for y
      using w [OF that] wg [OF that] by simp_all
    have "lnk (words (um h')) b vs' base"
    proof (rule lnk_head [OF c(3)])
      show "words (um h') b = ?W c" using wy(1) [OF X(3)] by simp
      fix x i assume "(x, i) \<in> set vs'"
      then have "x \<in> X" "x \<noteq> b" using sub [of x i] v by simp_all
      then show "words (um h') x = ?W x \<and> words (um h') (x + 4) = ?W (x + 4)" using wy by simp
    qed
    moreover have "same_but {b} (um h) (um h')" unfolding h' by (rule same_but_set(1) [OF same_but_set(2) [OF same_but_refl]]) (use bX in simp_all)
    ultimately show ?thesis using wy X(3) r h' by auto
  qed
qed

definition join_down :: "block list \<Rightarrow> nat \<Rightarrow> nat \<Rightarrow> block list \<Rightarrow> block list" where
  "join_down us b n rest =
     (if us \<noteq> [] \<and> fst (last us) + 8 * snd (last us) = b then butlast us @ (fst (last us), snd (last us) + n) # rest
      else us @ (b, n) # rest)"

lemma join_lower_plain:
  assumes X: "hdrs X" "set (nodes base us) \<subseteq> X" "b \<in> X" "set (map fst rest) \<subseteq> X"
    and d: "distinct (nodes base us @ b # map fst rest)"
    and l: "lnk (words (um h)) base us q" "words (um h) (base + 4) = 0" "words (um h) (b + 4) = n" "lnk (words (um h)) b rest base"
  defines "p \<equiv> last (nodes base us)"
  defines "h' \<equiv> set_ptr (of_nat p) (of_nat b) h"
  shows "lnk (words (um h')) base (us @ (b, n) # rest) base \<and> words (um h') (base + 4) = 0"
proof -
  let ?W = "words (um h)" let ?W' = "words (um h')"
  have pn: "p \<in> set (nodes base us)" unfolding p_def by (rule last_in_set) simp
  then have p: "p \<in> X" using X(2) by blast
  have b32: "b < 4294967296" using hdrsD [OF X(1,3)] by simp
  note w = words_set_ptr [OF X(1) p _ b32, of _ h, folded h'_def]
  have pb: "p \<noteq> b" "p \<notin> set (map fst rest)" using d pn by auto
  have base: "base \<in> X" using X(2) by simp
  have "lnk ?W' base us b"
  proof (rule lnk_relink [OF l(1)])
    show "distinct (nodes base us)" using d by simp
    show "?W' (last (nodes base us)) = b" using w(1) [OF p] by (simp only: p_def [symmetric] if_True refl)
    show "?W' x = ?W x" if "x \<in> set (nodes base us)" "x \<noteq> last (nodes base us)" for x
      using w(1) [of x] that X(2) unfolding p_def [symmetric] by auto
    show "?W' (c + 4) = ?W (c + 4)" if "(c, k) \<in> set us" for c k
      using w(2) [of c] that X(2) by force
  qed
  moreover have "?W' (b + 4) = n" using w(2) [OF X(3)] l(3) by simp
  moreover have "lnk ?W' b rest base"
  proof (rule lnk_cong [OF l(4)])
    fix x assume "x \<in> set (nodes b rest)"
    then have "x \<in> X" "x \<noteq> p" using X(3,4) pb by (metis set_ConsD subsetD)+
    then show "?W' x = ?W x" using w(1) by simp
  next
    show "?W' (c + 4) = ?W (c + 4)" if "(c, k) \<in> set rest" for c k using w(2) [of c] that X(4) by force
  qed
  moreover have "?W' (base + 4) = 0" using w(2) [OF base] l(2) by simp
  ultimately show ?thesis by (simp only: lnk_append)
qed

lemma join_lower_ok:
  assumes X: "hdrs X" "set (nodes base us) \<subseteq> X" "b \<in> X" "set (map fst rest) \<subseteq> X"
    and d: "distinct (nodes base us @ b # map fst rest)"
    and l: "lnk (words (um h)) base us q" "words (um h) (base + 4) = 0" "words (um h) (b + 4) = n" "lnk (words (um h)) b rest base"
    and sz: "\<forall>(c, k) \<in> set us. c + 8 * k \<le> 2147483648" "b + 8 * n \<le> 2147483648"
  defines "p \<equiv> last (nodes base us)"
  defines "h' \<equiv> join_lower (of_nat b) (of_nat p) h"
  shows "lnk (words (um h')) base (join_down us b n rest) base \<and> words (um h') (base + 4) = 0 \<and> same_but {p} (um h) (um h')
    \<and> freep h' = freep h \<and> brk h' = brk h"
proof -
  let ?W = "words (um h)" let ?W' = "words (um h')"
  have pn: "p \<in> set (nodes base us)" unfolding p_def by (rule last_in_set) simp
  then have p: "p \<in> X" using X(2) by blast
  have p8: "p + 8 \<le> 2147483648" and b8: "b + 8 \<le> 2147483648" using hdrsD [OF X(1) p] hdrsD [OF X(1,3)] by simp_all
  have base: "base \<in> X" using X(2) by simp
  show ?thesis
  proof (cases "us \<noteq> [] \<and> fst (last us) + 8 * snd (last us) = b")
    case False
    have "\<not> of_nat p + 8 * s_size (um h) (of_nat p) = (of_nat b :: u32)"
    proof (cases us rule: rev_cases)
      case Nil
      then have "p = base" "p \<noteq> b" using d by (auto simp: p_def)
      then show ?thesis using l(2) nat_word_eq [of p b] p8 b8 by (simp add: s_size_words)
    next
      case (snoc us' z)
      obtain a k where z: "z = (a, k)" by (cases z)
      have "p = a" "?W (a + 4) = k" "a + 8 * k \<noteq> b" "a + 8 * k \<le> 2147483648"
        using l(1) sz(1) False snoc z by (auto simp: p_def lnk_append)
      then show ?thesis using nat_word_eq [of "a + 8 * k" b] b8 by (simp add: s_size_words)
    qed
    then have h': "h' = set_ptr (of_nat p) (of_nat b) h" by (simp add: h'_def join_lower_def)
    have "join_down us b n rest = us @ (b, n) # rest" unfolding join_down_def using False by (rule if_not_P)
    then show ?thesis using join_lower_plain [OF X d l] same_but_set(1) [OF same_but_refl, of p "{p}" h "of_nat b"] p8 h'
      unfolding p_def [symmetric] by simp
  next
    case True
    then obtain us' a k where us: "us = us' @ [(a, k)]" by (cases us rule: rev_cases) auto
    have a: "p = a" "?W (a + 4) = k" "a + 8 * k = b" "lnk ?W base us' a" using l(1) True us by (auto simp: p_def lnk_append)
    have kn: "k + n < 4294967296" using a(3) sz(2) by simp
    let ?g = "set_size (of_nat p) (of_nat (k + n)) h"
    note wg = words_set_size [OF X(1) p _ kn, of _ h]
    have s: "s_size (um h) (of_nat p) + s_size (um h) (of_nat b) = of_nat (k + n)" using a l(3) by (simp add: s_size_words)
    have g: "s_ptr (um ?g) (of_nat b) = of_nat (?W b)" using wg(1) [OF X(3)] by (simp add: s_ptr_words)
    have t: "of_nat p + 8 * s_size (um h) (of_nat p) = (of_nat b :: u32)" using a by (simp add: s_size_words flip: a(3))
    have h': "h' = set_ptr (of_nat p) (of_nat (?W b)) ?g" unfolding h'_def join_lower_def Let_def using t g s by simp
    note w = words_set_ptr [OF X(1) p _ words_less, of _ "um h" b ?g, folded h']
    have wy: "?W' y = (if y = p then ?W b else ?W y)" "?W' (y + 4) = (if y = p then k + n else ?W (y + 4))" if "y \<in> X" for y
      using w [OF that] wg [OF that] by simp_all
    have ne: "p \<notin> set (map fst us')" "p \<noteq> base" "p \<notin> set (map fst rest)" "p \<noteq> b" using d us a(1) by auto
    have sub: "set (map fst us') \<subseteq> X" using X(2) us by auto
    have "lnk ?W' base us' a"
    proof (rule lnk_cong [OF a(4)])
      fix x assume "x \<in> set (nodes base us')"
      then have "x \<in> X" "x \<noteq> p" using sub base ne(1,2) by (metis set_ConsD subsetD)+
      then show "?W' x = ?W x" using wy(1) by simp
    next
      show "?W' (c + 4) = ?W (c + 4)" if "(c, i) \<in> set us'" for c i using wy(2) [of c] that ne(1) sub by force
    qed
    moreover have "?W' (a + 4) = k + n" using wy(2) [OF p] a(1) by simp
    moreover have "lnk ?W' a rest base"
    proof (rule lnk_head [OF l(4)])
      show "?W' a = ?W b" using wy(1) [OF p] a(1) by simp
      fix x i assume "(x, i) \<in> set rest"
      then have "x \<in> X" "x \<noteq> p" using X(4) ne(3) by force+
      then show "?W' x = ?W x \<and> ?W' (x + 4) = ?W (x + 4)" using wy by simp
    qed
    moreover have "join_down us b n rest = us' @ (a, k + n) # rest" using True us by (simp add: join_down_def)
    moreover have "?W' (base + 4) = 0" using wy(2) [OF base] ne(2) l(2) by simp
    moreover have "same_but {p} (um h) (um h')" unfolding h' by (rule same_but_set(1) [OF same_but_set(2) [OF same_but_refl]]) (use p8 in simp_all)
    ultimately show ?thesis using h' by (simp add: lnk_append)
  qed
qed

section \<open>The heap\<close>

definition apart :: "block \<Rightarrow> block \<Rightarrow> bool" where
  "apart x y \<longleftrightarrow> fst x + 8 * snd x \<le> fst y \<or> fst y + 8 * snd y \<le> fst x"

text \<open>
  The blocks \<open>A\<close> that the program holds and the free blocks \<open>fs\<close>, between the static header at \<open>base\<close> and the end \<open>hi\<close> of the
  heap.
\<close>

definition heap_blocks :: "nat \<Rightarrow> block set \<Rightarrow> block list \<Rightarrow> nat \<Rightarrow> bool" where
  "heap_blocks base A fs hi \<longleftrightarrow> base mod 4 = 0 \<and> 0 < base \<and> base + 8 \<le> hi \<and> hi < 2147483648 \<and> hi mod 8 = 0
     \<and> sep (base + 7) fs hi
     \<and> (\<forall>(a, n) \<in> A. base + 8 \<le> a \<and> a mod 8 = 0 \<and> 1 \<le> n \<and> a + 8 * n \<le> hi)
     \<and> (\<forall>x \<in> A. \<forall>y \<in> A. x \<noteq> y \<longrightarrow> apart x y) \<and> (\<forall>x \<in> A. \<forall>y \<in> set fs. apart x y)"

definition heap_inv :: "nat \<Rightarrow> block set \<Rightarrow> block list \<Rightarrow> uheap \<Rightarrow> bool" where
  "heap_inv base A fs h \<longleftrightarrow> heap_blocks base A fs (unat (brk h)) \<and> (\<forall>(a, n) \<in> A. words (um h) (a + 4) = n)
     \<and> lnk (words (um h)) base fs base \<and> words (um h) (base + 4) = 0 \<and> (\<exists>f \<in> set (nodes base fs). freep h = of_nat f)"

text \<open>No byte of the blocks in \<open>A\<close> changes.\<close>

definition kept :: "block set \<Rightarrow> memory \<Rightarrow> memory \<Rightarrow> bool" where
  "kept A m m' \<longleftrightarrow> (\<forall>(a, n) \<in> A. \<forall>x. a \<le> x \<and> x < a + 8 * n \<longrightarrow> m' (of_nat x) = m (of_nat x))"

lemma apart_join: "apart x (a, l) \<Longrightarrow> apart x (a + 8 * l, n) \<Longrightarrow> 1 \<le> snd x \<Longrightarrow> apart x (a, l + n)"
  by (auto simp: apart_def)

lemma join_up_apart:
  assumes "join_up b n vs = (n', rest)" "\<forall>y \<in> set vs. apart x y" "apart x (b, n)" "1 \<le> snd x"
  shows "apart x (b, n') \<and> (\<forall>y \<in> set rest. apart x y)"
  using assms apart_join [of x b n] by (cases vs) (auto split: if_splits)

lemma join_down_apart:
  assumes "\<forall>y \<in> set us. apart x y" "apart x (b, n)" "\<forall>y \<in> set rest. apart x y" "1 \<le> snd x"
  shows "\<forall>y \<in> set (join_down us b n rest). apart x y"
proof (cases "us \<noteq> [] \<and> fst (last us) + 8 * snd (last us) = b")
  case True
  then have "apart x (fst (last us), snd (last us))" using assms(1) by simp
  from apart_join [OF this, of n] have "apart x (fst (last us), snd (last us) + n)" using True assms(2,4) by simp
  then show ?thesis using True assms(1,3) by (auto simp: join_down_def dest: in_set_butlastD)
next
  case False
  then show ?thesis using assms unfolding join_down_def if_not_P [OF False] by auto
qed

lemma join_up_sep:
  assumes "join_up b n vs = (n', rest)" "sep (b + 8 * n - 1) vs hi" "1 \<le> n" "b + 8 * n \<le> hi"
  shows "sep (b + 8 * n') rest hi \<and> n \<le> n'"
proof (cases vs)
  case (Cons y vs')
  obtain c k where y: "y = (c, k)" by (cases y)
  show ?thesis
  proof (cases "b + 8 * n = c")
    case False
    have "b + 8 * n - 1 < c" using assms(2) Cons y by simp
    then have "b + 8 * n < c" using False assms(3) by linarith
    then show ?thesis using assms(1,2) Cons y False by auto
  qed (use assms Cons y in \<open>auto simp: add.assoc\<close>)
qed (use assms in auto)

lemma sep_tight:
  "sep lo us mid \<Longrightarrow> lo < b \<Longrightarrow> (\<forall>(a, k) \<in> set us. a + 8 * k \<le> b) \<Longrightarrow> (us \<noteq> [] \<longrightarrow> fst (last us) + 8 * snd (last us) \<noteq> b) \<Longrightarrow> sep lo us (b - 1)"
proof (induction us arbitrary: lo)
  case (Cons x us)
  obtain a k where x: "x = (a, k)" by (cases x)
  show ?case
  proof (cases us)
    case Nil
    then show ?thesis using Cons.prems x by auto
  next
    case (Cons y us')
    obtain c l where y: "y = (c, l)" by (cases y)
    have "a + 8 * k < b" using Cons.prems(1,3) x y Cons by auto
    then show ?thesis using Cons.IH [of "a + 8 * k"] Cons.prems x Cons by auto
  qed
qed auto

lemma join_down_sep:
  assumes us: "sep lo us mid" "lo < b" "\<forall>(a, k) \<in> set us. a + 8 * k \<le> b" and b: "b mod 8 = 0" "1 \<le> n" and rest: "sep (b + 8 * n) rest hi"
  shows "sep lo (join_down us b n rest) hi \<and> (\<exists>(c, k) \<in> set (join_down us b n rest). n \<le> k)"
proof (cases "us \<noteq> [] \<and> fst (last us) + 8 * snd (last us) = b")
  case True
  then obtain us' a k where u: "us = us' @ [(a, k)]" by (cases us rule: rev_cases) auto
  then obtain m where m: "sep lo us' m" "m < a" "a mod 8 = 0" "1 \<le> k" using us(1) by (auto simp: sep_append)
  have e: "a + 8 * (k + n) = b + 8 * n" "1 \<le> k + n" using True u m(4) by simp_all
  have "sep (a + 8 * (k + n)) rest hi" unfolding e by (rule rest)
  then have "sep m ((a, k + n) # rest) hi" using m(2,3) e(2) by (simp only: sep.simps simp_thms)
  moreover have j: "join_down us b n rest = us' @ (a, k + n) # rest" using True u by (simp add: join_down_def)
  ultimately have "sep lo (join_down us b n rest) hi" using m(1) by (auto simp: sep_append)
  moreover have "(a, k + n) \<in> set (join_down us b n rest)" unfolding j by simp
  ultimately show ?thesis by (intro conjI bexI [of _ "(a, k + n)"]) simp_all
next
  case False
  have j: "join_down us b n rest = us @ (b, n) # rest" unfolding join_down_def using False by (rule if_not_P)
  have "sep lo us (b - 1)" by (rule sep_tight [OF us]) (use False in blast)
  moreover have "sep (b - 1) ((b, n) # rest) hi" using us(2) b rest by simp
  ultimately have "sep lo (us @ (b, n) # rest) hi" by (auto simp: sep_append)
  then show ?thesis unfolding j by (intro conjI bexI [of _ "(b, n)"]) simp_all
qed

text \<open>The place of an allocated block in the free list.\<close>

definition below :: "nat \<Rightarrow> block list \<Rightarrow> block list" where "below b fs = takeWhile (\<lambda>x. fst x < b) fs"
definition above :: "nat \<Rightarrow> block list \<Rightarrow> block list" where "above b fs = dropWhile (\<lambda>x. fst x < b) fs"

lemma below_above: "below b fs @ above b fs = fs"
  by (simp add: below_def above_def)

lemma above_larger: "ascending a fs \<Longrightarrow> x \<in> set (above b fs) \<Longrightarrow> b \<le> fst x"
proof (induction fs arbitrary: a)
  case (Cons y fs)
  then show ?case by (cases "fst y < b") (auto simp: above_def)
qed (simp add: above_def)

lemma mod84: "x mod 8 = 0 \<Longrightarrow> x mod 4 = 0" for x :: nat
  by presburger

lemma heap_place:
  assumes hb: "heap_blocks base A fs hi" and b: "(b, n) \<in> A"
  shows "\<forall>(a, k) \<in> set (below b fs). a < b \<and> a + 8 * k \<le> b" "\<forall>(c, k) \<in> set (above b fs). b < c \<and> b + 8 * n \<le> c \<and> c + 8 * k \<le> hi"
    "hdrs (insert b (set (nodes base fs)))" "b \<notin> set (nodes base fs)" "sep (b + 8 * n - 1) (above b fs) hi"
    "\<exists>mid. sep (base + 7) (below b fs) mid"
proof -
  have s: "sep (base + 7) fs hi" and ap: "\<forall>y \<in> set fs. apart (b, n) y" and B: "base + 8 \<le> b" "b mod 8 = 0" "1 \<le> n" "b + 8 * n \<le> hi" "hi < 2147483648"
    "base mod 4 = 0" using hb b by (auto simp: heap_blocks_def)
  note f = sep_bounds [OF s]
  have in_fs: "(a, k) \<in> set fs" if "(a, k) \<in> set (below b fs) \<or> (a, k) \<in> set (above b fs)" for a k
    using that by (metis below_above Un_iff set_append)
  show bl: "\<forall>(a, k) \<in> set (below b fs). a < b \<and> a + 8 * k \<le> b"
  proof clarify
    fix a k assume x: "(a, k) \<in> set (below b fs)"
    then have "a < b" by (auto simp: below_def dest: set_takeWhileD)
    moreover have "apart (b, n) (a, k)" using ap in_fs x by blast
    ultimately show "a < b \<and> a + 8 * k \<le> b" using B(3) by (auto simp: apart_def)
  qed
  show ab: "\<forall>(c, k) \<in> set (above b fs). b < c \<and> b + 8 * n \<le> c \<and> c + 8 * k \<le> hi"
  proof clarify
    fix c k assume x: "(c, k) \<in> set (above b fs)"
    then have "b \<le> c" using above_larger [OF sep_ascending [OF s]] by force
    moreover have "apart (b, n) (c, k)" "1 \<le> k" "c + 8 * k \<le> hi" using ap in_fs x f by blast+
    ultimately show "b < c \<and> b + 8 * n \<le> c \<and> c + 8 * k \<le> hi" using B(3) by (auto simp: apart_def)
  qed
  have far: "x + 8 \<le> b \<or> b + 8 \<le> x" if xn: "x \<in> set (nodes base fs)" for x
  proof (cases "x = base")
    case False
    then obtain k where "(x, k) \<in> set fs" using xn by auto
    then have "apart (b, n) (x, k)" "1 \<le> k" using ap f by auto
    then show ?thesis using B(3) by (auto simp: apart_def)
  qed (use B(1) in simp)
  have al: "x mod 4 = 0 \<and> x + 8 \<le> 2147483648" if xn: "x \<in> set (nodes base fs)" for x
  proof (cases "x = base")
    case False
    then obtain k where "(x, k) \<in> set fs" using xn by auto
    then have "x mod 8 = 0" "1 \<le> k" "x + 8 * k \<le> hi" using f by auto
    then show ?thesis using B(5) mod84 [of x] by auto
  qed (use B in simp)
  have bl8: "b mod 4 = 0" "b + 8 \<le> 2147483648" using B mod84 [of b] by auto
  show "hdrs (insert b (set (nodes base fs)))" unfolding hdrs_def
  proof (intro conjI ballI impI)
    fix x assume "x \<in> insert b (set (nodes base fs))"
    then show "x mod 4 = 0" "x + 8 \<le> 2147483648" using al bl8 by blast+
    fix y assume "y \<in> insert b (set (nodes base fs))" "x < y"
    then show "x + 8 \<le> y" using \<open>x \<in> insert b (set (nodes base fs))\<close> far [of x] far [of y] sep_spaced [OF s, of x y] by force
  qed
  show "b \<notin> set (nodes base fs)" using far by fastforce
  obtain mid where m: "sep (base + 7) (below b fs) mid" "sep mid (above b fs) hi" using s below_above [of b fs] by (metis sep_append)
  then show "\<exists>mid. sep (base + 7) (below b fs) mid" by blast
  show "sep (b + 8 * n - 1) (above b fs) hi"
    using m(2) ab B(3,4) by (cases "above b fs") auto
qed

section \<open>Freeing a block\<close>

lemma lnk_app: "lnk W a (us @ vs) e \<longleftrightarrow> lnk W a us (W (last (nodes a us))) \<and> lnk W (last (nodes a us)) vs e"
proof (induction us arbitrary: a)
  case Nil
  then show ?case by simp
next
  case (Cons y us)
  obtain d k where "y = (d, k)" by (cases y)
  then show ?case using Cons [of d] by simp
qed

lemma join_down_node: "last (nodes base us) \<in> set (nodes base (join_down us b n rest))"
proof (cases us rule: rev_cases)
  case (snoc us' z)
  then show ?thesis by (cases "fst z + 8 * snd z = b") (auto simp: join_down_def)
qed (simp add: join_down_def)

lemma kept_same_but:
  assumes "same_but X m m'" "\<And>x a n. x \<in> X \<Longrightarrow> (a, n) \<in> A \<Longrightarrow> x + 8 \<le> a \<or> a + 8 * n \<le> x" "\<And>a n. (a, n) \<in> A \<Longrightarrow> a + 8 * n \<le> 2147483648"
  shows "kept A m m'"
  unfolding kept_def
proof clarify
  fix a n x assume x: "(a, n) \<in> A" "a \<le> x" "x < a + 8 * n"
  have "x < 4294967296" using assms(3) [OF x(1)] x(3) by simp
  moreover have "\<forall>y \<in> X. x < y \<or> y + 8 \<le> x" using assms(2) [OF _ x(1)] x(2,3) by fastforce
  ultimately show "m' (of_nat x) = m (of_nat x)" using assms(1) by (simp add: same_but_def)
qed

lemma kept_trans: "kept A m m' \<Longrightarrow> kept A m' m'' \<Longrightarrow> kept A m m''"
  by (fastforce simp: kept_def)

lemma kept_mono: "kept A m m' \<Longrightarrow> B \<subseteq> A \<Longrightarrow> kept B m m'"
  by (auto simp: kept_def)

lemma kept_words:
  assumes "kept A m m'" "(a, n) \<in> A" "1 \<le> n"
  shows "words m' (a + 4) = words m (a + 4)"
proof -
  have "\<forall>x. a \<le> x \<and> x < a + 8 * n \<longrightarrow> m' (of_nat x) = m (of_nat x)" using bspec [OF assms(1) [unfolded kept_def] assms(2)] by simp
  then have "m' (of_nat (a + 4 + k)) = m (of_nat (a + 4 + k))" if "k < 4" for k
    using that assms(3) by (elim allE [of _ "a + 4 + k"]) linarith
  from this [of 0] this [of 1] this [of 2] this [of 3] show ?thesis
    unfolding words_def by (intro arg_cong [of _ _ unat] load32_cong) (simp_all add: add.commute add.left_commute)
qed

lemma nodes_hdrs:
  assumes "heap_blocks base A fs hi"
  shows "hdrs (set (nodes base fs))"
proof -
  have s: "sep (base + 7) fs hi" "base mod 4 = 0" "base + 8 \<le> hi" "hi < 2147483648" using assms by (auto simp: heap_blocks_def)
  have "x mod 4 = 0 \<and> x + 8 \<le> 2147483648" if "x \<in> set (nodes base fs)" for x
    using that s(2-4) sep_bounds [OF s(1)] mod84 [of x] by fastforce
  then show ?thesis using sep_spaced [OF s(1)] unfolding hdrs_def by blast
qed

lemma nodes_apart:
  assumes hb: "heap_blocks base A fs hi" and x: "x \<in> set (nodes base fs)" and a: "(a, k) \<in> A"
  shows "x + 8 \<le> a \<or> a + 8 * k \<le> x"
proof (cases "x = base")
  case True
  then show ?thesis using hb a by (auto simp: heap_blocks_def)
next
  case False
  have s: "sep (base + 7) fs hi" and ap: "\<forall>z \<in> set fs. apart (a, k) z" using hb a unfolding heap_blocks_def by blast+
  obtain i where i: "(x, i) \<in> set fs" using x False by auto
  have "1 \<le> i" using sep_bounds [OF s] i by auto
  then show ?thesis using bspec [OF ap i] by (auto simp: apart_def)
qed

lemma kept_header:
  assumes "heap_blocks base A fs hi" "x \<in> set (nodes base fs)" "same_but {x} m m'"
  shows "kept A m m'"
proof (rule kept_same_but [OF assms(3)])
  show "z + 8 \<le> a \<or> a + 8 * n \<le> z" if "z \<in> {x}" "(a, n) \<in> A" for z a n using nodes_apart [OF assms(1,2)] that by blast
  show "a + 8 * n \<le> 2147483648" if "(a, n) \<in> A" for a n using assms(1) that unfolding heap_blocks_def by fastforce
qed

lemma kept_sizes:
  assumes "heap_blocks base A fs hi" "kept A m m'" "\<forall>(a, n) \<in> A. words m (a + 4) = n"
  shows "\<forall>(a, n) \<in> A. words m' (a + 4) = n"
proof clarify
  fix a n assume a: "(a, n) \<in> A"
  have "\<forall>(a, n) \<in> A. 1 \<le> n" using assms(1) by (auto simp: heap_blocks_def)
  then show "words m' (a + 4) = n" using kept_words [OF assms(2) a] bspec [OF assms(3) a] bspec [OF _ a] by auto
qed

lemma free_find_inv:
  assumes inv: "heap_inv base A fs h" and b: "(b, n) \<in> A"
  shows "free_find (um h) (of_nat b) (freep h) = Some (of_nat (last (nodes base (below b fs))))"
proof -
  let ?us = "below b fs" let ?vs = "above b fs"
  have hb: "heap_blocks base A fs (unat (brk h))" using inv by (simp add: heap_inv_def)
  have s: "sep (base + 7) fs (unat (brk h))" and B: "base + 8 \<le> b" "b + 8 * n \<le> unat (brk h)" "unat (brk h) < 2147483648"
    using hb b by (auto simp: heap_blocks_def)
  have lk: "lnk (words (um h)) base (?us @ ?vs) base" "ascending base (?us @ ?vs)"
    using inv sep_ascending [OF s] by (simp_all add: heap_inv_def below_above)
  obtain f where f: "f \<in> set (nodes base (?us @ ?vs))" "freep h = of_nat f" using inv by (auto simp: heap_inv_def below_above)
  show ?thesis unfolding f(2)
  proof (rule free_find_ok [OF lk _ _ _ _ f(1)])
    show "base < b" "b < 4294967296" using B by simp_all
    show "\<forall>(c, n) \<in> set ?us. c < b" "\<forall>(c, n) \<in> set ?vs. b < c" using heap_place(1,2) [OF hb b] by auto
    show "\<forall>x \<in> set (nodes base (?us @ ?vs)). x < 4294967296" using hdrsD(2) [OF nodes_hdrs [OF hb]] unfolding below_above by fastforce
  qed
qed

text \<open>The free list after \<^verbatim>\<open>free\<close>.\<close>

definition freed :: "nat \<Rightarrow> nat \<Rightarrow> block list \<Rightarrow> block list" where
  "freed b n fs = (let (n', rest) = join_up b n (above b fs) in join_down (below b fs) b n' rest)"

lemma free_blocks:
  assumes hb: "heap_blocks base A fs hi" and b: "(b, n) \<in> A"
  shows "heap_blocks base (A - {(b, n)}) (freed b n fs) hi" "\<exists>(c, k) \<in> set (freed b n fs). n \<le> k"
proof -
  let ?us = "below b fs" let ?vs = "above b fs" let ?A = "A - {(b, n)}"
  note pl = heap_place [OF hb b]
  obtain n' rest where j: "join_up b n ?vs = (n', rest)" by (cases "join_up b n ?vs")
  then have fr: "freed b n fs = join_down ?us b n' rest" by (simp add: freed_def)
  have B: "base + 8 \<le> b" "b mod 8 = 0" "1 \<le> n" "b + 8 * n \<le> hi" using hb b by (auto simp: heap_blocks_def)
  have HA: "\<forall>(a, n) \<in> A. 1 \<le> n" "\<forall>x \<in> A. \<forall>y \<in> A. x \<noteq> y \<longrightarrow> apart x y" "\<forall>x \<in> A. \<forall>y \<in> set fs. apart x y"
    using hb by (auto simp: heap_blocks_def)
  have js: "sep (b + 8 * n') rest hi" "n \<le> n'" using join_up_sep [OF j pl(5) B(3,4)] by simp_all
  obtain mid where mid: "sep (base + 7) ?us mid" using pl(6) by blast
  have fit: "\<forall>(a, k) \<in> set ?us. a + 8 * k \<le> b" "base + 7 < b" "1 \<le> n'" using pl(1) B(1,3) js(2) by auto
  have sp: "sep (base + 7) (freed b n fs) hi" "\<exists>(c, k) \<in> set (freed b n fs). n' \<le> k"
    unfolding fr using join_down_sep [OF mid fit(2,1) B(2) fit(3) js(1)] by blast+
  have fsX: "set fs = set ?us \<union> set ?vs" using below_above [of b fs] by (metis set_append)
  have "apart x y" if xy: "x \<in> ?A" "y \<in> set (freed b n fs)" for x y
  proof -
    have ax: "1 \<le> snd x" "apart x (b, n)" "\<forall>y \<in> set ?us. apart x y" "\<forall>y \<in> set ?vs. apart x y" using HA b xy(1) by (auto simp: fsX)
    have "apart x (b, n')" "\<forall>y \<in> set rest. apart x y" using join_up_apart [OF j ax(4,2,1)] by blast+
    from join_down_apart [OF ax(3) this ax(1)] show ?thesis using xy(2) fr by simp
  qed
  then show "heap_blocks base ?A (freed b n fs) hi" using hb sp(1) unfolding heap_blocks_def by blast
  obtain c i where "(c, i) \<in> set (freed b n fs)" "n' \<le> i" using sp(2) by auto
  then show "\<exists>(c, k) \<in> set (freed b n fs). n \<le> k" using js(2) by (intro bexI [of _ "(c, i)"]) auto
qed

lemma free_links:
  assumes inv: "heap_inv base A fs h" and b: "(b, n) \<in> A"
  defines "p \<equiv> last (nodes base (below b fs))"
  defines "h1 \<equiv> join_upper (of_nat b) (of_nat p) h"
  defines "h2 \<equiv> join_lower (of_nat b) (of_nat p) h1"
  shows "lnk (words (um h2)) base (freed b n fs) base" "words (um h2) (base + 4) = 0" "same_but {b} (um h) (um h1)" "same_but {p} (um h1) (um h2)"
    "brk h2 = brk h" "p \<in> set (nodes base fs)" "p \<in> set (nodes base (freed b n fs))"
proof -
  let ?W = "words (um h)" let ?us = "below b fs" let ?vs = "above b fs" let ?hi = "unat (brk h)" let ?X = "insert b (set (nodes base fs))"
  have hb: "heap_blocks base A fs ?hi" and wn: "?W (b + 4) = n" and l: "?W (base + 4) = 0" and lk: "lnk ?W base (?us @ ?vs) base"
    using inv b by (auto simp: heap_inv_def below_above)
  note pl = heap_place [OF hb b]
  have B: "base + 8 \<le> b" "1 \<le> n" "b + 8 * n \<le> ?hi" "?hi < 2147483648" using hb b by (auto simp: heap_blocks_def)
  have fsX: "set fs = set ?us \<union> set ?vs" using below_above [of b fs] by (metis set_append)
  have nfs: "set (nodes base ?us) \<subseteq> ?X" "set (map fst ?vs) \<subseteq> ?X" "set (nodes base ?us) \<subseteq> set (nodes base fs)" by (auto simp: fsX)
  have pn: "p \<in> set (nodes base ?us)" unfolding p_def by (rule last_in_set) simp
  then show pf: "p \<in> set (nodes base fs)" using nfs(3) by blast
  have bn: "b \<notin> set (nodes base ?us)" "b \<notin> set (map fst ?vs)" using pl(1,2) B(1) by auto
  have pX: "p \<in> ?X" "b \<noteq> p" using pn nfs(1) bn(1) by blast+
  obtain n' rest where j: "join_up b n ?vs = (n', rest)" by (cases "join_up b n ?vs")
  then have fr: "freed b n fs = join_down ?us b n' rest" by (simp add: freed_def)
  show "p \<in> set (nodes base (freed b n fs))" unfolding fr p_def by (rule join_down_node)
  have "sep (b + 8 * n') rest ?hi" using join_up_sep [OF j pl(5) B(2,3)] by simp
  then have sm: "b + 8 * n \<le> 2147483648" "base < b" "base < 2147483648" "b + 8 * n' \<le> 2147483648" using B sep_bounds by fastforce+
  have vs31: "\<forall>(c, k) \<in> set ?vs. c + 8 * k \<le> 2147483648" and us31: "\<forall>(c, k) \<in> set ?us. c + 8 * k \<le> 2147483648"
    using pl(1,2) B(3,4) by fastforce+
  have lp: "lnk ?W base ?us (?W p)" "lnk ?W p ?vs base" using lk unfolding lnk_app p_def by simp_all
  have up: "words (um h1) (b + 4) = n'" "lnk (words (um h1)) b rest base" "same_but {b} (um h) (um h1)" "brk h1 = brk h"
    "\<forall>y \<in> ?X. y \<noteq> b \<longrightarrow> words (um h1) y = ?W y \<and> words (um h1) (y + 4) = ?W (y + 4)"
    unfolding h1_def using join_upper_ok [OF pl(3) pX(1) insertI1 nfs(2) pX(2) bn(2) lp(2) wn sm(1-3) vs31 j] by blast+
  show "same_but {b} (um h) (um h1)" by (rule up(3))
  have usX: "y \<in> ?X \<and> y \<noteq> b" if "y \<in> set (nodes base ?us)" for y using that nfs(1) bn(1) by blast
  have lus: "lnk (words (um h1)) base ?us (?W p)"
  proof (rule lnk_cong [OF lp(1)])
    show "words (um h1) x = ?W x" if "x \<in> set (nodes base ?us)" for x using usX [OF that] up(5) by blast
    fix x k assume "(x, k) \<in> set ?us"
    then have "x \<in> set (nodes base ?us)" by force
    then show "words (um h1) (x + 4) = ?W (x + 4)" using usX up(5) by blast
  qed
  have base0: "words (um h1) (base + 4) = 0" using usX [of base] up(5) l by simp
  have restX: "set (map fst rest) \<subseteq> ?X" using join_up_rest [OF j] nfs(2) by auto
  have "sep (base + 7) fs ?hi" using hb by (simp add: heap_blocks_def)
  from sep_ascending [OF this] have "distinct (nodes base ?us @ map fst ?vs)" unfolding strict_sorted_iff by (simp flip: map_append add: below_above)
  then have dist: "distinct (nodes base ?us @ b # map fst rest)" using join_up_distinct [OF j _ bn] by blast
  show "lnk (words (um h2)) base (freed b n fs) base" "words (um h2) (base + 4) = 0" "same_but {p} (um h1) (um h2)" "brk h2 = brk h"
    unfolding fr h2_def
    using join_lower_ok [OF pl(3) nfs(1) insertI1 restX dist lus base0 up(1,2) us31 sm(4), folded p_def] up(4) by auto
qed

lemma free_ok:
  assumes inv: "heap_inv base A fs h" and b: "(b, n) \<in> A"
  shows "\<exists>h' fs'. free (of_nat (b + 8)) h = Some h' \<and> heap_inv base (A - {(b, n)}) fs' h' \<and> kept (A - {(b, n)}) (um h) (um h')
    \<and> brk h' = brk h \<and> (\<exists>(c, k) \<in> set fs'. n \<le> k)"
proof -
  let ?A = "A - {(b, n)}"
  define p where "p = last (nodes base (below b fs))"
  define h1 where "h1 = join_upper (of_nat b) (of_nat p) h"
  define h2 where "h2 = join_lower (of_nat b) (of_nat p) h1"
  let ?h' = "h2\<lparr>freep := of_nat p\<rparr>"
  have hb: "heap_blocks base A fs (unat (brk h))" and wA: "\<forall>(a, n) \<in> ?A. words (um h) (a + 4) = n" using inv by (auto simp: heap_inv_def)
  note fl = free_links [OF inv b, folded p_def, folded h1_def, folded h2_def]
  have run: "free (of_nat (b + 8)) h = Some ?h'"
    using free_find_inv [OF inv b, folded p_def] by (simp add: free_def Let_def h1_def h2_def)
  have "kept ?A (um h) (um h1)"
  proof (rule kept_same_but [OF fl(3)])
    fix z a k assume z: "z \<in> {b}" "(a, k) \<in> ?A"
    have "apart (a, k) (b, n)" "1 \<le> n" using hb b z(2) unfolding heap_blocks_def by auto
    then show "z + 8 \<le> a \<or> a + 8 * k \<le> z" using z(1) by (auto simp: apart_def)
  next
    fix a k assume "(a, k) \<in> ?A"
    then show "a + 8 * k \<le> 2147483648" using hb unfolding heap_blocks_def by fastforce
  qed
  moreover have "kept ?A (um h1) (um h2)" by (rule kept_mono [OF kept_header [OF hb fl(6,4)]]) blast
  ultimately have kp: "kept ?A (um h) (um h2)" by (rule kept_trans)
  note fb = free_blocks [OF hb b]
  have "heap_inv base ?A (freed b n fs) ?h'"
    using fb(1) kept_sizes [OF fb(1) kp wA] fl(1,2,5,7) unfolding heap_inv_def by auto
  then show ?thesis using run kp fb(2) fl(5) by (intro exI [of _ ?h'] exI [of _ "freed b n fs"]) simp
qed

section \<open>Growing the heap\<close>

lemma sbrk_small:
  assumes "0 < n" "n < 2147483648" "unat (brk h) < 2147483648"
  shows "sbrk g (of_nat n) h = (- 1, h) \<or> unat (brk h) + n < 2147483648 \<and> sbrk g (of_nat n) h = (brk h, h\<lparr>brk := of_nat (unat (brk h) + n)\<rparr>)"
proof -
  have u: "unat (brk h + of_nat n) = unat (brk h) + n" using unat_add_no_wrap [of "brk h" n] assms by simp
  have "brk h + of_nat n = of_nat (unat (brk h) + n)" by simp
  moreover have "\<not> brk h + of_nat n < brk h" using u by (simp add: word_less_nat_alt)
  moreover have "0 < sint (of_nat n :: u32)" using sint_of_nat_small [of n] assms(1,2) by simp
  moreover have "brk h + of_nat n < 0x7F000000 \<Longrightarrow> unat (brk h) + n < 2147483648" using u by (simp add: word_less_nat_alt)
  ultimately show ?thesis by (auto simp: sbrk_def Let_def not_le)
qed

text \<open>Memory that \<^verbatim>\<open>sbrk\<close> gave becomes a block of the program.\<close>

lemma heap_grow:
  assumes inv: "heap_inv base A fs h" and n: "1 \<le> n" "unat (brk h) + 8 * n < 2147483648"
  defines "B \<equiv> unat (brk h)"
  defines "h' \<equiv> set_size (brk h) (of_nat n) (h\<lparr>brk := of_nat (B + 8 * n)\<rparr>)"
  shows "heap_inv base (insert (B, n) A) fs h' \<and> kept A (um h) (um h') \<and> (B, n) \<notin> A"
proof -
  have hb: "heap_blocks base A fs B" using inv by (simp add: heap_inv_def B_def)
  have C: "base mod 4 = 0" "0 < base" "base + 8 \<le> B" "B mod 8 = 0" "sep (base + 7) fs B" "\<forall>(a, n) \<in> A. base + 8 \<le> a \<and> a mod 8 = 0 \<and> 1 \<le> n \<and> a + 8 * n \<le> B"
    "\<forall>x \<in> A. \<forall>y \<in> A. x \<noteq> y \<longrightarrow> apart x y" "\<forall>x \<in> A. \<forall>y \<in> set fs. apart x y" using hb unfolding heap_blocks_def by blast+
  have wA: "\<forall>(a, n) \<in> A. words (um h) (a + 4) = n" using inv by (simp add: heap_inv_def)
  note f = sep_bounds [OF C(5)]
  have sb: "same_but {B} (um h) (um h')"
    using same_but_set(2) [OF same_but_refl, of B "{B}" "h\<lparr>brk := of_nat (B + 8 * n)\<rparr>" "of_nat n"] n unfolding h'_def B_def by simp
  have k: "kept A (um h) (um h')"
    by (rule kept_same_but [OF sb]) (use C(6) n in \<open>fastforce simp: B_def\<close>)+
  have new: "(B, n) \<notin> A" using C(6) n(1) by auto
  have "brk h' = of_nat (B + 8 * n)" by (simp add: h'_def)
  then have brk': "unat (brk h') = B + 8 * n" using unat_nat [of "B + 8 * n"] n(2) by (simp only: B_def)
  have ap: "apart (B, n) x" "apart x (B, n)" if "x \<in> A \<union> set fs" for x using that C(6) f by (auto simp: apart_def)
  have hb': "heap_blocks base (insert (B, n) A) fs (B + 8 * n)"
    using C n sep_raise [OF C(5), of "B + 8 * n"] ap unfolding heap_blocks_def B_def [symmetric] by auto
  have low: "words (um h') x = words (um h) x" if "x + 4 \<le> B" "x mod 4 = 0" for x
    using that C(4) n(2) mod84 [of B] words_store [of "B + 4" x "um h" "of_nat n"] by (simp add: h'_def set_size_def B_def add.commute)
  have nd: "x mod 4 = 0 \<and> x + 8 \<le> B" if "x \<in> set (nodes base fs)" for x
    using that C(1,3) f mod84 [of x] by auto
  have "lnk (words (um h')) base fs base"
  proof (rule lnk_cong)
    show "lnk (words (um h)) base fs base" using inv by (simp add: heap_inv_def)
    fix x assume "x \<in> set (nodes base fs)"
    then show "words (um h') x = words (um h) x" using low [of x] nd [of x] by simp
  next
    fix x i assume "(x, i) \<in> set fs"
    then have "x \<in> set (nodes base fs)" by force
    then show "words (um h') (x + 4) = words (um h) (x + 4)" using low [of "x + 4"] nd [of x] by simp
  qed
  moreover have "words (um h') (base + 4) = 0" using low [of "base + 4"] nd [of base] inv by (simp add: heap_inv_def)
  moreover have "words (um h') (B + 4) = n"
    using words_store [of "B + 4" "B + 4" "um h" "of_nat n"] C(4) n mod84 [of B] by (simp add: h'_def set_size_def B_def add.commute unat_nat)
  moreover have "words (um h') (a + 4) = i" if "(a, i) \<in> A" for a i
    using kept_words [OF k that] bspec [OF C(6) that] bspec [OF wA that] by simp
  moreover have "\<exists>f \<in> set (nodes base fs). freep h' = of_nat f" using inv by (simp add: heap_inv_def h'_def)
  ultimately show ?thesis using hb' k new brk' unfolding heap_inv_def by auto
qed

lemma heap_inv_freep:
  assumes "heap_inv base A fs h"
  shows "freep h \<noteq> 0"
proof -
  have s: "sep (base + 7) fs (unat (brk h))" "0 < base" "base + 8 \<le> unat (brk h)" "unat (brk h) < 2147483648"
    using assms by (auto simp: heap_inv_def heap_blocks_def)
  obtain f where f: "f \<in> set (nodes base fs)" "freep h = of_nat f" using assms by (auto simp: heap_inv_def)
  have "0 < f" "f < 4294967296" using f(1) s sep_bounds [OF s(1)] by auto
  then show ?thesis using nat_word_eq [of f 0] f(2) by simp
qed

lemma morecore_ok:
  assumes inv: "heap_inv base A fs h" and u: "1 \<le> u" "8 * u < 2147483648"
  shows "morecore g (of_nat u) h = Some (0, h)
    \<or> (\<exists>h' fs'. morecore g (of_nat u) h = Some (freep h', h') \<and> heap_inv base A fs' h' \<and> kept A (um h) (um h') \<and> (\<exists>(c, k) \<in> set fs'. u \<le> k))"
proof -
  define n where "n = (if u < 4096 then 4096 else u)"
  have n: "u \<le> n" "1 \<le> n" "8 * n < 2147483648" using u by (simp_all add: n_def)
  have nu: "(if (of_nat u :: u32) < 4096 then 4096 else of_nat u) = (of_nat n :: u32)" "of_nat n * 8 = (of_nat (8 * n) :: u32)"
    using nat_word_less [of u 4096] u by (simp_all add: n_def)
  have B: "unat (brk h) < 2147483648" using inv by (simp add: heap_inv_def heap_blocks_def)
  consider "sbrk g (of_nat (8 * n)) h = (- 1, h)"
    | "unat (brk h) + 8 * n < 2147483648" "sbrk g (of_nat (8 * n)) h = (brk h, h\<lparr>brk := of_nat (unat (brk h) + 8 * n)\<rparr>)"
    using sbrk_small [of "8 * n" h g] n B by auto
  then show ?thesis
  proof cases
    case 1
    then show ?thesis unfolding morecore_def Let_def nu by simp
  next
    case 2
    let ?h = "set_size (brk h) (of_nat n) (h\<lparr>brk := of_nat (unat (brk h) + 8 * n)\<rparr>)"
    note gr = heap_grow [OF inv n(2) 2(1)]
    have "unat (- 1 :: u32) = 4294967295" by (simp add: unsigned_minus_1_eq_mask mask_eq_exp_minus_1)
    then have ne: "brk h \<noteq> - 1" using B by auto
    have "insert (unat (brk h), n) A - {(unat (brk h), n)} = A" using gr by blast
    with free_ok [OF conjunct1 [OF gr] insertI1] obtain h' fs' where fr: "free (of_nat (unat (brk h) + 8)) ?h = Some h'"
      "heap_inv base A fs' h'" "kept A (um ?h) (um h')" "\<exists>(c, k) \<in> set fs'. n \<le> k" by auto
    have "morecore g (of_nat u) h = Some (freep h', h')"
      unfolding morecore_def Let_def nu 2(2) using ne fr(1) by (simp add: add.commute)
    moreover have "kept A (um h) (um h')" using kept_trans gr fr(3) by blast
    moreover obtain c k where "(c, k) \<in> set fs'" "n \<le> k" using fr(4) by auto
    then have "\<exists>(c, k) \<in> set fs'. u \<le> k" using n(1) by (intro bexI [of _ "(c, k)"]) auto
    ultimately show ?thesis using fr(2) by blast
  qed
qed

section \<open>Searching the list\<close>

lemma iterate_cycle:
  assumes "(F ^^ Suc k) f = f" "\<And>j. j \<le> k \<Longrightarrow> Q ((F ^^ Suc j) f)"
  shows "Q ((F ^^ Suc j) f)"
proof (induction j rule: less_induct)
  case (less j)
  show ?case
  proof (cases "j \<le> k")
    case False
    then have "Suc j = Suc (j - Suc k) + Suc k" by simp
    then have "(F ^^ Suc j) f = (F ^^ Suc (j - Suc k)) ((F ^^ Suc k) f)" by (simp only: funpow_add o_def)
    then show ?thesis using less [of "j - Suc k"] False assms(1) by simp
  qed (rule assms(2))
qed

lemma malloc_loop_step:
  assumes "u < 4294967296" "y < 4294967296"
  shows "malloc_loop g (of_nat u) (of_nat x) (of_nat y) h =
    (if u \<le> words (um h) (y + 4) then Some (take_block (of_nat u) (of_nat x) (of_nat y) h)
     else if of_nat y = freep h then
       morecore g (of_nat u) h \<bind> (\<lambda>(p, h). if p = 0 then Some (0, h) else malloc_loop g (of_nat u) p (s_ptr (um h) p) h)
     else malloc_loop g (of_nat u) (of_nat y) (of_nat (words (um h) y)) h)"
  by (subst malloc_loop.simps) (simp add: s_size_words s_ptr_words nat_word_le words_less assms case_prod_beta)

lemma malloc_search:
  assumes inv: "heap_inv base A fs h" and u: "u < 4294967296"
  defines "W \<equiv> words (um h)"
  shows "(\<exists>x y. x \<in> set (nodes base fs) \<and> y \<in> set (nodes base fs) \<and> W x = y \<and> u \<le> W (y + 4)
      \<and> malloc_loop g (of_nat u) (freep h) (s_ptr (um h) (freep h)) h = Some (take_block (of_nat u) (of_nat x) (of_nat y) h))
    \<or> (\<forall>y \<in> set (nodes base fs). W (y + 4) < u)
      \<and> malloc_loop g (of_nat u) (freep h) (s_ptr (um h) (freep h)) h =
          morecore g (of_nat u) h \<bind> (\<lambda>(p, h). if p = 0 then Some (0, h) else malloc_loop g (of_nat u) p (s_ptr (um h) p) h)"
proof -
  let ?N = "set (nodes base fs)"
  have l: "lnk W base fs base" using inv by (simp add: heap_inv_def W_def)
  obtain f where f: "f \<in> ?N" "freep h = of_nat f" using inv by (auto simp: heap_inv_def)
  have s: "sep (base + 7) fs (unat (brk h))" "unat (brk h) < 2147483648" "base + 8 \<le> unat (brk h)" using inv by (auto simp: heap_inv_def heap_blocks_def)
  have close: "W x \<in> ?N" if "x \<in> ?N" for x using lnk_next [OF l sep_ascending [OF s(1)] that] by auto
  have small: "x < 4294967296" if "x \<in> ?N" for x using that s sep_bounds [OF s(1)] by fastforce
  have it: "(W ^^ i) f \<in> ?N" for i by (induction i) (use f(1) close in auto)
  define stop where "stop = (\<lambda>y. u \<le> W (y + 4) \<or> y = f)"
  obtain k0 where "(W ^^ Suc k0) f = f" using lnk_reach [OF l f(1) f(1)] by blast
  then have "\<exists>k. stop ((W ^^ Suc k) f)" by (auto simp: stop_def)
  then have "\<exists>k. stop ((W ^^ Suc k) f) \<and> (\<forall>j < k. \<not> stop ((W ^^ Suc j) f))" by (rule iffD1 [OF exists_least_iff])
  then obtain k where k: "stop ((W ^^ Suc k) f)" "\<And>j. j < k \<Longrightarrow> \<not> stop ((W ^^ Suc j) f)" by blast
  let ?L = "\<lambda>x. malloc_loop g (of_nat u) (of_nat x) (of_nat (W x)) h"
  have walk: "i \<le> k \<Longrightarrow> ?L f = ?L ((W ^^ i) f)" for i
  proof (induction i)
    case (Suc i)
    let ?x = "(W ^^ i) f"
    have "\<not> stop (W ?x)" using k(2) [of i] Suc.prems by simp
    moreover have "(of_nat (W ?x) :: u32) = freep h \<longleftrightarrow> W ?x = f" using nat_word_eq [OF small small] close it f by simp
    ultimately have "?L ?x = ?L (W ?x)"
      using malloc_loop_step [OF u small [OF close [OF it [of i]]], of g ?x h] unfolding stop_def W_def [symmetric] by simp
    then show ?case using Suc by simp
  qed simp
  define x where "x = (W ^^ k) f"
  have xy: "x \<in> ?N" "W x \<in> ?N" "(W ^^ Suc k) f = W x" using it [of k] close by (simp_all add: x_def)
  have st: "s_ptr (um h) (freep h) = of_nat (W f)" using f(2) by (simp add: s_ptr_words W_def)
  have yf: "(of_nat (W x) :: u32) = freep h \<longleftrightarrow> W x = f" using nat_word_eq [OF small small] xy(2) f by simp
  have go: "malloc_loop g (of_nat u) (freep h) (s_ptr (um h) (freep h)) h = ?L x"
    using walk [of k] f(2) st by (simp add: x_def)
  note step = malloc_loop_step [OF u small [OF xy(2)], of g x h]
  show ?thesis
  proof (cases "u \<le> W (W x + 4)")
    case True
    then have "?L x = Some (take_block (of_nat u) (of_nat x) (of_nat (W x)) h)" using step unfolding W_def [symmetric] by simp
    then show ?thesis using True xy go by auto
  next
    case False
    then have e: "W x = f" using k(1) xy(3) by (simp add: stop_def)
    have "?L x = morecore g (of_nat u) h \<bind> (\<lambda>(p, h). if p = 0 then Some (0, h) else malloc_loop g (of_nat u) p (s_ptr (um h) p) h)"
      using step False e yf unfolding W_def [symmetric] by simp
    moreover have "W (z + 4) < u" if z: "z \<in> ?N" for z
    proof -
      have "W ((W ^^ Suc j) f + 4) < u" if "j \<le> k" for j
      proof (cases "j = k")
        case True
        then show ?thesis using False xy(3) by simp
      next
        case ne: False
        then show ?thesis using k(2) [of j] that by (simp add: stop_def not_le)
      qed
      moreover have "(W ^^ Suc k) f = f" using e xy(3) by simp
      ultimately have "W ((W ^^ Suc j) f + 4) < u" for j using iterate_cycle [of k W f "\<lambda>z. W (z + 4) < u" j] by blast
      then show ?thesis using lnk_reach [OF l f(1) z] by blast
    qed
    ultimately show ?thesis using go by simp
  qed
qed

end
