(* ===== verification/UmallocSpec.thy ===== *)
theory UmallocSpec
  imports UmallocInv
begin

text \<open>
  The calls of the allocator: \<^verbatim>\<open>malloc\<close> and \<^verbatim>\<open>free\<close> in any order, with writes of the program to its blocks in between.
\<close>

section \<open>Taking a block\<close>

lemma sep_apart:
  assumes "sep lo (us @ (y, n) # vs) hi"
  shows "\<forall>z \<in> set us \<union> set vs. apart (y, n) z"
proof -
  obtain mid where m: "sep lo us mid" "mid < y" "sep (y + 8 * n) vs hi" using assms by (auto simp: sep_append)
  show ?thesis using sep_bounds [OF m(1)] sep_bounds [OF m(3)] m(2) by (auto simp: apart_def)
qed

lemma sep_drop:
  assumes "sep lo (us @ (y, n) # vs) hi"
  shows "sep lo (us @ vs) hi"
proof -
  obtain mid where "sep lo us mid" "sep (y + 8 * n) vs hi" "mid \<le> y + 8 * n" using assms by (auto simp: sep_append)
  then show ?thesis using sep_lower by (auto simp: sep_append)
qed

lemma sep_shrink:
  assumes "sep lo (us @ (y, n) # vs) hi" "1 \<le> k" "k \<le> n"
  shows "sep lo (us @ (y, k) # vs) hi"
proof -
  obtain mid where "sep lo us mid" "mid < y" "y mod 8 = 0" "sep (y + 8 * n) vs hi" using assms by (auto simp: sep_append)
  moreover then have "sep (y + 8 * k) vs hi" using assms(3) by (auto intro: sep_lower)
  ultimately show ?thesis using assms(2) by (auto simp: sep_append)
qed

lemma apart_sub: "apart x (a, n) \<Longrightarrow> a \<le> b \<Longrightarrow> b + 8 * k \<le> a + 8 * n \<Longrightarrow> apart x (b, k)"
  by (auto simp: apart_def)

lemma apart_sym: "apart x y \<longleftrightarrow> apart y x"
  by (auto simp: apart_def)

text \<open>A block inside a free block goes to the program; what is left of the free block does not meet it.\<close>

lemma heap_take:
  assumes hb: "heap_blocks base A (us @ (y, n) # vs) hi" and c: "y \<le> c" "c mod 8 = 0" "1 \<le> u" "c + 8 * u \<le> y + 8 * n"
    and fs': "sep (base + 7) fs' hi" "\<forall>z \<in> set fs'. z \<in> set us \<union> set vs \<or> (\<exists>k \<le> n. z = (y, k) \<and> y + 8 * k \<le> c)"
  shows "heap_blocks base (insert (c, u) A) fs' hi" "\<forall>z \<in> A. apart z (c, u)" "(c, u) \<notin> A"
proof -
  have H: "sep (base + 7) (us @ (y, n) # vs) hi" "\<forall>(a, n) \<in> A. base + 8 \<le> a \<and> a mod 8 = 0 \<and> 1 \<le> n \<and> a + 8 * n \<le> hi"
    "\<forall>x \<in> A. \<forall>y \<in> A. x \<noteq> y \<longrightarrow> apart x y" "\<forall>x \<in> A. \<forall>z \<in> set (us @ (y, n) # vs). apart x z" using hb unfolding heap_blocks_def by blast+
  have yb: "base + 8 \<le> y" "y + 8 * n \<le> hi" using sep_bounds [OF H(1)] by auto
  have "apart z (y, n)" if "z \<in> A" for z using H(4) that by simp
  then show az: "\<forall>z \<in> A. apart z (c, u)" using apart_sub c(1,4) by blast
  show new: "(c, u) \<notin> A" using az c(3) by (auto simp: apart_def)
  have af: "apart (c, u) z" if "z \<in> set fs'" for z
  proof (cases "z \<in> set us \<union> set vs")
    case True
    then have "apart z (y, n)" using sep_apart [OF H(1)] apart_sym by blast
    then show ?thesis using apart_sub c(1,4) apart_sym by blast
  next
    case False
    then show ?thesis using fs'(2) that by (auto simp: apart_def)
  qed
  have aA: "apart x z" if xz: "x \<in> A" "z \<in> set fs'" for x z
  proof (cases "z \<in> set us \<union> set vs")
    case True
    then show ?thesis using H(4) xz(1) by auto
  next
    case False
    then obtain k where k: "k \<le> n" "z = (y, k)" using fs'(2) xz(2) by blast
    have "apart x (y, n)" using H(4) xz(1) by simp
    then show ?thesis unfolding k(2) by (rule apart_sub) (use k(1) in simp_all)
  qed
  have cb: "base + 8 \<le> c" "c + 8 * u \<le> hi" using yb c(1,4) by linarith+
  show "heap_blocks base (insert (c, u) A) fs' hi" unfolding heap_blocks_def
  proof (intro conjI)
    show "base mod 4 = 0" "0 < base" "base + 8 \<le> hi" "hi < 2147483648" "hi mod 8 = 0" using hb unfolding heap_blocks_def by blast+
    show "\<forall>(a, n) \<in> insert (c, u) A. base + 8 \<le> a \<and> a mod 8 = 0 \<and> 1 \<le> n \<and> a + 8 * n \<le> hi" using H(2) c(2,3) cb by simp
    show "\<forall>x \<in> insert (c, u) A. \<forall>y \<in> insert (c, u) A. x \<noteq> y \<longrightarrow> apart x y" using H(3) az apart_sym by blast
    show "\<forall>x \<in> insert (c, u) A. \<forall>y \<in> set fs'. apart x y" using af aA by blast
  qed (rule fs'(1))
qed

lemma take_all_ok:
  assumes inv: "heap_inv base A (us @ (y, n) # vs) h" and x: "x = last (nodes base us)" and n: "1 \<le> n"
  shows "\<exists>h'. take_block (of_nat n) (of_nat x) (of_nat y) h = (of_nat (y + 8), h') \<and> heap_inv base (insert (y, n) A) (us @ vs) h'
    \<and> kept A (um h) (um h') \<and> (\<forall>z \<in> A. apart z (y, n)) \<and> (y, n) \<notin> A \<and> brk h' = brk h"
proof -
  let ?fs = "us @ (y, n) # vs" let ?W = "words (um h)" let ?hi = "unat (brk h)"
  have hb: "heap_blocks base A ?fs ?hi" and l: "lnk ?W base ?fs base" "?W (base + 4) = 0" and wA: "\<forall>(a, n) \<in> A. ?W (a + 4) = n"
    using inv by (auto simp: heap_inv_def)
  have s: "sep (base + 7) ?fs ?hi" using hb by (simp add: heap_blocks_def)
  have yl: "?W (y + 4) = n" "lnk ?W base us y" "lnk ?W y vs base" using l(1) by (simp_all add: lnk_append)
  note X = nodes_hdrs [OF hb]
  have xus: "x \<in> set (nodes base us)" unfolding x by (rule last_in_set) simp
  have usX: "set (nodes base us) \<subseteq> set (nodes base ?fs)" by auto
  have xX: "x \<in> set (nodes base ?fs)" using subsetD [OF usX xus] .
  let ?h = "set_ptr (of_nat x) (of_nat (?W y)) h" let ?h' = "?h\<lparr>freep := of_nat x\<rparr>"
  have run: "take_block (of_nat n) (of_nat x) (of_nat y) h = (of_nat (y + 8), ?h')"
    using yl(1) by (simp add: take_block_def s_size_words s_ptr_words add.commute)
  note w = words_set_ptr [OF X xX _ words_less, of _ "um h" y h]
  have d: "distinct (nodes base ?fs)" using sep_ascending [OF s] unfolding strict_sorted_iff by blast
  have xn: "x \<notin> set (y # map fst vs)" using xus d by auto
  have in1: "c \<in> set (nodes base ?fs)" if "(c, k) \<in> set us \<union> set vs" for c k using that by force
  have "lnk (words (um ?h)) base us (?W y)"
  proof (rule lnk_relink [OF yl(2)])
    show "distinct (nodes base us)" using d by simp
    show "words (um ?h) (last (nodes base us)) = ?W y" using w(1) [OF xX] x by metis
    show "words (um ?h) z = ?W z" if "z \<in> set (nodes base us)" "z \<noteq> last (nodes base us)" for z
      using w(1) [OF subsetD [OF usX that(1)]] that(2) x by metis
    show "words (um ?h) (c + 4) = ?W (c + 4)" if "(c, k) \<in> set us" for c k using w(2) [OF in1] that by blast
  qed
  moreover have "lnk (words (um ?h)) x vs base"
  proof (rule lnk_head [OF yl(3)])
    show "words (um ?h) x = ?W y" using w(1) [OF xX] by simp
    fix c k assume c: "(c, k) \<in> set vs"
    then have "c \<noteq> x" using xn by force
    then show "words (um ?h) c = ?W c \<and> words (um ?h) (c + 4) = ?W (c + 4)" using w [OF in1 [of c k]] c by simp
  qed
  ultimately have lk: "lnk (words (um ?h)) base (us @ vs) base" unfolding lnk_app [of _ base us vs] x
    using w(1) [OF xX] x by metis
  have ht: "heap_blocks base (insert (y, n) A) (us @ vs) ?hi" "\<forall>z \<in> A. apart z (y, n)" "(y, n) \<notin> A"
    using heap_take [OF hb, of y n "us @ vs"] sep_drop [OF s] sep_bounds [OF s] n by auto
  have base: "words (um ?h) (base + 4) = 0" using w(2) [of base] l(2) by simp
  have sb: "same_but {x} (um h) (um ?h)" using same_but_set(1) [OF same_but_refl, of x "{x}" h] hdrsD(2) [OF X xX] by simp
  have kp: "kept A (um h) (um ?h)" by (rule kept_header [OF hb xX sb])
  have "words (um ?h) (y + 4) = n" using w(2) [of y] yl(1) by simp
  then have wA': "\<forall>(a, k) \<in> insert (y, n) A. words (um ?h) (a + 4) = k" using kept_sizes [OF hb kp wA] by simp
  have "set (nodes base us) \<subseteq> set (nodes base (us @ vs))" by auto
  with xus have "x \<in> set (nodes base (us @ vs))" by blast
  then have fr: "\<exists>f \<in> set (nodes base (us @ vs)). freep ?h' = of_nat f" by auto
  have fl: "um ?h' = um ?h" "brk ?h' = brk h" by simp_all
  have "heap_inv base (insert (y, n) A) (us @ vs) ?h'" unfolding heap_inv_def fl using ht(1) wA' lk base fr by blast
  then show ?thesis using run kp ht(2,3) fl by metis
qed

lemma take_tail_ok:
  assumes inv: "heap_inv base A (us @ (y, n) # vs) h" and x: "x \<in> set (nodes base us)" and u: "1 \<le> u" "u < n"
  defines "c \<equiv> y + 8 * (n - u)"
  shows "\<exists>h'. take_block (of_nat u) (of_nat x) (of_nat y) h = (of_nat (c + 8), h') \<and> heap_inv base (insert (c, u) A) (us @ (y, n - u) # vs) h'
    \<and> kept A (um h) (um h') \<and> (\<forall>z \<in> A. apart z (c, u)) \<and> (c, u) \<notin> A \<and> brk h' = brk h"
proof -
  let ?fs = "us @ (y, n) # vs" let ?fs' = "us @ (y, n - u) # vs" let ?W = "words (um h)" let ?hi = "unat (brk h)"
  have hb: "heap_blocks base A ?fs ?hi" and l: "lnk ?W base ?fs base" "?W (base + 4) = 0" and wA: "\<forall>(a, n) \<in> A. ?W (a + 4) = n"
    using inv by (auto simp: heap_inv_def)
  have s: "sep (base + 7) ?fs ?hi" "?hi < 2147483648" using hb by (simp_all add: heap_blocks_def)
  have yl: "?W (y + 4) = n" "lnk ?W base us y" "lnk ?W y vs base" using l(1) by (simp_all add: lnk_append)
  have y: "y mod 8 = 0" "y + 8 * n \<le> ?hi" using sep_bounds [OF s(1)] by auto
  have c: "y \<le> c" "c mod 8 = 0" "c + 8 * u \<le> y + 8 * n" using y(1) u by (simp_all add: c_def mod_add_eq [symmetric])
  have s': "sep (base + 7) ?fs' ?hi" by (rule sep_shrink [OF s(1)]) (use u in simp_all)
  have ht: "heap_blocks base (insert (c, u) A) ?fs' ?hi" "\<forall>z \<in> A. apart z (c, u)" "(c, u) \<notin> A"
    using heap_take [OF hb c(1,2) u(1) c(3) s'] by (auto simp: c_def)
  let ?X = "insert c (set (nodes base ?fs'))"
  have X: "hdrs ?X" "c \<notin> set (nodes base ?fs')" using heap_place(3,4) [OF ht(1) insertI1] by blast+
  have yX: "y \<in> ?X" "y \<noteq> c" using u by (simp_all add: c_def)
  have n32: "n - u < 4294967296" "u < 4294967296" "n < 4294967296" using y(2) s(2) u by simp_all
  let ?h1 = "set_size (of_nat y) (of_nat (n - u)) h" let ?h2 = "set_size (of_nat c) (of_nat u) ?h1" let ?h' = "?h2\<lparr>freep := of_nat x\<rparr>"
  note w1 = words_set_size [OF X(1) yX(1) _ n32(1), of _ h] and w2 = words_set_size [OF X(1) insertI1 _ n32(2), of _ ?h1]
  have w: "words (um ?h2) z = ?W z" "words (um ?h2) (z + 4) = (if z = c then u else if z = y then n - u else ?W (z + 4))" if "z \<in> ?X" for z
    using w1 [OF that] w2 [OF that] by simp_all
  have sub: "(of_nat n - of_nat u :: u32) = of_nat (n - u)" using u by (simp add: of_nat_diff)
  have c2: "(of_nat y + 8 * of_nat (n - u) :: u32) = of_nat c" by (simp only: c_def of_nat_add of_nat_mult of_nat_numeral)
  have "(of_nat n :: u32) \<noteq> of_nat u" using nat_word_eq [of n u] n32 u by simp
  then have run: "take_block (of_nat u) (of_nat x) (of_nat y) h = (of_nat (c + 8), ?h')"
    using yl(1) w1(2) [OF yX(1)] unfolding take_block_def Let_def s_size_words by (simp add: sub c2 add.commute)
  have in1: "z \<in> ?X" "z \<noteq> c" if "z \<in> set (nodes base us) \<or> z \<in> set (nodes y vs)" for z using that X(2) by auto
  have d: "distinct (nodes base ?fs)" using sep_ascending [OF s(1)] unfolding strict_sorted_iff by blast
  have keep: "words (um ?h2) (a + 4) = ?W (a + 4)" if "(a, k) \<in> set us \<union> set vs" for a k
  proof -
    have "a \<in> set (map fst us) \<union> set (map fst vs)" using that by force
    then have "a \<noteq> y" "a \<in> ?X" "a \<noteq> c" using d in1 [of a] by auto
    then show ?thesis using w(2) [of a] by simp
  qed
  have "lnk (words (um ?h2)) base us y"
    by (rule lnk_cong [OF yl(2)]) (use w(1) in1 keep in blast)+
  moreover have "lnk (words (um ?h2)) y vs base"
    by (rule lnk_cong [OF yl(3)]) (use w(1) in1 keep in blast)+
  moreover have "words (um ?h2) (y + 4) = n - u" using w(2) [OF yX(1)] yX(2) by simp
  ultimately have lk: "lnk (words (um ?h2)) base ?fs' base" by (simp add: lnk_append)
  have base: "words (um ?h2) (base + 4) = 0" using w(2) [of base] l(2) in1 [of base] d by auto
  have "same_but {y} (um h) (um ?h1)" using same_but_set(2) [OF same_but_refl, of y "{y}" h] hdrsD(2) [OF X(1) yX(1)] by simp
  then have k1: "kept A (um h) (um ?h1)" by (rule kept_header [OF hb, rotated]) simp
  have "same_but {c} (um ?h1) (um ?h2)" using same_but_set(2) [OF same_but_refl, of c "{c}" ?h1] hdrsD(2) [OF X(1) insertI1] by simp
  then have "kept A (um ?h1) (um ?h2)"
  proof (rule kept_same_but)
    show "z + 8 \<le> a \<or> a + 8 * k \<le> z" if "z \<in> {c}" "(a, k) \<in> A" for z a k using bspec [OF ht(2) that(2)] that(1) u(1) by (auto simp: apart_def)
    show "a + 8 * k \<le> 2147483648" if "(a, k) \<in> A" for a k using hb that unfolding heap_blocks_def by fastforce
  qed
  with k1 have kp: "kept A (um h) (um ?h2)" by (rule kept_trans)
  have "words (um ?h2) (c + 4) = u" using w(2) [OF insertI1] by simp
  then have wA': "\<forall>(a, k) \<in> insert (c, u) A. words (um ?h2) (a + 4) = k" using kept_sizes [OF hb kp wA] by simp
  have "x \<in> set (nodes base ?fs')" using x by auto
  then have fr: "\<exists>f \<in> set (nodes base ?fs'). freep ?h' = of_nat f" by auto
  have fl: "um ?h' = um ?h2" "brk ?h' = brk h" by simp_all
  have "heap_inv base (insert (c, u) A) ?fs' ?h'" unfolding heap_inv_def fl using ht(1) wA' lk base fr by blast
  then show ?thesis using run kp ht(2,3) fl by metis
qed

lemma take_ok:
  assumes inv: "heap_inv base A fs h" and x: "x \<in> set (nodes base fs)" and y: "y \<in> set (nodes base fs)" "words (um h) x = y"
    and u: "1 \<le> u" "u \<le> words (um h) (y + 4)"
  shows "\<exists>a h' fs'. take_block (of_nat u) (of_nat x) (of_nat y) h = (of_nat (a + 8), h') \<and> heap_inv base (insert (a, u) A) fs' h'
    \<and> kept A (um h) (um h') \<and> (\<forall>z \<in> A. apart z (a, u)) \<and> (a, u) \<notin> A"
proof -
  have l: "lnk (words (um h)) base fs base" "words (um h) (base + 4) = 0" and s: "sep (base + 7) fs (unat (brk h))"
    using inv by (auto simp: heap_inv_def heap_blocks_def)
  have "y \<noteq> base" using u l(2) by auto
  then obtain n where "(y, n) \<in> set fs" using y(1) by auto
  then obtain us vs where fs: "fs = us @ (y, n) # vs" by (auto dest: split_list)
  have n: "words (um h) (y + 4) = n" using l(1) by (simp add: fs lnk_append)
  have px: "x = last (nodes base us)"
    using lnk_pred [OF l(1) [unfolded fs] sep_ascending [OF s [unfolded fs]] order_refl x [unfolded fs] y(2)] .
  show ?thesis
  proof (cases "u = n")
    case True
    then show ?thesis using take_all_ok [OF inv [unfolded fs] px] u(1) by blast
  next
    case False
    have "x \<in> set (nodes base us)" unfolding px by (rule last_in_set) simp
    then show ?thesis using take_tail_ok [OF inv [unfolded fs] _ u(1)] False u(2) n by fastforce
  qed
qed

section \<open>Calls\<close>

lemma malloc_loop_ok:
  assumes inv: "heap_inv base A fs h" and u: "1 \<le> u" "8 * u < 2147483648"
  shows "\<exists>r h'. malloc_loop g (of_nat u) (freep h) (s_ptr (um h) (freep h)) h = Some (r, h') \<and> kept A (um h) (um h')
    \<and> (r = 0 \<and> (\<exists>fs'. heap_inv base A fs' h')
      \<or> (\<exists>a fs'. r = of_nat (a + 8) \<and> heap_inv base (insert (a, u) A) fs' h' \<and> (\<forall>z \<in> A. apart z (a, u)) \<and> (a, u) \<notin> A))"
proof -
  have u32: "u < 4294967296" using u by simp
  consider (found) x y where "x \<in> set (nodes base fs)" "y \<in> set (nodes base fs)" "words (um h) x = y" "u \<le> words (um h) (y + 4)"
    "malloc_loop g (of_nat u) (freep h) (s_ptr (um h) (freep h)) h = Some (take_block (of_nat u) (of_nat x) (of_nat y) h)"
  | (more) "malloc_loop g (of_nat u) (freep h) (s_ptr (um h) (freep h)) h =
      morecore g (of_nat u) h \<bind> (\<lambda>(p, h). if p = 0 then Some (0, h) else malloc_loop g (of_nat u) p (s_ptr (um h) p) h)"
    using malloc_search [OF inv u32] by blast
  then show ?thesis
  proof cases
    case found
    from take_ok [OF inv found(1-3) u(1) found(4)] obtain a h' fs' where
      "take_block (of_nat u) (of_nat x) (of_nat y) h = (of_nat (a + 8), h')" "heap_inv base (insert (a, u) A) fs' h'"
      "kept A (um h) (um h')" "\<forall>z \<in> A. apart z (a, u)" "(a, u) \<notin> A" by blast
    then show ?thesis using found(5) by auto
  next
    case more
    consider "morecore g (of_nat u) h = Some (0, h)"
    | h1 fs1 where "morecore g (of_nat u) h = Some (freep h1, h1)" "heap_inv base A fs1 h1" "kept A (um h) (um h1)" "\<exists>(c, k) \<in> set fs1. u \<le> k"
      using morecore_ok [OF inv u] by blast
    then show ?thesis
    proof cases
      case 1
      then show ?thesis using more inv by (auto simp: kept_def)
    next
      case 2
      have go: "malloc_loop g (of_nat u) (freep h) (s_ptr (um h) (freep h)) h = malloc_loop g (of_nat u) (freep h1) (s_ptr (um h1) (freep h1)) h1"
        using more 2(1) heap_inv_freep [OF 2(2)] by simp
      obtain c k where ck: "(c, k) \<in> set fs1" "u \<le> k" using 2(4) by auto
      then obtain us vs where "fs1 = us @ (c, k) # vs" by (auto dest: split_list)
      then have "words (um h1) (c + 4) = k" using 2(2) by (simp add: heap_inv_def lnk_append)
      moreover have "c \<in> set (nodes base fs1)" using ck(1) by force
      ultimately have "\<not> (\<forall>y \<in> set (nodes base fs1). words (um h1) (y + 4) < u)" using ck(2) not_less by blast
      then obtain x y where xy: "x \<in> set (nodes base fs1)" "y \<in> set (nodes base fs1)" "words (um h1) x = y" "u \<le> words (um h1) (y + 4)"
        "malloc_loop g (of_nat u) (freep h1) (s_ptr (um h1) (freep h1)) h1 = Some (take_block (of_nat u) (of_nat x) (of_nat y) h1)"
        using malloc_search [OF 2(2) u32, of g] by blast
      from take_ok [OF 2(2) xy(1-3) u(1) xy(4)] obtain a h' fs' where
        t: "take_block (of_nat u) (of_nat x) (of_nat y) h1 = (of_nat (a + 8), h')" "heap_inv base (insert (a, u) A) fs' h'"
          "kept A (um h1) (um h')" "\<forall>z \<in> A. apart z (a, u)" "(a, u) \<notin> A" by blast
      show ?thesis using go xy(5) t kept_trans [OF 2(3) t(3)] by auto
    qed
  qed
qed

definition units :: "u32 \<Rightarrow> nat" where
  "units n = (unat n + 7) div 8 + 1"

lemma nunits:
  assumes "unat n + 15 < 2147483648"
  shows "(n + 8 - 1) div 8 + 1 = of_nat (units n)" "1 \<le> units n" "8 * units n < 2147483648" "unat n + 8 \<le> 8 * units n"
proof -
  have "unat (n + 7) = unat n + 7" using unat_add_no_wrap [of n 7] assms by simp
  then have d: "unat ((n + 7) div 8) = (unat n + 7) div 8" by (simp add: unat_div_distrib)
  have "(n + 8 - 1) div 8 = of_nat (unat ((n + 7) div 8))" by (simp add: add.commute)
  then show "(n + 8 - 1) div 8 + 1 = of_nat (units n)" unfolding d units_def by simp
  show "1 \<le> units n" "8 * units n < 2147483648" "unat n + 8 \<le> 8 * units n" using assms by (simp_all add: units_def)
qed

text \<open>Before the first call of \<^verbatim>\<open>malloc\<close> there is no list.\<close>

definition heap_state :: "nat \<Rightarrow> block set \<Rightarrow> uheap \<Rightarrow> bool" where
  "heap_state base A h \<longleftrightarrow> freep h = 0 \<and> A = {} \<and> heap_blocks base {} [] (unat (brk h)) \<or> (\<exists>fs. heap_inv base A fs h)"

lemma heap_stateI: "heap_inv base A fs h \<Longrightarrow> heap_state base A h"
  by (auto simp: heap_state_def)

lemma heap_init:
  assumes "heap_blocks base {} [] (unat (brk h))"
  shows "heap_inv base {} [] (set_size (of_nat base) 0 (set_ptr (of_nat base) (of_nat base) (h\<lparr>freep := of_nat base\<rparr>)))"
proof -
  have X: "hdrs {base}" using nodes_hdrs [OF assms] by simp
  have b: "base < 4294967296" using hdrsD(2) [OF X] by simp
  show ?thesis
    using assms words_set_ptr [OF X _ _ b, of base base] words_set_size [OF X, of base base 0] by (simp add: heap_inv_def)
qed

lemma malloc_ok:
  assumes st: "heap_state base A h" and n: "unat n + 15 < 2147483648"
  shows "\<exists>r h'. malloc g (of_nat base) n h = Some (r, h') \<and> kept A (um h) (um h')
    \<and> (r = 0 \<and> heap_state base A h'
      \<or> (\<exists>a. r = of_nat (a + 8) \<and> heap_state base (insert (a, units n) A) h' \<and> (\<forall>z \<in> A. apart z (a, units n)) \<and> (a, units n) \<notin> A))"
proof -
  let ?h = "if freep h = 0 then set_size (of_nat base) 0 (set_ptr (of_nat base) (of_nat base) (h\<lparr>freep := of_nat base\<rparr>)) else h"
  have "(\<exists>fs. heap_inv base A fs ?h) \<and> kept A (um h) (um ?h)"
  proof (cases "freep h = 0")
    case True
    then have "A = {}" "heap_blocks base {} [] (unat (brk h))" using st heap_inv_freep by (auto simp: heap_state_def)
    then show ?thesis using True heap_init by (auto simp: kept_def)
  next
    case False
    then show ?thesis using st by (auto simp: heap_state_def kept_def)
  qed
  then obtain fs where fs: "heap_inv base A fs ?h" "kept A (um h) (um ?h)" by blast
  have "malloc g (of_nat base) n h = malloc_loop g (of_nat (units n)) (freep ?h) (s_ptr (um ?h) (freep ?h)) ?h"
    unfolding malloc_def Let_def nunits(1) [OF n] by (rule refl)
  with malloc_loop_ok [OF fs(1) nunits(2,3) [OF n], of g] show ?thesis using kept_trans [OF fs(2)] heap_stateI by metis
qed

lemma free_state:
  assumes st: "heap_state base A h" and b: "(b, n) \<in> A"
  shows "\<exists>h'. free (of_nat (b + 8)) h = Some h' \<and> heap_state base (A - {(b, n)}) h' \<and> kept (A - {(b, n)}) (um h) (um h')"
proof -
  obtain fs where "heap_inv base A fs h" using st b by (auto simp: heap_state_def)
  from free_ok [OF this b] show ?thesis using heap_stateI by blast
qed

lemma words_byte:
  assumes "z + 4 \<le> 4294967296" "x < 4294967296" "x < z \<or> z + 4 \<le> x"
  shows "words (m(of_nat x := v)) z = words m z"
proof -
  have "(of_nat z + of_nat k :: u32) \<noteq> of_nat x" if "k < 4" for k using nat_word_eq [of "z + k" x] assms that by auto
  from this [of 0] this [of 1] this [of 2] this [of 3] show ?thesis
    unfolding words_def by (intro arg_cong [of _ _ unat] load32_cong) auto
qed

text \<open>The program writes to a block it holds.\<close>

lemma write_state:
  assumes st: "heap_state base A h" and a: "(a, n) \<in> A" "a + 8 \<le> x" "x < a + 8 * n"
  shows "heap_state base A (h\<lparr>um := (um h)(of_nat x := v)\<rparr>)"
proof -
  let ?m = "(um h)(of_nat x := v)"
  obtain fs where inv: "heap_inv base A fs h" using st a(1) by (auto simp: heap_state_def)
  have hb: "heap_blocks base A fs (unat (brk h))" using inv by (simp add: heap_inv_def)
  have A: "a' + 8 * k < 2147483648" "1 \<le> k" if "(a', k) \<in> A" for a' k using hb that unfolding heap_blocks_def by fastforce+
  have x31: "x < 2147483648" using A(1) [OF a(1)] a(3) by simp
  have node: "words ?m z = words (um h) z \<and> words ?m (z + 4) = words (um h) (z + 4)" if "z \<in> set (nodes base fs)" for z
    using nodes_apart [OF hb that a(1)] hdrsD(2) [OF nodes_hdrs [OF hb] that] a x31 words_byte [of z x "um h" v] words_byte [of "z + 4" x "um h" v] by auto
  have "lnk (words ?m) base fs base"
  proof (rule lnk_cong)
    show "lnk (words (um h)) base fs base" using inv by (simp add: heap_inv_def)
    show "words ?m z = words (um h) z" if "z \<in> set (nodes base fs)" for z using node [OF that] by blast
    show "words ?m (z + 4) = words (um h) (z + 4)" if "(z, k) \<in> set fs" for z k using node [of z] that by force
  qed
  moreover have "words ?m (base + 4) = 0" using node [of base] inv by (simp add: heap_inv_def)
  moreover have "words ?m (c + 4) = k" if c: "(c, k) \<in> A" for c k
  proof -
    have "x < c + 4 \<or> c + 8 \<le> x"
    proof (cases "(c, k) = (a, n)")
      case False
      then have "apart (c, k) (a, n)" using hb c a(1) unfolding heap_blocks_def by blast
      then show ?thesis using a(2,3) A(2) [OF c] by (auto simp: apart_def)
    qed (use a(2) in simp)
    then have "words ?m (c + 4) = words (um h) (c + 4)" using words_byte [of "c + 4" x "um h" v] A [OF c] x31 by (simp add: add.commute)
    then show ?thesis using inv c by (auto simp: heap_inv_def)
  qed
  ultimately have "heap_inv base A fs (h\<lparr>um := ?m\<rparr>)" using inv by (auto simp: heap_inv_def)
  then show ?thesis by (rule heap_stateI)
qed

text \<open>
  What a program does with its heap: calls of \<^verbatim>\<open>malloc\<close> and \<^verbatim>\<open>free\<close>, the latter with a block it holds, and writes to its blocks.
  A block starts at its header; the program gets the address behind it.
\<close>

inductive heap_use :: "(u32 \<Rightarrow> uheap \<Rightarrow> bool) \<Rightarrow> nat \<Rightarrow> uheap \<Rightarrow> block set \<Rightarrow> uheap \<Rightarrow> bool" for g base s where
  begins: "freep s = 0 \<Longrightarrow> heap_use g base s {} s"
| mallocs: "heap_use g base s A h \<Longrightarrow> unat n + 15 < 2147483648 \<Longrightarrow> malloc g (of_nat base) n h = Some (r, h') \<Longrightarrow>
     heap_use g base s (if r = 0 then A else insert (unat r - 8, units n) A) h'"
| frees: "heap_use g base s A h \<Longrightarrow> (b, n) \<in> A \<Longrightarrow> free (of_nat (b + 8)) h = Some h' \<Longrightarrow> heap_use g base s (A - {(b, n)}) h'"
| writes: "heap_use g base s A h \<Longrightarrow> (a, n) \<in> A \<Longrightarrow> a + 8 \<le> x \<Longrightarrow> x < a + 8 * n \<Longrightarrow>
     heap_use g base s A (h\<lparr>um := (um h)(of_nat x := v)\<rparr>)"

lemma heap_state_bounds:
  assumes "heap_state base A h" "(a, n) \<in> A"
  shows "base + 8 \<le> a \<and> a mod 8 = 0 \<and> a + 8 * n \<le> unat (brk h) \<and> unat (brk h) < 2147483648"
  using assms by (fastforce simp: heap_state_def heap_inv_def heap_blocks_def)

lemma heap_use_state:
  assumes s: "heap_blocks base {} [] (unat (brk s))"
  shows "heap_use g base s A h \<Longrightarrow> heap_state base A h"
proof (induction rule: heap_use.induct)
  case begins
  then show ?case using s by (simp add: heap_state_def)
next
  case (mallocs A h n r h')
  from malloc_ok [OF mallocs.IH mallocs.hyps(2), of g] mallocs.hyps(3) consider "r = 0" "heap_state base A h'"
    | a where "r = of_nat (a + 8)" "heap_state base (insert (a, units n) A) h'" by auto
  then show ?case
  proof cases
    case 2
    have "a + 8 < 4294967296" using heap_state_bounds [OF 2(2) insertI1] nunits(2) [OF mallocs.hyps(2)] by simp
    then have "unat r = a + 8" using unat_nat [of "a + 8"] 2(1) by simp
    moreover then have "r \<noteq> 0" by auto
    ultimately show ?thesis using 2(2) by simp
  qed simp
next
  case (frees A h b n h')
  then show ?case using free_state by fastforce
next
  case (writes A h a n x v)
  then show ?case using write_state by blast
qed

section \<open>Properties\<close>

text \<open>
  C0: the allocator. However a program uses \<^verbatim>\<open>malloc\<close> and \<^verbatim>\<open>free\<close>, the blocks it holds lie in its heap, are aligned and do not overlap.
  Both calls always return. \<^verbatim>\<open>malloc\<close> returns 0 or the address of a block with at least the bytes asked for that does not
  overlap the others, and neither call changes a byte of a block that the program goes on holding. (For requests below 2 GB:
  the argument of \<^verbatim>\<open>sbrk\<close> is signed.)
\<close>

theorem malloc_free_safe:
  assumes base: "base mod 4 = 0" "0 < base" "base + 8 \<le> unat (brk s)" "unat (brk s) < 2147483648" "unat (brk s) mod 8 = 0"
    and run: "heap_use g base s A h"
  shows "(\<forall>(a, n) \<in> A. base + 8 \<le> a \<and> a mod 8 = 0 \<and> a + 8 * n \<le> unat (brk h))
    \<and> (\<forall>x \<in> A. \<forall>y \<in> A. x \<noteq> y \<longrightarrow> apart x y)
    \<and> (\<forall>n. unat n + 15 < 2147483648 \<longrightarrow>
        (\<exists>r h'. malloc g (of_nat base) n h = Some (r, h') \<and> kept A (um h) (um h')
          \<and> (r = 0 \<or> (\<exists>a k. r = of_nat (a + 8) \<and> unat n \<le> 8 * k - 8 \<and> a + 8 * k \<le> unat (brk h') \<and> (\<forall>z \<in> A. apart z (a, k))))))
    \<and> (\<forall>(b, n) \<in> A. \<exists>h'. free (of_nat (b + 8)) h = Some h' \<and> kept (A - {(b, n)}) (um h) (um h'))"
proof -
  have "heap_blocks base {} [] (unat (brk s))" using base by (simp add: heap_blocks_def)
  from heap_use_state [OF this run] have st: "heap_state base A h" .
  have "\<forall>(a, n) \<in> A. base + 8 \<le> a \<and> a mod 8 = 0 \<and> a + 8 * n \<le> unat (brk h)" using heap_state_bounds [OF st] by fastforce
  moreover have "\<forall>x \<in> A. \<forall>y \<in> A. x \<noteq> y \<longrightarrow> apart x y"
    using st unfolding heap_state_def heap_inv_def heap_blocks_def by blast
  moreover have "\<exists>r h'. malloc g (of_nat base) n h = Some (r, h') \<and> kept A (um h) (um h')
          \<and> (r = 0 \<or> (\<exists>a k. r = of_nat (a + 8) \<and> unat n \<le> 8 * k - 8 \<and> a + 8 * k \<le> unat (brk h') \<and> (\<forall>z \<in> A. apart z (a, k))))"
    if n: "unat n + 15 < 2147483648" for n
  proof -
    obtain r h' where r: "malloc g (of_nat base) n h = Some (r, h')" "kept A (um h) (um h')"
      "r = 0 \<or> (\<exists>a. r = of_nat (a + 8) \<and> heap_state base (insert (a, units n) A) h' \<and> (\<forall>z \<in> A. apart z (a, units n)))"
      using malloc_ok [OF st n, of g] by blast
    have "unat n \<le> 8 * units n - 8" using nunits(4) [OF n] by simp
    then show ?thesis using r heap_state_bounds [OF _ insertI1] by blast
  qed
  moreover have "\<forall>(b, n) \<in> A. \<exists>h'. free (of_nat (b + 8)) h = Some h' \<and> kept (A - {(b, n)}) (um h) (um h')"
    using free_state [OF st] by fastforce
  ultimately show ?thesis by blast
qed

definition demo_heap :: uheap where
  "demo_heap = \<lparr>um = \<lambda>_. 0, freep = 0, brk = 0x3000\<rparr>"

lemma demo_malloc: "map_option fst (malloc (\<lambda>_ _. True) 0x1000 10 demo_heap) = Some 0xAFF0"
  by code_simp

theorem malloc_free_safe_witness:
  "\<exists>h h2. heap_use (\<lambda>_ _. True) 0x1000 demo_heap {(0xAFE8, 3)} h \<and> free (of_nat (0xAFE8 + 8)) h = Some h2"
proof -
  let ?g = "\<lambda>_ _. True"
  obtain h where h: "malloc ?g (of_nat 0x1000) 10 demo_heap = Some (0xAFF0, h)" using demo_malloc by auto
  have "heap_use ?g 0x1000 demo_heap {} demo_heap" by (rule begins) (simp add: demo_heap_def)
  from mallocs [OF this _ h] have u: "heap_use ?g 0x1000 demo_heap {(0xAFE8, 3)} h" by (simp add: units_def)
  have "\<exists>h'. free (of_nat (0xAFE8 + 8)) h = Some h'"
    using malloc_free_safe [OF _ _ _ _ _ u] by (simp add: demo_heap_def) blast
  then show ?thesis using u by blast
qed

end
