(* ===== verification/Sh.thy ===== *)
theory Sh
  imports Prelude
begin

text \<open>
  The shell \<^verbatim>\<open>sh.c\<close>: the parser of command lines, the execution of a parsed command and the loop that reads them.
  The buffer is the list \<open>b\<close> of the bytes before its terminating NUL, a pointer into it is a position, and \<^verbatim>\<open>es\<close> is
  the length of \<open>b\<close>. A call of \<^verbatim>\<open>panic\<close>, which prints and exits, is a \<open>Panic\<close>. \<^verbatim>\<open>malloc\<close> is taken to succeed.
\<close>

section \<open>Commands\<close>

text \<open>Arguments and file names are pairs of positions, the beginning and the end of a token.\<close>

datatype cmd =
    EXEC "(nat \<times> nat) list"
  | REDIR cmd nat nat int int
  | PIPE cmd cmd
  | LIST cmd cmd
  | BACK cmd

abbreviation (input) MAXARGS :: nat where "MAXARGS \<equiv> 10"
abbreviation (input) O_RDONLY :: int where "O_RDONLY \<equiv> 0"
abbreviation (input) O_WRONLY_CREATE :: int where "O_WRONLY_CREATE \<equiv> 513"

definition whitespace :: "u8 list" where "whitespace = [32, 9, 13, 10, 11]"
definition symbols :: "u8 list" where "symbols = [60, 124, 62, 38, 59, 40, 41]"

section \<open>Tokens\<close>

definition char_at :: "u8 list \<Rightarrow> nat \<Rightarrow> u8" where
  "char_at b s = (if s < length b then b ! s else 0)"

function skip_while :: "(u8 \<Rightarrow> bool) \<Rightarrow> u8 list \<Rightarrow> nat \<Rightarrow> nat" where
  "skip_while p b s = (if s < length b \<and> p (b ! s) then skip_while p b (s + 1) else s)"
  by pat_completeness auto
termination
  by (relation "measure (\<lambda>(p, b, s). length b - s)") auto

declare skip_while.simps [simp del]

definition skip_ws :: "u8 list \<Rightarrow> nat \<Rightarrow> nat" where
  "skip_ws b s = skip_while (\<lambda>c. c \<in> set whitespace) b s"

text \<open>The kind of the token, its beginning and end, and the position after it.\<close>

definition gettoken :: "u8 list \<Rightarrow> nat \<Rightarrow> u8 \<times> nat \<times> nat \<times> nat" where
  "gettoken b s =
     (let s = skip_ws b s; q = s; c = char_at b s;
          (ret, s) =
            (if c = 0 then (c, s)
             else if c \<in> {124, 40, 41, 59, 38, 60} then (c, s + 1)
             else if c = 62 then (if char_at b (s + 1) = 62 then (43, s + 2) else (c, s + 1))
             else (97, skip_while (\<lambda>c. c \<notin> set whitespace \<and> c \<notin> set symbols) b s))
      in (ret, q, s, skip_ws b s))"

definition peek :: "u8 list \<Rightarrow> nat \<Rightarrow> u8 list \<Rightarrow> bool \<times> nat" where
  "peek b s toks = (let s = skip_ws b s in (char_at b s \<noteq> 0 \<and> char_at b s \<in> set toks, s))"

lemma skip_while_eq: "skip_while p b s = s + length (takeWhile p (drop s b))"
proof (induction p b s rule: skip_while.induct)
  case (1 p b s)
  show ?case
  proof (cases "s < length b")
    case True
    then have "drop s b = b ! s # drop (Suc s) b" by (simp add: Cons_nth_drop_Suc)
    then show ?thesis using 1 True by (subst skip_while.simps) auto
  qed (simp add: skip_while.simps)
qed

lemma skip_ge: "s \<le> skip_while p b s" "s \<le> skip_ws b s"
  by (simp_all add: skip_while_eq skip_ws_def)

lemma peek_ge: "peek b s toks = (r, s') \<Longrightarrow> s \<le> s' \<and> (r \<longrightarrow> s' < length b)"
  using skip_ge(2) [of s b] by (auto simp: peek_def Let_def char_at_def split: if_splits)

lemma skip_ws_peek [simp]: "skip_ws b (skip_ws b s) = skip_ws b s"
proof (cases "skip_ws b s < length b")
  case True
  let ?w = "\<lambda>c. c \<in> set whitespace"
  have "length (takeWhile ?w (drop s b)) < length (drop s b)" using True by (simp add: skip_ws_def skip_while_eq)
  then have "\<not> ?w (drop s b ! length (takeWhile ?w (drop s b)))" by (rule nth_length_takeWhile)
  then have "\<not> ?w (b ! skip_ws b s)" using True by (simp add: skip_ws_def skip_while_eq)
  then show ?thesis by (simp add: skip_ws_def [of b "skip_ws b s"] skip_while.simps)
qed (simp add: skip_ws_def skip_while.simps)

text \<open>Every token but the end of the text takes at least one byte.\<close>

lemma gettoken_progress:
  assumes "gettoken b s = (r, q, eq, s')"
  shows "s \<le> q" "q \<le> eq" "eq \<le> s'" "r \<noteq> 0 \<Longrightarrow> q < eq" "r \<noteq> 0 \<Longrightarrow> s < length b"
proof -
  have c: "char_at b (skip_ws b s) \<noteq> 0 \<Longrightarrow> skip_ws b s < length b" by (auto simp: char_at_def split: if_splits)
  have sw: "skip_ws b s < length b \<Longrightarrow> p (b ! skip_ws b s) \<Longrightarrow> skip_ws b s < skip_while p b (skip_ws b s)" for p
    using skip_ge(1) [of "skip_ws b s + 1" p b] by (simp add: skip_while.simps)
  have nw: "char_at b (skip_ws b s) \<notin> set whitespace \<or> char_at b (skip_ws b s) = 0"
  proof (cases "skip_ws b s < length b")
    case True
    have "skip_ws b (skip_ws b s) = skip_ws b s" by simp
    then have "\<not> b ! skip_ws b s \<in> set whitespace"
      using True skip_ge(1) [of "skip_ws b s + 1" "\<lambda>c. c \<in> set whitespace" b]
      unfolding skip_ws_def [of b "skip_ws b s"] by (subst (asm) skip_while.simps) (auto split: if_splits)
    then show ?thesis using True by (simp add: char_at_def)
  qed (simp add: char_at_def)
  have w: "skip_ws b s < skip_while (\<lambda>c. c \<notin> set whitespace \<and> c \<notin> set symbols) b (skip_ws b s)"
    if n: "char_at b (skip_ws b s) \<noteq> 0" "char_at b (skip_ws b s) \<notin> {124, 40, 41, 59, 38, 60, 62}"
  proof -
    have l: "skip_ws b s < length b" by (rule c [OF n(1)])
    then have e: "char_at b (skip_ws b s) = b ! skip_ws b s" by (simp add: char_at_def)
    have "b ! skip_ws b s \<notin> set symbols" using n(2) unfolding e by (simp add: symbols_def)
    then show ?thesis using nw n(1) unfolding e by (intro sw [OF l]) simp
  qed
  note g = assms [unfolded gettoken_def Let_def]
  show "s \<le> q" "q \<le> eq" "eq \<le> s'" using g skip_ge by (auto split: if_splits)
  show "r \<noteq> 0 \<Longrightarrow> q < eq" using g w by (auto split: if_splits)
  show "r \<noteq> 0 \<Longrightarrow> s < length b" using g c skip_ge(2) [of s b] by (auto split: if_splits)
qed

lemma gettoken_next: "gettoken b s = (r, q, eq, s') \<Longrightarrow> s \<le> s' \<and> (r \<noteq> 0 \<longrightarrow> s < s' \<and> s < length b)"
  using gettoken_progress [of b s r q eq s'] by auto

lemma peek_gettoken: "peek b s toks = (True, s1) \<Longrightarrow> gettoken b s1 = (r, q, eq, s2) \<Longrightarrow> s \<le> s1 \<and> s1 < length b \<and> s1 < s2"
  using peek_ge [of b s toks True s1] gettoken_next [of b s1 r q eq s2]
  by (auto simp: peek_def gettoken_def Let_def split: if_splits)

section \<open>The parser\<close>

definition redir :: "u8 \<Rightarrow> cmd \<Rightarrow> nat \<Rightarrow> nat \<Rightarrow> cmd" where
  "redir tok c q eq =
     (if tok = 60 then REDIR c q eq O_RDONLY 0
      else if tok = 62 \<or> tok = 43 then REDIR c q eq O_WRONLY_CREATE 1
      else c)"

function parseredirs :: "u8 list \<Rightarrow> cmd \<Rightarrow> nat \<Rightarrow> (cmd \<times> nat) res" where
  "parseredirs b c s =
     (let (pk, s) = peek b s [60, 62] in
      if pk then
        let (tok, _, _, s) = gettoken b s; (tok2, q, eq, s) = gettoken b s in
        if tok2 \<noteq> 97 then Inl (Panic ''missing file for redirection'')
        else parseredirs b (redir tok c q eq) s
      else Inr (c, s))"
  by pat_completeness auto
termination
  by (relation "measure (\<lambda>(b, c, s). length b - s)")
    (auto dest!: peek_ge [OF sym] dest!: gettoken_next [OF sym])

declare parseredirs.simps [simp del]

text \<open>
  \<^verbatim>\<open>parseexec\<close> keeps a pointer to the \<^verbatim>\<open>execcmd\<close> below the redirections that have been wrapped around it
  and stores the arguments there.
\<close>

primrec add_arg :: "nat \<times> nat \<Rightarrow> cmd \<Rightarrow> cmd" where
  "add_arg a (EXEC as) = EXEC (as @ [a])"
| "add_arg a (REDIR c q eq m fd) = REDIR (add_arg a c) q eq m fd"
| "add_arg a (PIPE l r) = PIPE l r"
| "add_arg a (LIST l r) = LIST l r"
| "add_arg a (BACK c) = BACK c"

lemma parseredirs_ge: "parseredirs b c s = Inr (c', s') \<Longrightarrow> s \<le> s'"
proof (induction b c s rule: parseredirs.induct)
  case (1 b c s)
  obtain pk s1 where p: "peek b s [60, 62] = (pk, s1)" by force
  note ge = peek_ge [OF p]
  show ?case
  proof (cases pk)
    case True
    obtain tok u1 u2 s2 where g: "gettoken b s1 = (tok, u1, u2, s2)" by (metis prod_cases4)
    obtain tok2 q eq s3 where h: "gettoken b s2 = (tok2, q, eq, s3)" by (metis prod_cases4)
    have "tok2 = 97" "parseredirs b (redir tok c q eq) s3 = Inr (c', s')"
      using "1.prems" True p g h by (auto simp: parseredirs.simps [of b c s] split: if_splits)
    then have "s3 \<le> s'" using 1(1) [OF p [symmetric] refl True g [symmetric] refl refl refl h [symmetric] refl refl refl] by simp
    then show ?thesis using ge gettoken_progress(1-3) [OF g] gettoken_progress(1-3) [OF h] by simp
  next
    case False
    then show ?thesis using "1.prems" p ge by (simp add: parseredirs.simps [of b c s])
  qed
qed

function parse_args :: "u8 list \<Rightarrow> nat \<Rightarrow> cmd \<Rightarrow> nat \<Rightarrow> (cmd \<times> nat) res" where
  "parse_args b argc ret s =
     (let (pk, s) = peek b s [124, 41, 38, 59] in
      if pk then Inr (ret, s)
      else
        let (tok, q, eq, s) = gettoken b s in
        if tok = 0 then Inr (ret, s)
        else if tok \<noteq> 97 then Inl (Panic ''syntax'')
        else
          let ret = add_arg (q, eq) ret; argc = argc + 1 in
          if argc \<ge> MAXARGS then Inl (Panic ''too many args'')
          else rbind (parseredirs b ret s) (\<lambda>(ret, s). parse_args b argc ret s))"
  by pat_completeness auto
termination
  by (relation "measure (\<lambda>(b, argc, ret, s). MAXARGS - argc)") auto

declare parse_args.simps [simp del]

function parse_backs :: "u8 list \<Rightarrow> cmd \<Rightarrow> nat \<Rightarrow> cmd \<times> nat" where
  "parse_backs b c s =
     (let (pk, s) = peek b s [38] in
      if pk then (let (_, _, _, s) = gettoken b s in parse_backs b (BACK c) s) else (c, s))"
  by pat_completeness auto
termination
  by (relation "measure (\<lambda>(b, c, s). length b - s)")
    (fastforce dest: peek_gettoken [OF sym sym])+

declare parse_backs.simps [simp del]

text \<open>
  The mutually recursive part. Every call of one of these functions takes one from the fuel \<open>n\<close>; a run that uses it
  up has the value \<open>Spins\<close>. \<open>parsecmd\<close> starts with enough fuel for every text.
\<close>

fun parseline :: "nat \<Rightarrow> u8 list \<Rightarrow> nat \<Rightarrow> (cmd \<times> nat) res"
  and parsepipe :: "nat \<Rightarrow> u8 list \<Rightarrow> nat \<Rightarrow> (cmd \<times> nat) res"
  and parseblock :: "nat \<Rightarrow> u8 list \<Rightarrow> nat \<Rightarrow> (cmd \<times> nat) res"
  and parseexec :: "nat \<Rightarrow> u8 list \<Rightarrow> nat \<Rightarrow> (cmd \<times> nat) res" where
  "parseline 0 b s = Inl Spins"
| "parseline (Suc n) b s =
     rbind (parsepipe n b s) (\<lambda>(c, s).
     let (c, s) = parse_backs b c s; (pk, s) = peek b s [59] in
     if pk then
       let (_, _, _, s) = gettoken b s in
       rbind (parseline n b s) (\<lambda>(r, s). Inr (LIST c r, s))
     else Inr (c, s))"
| "parsepipe 0 b s = Inl Spins"
| "parsepipe (Suc n) b s =
     rbind (parseexec n b s) (\<lambda>(c, s).
     let (pk, s) = peek b s [124] in
     if pk then
       let (_, _, _, s) = gettoken b s in
       rbind (parsepipe n b s) (\<lambda>(r, s). Inr (PIPE c r, s))
     else Inr (c, s))"
| "parseblock 0 b s = Inl Spins"
| "parseblock (Suc n) b s =
     (let (pk, s) = peek b s [40] in
      if \<not> pk then Inl (Panic ''parseblock'')
      else
        let (_, _, _, s) = gettoken b s in
        rbind (parseline n b s) (\<lambda>(c, s).
        let (pk, s) = peek b s [41] in
        if \<not> pk then Inl (Panic ''syntax - missing )'')
        else
          let (_, _, _, s) = gettoken b s in
          parseredirs b c s))"
| "parseexec 0 b s = Inl Spins"
| "parseexec (Suc n) b s =
     (let (pk, s) = peek b s [40] in
      if pk then parseblock n b s
      else rbind (parseredirs b (EXEC []) s) (\<lambda>(ret, s). parse_args b 0 ret s))"

text \<open>The end of every argument and file name becomes a NUL byte; \<open>m\<close> is the buffer with its terminating NUL.\<close>

primrec nulterminate :: "cmd \<Rightarrow> u8 list \<Rightarrow> u8 list" where
  "nulterminate (EXEC as) m = fold (\<lambda>a m. m[snd a := 0]) as m"
| "nulterminate (REDIR c q eq mode fd) m = (nulterminate c m)[eq := 0]"
| "nulterminate (PIPE l r) m = nulterminate r (nulterminate l m)"
| "nulterminate (LIST l r) m = nulterminate r (nulterminate l m)"
| "nulterminate (BACK c) m = nulterminate c m"

definition parsecmd :: "u8 list \<Rightarrow> (cmd \<times> u8 list) res" where
  "parsecmd b =
     rbind (parseline (4 * length b + 4) b 0) (\<lambda>(c, s).
     let (_, s) = peek b s [] in
     if s \<noteq> length b then Inl (Panic ''syntax'')
     else Inr (c, nulterminate c (b @ [0])))"

section \<open>Running a command\<close>

text \<open>
  The system calls a process makes, with what it does on each outcome that the code distinguishes: \<open>Fork\<close> has the child,
  the parent and the failure, \<open>Pipe\<close> the two descriptors or the failure. \<^verbatim>\<open>exec\<close> returns only when it fails.
\<close>

datatype prog =
    Exit
  | Exec "u8 list" "u8 list list" prog
  | Print "u8 list" prog
  | Close nat prog
  | Open "u8 list" int prog prog
  | Fork prog prog prog
  | Wait prog
  | Pipe "nat \<times> nat \<Rightarrow> prog" prog
  | Dup nat prog

definition msg :: "string \<Rightarrow> u8 list" where
  "msg cs = map of_char cs"

definition panic :: "string \<Rightarrow> prog" where
  "panic cs = Print (msg cs @ [10]) Exit"

definition fork1 :: "prog \<Rightarrow> prog \<Rightarrow> prog" where
  "fork1 child parent = Fork child parent (panic ''fork'')"

definition cstr :: "u8 list \<Rightarrow> nat \<Rightarrow> u8 list" where
  "cstr m q = takeWhile (\<lambda>c. c \<noteq> 0) (drop q m)"

primrec runcmd :: "u8 list \<Rightarrow> cmd \<Rightarrow> prog" where
  "runcmd m (EXEC as) =
     (case as of
        [] \<Rightarrow> Exit
      | a # _ \<Rightarrow> Exec (cstr m (fst a)) (map (\<lambda>a. cstr m (fst a)) as)
          (Print (msg ''exec '' @ cstr m (fst a) @ msg '' failed'' @ [10]) Exit))"
| "runcmd m (REDIR c q eq mode fd) =
     Close (nat fd) (Open (cstr m q) mode (runcmd m c) (Print (msg ''open '' @ cstr m q @ msg '' failed'' @ [10]) Exit))"
| "runcmd m (LIST l r) = fork1 (runcmd m l) (Wait (runcmd m r))"
| "runcmd m (PIPE l r) =
     Pipe (\<lambda>(p0, p1).
       fork1 (Close 1 (Dup p1 (Close p0 (Close p1 (runcmd m l)))))
        (fork1 (Close 0 (Dup p0 (Close p0 (Close p1 (runcmd m r)))))
          (Close p0 (Close p1 (Wait (Wait Exit))))))
      (panic ''pipe'')"
| "runcmd m (BACK c) = fork1 (runcmd m c) Exit"

section \<open>Reading commands\<close>

text \<open>
  \<^verbatim>\<open>gets\<close> stops after a newline or carriage return, when the buffer is full, or at the end of the input; a NUL byte ends
  the text in the buffer. The loop of \<^verbatim>\<open>main\<close> does one of three things with each line.
\<close>

fun getline :: "nat \<Rightarrow> u8 list \<Rightarrow> u8 list \<times> u8 list" where
  "getline 0 inp = ([], inp)"
| "getline (Suc n) [] = ([], [])"
| "getline (Suc n) (c # inp) =
     (if c = 10 \<or> c = 13 then ([c], inp) else let (l, inp) = getline n inp in (c # l, inp))"

definition getcmd :: "u8 list \<Rightarrow> (u8 list \<times> u8 list) option" where
  "getcmd inp =
     (let (l, inp) = getline 99 inp; l = takeWhile (\<lambda>c. c \<noteq> 0) l in
      if l = [] then None else Some (l, inp))"

datatype action = Chdir "u8 list" | Child "prog res"

definition sh_line :: "u8 list \<Rightarrow> action" where
  "sh_line l =
     (if take 3 l = [99, 100, 32] then Chdir (drop 3 (butlast l))
      else Child (rbind (parsecmd l) (\<lambda>(c, m). Inr (runcmd m c))))"

lemma getline_length: "getline n inp = (l, rest) \<Longrightarrow> length inp = length l + length rest"
  by (induction n inp arbitrary: l rest rule: getline.induct) (auto split: if_splits prod.splits)

function sh_main :: "u8 list \<Rightarrow> action list" where
  "sh_main inp =
     (case getcmd inp of
        None \<Rightarrow> []
      | Some (l, inp) \<Rightarrow> sh_line l # sh_main inp)"
  by pat_completeness auto
termination
  by (relation "measure length")
    (auto simp: getcmd_def Let_def dest!: getline_length split: prod.splits if_splits)

declare sh_main.simps [simp del]

end
