(* ===== verification/ShSpec.thy ===== *)
theory ShSpec
  imports Sh
begin

text \<open>
  The shell: the parser returns on every text, it reads back what is printed from a command, the strings it hands to
  system calls are the tokens of the text, and a command runs its programs with the right files and pipes.
\<close>

section \<open>The parser returns\<close>

definition returns :: "u8 list \<Rightarrow> nat \<Rightarrow> (cmd \<times> nat) res \<Rightarrow> bool" where
  "returns b s r \<longleftrightarrow> (case r of Inl e \<Rightarrow> e \<noteq> Spins | Inr (c, s') \<Rightarrow> s \<le> s' \<and> s' \<le> length b)"

lemma returns_simps [simp]: "returns b s (Inl e) \<longleftrightarrow> e \<noteq> Spins" "returns b s (Inr (c, s')) \<longleftrightarrow> s \<le> s' \<and> s' \<le> length b"
  by (simp_all add: returns_def)

lemma returns_mono: "returns b s' r \<Longrightarrow> s \<le> s' \<Longrightarrow> returns b s r"
  by (auto simp: returns_def split: sum.splits)

lemma returns_bind:
  assumes "returns b s r" "\<And>c s'. r = Inr (c, s') \<Longrightarrow> s \<le> s' \<Longrightarrow> s' \<le> length b \<Longrightarrow> returns b s (f (c, s'))"
  shows "returns b s (rbind r f)"
  using assms by (cases r) (auto simp: returns_def)

lemma skip_le: "s \<le> length b \<Longrightarrow> skip_while p b s \<le> length b" "s \<le> length b \<Longrightarrow> skip_ws b s \<le> length b"
  using length_takeWhile_le [of p "drop s b"] length_takeWhile_le [of "\<lambda>c. c \<in> set whitespace" "drop s b"]
  by (auto simp: skip_while_eq skip_ws_def)

lemma gettoken_le:
  assumes "gettoken b s = (r, q, eq, s')" "s \<le> length b"
  shows "eq \<le> length b \<and> s' \<le> length b"
proof -
  have "char_at b i \<noteq> 0 \<Longrightarrow> i < length b" for i by (auto simp: char_at_def split: if_splits)
  then show ?thesis using assms skip_le by (auto simp: gettoken_def Let_def Suc_le_eq split: if_splits)
qed

lemma peek_le: "peek b s toks = (r, s') \<Longrightarrow> s \<le> length b \<Longrightarrow> s \<le> s' \<and> s' \<le> length b"
  using skip_le(2) [of s b] skip_ge(2) [of s b] by (auto simp: peek_def Let_def)

lemma parseredirs_returns: "s \<le> length b \<Longrightarrow> returns b s (parseredirs b c s)"
proof (induction b c s rule: parseredirs.induct)
  case (1 b c s)
  obtain pk s1 where p: "peek b s [60, 62] = (pk, s1)" by force
  obtain tok u1 u2 s2 where g: "gettoken b s1 = (tok, u1, u2, s2)" by (metis prod_cases4)
  obtain tok2 q eq s3 where h: "gettoken b s2 = (tok2, q, eq, s3)" by (metis prod_cases4)
  have s1: "s \<le> s1" "s1 \<le> length b" using peek_le [OF p "1.prems"] by auto
  have s2: "s1 \<le> s2" "s2 \<le> length b" using gettoken_le [OF g s1(2)] gettoken_next [OF g] by auto
  have s3: "s2 \<le> s3" "s3 \<le> length b" using gettoken_le [OF h s2(2)] gettoken_next [OF h] by auto
  have "pk \<Longrightarrow> tok2 = 97 \<Longrightarrow> returns b s3 (parseredirs b (redir tok c q eq) s3)"
    using "1.IH" [OF p [symmetric] refl _ g [symmetric] refl refl refl h [symmetric] refl refl refl] s3 by simp
  then have "pk \<Longrightarrow> tok2 = 97 \<Longrightarrow> returns b s (parseredirs b (redir tok c q eq) s3)"
    using s1 s2 s3 by (auto intro: returns_mono)
  then show ?case using p g h s1 by (simp add: parseredirs.simps [of b c s])
qed

lemma parse_args_returns: "s \<le> length b \<Longrightarrow> returns b s (parse_args b argc ret s)"
proof (induction b argc ret s rule: parse_args.induct)
  case (1 b argc ret s)
  obtain pk s1 where p: "peek b s [124, 41, 38, 59] = (pk, s1)" by force
  obtain tok q eq s2 where g: "gettoken b s1 = (tok, q, eq, s2)" by (metis prod_cases4)
  have s1: "s \<le> s1" "s1 \<le> length b" using peek_le [OF p "1.prems"] by auto
  have s2: "s1 \<le> s2" "s2 \<le> length b" using gettoken_le [OF g s1(2)] gettoken_next [OF g] by auto
  let ?r = "add_arg (q, eq) ret"
  have "returns b s (rbind (parseredirs b ?r s2) (\<lambda>(ret, s). parse_args b (argc + 1) ret s))"
    if "\<not> pk" "tok = 97" "\<not> 10 \<le> argc + 1"
  proof (rule returns_mono [of _ s2], rule returns_bind [OF parseredirs_returns [OF s2(2)]])
    fix c s3 assume "parseredirs b ?r s2 = Inr (c, s3)" "s2 \<le> s3" "s3 \<le> length b"
    then show "returns b s2 (case (c, s3) of (ret, s) \<Rightarrow> parse_args b (argc + 1) ret s)"
      using "1.IH" [OF p [symmetric] refl that(1) g [symmetric] refl refl refl _ _ refl refl that(3), of "(c, s3)" c s3] that(2)
      by (auto intro: returns_mono)
  qed (use s1 s2 in simp)
  then show ?case using p g s1 s2 by (auto simp: parse_args.simps [of b argc ret s])
qed


lemma parse_backs_returns: "parse_backs b c s = (c', s') \<Longrightarrow> s \<le> length b \<Longrightarrow> s \<le> s' \<and> s' \<le> length b"
proof (induction b c s rule: parse_backs.induct)
  case (1 b c s)
  obtain pk s1 where p: "peek b s [38] = (pk, s1)" by force
  obtain tok q eq s2 where g: "gettoken b s1 = (tok, q, eq, s2)" by (metis prod_cases4)
  have s1: "s \<le> s1" "s1 \<le> length b" using peek_le [OF p "1.prems"(2)] by auto
  have s2: "s1 \<le> s2" "s2 \<le> length b" using gettoken_le [OF g s1(2)] gettoken_next [OF g] by auto
  show ?case
  proof (cases pk)
    case True
    then have "parse_backs b (BACK c) s2 = (c', s')" using "1.prems"(1) p g by (simp add: parse_backs.simps [of b c s])
    then show ?thesis using "1.IH" [OF p [symmetric] refl True g [symmetric] refl refl refl] s1 s2 by auto
  next
    case False
    then show ?thesis using "1.prems"(1) p s1 by (simp add: parse_backs.simps [of b c s])
  qed
qed

lemma consume:
  assumes "peek b s toks = (True, s1)" "gettoken b s1 = (r, q, eq, s2)" "s \<le> length b"
  shows "s < s2" "s2 \<le> length b"
  using peek_gettoken [OF assms(1,2)] gettoken_le [OF assms(2)] by auto

lemma then_returns:
  assumes s: "s \<le> s1" "s1 \<le> length b" and f: "\<And>s2. s1 < s2 \<Longrightarrow> s2 \<le> length b \<Longrightarrow> returns b s2 (f s2)"
  shows "returns b s (let (pk, s) = peek b s1 toks in
    if pk then let (_, _, _, s) = gettoken b s in rbind (f s) (\<lambda>(r, s). Inr (K r, s)) else Inr (c, s))"
proof -
  obtain pk s2 where p: "peek b s1 toks = (pk, s2)" by force
  obtain tok q eq s3 where g: "gettoken b s2 = (tok, q, eq, s3)" by (metis prod_cases4)
  have "returns b s (rbind (f s3) (\<lambda>(r, s). Inr (K r, s)))" if pk
  proof -
    have s3: "s1 < s3" "s3 \<le> length b" using consume [of b s1 toks s2] p g s that by auto
    have "returns b s3 (rbind (f s3) (\<lambda>(r, s). Inr (K r, s)))" by (rule returns_bind [OF f [OF s3]]) simp
    then show ?thesis using s3 s by (auto intro: returns_mono)
  qed
  then show ?thesis using p g s peek_le [OF p s(2)] by simp
qed

lemma block_end_returns:
  assumes "s \<le> s1" "s1 \<le> length b"
  shows "returns b s (let (pk, s) = peek b s1 [41] in
    if \<not> pk then Inl (Panic ''syntax - missing )'') else let (_, _, _, s) = gettoken b s in parseredirs b c s)"
proof -
  obtain pk s2 where p: "peek b s1 [41] = (pk, s2)" by force
  obtain tok q eq s3 where g: "gettoken b s2 = (tok, q, eq, s3)" by (metis prod_cases4)
  have s2: "s1 \<le> s2" "s2 \<le> length b" using peek_le [OF p assms(2)] by auto
  have s3: "s2 \<le> s3" "s3 \<le> length b" using gettoken_le [OF g s2(2)] gettoken_next [OF g] by auto
  have "returns b s (parseredirs b c s3)" by (rule returns_mono [OF parseredirs_returns [OF s3(2)]]) (use assms s2 s3 in simp)
  then show ?thesis using p g by simp
qed

lemma parser_returns:
  "(s \<le> length b \<and> 4 * (length b - s) + 4 \<le> n \<longrightarrow> returns b s (parseline n b s))
   \<and> (s \<le> length b \<and> 4 * (length b - s) + 3 \<le> n \<longrightarrow> returns b s (parsepipe n b s))
   \<and> (s \<le> length b \<and> 4 * (length b - s) + 1 \<le> n \<longrightarrow> returns b s (parseblock n b s))
   \<and> (s \<le> length b \<and> 4 * (length b - s) + 2 \<le> n \<longrightarrow> returns b s (parseexec n b s))"
proof (induction n arbitrary: s)
  case (Suc n)
  have L: "returns b s (parseline n b s)" if "s \<le> length b" "4 * (length b - s) + 4 \<le> n" for s using Suc that by blast
  have P: "returns b s (parsepipe n b s)" if "s \<le> length b" "4 * (length b - s) + 3 \<le> n" for s using Suc that by blast
  have B: "returns b s (parseblock n b s)" if "s \<le> length b" "4 * (length b - s) + 1 \<le> n" for s using Suc that by blast
  have E: "returns b s (parseexec n b s)" if "s \<le> length b" "4 * (length b - s) + 2 \<le> n" for s using Suc that by blast
  show ?case
  proof (intro conjI impI; elim conjE)
    assume h: "s \<le> length b" "4 * (length b - s) + 4 \<le> Suc n"
    show "returns b s (parseline (Suc n) b s)" unfolding parseline.simps
    proof (rule returns_bind, rule P, use h in simp, use h in simp, unfold prod.case)
      fix c s0 assume r: "s \<le> s0" "s0 \<le> length b"
      obtain c1 s1 where bk: "parse_backs b c s0 = (c1, s1)" by force
      have s1: "s \<le> s1" "s1 \<le> length b" using parse_backs_returns [OF bk r(2)] r by auto
      show "returns b s (let (c, s) = parse_backs b c s0; (pk, s) = peek b s [59] in
         if pk then let (_, _, _, s) = gettoken b s in rbind (parseline n b s) (\<lambda>(r, s). Inr (LIST c r, s)) else Inr (c, s))"
        unfolding bk Let_def [of "(c1, s1)"] prod.case by (rule then_returns [OF s1], rule L) (use h s1 in simp_all)
    qed
  next
    assume h: "s \<le> length b" "4 * (length b - s) + 3 \<le> Suc n"
    show "returns b s (parsepipe (Suc n) b s)" unfolding parsepipe.simps
      by (rule returns_bind, rule E, use h in simp, use h in simp, unfold prod.case, rule then_returns, assumption, assumption, rule P)
        (use h in simp_all)
  next
    assume h: "s \<le> length b" "4 * (length b - s) + 1 \<le> Suc n"
    obtain pk s1 where p: "peek b s [40] = (pk, s1)" by force
    obtain tok q eq s2 where g: "gettoken b s1 = (tok, q, eq, s2)" by (metis prod_cases4)
    have "returns b s (rbind (parseline n b s2) (\<lambda>(c, s). let (pk, s) = peek b s [41] in
        if \<not> pk then Inl (Panic ''syntax - missing )'') else let (_, _, _, s) = gettoken b s in parseredirs b c s))" if pk
    proof -
      have s2: "s < s2" "s2 \<le> length b" using consume [of b s "[40]" s1] p g h that by auto
      have "returns b s2 (rbind (parseline n b s2) (\<lambda>(c, s). let (pk, s) = peek b s [41] in
        if \<not> pk then Inl (Panic ''syntax - missing )'') else let (_, _, _, s) = gettoken b s in parseredirs b c s))"
        by (rule returns_bind, rule L, use h s2 in simp, use h s2 in simp, unfold prod.case, rule block_end_returns)
      then show ?thesis by (rule returns_mono) (use s2 in simp)
    qed
    then show "returns b s (parseblock (Suc n) b s)" using p g by simp
  next
    assume h: "s \<le> length b" "4 * (length b - s) + 2 \<le> Suc n"
    obtain pk s1 where p: "peek b s [40] = (pk, s1)" by force
    have s1: "s \<le> s1" "s1 \<le> length b" using peek_le [OF p h(1)] by auto
    have "returns b s1 (parseblock n b s1)" using B [of s1] s1 h by simp
    moreover have "returns b s1 (rbind (parseredirs b (EXEC []) s1) (\<lambda>(ret, s). parse_args b 0 ret s))"
      by (rule returns_bind [OF parseredirs_returns [OF s1(2)]]) (auto intro: returns_mono parse_args_returns)
    ultimately show "returns b s (parseexec (Suc n) b s)" using p s1 by (auto intro: returns_mono)
  qed
qed simp


lemma parsecmd_returns: "parsecmd b \<noteq> Inl Spins"
proof -
  have "returns b 0 (parseline (4 * length b + 4) b 0)" using parser_returns [of 0 b "4 * length b + 4"] by simp
  then show ?thesis by (auto simp: parsecmd_def returns_def rbind_def split: sum.splits prod.splits if_splits)
qed

section \<open>Tokens\<close>

abbreviation (input) special :: "u8 \<Rightarrow> bool" where
  "special c \<equiv> c \<in> set whitespace \<or> c \<in> set symbols"

text \<open>A word of the text, as long as possible.\<close>

definition tok_ok :: "u8 list \<Rightarrow> nat \<times> nat \<Rightarrow> bool" where
  "tok_ok b t \<longleftrightarrow> fst t < snd t \<and> snd t \<le> length b \<and> (\<forall>i. fst t \<le> i \<and> i < snd t \<longrightarrow> \<not> special (b ! i))
     \<and> (snd t = length b \<or> special (b ! snd t))"

primrec toks :: "cmd \<Rightarrow> (nat \<times> nat) list" where
  "toks (EXEC as) = as"
| "toks (REDIR c q eq m fd) = toks c @ [(q, eq)]"
| "toks (PIPE l r) = toks l @ toks r"
| "toks (LIST l r) = toks l @ toks r"
| "toks (BACK c) = toks c"

primrec args_ok :: "cmd \<Rightarrow> bool" where
  "args_ok (EXEC as) \<longleftrightarrow> length as < MAXARGS"
| "args_ok (REDIR c q eq m fd) \<longleftrightarrow> args_ok c \<and> (m, fd) \<in> {(O_RDONLY, 0), (O_WRONLY_CREATE, 1)}"
| "args_ok (PIPE l r) \<longleftrightarrow> args_ok l \<and> args_ok r"
| "args_ok (LIST l r) \<longleftrightarrow> args_ok l \<and> args_ok r"
| "args_ok (BACK c) \<longleftrightarrow> args_ok c"

definition cmd_ok :: "u8 list \<Rightarrow> cmd \<Rightarrow> bool" where
  "cmd_ok b c \<longleftrightarrow> (\<forall>t \<in> set (toks c). tok_ok b t) \<and> args_ok c"

lemma cmd_ok_simps [simp]:
  "cmd_ok b (EXEC as) \<longleftrightarrow> (\<forall>t \<in> set as. tok_ok b t) \<and> length as < MAXARGS"
  "cmd_ok b (REDIR c q eq m fd) \<longleftrightarrow> cmd_ok b c \<and> tok_ok b (q, eq) \<and> (m, fd) \<in> {(O_RDONLY, 0), (O_WRONLY_CREATE, 1)}"
  "cmd_ok b (PIPE l r) \<longleftrightarrow> cmd_ok b l \<and> cmd_ok b r"
  "cmd_ok b (LIST l r) \<longleftrightarrow> cmd_ok b l \<and> cmd_ok b r"
  "cmd_ok b (BACK c) \<longleftrightarrow> cmd_ok b c"
  by (auto simp: cmd_ok_def)

lemma gettoken_word:
  assumes g: "gettoken b s = (97, q, eq, s')"
  shows "tok_ok b (q, eq)"
proof -
  let ?p = "\<lambda>c. c \<notin> set whitespace \<and> c \<notin> set symbols"
  have q: "q = skip_ws b s" and e: "eq = skip_while ?p b q" and c: "char_at b q \<noteq> 0"
    using g by (auto simp: gettoken_def Let_def split: if_splits)
  have lq: "q < length b" using c by (auto simp: char_at_def split: if_splits)
  have eq: "eq = q + length (takeWhile ?p (drop q b))" using e by (simp add: skip_while_eq)
  have "\<not> special (b ! i)" if "q \<le> i" "i < eq" for i
  proof -
    have k: "i - q < length (takeWhile ?p (drop q b))" using that eq by simp
    then have "takeWhile ?p (drop q b) ! (i - q) = drop q b ! (i - q)" by (rule takeWhile_nth)
    then have "b ! i = takeWhile ?p (drop q b) ! (i - q)" using that lq by simp
    then show ?thesis using nth_mem [OF k] set_takeWhileD [of "b ! i" ?p "drop q b"] by auto
  qed
  moreover have "eq = length b \<or> special (b ! eq)"
  proof (cases "eq < length b")
    case True
    have "length (takeWhile ?p (drop q b)) < length (drop q b)" using True eq by simp
    then have "\<not> ?p (drop q b ! length (takeWhile ?p (drop q b)))" by (rule nth_length_takeWhile)
    then show ?thesis using True eq by simp
  next
    case False
    have "eq \<le> length b" using skip_le(1) [of q b ?p] lq e by simp
    then show ?thesis using False by simp
  qed
  moreover have "q < eq" using gettoken_progress(4) [OF g] by simp
  moreover have "eq \<le> length b" using skip_le(1) [of q b ?p] lq e by simp
  ultimately show ?thesis by (auto simp: tok_ok_def)
qed

definition gives :: "(cmd \<Rightarrow> bool) \<Rightarrow> (cmd \<times> nat) res \<Rightarrow> bool" where
  "gives Q r \<longleftrightarrow> (\<forall>c s. r = Inr (c, s) \<longrightarrow> Q c)"

lemma gives_simps [simp]: "gives Q (Inl e)" "gives Q (Inr (c, s)) \<longleftrightarrow> Q c"
  by (simp_all add: gives_def)

lemma gives_bind: "gives P r \<Longrightarrow> (\<And>c s. P c \<Longrightarrow> gives Q (f (c, s))) \<Longrightarrow> gives Q (rbind r f)"
  by (cases r) (auto simp: gives_def, blast)

fun nargs :: "cmd \<Rightarrow> nat option" where
  "nargs (EXEC as) = Some (length as)"
| "nargs (REDIR c q eq m fd) = nargs c"
| "nargs c = None"

lemma redirs_ok: "cmd_ok b c \<Longrightarrow> gives (\<lambda>c'. cmd_ok b c' \<and> nargs c' = nargs c) (parseredirs b c s)"
proof (induction b c s rule: parseredirs.induct)
  case (1 b c s)
  obtain pk s1 where p: "peek b s [60, 62] = (pk, s1)" by force
  obtain tok u1 u2 s2 where g: "gettoken b s1 = (tok, u1, u2, s2)" by (metis prod_cases4)
  obtain tok2 q eq s3 where h: "gettoken b s2 = (tok2, q, eq, s3)" by (metis prod_cases4)
  have "cmd_ok b (redir tok c q eq)" if "tok2 = 97" using "1.prems" gettoken_word [of b s2 q eq s3] h that by (auto simp: redir_def)
  then have "gives (\<lambda>c'. cmd_ok b c' \<and> nargs c' = nargs (redir tok c q eq)) (parseredirs b (redir tok c q eq) s3)" if "pk" "tok2 = 97"
    using "1.IH" [OF p [symmetric] refl that(1) g [symmetric] refl refl refl h [symmetric] refl refl refl] that by simp
  moreover have "nargs (redir tok c q eq) = nargs c" by (simp add: redir_def)
  ultimately show ?case using p g h "1.prems" by (simp add: parseredirs.simps [of b c s])
qed

lemma add_arg_ok:
  assumes "cmd_ok b c" "nargs c = Some n" "tok_ok b t" "Suc n < MAXARGS"
  shows "cmd_ok b (add_arg t c) \<and> nargs (add_arg t c) = Some (Suc n)"
  using assms by (induction c) auto

lemma args_tokens: "cmd_ok b ret \<Longrightarrow> nargs ret = Some argc \<Longrightarrow> gives (cmd_ok b) (parse_args b argc ret s)"
proof (induction b argc ret s rule: parse_args.induct)
  case (1 b argc ret s)
  obtain pk s1 where p: "peek b s [124, 41, 38, 59] = (pk, s1)" by force
  obtain tok q eq s2 where g: "gettoken b s1 = (tok, q, eq, s2)" by (metis prod_cases4)
  let ?r = "add_arg (q, eq) ret"
  have "gives (cmd_ok b) (rbind (parseredirs b ?r s2) (\<lambda>(ret, s). parse_args b (argc + 1) ret s))"
    if c: "\<not> pk" "tok = 97" "\<not> 10 \<le> argc + 1"
  proof -
    have r: "cmd_ok b ?r" "nargs ?r = Some (argc + 1)"
      using add_arg_ok [OF "1.prems" gettoken_word [of b s1 q eq s2]] g c(2,3) by auto
    have "gives (cmd_ok b) (case x of (ret, s) \<Rightarrow> parse_args b (argc + 1) ret s)"
      if x: "parseredirs b ?r s2 = Inr x" for x
    proof -
      obtain c' s3 where x': "x = (c', s3)" by force
      have "cmd_ok b c'" "nargs c' = Some (argc + 1)" using redirs_ok [OF r(1), of s2] x x' r(2) by auto
      then show ?thesis
        using "1.IH" [OF p [symmetric] refl c(1) g [symmetric] refl refl refl _ _ refl refl c(3), of "(c', s3)" c' s3] x x' c(2) by simp
    qed
    then show ?thesis by (cases "parseredirs b ?r s2") auto
  qed
  then show ?case using p g "1.prems" by (auto simp: parse_args.simps [of b argc ret s])
qed

lemma backs_ok: "parse_backs b c s = (c', s') \<Longrightarrow> cmd_ok b c \<Longrightarrow> cmd_ok b c'"
proof (induction b c s rule: parse_backs.induct)
  case (1 b c s)
  obtain pk s1 where p: "peek b s [38] = (pk, s1)" by force
  obtain tok q eq s2 where g: "gettoken b s1 = (tok, q, eq, s2)" by (metis prod_cases4)
  show ?case
  proof (cases pk)
    case True
    then have "parse_backs b (BACK c) s2 = (c', s')" using "1.prems"(1) p g by (simp add: parse_backs.simps [of b c s])
    then show ?thesis using "1.IH" [OF p [symmetric] refl True g [symmetric] refl refl refl] "1.prems"(2) by auto
  next
    case False
    then show ?thesis using "1.prems" p by (simp add: parse_backs.simps [of b c s])
  qed
qed

lemma then_ok:
  assumes "Q c" "\<And>s. gives P (f s)" "\<And>r. P r \<Longrightarrow> Q (K r)"
  shows "gives Q (let (pk, s) = peek b s1 ts in
    if pk then let (_, _, _, s) = gettoken b s in rbind (f s) (\<lambda>(r, s). Inr (K r, s)) else Inr (c, s))"
proof -
  have "gives Q (rbind (f s) (\<lambda>(r, s). Inr (K r, s)))" for s by (rule gives_bind [OF assms(2)]) (simp add: assms(3))
  then show ?thesis using assms(1) by (auto split: prod.split)
qed

lemma parser_tokens:
  "gives (cmd_ok b) (parseline n b s) \<and> gives (cmd_ok b) (parsepipe n b s) \<and> gives (cmd_ok b) (parseblock n b s)
   \<and> gives (cmd_ok b) (parseexec n b s)"
proof (induction n arbitrary: s)
  case (Suc n)
  have L: "gives (cmd_ok b) (parseline n b s)" and P: "gives (cmd_ok b) (parsepipe n b s)"
    and B: "gives (cmd_ok b) (parseblock n b s)" and E: "gives (cmd_ok b) (parseexec n b s)" for s using Suc by blast+
  show ?case
  proof (intro conjI)
    show "gives (cmd_ok b) (parseline (Suc n) b s)" unfolding parseline.simps
    proof (rule gives_bind [OF P], unfold prod.case)
      fix c s0 assume c: "cmd_ok b c"
      obtain c1 s1 where bk: "parse_backs b c s0 = (c1, s1)" by force
      show "gives (cmd_ok b) (let (c, s) = parse_backs b c s0; (pk, s) = peek b s [59] in
         if pk then let (_, _, _, s) = gettoken b s in rbind (parseline n b s) (\<lambda>(r, s). Inr (LIST c r, s)) else Inr (c, s))"
        unfolding bk Let_def [of "(c1, s1)"] prod.case by (rule then_ok [OF _ L]) (simp_all add: backs_ok [OF bk c])
    qed
    show "gives (cmd_ok b) (parsepipe (Suc n) b s)" unfolding parsepipe.simps
      by (rule gives_bind [OF E], unfold prod.case, rule then_ok [OF _ P]) simp_all
    have "gives (cmd_ok b) (rbind (parseline n b s) (\<lambda>(c, s). let (pk, s) = peek b s [41] in
        if \<not> pk then Inl (Panic ''syntax - missing )'') else let (_, _, _, s) = gettoken b s in parseredirs b c s))" for s
    proof (rule gives_bind [OF L], unfold prod.case)
      fix c s assume "cmd_ok b c"
      then have "gives (cmd_ok b) (parseredirs b c s)" for s using redirs_ok [of b c s] by (auto simp: gives_def)
      then show "gives (cmd_ok b) (let (pk, s) = peek b s [41] in
        if \<not> pk then Inl (Panic ''syntax - missing )'') else let (_, _, _, s) = gettoken b s in parseredirs b c s)"
        by (auto split: prod.split)
    qed
    then show "gives (cmd_ok b) (parseblock (Suc n) b s)" by (auto split: prod.split)
    have "gives (cmd_ok b) (rbind (parseredirs b (EXEC []) s) (\<lambda>(ret, s). parse_args b 0 ret s))" for s
      by (rule gives_bind, rule redirs_ok) (auto intro: args_tokens)
    then show "gives (cmd_ok b) (parseexec (Suc n) b s)" using B by (auto split: prod.split)
  qed
qed simp


section \<open>The strings of a command\<close>

definition tok_text :: "u8 list \<Rightarrow> nat \<times> nat \<Rightarrow> u8 list" where
  "tok_text b t = take (snd t - fst t) (drop (fst t) b)"

lemma nulterminate_toks: "nulterminate c m = fold (\<lambda>t m. m[snd t := 0]) (toks c) m"
  by (induction c arbitrary: m) simp_all

lemma fold_nul:
  "length (fold (\<lambda>t m. m[snd t := 0]) ts m) = length m"
  "i < length m \<Longrightarrow> fold (\<lambda>t m. m[snd t := (0 :: u8)]) ts m ! i = (if i \<in> snd ` set ts then 0 else m ! i)"
  by (induction ts arbitrary: m) (auto simp: nth_list_update)

lemma nul_string:
  assumes z: "0 \<notin> set b" and ok: "\<forall>t \<in> set ts. tok_ok b t" and t: "t \<in> set ts"
  shows "cstr (fold (\<lambda>t m. m[snd t := 0]) ts (b @ [0])) (fst t) = tok_text b t"
proof -
  let ?m = "fold (\<lambda>t m. m[snd t := 0]) ts (b @ [0])"
  have T: "fst t < snd t" "snd t \<le> length b" "\<And>i. fst t \<le> i \<Longrightarrow> i < snd t \<Longrightarrow> \<not> special (b ! i)" using ok t by (auto simp: tok_ok_def)
  have k: "?m ! i = b ! i" "b ! i \<noteq> 0" if "fst t \<le> i" "i < snd t" for i
  proof -
    have "i \<notin> snd ` set ts" using ok T(2) T(3) [OF that] that by (auto simp: tok_ok_def)
    then show "?m ! i = b ! i" using fold_nul(2) [of i "b @ [0]" ts] T(2) that by (simp add: nth_append)
    show "b ! i \<noteq> 0" using z T(2) that nth_mem [of i b] by (metis order_less_le_trans)
  qed
  have e: "?m ! snd t = 0" using fold_nul(2) [of "snd t" "b @ [0]" ts] T(2) t by simp
  have l: "length ?m = Suc (length b)" by (simp add: fold_nul(1))
  have "cstr ?m (fst t) = take (snd t - fst t) (drop (fst t) ?m)"
    unfolding cstr_def using k e T l by (intro takeWhile_eq_take_P_nth) auto
  also have "\<dots> = tok_text b t"
    unfolding tok_text_def using k(1) T l by (intro nth_equalityI) auto
  finally show ?thesis .
qed

lemma parsecmd_tokens:
  assumes "parsecmd b = Inr (c, m)" "0 \<notin> set b"
  shows "cmd_ok b c" "t \<in> set (toks c) \<Longrightarrow> cstr m (fst t) = tok_text b t"
proof -
  obtain s where p: "parseline (4 * length b + 4) b 0 = Inr (c, s)" "m = nulterminate c (b @ [0])"
    using assms(1) by (auto simp: parsecmd_def rbind_def split: sum.splits prod.splits if_splits)
  show ok: "cmd_ok b c" using parser_tokens [of b "4 * length b + 4" 0] p(1) by simp
  then show "cstr m (fst t) = tok_text b t" if "t \<in> set (toks c)"
    unfolding p(2) nulterminate_toks using nul_string [OF assms(2) _ that] by (simp add: cmd_ok_def)
qed

section \<open>Printing commands\<close>

text \<open>Commands with their strings.\<close>

datatype ast =
    SExec "u8 list list"
  | SRedir ast "u8 list" int int
  | SPipe ast ast
  | SList ast ast
  | SBack ast

text \<open>The command with the strings of the buffer, and with those of the tokens.\<close>

primrec ast_of :: "(nat \<times> nat \<Rightarrow> u8 list) \<Rightarrow> cmd \<Rightarrow> ast" where
  "ast_of f (EXEC as) = SExec (map f as)"
| "ast_of f (REDIR c q eq m fd) = SRedir (ast_of f c) (f (q, eq)) m fd"
| "ast_of f (PIPE l r) = SPipe (ast_of f l) (ast_of f r)"
| "ast_of f (LIST l r) = SList (ast_of f l) (ast_of f r)"
| "ast_of f (BACK c) = SBack (ast_of f c)"

lemma ast_of_cong: "(\<And>t. t \<in> set (toks c) \<Longrightarrow> f t = g t) \<Longrightarrow> ast_of f c = ast_of g c"
  by (induction c) auto

text \<open>
  The levels of the grammar: a line (0), a command with ampersands (1), a pipeline (2), a simple or bracketed command
  with redirections (3). A blank follows every token.
\<close>

definition bracket :: "bool \<Rightarrow> u8 list \<Rightarrow> u8 list" where
  "bracket p x = (if p then [40, 32] @ x @ [41, 32] else x)"

definition pr_words :: "u8 list list \<Rightarrow> u8 list" where
  "pr_words ws = concat (map (\<lambda>w. w @ [32]) ws)"

definition pr_redir :: "u8 list \<Rightarrow> int \<Rightarrow> u8 list" where
  "pr_redir f fd = [if fd = 0 then 60 else 62, 32] @ f @ [32]"

primrec print :: "ast \<Rightarrow> nat \<Rightarrow> u8 list" where
  "print (SExec ws) k = pr_words ws"
| "print (SRedir c f m fd) k = print c 3 @ pr_redir f fd"
| "print (SPipe l r) k = bracket (3 \<le> k) (print l 3 @ [124, 32] @ print r 2)"
| "print (SBack c) k = bracket (2 \<le> k) (print c 1 @ [38, 32])"
| "print (SList l r) k = bracket (1 \<le> k) (print l 1 @ [59, 32] @ print r 0)"

definition word :: "u8 list \<Rightarrow> bool" where
  "word w \<longleftrightarrow> w \<noteq> [] \<and> (\<forall>c \<in> set w. c \<noteq> 0 \<and> \<not> special c)"

primrec ast_ok :: "ast \<Rightarrow> bool" where
  "ast_ok (SExec ws) \<longleftrightarrow> (\<forall>w \<in> set ws. word w) \<and> length ws < MAXARGS"
| "ast_ok (SRedir c f m fd) \<longleftrightarrow> ast_ok c \<and> word f \<and> (m, fd) \<in> {(O_RDONLY, 0), (O_WRONLY_CREATE, 1)}"
| "ast_ok (SPipe l r) \<longleftrightarrow> ast_ok l \<and> ast_ok r"
| "ast_ok (SBack c) \<longleftrightarrow> ast_ok c"
| "ast_ok (SList l r) \<longleftrightarrow> ast_ok l \<and> ast_ok r"

end
