(* ===== verification/ShPrint.thy ===== *)
theory ShPrint
  imports ShSpec
begin

text \<open>The parser of the shell reads back a printed command.\<close>

section \<open>Tokens of a printed text\<close>

definition nws :: "u8 list \<Rightarrow> bool" where
  "nws t \<longleftrightarrow> t = [] \<or> hd t \<notin> set whitespace"

definition stops :: "u8 set \<Rightarrow> u8 list \<Rightarrow> bool" where
  "stops R t \<longleftrightarrow> t = [] \<or> hd t \<in> R"

lemma nws_simps [simp]: "nws []" "nws (c # t) \<longleftrightarrow> c \<notin> set whitespace"
  by (simp_all add: nws_def)

lemma stops_simps [simp]: "stops R []" "stops R (c # t) \<longleftrightarrow> c \<in> R"
  by (simp_all add: stops_def)

lemma symbol_facts:
  "c \<in> set symbols \<Longrightarrow> c \<notin> set whitespace \<and> c \<noteq> 0" "32 \<in> set whitespace" "0 \<notin> set whitespace" "0 \<notin> set symbols"
  by (auto simp: symbols_def whitespace_def)

lemma stops_nws: "stops R t \<Longrightarrow> R \<subseteq> set symbols \<Longrightarrow> nws t"
  using symbol_facts(1) by (cases t) auto

lemma char_at_drop: "char_at b s = (case drop s b of [] \<Rightarrow> 0 | c # _ \<Rightarrow> c)"
proof (cases "s < length b")
  case True
  then have "drop s b = b ! s # drop (Suc s) b" by (simp add: Cons_nth_drop_Suc)
  then show ?thesis using True by (simp add: char_at_def)
qed (simp add: char_at_def)

lemma skip_ws_drop: "skip_ws b s = s + length (takeWhile (\<lambda>c. c \<in> set whitespace) (drop s b))"
  by (simp add: skip_ws_def skip_while_eq)

lemma skip_ws_at: "nws (drop s b) \<Longrightarrow> skip_ws b s = s"
  by (cases "drop s b") (auto simp: skip_ws_drop)

lemma skip_ws_blank: "drop s b = 32 # t \<Longrightarrow> nws t \<Longrightarrow> skip_ws b s = Suc s"
  using symbol_facts(2) by (cases t) (auto simp: skip_ws_drop)

lemma drop_next: "drop s b = x @ t \<Longrightarrow> drop (s + length x) b = t"
  by (metis append_eq_conv_conj drop_drop add.commute)

lemma drop_cons: "drop s b = c # t \<Longrightarrow> drop (Suc s) b = t"
  using drop_next [of s b "[c]" t] by simp

lemma peek_at: "nws (drop s b) \<Longrightarrow> 0 \<notin> set ts \<Longrightarrow> peek b s ts = (drop s b \<noteq> [] \<and> hd (drop s b) \<in> set ts, s)"
  by (auto simp: peek_def Let_def skip_ws_at char_at_drop split: list.splits)

lemma gettoken_end: "drop s b = [] \<Longrightarrow> gettoken b s = (0, s, s, s)"
  using skip_ws_at [of s b] by (simp add: gettoken_def Let_def char_at_drop)

lemma gettoken_sym:
  assumes d: "drop s b = c # 32 # t" and c: "c \<in> set symbols" and t: "nws t"
  shows "gettoken b s = (c, s, s + 1, s + 2)"
proof -
  have s: "skip_ws b s = s" using symbol_facts(1) [OF c] d by (intro skip_ws_at) simp
  have b: "skip_ws b (Suc s) = Suc (Suc s)" by (rule skip_ws_blank [OF drop_cons [OF d] t])
  have ch: "char_at b s = c" "char_at b (Suc s) = 32" using d drop_cons [OF d] by (simp_all add: char_at_drop)
  show ?thesis using c by (auto simp: gettoken_def s ch b symbols_def)
qed

lemma gettoken_at_word:
  assumes d: "drop s b = w @ 32 # t" and w: "word w" and t: "nws t"
  shows "gettoken b s = (97, s, s + length w, s + length w + 1)" "tok_text b (s, s + length w) = w"
proof -
  obtain c v where cv: "w = c # v" using w by (cases w) (auto simp: word_def)
  have c: "c \<noteq> 0" "c \<notin> set whitespace" "c \<notin> set symbols" using w cv by (auto simp: word_def)
  have s: "skip_ws b s = s" using c d cv by (intro skip_ws_at) simp
  have "skip_while (\<lambda>c. c \<notin> set whitespace \<and> c \<notin> set symbols) b s = s + length w"
    using w d symbol_facts(2) unfolding skip_while_eq d by (simp add: takeWhile_append word_def)
  moreover have "skip_ws b (s + length w) = Suc (s + length w)" by (rule skip_ws_blank [OF drop_next [OF d] t])
  moreover have "char_at b s = c" using d cv by (simp add: char_at_drop)
  ultimately show "gettoken b s = (97, s, s + length w, s + length w + 1)"
    using c by (simp add: gettoken_def s symbols_def)
  show "tok_text b (s, s + length w) = w" using d by (simp add: tok_text_def)
qed

section \<open>Redirections and arguments\<close>

abbreviation (input) wrap :: "ast \<Rightarrow> u8 list \<times> int \<times> int \<Rightarrow> ast" where
  "wrap c r \<equiv> SRedir c (fst r) (fst (snd r)) (snd (snd r))"

definition redir_ok :: "u8 list \<times> int \<times> int \<Rightarrow> bool" where
  "redir_ok r \<longleftrightarrow> word (fst r) \<and> snd r \<in> {(O_RDONLY, 0), (O_WRONLY_CREATE, 1)}"

definition pr_redirs :: "(u8 list \<times> int \<times> int) list \<Rightarrow> u8 list" where
  "pr_redirs rs = concat (map (\<lambda>r. pr_redir (fst r) (snd (snd r))) rs)"

lemma pr_redirs_simps [simp]: "pr_redirs [] = []" "pr_redirs (r # rs) = pr_redir (fst r) (snd (snd r)) @ pr_redirs rs"
  "pr_redirs (rs @ ss) = pr_redirs rs @ pr_redirs ss"
  by (simp_all add: pr_redirs_def)

lemma nws_redirs: "nws t \<Longrightarrow> nws (pr_redirs rs @ t)"
  by (cases rs) (auto simp: pr_redir_def whitespace_def)

lemma word_nws: "word w \<Longrightarrow> nws (w @ t)"
  by (cases w) (auto simp: word_def)

lemma nws_words: "\<forall>w \<in> set ws. word w \<Longrightarrow> nws t \<Longrightarrow> nws (pr_words ws @ t)"
  using word_nws by (cases ws) (auto simp: pr_words_def)

lemma no_redirs: "nws (drop s b) \<Longrightarrow> \<not> (drop s b \<noteq> [] \<and> hd (drop s b) \<in> {60, 62}) \<Longrightarrow> parseredirs b c s = Inr (c, s)"
  using peek_at [of s b "[60, 62]"] by (auto simp: parseredirs.simps [of b c s])

lemma redirs_print:
  assumes "drop s b = pr_redirs rs @ t" "\<forall>r \<in> set rs. redir_ok r" "nws t" "\<not> (t \<noteq> [] \<and> hd t \<in> {60, 62})"
  shows "\<exists>c'. parseredirs b c s = Inr (c', s + length (pr_redirs rs)) \<and> ast_of (tok_text b) c' = foldl wrap (ast_of (tok_text b) c) rs"
  using assms
proof (induction rs arbitrary: c s)
  case Nil
  then show ?case using no_redirs [of s b] by simp
next
  case (Cons r rs)
  obtain f m fd where r: "r = (f, m, fd)" by (cases r)
  have f: "word f" "(m, fd) \<in> {(0, 0), (513, 1)}" using Cons.prems(2) r by (auto simp: redir_ok_def)
  let ?k = "if fd = 0 then 60 else 62 :: u8"
  let ?u = "pr_redirs rs @ t"
  have u: "nws ?u" by (rule nws_redirs [OF Cons.prems(3)])
  have d: "drop s b = ?k # 32 # f @ 32 # ?u" using Cons.prems(1) by (simp add: r pr_redir_def)
  have k: "?k \<in> set symbols" by (simp add: symbols_def)
  have p: "peek b s [60, 62] = (True, s)" using d peek_at [of s b "[60, 62]"] symbol_facts(1) [OF k] by simp
  have g: "gettoken b s = (?k, s, s + 1, s + 2)" by (rule gettoken_sym [OF d k word_nws [OF f(1)]])
  have d2: "drop (s + 2) b = f @ 32 # ?u" using drop_next [of s b "[?k, 32]"] d by simp
  note h = gettoken_at_word [OF d2 f(1) u]
  have d3: "drop (s + 2 + length f + 1) b = ?u" using drop_next [of "s + 2" b "f @ [32]"] d2 by simp
  let ?c = "redir ?k c (s + 2) (s + 2 + length f)"
  obtain c' where c': "parseredirs b ?c (s + 2 + length f + 1) = Inr (c', s + 2 + length f + 1 + length (pr_redirs rs))"
      "ast_of (tok_text b) c' = foldl wrap (ast_of (tok_text b) ?c) rs"
    using Cons.IH [OF d3] Cons.prems by auto
  have "ast_of (tok_text b) ?c = wrap (ast_of (tok_text b) c) r" using f(2) h(2) by (auto simp: redir_def r)
  moreover have "parseredirs b c s = parseredirs b ?c (s + 2 + length f + 1)"
    using p g h(1) by (simp add: parseredirs.simps [of b c s])
  ultimately show ?case using c' by (auto simp: r pr_redir_def)
qed


abbreviation (input) ends :: "u8 set" where "ends \<equiv> {124, 41, 38, 59}"

lemma ends_nws: "stops ends t \<Longrightarrow> nws t"
  by (rule stops_nws) (auto simp: symbols_def)

lemma args_stop:
  assumes "drop s b = t" "stops ends t"
  shows "parse_args b argc c s = Inr (c, s)"
  using assms peek_at [of s b "[124, 41, 38, 59]"] gettoken_end [of s b] ends_nws [OF assms(2)]
  by (cases t) (auto simp: parse_args.simps [of b argc c s])

lemma args_print:
  assumes "drop s b = pr_words ws @ pr_redirs rs @ t" "\<forall>w \<in> set ws. word w" "\<forall>r \<in> set rs. redir_ok r" "stops ends t"
    "argc + length ws < 10" "ws \<noteq> []"
  shows "\<exists>c'. parse_args b argc (EXEC as) s = Inr (c', s + length (pr_words ws) + length (pr_redirs rs))
    \<and> ast_of (tok_text b) c' = foldl wrap (SExec (map (tok_text b) as @ ws)) rs"
  using assms
proof (induction ws arbitrary: as argc s)
  case (Cons w ws)
  let ?u = "pr_words ws @ pr_redirs rs @ t"
  have u: "nws ?u" using Cons.prems by (intro nws_words nws_redirs ends_nws) auto
  have w: "word w" using Cons.prems(2) by simp
  have d: "drop s b = w @ 32 # ?u" using Cons.prems(1) by (simp add: pr_words_def)
  have nd: "nws (drop s b)" "\<not> hd (drop s b) \<in> ends" using w unfolding d by (cases w; auto simp: word_def symbols_def)+
  have p: "peek b s [124, 41, 38, 59] = (False, s)" using nd peek_at [of s b "[124, 41, 38, 59]"] by auto
  note h = gettoken_at_word [OF d w u]
  let ?s = "s + length w + 1"
  let ?a = "(s, s + length w)"
  have d2: "drop ?s b = ?u" using drop_next [of s b "w @ [32]"] d by simp
  have step: "parse_args b argc (EXEC as) s
      = rbind (parseredirs b (EXEC (as @ [?a])) ?s) (\<lambda>(ret, s). parse_args b (argc + 1) ret s)"
    using p h(1) Cons.prems(5) by (simp add: parse_args.simps [of b argc "EXEC as" s])
  show ?case
  proof (cases "ws = []")
    case True
    have t: "nws t" "\<not> (t \<noteq> [] \<and> hd t \<in> {60, 62})" using ends_nws [OF Cons.prems(4)] Cons.prems(4) by (auto simp: stops_def)
    obtain c' where c': "parseredirs b (EXEC (as @ [?a])) ?s = Inr (c', ?s + length (pr_redirs rs))"
        "ast_of (tok_text b) c' = foldl wrap (SExec (map (tok_text b) as @ [w])) rs"
      using redirs_print [of ?s b rs t "EXEC (as @ [?a])"] d2 True Cons.prems(3) t h(2) by (auto simp: pr_words_def)
    have "drop (?s + length (pr_redirs rs)) b = t" using drop_next [of ?s b "pr_redirs rs" t] d2 True by (simp add: pr_words_def)
    then show ?thesis using step c' args_stop [OF _ Cons.prems(4)] True by (simp add: pr_words_def)
  next
    case False
    then obtain v vs where v: "ws = v # vs" by (cases ws) auto
    have nr: "\<not> (?u \<noteq> [] \<and> hd ?u \<in> {60, 62})"
      using Cons.prems(2) v by (cases v) (auto simp: pr_words_def word_def symbols_def)
    have "parseredirs b (EXEC (as @ [?a])) ?s = Inr (EXEC (as @ [?a]), ?s)"
      using u nr unfolding d2 [symmetric] by (rule no_redirs)
    then show ?thesis using step Cons.IH [OF d2, of "argc + 1" "as @ [?a]"] Cons.prems False h(2) by (auto simp: pr_words_def)
  qed
qed simp

section \<open>The grammar\<close>

abbreviation (input) text_of :: "u8 list \<Rightarrow> cmd \<Rightarrow> ast" where "text_of b \<equiv> ast_of (tok_text b)"

definition exec_reads :: "ast \<Rightarrow> bool" where
  "exec_reads c \<longleftrightarrow> (\<forall>n b s t. drop s b = print c 3 @ t \<and> s \<le> length b \<and> stops ends t \<and> 4 * (length b - s) + 2 \<le> n \<longrightarrow>
     (\<exists>c'. parseexec n b s = Inr (c', s + length (print c 3)) \<and> text_of b c' = c))"

definition pipe_reads :: "ast \<Rightarrow> bool" where
  "pipe_reads c \<longleftrightarrow> (\<forall>n b s t. drop s b = print c 2 @ t \<and> s \<le> length b \<and> stops {41, 38, 59} t \<and> 4 * (length b - s) + 3 \<le> n \<longrightarrow>
     (\<exists>c'. parsepipe n b s = Inr (c', s + length (print c 2)) \<and> text_of b c' = c))"

definition line_reads :: "ast \<Rightarrow> bool" where
  "line_reads c \<longleftrightarrow> (\<forall>n b s t. drop s b = print c 0 @ t \<and> s \<le> length b \<and> stops {41} t \<and> 4 * (length b - s) + 4 \<le> n \<longrightarrow>
     (\<exists>c'. parseline n b s = Inr (c', s + length (print c 0)) \<and> text_of b c' = c))"

fun unredir :: "ast \<Rightarrow> ast \<times> (u8 list \<times> int \<times> int) list" where
  "unredir (SRedir c f m fd) = (let (c0, rs) = unredir c in (c0, rs @ [(f, m, fd)]))"
| "unredir c = (c, [])"

fun is_redir :: "ast \<Rightarrow> bool" where
  "is_redir (SRedir c f m fd) = True"
| "is_redir c = False"

lemma unredir:
  assumes "unredir c = (c0, rs)"
  shows "c = foldl wrap c0 rs" "print c 3 = print c0 3 @ pr_redirs rs" "\<not> is_redir c0" "size c0 \<le> size c"
    "ast_ok c \<Longrightarrow> ast_ok c0 \<and> (\<forall>r \<in> set rs. redir_ok r)" "is_redir c \<Longrightarrow> size c0 < size c"
  using assms by (induction c arbitrary: c0 rs rule: unredir.induct) (auto simp: redir_ok_def split: prod.splits)

lemma exec_reads_simple:
  assumes u: "unredir c = (SExec ws, rs)" and ok: "ast_ok c"
  shows "exec_reads c"
  unfolding exec_reads_def
proof (intro allI impI, elim conjE)
  fix n b s t assume h: "drop s b = print c 3 @ t" "s \<le> length b" "stops ends t" "4 * (length b - s) + 2 \<le> (n :: nat)"
  obtain n1 where n: "n = Suc n1" using h(4) by (cases n) auto
  note U = unredir [OF u]
  have ws: "\<forall>w \<in> set ws. word w" "length ws < 10" and rs: "\<forall>r \<in> set rs. redir_ok r" using U(5) [OF ok] by auto
  have d: "drop s b = pr_words ws @ pr_redirs rs @ t" using h(1) U(2) by simp
  have nd: "nws (drop s b)" unfolding d using ws rs by (intro nws_words nws_redirs ends_nws h(3)) auto
  have "\<not> hd (drop s b) = 40" if "drop s b \<noteq> []"
  proof (cases ws)
    case Nil
    show ?thesis
    proof (cases rs)
      case Nil
      then show ?thesis using \<open>ws = []\<close> d h(3) that by (auto simp: pr_words_def stops_def)
    qed (use \<open>ws = []\<close> d in \<open>simp add: pr_words_def pr_redir_def\<close>)
  next
    case (Cons w v)
    then show ?thesis using ws(1) d by (cases w) (auto simp: pr_words_def word_def symbols_def)
  qed
  then have p: "peek b s [40] = (False, s)" using peek_at [OF nd, of "[40]"] by auto
  show "\<exists>c'. parseexec n b s = Inr (c', s + length (print c 3)) \<and> text_of b c' = c"
  proof (cases "ws = []")
    case True
    have t: "nws t" "\<not> (t \<noteq> [] \<and> hd t \<in> {60, 62})" using ends_nws [OF h(3)] h(3) by (auto simp: stops_def)
    obtain c' where c': "parseredirs b (EXEC []) s = Inr (c', s + length (pr_redirs rs))" "text_of b c' = foldl wrap (SExec []) rs"
      using redirs_print [of s b rs t "EXEC []"] d True rs t by (auto simp: pr_words_def)
    have "drop (s + length (pr_redirs rs)) b = t" using drop_next [of s b "pr_redirs rs" t] d True by (simp add: pr_words_def)
    then show ?thesis using p c' args_stop [OF _ h(3)] True U(1,2) n by (auto simp: pr_words_def)
  next
    case False
    have nr: "\<not> hd (drop s b) \<in> {60, 62}" using ws(1) False unfolding d by (cases ws; cases "hd ws") (auto simp: pr_words_def word_def symbols_def)
    have "parseredirs b (EXEC []) s = Inr (EXEC [], s)" using nr by (intro no_redirs [OF nd]) blast
    then show ?thesis using p args_print [OF d ws(1) rs h(3) _ False, of 0 "[]"] ws(2) U(1,2) n by auto
  qed
qed


lemma print_nws: "ast_ok c \<Longrightarrow> nws t \<Longrightarrow> nws (print c k @ t)"
proof (induction c arbitrary: k t)
  case (SExec ws)
  then show ?case by (simp add: nws_words)
next
  case (SRedir c f m fd)
  have "nws (pr_redir f fd @ t)" by (simp add: pr_redir_def whitespace_def)
  then show ?case using SRedir by simp
qed (simp_all add: bracket_def whitespace_def)

lemma drop_len:
  assumes "drop s b = x @ t" "s \<le> length b"
  shows "length b - s = length x + length t" "s + length x \<le> length b"
  using arg_cong [OF assms(1), of length] assms(2) by simp_all

lemma sym_step:
  assumes d: "drop s b = c # 32 # t" and t: "nws t" and c: "c \<in> set symbols" "c \<in> set ts" "0 \<notin> set ts"
  shows "peek b s ts = (True, s)" "gettoken b s = (c, s, s + 1, s + 2)" "drop (s + 2) b = t"
proof -
  show "gettoken b s = (c, s, s + 1, s + 2)" by (rule gettoken_sym [OF d c(1) t])
  show "peek b s ts = (True, s)" using peek_at [of s b ts] symbol_facts(1) [OF c(1)] c d by simp
  show "drop (s + 2) b = t" using drop_next [of s b "[c, 32]"] d by simp
qed

fun is_exec :: "ast \<Rightarrow> bool" where
  "is_exec (SExec ws) = True"
| "is_exec c = False"

lemma print_block: "\<not> is_exec c \<Longrightarrow> \<not> is_redir c \<Longrightarrow> print c 3 = [40, 32] @ print c 0 @ [41, 32]"
  by (cases c) (simp_all add: bracket_def)

lemma exec_of_line:
  assumes u: "unredir c = (c0, rs)" and ne: "\<not> is_exec c0" and l: "line_reads c0" and ok: "ast_ok c"
  shows "exec_reads c"
  unfolding exec_reads_def
proof (intro allI impI, elim conjE)
  fix n b s t assume h: "drop s b = print c 3 @ t" "s \<le> length b" "stops ends t" "4 * (length b - s) + 2 \<le> (n :: nat)"
  note U = unredir [OF u]
  let ?p = "print c0 0"
  have rs: "\<forall>r \<in> set rs. redir_ok r" and ok0: "ast_ok c0" using U(5) [OF ok] by auto
  have t: "nws t" "\<not> (t \<noteq> [] \<and> hd t \<in> {60, 62})" using ends_nws [OF h(3)] h(3) by (auto simp: stops_def)
  have u1: "nws (pr_redirs rs @ t)" by (rule nws_redirs [OF t(1)])
  have p: "print c 3 = [40, 32] @ ?p @ [41, 32] @ pr_redirs rs" using U(2) print_block [OF ne U(3)] by simp
  have d: "drop s b = 40 # 32 # ?p @ 41 # 32 # pr_redirs rs @ t" using h(1) p by simp
  have n0: "nws (?p @ 41 # 32 # pr_redirs rs @ t)" using ok0 by (intro print_nws) (simp_all add: whitespace_def)
  have m40: "(40 :: u8) \<in> set symbols" "(41 :: u8) \<in> set symbols" by (simp_all add: symbols_def)
  have S: "peek b s [40] = (True, s)" "gettoken b s = (40, s, s + 1, s + 2)" "drop (s + 2) b = ?p @ 41 # 32 # pr_redirs rs @ t"
    using sym_step [OF d n0 m40(1), of "[40]"] by simp_all
  have len: "length b - s \<ge> 4" using arg_cong [OF d, of length] by simp
  obtain n2 where n: "n = Suc (Suc n2)" using h(4) len by (cases n; cases "n - 1") auto
  have le: "s + 2 \<le> length b" "4 * (length b - (s + 2)) + 4 \<le> n2" using len h(4) n by auto
  obtain c1 where c1: "parseline n2 b (s + 2) = Inr (c1, s + 2 + length ?p)" "text_of b c1 = c0"
    using l [unfolded line_reads_def, rule_format, of "s + 2" b "41 # 32 # pr_redirs rs @ t" n2] S(3) le by auto
  have d2: "drop (s + 2 + length ?p) b = 41 # 32 # pr_redirs rs @ t" by (rule drop_next) (rule S(3))
  let ?s = "s + 2 + length ?p"
  have S2: "peek b ?s [41] = (True, ?s)" "gettoken b ?s = (41, ?s, ?s + 1, ?s + 2)" "drop (?s + 2) b = pr_redirs rs @ t"
    using sym_step [OF d2 u1 m40(2), of "[41]"] by simp_all
  obtain c' where c': "parseredirs b c1 (s + 2 + length ?p + 2) = Inr (c', s + 2 + length ?p + 2 + length (pr_redirs rs))"
      "text_of b c' = foldl wrap (text_of b c1) rs"
    using redirs_print [of "s + 2 + length ?p + 2" b rs t c1] S2(3) rs t by auto
  have "parseexec n b s = Inr (c', s + 2 + length ?p + 2 + length (pr_redirs rs))"
    using S S2 c1(1) c'(1) by (simp add: n)
  then show "\<exists>c'. parseexec n b s = Inr (c', s + length (print c 3)) \<and> text_of b c' = c"
    using c'(2) c1(2) U(1) p by auto
qed


lemma peek_not: "drop s b = t \<Longrightarrow> nws t \<Longrightarrow> \<not> (t \<noteq> [] \<and> hd t \<in> set ts) \<Longrightarrow> 0 \<notin> set ts \<Longrightarrow> peek b s ts = (False, s)"
  using peek_at [of s b ts] by auto

fun is_pipe :: "ast \<Rightarrow> bool" where
  "is_pipe (SPipe l r) = True"
| "is_pipe c = False"

lemma pipe_of_exec:
  assumes "exec_reads c" "\<not> is_pipe c"
  shows "pipe_reads c"
  unfolding pipe_reads_def
proof (intro allI impI, elim conjE)
  fix n b s t assume h: "drop s b = print c 2 @ t" "s \<le> length b" "stops {41, 38, 59} t" "4 * (length b - s) + 3 \<le> (n :: nat)"
  have e: "print c 2 = print c 3" using assms(2) by (cases c) (simp_all add: bracket_def)
  obtain n1 where n: "n = Suc n1" using h(4) by (cases n) auto
  have t: "stops ends t" "nws t" using h(3) by (auto simp: stops_def intro!: stops_nws [OF h(3)] simp: symbols_def)
  obtain c' where c': "parseexec n1 b s = Inr (c', s + length (print c 3))" "text_of b c' = c"
    using assms(1) [unfolded exec_reads_def, rule_format, of s b t n1] h t n e by auto
  have "peek b (s + length (print c 3)) [124] = (False, s + length (print c 3))"
    using h(3) by (intro peek_not [OF drop_next [OF h(1) [unfolded e]] t(2)]) (auto simp: stops_def)
  then show "\<exists>c'. parsepipe n b s = Inr (c', s + length (print c 2)) \<and> text_of b c' = c" using c' n e by simp
qed

lemma pipe_of_pipe:
  assumes "exec_reads l" "pipe_reads r" "ast_ok r"
  shows "pipe_reads (SPipe l r)"
  unfolding pipe_reads_def
proof (intro allI impI, elim conjE)
  fix n b s t assume h: "drop s b = print (SPipe l r) 2 @ t" "s \<le> length b" "stops {41, 38, 59} t" "4 * (length b - s) + 3 \<le> (n :: nat)"
  obtain n1 where n: "n = Suc n1" using h(4) by (cases n) auto
  have d: "drop s b = print l 3 @ 124 # 32 # print r 2 @ t" using h(1) by (simp add: bracket_def)
  have t: "nws t" by (rule stops_nws [OF h(3)]) (simp add: symbols_def)
  let ?s = "s + length (print l 3)"
  obtain l' where l': "parseexec n1 b s = Inr (l', ?s)" "text_of b l' = l"
    using assms(1) [unfolded exec_reads_def, rule_format, of s b "124 # 32 # print r 2 @ t" n1] d h n by auto
  have S: "peek b ?s [124] = (True, ?s)" "gettoken b ?s = (124, ?s, ?s + 1, ?s + 2)" "drop (?s + 2) b = print r 2 @ t"
    using sym_step [OF drop_next [OF d] print_nws [OF assms(3) t], of "[124]"] by (simp_all add: symbols_def)
  have len: "?s + 2 \<le> length b" "4 * (length b - (?s + 2)) + 3 \<le> n1" using drop_len [OF d h(2)] h(4) n by auto
  obtain r' where r': "parsepipe n1 b (?s + 2) = Inr (r', ?s + 2 + length (print r 2))" "text_of b r' = r"
    using assms(2) [unfolded pipe_reads_def, rule_format, of "?s + 2" b t n1] S(3) len h(3) by auto
  show "\<exists>c'. parsepipe n b s = Inr (c', s + length (print (SPipe l r) 2)) \<and> text_of b c' = SPipe l r"
    using l' S r' by (simp add: n bracket_def)
qed

fun unback :: "ast \<Rightarrow> ast \<times> nat" where
  "unback (SBack c) = (let (c0, k) = unback c in (c0, Suc k))"
| "unback c = (c, 0)"

fun backs :: "nat \<Rightarrow> cmd \<Rightarrow> cmd" where
  "backs 0 c = c"
| "backs (Suc k) c = backs k (BACK c)"

definition amps :: "nat \<Rightarrow> u8 list" where
  "amps k = concat (replicate k [38, 32])"

lemma backs_BACK: "backs k (BACK c) = BACK (backs k c)"
  by (induction k arbitrary: c) simp_all

lemma amps_snoc: "amps (Suc k) = amps k @ [38, 32]"
  by (induction k) (simp_all add: amps_def)

lemma unback:
  assumes "unback c = (c0, k)"
  shows "print c 1 = print c0 2 @ amps k" "text_of b d = c0 \<Longrightarrow> text_of b (backs k d) = c" "size c0 \<le> size c"
    "ast_ok c \<Longrightarrow> ast_ok c0" "is_pipe c0 \<Longrightarrow> k = 0 \<Longrightarrow> is_pipe c"
proof -
  show "print c 1 = print c0 2 @ amps k" using assms
    by (induction c arbitrary: c0 k rule: unback.induct) (auto simp: bracket_def amps_snoc amps_def [of 0] split: prod.splits)
  show "text_of b (backs k d) = c" if "text_of b d = c0" using assms that
    by (induction c arbitrary: c0 k rule: unback.induct) (auto simp: backs_BACK split: prod.splits)
  show "size c0 \<le> size c" "ast_ok c \<Longrightarrow> ast_ok c0" "is_pipe c0 \<Longrightarrow> k = 0 \<Longrightarrow> is_pipe c" using assms
    by (induction c arbitrary: c0 k rule: unback.induct) (auto split: prod.splits)
qed

lemma backs_print:
  assumes "drop s b = amps k @ t" "nws t" "\<not> (t \<noteq> [] \<and> hd t = 38)"
  shows "parse_backs b c s = (backs k c, s + length (amps k))"
  using assms(1)
proof (induction k arbitrary: c s)
  case 0
  then show ?case using peek_not [of s b t "[38]"] assms by (auto simp: parse_backs.simps [of b c s] amps_def)
next
  case (Suc k)
  have "nws (amps k @ t)" using assms(2) by (cases k) (auto simp: amps_def whitespace_def)
  then have S: "peek b s [38] = (True, s)" "gettoken b s = (38, s, s + 1, s + 2)" "drop (s + 2) b = amps k @ t"
    using sym_step [of s b 38 "amps k @ t" "[38]"] Suc.prems by (simp_all add: amps_def symbols_def)
  show ?case using S Suc.IH [OF S(3)] by (simp add: parse_backs.simps [of b c s] amps_def)
qed


lemma line_head:
  assumes u: "unback c = (c0, k)" and p: "pipe_reads c0" and d: "drop s b = print c 1 @ t" "s \<le> length b"
    and t: "stops {41, 59} t" and n: "4 * (length b - s) + 3 \<le> n"
  shows "\<exists>c1 s1 c'. parsepipe n b s = Inr (c1, s1) \<and> parse_backs b c1 s1 = (c', s + length (print c 1)) \<and> text_of b c' = c"
proof -
  note U = unback [OF u]
  have t1: "nws t" by (rule stops_nws [OF t]) (simp add: symbols_def)
  have d': "drop s b = print c0 2 @ amps k @ t" using d(1) U(1) by simp
  have st: "stops {41, 38, 59} (amps k @ t)" using t by (cases k) (auto simp: amps_def stops_def)
  obtain c1 where c1: "parsepipe n b s = Inr (c1, s + length (print c0 2))" "text_of b c1 = c0"
    using p [unfolded pipe_reads_def, rule_format, of s b "amps k @ t" n] d' d(2) st n by auto
  have "parse_backs b c1 (s + length (print c0 2)) = (backs k c1, s + length (print c0 2) + length (amps k))"
    by (rule backs_print [OF drop_next [OF d'] t1]) (use t in \<open>auto simp: stops_def\<close>)
  then show ?thesis using c1 U(1) U(2) [of b c1] by auto
qed

fun is_list :: "ast \<Rightarrow> bool" where
  "is_list (SList l r) = True"
| "is_list c = False"

lemma line_of_pipe:
  assumes "unback c = (c0, k)" "pipe_reads c0" "\<not> is_list c"
  shows "line_reads c"
  unfolding line_reads_def
proof (intro allI impI, elim conjE)
  fix n b s t assume h: "drop s b = print c 0 @ t" "s \<le> length b" "stops {41} t" "4 * (length b - s) + 4 \<le> (n :: nat)"
  have e: "print c 0 = print c 1" using assms(3) by (cases c) (simp_all add: bracket_def)
  obtain n1 where n: "n = Suc n1" using h(4) by (cases n) auto
  have t: "nws t" by (rule stops_nws [OF h(3)]) (simp add: symbols_def)
  have t2: "stops {41, 59} t" using h(3) by (auto simp: stops_def)
  have n1: "4 * (length b - s) + 3 \<le> n1" using h(4) n by simp
  obtain c1 s1 c' where c: "parsepipe n1 b s = Inr (c1, s1)" "parse_backs b c1 s1 = (c', s + length (print c 1))" "text_of b c' = c"
    using line_head [OF assms(1,2) h(1) [unfolded e] h(2) t2 n1] by blast
  have "peek b (s + length (print c 1)) [59] = (False, s + length (print c 1))"
    using h(3) by (intro peek_not [OF drop_next [OF h(1) [unfolded e]] t]) (auto simp: stops_def)
  then show "\<exists>c'. parseline n b s = Inr (c', s + length (print c 0)) \<and> text_of b c' = c" using c n e by simp
qed

lemma line_of_list:
  assumes "unback l = (c0, k)" "pipe_reads c0" "line_reads r" "ast_ok r"
  shows "line_reads (SList l r)"
  unfolding line_reads_def
proof (intro allI impI, elim conjE)
  fix n b s t assume h: "drop s b = print (SList l r) 0 @ t" "s \<le> length b" "stops {41} t" "4 * (length b - s) + 4 \<le> (n :: nat)"
  have d: "drop s b = print l 1 @ 59 # 32 # print r 0 @ t" using h(1) by (simp add: bracket_def)
  obtain n1 where n: "n = Suc n1" using h(4) by (cases n) auto
  have t: "nws t" by (rule stops_nws [OF h(3)]) (simp add: symbols_def)
  have n1: "4 * (length b - s) + 3 \<le> n1" using h(4) n by simp
  let ?s = "s + length (print l 1)"
  obtain c1 s1 c' where c: "parsepipe n1 b s = Inr (c1, s1)" "parse_backs b c1 s1 = (c', ?s)" "text_of b c' = l"
    using line_head [OF assms(1,2) d h(2) _ n1] by auto
  have S: "peek b ?s [59] = (True, ?s)" "gettoken b ?s = (59, ?s, ?s + 1, ?s + 2)" "drop (?s + 2) b = print r 0 @ t"
    using sym_step [OF drop_next [OF d] print_nws [OF assms(4) t], of "[59]"] by (simp_all add: symbols_def)
  have len: "?s + 2 \<le> length b" "4 * (length b - (?s + 2)) + 4 \<le> n1" using drop_len [OF d h(2)] h(4) n by auto
  obtain r' where r': "parseline n1 b (?s + 2) = Inr (r', ?s + 2 + length (print r 0))" "text_of b r' = r"
    using assms(3) [unfolded line_reads_def, rule_format, of "?s + 2" b t n1] S(3) len h(3) by auto
  show "\<exists>c'. parseline n b s = Inr (c', s + length (print (SList l r) 0)) \<and> text_of b c' = SList l r"
    using c S r' by (simp add: n bracket_def)
qed

lemma unback_plain: "\<not> (\<exists>d. c = SBack d) \<Longrightarrow> unback c = (c, 0)"
  by (cases c) auto

lemma reads: "ast_ok c \<Longrightarrow> exec_reads c \<and> pipe_reads c \<and> line_reads c"
proof (induction "size c" arbitrary: c rule: less_induct)
  case less
  have IH: "exec_reads d" "pipe_reads d" "line_reads d" if "size d < size c" "ast_ok d" for d using less.hyps that by blast+
  obtain c0 rs where u: "unredir c = (c0, rs)" by force
  note U = unredir [OF u]
  have block: "line_reads c \<Longrightarrow> \<not> is_redir c \<Longrightarrow> \<not> is_exec c \<Longrightarrow> exec_reads c"
    using exec_of_line [of c c "[]"] less.prems by (cases c) auto
  have simple: "exec_reads c \<Longrightarrow> \<not> is_pipe c \<Longrightarrow> \<not> is_list c \<Longrightarrow> \<not> (\<exists>d. c = SBack d) \<Longrightarrow> pipe_reads c \<and> line_reads c"
    using pipe_of_exec line_of_pipe [OF unback_plain] by blast
  show ?case
  proof (cases c)
    case (SExec ws)
    then have "exec_reads c" using exec_reads_simple [OF _ less.prems] by simp
    then show ?thesis using simple SExec by auto
  next
    case (SRedir d f m fd)
    have "exec_reads c"
    proof (cases c0)
      case (SExec ws)
      then show ?thesis using exec_reads_simple u less.prems by simp
    qed (use exec_of_line [OF u _ IH(3) less.prems] U(3,5,6) less.prems SRedir in auto)
    then show ?thesis using simple SRedir by auto
  next
    case (SPipe l r)
    have "pipe_reads c" unfolding SPipe using SPipe less.prems by (intro pipe_of_pipe IH) auto
    moreover from this have "line_reads c" using line_of_pipe [OF unback_plain] SPipe by auto
    ultimately show ?thesis using block SPipe by simp
  next
    case (SList l r)
    obtain d k where b: "unback l = (d, k)" by force
    have "line_reads c" unfolding SList using line_of_list [OF b IH(2) IH(3)] unback(3,4) [OF b] SList less.prems by auto
    then show ?thesis using block pipe_of_exec [of c] SList by simp
  next
    case (SBack d)
    obtain e k where b: "unback d = (e, k)" by force
    then have "unback c = (e, Suc k)" using SBack by simp
    then have "line_reads c" using line_of_pipe [OF _ IH(2)] unback(3,4) [OF b] SBack less.prems by auto
    then show ?thesis using block pipe_of_exec [of c] SBack by simp
  qed
qed

lemma print_nul: "ast_ok c \<Longrightarrow> 0 \<notin> set (print c k)"
  by (induction c arbitrary: k) (auto simp: pr_words_def pr_redir_def word_def bracket_def)

definition strings_of :: "u8 list \<Rightarrow> cmd \<Rightarrow> ast" where
  "strings_of m c = ast_of (\<lambda>t. cstr m (fst t)) c"

lemma parsecmd_print:
  assumes "ast_ok c"
  shows "\<exists>c' m. parsecmd (print c 0) = Inr (c', m) \<and> strings_of m c' = c"
proof -
  let ?b = "print c 0"
  obtain c' where c': "parseline (4 * length ?b + 4) ?b 0 = Inr (c', length ?b)" "text_of ?b c' = c"
    using reads [OF assms] unfolding line_reads_def by (metis add_0 append_Nil2 drop0 le0 minus_nat.diff_0 order_refl stops_simps(1))
  have "peek ?b (length ?b) [] = (False, length ?b)" using peek_not [of "length ?b" ?b "[]" "[]"] by simp
  then have p: "parsecmd ?b = Inr (c', nulterminate c' (?b @ [0]))" using c'(1) by (simp add: parsecmd_def)
  have "strings_of (nulterminate c' (?b @ [0])) c' = text_of ?b c'"
    unfolding strings_of_def by (rule ast_of_cong) (rule parsecmd_tokens(2) [OF p print_nul [OF assms]])
  then show ?thesis using p c'(2) by auto
qed


section \<open>What a command runs\<close>

text \<open>
  The open files of a process, by descriptor. Every system call is taken to succeed while there are descriptors; a call that
  returns a new one takes the lowest that is free. The meaning of a process is the list of programs it and its children
  execute, with their arguments and open files, and the number of the next pipe.
\<close>

datatype obj = Std nat | File "u8 list" int | PipeR nat | PipeW nat

type_synonym fds = "nat \<Rightarrow> obj option"
type_synonym runs = "(u8 list \<times> u8 list list \<times> fds) list \<times> nat"

definition lowest :: "fds \<Rightarrow> nat option" where
  "lowest fds = find (\<lambda>d. fds d = None) [0..<16]"

definition new_fd :: "obj option \<Rightarrow> fds \<Rightarrow> (nat \<times> fds) option" where
  "new_fd x fds = (case lowest fds of None \<Rightarrow> None | Some d \<Rightarrow> Some (d, fds(d := x)))"

definition seq_runs :: "(nat \<Rightarrow> runs) \<Rightarrow> (nat \<Rightarrow> runs) \<Rightarrow> nat \<Rightarrow> runs" where
  "seq_runs f g n = (let (xs, n) = f n; (ys, n) = g n in (xs @ ys, n))"

primrec sem :: "prog \<Rightarrow> fds \<Rightarrow> nat \<Rightarrow> runs" where
  "sem Exit fds n = ([], n)"
| "sem (Exec path argv p) fds n = ([(path, argv, fds)], n)"
| "sem (Print cs p) fds n = sem p fds n"
| "sem (Close d p) fds n = sem p (fds(d := None)) n"
| "sem (Open f m p q) fds n =
     (case new_fd (Some (File f m)) fds of None \<Rightarrow> sem q fds n | Some (_, fds) \<Rightarrow> sem p fds n)"
| "sem (Fork c p q) fds n = seq_runs (sem c fds) (sem p fds) n"
| "sem (Wait p) fds n = sem p fds n"
| "sem (Pipe k p) fds n =
     (case new_fd (Some (PipeR n)) fds of
        None \<Rightarrow> sem p fds n
      | Some (d0, fds0) \<Rightarrow>
          (case new_fd (Some (PipeW n)) fds0 of None \<Rightarrow> sem p fds n | Some (d1, fds1) \<Rightarrow> sem (k (d0, d1)) fds1 (Suc n)))"
| "sem (Dup d p) fds n = (case new_fd (fds d) fds of None \<Rightarrow> sem p fds n | Some (_, fds) \<Rightarrow> sem p fds n)"

text \<open>
  What a command line means: a redirection replaces standard input or output, a pipeline connects the output of its
  left side to the input of its right side.
\<close>

primrec runs :: "ast \<Rightarrow> fds \<Rightarrow> nat \<Rightarrow> runs" where
  "runs (SExec ws) fds n = (if ws = [] then [] else [(hd ws, ws, fds)], n)"
| "runs (SRedir c f m fd) fds n = runs c (fds(nat fd \<mapsto> File f m)) n"
| "runs (SPipe l r) fds n = seq_runs (runs l (fds(1 \<mapsto> PipeW n))) (runs r (fds(0 \<mapsto> PipeR n))) (Suc n)"
| "runs (SList l r) fds n = seq_runs (runs l fds) (runs r fds) n"
| "runs (SBack c) fds n = runs c fds n"

definition std :: "fds \<Rightarrow> bool" where
  "std fds \<longleftrightarrow> (\<forall>d. fds d \<noteq> None \<longleftrightarrow> d < 3)"

lemma std_upd: "std fds \<Longrightarrow> d < 3 \<Longrightarrow> std (fds(d \<mapsto> x))"
  by (auto simp: std_def)

lemma lowest_eq: "d < 16 \<Longrightarrow> fds d = None \<Longrightarrow> (\<And>e. e < d \<Longrightarrow> fds e \<noteq> None) \<Longrightarrow> lowest fds = Some d"
  unfolding lowest_def by (subst find_Some_iff) (auto intro!: exI [of _ d])

lemma new_fd_eq: "d < 16 \<Longrightarrow> fds d = None \<Longrightarrow> (\<And>e. e < d \<Longrightarrow> fds e \<noteq> None) \<Longrightarrow> new_fd x fds = Some (d, fds(d := x))"
  using lowest_eq [of d fds] by (simp add: new_fd_def)

lemma seq_runs_nil [simp]: "seq_runs f (\<lambda>n. ([], n)) n = f n"
  by (simp add: seq_runs_def split: prod.splits)

lemma pipe_fds:
  assumes "std fds"
  shows "new_fd (Some x) fds = Some (3, fds(3 \<mapsto> x))" "new_fd (Some y) (fds(3 \<mapsto> x)) = Some (4, fds(3 \<mapsto> x, 4 \<mapsto> y))"
    "d < 3 \<Longrightarrow> new_fd z ((fds(3 \<mapsto> x, 4 \<mapsto> y))(d := None)) = Some (d, fds(3 \<mapsto> x, 4 \<mapsto> y, d := z))"
    "d < 3 \<Longrightarrow> (fds(3 \<mapsto> x, 4 \<mapsto> y, d := z))(3 := None, 4 := None) = fds(d := z)"
proof -
  have o: "fds e \<noteq> None" if "e < 3" for e using assms that by (simp add: std_def)
  have c: "fds e = None" if "3 \<le> e" for e using assms that by (auto simp: std_def not_less [symmetric])
  show "new_fd (Some x) fds = Some (3, fds(3 \<mapsto> x))" using o c by (intro new_fd_eq) auto
  show "new_fd (Some y) (fds(3 \<mapsto> x)) = Some (4, fds(3 \<mapsto> x, 4 \<mapsto> y))"
    by (rule new_fd_eq) (use o c in \<open>auto simp: less_Suc_eq numeral_eq_Suc\<close>)
  show "new_fd z ((fds(3 \<mapsto> x, 4 \<mapsto> y))(d := None)) = Some (d, fds(3 \<mapsto> x, 4 \<mapsto> y, d := z))" if "d < 3"
    using new_fd_eq [of d "(fds(3 \<mapsto> x, 4 \<mapsto> y))(d := None)" z] o that by (auto simp: fun_upd_twist)
  show "(fds(3 \<mapsto> x, 4 \<mapsto> y, d := z))(3 := None, 4 := None) = fds(d := z)" if "d < 3"
    using c that by (auto simp: fun_eq_iff)
qed


lemma redir_fds:
  assumes "std fds" "d < 3"
  shows "new_fd x (fds(d := None)) = Some (d, fds(d := x))"
  using assms new_fd_eq [of d "fds(d := None)" x] by (auto simp: std_def)

lemma sem_pipe:
  assumes "std fds"
  shows "sem (runcmd m (PIPE l r)) fds n
    = seq_runs (sem (runcmd m l) (fds(1 \<mapsto> PipeW n))) (sem (runcmd m r) (fds(0 \<mapsto> PipeR n))) (Suc n)"
proof -
  let ?f = "fds(3 \<mapsto> PipeR n, 4 \<mapsto> PipeW n)"
  note P = pipe_fds [OF assms]
  have "sem (runcmd m (PIPE l r)) fds n =
    seq_runs (sem (Close 1 (Dup 4 (Close 3 (Close 4 (runcmd m l))))) ?f)
     (seq_runs (sem (Close 0 (Dup 3 (Close 3 (Close 4 (runcmd m r))))) ?f) (sem (Close 3 (Close 4 (Wait (Wait Exit)))) ?f)) (Suc n)"
    using P(1,2) by (simp add: fork1_def seq_runs_def)
  moreover have "sem (Close 1 (Dup 4 (Close 3 (Close 4 p)))) ?f k = sem p (fds(1 \<mapsto> PipeW n)) k" for p k
    using P(3) [of 1 "Some (PipeW n)" "PipeR n" "PipeW n"] P(4) [of 1 "PipeR n" "PipeW n" "Some (PipeW n)"] by simp
  moreover have "sem (Close 0 (Dup 3 (Close 3 (Close 4 p)))) ?f k = sem p (fds(0 \<mapsto> PipeR n)) k" for p k
    using P(3) [of 0 "Some (PipeR n)" "PipeR n" "PipeW n"] P(4) [of 0 "PipeR n" "PipeW n" "Some (PipeR n)"] by simp
  moreover have "sem (Close 3 (Close 4 (Wait (Wait Exit)))) ?f = (\<lambda>n. ([], n))" by (rule ext) simp
  ultimately show ?thesis by (simp add: seq_runs_def)
qed

lemma runcmd_runs: "args_ok c \<Longrightarrow> std fds \<Longrightarrow> sem (runcmd m c) fds n = runs (strings_of m c) fds n"
proof (induction c arbitrary: fds n)
  case (EXEC as)
  then show ?case by (cases as) (simp_all add: strings_of_def)
next
  case (REDIR c q eq md fd)
  then have d: "nat fd < 3" by auto
  show ?case using REDIR redir_fds [OF REDIR.prems(2) d] std_upd [OF REDIR.prems(2) d] by (simp add: strings_of_def)
next
  case (PIPE l r)
  have "sem (runcmd m l) (fds(1 \<mapsto> PipeW n)) = runs (strings_of m l) (fds(1 \<mapsto> PipeW n))"
    "sem (runcmd m r) (fds(0 \<mapsto> PipeR n)) = runs (strings_of m r) (fds(0 \<mapsto> PipeR n))"
    using PIPE std_upd by (auto intro!: ext)
  then show ?case using PIPE.prems(2) by (simp add: sem_pipe strings_of_def del: runcmd.simps)
next
  case (LIST l r)
  then have "sem (runcmd m l) fds = runs (strings_of m l) fds" "sem (runcmd m r) fds = runs (strings_of m r) fds" by (auto intro!: ext)
  then show ?case by (simp add: fork1_def strings_of_def seq_runs_def)
next
  case (BACK c)
  then have "sem (runcmd m c) fds = runs (strings_of m c) fds" by (auto intro!: ext)
  then show ?case by (simp add: fork1_def strings_of_def seq_runs_def split: prod.splits)
qed

section \<open>Properties\<close>

text \<open>
  C25: the parser returns on every command line, with a command or a message: the recursion through brackets, lists and
  pipelines consumes a token before it calls itself again.
\<close>

theorem parsecmd_terminates: "parsecmd b \<noteq> Inl Spins"
  by (rule parsecmd_returns)

text \<open>
  C23: parsing is the inverse of printing. For every command whose words have no blanks, symbols or NUL bytes and whose
  simple commands have fewer than \<^verbatim>\<open>MAXARGS\<close> arguments, \<^verbatim>\<open>parsecmd\<close> on the printed text builds that command, and the
  strings it has terminated in the buffer are its words.
\<close>

theorem parse_print_roundtrip:
  assumes "ast_ok c"
  shows "\<exists>c' m. parsecmd (print c 0) = Inr (c', m) \<and> strings_of m c' = c"
  using assms by (rule parsecmd_print)

text \<open>The command line \<^verbatim>\<open>ls | wc > f\<close>.\<close>

definition demo_line :: ast where
  "demo_line = SPipe (SExec [[108, 115]]) (SRedir (SExec [[119, 99]]) [102] O_WRONLY_CREATE 1)"

definition demo_text :: "u8 list" where
  "demo_text = [108, 115, 32, 124, 32, 119, 99, 32, 62, 32, 102, 32]"

lemma demo_line: "ast_ok demo_line" "print demo_line 0 = demo_text"
  by (simp_all add: demo_line_def demo_text_def word_def bracket_def pr_words_def pr_redir_def whitespace_def symbols_def)

theorem parse_print_roundtrip_witness: "\<exists>c' m. parsecmd demo_text = Inr (c', m) \<and> strings_of m c' = demo_line"
  using parse_print_roundtrip [OF demo_line(1)] by (simp add: demo_line(2))



definition demo_fds :: fds where
  "demo_fds d = (if d < 3 then Some (Std d) else None)"


end
