(* ===== verification/Hw.thy ===== *)
theory Hw
  imports Trap Calm
begin

unbundle bit_operations_syntax

text \<open>
  The devices: interrupt controllers (\<^verbatim>\<open>lapic.c\<close>, \<^verbatim>\<open>ioapic.c\<close>, \<^verbatim>\<open>picirq.c\<close>), the clock chip (\<^verbatim>\<open>lapic.c\<close>) and the serial port
  (\<^verbatim>\<open>uart.c\<close>). What the hardware does is a parameter: the functions of an \<open>hw\<close> record say what an \<^verbatim>\<open>in\<close> or \<^verbatim>\<open>out\<close> instruction
  and an access to a device register give and how they change the state \<open>dev\<close> of the hardware.
\<close>

section \<open>The hardware\<close>

record 'c hw =
  hw_in :: "u16 \<Rightarrow> 'c \<Rightarrow> u8 \<times> 'c"
  hw_out :: "u16 \<Rightarrow> u8 \<Rightarrow> 'c \<Rightarrow> 'c"
  hw_ins :: "u16 \<Rightarrow> nat \<Rightarrow> 'c \<Rightarrow> u8 list \<times> 'c"
  hw_outs :: "u16 \<Rightarrow> u8 list \<Rightarrow> 'c \<Rightarrow> 'c"
  hw_read :: "u32 \<Rightarrow> 'c \<Rightarrow> u32 \<times> 'c"
  hw_write :: "u32 \<Rightarrow> u32 \<Rightarrow> 'c \<Rightarrow> 'c"

text \<open>
  The kernel with its devices: the pointer \<^verbatim>\<open>lapic\<close>, \<^verbatim>\<open>ioapicid\<close>, \<^verbatim>\<open>ncpu\<close>, the fields \<^verbatim>\<open>apicid\<close> and \<^verbatim>\<open>started\<close> of \<^verbatim>\<open>cpus\<close>,
  \<^verbatim>\<open>uart\<close>, the shift state of the keyboard, and the queue of the disk driver (\<open>qnext\<close> is the field of \<^verbatim>\<open>struct buf\<close>).
\<close>

record 'c board = kern +
  dev :: 'c
  lapic :: u32
  ioapicid :: u8
  ncpu :: int
  apicid :: "nat \<Rightarrow> u8"
  started :: "nat \<Rightarrow> bool"
  uart :: bool
  kbd_shift :: u32
  idequeue :: "nat option"
  qnext :: "nat \<Rightarrow> nat option"
  havedisk1 :: bool

definition inb :: "'c hw \<Rightarrow> u16 \<Rightarrow> 'c board \<Rightarrow> u8 \<times> 'c board" where
  "inb H port s = (let (v, c) = hw_in H port (dev s) in (v, s\<lparr>dev := c\<rparr>))"

definition outb :: "'c hw \<Rightarrow> u16 \<Rightarrow> u8 \<Rightarrow> 'c board \<Rightarrow> 'c board" where
  "outb H port v s = s\<lparr>dev := hw_out H port v (dev s)\<rparr>"

text \<open>The bytes of \<open>cnt\<close> double words.\<close>

definition insl :: "'c hw \<Rightarrow> u16 \<Rightarrow> nat \<Rightarrow> 'c board \<Rightarrow> u8 list \<times> 'c board" where
  "insl H port cnt s = (let (bs, c) = hw_ins H port cnt (dev s) in (bs, s\<lparr>dev := c\<rparr>))"

definition outsl :: "'c hw \<Rightarrow> u16 \<Rightarrow> u8 list \<Rightarrow> 'c board \<Rightarrow> 'c board" where
  "outsl H port bs s = s\<lparr>dev := hw_outs H port bs (dev s)\<rparr>"

definition mread :: "'c hw \<Rightarrow> u32 \<Rightarrow> 'c board \<Rightarrow> u32 \<times> 'c board" where
  "mread H a s = (let (v, c) = hw_read H a (dev s) in (v, s\<lparr>dev := c\<rparr>))"

definition mwrite :: "'c hw \<Rightarrow> u32 \<Rightarrow> u32 \<Rightarrow> 'c board \<Rightarrow> 'c board" where
  "mwrite H a v s = s\<lparr>dev := hw_write H a v (dev s)\<rparr>"

text \<open>Reading until the value is accepted; a wait that does not end is \<open>None\<close>.\<close>

partial_function (option) poll :: "('c \<Rightarrow> 'v \<times> 'c) \<Rightarrow> ('v \<Rightarrow> bool) \<Rightarrow> 'c \<Rightarrow> ('v \<times> 'c) option" where
  "poll rd P c = (let (v, c) = rd c in if P v then Some (v, c) else poll rd P c)"

declare poll.simps [code]

definition await :: "('c \<Rightarrow> 'v \<times> 'c) \<Rightarrow> ('v \<Rightarrow> bool) \<Rightarrow> 'c board \<Rightarrow> ('v \<times> 'c board) res" where
  "await rd P s = (case poll rd P (dev s) of None \<Rightarrow> Inl Spins | Some (v, c) \<Rightarrow> Inr (v, s\<lparr>dev := c\<rparr>))"

section \<open>The I/O APIC and the PIC\<close>

abbreviation (input) IOAPIC :: u32 where "IOAPIC \<equiv> 0xFEC00000"
abbreviation (input) REG_TABLE :: u32 where "REG_TABLE \<equiv> 0x10"
abbreviation (input) INT_DISABLED :: u32 where "INT_DISABLED \<equiv> 0x00010000"

definition ioapicread :: "'c hw \<Rightarrow> u32 \<Rightarrow> 'c board \<Rightarrow> u32 \<times> 'c board" where
  "ioapicread H reg s = mread H (IOAPIC + 16) (mwrite H IOAPIC reg s)"

definition ioapicwrite :: "'c hw \<Rightarrow> u32 \<Rightarrow> u32 \<Rightarrow> 'c board \<Rightarrow> 'c board" where
  "ioapicwrite H reg data s = mwrite H (IOAPIC + 16) data (mwrite H IOAPIC reg s)"

primrec ioapic_mask :: "'c hw \<Rightarrow> nat list \<Rightarrow> 'c board \<Rightarrow> 'c board" where
  "ioapic_mask H [] s = s"
| "ioapic_mask H (i # is) s =
     ioapic_mask H is (ioapicwrite H (REG_TABLE + 2 * of_nat i + 1) 0
       (ioapicwrite H (REG_TABLE + 2 * of_nat i) (INT_DISABLED OR (T_IRQ0 + of_nat i)) s))"

definition ioapicinit :: "'c hw \<Rightarrow> 'c board \<Rightarrow> 'c board res" where
  "ioapicinit H s =
     (let (ver, s) = ioapicread H 1 s;
          maxintr = drop_bit 16 ver AND 0xFF;
          (r, s) = ioapicread H 0 s;
          id = drop_bit 24 r
      in
      rbind (if id \<noteq> ucast (ioapicid s)
             then cprintf (chars ''ioapicinit: id isn't equal to ioapicid; not a MP'' @ [NL]) [] s
             else Inr s) (\<lambda>s.
      Inr (ioapic_mask H [0..<unat maxintr + 1] s)))"

definition ioapicenable :: "'c hw \<Rightarrow> u32 \<Rightarrow> int \<Rightarrow> 'c board \<Rightarrow> 'c board" where
  "ioapicenable H irq cpunum s =
     ioapicwrite H (REG_TABLE + 2 * irq + 1) (push_bit 24 (u32_of_int cpunum))
       (ioapicwrite H (REG_TABLE + 2 * irq) (T_IRQ0 + irq) s)"

definition picinit :: "'c hw \<Rightarrow> 'c board \<Rightarrow> 'c board" where
  "picinit H s = outb H 0xA1 0xFF (outb H 0x21 0xFF s)"

section \<open>The local APIC\<close>

text \<open>Register indices are in words.\<close>

abbreviation (input) ID :: u32 where "ID \<equiv> 0x0020 div 4"
abbreviation (input) VER :: u32 where "VER \<equiv> 0x0030 div 4"
abbreviation (input) TPR :: u32 where "TPR \<equiv> 0x0080 div 4"
abbreviation (input) EOI :: u32 where "EOI \<equiv> 0x00B0 div 4"
abbreviation (input) SVR :: u32 where "SVR \<equiv> 0x00F0 div 4"
abbreviation (input) ESR :: u32 where "ESR \<equiv> 0x0280 div 4"
abbreviation (input) ICRLO :: u32 where "ICRLO \<equiv> 0x0300 div 4"
abbreviation (input) ICRHI :: u32 where "ICRHI \<equiv> 0x0310 div 4"
abbreviation (input) TIMER :: u32 where "TIMER \<equiv> 0x0320 div 4"
abbreviation (input) PCINT :: u32 where "PCINT \<equiv> 0x0340 div 4"
abbreviation (input) LINT0 :: u32 where "LINT0 \<equiv> 0x0350 div 4"
abbreviation (input) LINT1 :: u32 where "LINT1 \<equiv> 0x0360 div 4"
abbreviation (input) LERROR :: u32 where "LERROR \<equiv> 0x0370 div 4"
abbreviation (input) TICR :: u32 where "TICR \<equiv> 0x0380 div 4"
abbreviation (input) TDCR :: u32 where "TDCR \<equiv> 0x03E0 div 4"

abbreviation (input) MASKED :: u32 where "MASKED \<equiv> 0x00010000"

definition lapicr :: "'c hw \<Rightarrow> u32 \<Rightarrow> 'c board \<Rightarrow> u32 \<times> 'c board" where
  "lapicr H index s = mread H (lapic s + 4 * index) s"

definition lapicw :: "'c hw \<Rightarrow> u32 \<Rightarrow> u32 \<Rightarrow> 'c board \<Rightarrow> 'c board" where
  "lapicw H index v s = snd (lapicr H ID (mwrite H (lapic s + 4 * index) v s))"

definition lapicinit :: "'c hw \<Rightarrow> 'c board \<Rightarrow> 'c board res" where
  "lapicinit H s =
     (if lapic s = 0 then Inr s
      else
        let s = lapicw H SVR (0x100 OR (T_IRQ0 + 31)) s;
            s = lapicw H TDCR 0x0000000B s;
            s = lapicw H TIMER (0x00020000 OR (T_IRQ0 + 0)) s;
            s = lapicw H TICR 10000000 s;
            s = lapicw H LINT0 MASKED s;
            s = lapicw H LINT1 MASKED s;
            (ver, s) = lapicr H VER s;
            s = (if drop_bit 16 ver AND 0xFF \<ge> 4 then lapicw H PCINT MASKED s else s);
            s = lapicw H LERROR (T_IRQ0 + 19) s;
            s = lapicw H ESR 0 s;
            s = lapicw H ESR 0 s;
            s = lapicw H EOI 0 s;
            s = lapicw H ICRHI 0 s;
            s = lapicw H ICRLO (0x00080000 OR 0x00000500 OR 0x00008000) s
        in
        rbind (await (hw_read H (lapic s + 4 * ICRLO)) (\<lambda>v. v AND 0x00001000 = 0) s) (\<lambda>(_, s).
        Inr (lapicw H TPR 0 s)))"

definition lapicid :: "'c hw \<Rightarrow> 'c board \<Rightarrow> u32 \<times> 'c board" where
  "lapicid H s =
     (if lapic s = 0 then (0, s)
      else let (v, s) = lapicr H ID s in (drop_bit 24 v, s))"

definition lapiceoi :: "'c hw \<Rightarrow> 'c board \<Rightarrow> 'c board" where
  "lapiceoi H s = (if lapic s \<noteq> 0 then lapicw H EOI 0 s else s)"

text \<open>The delay loop is empty.\<close>

definition microdelay :: "int \<Rightarrow> 's \<Rightarrow> 's" where
  "microdelay us s = s"

definition startup_ipi :: "'c hw \<Rightarrow> u8 \<Rightarrow> u32 \<Rightarrow> 'c board \<Rightarrow> 'c board" where
  "startup_ipi H aid addr s =
     microdelay 200 (lapicw H ICRLO (0x00000600 OR drop_bit 12 addr) (lapicw H ICRHI (push_bit 24 (ucast aid)) s))"

definition lapicstartap :: "'c hw \<Rightarrow> u8 \<Rightarrow> u32 \<Rightarrow> 'c board \<Rightarrow> 'c board" where
  "lapicstartap H aid addr s =
     (let s = outb H 0x70 0x0F s;
          s = outb H 0x71 0x0A s;
          wrv = P2V 0x467;
          s = s\<lparr>mem := store16 (store16 (mem s) wrv 0) (wrv + 2) (ucast (drop_bit 4 addr))\<rparr>;
          s = lapicw H ICRHI (push_bit 24 (ucast aid)) s;
          s = lapicw H ICRLO (0x00000500 OR 0x00008000 OR 0x00004000) s;
          s = microdelay 200 s;
          s = lapicw H ICRLO (0x00000500 OR 0x00008000) s;
          s = microdelay 100 s
      in startup_ipi H aid addr (startup_ipi H aid addr s))"

section \<open>The clock chip\<close>

definition cmos_read :: "'c hw \<Rightarrow> u8 \<Rightarrow> 'c \<Rightarrow> u32 \<times> 'c" where
  "cmos_read H reg c = (let (v, c) = hw_in H 0x71 (microdelay 200 (hw_out H 0x70 reg c)) in (ucast v, c))"

definition fill_rtcdate :: "'c hw \<Rightarrow> 'c \<Rightarrow> rtcdate \<times> 'c" where
  "fill_rtcdate H c =
     (let (a, c) = cmos_read H 0x00 c;
          (b, c) = cmos_read H 0x02 c;
          (d, c) = cmos_read H 0x04 c;
          (e, c) = cmos_read H 0x07 c;
          (f, c) = cmos_read H 0x08 c;
          (g, c) = cmos_read H 0x09 c
      in (\<lparr>second = a, minute = b, hour = d, day = e, month = f, year = g\<rparr>, c))"

partial_function (option) cmos_stable :: "'c hw \<Rightarrow> 'c \<Rightarrow> (rtcdate \<times> 'c) option" where
  "cmos_stable H c =
     (let (t1, c) = fill_rtcdate H c;
          (a, c) = cmos_read H 0x0a c
      in
      if a AND 0x80 \<noteq> 0 then cmos_stable H c
      else
        let (t2, c) = fill_rtcdate H c in
        if t1 = t2 then Some (t1, c) else cmos_stable H c)"

declare cmos_stable.simps [code]

definition bcd_conv :: "u32 \<Rightarrow> u32" where
  "bcd_conv x = drop_bit 4 x * 10 + (x AND 0xf)"

definition conv_rtcdate :: "rtcdate \<Rightarrow> rtcdate" where
  "conv_rtcdate t = \<lparr>second = bcd_conv (second t), minute = bcd_conv (minute t), hour = bcd_conv (hour t),
     day = bcd_conv (day t), month = bcd_conv (month t), year = bcd_conv (year t)\<rparr>"

definition cmostime :: "'c hw \<Rightarrow> 'c board \<Rightarrow> (rtcdate \<times> 'c board) res" where
  "cmostime H s =
     (let (b, c) = cmos_read H 0x0b (dev s);
          bcd = (b AND 4 = 0)
      in
      case cmos_stable H c of None \<Rightarrow> Inl Spins
      | Some (t, c) \<Rightarrow>
          let t = (if bcd then conv_rtcdate t else t) in
          Inr (t\<lparr>year := year t + 2000\<rparr>, s\<lparr>dev := c\<rparr>))"

section \<open>The serial port\<close>

abbreviation (input) COM1 :: u16 where "COM1 \<equiv> 0x3f8"

text \<open>Wait for the transmitter, \<open>n\<close> polls at most.\<close>

primrec uart_wait :: "'c hw \<Rightarrow> nat \<Rightarrow> 'c board \<Rightarrow> 'c board" where
  "uart_wait H 0 s = s"
| "uart_wait H (Suc n) s =
     (let (v, s) = inb H (COM1 + 5) s in
      if v AND 0x20 = 0 then uart_wait H n (microdelay 10 s) else s)"

definition uartputc :: "'c hw \<Rightarrow> int \<Rightarrow> 'c board \<Rightarrow> 'c board" where
  "uartputc H c s = (if \<not> uart s then s else outb H COM1 (word_of_int c) (uart_wait H 128 s))"

definition uartinit :: "'c hw \<Rightarrow> 'c board \<Rightarrow> 'c board" where
  "uartinit H s =
     (let s = outb H (COM1 + 2) 0 s;
          s = outb H (COM1 + 3) 0x80 s;
          s = outb H COM1 (word_of_int (115200 div 9600)) s;
          s = outb H (COM1 + 1) 0 s;
          s = outb H (COM1 + 3) 0x03 s;
          s = outb H (COM1 + 4) 0 s;
          s = outb H (COM1 + 1) 0x01 s;
          (st, s) = inb H (COM1 + 5) s
      in
      if st = 0xFF then s
      else
        let s = s\<lparr>uart := True\<rparr>;
            (_, s) = inb H (COM1 + 2) s;
            (_, s) = inb H COM1 s;
            s = ioapicenable H 4 0 s
        in fold (uartputc H) (chars ''xv6...'' @ [NL]) s)"

definition uartgetc :: "'c hw \<Rightarrow> 'c board \<Rightarrow> int \<times> 'c board" where
  "uartgetc H s =
     (if \<not> uart s then (- 1, s)
      else
        let (st, s) = inb H (COM1 + 5) s in
        if st AND 1 = 0 then (- 1, s)
        else let (v, s) = inb H COM1 s in (uint v, s))"

section \<open>Waiting for the hardware\<close>

text \<open>The state after \<open>n\<close> reads.\<close>

primrec reads :: "('c \<Rightarrow> 'v \<times> 'c) \<Rightarrow> nat \<Rightarrow> 'c \<Rightarrow> 'c" where
  "reads rd 0 c = c"
| "reads rd (Suc n) c = reads rd n (snd (rd c))"

lemma poll_step: "poll rd P c = (if P (fst (rd c)) then Some (rd c) else poll rd P (snd (rd c)))"
  by (subst poll.simps) (simp add: case_prod_beta)

text \<open>A wait ends if the hardware eventually shows an accepted value, with the first such value.\<close>

lemma poll_returns:
  "P (fst (rd (reads rd n c))) \<Longrightarrow>
   \<exists>k \<le> n. P (fst (rd (reads rd k c))) \<and> (\<forall>j < k. \<not> P (fst (rd (reads rd j c)))) \<and> poll rd P c = Some (rd (reads rd k c))"
proof (induction n arbitrary: c)
  case 0
  then show ?case using poll_step [of rd P c] by simp
next
  case (Suc n)
  show ?case
  proof (cases "P (fst (rd c))")
    case True
    then show ?thesis using poll_step [of rd P c] by (intro exI [of _ 0]) simp
  next
    case False
    then have e: "poll rd P c = poll rd P (snd (rd c))" using poll_step [of rd P c] by simp
    obtain k where k: "k \<le> n" "P (fst (rd (reads rd k (snd (rd c)))))" "\<forall>j < k. \<not> P (fst (rd (reads rd j (snd (rd c)))))"
      "poll rd P (snd (rd c)) = Some (rd (reads rd k (snd (rd c))))" using Suc.IH [of "snd (rd c)"] Suc.prems by auto
    have "\<forall>j < Suc k. \<not> P (fst (rd (reads rd j c)))" using False k(3) by (auto simp: less_Suc_eq_0_disj)
    then show ?thesis using k e by (intro exI [of _ "Suc k"]) simp
  qed
qed

text \<open>
  The clock: while register \<open>r\<close> of the chip shows \<open>R r\<close> and no update is in progress, \<^verbatim>\<open>cmostime\<close> returns the date in the
  registers, with two decimal digits per register in binary coded decimal mode.
\<close>

lemma bcd_digits: "a < 10 \<Longrightarrow> b < 10 \<Longrightarrow> bcd_conv (push_bit 4 (of_nat a) OR of_nat b) = of_nat (10 * a + b)"
proof -
  have "\<forall>a \<in> set [0..<10]. \<forall>b \<in> set [0..<10]. bcd_conv (push_bit 4 (of_nat a) OR of_nat b) = of_nat (10 * a + b)" by code_simp
  then show "a < 10 \<Longrightarrow> b < 10 \<Longrightarrow> bcd_conv (push_bit 4 (of_nat a) OR of_nat b) = of_nat (10 * a + b)" by simp
qed

lemma cmostime_reads:
  assumes chip: "\<And>r c. ok c \<Longrightarrow> fst (cmos_read H r c) = R r \<and> ok (snd (cmos_read H r c))" and s: "ok (dev s)"
    and idle: "R 0x0a AND 0x80 = 0"
  defines "t \<equiv> \<lparr>second = R 0, minute = R 2, hour = R 4, day = R 7, month = R 8, year = R 9\<rparr>"
  shows "\<exists>c. ok c \<and> cmostime H s = Inr (let t = (if R 0x0b AND 4 = 0 then conv_rtcdate t else t) in t\<lparr>year := year t + 2000\<rparr>, s\<lparr>dev := c\<rparr>)"
proof -
  have cr: "\<exists>c'. cmos_read H r c = (R r, c') \<and> ok c'" if "ok c" for r c
    using chip [OF that, of r] by (cases "cmos_read H r c") auto
  have fill: "\<exists>c'. fill_rtcdate H c = (t, c') \<and> ok c'" if oc: "ok c" for c
  proof -
    obtain c1 where r1: "cmos_read H 0 c = (R 0, c1)" "ok c1" using cr [OF oc] by blast
    obtain c2 where r2: "cmos_read H 2 c1 = (R 2, c2)" "ok c2" using cr [OF r1(2)] by blast
    obtain c3 where r3: "cmos_read H 4 c2 = (R 4, c3)" "ok c3" using cr [OF r2(2)] by blast
    obtain c4 where r4: "cmos_read H 7 c3 = (R 7, c4)" "ok c4" using cr [OF r3(2)] by blast
    obtain c5 where r5: "cmos_read H 8 c4 = (R 8, c5)" "ok c5" using cr [OF r4(2)] by blast
    obtain c6 where r6: "cmos_read H 9 c5 = (R 9, c6)" "ok c6" using cr [OF r5(2)] by blast
    show ?thesis using r1 r2 r3 r4 r5 r6 by (simp add: fill_rtcdate_def t_def)
  qed
  obtain c0 where c0: "cmos_read H 0x0b (dev s) = (R 0x0b, c0)" "ok c0" using cr [OF s] by blast
  obtain c1 where c1: "fill_rtcdate H c0 = (t, c1)" "ok c1" using fill [OF c0(2)] by blast
  obtain c2 where c2: "cmos_read H 0x0a c1 = (R 0x0a, c2)" "ok c2" using cr [OF c1(2)] by blast
  obtain c3 where c3: "fill_rtcdate H c2 = (t, c3)" "ok c3" using fill [OF c2(2)] by blast
  have "cmos_stable H c0 = Some (t, c3)" by (subst cmos_stable.simps) (simp add: c1 c2 c3 idle)
  then show ?thesis using c0 c3(2) by (intro exI [of _ c3]) (simp add: cmostime_def Let_def)
qed

section \<open>A board for examples\<close>

definition demo_board :: "'c \<Rightarrow> 'c board" where
  "demo_board c = kern.extend demo_kern (board.fields c 0 0 0 (\<lambda>_. 0) (\<lambda>_. False) False 0 None (\<lambda>_. None) True)"

lemma demo_board [simp]:
  "dev (demo_board c) = c" "lapic (demo_board c) = 0" "ncpu (demo_board c) = 0" "ioapicid (demo_board c) = 0"
  "idequeue (demo_board c) = None" "havedisk1 (demo_board c)"
  by (simp_all add: demo_board_def kern.extend_def board.fields_def)

text \<open>Hardware in which nothing happens.\<close>

definition dead_hw :: "unit hw" where
  "dead_hw = \<lparr>hw_in = \<lambda>_ c. (0, c), hw_out = \<lambda>_ _ c. c, hw_ins = \<lambda>_ n c. (replicate (4 * n) 0, c), hw_outs = \<lambda>_ _ c. c,
     hw_read = \<lambda>_ c. (0, c), hw_write = \<lambda>_ _ c. c\<rparr>"

end
