(* ===== verification/Kbd.thy ===== *)
theory Kbd
  imports Hw
begin

text \<open>
  The keyboard (\<^verbatim>\<open>kbd.c\<close>, \<^verbatim>\<open>kbd.h\<close>): from the scan codes of the controller to characters.
\<close>

section \<open>The tables\<close>

abbreviation (input) SHIFT :: u32 where "SHIFT \<equiv> 1"
abbreviation (input) CTL :: u32 where "CTL \<equiv> 2"
abbreviation (input) ALT :: u32 where "ALT \<equiv> 4"
abbreviation (input) CAPSLOCK :: u32 where "CAPSLOCK \<equiv> 8"
abbreviation (input) NUMLOCK :: u32 where "NUMLOCK \<equiv> 16"
abbreviation (input) SCROLLLOCK :: u32 where "SCROLLLOCK \<equiv> 32"
abbreviation (input) E0ESC :: u32 where "E0ESC \<equiv> 64"

definition shiftcode :: "nat \<Rightarrow> u32" where
  "shiftcode d = (if d = 0x1D \<or> d = 0x9D then CTL else if d = 0x2A \<or> d = 0x36 then SHIFT
     else if d = 0x38 \<or> d = 0xB8 then ALT else 0)"

definition togglecode :: "nat \<Rightarrow> u32" where
  "togglecode d = (if d = 0x3A then CAPSLOCK else if d = 0x45 then NUMLOCK else if d = 0x46 then SCROLLLOCK else 0)"

text \<open>The entries for the keys with an escape code; \<open>nl\<close> and \<open>div\<close> are those of the key pad.\<close>

definition ext_map :: "u32 \<Rightarrow> u32 \<Rightarrow> nat \<Rightarrow> u32" where
  "ext_map nl slash d =
     (if d = 0x9C then nl else if d = 0xB5 then slash
      else if d = 0xC8 then 0xE2 else if d = 0xD0 then 0xE3 else if d = 0xC9 then 0xE6 else if d = 0xD1 then 0xE7
      else if d = 0xCB then 0xE4 else if d = 0xCD then 0xE5 else if d = 0x97 then 0xE0 else if d = 0xCF then 0xE1
      else if d = 0xD2 then 0xE8 else if d = 0xD3 then 0xE9 else 0)"

definition normal_keys :: "u32 list" where
  "normal_keys = map of_int (
     [0, 27] @ chars ''1234567890-='' @ [8, 9] @ chars ''qwertyuiop[]'' @ [10, 0] @ chars ''asdfghjkl;'' @ [39, 96, 0, 92]
     @ chars ''zxcvbnm,./'' @ [0] @ chars ''*'' @ [0, 32] @ replicate 13 0 @ chars ''789-456+1230.'')"

definition shift_keys :: "u32 list" where
  "shift_keys = map of_int (
     [0, 27] @ chars ''!@#$%^&*()_+'' @ [8, 9] @ chars ''QWERTYUIOP{}'' @ [10, 0] @ chars ''ASDFGHJKL:'' @ [34, 126, 0, 124]
     @ chars ''ZXCVBNM<>?'' @ [0] @ chars ''*'' @ [0, 32] @ replicate 13 0 @ chars ''789-456+1230.'')"

text \<open>\<^verbatim>\<open>C(x)\<close> is \<^verbatim>\<open>x - '@'\<close>.\<close>

definition ctl_keys :: "u32 list" where
  "ctl_keys = map of_int (
     replicate 16 0 @ map (\<lambda>c. c - 64) (chars ''QWERTYUIOP'') @ [0, 0, 13, 0] @ map (\<lambda>c. c - 64) (chars ''ASDFGHJKL'')
     @ [0, 0, 0, 0, 28] @ map (\<lambda>c. c - 64) (chars ''ZXCVBNM'') @ [0, 0, 256 + 47 - 64])"

definition table :: "u32 list \<Rightarrow> u32 \<Rightarrow> u32 \<Rightarrow> nat \<Rightarrow> u32" where
  "table ks nl slash d = (if d < length ks then ks ! d else ext_map nl slash d)"

definition normalmap :: "nat \<Rightarrow> u32" where "normalmap = table normal_keys 10 47"
definition shiftmap :: "nat \<Rightarrow> u32" where "shiftmap = table shift_keys 10 47"
definition ctlmap :: "nat \<Rightarrow> u32" where "ctlmap = table ctl_keys 13 (256 + 47 - 64)"

definition charcode :: "u32 \<Rightarrow> nat \<Rightarrow> u32" where
  "charcode i = (if i = 0 then normalmap else if i = 1 then shiftmap else ctlmap)"

section \<open>Scan codes\<close>

text \<open>What a scan code does to the shift state, and the character it gives (0 for none).\<close>

definition kbd_code :: "u32 \<Rightarrow> u32 \<Rightarrow> int \<times> u32" where
  "kbd_code data shift =
     (if data = 0xE0 then (0, shift OR E0ESC)
      else if data AND 0x80 \<noteq> 0 then
        let data = (if shift AND E0ESC \<noteq> 0 then data else data AND 0x7F)
        in (0, shift AND NOT (shiftcode (unat data) OR E0ESC))
      else
        let (data, shift) = (if shift AND E0ESC \<noteq> 0 then (data OR 0x80, shift AND NOT E0ESC) else (data, shift));
            shift = shift OR shiftcode (unat data);
            shift = shift XOR togglecode (unat data);
            c = charcode (shift AND (CTL OR SHIFT)) (unat data);
            c = (if shift AND CAPSLOCK \<noteq> 0 then
                   (if 97 \<le> c \<and> c \<le> 122 then c + 65 - 97 else if 65 \<le> c \<and> c \<le> 90 then c + 97 - 65 else c)
                 else c)
        in (int_of_u32 c, shift))"

definition kbdgetc :: "'c hw \<Rightarrow> 'c board \<Rightarrow> int \<times> 'c board" where
  "kbdgetc H s =
     (let (st, s) = inb H 0x64 s in
      if st AND 1 = 0 then (- 1, s)
      else
        let (d, s) = inb H 0x60 s;
            (c, shift) = kbd_code (ucast d) (kbd_shift s)
        in (c, s\<lparr>kbd_shift := shift\<rparr>))"

text \<open>
  The interrupt handlers hand a function that returns the next character to \<^verbatim>\<open>consoleintr\<close>, which calls it until it returns a
  negative number. The output of the console is kept apart from the devices, so its echo does not come between the calls.
\<close>

partial_function (option) collect :: "('s \<Rightarrow> int \<times> 's) \<Rightarrow> int list \<Rightarrow> 's \<Rightarrow> (int list \<times> 's) option" where
  "collect getc got s = (let (c, s) = getc s in if c < 0 then Some (got, s) else collect getc (got @ [c]) s)"

declare collect.simps [code]

definition getc_intr :: "('c board \<Rightarrow> int \<times> 'c board) \<Rightarrow> 'c board \<Rightarrow> 'c board res" where
  "getc_intr getc s = (case collect getc [] s of None \<Rightarrow> Inl Spins | Some (cs, s) \<Rightarrow> consoleintr cs s)"

definition kbdintr :: "'c hw \<Rightarrow> 'c board \<Rightarrow> 'c board res" where
  "kbdintr H s = getc_intr (kbdgetc H) s"

definition uartintr :: "'c hw \<Rightarrow> 'c board \<Rightarrow> 'c board res" where
  "uartintr H s = getc_intr (uartgetc H) s"

section \<open>Keys\<close>

lemma low_code:
  assumes "d < 0x80"
  shows "(of_nat d :: u32) AND 0x80 = 0" "(of_nat d :: u32) \<noteq> 0xE0" "unat (of_nat d :: u32) = d"
proof -
  show u: "unat (of_nat d :: u32) = d" using assms by (simp add: unat_of_nat)
  have "\<not> bit (of_nat d :: u32) 7" using assms by (simp add: bit_of_nat_iff bit_iff_odd [of d])
  then show "(of_nat d :: u32) AND 0x80 = 0" using and_exp_eq_0_iff_not_bit [of "of_nat d :: u32" 7] by simp
  have "unat (of_nat d :: u32) \<noteq> unat (0xE0 :: u32)" unfolding u using assms by simp
  then show "(of_nat d :: u32) \<noteq> 0xE0" by metis
qed

text \<open>A key that is neither a shift nor a lock key gives the character of the table that the shift state selects.\<close>

lemma kbd_plain:
  assumes "d < 0x80" "shiftcode d = 0" "togglecode d = 0" "sh AND E0ESC = 0"
  shows "kbd_code (of_nat d) sh =
    (let c = charcode (sh AND (CTL OR SHIFT)) d in
     (int_of_u32 (if sh AND CAPSLOCK \<noteq> 0 then
        (if 97 \<le> c \<and> c \<le> 122 then c + 65 - 97 else if 65 \<le> c \<and> c \<le> 90 then c + 97 - 65 else c) else c), sh))"
  using assms low_code [OF assms(1)] by (simp add: kbd_code_def Let_def)

text \<open>The letter keys: shift gives the capital, control the control character.\<close>

definition letters :: "nat list" where
  "letters = [0x10..<0x1A] @ [0x1E..<0x27] @ [0x2C..<0x33]"

lemma letter_keys:
  "map (\<lambda>d. shiftmap d + 32) letters = map normalmap letters" "map (\<lambda>d. ctlmap d + 96) letters = map normalmap letters"
  "sort (map normalmap letters) = map of_nat [97..<123]"
  by code_simp+

end
