(* ===== verification/Mp.thy ===== *)
theory Mp
  imports Hw
begin

text \<open>
  Finding the processors (\<^verbatim>\<open>mp.c\<close>): the search for the MP floating pointer structure, the check of the configuration table, and the
  walk over its entries.
\<close>

section \<open>The tables\<close>

definition mpsum :: "memory \<Rightarrow> u32 \<Rightarrow> nat \<Rightarrow> u8" where
  "mpsum m addr len = sum_list (map (\<lambda>i. m (addr + of_nat i)) [0..<len])"

definition has_sig :: "memory \<Rightarrow> u32 \<Rightarrow> u8 list \<Rightarrow> bool" where
  "has_sig m p sig \<longleftrightarrow> map (\<lambda>i. m (p + of_nat i)) [0..<length sig] = sig"

text \<open>The structure has 16 bytes. The ranges that are searched do not reach the end of the address space.\<close>

definition mpsearch1 :: "memory \<Rightarrow> u32 \<Rightarrow> nat \<Rightarrow> u32 option" where
  "mpsearch1 m a len =
     (let addr = P2V a in
      find (\<lambda>p. has_sig m p [95, 77, 80, 95] \<and> mpsum m p 16 = 0) (map (\<lambda>i. addr + 16 * of_nat i) [0..<(len + 15) div 16]))"

definition mpsearch :: "memory \<Rightarrow> u32 option" where
  "mpsearch m =
     (let bda = P2V 0x400;
          p = push_bit 4 (push_bit 8 (ucast (m (bda + 0x0F))) OR ucast (m (bda + 0x0E)));
          r = (if p \<noteq> 0 then mpsearch1 m p 1024
               else
                 let p = (push_bit 8 (ucast (m (bda + 0x14))) OR ucast (m (bda + 0x13))) * 1024
                 in mpsearch1 m (p - 1024) 1024)
      in case r of Some mp \<Rightarrow> Some mp | None \<Rightarrow> mpsearch1 m 0xF0000 0x10000)"

text \<open>The configuration table: the length at offset 4, the version at 6, the address of the local APIC at 36.\<close>

definition mpconfig :: "memory \<Rightarrow> (u32 \<times> u32) option" where
  "mpconfig m =
     (case mpsearch m of None \<Rightarrow> None
      | Some mp \<Rightarrow>
          let physaddr = load32 m (mp + 4); conf = P2V physaddr in
          if physaddr = 0 then None
          else if \<not> has_sig m conf [80, 67, 77, 80] then None
          else if m (conf + 6) \<noteq> 1 \<and> m (conf + 6) \<noteq> 4 then None
          else if mpsum m conf (unat (load16 m (conf + 4))) \<noteq> 0 then None
          else Some (conf, mp))"

section \<open>The entries\<close>

text \<open>The variables that the loop of \<^verbatim>\<open>mpinit\<close> assigns.\<close>

record mpvars =
  mp_ncpu :: int
  mp_apicid :: "nat \<Rightarrow> u8"
  mp_ioapicid :: u8
  ismp :: bool

definition add_cpu :: "u8 \<Rightarrow> mpvars \<Rightarrow> mpvars" where
  "add_cpu a v = (if mp_ncpu v < 8 then v\<lparr>mp_apicid := (mp_apicid v)(nat (mp_ncpu v) := a), mp_ncpu := mp_ncpu v + 1\<rparr> else v)"

text \<open>An entry of an unknown type ends the \<^verbatim>\<open>switch\<close>, not the loop, and \<^verbatim>\<open>p\<close> stays where it is.\<close>

partial_function (option) mp_entries :: "memory \<Rightarrow> u32 \<Rightarrow> u32 \<Rightarrow> mpvars \<Rightarrow> mpvars option" where
  "mp_entries m p e v =
     (if p < e then
        (if m p = 0 then mp_entries m (p + 20) e (add_cpu (m (p + 1)) v)
         else if m p = 2 then mp_entries m (p + 8) e (v\<lparr>mp_ioapicid := m (p + 1)\<rparr>)
         else if m p = 1 \<or> m p = 3 \<or> m p = 4 then mp_entries m (p + 8) e v
         else mp_entries m p e (v\<lparr>ismp := False\<rparr>))
      else Some v)"

declare mp_entries.simps [code]

definition mpinit :: "'c hw \<Rightarrow> 'c board \<Rightarrow> 'c board res" where
  "mpinit H s =
     (case mpconfig (mem s) of None \<Rightarrow> Inl (Panic ''Expect to run on an SMP'')
      | Some (conf, mp) \<Rightarrow>
          let s = s\<lparr>lapic := load32 (mem s) (conf + 36)\<rparr> in
          case mp_entries (mem s) (conf + 44) (conf + ucast (load16 (mem s) (conf + 4)))
            \<lparr>mp_ncpu = ncpu s, mp_apicid = apicid s, mp_ioapicid = ioapicid s, ismp = True\<rparr>
          of None \<Rightarrow> Inl Spins
          | Some v \<Rightarrow>
              let s = s\<lparr>ncpu := mp_ncpu v, apicid := mp_apicid v, ioapicid := mp_ioapicid v\<rparr> in
              if \<not> ismp v then Inl (Panic ''Didn't find a suitable machine'')
              else if mem s (mp + 12) \<noteq> 0 then
                let s = outb H 0x22 0x70 s;
                    (r, s) = inb H 0x23 s
                in Inr (outb H 0x23 (r OR 1) s)
              else Inr s)"

section \<open>What a table says\<close>

datatype mpentry = MpProc u8 | MpIoapic u8 | MpOther u8

fun entry_size :: "mpentry \<Rightarrow> nat" where
  "entry_size (MpProc a) = 20"
| "entry_size (MpIoapic a) = 8"
| "entry_size (MpOther t) = 8"

fun entry_bytes_at :: "memory \<Rightarrow> u32 \<Rightarrow> mpentry \<Rightarrow> bool" where
  "entry_bytes_at m p (MpProc a) \<longleftrightarrow> m p = 0 \<and> m (p + 1) = a"
| "entry_bytes_at m p (MpIoapic a) \<longleftrightarrow> m p = 2 \<and> m (p + 1) = a"
| "entry_bytes_at m p (MpOther t) \<longleftrightarrow> m p = t \<and> (t = 1 \<or> t = 3 \<or> t = 4)"

text \<open>The entries \<open>es\<close> one after the other from \<open>p\<close>.\<close>

fun entries_at :: "memory \<Rightarrow> u32 \<Rightarrow> mpentry list \<Rightarrow> bool" where
  "entries_at m p [] \<longleftrightarrow> True"
| "entries_at m p (x # xs) \<longleftrightarrow> entry_bytes_at m p x \<and> entries_at m (p + of_nat (entry_size x)) xs"

definition entries_size :: "mpentry list \<Rightarrow> nat" where
  "entries_size xs = sum_list (map entry_size xs)"

fun apic_ids :: "mpentry list \<Rightarrow> u8 list" where
  "apic_ids [] = []"
| "apic_ids (MpProc a # xs) = a # apic_ids xs"
| "apic_ids (_ # xs) = apic_ids xs"

fun last_ioapic :: "u8 \<Rightarrow> mpentry list \<Rightarrow> u8" where
  "last_ioapic i [] = i"
| "last_ioapic i (MpIoapic a # xs) = last_ioapic a xs"
| "last_ioapic i (_ # xs) = last_ioapic i xs"

lemma entries_size_Cons [simp]: "entries_size (x # xs) = entry_size x + entries_size xs"
  by (simp add: entries_size_def)

lemma entry_size_pos: "8 \<le> entry_size x" "entry_size x \<le> 20"
  by (cases x; simp)+

lemma add_cpu_ioapicid [simp]:
  "add_cpu a (w\<lparr>mp_ioapicid := i\<rparr>) = (add_cpu a w)\<lparr>mp_ioapicid := i\<rparr>" "mp_ioapicid (add_cpu a w) = mp_ioapicid w"
  "ismp (add_cpu a w) = ismp w"
  by (simp_all add: add_cpu_def)

lemma add_cpus_ioapicid [simp]:
  "fold add_cpu as (w\<lparr>mp_ioapicid := i\<rparr>) = (fold add_cpu as w)\<lparr>mp_ioapicid := i\<rparr>" "mp_ioapicid (fold add_cpu as w) = mp_ioapicid w"
  "ismp (fold add_cpu as w) = ismp w"
  by (induction as arbitrary: w) simp_all

lemma mp_entries_walk:
  "entries_at m p xs \<Longrightarrow> unat p + entries_size xs \<le> unat e \<Longrightarrow>
   mp_entries m p e v = mp_entries m (p + of_nat (entries_size xs)) e
     ((fold add_cpu (apic_ids xs) v)\<lparr>mp_ioapicid := last_ioapic (mp_ioapicid v) xs\<rparr>)"
proof (induction xs arbitrary: p v)
  case Nil
  then show ?case by (simp add: entries_size_def)
next
  case (Cons x xs)
  have lt: "unat p + entry_size x \<le> unat e" using Cons.prems(2) by simp
  then have "p < e" using entry_size_pos(1) [of x] by (simp add: word_less_nat_alt)
  have "unat e < 2 ^ 32" using unsigned_less [of e] by simp
  then have u: "unat (p + of_nat (entry_size x)) = unat p + entry_size x" using lt by (simp add: unat_word_ariths unat_of_nat)
  show ?case
    using Cons.IH [of "p + of_nat (entry_size x)"] Cons.prems u \<open>p < e\<close>
    by (subst mp_entries.simps) (cases x; auto simp: add.assoc)
qed

lemma mp_entries_end: "\<not> p < e \<Longrightarrow> mp_entries m p e v = Some v"
  by (subst mp_entries.simps) simp

text \<open>An unknown entry: the loop does not end.\<close>

lemma mp_entries_unknown:
  assumes "p < e" "m p > 4"
  shows "mp_entries m p e v = None"
proof (cases "mp_entries m p e v")
  case (Some r)
  have "\<not> (p < e \<and> m p > 4)"
    by (rule mp_entries.raw_induct [where P = "\<lambda>m p e v r. \<not> (p < e \<and> m p > 4)", OF _ Some]) (fastforce split: if_splits)
  then show ?thesis using assms by simp
qed simp

text \<open>The processors found, at most \<^verbatim>\<open>NCPU\<close> in all.\<close>

lemma add_cpus:
  "0 \<le> mp_ncpu v \<Longrightarrow> mp_ncpu v \<le> 8 \<Longrightarrow>
   mp_ncpu (fold add_cpu as v) = min 8 (mp_ncpu v + int (length as))
   \<and> (\<forall>k < length as. mp_ncpu v + int k < 8 \<longrightarrow> mp_apicid (fold add_cpu as v) (nat (mp_ncpu v) + k) = as ! k)
   \<and> (\<forall>k < nat (mp_ncpu v). mp_apicid (fold add_cpu as v) k = mp_apicid v k)"
proof (induction as arbitrary: v)
  case (Cons a as)
  show ?case
  proof (cases "mp_ncpu v < 8")
    case True
    let ?w = "add_cpu a v"
    have w: "mp_ncpu ?w = mp_ncpu v + 1" "mp_apicid ?w = (mp_apicid v)(nat (mp_ncpu v) := a)" using True by (simp_all add: add_cpu_def)
    have n: "nat (mp_ncpu v + 1) = Suc (nat (mp_ncpu v))" using Cons.prems(1) by simp
    have IH: "mp_ncpu (fold add_cpu as ?w) = min 8 (mp_ncpu v + 1 + int (length as))"
      "\<And>k. k < length as \<Longrightarrow> mp_ncpu v + 1 + int k < 8 \<Longrightarrow> mp_apicid (fold add_cpu as ?w) (Suc (nat (mp_ncpu v)) + k) = as ! k"
      "\<And>k. k < Suc (nat (mp_ncpu v)) \<Longrightarrow> mp_apicid (fold add_cpu as ?w) k = mp_apicid ?w k"
      using Cons.IH [of ?w] Cons.prems True w n by auto
    have "mp_apicid (fold add_cpu as ?w) (nat (mp_ncpu v) + k) = (a # as) ! k" if "k < Suc (length as)" "mp_ncpu v + int k < 8" for k
      using IH(2) [of "k - 1"] IH(3) [of "nat (mp_ncpu v)"] that w by (cases k) auto
    then show ?thesis using IH(1) IH(3) w(2) by auto
  next
    case False
    then have "add_cpu a v = v" "mp_ncpu v = 8" using Cons.prems by (simp_all add: add_cpu_def)
    then show ?thesis using Cons.IH [OF Cons.prems] by auto
  qed
qed simp

section \<open>Properties\<close>

text \<open>
  C0: processors. When the BIOS left a configuration table with a valid checksum and its entries fill the table, \<^verbatim>\<open>mpinit\<close> records
  the local APIC ids of the processors in the order of the table, \<^verbatim>\<open>NCPU\<close> of them at most, the id of the last I/O APIC and the
  address of the local APIC. When the entries are followed by one of an unknown type \<^verbatim>\<open>mpinit\<close> loops forever on it: the panic
  that the code has for this case is never reached.
\<close>

theorem mpinit_finds_cpus:
  fixes s :: "'c board"
  assumes conf: "mpconfig (mem s) = Some (conf, mp)" and n0: "ncpu s = 0"
  defines "len \<equiv> unat (load16 (mem s) (conf + 4))"
  assumes es: "entries_at (mem s) (conf + 44) es" "44 + entries_size es \<le> len" "unat conf + len < 2 ^ 32"
  shows "(44 + entries_size es = len \<longrightarrow>
      (\<exists>t. mpinit H s = Inr t \<and> ncpu t = min 8 (int (length (apic_ids es)))
         \<and> (\<forall>k < min 8 (length (apic_ids es)). apicid t k = apic_ids es ! k)
         \<and> ioapicid t = last_ioapic (ioapicid s) es \<and> lapic t = load32 (mem s) (conf + 36) \<and> mem t = mem s))
    \<and> (44 + entries_size es < len \<and> mem s (conf + of_nat (44 + entries_size es)) > 4 \<longrightarrow> mpinit H s = Inl Spins)"
proof -
  let ?m = "mem s" let ?e = "conf + ucast (load16 ?m (conf + 4))"
  let ?v = "\<lparr>mp_ncpu = ncpu s, mp_apicid = apicid s, mp_ioapicid = ioapicid s, ismp = True\<rparr>"
  let ?w = "(fold add_cpu (apic_ids es) ?v)\<lparr>mp_ioapicid := last_ioapic (ioapicid s) es\<rparr>"
  let ?q = "conf + of_nat (44 + entries_size es)"
  have "unat (load16 ?m (conf + 4)) < 2 ^ 32" by (rule order_less_le_trans [OF unsigned_less]) simp
  then have lu: "unat (ucast (load16 ?m (conf + 4)) :: u32) = len" by (simp add: len_def unsigned_ucast_eq take_bit_nat_eq_self)
  have e: "unat ?e = unat conf + len" using es(3) lu by (simp add: unat_word_ariths)
  have s44: "unat (conf + 44) = unat conf + 44" using es(2,3) by (simp add: unat_word_ariths)
  have q: "unat ?q = unat conf + 44 + entries_size es" using es(2,3) by (simp only: unat_word_ariths unat_of_nat) simp
  have qq: "conf + 44 + of_nat (entries_size es) = ?q" by simp
  have walk: "mp_entries ?m (conf + 44) ?e ?v = mp_entries ?m ?q ?e ?w"
    using mp_entries_walk [OF es(1), of ?e ?v] s44 e es(2) unfolding qq by simp
  have full: "\<exists>t. mpinit H s = Inr t \<and> ncpu t = min 8 (int (length (apic_ids es)))
         \<and> (\<forall>k < min 8 (length (apic_ids es)). apicid t k = apic_ids es ! k)
         \<and> ioapicid t = last_ioapic (ioapicid s) es \<and> lapic t = load32 ?m (conf + 36) \<and> mem t = ?m"
    if "44 + entries_size es = len"
  proof -
    have "\<not> ?q < ?e" using q e that by (simp add: word_less_nat_alt)
    then have w: "mp_entries ?m (conf + 44) ?e ?v = Some ?w" unfolding walk by (rule mp_entries_end)
    have A: "mp_ncpu ?w = min 8 (int (length (apic_ids es)))" "\<forall>k < min 8 (length (apic_ids es)). mp_apicid ?w k = apic_ids es ! k"
      using add_cpus [of ?v "apic_ids es"] n0 by auto
    show ?thesis using conf w A by (auto simp: mpinit_def Let_def outb_def inb_def split: prod.splits)
  qed
  have unknown: "mpinit H s = Inl Spins" if "44 + entries_size es < len" "mem s ?q > 4"
  proof -
    have "?q < ?e" using q e that(1) by (simp add: word_less_nat_alt)
    then have "mp_entries ?m (conf + 44) ?e ?v = None" unfolding walk using that(2) by (rule mp_entries_unknown)
    then show ?thesis using conf by (simp add: mpinit_def Let_def)
  qed
  show ?thesis using full unknown by blast
qed

definition demo_mp :: "u8 list" where
  "demo_mp = [95, 77, 80, 95, 0, 253, 9, 0, 1, 4, 154, 0, 0, 0, 0, 0]"

definition demo_conf :: "u8 list" where
  "demo_conf = [80, 67, 77, 80, 100, 0, 4, 126, 0, 0, 0, 0, 0, 0, 0, 0, 0, 0, 0, 0, 0, 0, 0, 0, 0, 0, 0, 0, 0, 0, 0, 0, 0, 0, 0, 4, 0, 0, 224, 254, 0, 0, 0, 0, 0, 0, 0, 0, 0, 0, 0, 0, 0, 0, 0, 0, 0, 0, 0, 0, 0, 0, 0, 0, 0, 1, 0, 0, 0, 0, 0, 0, 0, 0, 0, 0, 0, 0, 0, 0, 0, 0, 0, 0, 2, 2, 0, 0, 0, 0, 0, 0, 3, 0, 0, 0, 0, 0, 0, 0]"

definition demo_bios :: memory where
  "demo_bios a = (if a = 0x8000040E then 0xC0 else if a = 0x8000040F then 0x9F
     else if 0x8009FC00 \<le> a \<and> a < 0x8009FC10 then demo_mp ! unat (a - 0x8009FC00)
     else if 0x8009FD00 \<le> a \<and> a < 0x8009FD00 + 100 then demo_conf ! unat (a - 0x8009FD00) else 0)"

lemma demo_bios: "mpconfig demo_bios = Some (0x8009FD00, 0x8009FC00)"
  by code_simp

lemma demo_entries: "entries_at demo_bios (0x8009FD00 + 44) [MpProc 0, MpProc 1, MpIoapic 2, MpOther 3]" "unat (load16 demo_bios (0x8009FD00 + 4)) = 100"
  by code_simp+

theorem mpinit_finds_cpus_witness:
  "\<exists>t. mpinit dead_hw ((demo_board ())\<lparr>mem := demo_bios\<rparr>) = Inr t \<and> ncpu t = 2 \<and> apicid t 0 = 0 \<and> apicid t 1 = 1 \<and> ioapicid t = 2
    \<and> lapic t = 0xFEE00000"
proof -
  let ?s = "(demo_board ())\<lparr>mem := demo_bios\<rparr>"
  let ?es = "[MpProc 0, MpProc 1, MpIoapic 2, MpOther 3]"
  have c: "mpconfig (mem ?s) = Some (0x8009FD00, 0x8009FC00)" using demo_bios by simp
  have es: "entries_at (mem ?s) (0x8009FD00 + 44) ?es" using demo_entries(1) by simp
  have l: "unat (load16 (mem ?s) (0x8009FD00 + 4)) = 100" using demo_entries(2) by simp
  have z: "entries_size ?es = 56" by (simp add: entries_size_def)
  have a: "load32 demo_bios (0x8009FD00 + 36) = 0xFEE00000" by code_simp
  have n: "ncpu ?s = 0" by simp
  have b: "44 + entries_size ?es \<le> unat (load16 (mem ?s) (0x8009FD00 + 4))"
    "unat (0x8009FD00 :: u32) + unat (load16 (mem ?s) (0x8009FD00 + 4)) < 2 ^ 32" unfolding l z by simp_all
  have "44 + entries_size ?es = unat (load16 (mem ?s) (0x8009FD00 + 4))" unfolding l z by simp
  with mpinit_finds_cpus [OF c n es b, of dead_hw] obtain t where t: "mpinit dead_hw ?s = Inr t" "ncpu t = min 8 (int (length (apic_ids ?es)))"
    "\<forall>k < min 8 (length (apic_ids ?es)). apicid t k = apic_ids ?es ! k" "ioapicid t = last_ioapic (ioapicid ?s) ?es"
    "lapic t = load32 (mem ?s) (0x8009FD00 + 36)" by blast
  have "apicid t 0 = 0" "apicid t 1 = 1" using spec [OF t(3), of 0] spec [OF t(3), of 1] by simp_all
  then show ?thesis using t(1,2,4,5) a by simp
qed

end
