(* ===== verification/Ide.thy ===== *)
theory Ide
  imports Hw
begin

unbundle bit_operations_syntax

text \<open>
  The disk driver of \<^verbatim>\<open>ide.c\<close>. Requests wait in a queue of buffers linked by \<^verbatim>\<open>qnext\<close>; the first one is the one the drive works
  on. A request gives up the CPU until the interrupt handler has served its buffer, so \<^verbatim>\<open>iderw\<close> is described as turns.
\<close>

definition ide_ready :: "u8 \<Rightarrow> bool" where
  "ide_ready r \<longleftrightarrow> r AND (0x80 OR 0x40) = 0x40"

definition idewait :: "'c hw \<Rightarrow> bool \<Rightarrow> 'c board \<Rightarrow> (int \<times> 'c board) res" where
  "idewait H checkerr s =
     rbind (await (hw_in H 0x1f7) ide_ready s) (\<lambda>(r, s).
     if checkerr \<and> r AND (0x20 OR 0x01) \<noteq> 0 then Inr (- 1, s) else Inr (0, s))"

text \<open>The loop that looks for the second disk.\<close>

primrec find_disk1 :: "'c hw \<Rightarrow> nat \<Rightarrow> 'c board \<Rightarrow> 'c board" where
  "find_disk1 H 0 s = s"
| "find_disk1 H (Suc n) s =
     (let (v, s) = inb H 0x1f7 s in if v \<noteq> 0 then s\<lparr>havedisk1 := True\<rparr> else find_disk1 H n s)"

definition ideinit_pio :: "'c hw \<Rightarrow> 'c board \<Rightarrow> 'c board res" where
  "ideinit_pio H s =
     (let s = initlock IdeLock s;
          s = ioapicenable H 14 (ncpu s - 1) s
      in
      rbind (idewait H False s) (\<lambda>(_, s).
      let s = outb H 0x1f6 (0xe0 OR push_bit 4 1) s;
          s = find_disk1 H 1000 s
      in Inr (outb H 0x1f6 (0xe0 OR push_bit 4 0) s)))"

text \<open>A block is one sector, so the commands are those for single sectors and the check of the number of sectors passes.\<close>

definition idestart :: "'c hw \<Rightarrow> nat option \<Rightarrow> 'c board \<Rightarrow> 'c board res" where
  "idestart H bp s =
     (case bp of None \<Rightarrow> Inl (Panic ''idestart'')
      | Some b \<Rightarrow>
        if b_blockno (bufs s b) \<ge> FSSIZE then Inl (Panic ''incorrect blockno'')
        else
          let sector_per_block = 1;
              sector = b_blockno (bufs s b) * sector_per_block
          in
          rbind (idewait H False s) (\<lambda>(_, s).
          let s = outb H 0x3f6 0 s;
              s = outb H 0x1f2 (ucast sector_per_block) s;
              s = outb H 0x1f3 (ucast (sector AND 0xff)) s;
              s = outb H 0x1f4 (ucast (drop_bit 8 sector AND 0xff)) s;
              s = outb H 0x1f5 (ucast (drop_bit 16 sector AND 0xff)) s;
              s = outb H 0x1f6 (0xe0 OR ucast (push_bit 4 (b_dev (bufs s b) AND 1)) OR ucast (drop_bit 24 sector AND 0x0f)) s
          in
          Inr (if b_dirty (bufs s b)
               then outsl H 0x1f0 (b_data (bufs s b)) (outb H 0x1f7 0x30 s)
               else outb H 0x1f7 0x20 s)))"

text \<open>The handler reads the data of a buffer that is not dirty.\<close>

definition ide_read :: "'c hw \<Rightarrow> nat \<Rightarrow> 'c board \<Rightarrow> 'c board res" where
  "ide_read H b s =
     (if \<not> b_dirty (bufs s b)
      then rbind (idewait H True s) (\<lambda>(r, s).
        if r \<ge> 0 then let (bs, s) = insl H 0x1f0 (BSIZE div 4) s in Inr (upd_buf b (\<lambda>x. x\<lparr>b_data := bs\<rparr>) s)
        else Inr s)
      else Inr s)"

definition ideintr :: "'c hw \<Rightarrow> 'c board \<Rightarrow> 'c board res" where
  "ideintr H s =
     rbind (acquire IdeLock s) (\<lambda>s.
     case idequeue s of None \<Rightarrow> release IdeLock s
     | Some b \<Rightarrow>
       let s = s\<lparr>idequeue := qnext s b\<rparr> in
       rbind (ide_read H b s) (\<lambda>s.
       rbind (wakeup (ChanBuf b) (upd_buf b (\<lambda>x. x\<lparr>b_valid := True, b_dirty := False\<rparr>) s)) (\<lambda>s.
       rbind (if idequeue s \<noteq> None then idestart H (idequeue s) s else Inr s) (\<lambda>s.
       release IdeLock s))))"

text \<open>The end of the queue from \<open>b\<close> on.\<close>

partial_function (option) queue_last :: "(nat \<Rightarrow> nat option) \<Rightarrow> nat \<Rightarrow> nat option" where
  "queue_last n b = (case n b of None \<Rightarrow> Some b | Some c \<Rightarrow> queue_last n c)"

declare queue_last.simps [code]

definition enqueue :: "nat \<Rightarrow> 'c board \<Rightarrow> 'c board res" where
  "enqueue b s =
     (let s = s\<lparr>qnext := (qnext s)(b := None)\<rparr> in
      case idequeue s of None \<Rightarrow> Inr (s\<lparr>idequeue := Some b\<rparr>)
      | Some h \<Rightarrow>
          case queue_last (qnext s) h of None \<Rightarrow> Inl Spins
          | Some l \<Rightarrow> Inr (s\<lparr>qnext := (qnext s)(l := Some b)\<rparr>))"

datatype disk_turn = Synced | Waits bool

definition iderw_wait :: "nat \<Rightarrow> 'c board \<Rightarrow> (disk_turn \<times> 'c board) res" where
  "iderw_wait b s =
     (if \<not> (b_valid (bufs s b) \<and> \<not> b_dirty (bufs s b)) then
        rbind (sleep_out (ChanBuf b) (Some IdeLock) s) (\<lambda>(i, s). Inr (Waits i, s))
      else rbind (release IdeLock s) (\<lambda>s. Inr (Synced, s)))"

definition iderw_turn :: "'c hw \<Rightarrow> nat \<Rightarrow> 'c board \<Rightarrow> (disk_turn \<times> 'c board) res" where
  "iderw_turn H b s =
     rbind (holdingsleep (BufLk b) s) (\<lambda>(h, s).
     if \<not> h then Inl (Panic ''iderw: buf not locked'')
     else if b_valid (bufs s b) \<and> \<not> b_dirty (bufs s b) then Inl (Panic ''iderw: nothing to do'')
     else if b_dev (bufs s b) \<noteq> 0 \<and> \<not> havedisk1 s then Inl (Panic ''iderw: ide disk 1 not present'')
     else
       rbind (acquire IdeLock s) (\<lambda>s.
       rbind (enqueue b s) (\<lambda>s.
       rbind (if idequeue s = Some b then idestart H (Some b) s else Inr s) (\<lambda>s.
       iderw_wait b s))))"

text \<open>The turn after a wakeup: process \<open>p\<close> returns from \<^verbatim>\<open>sleep\<close>.\<close>

definition iderw_resume :: "nat \<Rightarrow> bool \<Rightarrow> nat \<Rightarrow> 'c board \<Rightarrow> (disk_turn \<times> 'c board) res" where
  "iderw_resume p ena b s = rbind (sleep_in p IdeLock ena s) (\<lambda>s. iderw_wait b s)"

end
