(* ===== verification/IdeSpec.thy ===== *)
theory IdeSpec
  imports Ide Bio
begin

unbundle bit_operations_syntax

text \<open>
  The disk driver against a drive that obeys the ATA rules: whatever the order of requests and interrupts, the driver is a first
  in, first out queue in front of a disk that serves one request at a time as the memory disk of \<^verbatim>\<open>memide.c\<close> does.
\<close>

section \<open>The drive\<close>

text \<open>
  What can be seen of a pair of drives: the registers of the task file, whether the drive is busy, the transfer in progress, and the
  sectors of both drives.
\<close>

datatype xfer = NoXfer | Reads bool nat | Writes bool nat

record ata =
  a_count :: u8
  a_lba0 :: u8
  a_lba1 :: u8
  a_lba2 :: u8
  a_drive :: u8
  a_busy :: bool
  a_xfer :: xfer
  a_sectors :: "bool \<Rightarrow> nat \<Rightarrow> u8 list"

definition a_lba :: "ata \<Rightarrow> nat" where
  "a_lba v = unat (a_lba0 v) + 256 * unat (a_lba1 v) + 65536 * unat (a_lba2 v) + 16777216 * unat (a_drive v AND 0x0f)"

abbreviation set_sector :: "bool \<Rightarrow> nat \<Rightarrow> u8 list \<Rightarrow> (bool \<Rightarrow> nat \<Rightarrow> u8 list) \<Rightarrow> bool \<Rightarrow> nat \<Rightarrow> u8 list" where
  "set_sector d l bs D \<equiv> D(d := (D d)(l := bs))"

text \<open>
  The rules of programmed I/O in LBA mode, for one sector and a drive that reports no error. Reading the status register changes
  nothing but whether the drive is busy, and a drive becomes ready in the end. Registers and commands are accepted while the drive
  is not busy, and so is the transfer of the sector that is read; the data of a write are accepted after the command.
\<close>

definition ata_status :: "'c hw \<Rightarrow> ('c \<Rightarrow> ata) \<Rightarrow> bool" where
  "ata_status H V \<longleftrightarrow>
     (\<forall>c. \<exists>x. V (snd (hw_in H 0x1f7 c)) = (V c)\<lparr>a_busy := x\<rparr> \<and> (ide_ready (fst (hw_in H 0x1f7 c)) \<longrightarrow> \<not> x))
   \<and> (\<forall>c. \<exists>n. ide_ready (fst (hw_in H 0x1f7 (reads (hw_in H 0x1f7) n c))))
   \<and> (\<forall>c. ide_ready (fst (hw_in H 0x1f7 c)) \<longrightarrow> fst (hw_in H 0x1f7 c) AND 0x21 = 0)"

definition ata_regs :: "'c hw \<Rightarrow> ('c \<Rightarrow> ata) \<Rightarrow> bool" where
  "ata_regs H V \<longleftrightarrow>
     (\<forall>c v. V (hw_out H 0x3f6 v c) = V c)
   \<and> (\<forall>c v. \<not> a_busy (V c) \<longrightarrow>
        V (hw_out H 0x1f2 v c) = (V c)\<lparr>a_count := v\<rparr> \<and> V (hw_out H 0x1f3 v c) = (V c)\<lparr>a_lba0 := v\<rparr>
      \<and> V (hw_out H 0x1f4 v c) = (V c)\<lparr>a_lba1 := v\<rparr> \<and> V (hw_out H 0x1f5 v c) = (V c)\<lparr>a_lba2 := v\<rparr>
      \<and> V (hw_out H 0x1f6 v c) = (V c)\<lparr>a_drive := v\<rparr>)"

definition ata_commands :: "'c hw \<Rightarrow> ('c \<Rightarrow> ata) \<Rightarrow> bool" where
  "ata_commands H V \<longleftrightarrow>
     (\<forall>c. \<not> a_busy (V c) \<and> a_xfer (V c) = NoXfer \<and> a_count (V c) = 1 \<and> bit (a_drive (V c)) 6 \<longrightarrow>
        (\<exists>x. V (hw_out H 0x1f7 0x20 c) = (V c)\<lparr>a_busy := x, a_xfer := Reads (bit (a_drive (V c)) 4) (a_lba (V c))\<rparr>)
      \<and> (\<exists>x. V (hw_out H 0x1f7 0x30 c) = (V c)\<lparr>a_busy := x, a_xfer := Writes (bit (a_drive (V c)) 4) (a_lba (V c))\<rparr>))"

definition ata_data :: "'c hw \<Rightarrow> ('c \<Rightarrow> ata) \<Rightarrow> bool" where
  "ata_data H V \<longleftrightarrow>
     (\<forall>c d l. \<not> a_busy (V c) \<and> a_xfer (V c) = Reads d l \<longrightarrow>
        fst (hw_ins H 0x1f0 128 c) = a_sectors (V c) d l \<and> (\<exists>x. V (snd (hw_ins H 0x1f0 128 c)) = (V c)\<lparr>a_busy := x, a_xfer := NoXfer\<rparr>))
   \<and> (\<forall>c d l bs. a_xfer (V c) = Writes d l \<and> length bs = 512 \<longrightarrow>
        (\<exists>x. V (hw_outs H 0x1f0 bs c) = (V c)\<lparr>a_busy := x, a_xfer := NoXfer, a_sectors := set_sector d l bs (a_sectors (V c))\<rparr>))"

definition ata_laws :: "'c hw \<Rightarrow> ('c \<Rightarrow> ata) \<Rightarrow> bool" where
  "ata_laws H V \<longleftrightarrow> ata_status H V \<and> ata_regs H V \<and> ata_commands H V \<and> ata_data H V"

section \<open>Waiting\<close>

lemma ata_reads: "ata_status H V \<Longrightarrow> \<exists>x. V (reads (hw_in H 0x1f7) n c) = (V c)\<lparr>a_busy := x\<rparr>"
proof (induction n arbitrary: c)
  case 0
  then show ?case by (intro exI [of _ "a_busy (V c)"]) simp
next
  case (Suc n)
  obtain x where x: "V (snd (hw_in H 0x1f7 c)) = (V c)\<lparr>a_busy := x\<rparr>" using Suc.prems unfolding ata_status_def by blast
  obtain y where "V (reads (hw_in H 0x1f7) n (snd (hw_in H 0x1f7 c))) = (V (snd (hw_in H 0x1f7 c)))\<lparr>a_busy := y\<rparr>"
    using Suc.IH [OF Suc.prems] by blast
  then show ?case by (auto simp: x)
qed

lemma ata_poll:
  assumes "ata_status H V"
  shows "\<exists>r c'. poll (hw_in H 0x1f7) ide_ready c = Some (r, c') \<and> V c' = (V c)\<lparr>a_busy := False\<rparr> \<and> r AND 0x21 = 0"
proof -
  let ?rd = "hw_in H 0x1f7"
  obtain n where "ide_ready (fst (?rd (reads ?rd n c)))" using assms unfolding ata_status_def by blast
  then obtain k where k: "ide_ready (fst (?rd (reads ?rd k c)))" "poll ?rd ide_ready c = Some (?rd (reads ?rd k c))"
    using poll_returns [of ide_ready ?rd n c] by blast
  let ?c = "reads ?rd k c"
  obtain x where x: "V ?c = (V c)\<lparr>a_busy := x\<rparr>" using ata_reads [OF assms] by blast
  obtain y where y: "V (snd (?rd ?c)) = (V ?c)\<lparr>a_busy := y\<rparr>" "\<not> y" using assms k(1) unfolding ata_status_def by blast
  have "fst (?rd ?c) AND 0x21 = 0" using assms k(1) by (simp add: ata_status_def)
  then show ?thesis using k(2) x y by (intro exI [of _ "fst (?rd ?c)"] exI [of _ "snd (?rd ?c)"]) simp
qed

lemma idewait_ok:
  assumes "ata_status H V"
  shows "\<exists>c. idewait H e s = Inr (0, s\<lparr>dev := c\<rparr>) \<and> V c = (V (dev s))\<lparr>a_busy := False\<rparr>"
proof -
  obtain r c where c: "poll (hw_in H 0x1f7) ide_ready (dev s) = Some (r, c)" "V c = (V (dev s))\<lparr>a_busy := False\<rparr>" "r AND 0x21 = 0"
    using ata_poll [OF assms] by blast
  have "r AND (0x20 OR 1) = 0" using c(3) by simp
  then have "idewait H e s = Inr (0, s\<lparr>dev := c\<rparr>)" using c(1) by (simp add: idewait_def await_def)
  then show ?thesis using c(2) by blast
qed

section \<open>Starting a request\<close>

abbreviation buf_drive :: "buf \<Rightarrow> bool" where "buf_drive x \<equiv> bit (b_dev x) 0"
abbreviation buf_lba :: "buf \<Rightarrow> nat" where "buf_lba x \<equiv> unat (b_blockno x)"

definition buf_ok :: "buf \<Rightarrow> bool" where
  "buf_ok x \<longleftrightarrow> b_blockno x < FSSIZE \<and> length (b_data x) = BSIZE"

text \<open>The drive works on the request for buffer \<open>x\<close>, with \<open>D\<close> on the disk before.\<close>

definition started_on :: "buf \<Rightarrow> (bool \<Rightarrow> nat \<Rightarrow> u8 list) \<Rightarrow> ata \<Rightarrow> bool" where
  "started_on x D v \<longleftrightarrow>
     (if b_dirty x then a_xfer v = NoXfer \<and> a_sectors v = set_sector (buf_drive x) (buf_lba x) (b_data x) D
      else a_xfer v = Reads (buf_drive x) (buf_lba x) \<and> a_sectors v = D)"

lemma drive_reg:
  fixes d n :: u32
  assumes "n < 1000"
  shows "0xe0 OR ucast (push_bit 4 (d AND 1)) OR ucast (drop_bit 24 n AND 0x0f) = (if bit d 0 then 0xf0 else 0xe0 :: u8)"
proof -
  have "unat n < 1000" using assms by (simp add: word_less_nat_alt)
  then have "drop_bit 24 n = 0" by (simp only: word_unat_eq_iff unat_drop_bit_eq) (simp add: drop_bit_eq_div)
  moreover have "d AND 1 = (if bit d 0 then 1 else 0)" by (simp add: and_one_eq bit_0 mod_2_eq_odd)
  ultimately show ?thesis by simp
qed

lemma lba_regs:
  fixes n :: u32
  assumes "n < 1000"
  shows "unat (ucast (n AND 0xff) :: u8) + 256 * unat (ucast (drop_bit 8 n AND 0xff) :: u8)
    + 65536 * unat (ucast (drop_bit 16 n AND 0xff) :: u8) = unat n"
proof -
  have n: "unat n < 1000" using assms by (simp add: word_less_nat_alt)
  have low: "unat (ucast (x AND 0xff) :: u8) = unat x mod 256" for x :: u32
  proof -
    have "x AND 0xff = take_bit 8 x" by (simp add: take_bit_eq_mask mask_eq_exp_minus_1)
    then show ?thesis by (simp only: unsigned_ucast_eq unsigned_take_bit_eq) (simp add: take_bit_eq_mod)
  qed
  have "unat (drop_bit 8 n) = unat n div 256" "unat (drop_bit 16 n) = 0" using n by (simp_all only: unat_drop_bit_eq) (simp_all add: drop_bit_eq_div)
  then show ?thesis using n by (simp add: low)
qed

lemma out_dev:
  "outb H port v (s\<lparr>dev := c\<rparr>) = s\<lparr>dev := hw_out H port v c\<rparr>" "outsl H port bs (s\<lparr>dev := c\<rparr>) = s\<lparr>dev := hw_outs H port bs c\<rparr>"
  by (simp_all add: outb_def outsl_def)

lemma idestart_ok:
  assumes ata: "ata_laws H V" and b: "buf_ok (bufs s b)" and idle: "a_xfer (V (dev s)) = NoXfer"
  shows "\<exists>c. idestart H (Some b) s = Inr (s\<lparr>dev := c\<rparr>) \<and> started_on (bufs s b) (a_sectors (V (dev s))) (V c)"
proof -
  let ?x = "bufs s b"
  let ?n = "b_blockno ?x"
  let ?r = "0xe0 OR ucast (push_bit 4 (b_dev ?x AND 1)) OR ucast (drop_bit 24 ?n AND 0x0f)"
  have n: "?n < 1000" "\<not> 1000 \<le> ?n" and l: "length (b_data ?x) = 512" using b by (auto simp: buf_ok_def)
  have st: "ata_status H V" and rg: "ata_regs H V" and cm: "ata_commands H V" and dt: "ata_data H V"
    using ata by (simp_all add: ata_laws_def)
  obtain c0 where c0: "idewait H False s = Inr (0, s\<lparr>dev := c0\<rparr>)" "V c0 = (V (dev s))\<lparr>a_busy := False\<rparr>"
    using idewait_ok [OF st] by blast
  define c1 where "c1 = hw_out H 0x3f6 0 c0"
  define c2 where "c2 = hw_out H 0x1f2 1 c1"
  define c3 where "c3 = hw_out H 0x1f3 (ucast (?n AND 0xff)) c2"
  define c4 where "c4 = hw_out H 0x1f4 (ucast (drop_bit 8 ?n AND 0xff)) c3"
  define c5 where "c5 = hw_out H 0x1f5 (ucast (drop_bit 16 ?n AND 0xff)) c4"
  define c6 where "c6 = hw_out H 0x1f6 ?r c5"
  note cs = c1_def c2_def c3_def c4_def c5_def c6_def
  have R: "V (hw_out H 0x3f6 v c) = V c" "\<not> a_busy (V c) \<Longrightarrow> V (hw_out H 0x1f2 v c) = (V c)\<lparr>a_count := v\<rparr>"
    "\<not> a_busy (V c) \<Longrightarrow> V (hw_out H 0x1f3 v c) = (V c)\<lparr>a_lba0 := v\<rparr>" "\<not> a_busy (V c) \<Longrightarrow> V (hw_out H 0x1f4 v c) = (V c)\<lparr>a_lba1 := v\<rparr>"
    "\<not> a_busy (V c) \<Longrightarrow> V (hw_out H 0x1f5 v c) = (V c)\<lparr>a_lba2 := v\<rparr>" "\<not> a_busy (V c) \<Longrightarrow> V (hw_out H 0x1f6 v c) = (V c)\<lparr>a_drive := v\<rparr>" for v c
    using rg unfolding ata_regs_def by blast+
  have V1: "V c1 = V c0" unfolding c1_def by (rule R(1))
  have V2: "V c2 = (V c1)\<lparr>a_count := 1\<rparr>" unfolding c2_def by (rule R(2)) (simp add: V1 c0(2))
  have V3: "V c3 = (V c2)\<lparr>a_lba0 := ucast (?n AND 0xff)\<rparr>" unfolding c3_def by (rule R(3)) (simp add: V1 V2 c0(2))
  have V4: "V c4 = (V c3)\<lparr>a_lba1 := ucast (drop_bit 8 ?n AND 0xff)\<rparr>" unfolding c4_def by (rule R(4)) (simp add: V1 V2 V3 c0(2))
  have V5: "V c5 = (V c4)\<lparr>a_lba2 := ucast (drop_bit 16 ?n AND 0xff)\<rparr>" unfolding c5_def by (rule R(5)) (simp add: V1 V2 V3 V4 c0(2))
  have "V c6 = (V c5)\<lparr>a_drive := ?r\<rparr>" unfolding c6_def by (rule R(6)) (simp add: V1 V2 V3 V4 V5 c0(2))
  note V6 = V1 V2 V3 V4 V5 this [unfolded drive_reg [OF n(1)]]
  have lba: "a_lba (V c6) = unat ?n" using lba_regs [OF n(1)] V6 by (simp add: a_lba_def)
  have dr: "bit (a_drive (V c6)) 4 = buf_drive ?x" "bit (a_drive (V c6)) 6" using V6(6) by simp_all
  have pre: "\<not> a_busy (V c6)" "a_xfer (V c6) = NoXfer" "a_count (V c6) = 1" using V6 c0(2) idle by simp_all
  have sec: "a_sectors (V c6) = a_sectors (V (dev s))" using V6 c0(2) by simp
  have run: "idestart H (Some b) s = Inr (s\<lparr>dev := (if b_dirty ?x then hw_outs H 0x1f0 (b_data ?x) (hw_out H 0x1f7 0x30 c6)
      else hw_out H 0x1f7 0x20 c6)\<rparr>)"
    using n(2) by (simp add: idestart_def c0(1) Let_def out_dev cs)
  show ?thesis
  proof (cases "b_dirty ?x")
    case True
    obtain x where x: "V (hw_out H 0x1f7 0x30 c6) = (V c6)\<lparr>a_busy := x, a_xfer := Writes (bit (a_drive (V c6)) 4) (a_lba (V c6))\<rparr>"
      using cm pre dr(2) unfolding ata_commands_def by blast
    then have "a_xfer (V (hw_out H 0x1f7 0x30 c6)) = Writes (buf_drive ?x) (unat ?n)" using lba dr(1) by simp
    then obtain y where "V (hw_outs H 0x1f0 (b_data ?x) (hw_out H 0x1f7 0x30 c6)) = (V (hw_out H 0x1f7 0x30 c6))\<lparr>a_busy := y, a_xfer := NoXfer,
        a_sectors := set_sector (buf_drive ?x) (unat ?n) (b_data ?x) (a_sectors (V (hw_out H 0x1f7 0x30 c6)))\<rparr>"
      using dt l unfolding ata_data_def by blast
    then show ?thesis using run True x sec
      by (intro exI [of _ "hw_outs H 0x1f0 (b_data ?x) (hw_out H 0x1f7 0x30 c6)"]) (simp add: started_on_def)
  next
    case False
    obtain x where "V (hw_out H 0x1f7 0x20 c6) = (V c6)\<lparr>a_busy := x, a_xfer := Reads (bit (a_drive (V c6)) 4) (a_lba (V c6))\<rparr>"
      using cm pre dr(2) unfolding ata_commands_def by blast
    then show ?thesis using run False sec lba dr(1) by (intro exI [of _ "hw_out H 0x1f7 0x20 c6"]) (simp add: started_on_def)
  qed
qed

section \<open>The queue\<close>

fun qchain :: "(nat \<Rightarrow> nat option) \<Rightarrow> nat option \<Rightarrow> nat list \<Rightarrow> bool" where
  "qchain n p [] \<longleftrightarrow> p = None"
| "qchain n p (b # bs) \<longleftrightarrow> p = Some b \<and> qchain n (n b) bs"

lemma qchain_upd: "b \<notin> set q \<Longrightarrow> qchain (n(b := x)) p q = qchain n p q"
  by (induction q arbitrary: p) auto

lemma queue_last_ok: "qchain n (Some h) q \<Longrightarrow> queue_last n h = Some (last q)"
proof (induction q arbitrary: h)
  case (Cons b q)
  then have h: "h = b" "qchain n (n b) q" by simp_all
  show ?case
  proof (cases q)
    case Nil
    then show ?thesis using h by (subst queue_last.simps) simp
  next
    case (Cons c q')
    then have "n b = Some c" using h(2) by simp
    then show ?thesis using h Cons.IH [of c] Cons by (subst queue_last.simps) simp
  qed
qed simp

lemma qchain_append:
  "qchain n p q \<Longrightarrow> distinct q \<Longrightarrow> b \<notin> set q \<Longrightarrow> n b = None \<Longrightarrow> q \<noteq> [] \<Longrightarrow> qchain (n(last q := Some b)) p (q @ [b])"
proof (induction q arbitrary: p)
  case (Cons a q)
  show ?case
  proof (cases "q = []")
    case True
    then show ?thesis using Cons.prems by auto
  next
    case False
    moreover then have "a \<noteq> last q" using Cons.prems(2) by auto
    ultimately show ?thesis using Cons.IH [of "n a"] Cons.prems by simp
  qed
qed simp

lemma enqueue_ok:
  assumes "qchain (qnext s) (idequeue s) q" "distinct q" "b \<notin> set q"
  shows "\<exists>n p. enqueue b s = Inr (s\<lparr>qnext := n, idequeue := p\<rparr>) \<and> qchain n p (q @ [b]) \<and> (p = Some b \<longleftrightarrow> q = [])"
proof (cases q)
  case Nil
  then have "enqueue b s = Inr (s\<lparr>qnext := (qnext s)(b := None), idequeue := Some b\<rparr>)"
    using assms(1) by (simp add: enqueue_def Let_def)
  then show ?thesis using Nil by auto
next
  case (Cons h q')
  let ?n = "(qnext s)(b := None)"
  have q: "qchain ?n (idequeue s) q" using assms(1,3) by (simp add: qchain_upd)
  have h: "idequeue s = Some h" "h \<noteq> b" using assms(1,3) Cons by auto
  have l: "queue_last ?n h = Some (last q)" using q h(1) by (intro queue_last_ok) simp
  have "enqueue b s = Inr (s\<lparr>qnext := ?n(last q := Some b), idequeue := idequeue s\<rparr>)"
    using h(1) l by (simp add: enqueue_def Let_def)
  moreover have "qchain (?n(last q := Some b)) (idequeue s) (q @ [b])"
    using q assms(2,3) Cons by (intro qchain_append) auto
  moreover have "idequeue s = Some b \<longleftrightarrow> q = []" using h Cons by simp
  ultimately show ?thesis by blast
qed

section \<open>The first in, first out disk\<close>

text \<open>
  The specification: the sectors, the buffers and the requests that wait. Serving a buffer is what \<^verbatim>\<open>memide.c\<close> does
  in one call.
\<close>

type_synonym fifo_disk = "(bool \<Rightarrow> nat \<Rightarrow> u8 list) \<times> (nat \<Rightarrow> buf) \<times> nat list"

fun serve :: "nat \<Rightarrow> (bool \<Rightarrow> nat \<Rightarrow> u8 list) \<times> (nat \<Rightarrow> buf) \<Rightarrow> (bool \<Rightarrow> nat \<Rightarrow> u8 list) \<times> (nat \<Rightarrow> buf)" where
  "serve b (D, B) =
     (if b_dirty (B b) then (set_sector (buf_drive (B b)) (buf_lba (B b)) (b_data (B b)) D, B(b := (B b)\<lparr>b_valid := True, b_dirty := False\<rparr>))
      else (D, B(b := (B b)\<lparr>b_data := D (buf_drive (B b)) (buf_lba (B b)), b_valid := True\<rparr>)))"

text \<open>A process asks for a buffer; the drive interrupts; a buffer that is not waiting changes in some other way.\<close>

datatype disk_event = Ask nat | Interrupt | Change nat buf

fun fifo_step :: "disk_event \<Rightarrow> fifo_disk \<Rightarrow> fifo_disk" where
  "fifo_step (Ask b) (D, B, q) = (D, B, q @ [b])"
| "fifo_step Interrupt (D, B, []) = (D, B, [])"
| "fifo_step Interrupt (D, B, b # q) = (let (D, B) = serve b (D, B) in (D, B, q))"
| "fifo_step (Change b x) (D, B, q) = (D, B(b := x), q)"

definition fifo_run :: "disk_event list \<Rightarrow> fifo_disk \<Rightarrow> fifo_disk" where
  "fifo_run es a = fold fifo_step es a"

lemma iderw_serves:
  assumes "steady p s" "lock_free (BufLk b) s" "iderw b s = Inr t" "D True = disk s"
  shows "bufs t = snd (serve b (D, bufs s))" "disk t = fst (serve b (D, bufs s)) True"
proof -
  have d: "b_dev (bufs s b) = 1" using assms(3) by (auto simp: iderw_def holdingsleep_eq [OF assms(1,2)] split: if_splits)
  show "bufs t = snd (serve b (D, bufs s))" "disk t = fst (serve b (D, bufs s)) True"
    using assms(3,4) d by (auto simp: iderw_def holdingsleep_eq [OF assms(1,2)] Let_def upd_buf_def split: if_splits)
qed

text \<open>The requests that wait do not depend on the data.\<close>

fun pend_step :: "disk_event \<Rightarrow> nat list \<Rightarrow> nat list" where
  "pend_step (Ask b) q = q @ [b]"
| "pend_step Interrupt q = tl q"
| "pend_step (Change b x) q = q"

definition pending :: "disk_event list \<Rightarrow> nat list" where
  "pending es = fold pend_step es []"

lemma fifo_run_append: "fifo_run (es @ [e]) a = fifo_step e (fifo_run es a)"
  by (simp add: fifo_run_def)

lemma pending_append: "pending (es @ [e]) = pend_step e (pending es)"
  by (simp add: pending_def)

lemma fifo_step_pending: "snd (snd (fifo_step e (D, B, q))) = pend_step e q"
  by (cases e; cases q) (auto split: prod.splits)

lemma fifo_run_pending: "\<exists>D' B'. fifo_run es (D, B, []) = (D', B', pending es)"
proof (induction es rule: rev_induct)
  case (snoc e es)
  then obtain D' B' where "fifo_run es (D, B, []) = (D', B', pending es)" by blast
  then show ?case using fifo_step_pending [of e D' B' "pending es"]
    by (cases "fifo_step e (D', B', pending es)") (simp add: fifo_run_append pending_append)
qed (simp add: fifo_run_def pending_def)

section \<open>The driver implements it\<close>

definition wants_sync :: "buf \<Rightarrow> bool" where
  "wants_sync x \<longleftrightarrow> \<not> (b_valid x \<and> \<not> b_dirty x)"

fun ide_rel :: "('c \<Rightarrow> ata) \<Rightarrow> fifo_disk \<Rightarrow> 'c board \<Rightarrow> bool" where
  "ide_rel V (D, B, q) s \<longleftrightarrow> bufs s = B \<and> qchain (qnext s) (idequeue s) q \<and> distinct q \<and> (\<forall>b \<in> set q. buf_ok (B b) \<and> wants_sync (B b))
     \<and> (case q of [] \<Rightarrow> a_xfer (V (dev s)) = NoXfer \<and> a_sectors (V (dev s)) = D | b # _ \<Rightarrow> started_on (B b) D (V (dev s)))"

text \<open>What an interrupt needs of the machine, and what a request of process \<open>p\<close> for buffer \<open>b\<close> needs.\<close>

definition may_interrupt :: "'c board \<Rightarrow> bool" where
  "may_interrupt s \<longleftrightarrow> cli_ok s \<and> lock_free IdeLock s \<and> lock_free PtableLock s"

definition may_ask :: "nat \<Rightarrow> nat \<Rightarrow> nat list \<Rightarrow> 'c board \<Rightarrow> bool" where
  "may_ask p b q s \<longleftrightarrow> steady p s \<and> ncli (cpus s (curcpu s)) = 0
     \<and> lock_free IdeLock s \<and> lock_free PtableLock s \<and> lock_free (BufLk b) s
     \<and> sleeplocks s (BufLk b) = \<lparr>sl_locked = True, sl_pid = pid (ptable s p)\<rparr>
     \<and> b \<notin> set q \<and> buf_ok (bufs s b) \<and> wants_sync (bufs s b) \<and> (b_dev (bufs s b) = 0 \<or> havedisk1 s)"

lemma enter_board [simp]:
  "dev (enter lk s) = dev s" "idequeue (enter lk s) = idequeue s" "qnext (enter lk s) = qnext s" "havedisk1 (enter lk s) = havedisk1 s"
  by (simp_all add: enter_def Let_def)

lemma iderw_turn_ok:
  assumes ata: "ata_laws H V" and rel: "ide_rel V (D, B, q) s" and ask: "may_ask p b q s"
  shows "\<exists>i t. iderw_turn H b s = Inr (Waits i, t) \<and> ide_rel V (D, B, q @ [b]) t
    \<and> pstate (ptable t p) = SLEEPING \<and> chan (ptable t p) = ChanBuf b"
proof -
  have st: "steady p s" and n0: "ncli (cpus s (curcpu s)) = 0" and fr: "lock_free IdeLock s" "lock_free PtableLock s" "lock_free (BufLk b) s"
    and sl: "sleeplocks s (BufLk b) = \<lparr>sl_locked = True, sl_pid = pid (ptable s p)\<rparr>"
    and b: "b \<notin> set q" "buf_ok (bufs s b)" "wants_sync (bufs s b)" "b_dev (bufs s b) = 0 \<or> havedisk1 s"
    using ask by (simp_all add: may_ask_def)
  have r: "bufs s = B" "qchain (qnext s) (idequeue s) q" "distinct q" using rel by simp_all
  let ?e = "enter IdeLock s"
  obtain n h where nq: "enqueue b ?e = Inr (?e\<lparr>qnext := n, idequeue := h\<rparr>)" "qchain n h (q @ [b])" "h = Some b \<longleftrightarrow> q = []"
    using enqueue_ok [of ?e q b] r(2,3) b(1) by auto
  let ?u = "?e\<lparr>qnext := n, idequeue := h\<rparr>"
  have "\<exists>c. (if idequeue ?u = Some b then idestart H (Some b) ?u else Inr ?u) = Inr (?u\<lparr>dev := c\<rparr>)
      \<and> (case q @ [b] of [] \<Rightarrow> False | x # _ \<Rightarrow> started_on (B x) D (V c))"
  proof (cases q)
    case Nil
    then have i: "a_xfer (V (dev ?u)) = NoXfer" "a_sectors (V (dev ?u)) = D" using rel by simp_all
    have "buf_ok (bufs ?u b)" using b(2) by simp
    from idestart_ok [OF ata this i(1)] show ?thesis using Nil nq(3) i(2) r(1) by auto
  next
    case (Cons x q')
    then show ?thesis using rel nq(3) by (intro exI [of _ "dev s"]) simp
  qed
  then obtain c where c: "(if idequeue ?u = Some b then idestart H (Some b) ?u else Inr ?u) = Inr (?u\<lparr>dev := c\<rparr>)"
    "case q @ [b] of [] \<Rightarrow> False | x # _ \<Rightarrow> started_on (B x) D (V c)" by blast
  let ?w = "?u\<lparr>dev := c\<rparr>"
  have sec: "in_section IdeLock ?w" using n0 by (simp add: in_section_def holds_def) (simp add: enter_def Let_def)
  have "lock_free PtableLock ?e" using fr(2) by simp
  then have "lock_free PtableLock ?w" "running ?w (curcpu ?w) = Some p" using steadyD(2) [OF steady_enter [OF st]] by (simp_all add: lock_free_def)
  note so = sleep_out_eq [OF sec _ this, of "ChanBuf b"]
  let ?t = "?w\<lparr>locks := (locks ?w)(PtableLock := held_lk (curcpu ?w), IdeLock := free_lk),
      ptable := (ptable ?w)(p := (ptable ?w p)\<lparr>chan := ChanBuf b, pstate := SLEEPING\<rparr>)\<rparr>"
  have "iderw_turn H b s = Inr (Waits (intena (cpus ?w (curcpu ?w))), ?t)"
    using b(3,4) sl nq(1) c(1) so holdingsleep_eq [OF st fr(3)] acquire_steady [OF st fr(1)]
    by (simp add: iderw_turn_def iderw_wait_def wants_sync_def)
  moreover have "ide_rel V (D, B, q @ [b]) ?t" using r nq(2) b c(2) rel by (auto split: list.splits)
  ultimately show ?thesis by auto
qed

lemma insl_dev: "insl H port n (s\<lparr>dev := c\<rparr>) = (fst (hw_ins H port n c), s\<lparr>dev := snd (hw_ins H port n c)\<rparr>)"
  by (simp add: insl_def case_prod_beta)

text \<open>The part of the handler that moves the data.\<close>

lemma ideintr_data:
  assumes ata: "ata_laws H V" and x: "started_on (bufs s b) D (V (dev s))"
  shows "\<exists>c B. rbind (ide_read H b s) (\<lambda>s. Inr (upd_buf b (\<lambda>x. x\<lparr>b_valid := True, b_dirty := False\<rparr>) s)) = Inr (s\<lparr>dev := c, bufs := B\<rparr>)
    \<and> serve b (D, bufs s) = (a_sectors (V c), B) \<and> a_xfer (V c) = NoXfer"
proof (cases "b_dirty (bufs s b)")
  case True
  then show ?thesis using x
    by (intro exI [of _ "dev s"] exI [of _ "(bufs s)(b := (bufs s b)\<lparr>b_valid := True, b_dirty := False\<rparr>)"])
      (simp add: ide_read_def started_on_def upd_buf_def)
next
  case False
  let ?x = "bufs s b"
  obtain c where c: "idewait H True s = Inr (0, s\<lparr>dev := c\<rparr>)" "V c = (V (dev s))\<lparr>a_busy := False\<rparr>"
    using idewait_ok ata unfolding ata_laws_def by blast
  have v: "a_xfer (V c) = Reads (buf_drive ?x) (buf_lba ?x)" "a_sectors (V c) = D" "\<not> a_busy (V c)" using x False c(2) by (simp_all add: started_on_def)
  have "fst (hw_ins H 0x1f0 128 c) = a_sectors (V c) (buf_drive ?x) (buf_lba ?x)
      \<and> (\<exists>y. V (snd (hw_ins H 0x1f0 128 c)) = (V c)\<lparr>a_busy := y, a_xfer := NoXfer\<rparr>)"
    using ata v(1,3) unfolding ata_laws_def ata_data_def by blast
  then obtain y where i: "fst (hw_ins H 0x1f0 128 c) = D (buf_drive ?x) (buf_lba ?x)" "V (snd (hw_ins H 0x1f0 128 c)) = (V c)\<lparr>a_busy := y, a_xfer := NoXfer\<rparr>"
    using v(2) by auto
  let ?B = "(bufs s)(b := ?x\<lparr>b_data := D (buf_drive ?x) (buf_lba ?x), b_valid := True, b_dirty := False\<rparr>)"
  have "?x\<lparr>b_data := D (buf_drive ?x) (buf_lba ?x), b_valid := True, b_dirty := False\<rparr>
      = ?x\<lparr>b_data := D (buf_drive ?x) (buf_lba ?x), b_valid := True\<rparr>" using False by (intro buf.equality) simp_all
  then have "serve b (D, bufs s) = (D, ?B)" using False by (simp only: serve.simps if_False)
  moreover have "rbind (ide_read H b s) (\<lambda>s. Inr (upd_buf b (\<lambda>x. x\<lparr>b_valid := True, b_dirty := False\<rparr>) s))
      = Inr (s\<lparr>dev := snd (hw_ins H 0x1f0 128 c), bufs := ?B\<rparr>)"
    using False c(1) i(1) by (simp add: ide_read_def insl_dev upd_buf_def Let_def)
  moreover have "a_sectors (V (snd (hw_ins H 0x1f0 128 c))) = D" "a_xfer (V (snd (hw_ins H 0x1f0 128 c))) = NoXfer" using i(2) v(2) by simp_all
  ultimately show ?thesis by blast
qed

lemma ide_rel_cong:
  assumes "dev t = dev u" "idequeue t = idequeue u" "qnext t = qnext u" "bufs t = bufs u"
  shows "ide_rel V a t = ide_rel V a u"
  using assms by (cases a) (simp split: list.split)

lemma ideintr_ok:
  assumes ata: "ata_laws H V" and rel: "ide_rel V (D, B, q) s" and may: "may_interrupt s"
  shows "\<exists>t. ideintr H s = Inr t \<and> ide_rel V (fifo_step Interrupt (D, B, q)) t \<and> may_interrupt t
    \<and> ptable t = (case q of [] \<Rightarrow> ptable s | b # _ \<Rightarrow> woken (ChanBuf b) (ptable s))"
proof -
  have ok: "cli_ok s" "lock_free IdeLock s" "lock_free PtableLock s" using may by (simp_all add: may_interrupt_def)
  let ?e = "enter IdeLock s"
  have rls: "release IdeLock u = Inr (u\<lparr>eflags_IF := eflags_IF s, cpus := cpus (settled s), locks := locks s\<rparr>)"
    if "curcpu u = curcpu s" "\<not> eflags_IF u" "cpus u = cpus ?e" "locks u = locks ?e" for u :: "'a board"
    using release_enter [OF ok(1,2), of u] that by simp
  have may': "may_interrupt (u\<lparr>eflags_IF := eflags_IF s, cpus := cpus (settled s), locks := locks s\<rparr>)"
    if "curcpu u = curcpu s" for u :: "'a board"
    using ok that cli_ok_settled [of s] by (simp add: may_interrupt_def lock_free_def cli_ok_def)
  show ?thesis
  proof (cases q)
    case Nil
    then have "idequeue s = None" using rel by simp
    then have "ideintr H s = release IdeLock ?e" by (simp add: ideintr_def acquire_free [OF ok(1,2)])
    then show ?thesis using rls [of ?e] may' [of ?e] rel Nil by simp
  next
    case (Cons b q')
    have r: "idequeue s = Some b" "qchain (qnext s) (qnext s b) q'" "bufs s = B" "distinct q'" "b \<notin> set q'" "started_on (B b) D (V (dev s))"
      "\<forall>x \<in> set q'. buf_ok (B x) \<and> wants_sync (B x)"
      using rel Cons by auto
    let ?e1 = "?e\<lparr>idequeue := qnext s b\<rparr>"
    obtain c B' where c: "rbind (ide_read H b ?e1) (\<lambda>s. Inr (upd_buf b (\<lambda>x. x\<lparr>b_valid := True, b_dirty := False\<rparr>) s)) = Inr (?e1\<lparr>dev := c, bufs := B'\<rparr>)"
      "serve b (D, B) = (a_sectors (V c), B')" "a_xfer (V c) = NoXfer"
      using ideintr_data [OF ata, of ?e1 b D] r(3,6) by auto
    let ?f = "?e1\<lparr>dev := c, bufs := B'\<rparr>"
    have "cli_ok ?e" "lock_free PtableLock ?e" using ok by (simp_all add: cli_ok_enter)
    then have fok: "cli_ok ?f" "lock_free PtableLock ?f" by (simp_all add: cli_ok_def lock_free_def)
    have "ncli (cpus ?e (curcpu s)) \<noteq> 0" using ok(1) by (simp add: enter_def Let_def cli_ok_def)
    then have fs: "settled ?f = ?f" by (simp add: settled_def Let_def)
    let ?g = "?f\<lparr>ptable := woken (ChanBuf b) (ptable s)\<rparr>"
    have w: "wakeup (ChanBuf b) ?f = Inr ?g" using wakeup_eq [OF fok, of "ChanBuf b"] fs by simp
    have B': "B' x = B x" if "x \<noteq> b" for x using c(2) that by (auto split: if_splits)
    have "\<exists>c2. (if idequeue ?g \<noteq> None then idestart H (idequeue ?g) ?g else Inr ?g) = Inr (?g\<lparr>dev := c2\<rparr>)
      \<and> ide_rel V (a_sectors (V c), B', q') (?g\<lparr>dev := c2\<rparr>)"
    proof (cases q')
      case Nil
      then show ?thesis using r(2) c(3) by (intro exI [of _ c]) simp
    next
      case (Cons d q'')
      then have d: "qnext s b = Some d" "d \<noteq> b" using r(2,5) by auto
      have "buf_ok (bufs ?g d)" using r(7) Cons B' [OF d(2)] by simp
      from idestart_ok [OF ata this] c(3) obtain c2 where c2: "idestart H (Some d) ?g = Inr (?g\<lparr>dev := c2\<rparr>)"
        "started_on (B' d) (a_sectors (V c)) (V c2)" by auto
      have "\<forall>x \<in> set q'. B' x = B x" using B' r(5) by metis
      then show ?thesis using c2 d(1) Cons r(2,4,7) by (intro exI [of _ c2]) auto
    qed
    then obtain c2 where c2: "(if idequeue ?g \<noteq> None then idestart H (idequeue ?g) ?g else Inr ?g) = Inr (?g\<lparr>dev := c2\<rparr>)"
      "ide_rel V (a_sectors (V c), B', q') (?g\<lparr>dev := c2\<rparr>)" by blast
    let ?h = "?g\<lparr>dev := c2\<rparr>"
    let ?t = "?h\<lparr>eflags_IF := eflags_IF s, cpus := cpus (settled s), locks := locks s\<rparr>"
    obtain u where u: "ide_read H b ?e1 = Inr u" "upd_buf b (\<lambda>x. x\<lparr>b_valid := True, b_dirty := False\<rparr>) u = ?f"
      using c(1) by (auto elim!: rbind_InrE)
    have "release IdeLock ?h = Inr ?t" by (rule rls) simp_all
    then have "ideintr H s = Inr ?t"
      using r(1) u w c2(1) by (simp add: ideintr_def acquire_free [OF ok(1,2)])
    moreover have "ide_rel V (a_sectors (V c), B', q') ?t = ide_rel V (a_sectors (V c), B', q') ?h" by (rule ide_rel_cong) simp_all
    then have "ide_rel V (fifo_step Interrupt (D, B, q)) ?t" using c2(2) c(2) Cons by (simp only: fifo_step.simps Let_def prod.case)
    moreover have "may_interrupt ?t" using may' [of ?h] by simp
    ultimately show ?thesis using Cons by (intro exI [of _ ?t]) simp
  qed
qed

section \<open>Waking up\<close>

definition may_resume :: "nat \<Rightarrow> 'c board \<Rightarrow> bool" where
  "may_resume p s \<longleftrightarrow> in_section PtableLock s \<and> running s (curcpu s) = Some p \<and> lock_free IdeLock s"

text \<open>The state after \<^verbatim>\<open>sleep\<close> returns, before the lock is taken again.\<close>

definition awake :: "nat \<Rightarrow> bool \<Rightarrow> 'a procs_scheme \<Rightarrow> 'a procs_scheme" where
  "awake p i s = s\<lparr>ptable := (ptable s)(p := (ptable s p)\<lparr>chan := NoChan\<rparr>), eflags_IF := i,
     cpus := (cpus s)(curcpu s := (cpus s (curcpu s))\<lparr>intena := i, ncli := 0\<rparr>), locks := (locks s)(PtableLock := free_lk)\<rparr>"

lemma sleep_in_eq:
  fixes s :: "'a procs_scheme"
  assumes "in_section PtableLock s" "lk \<noteq> PtableLock" "lock_free lk s"
  shows "sleep_in p lk i s = Inr (enter lk (awake p i s))"
proof -
  let ?u = "s\<lparr>cpus := (cpus s)(curcpu s := (cpus s (curcpu s))\<lparr>intena := i\<rparr>), ptable := (ptable s)(p := (ptable s p)\<lparr>chan := NoChan\<rparr>)\<rparr>"
  have "in_section PtableLock ?u" using assms(1) by (simp add: in_section_def holds_def)
  from release_ptable_section [OF this] have r: "release PtableLock ?u = Inr (awake p i s)"
    by (simp add: awake_def)
  have "cli_ok (awake p i s)" "lock_free lk (awake p i s)" using assms(2,3) by (simp_all add: awake_def cli_ok_def lock_free_def)
  then have "acquire lk (awake p i s) = Inr (enter lk (awake p i s))" by (rule acquire_free)
  then show ?thesis using r assms(1,2) by (simp add: sleep_in_def sched_in_def cpu_simps upd_proc_def in_section_def)
qed

lemma iderw_resume_ok:
  assumes rel: "ide_rel V a s" and may: "may_resume p s"
  shows "\<exists>r t. iderw_resume p i b s = Inr (r, t) \<and> ide_rel V a t \<and> (r = Synced \<longleftrightarrow> \<not> wants_sync (bufs s b))"
proof -
  let ?a = "awake p i s"
  let ?e = "enter IdeLock ?a"
  have m: "in_section PtableLock s" "running s (curcpu s) = Some p" "lock_free IdeLock s" using may by (simp_all add: may_resume_def)
  have fa: "lock_free IdeLock ?a" "lock_free PtableLock ?a" "steady p ?a" "curcpu ?a = curcpu s" "ncli (cpus ?a (curcpu s)) = 0"
    using m(2,3) by (simp_all add: awake_def lock_free_def steady_def cli_ok_def)
  have drv: "dev ?a = dev s" "idequeue ?a = idequeue s" "qnext ?a = qnext s" "bufs ?a = bufs s" by (simp_all add: awake_def)
  have go: "iderw_resume p i b s = iderw_wait b ?e" using sleep_in_eq [OF m(1) _ m(3)] by (simp add: iderw_resume_def)
  show ?thesis
  proof (cases "wants_sync (bufs s b)")
    case True
    have sec: "in_section IdeLock ?e" using fa(4,5) by (simp add: in_section_def) (simp add: enter_def Let_def)
    have "lock_free PtableLock ?e" "running ?e (curcpu ?e) = Some p" using fa(2) steadyD(2) [OF steady_enter [OF fa(3)]] by simp_all
    note so = sleep_out_eq [OF sec _ this, of "ChanBuf b"]
    let ?t = "?e\<lparr>locks := (locks ?e)(PtableLock := held_lk (curcpu ?e), IdeLock := free_lk),
      ptable := (ptable ?e)(p := (ptable ?e p)\<lparr>chan := ChanBuf b, pstate := SLEEPING\<rparr>)\<rparr>"
    have "iderw_resume p i b s = Inr (Waits (intena (cpus ?e (curcpu ?e))), ?t)"
      unfolding go using True so drv by (simp add: iderw_wait_def wants_sync_def)
    moreover have "ide_rel V a ?t = ide_rel V a s" by (rule ide_rel_cong) (simp_all add: drv)
    ultimately show ?thesis using rel True by auto
  next
    case False
    then have "iderw_resume p i b s = Inr (Synced, ?a)"
      unfolding go using drv release_enter_same [OF fa(3,1)] by (simp add: iderw_wait_def wants_sync_def)
    moreover have "ide_rel V a ?a = ide_rel V a s" by (rule ide_rel_cong) (simp_all add: drv)
    ultimately show ?thesis using rel False by auto
  qed
qed

section \<open>Runs\<close>

text \<open>
  A run of the driver: requests, interrupts and wakeups in any order, and between them steps of the rest of the kernel, which leave
  the driver's data and the waiting buffers alone.
\<close>

inductive ide_run :: "'c hw \<Rightarrow> 'c board \<Rightarrow> disk_event list \<Rightarrow> 'c board \<Rightarrow> bool" for H s where
  starts: "ide_run H s [] s"
| asks: "ide_run H s es u \<Longrightarrow> may_ask p b (pending es) u \<Longrightarrow> iderw_turn H b u = Inr (r, t) \<Longrightarrow> ide_run H s (es @ [Ask b]) t"
| interrupts: "ide_run H s es u \<Longrightarrow> may_interrupt u \<Longrightarrow> ideintr H u = Inr t \<Longrightarrow> ide_run H s (es @ [Interrupt]) t"
| resumes: "ide_run H s es u \<Longrightarrow> may_resume p u \<Longrightarrow> iderw_resume p i b u = Inr (r, t) \<Longrightarrow> ide_run H s es t"
| changes: "ide_run H s es u \<Longrightarrow> dev t = dev u \<Longrightarrow> idequeue t = idequeue u \<Longrightarrow> qnext t = qnext u \<Longrightarrow>
     bufs t = (bufs u)(b := x) \<Longrightarrow> b \<notin> set (pending es) \<Longrightarrow> ide_run H s (es @ [Change b x]) t"

lemma ide_rel_change:
  assumes "ide_rel V (D, B, q) u" "dev t = dev u" "idequeue t = idequeue u" "qnext t = qnext u" "bufs t = (bufs u)(b := x)" "b \<notin> set q"
  shows "ide_rel V (D, B(b := x), q) t"
  using assms by (auto split: list.splits)

lemma ide_run_rel:
  assumes ata: "ata_laws H V" and s: "ide_rel V (D, B, []) s"
  shows "ide_run H s es t \<Longrightarrow> ide_rel V (fifo_run es (D, B, [])) t"
proof (induction rule: ide_run.induct)
  case starts
  then show ?case using s by (simp add: fifo_run_def)
next
  case (asks es u p b r t)
  obtain D' B' where a: "fifo_run es (D, B, []) = (D', B', pending es)" using fifo_run_pending by blast
  show ?case using iderw_turn_ok [OF ata, of D' B' "pending es" u p b] asks a by (auto simp: fifo_run_append simp del: ide_rel.simps)
next
  case (interrupts es u t)
  obtain D' B' where a: "fifo_run es (D, B, []) = (D', B', pending es)" using fifo_run_pending by blast
  show ?case using ideintr_ok [OF ata, of D' B' "pending es" u] interrupts a by (auto simp: fifo_run_append simp del: ide_rel.simps fifo_step.simps)
next
  case (resumes es u p i b r t)
  then show ?case using iderw_resume_ok [of V _ u p i b] by fastforce
next
  case (changes es u t b x)
  obtain D' B' where a: "fifo_run es (D, B, []) = (D', B', pending es)" using fifo_run_pending by blast
  then have "ide_rel V (D', B', pending es) u" using changes.IH by simp
  from ide_rel_change [OF this changes.hyps(2-6)] show ?case by (simp only: fifo_run_append a fifo_step.simps)
qed

section \<open>A read error\<close>

text \<open>
  A drive that reports an error for a read: the handler does not copy the data but marks the buffer valid all the same.
\<close>

lemma ideintr_read_error:
  assumes may: "may_interrupt s" and b: "idequeue s = Some b" "qnext s b = None" "\<not> b_dirty (bufs s b)"
    and err: "poll (hw_in H 0x1f7) ide_ready (dev s) = Some (r, c)" "r AND 0x21 \<noteq> 0"
  shows "\<exists>t. ideintr H s = Inr t \<and> bufs t b = (bufs s b)\<lparr>b_valid := True\<rparr> \<and> idequeue t = None
    \<and> ptable t = woken (ChanBuf b) (ptable s)"
proof -
  have ok: "cli_ok s" "lock_free IdeLock s" "lock_free PtableLock s" using may by (simp_all add: may_interrupt_def)
  let ?e = "enter IdeLock s"
  let ?B = "(bufs s)(b := (bufs s b)\<lparr>b_valid := True, b_dirty := False\<rparr>)"
  let ?f = "?e\<lparr>idequeue := None, dev := c, bufs := ?B\<rparr>"
  have "r AND (0x20 OR 1) \<noteq> 0" using err(2) by simp
  then have rd: "ide_read H b (?e\<lparr>idequeue := None\<rparr>) = Inr (?e\<lparr>idequeue := None, dev := c\<rparr>)"
    using b(3) err(1) by (simp add: ide_read_def idewait_def await_def)
  have "cli_ok ?e" "lock_free PtableLock ?e" using ok by (simp_all add: cli_ok_enter)
  then have fok: "cli_ok ?f" "lock_free PtableLock ?f" by (simp_all add: cli_ok_def lock_free_def)
  have "ncli (cpus ?e (curcpu s)) \<noteq> 0" using ok(1) by (simp add: enter_def Let_def cli_ok_def)
  then have fs: "settled ?f = ?f" by (simp add: settled_def Let_def)
  let ?g = "?f\<lparr>ptable := woken (ChanBuf b) (ptable s)\<rparr>"
  have w: "wakeup (ChanBuf b) ?f = Inr ?g" using wakeup_eq [OF fok, of "ChanBuf b"] fs by simp
  have "release IdeLock ?g = Inr (?g\<lparr>eflags_IF := eflags_IF s, cpus := cpus (settled s), locks := locks s\<rparr>)"
    by (rule release_enter [OF ok(1,2)]) simp_all
  then have "ideintr H s = Inr (?g\<lparr>eflags_IF := eflags_IF s, cpus := cpus (settled s), locks := locks s\<rparr>)"
    using b(1,2) w by (simp add: ideintr_def acquire_free [OF ok(1,2)] rd upd_buf_def)
  moreover have "(bufs s b)\<lparr>b_valid := True, b_dirty := False\<rparr> = (bufs s b)\<lparr>b_valid := True\<rparr>" using b(3) by (intro buf.equality) simp_all
  ultimately show ?thesis by simp
qed

section \<open>Properties\<close>

text \<open>
  C0: the disk driver is a first in, first out queue. For a drive that obeys the ATA rules and a driver that starts idle, after any
  sequence of requests, interrupts and wakeups in any order, the contents of the buffers are those of the specification, in which
  each interrupt serves the oldest request as the memory disk does, the queue holds the requests that wait, and once none waits
  the sectors are those of the specification. The driver never gets stuck: a request puts its process to sleep on the buffer, an
  interrupt returns and wakes the processes that sleep on the buffer it has served, and a process that wakes up returns
  exactly when its buffer is in step with the disk.
\<close>

theorem ide_driver_fifo:
  fixes s t :: "'c board"
  assumes ata: "ata_laws H V" and idle: "idequeue s = None" "a_xfer (V (dev s)) = NoXfer" and run: "ide_run H s es t"
    and spec: "fifo_run es (a_sectors (V (dev s)), bufs s, []) = (D, B, q)"
  shows "bufs t = B \<and> qchain (qnext t) (idequeue t) q \<and> (q = [] \<longrightarrow> a_sectors (V (dev t)) = D)
    \<and> (\<forall>p b. may_ask p b q t \<longrightarrow>
        (\<exists>i u. iderw_turn H b t = Inr (Waits i, u) \<and> pstate (ptable u p) = SLEEPING \<and> chan (ptable u p) = ChanBuf b))
    \<and> (may_interrupt t \<longrightarrow>
        (\<exists>u. ideintr H t = Inr u \<and> ptable u = (case q of [] \<Rightarrow> ptable t | b # _ \<Rightarrow> woken (ChanBuf b) (ptable t))))
    \<and> (\<forall>p i b. may_resume p t \<longrightarrow> (\<exists>r u. iderw_resume p i b t = Inr (r, u) \<and> (r = Synced \<longleftrightarrow> \<not> wants_sync (bufs t b))))"
proof -
  have "ide_rel V (a_sectors (V (dev s)), bufs s, []) s" using idle by simp
  from ide_run_rel [OF ata this run] have rel: "ide_rel V (D, B, q) t" unfolding spec .
  then have drv: "bufs t = B" "qchain (qnext t) (idequeue t) q" "q = [] \<longrightarrow> a_sectors (V (dev t)) = D" by auto
  show ?thesis
    using drv iderw_turn_ok [OF ata rel] ideintr_ok [OF ata rel] iderw_resume_ok [OF rel] by blast
qed

text \<open>A drive that is busy until its status is read once.\<close>

definition demo_ata_out :: "u16 \<Rightarrow> u8 \<Rightarrow> ata \<Rightarrow> ata" where
  "demo_ata_out port v c =
     (if port = 0x1f2 then c\<lparr>a_count := v\<rparr> else if port = 0x1f3 then c\<lparr>a_lba0 := v\<rparr> else if port = 0x1f4 then c\<lparr>a_lba1 := v\<rparr>
      else if port = 0x1f5 then c\<lparr>a_lba2 := v\<rparr> else if port = 0x1f6 then c\<lparr>a_drive := v\<rparr>
      else if port = 0x1f7 \<and> v = 0x20 then c\<lparr>a_busy := True, a_xfer := Reads (bit (a_drive c) 4) (a_lba c)\<rparr>
      else if port = 0x1f7 \<and> v = 0x30 then c\<lparr>a_busy := True, a_xfer := Writes (bit (a_drive c) 4) (a_lba c)\<rparr> else c)"

definition demo_ata_ins :: "u16 \<Rightarrow> nat \<Rightarrow> ata \<Rightarrow> u8 list \<times> ata" where
  "demo_ata_ins port n c = (case a_xfer c of Reads d l \<Rightarrow> (a_sectors c d l, c\<lparr>a_busy := True, a_xfer := NoXfer\<rparr>) | _ \<Rightarrow> (replicate (4 * n) 0, c))"

definition demo_ata_outs :: "u16 \<Rightarrow> u8 list \<Rightarrow> ata \<Rightarrow> ata" where
  "demo_ata_outs port bs c =
     (case a_xfer c of Writes d l \<Rightarrow> c\<lparr>a_busy := True, a_xfer := NoXfer, a_sectors := set_sector d l bs (a_sectors c)\<rparr> | _ \<Rightarrow> c)"

definition demo_ata :: "ata hw" where
  "demo_ata = \<lparr>hw_in = \<lambda>port c. (if a_busy c then 0x80 else 0x40, c\<lparr>a_busy := False\<rparr>), hw_out = demo_ata_out,
     hw_ins = demo_ata_ins, hw_outs = demo_ata_outs, hw_read = \<lambda>a c. (0, c), hw_write = \<lambda>a v c. c\<rparr>"

definition demo_drive :: ata where
  "demo_drive = \<lparr>a_count = 0, a_lba0 = 0, a_lba1 = 0, a_lba2 = 0, a_drive = 0xe0, a_busy = True, a_xfer = NoXfer,
     a_sectors = (\<lambda>_ _. replicate 512 0)\<rparr>"

lemma demo_ata_laws: "ata_laws demo_ata id"
proof -
  have r: "\<not> ide_ready 0x80" "ide_ready 0x40" by (simp_all add: ide_ready_def)
  have "ata_status demo_ata id"
    unfolding ata_status_def
  proof (intro conjI allI)
    fix c
    show "\<exists>x. id (snd (hw_in demo_ata 0x1f7 c)) = (id c)\<lparr>a_busy := x\<rparr> \<and> (ide_ready (fst (hw_in demo_ata 0x1f7 c)) \<longrightarrow> \<not> x)"
      by (auto simp: demo_ata_def)
    show "\<exists>n. ide_ready (fst (hw_in demo_ata 0x1f7 (reads (hw_in demo_ata 0x1f7) n c)))"
      by (rule exI [of _ 1]) (simp add: demo_ata_def r)
    show "ide_ready (fst (hw_in demo_ata 0x1f7 c)) \<longrightarrow> fst (hw_in demo_ata 0x1f7 c) AND 0x21 = 0"
      by (simp add: demo_ata_def r)
  qed
  moreover have "ata_regs demo_ata id" by (simp add: ata_regs_def demo_ata_def demo_ata_out_def)
  moreover have "ata_commands demo_ata id" by (auto simp: ata_commands_def demo_ata_def demo_ata_out_def)
  moreover have "ata_data demo_ata id" by (auto simp: ata_data_def demo_ata_def demo_ata_ins_def demo_ata_outs_def)
  ultimately show ?thesis by (simp add: ata_laws_def)
qed

definition demo_request :: "ata board" where
  "demo_request = (demo_board demo_drive)\<lparr>
     bufs := (bufs demo_kern)(4 := (bufs demo_kern 4)\<lparr>b_dirty := True, b_dev := 1, b_blockno := 7, b_data := replicate 512 9\<rparr>),
     sleeplocks := (sleeplocks demo_kern)(BufLk 4 := \<lparr>sl_locked = True, sl_pid = 4\<rparr>)\<rparr>"

lemma demo_request_ok:
  "may_ask 3 4 [] demo_request" "ide_rel id (a_sectors demo_drive, bufs demo_request, []) demo_request" "dev demo_request = demo_drive"
  "cpus demo_request = cpus demo_kern" "curcpu demo_request = curcpu demo_kern" "idequeue demo_request = None"
proof -
  have "steady 3 demo_request"
    by (simp add: steady_def cli_ok_def demo_request_def demo_board_def kern.extend_def demo_kern_def demo_cpu_def)
  then show "may_ask 3 4 [] demo_request"
    by (simp add: may_ask_def) (simp add: demo_request_def demo_board_def kern.extend_def board.fields_def demo_kern_def demo_cpu_def lock_free_def
        buf_ok_def wants_sync_def demo_proc_def)
  show "ide_rel id (a_sectors demo_drive, bufs demo_request, []) demo_request" "dev demo_request = demo_drive" "idequeue demo_request = None"
    by (simp_all add: demo_request_def demo_drive_def)
  show "cpus demo_request = cpus demo_kern" "curcpu demo_request = curcpu demo_kern"
    by (simp_all add: demo_request_def demo_board_def kern.extend_def)
qed

theorem ide_driver_fifo_witness:
  "\<exists>es t. pending es = [] \<and> ide_run demo_ata demo_request es t \<and> b_valid (bufs t 4) \<and> \<not> b_dirty (bufs t 4)
    \<and> a_sectors (dev t) True 7 = replicate 512 9 \<and> a_sectors (dev t) True 8 = replicate 512 0"
proof -
  let ?s = demo_request
  note rq = demo_request_ok
  obtain i t1 where t1: "iderw_turn demo_ata 4 ?s = Inr (Waits i, t1)" "ide_rel id (a_sectors demo_drive, bufs ?s, [] @ [4]) t1"
    using iderw_turn_ok [OF demo_ata_laws rq(2,1)] by blast
  have r1: "ide_run demo_ata ?s ([] @ [Ask 4]) t1"
    by (rule asks [OF starts _ t1(1), of 3]) (use rq(1) in \<open>simp add: pending_def\<close>)
  let ?t2 = "t1\<lparr>curcpu := curcpu demo_kern, eflags_IF := False, cpus := cpus demo_kern, locks := (\<lambda>_. free_lk)\<rparr>"
  let ?es2 = "([] @ [Ask 4]) @ [Change 5 (bufs ?s 5)]"
  have b1: "bufs t1 = bufs ?s" using t1(2) by simp
  have r2: "ide_run demo_ata ?s ?es2 ?t2" by (rule changes [OF r1]) (simp_all add: b1 pending_def)
  have m2: "may_interrupt ?t2" by (simp add: may_interrupt_def cli_ok_def lock_free_def demo_kern_def demo_cpu_def)
  have "ide_rel id (a_sectors demo_drive, (bufs ?s)(5 := bufs ?s 5), [4]) ?t2" by (rule ide_rel_change [of _ _ _ _ t1]) (use t1(2) b1 in simp_all)
  from ideintr_ok [OF demo_ata_laws this m2] obtain t where t: "ideintr demo_ata ?t2 = Inr t" by blast
  let ?es = "?es2 @ [Interrupt]"
  have r: "ide_run demo_ata ?s ?es t" by (rule interrupts [OF r2 m2 t])
  obtain D B q where f: "fifo_run ?es (a_sectors (id (dev ?s)), bufs ?s, []) = (D, B, q)" by (cases "fifo_run ?es (a_sectors (id (dev ?s)), bufs ?s, [])")
  have x: "bufs ?s 4 = (bufs demo_kern 4)\<lparr>b_dirty := True, b_dev := 1, b_blockno := 7, b_data := replicate 512 9\<rparr>"
    by (simp add: demo_request_def)
  have fx: "q = []" "b_valid (B 4)" "\<not> b_dirty (B 4)" "D True 7 = replicate 512 9" "D True 8 = replicate 512 0"
    using f by (auto simp: fifo_run_def x rq(3) demo_drive_def)
  have "a_xfer (id (dev ?s)) = NoXfer" by (simp add: rq(3) demo_drive_def)
  from ide_driver_fifo [OF demo_ata_laws rq(6) this r f] have "bufs t = B" "a_sectors (dev t) = D" using fx(1) by simp_all
  moreover have "pending ?es = []" by (simp add: pending_def)
  ultimately show ?thesis using r fx by blast
qed

end
