(* ===== verification/Spec2Isabelle.thy ===== *)
theory Spec2Isabelle
  imports ShmSpec PipeSpec ImageSpec Trap Grep UmallocSpec ShPrint Kbd Mp IdeSpec
begin

text \<open>
  A verification of an x86 kernel of the xv6 family with System V style shared memory, together with the programs around it
  that compute something: the image builder, the shell, \<^verbatim>\<open>grep\<close> and the user library.

  \<^bold>\<open>The program and its parts.\<close> The kernel runs processes in separate address spaces. \<^verbatim>\<open>kalloc.c\<close> hands out physical pages,
  \<^verbatim>\<open>vm.c\<close> builds page tables from them, \<^verbatim>\<open>proc.c\<close> keeps the process table and switches between processes, \<^verbatim>\<open>spinlock.c\<close> and
  \<^verbatim>\<open>sleeplock.c\<close> protect shared data. \<^verbatim>\<open>shm.c\<close> adds memory segments that several processes attach above their heap. The file
  system is a stack: a disk driver, the buffer cache \<^verbatim>\<open>bio.c\<close>, the redo log \<^verbatim>\<open>log.c\<close>, and blocks, inodes, directories and path
  names in \<^verbatim>\<open>fs.c\<close>; \<^verbatim>\<open>file.c\<close>, \<^verbatim>\<open>pipe.c\<close> and \<^verbatim>\<open>console.c\<close> are behind file descriptors. \<^verbatim>\<open>trap.c\<close> enters the kernel and
  \<^verbatim>\<open>syscall.c\<close> dispatches to \<^verbatim>\<open>sysproc.c\<close>, \<^verbatim>\<open>sysfile.c\<close> and \<^verbatim>\<open>exec.c\<close>. \<^verbatim>\<open>mkfs.c\<close> writes the initial disk image on the host.

  \<^bold>\<open>How the code is modelled.\<close> A C function is a HOL function with the same name (a prefix or suffix where the name is taken) on
  the state it touches. The state is one record that grows with the components, \<open>mach\<close> (locks, CPUs), \<open>phys\<close> (memory, free
  list), \<open>procs\<close>, \<open>shm\<close>, \<open>kern\<close> (disk, buffers, log, inodes, files, pipes, console). Machine integers are words of their width; a C
  \<^verbatim>\<open>int\<close> that is computed with is an integer whose overflow is an explicit case. Memory is a function from 32-bit addresses to
  bytes, and the free list, page tables and user data live in it. An outcome is \<open>Inr\<close> of a value or \<open>Inl\<close> of the reason why the
  code does not return one (\<^const>\<open>Panic\<close>, undefined behaviour \<^const>\<open>Undef\<close>, an endless loop \<^const>\<open>Spins\<close>, sleeping on a channel
  \<^const>\<open>Sleeps\<close>, \<^const>\<open>Exits\<close>, a pointer that has run through all addresses \<^const>\<open>Wraps\<close>). Code that switches to another process in the middle
  is cut there: \<open>sleep_out\<close> is the part before the switch and \<open>sleep_in\<close> the part after it.

  \<^bold>\<open>Theories.\<close>
  \<^item> \<open>Prelude\<close>, \<open>Mmu\<close>: words, outcomes, byte memory; the constants and macros of \<^verbatim>\<open>mmu.h\<close>, \<^verbatim>\<open>memlayout.h\<close> and \<^verbatim>\<open>param.h\<close>.
  \<^item> \<open>CString\<close>: \<^verbatim>\<open>string.c\<close>; \<^verbatim>\<open>memmove\<close> copies overlapping ranges, \<^verbatim>\<open>safestrcpy\<close> stays in its buffer and terminates it.
  \<^item> \<open>Spinlock\<close>: \<^verbatim>\<open>spinlock.c\<close>, and CPUs that interleave at single instructions; mutual exclusion is an invariant of that system.
  \<^item> \<open>Kalloc\<close>: \<^verbatim>\<open>kalloc.c\<close>; the linked list in free pages implements a stack of distinct pages (locale \<open>page_pool\<close>).
  \<^item> \<open>Vm\<close>, \<open>VmInv\<close>, \<open>UserMem\<close>: \<^verbatim>\<open>vm.c\<close>; page table invariant, what \<^verbatim>\<open>mappages\<close> adds to the translation, accesses through user addresses.
  \<^item> \<open>Proc\<close>, \<open>ProcInv\<close>, \<open>Sched\<close>, \<open>Fork\<close>: \<^verbatim>\<open>proc.c\<close>; the kernel's processes as a transition system, what is true in every reachable state,
    and that no wakeup is lost.
  \<^item> \<open>Shm\<close>, \<open>ShmInv\<close>, \<open>ShmAttach\<close>, \<open>ShmSpec\<close>: \<^verbatim>\<open>shm.c\<close>; the invariant of the segment table, creating, finding, attaching, detaching
    and removing segments (locale \<open>segment_store\<close>), and theorems that exhibit three defects.
  \<^item> \<open>Kern\<close>, \<open>Sleeplock\<close>, \<open>Calm\<close>: the kernel's remaining state, \<^verbatim>\<open>sleeplock.c\<close>, critical sections without contention.
  \<^item> \<open>Bio\<close>, \<open>BioInv\<close>, \<open>BioSpec\<close>: \<^verbatim>\<open>bio.c\<close> over the disk of \<^verbatim>\<open>memide.c\<close>; the ring of buffers and the array of blocks it implements
    (locale \<open>block_array\<close>).
  \<^item> \<open>Log\<close>, \<open>LogInv\<close>, \<open>LogSpec\<close>, \<open>TxnSpec\<close>: \<^verbatim>\<open>log.c\<close>; every disk write is recorded, a crash keeps a prefix of them, and recovery after any
    crash finds all of a transaction or nothing of it.
  \<^item> \<open>Printk\<close>, \<open>Console\<close>, \<open>Fs\<close>, \<open>FsData\<close>, \<open>FsCodec\<close>, \<open>BlockSpec\<close>: \<^verbatim>\<open>console.c\<close> and \<^verbatim>\<open>fs.c\<close>; the on-disk structures, and the bitmap as a set of blocks
    (locale \<open>block_allocator\<close>).
  \<^item> \<open>Pipe\<close>, \<open>PipeSpec\<close>, \<open>File\<close>: \<^verbatim>\<open>pipe.c\<close> and \<^verbatim>\<open>file.c\<close>; the ring buffer with wrapping counters is a bounded queue (locale \<open>bounded_queue\<close>).
  \<^item> \<open>Syscall\<close>, \<open>Exec\<close>, \<open>Sysfile\<close>, \<open>Trap\<close>: argument fetching, every system call, program loading and the trap handler.
  \<^item> \<open>Mkfs\<close>, \<open>MkfsSpec\<close>, \<open>MkfsRoom\<close>: \<^verbatim>\<open>mkfs.c\<close>; every block has one owner, the image holds the files, the kernel accepts it, and when the
    program succeeds.
  \<^item> \<open>Sh\<close>, \<open>ShSpec\<close>, \<open>ShPrint\<close>: \<^verbatim>\<open>sh.c\<close>; the parser returns, reads back printed commands and terminates their strings, and a command
    runs its programs with the right files and pipes.
  \<^item> \<open>Grep\<close>, \<open>Ulib\<close>: \<^verbatim>\<open>grep.c\<close> against the language of its patterns; \<^verbatim>\<open>ulib.c\<close> and \<^verbatim>\<open>printf.c\<close>.

  \<^bold>\<open>Bounds and fuel.\<close> Loops over fixed tables recurse on their index lists. A walk along the buffer list has \<^verbatim>\<open>NBUF\<close> steps of fuel, one for
  each buffer, and the ring invariant shows that it never uses them up. String loops count their turns up to the size of the
  address space. The shell's parser has four units of fuel for each byte of the text, one for each function of the recursion; a
  theorem shows that they suffice. All other recursion has a termination proof.

  \<^bold>\<open>What is assumed of the environment.\<close> A disk write of one block is atomic. Time stamps, characters from the devices and
  the outcome of host or user system calls are inputs. The linker supplies the end of the kernel image and the programs.

  \<^bold>\<open>Not modelled.\<close> The assembly sources and the boot sequence, which run before the state of the model exists or below the level
  of C; the drivers of the interrupt controllers, the timer, the serial port, the keyboard and the IDE disk, which only
  move values between device registers (the in-memory disk of \<^verbatim>\<open>memide.c\<close> has the interface of \<^verbatim>\<open>ide.c\<close>); the segment
  descriptors of \<^verbatim>\<open>seginit\<close>; diagnostic messages in \<^verbatim>\<open>vm.c\<close> and \<^verbatim>\<open>shm.c\<close> other than the listing of \<^verbatim>\<open>shminfo\<close>; the test programs
  and the small utilities, which only make system calls; the storage allocator \<^verbatim>\<open>umalloc.c\<close>.
\<close>

end
